(* ===== verification/Prelude.thy ===== *)
theory Prelude
  imports Main "HOL-Library.Word"
begin

text \<open>
  Shared vocabulary of the development.

  \<^item> Machine integers are words of the code's width (\<open>byte\<close>, \<open>u16\<close>, \<open>u32\<close>, \<open>u64\<close>).
  \<^item> A C++ pointer into a buffer is modelled by the list of the bytes from the pointer to the end
    of the object it points into; advancing the pointer is \<open>drop\<close>, and reading past the end of
    the object is the fault \<open>OutOfBounds\<close>.
  \<^item> Behaviour that C++ leaves undefined, and a failing \<open>assert\<close>, are values of the type
    \<open>fault\<close>; an operation that can have one returns \<open>'a res\<close>, with \<open>Inl\<close> the fault and
    \<open>Inr\<close> the result. An error the code reports itself (a return value of -1, a logged
    message and an early return) is part of the result, never a fault.
\<close>

unbundle bit_operations_syntax

section \<open>Machine integers and faults\<close>

type_synonym byte = "8 word"
type_synonym u16 = "16 word"
type_synonym u32 = "32 word"
type_synonym u64 = "64 word"

datatype fault =
    OutOfBounds      \<comment> \<open>a read or a copy past the end of an object\<close>
  | BufferOverflow   \<comment> \<open>a write past the end of an object\<close>
  | NullDeref        \<comment> \<open>a null (shared) pointer is dereferenced\<close>
  | BadAlloc         \<comment> \<open>an allocation of a negative size, or of more than there is\<close>
  | BadConversion    \<comment> \<open>a double outside the range of the integer type it is converted to\<close>
  | AssertFailed     \<comment> \<open>an \<open>assert\<close> of the source fails\<close>
  | StackOverflow    \<comment> \<open>a call that calls itself without end\<close>
  | BadShift         \<comment> \<open>a shift of an \<open>int\<close> beyond its width\<close>
  | OverlapCopy      \<comment> \<open>\<open>std::copy\<close> to a destination inside its source range\<close>

type_synonym 'a res = "fault + 'a"

text \<open>Sequencing: the first fault ends the computation.\<close>

fun bindE :: "'a res \<Rightarrow> ('a \<Rightarrow> 'b res) \<Rightarrow> 'b res" where
  "bindE (Inl e) f = Inl e"
| "bindE (Inr x) f = f x"

definition guardE :: "bool \<Rightarrow> fault \<Rightarrow> unit res" where
  "guardE b e = (if b then Inr () else Inl e)"

named_theorems codec_simps
named_theorems fault_simps

lemma bindE_eq_Inr [simp]: "bindE m f = Inr y \<longleftrightarrow> (\<exists>x. m = Inr x \<and> f x = Inr y)"
  by (cases m) auto

lemma bindE_eq_Inl [simp]:
  "bindE m f = Inl e \<longleftrightarrow> m = Inl e \<or> (\<exists>x. m = Inr x \<and> f x = Inl e)"
  by (cases m) auto

lemma bindE_InrE:
  assumes "bindE m f = Inr y"
  obtains x where "m = Inr x" "f x = Inr y"
  using assms by auto

lemma bindE_assoc [simp]: "bindE (bindE m f) g = bindE m (\<lambda>x. bindE (f x) g)"
  by (cases m) auto

lemma bindE_cong [fundef_cong]:
  "m = m' \<Longrightarrow> (\<And>x. m' = Inr x \<Longrightarrow> f x = f' x) \<Longrightarrow> bindE m f = bindE m' f'"
  by (cases m') auto

lemma guardE_simps [simp]:
  "guardE True e = Inr ()" "guardE False e = Inl e"
  "guardE b e = Inr u \<longleftrightarrow> b" "guardE b e = Inl e' \<longleftrightarrow> \<not> b \<and> e' = e"
  by (auto simp: guardE_def)

text \<open>A bounded statement, read as a disjunction.\<close>

lemma disj_small: "((n :: nat) < m \<longrightarrow> P) \<longleftrightarrow> m \<le> n \<or> P"
  by auto

section \<open>Lists\<close>

text \<open>\<open>memcpy\<close> of a list of bytes over a buffer, at an offset.\<close>

definition overwrite :: "nat \<Rightarrow> 'a list \<Rightarrow> 'a list \<Rightarrow> 'a list" where
  "overwrite off new buf = take off buf @ new @ drop (off + length new) buf"

lemma length_overwrite [simp]:
  "off + length new \<le> length buf \<Longrightarrow> length (overwrite off new buf) = length buf"
  by (simp add: overwrite_def)

lemma take_overwrite [simp]:
  "off \<le> length buf \<Longrightarrow> take off (overwrite off new buf) = take off buf"
  by (simp add: overwrite_def)

lemma take_overwrite_end:
  "off + length new \<le> length buf \<Longrightarrow>
   take (off + length new) (overwrite off new buf) = take off buf @ new"
  by (simp add: overwrite_def)

lemma overwrite_Nil [simp]: "overwrite off [] buf = buf"
  by (simp add: overwrite_def)

lemma drop_overwrite [simp]:
  "off + length new \<le> length buf \<Longrightarrow>
   drop (off + length new) (overwrite off new buf) = drop (off + length new) buf"
  by (simp add: overwrite_def)

lemma drop_take_overwrite:
  assumes "a \<le> off" "off + length new \<le> length buf"
  shows "drop a (take (off + length new) (overwrite off new buf)) = drop a (take off buf) @ new"
  using assms by (simp add: take_overwrite_end)

lemma drop_overwrite_at:
  assumes "off + length new \<le> t" "t \<le> length buf"
  shows "drop off (take t (overwrite off new buf)) = new @ drop (off + length new) (take t buf)"
proof -
  have "new = [] \<or> off < length buf" using assms by (cases new) auto
  with assms show ?thesis by (auto simp: overwrite_def drop_take min_def)
qed

lemma drop_append_length [simp]: "drop (length xs) (xs @ ys) = ys"
  by simp

text \<open>A copy of \<open>n\<close> bytes from a pointer.\<close>

definition mem_read :: "nat \<Rightarrow> 'a list \<Rightarrow> 'a list res" where
  "mem_read n p = (if n \<le> length p then Inr (take n p) else Inl OutOfBounds)"

lemma mem_read_simps [simp]:
  "n \<le> length p \<Longrightarrow> mem_read n p = Inr (take n p)"
  "length p < n \<Longrightarrow> mem_read n p = Inl OutOfBounds"
  by (auto simp: mem_read_def)

lemma mem_read_eq_Inr: "mem_read n p = Inr q \<longleftrightarrow> n \<le> length p \<and> q = take n p"
  by (auto simp: mem_read_def)

text \<open>\<open>list[n]\<close> of a vector, or \<open>p[n]\<close> of a pointer.\<close>

definition element :: "nat \<Rightarrow> 'a list \<Rightarrow> 'a res" where
  "element n xs = (if n < length xs then Inr (xs ! n) else Inl OutOfBounds)"

lemma element_simps [simp]:
  "n < length xs \<Longrightarrow> element n xs = Inr (xs ! n)"
  "length xs \<le> n \<Longrightarrow> element n xs = Inl OutOfBounds"
  by (auto simp: element_def)

text \<open>Subtraction of \<open>size_t\<close> values, which wraps below zero.\<close>

definition size_sub :: "nat \<Rightarrow> nat \<Rightarrow> nat" where
  "size_sub a b = (if b \<le> a then a - b else a + 2 ^ 64 - b)"

lemma size_sub_le [simp]: "b \<le> a \<Longrightarrow> size_sub a b = a - b"
  by (simp add: size_sub_def)

text \<open>A 32-bit value below \<open>2 ^ 31\<close> is the same number signed and unsigned.\<close>

lemma unat_u32_less: "unat (w :: u32) < 2 ^ 32"
  using unsigned_less [of w] by simp

lemma unat_u64_less: "unat (w :: u64) < 2 ^ 64"
  using unsigned_less [of w] by simp

lemma sint_unat_small:
  assumes "unat (w :: u32) < 2 ^ 31"
  shows "sint w = int (unat w)"
proof -
  have "int (unat w) < int (2 ^ 31)" using assms by (simp only: of_nat_less_iff)
  then have "uint w < 2 ^ 31" by simp
  moreover have "- (2 ^ 31) \<le> uint w" by (rule order_trans [OF _ uint_ge_0]) simp
  ultimately have "signed_take_bit 31 (uint w) = uint w" by (intro signed_take_bit_int_eq_self) simp_all
  then show ?thesis by (simp add: sint_uint)
qed

lemma sint_neg_u32:
  assumes "2 ^ 31 \<le> unat (w :: u32)"
  shows "sint w < 0"
proof -
  have "bit (uint w) 31"
  proof -
    have "uint w < 2 ^ 32" using uint_lt2p [of w] by simp
    moreover have "2 ^ 31 \<le> uint w" using assms by (metis of_nat_le_iff of_nat_numeral of_nat_power uint_nat)
    ultimately have "uint w div 2 ^ 31 = 1" by simp
    then show ?thesis by (simp add: bit_iff_odd)
  qed
  then show ?thesis by (simp add: sint_uint signed_take_bit_negative_iff)
qed

text \<open>Conversions of a signed value to \<open>uint32_t\<close>: a negative one becomes at least \<open>2 ^ 31\<close>.\<close>

lemma unat_word_of_int_u32:
  assumes "0 \<le> n" "n < 2 ^ 32"
  shows "unat (word_of_int n :: u32) = nat n"
proof -
  have "uint (word_of_int n :: u32) = n" using assms by (simp add: uint_word_of_int)
  then show ?thesis by (simp only: unat_eq_nat_uint)
qed

lemma unat_word_of_neg_u32:
  assumes "n < 0" "- (2 ^ 31) \<le> n"
  shows "2 ^ 31 \<le> unat (word_of_int n :: u32)"
proof -
  have "n mod 2 ^ 32 = (n + 2 ^ 32) mod 2 ^ 32" by simp
  also have "\<dots> = n + 2 ^ 32" using assms by (intro mod_pos_pos_trivial) auto
  finally have "uint (word_of_int n :: u32) = n + 2 ^ 32" by (simp add: uint_word_of_int)
  then have "unat (word_of_int n :: u32) = nat (n + 2 ^ 32)" by (simp only: unat_eq_nat_uint)
  also have "nat (2 ^ 31) \<le> \<dots>" using assms by (intro nat_mono) simp
  finally show ?thesis by simp
qed

end
