(* ===== verification/Bytes.thy ===== *)
theory Bytes
  imports Prelude
begin

text \<open>
  Big-endian integer fields: \<open>src/mmedia/base/BytesReader.cpp\<close> and \<open>BytesWriter.cpp\<close>.
  A reader takes the bytes from its pointer on; a writer returns the bytes it stores, whose
  number is the value the code returns. \<open>ReadUint64T\<close> goes through a \<open>double\<close>: its bits are
  an IEEE 754 binary64 pattern, which the code converts to an integer, so that conversion
  (defined by the C++ standard only inside the integer's range) is modelled on the pattern.
\<close>

section \<open>Readers and writers\<close>

definition ReadUint8T :: "byte list \<Rightarrow> byte res" where
  "ReadUint8T p = (case p of a # _ \<Rightarrow> Inr a | _ \<Rightarrow> Inl OutOfBounds)"

definition ReadUint16T :: "byte list \<Rightarrow> u16 res" where
  "ReadUint16T p = (case p of a # b # _ \<Rightarrow> Inr (push_bit 8 (ucast a) OR ucast b)
     | _ \<Rightarrow> Inl OutOfBounds)"

definition ReadUint24T :: "byte list \<Rightarrow> u32 res" where
  "ReadUint24T p = (case p of
       a # b # c # _ \<Rightarrow> Inr (push_bit 16 (ucast a) OR push_bit 8 (ucast b) OR ucast c)
     | _ \<Rightarrow> Inl OutOfBounds)"

definition ReadUint32T :: "byte list \<Rightarrow> u32 res" where
  "ReadUint32T p = (case p of
       a # b # c # d # _ \<Rightarrow> Inr (push_bit 24 (ucast a) OR push_bit 16 (ucast b)
         OR push_bit 8 (ucast c) OR ucast d)
     | _ \<Rightarrow> Inl OutOfBounds)"

text \<open>The eight bytes as the code's \<open>__bswap_64\<close> of a little-endian load gives them.\<close>

definition load_be64 :: "byte list \<Rightarrow> u64 res" where
  "load_be64 p = (case p of
       a # b # c # d # e # f # g # h # _ \<Rightarrow>
         Inr (push_bit 56 (ucast a) OR push_bit 48 (ucast b) OR push_bit 40 (ucast c)
           OR push_bit 32 (ucast d) OR push_bit 24 (ucast e) OR push_bit 16 (ucast f)
           OR push_bit 8 (ucast g) OR ucast h)
     | _ \<Rightarrow> Inl OutOfBounds)"

definition WriteUint8T :: "byte \<Rightarrow> byte list" where
  "WriteUint8T v = [v]"

definition WriteUint16T :: "u16 \<Rightarrow> byte list" where
  "WriteUint16T v = [ucast (drop_bit 8 v), ucast v]"

definition WriteUint24T :: "u32 \<Rightarrow> byte list" where
  "WriteUint24T v = [ucast (drop_bit 16 v), ucast (drop_bit 8 v), ucast v]"

definition WriteUint32T :: "u32 \<Rightarrow> byte list" where
  "WriteUint32T v =
     [ucast (drop_bit 24 v), ucast (drop_bit 16 v), ucast (drop_bit 8 v), ucast v]"

definition store_be64 :: "u64 \<Rightarrow> byte list" where
  "store_be64 v =
     [ucast (drop_bit 56 v), ucast (drop_bit 48 v), ucast (drop_bit 40 v), ucast (drop_bit 32 v),
      ucast (drop_bit 24 v), ucast (drop_bit 16 v), ucast (drop_bit 8 v), ucast v]"

text \<open>\<open>memcpy\<close> of an integer on a little-endian host, and the load that reads it back.\<close>

definition store_le16 :: "u16 \<Rightarrow> byte list" where
  "store_le16 v = [ucast v, ucast (drop_bit 8 v)]"

definition store_le32 :: "u32 \<Rightarrow> byte list" where
  "store_le32 v =
     [ucast v, ucast (drop_bit 8 v), ucast (drop_bit 16 v), ucast (drop_bit 24 v)]"

definition load_le32 :: "byte list \<Rightarrow> u32 res" where
  "load_le32 p = (case p of
       a # b # c # d # _ \<Rightarrow> Inr (push_bit 24 (ucast d) OR push_bit 16 (ucast c)
         OR push_bit 8 (ucast b) OR ucast a)
     | _ \<Rightarrow> Inl OutOfBounds)"

section \<open>The contract of a fixed-width field\<close>

locale field_codec =
  fixes enc :: "'a \<Rightarrow> byte list"
    and dec :: "byte list \<Rightarrow> 'a res"
    and width :: nat
    and ok :: "'a \<Rightarrow> bool"
  assumes length_enc: "length (enc v) = width"
    and dec_enc: "ok v \<Longrightarrow> dec (enc v @ rest) = Inr v"
    and dec_short: "length p < width \<Longrightarrow> dec p = Inl OutOfBounds"
    and dec_long: "width \<le> length p \<Longrightarrow> \<exists>v. dec p = Inr v"
    and dec_prefix: "width \<le> length p \<Longrightarrow> dec (p @ q) = dec p"
begin

lemma dec_at: "ok v \<Longrightarrow> dec (drop (length pre) (pre @ enc v @ rest)) = Inr v"
  by (simp add: dec_enc)

lemma dec_exact: "ok v \<Longrightarrow> dec (enc v) = Inr v"
  using dec_enc [of v "[]"] by simp

lemma dec_safe_iff: "(\<exists>v. dec p = Inr v) \<longleftrightarrow> width \<le> length p"
  using dec_long dec_short by (metis Inl_Inr_False not_le)

lemma dec_fault_iff: "dec p = Inl e \<longleftrightarrow> length p < width \<and> e = OutOfBounds"
  by (metis dec_long dec_short linorder_not_less sum.distinct(1) sum.inject(1))

lemma enc_inj: "ok v \<Longrightarrow> ok w \<Longrightarrow> enc v = enc w \<Longrightarrow> v = w"
  using dec_exact by (metis sum.inject(2))

end

lemma ge_2_Cons: "2 \<le> length p \<Longrightarrow> \<exists>a b r. p = a # b # r"
  by (metis Suc_le_length_iff numeral_2_eq_2)

lemma ge_3_Cons: "3 \<le> length p \<Longrightarrow> \<exists>a b c r. p = a # b # c # r"
  by (metis Suc_le_length_iff numeral_3_eq_3)

lemma ge_4_Cons: "4 \<le> length p \<Longrightarrow> \<exists>a b c d r. p = a # b # c # d # r"
  by (metis (no_types, opaque_lifting) Suc_le_length_iff eval_nat_numeral(2) ge_3_Cons
      numeral_3_eq_3 semiring_norm(26-28))

lemma ge_8_Cons: "8 \<le> length p \<Longrightarrow> \<exists>a b c d e f g h r. p = a # b # c # d # e # f # g # h # r"
proof -
  assume a: "8 \<le> length p"
  then obtain a b c d r where p: "p = a # b # c # d # r" using ge_4_Cons [of p] by auto
  with a have "4 \<le> length r" by simp
  then obtain e f g h r' where "r = e # f # g # h # r'" using ge_4_Cons by blast
  with p show ?thesis by blast
qed

section \<open>The code's readers and writers meet the contract\<close>

text \<open>One byte of a word, put back in its place, is the word masked to that place.\<close>

lemma byte_slice:
  "push_bit k (ucast (ucast (drop_bit k v) :: byte)) = (v :: 'a::len word) AND push_bit k (mask 8)"
  by (rule bit_word_eqI) (auto simp: bit_simps)

lemma byte_slice0: "ucast (ucast v :: byte) = (v :: 'a::len word) AND mask 8"
  by (rule bit_word_eqI) (auto simp: bit_simps)

lemma and_all_ones [simp]:
  "v AND 65535 = (v :: u16)" "w AND 4294967295 = (w :: u32)"
  "x AND 18446744073709551615 = (x :: u64)"
proof -
  have "(65535 :: u16) = -1" "(4294967295 :: u32) = -1" "(18446744073709551615 :: u64) = -1"
    by simp_all
  then show "v AND 65535 = v" "w AND 4294967295 = w" "x AND 18446744073709551615 = x"
    by (simp_all only: and.right_neutral)
qed

lemma u16_roundtrip: "push_bit 8 (ucast (ucast (drop_bit 8 v) :: byte)) OR ucast (ucast v :: byte) = (v :: u16)"
  unfolding byte_slice unfolding byte_slice0 word_ao_dist2 [symmetric] by (simp add: mask_numeral)

lemma u24_roundtrip:
  assumes "v < 2 ^ 24"
  shows "push_bit 16 (ucast (ucast (drop_bit 16 v) :: byte)) OR
     push_bit 8 (ucast (ucast (drop_bit 8 v) :: byte)) OR ucast (ucast v :: byte) = (v :: u32)"
proof -
  have "v AND mask 24 = v"
    by (rule less_mask_eq [OF assms])
  then show ?thesis
    unfolding byte_slice unfolding byte_slice0 word_ao_dist2 [symmetric] by (simp add: mask_numeral)
qed

lemma u32_roundtrip:
  "push_bit 24 (ucast (ucast (drop_bit 24 v) :: byte)) OR
   push_bit 16 (ucast (ucast (drop_bit 16 v) :: byte)) OR
   push_bit 8 (ucast (ucast (drop_bit 8 v) :: byte)) OR ucast (ucast v :: byte) = (v :: u32)"
  unfolding byte_slice unfolding byte_slice0 word_ao_dist2 [symmetric] by (simp add: mask_numeral)

lemma u64_roundtrip:
  "push_bit 56 (ucast (ucast (drop_bit 56 v) :: byte)) OR
   push_bit 48 (ucast (ucast (drop_bit 48 v) :: byte)) OR
   push_bit 40 (ucast (ucast (drop_bit 40 v) :: byte)) OR
   push_bit 32 (ucast (ucast (drop_bit 32 v) :: byte)) OR
   push_bit 24 (ucast (ucast (drop_bit 24 v) :: byte)) OR
   push_bit 16 (ucast (ucast (drop_bit 16 v) :: byte)) OR
   push_bit 8 (ucast (ucast (drop_bit 8 v) :: byte)) OR ucast (ucast v :: byte) = (v :: u64)"
  unfolding byte_slice unfolding byte_slice0 word_ao_dist2 [symmetric] by (simp add: mask_numeral)

lemma less_2_cases: "length p < 2 \<longleftrightarrow> p = [] \<or> (\<exists>a. p = [a])"
  by (cases p; cases "tl p") auto

interpretation u8: field_codec WriteUint8T ReadUint8T 1 "\<lambda>_. True"
  by unfold_locales (auto simp: WriteUint8T_def ReadUint8T_def split: list.splits)

interpretation u16: field_codec WriteUint16T ReadUint16T 2 "\<lambda>_. True"
proof unfold_locales
  show "ReadUint16T p = Inl OutOfBounds" if "length p < 2" for p
    using that by (auto simp: ReadUint16T_def split: list.splits)
  show "\<exists>v. ReadUint16T p = Inr v" if "2 \<le> length p" for p
    using ge_2_Cons [OF that] by (auto simp: ReadUint16T_def)
  show "ReadUint16T (p @ q) = ReadUint16T p" if "2 \<le> length p" for p q
    using ge_2_Cons [OF that] by (auto simp: ReadUint16T_def)
qed (simp_all add: WriteUint16T_def ReadUint16T_def u16_roundtrip)

interpretation u24: field_codec WriteUint24T ReadUint24T 3 "\<lambda>v. v < 2 ^ 24"
proof unfold_locales
  show "ReadUint24T p = Inl OutOfBounds" if "length p < 3" for p
    using that by (auto simp: ReadUint24T_def split: list.splits)
  show "\<exists>v. ReadUint24T p = Inr v" if "3 \<le> length p" for p
    using ge_3_Cons [OF that] by (auto simp: ReadUint24T_def)
  show "ReadUint24T (p @ q) = ReadUint24T p" if "3 \<le> length p" for p q
    using ge_3_Cons [OF that] by (auto simp: ReadUint24T_def)
  show "ReadUint24T (WriteUint24T v @ rest) = Inr v" if "v < 2 ^ 24" for v rest
    using u24_roundtrip [OF that] by (simp add: WriteUint24T_def ReadUint24T_def)
qed (simp add: WriteUint24T_def)

interpretation u32: field_codec WriteUint32T ReadUint32T 4 "\<lambda>_. True"
proof unfold_locales
  show "ReadUint32T p = Inl OutOfBounds" if "length p < 4" for p
    using that by (auto simp: ReadUint32T_def split: list.splits)
  show "\<exists>v. ReadUint32T p = Inr v" if "4 \<le> length p" for p
    using ge_4_Cons [OF that] by (auto simp: ReadUint32T_def)
  show "ReadUint32T (p @ q) = ReadUint32T p" if "4 \<le> length p" for p q
    using ge_4_Cons [OF that] by (auto simp: ReadUint32T_def)
qed (simp_all add: WriteUint32T_def ReadUint32T_def u32_roundtrip)

interpretation le32: field_codec store_le32 load_le32 4 "\<lambda>_. True"
proof unfold_locales
  show "load_le32 p = Inl OutOfBounds" if "length p < 4" for p
    using that by (auto simp: load_le32_def split: list.splits)
  show "\<exists>v. load_le32 p = Inr v" if "4 \<le> length p" for p
    using ge_4_Cons [OF that] by (auto simp: load_le32_def)
  show "load_le32 (p @ q) = load_le32 p" if "4 \<le> length p" for p q
    using ge_4_Cons [OF that] by (auto simp: load_le32_def)
qed (simp_all add: store_le32_def load_le32_def u32_roundtrip)

interpretation u64: field_codec store_be64 load_be64 8 "\<lambda>_. True"
proof unfold_locales
  show "load_be64 p = Inl OutOfBounds" if "length p < 8" for p
    using that by (auto simp: load_be64_def split: list.splits)
  show "\<exists>v. load_be64 p = Inr v" if "8 \<le> length p" for p
    using ge_8_Cons [OF that] by (auto simp: load_be64_def)
  show "load_be64 (p @ q) = load_be64 p" if "8 \<le> length p" for p q
    using ge_8_Cons [OF that] by (auto simp: load_be64_def)
qed (simp_all add: store_be64_def load_be64_def u64_roundtrip)

lemmas field_lengths [simp] =
  u8.length_enc u16.length_enc u24.length_enc u32.length_enc u64.length_enc le32.length_enc

section \<open>Doubles\<close>

text \<open>
  A \<open>double\<close> is its IEEE 754 binary64 pattern: a sign bit, eleven exponent bits biased by 1023,
  fifty-two fraction bits. The conversion to \<open>uint64_t\<close> truncates towards zero, and has no
  defined result when the truncated value does not fit; the conversion from \<open>uint64_t\<close> is exact
  below \<open>2 ^ 53\<close> and rounds to the nearest pattern, ties to even, above.
\<close>

type_synonym dbl = u64

definition dbl_to_u64 :: "dbl \<Rightarrow> u64 res" where
  "dbl_to_u64 d =
     (let b = unat d; neg = (2 ^ 63 \<le> b); e = (b div 2 ^ 52) mod 2 ^ 11; f = b mod 2 ^ 52
      in if e = 2047 then Inl BadConversion
         else if e < 1023 then Inr 0
         else if neg \<or> 1023 + 64 \<le> e then Inl BadConversion
         else if e < 1075 then Inr (of_nat ((2 ^ 52 + f) div 2 ^ (1075 - e)))
         else Inr (of_nat ((2 ^ 52 + f) * 2 ^ (e - 1075))))"

fun ilog2 :: "nat \<Rightarrow> nat" where
  "ilog2 n = (if n < 2 then 0 else Suc (ilog2 (n div 2)))"

declare ilog2.simps [simp del]

definition u64_to_dbl :: "u64 \<Rightarrow> dbl" where
  "u64_to_dbl v =
     (let n = unat v; k = ilog2 n
      in if n = 0 then 0
         else if k \<le> 52 then of_nat ((1023 + k) * 2 ^ 52 + (n - 2 ^ k) * 2 ^ (52 - k))
         else let s = k - 52; q = n div 2 ^ s; r = n mod 2 ^ s; half = 2 ^ (s - 1);
                  q' = (if half < r \<or> (r = half \<and> odd q) then q + 1 else q)
              in of_nat ((1023 + k) * 2 ^ 52 + (q' - 2 ^ 52)))"

lemma ilog2_bounds: "0 < n \<Longrightarrow> 2 ^ ilog2 n \<le> n \<and> n < 2 ^ Suc (ilog2 n)"
proof (induction n rule: ilog2.induct)
  case (1 n)
  show ?case
  proof (cases "n < 2")
    case True
    with 1 have "n = 1" by simp
    then show ?thesis by (simp add: ilog2.simps)
  next
    case False
    with 1 have "2 ^ ilog2 (n div 2) \<le> n div 2" "n div 2 < 2 ^ Suc (ilog2 (n div 2))" by auto
    with False show ?thesis by (subst (1 2) ilog2.simps) auto
  qed
qed

text \<open>Converting an integer below \<open>2 ^ 53\<close> to a double and back gives the integer.\<close>

lemma dbl_roundtrip:
  assumes "unat v < 2 ^ 53"
  shows "dbl_to_u64 (u64_to_dbl v) = Inr v"
proof (cases "unat v = 0")
  case True
  then show ?thesis by (simp add: u64_to_dbl_def dbl_to_u64_def unat_eq_zero)
next
  case False
  define n where "n = unat v"
  define k where "k = ilog2 n"
  define f where "f = (n - 2 ^ k) * 2 ^ (52 - k)"
  from False have lo: "2 ^ k \<le> n" and hi: "n < 2 ^ Suc k"
    using ilog2_bounds [of n] by (auto simp: n_def k_def)
  with assms have "(2::nat) ^ k < 2 ^ 53" by (simp add: n_def)
  then have k52: "k \<le> 52" by (subst (asm) power_strict_increasing_iff) auto
  have split: "(2::nat) ^ k * 2 ^ (52 - k) = 2 ^ 52" using k52 by (simp add: power_add [symmetric])
  have "n - 2 ^ k < 2 ^ k" using hi by simp
  then have "f < 2 ^ k * 2 ^ (52 - k)" unfolding f_def by (rule mult_strict_right_mono) simp
  then have f: "f < 2 ^ 52" by (simp only: split)
  have sum: "2 ^ 52 + f = n * 2 ^ (52 - k)"
  proof -
    have "2 ^ 52 + f = (2 ^ k + (n - 2 ^ k)) * 2 ^ (52 - k)"
      by (simp only: f_def split [symmetric] add_mult_distrib)
    with lo show ?thesis by simp
  qed
  define b where "b = (1023 + k) * 2 ^ 52 + f"
  have "b < 2047 * 2 ^ 52" using f k52 by (simp add: b_def)
  then have b63: "b < 2 ^ 63" by simp
  then have unat_b: "unat (of_nat b :: u64) = b" by (simp add: unat_of_nat)
  have "b = f + 2 ^ 52 * (1023 + k)" by (simp add: b_def)
  then have e: "b div 2 ^ 52 = 1023 + k" and m: "b mod 2 ^ 52 = f"
    using f by (simp_all only: div_mult_self2 mod_mult_self2 div_less mod_less)
  have "u64_to_dbl v = of_nat b"
    using False k52 by (simp add: u64_to_dbl_def Let_def n_def k_def b_def f_def)
  moreover have "dbl_to_u64 (of_nat b) = Inr (of_nat n)"
  proof (cases "k = 52")
    case True
    then show ?thesis
      using b63 unat_b e m sum by (simp add: dbl_to_u64_def Let_def)
  next
    case False
    with k52 have "k < 52" by simp
    then have "1023 + k < 1075" "1075 - (1023 + k) = 52 - k" by auto
    with b63 unat_b e m sum \<open>k < 52\<close> show ?thesis by (simp add: dbl_to_u64_def Let_def)
  qed
  ultimately show ?thesis by (simp add: n_def)
qed

definition ReadUint64T :: "byte list \<Rightarrow> u64 res" where
  "ReadUint64T p = bindE (load_be64 p) dbl_to_u64"

lemma ReadUint8T_drop [simp]: "ReadUint8T (drop n p) = Inr v \<longleftrightarrow> n < length p \<and> v = p ! n"
proof (cases "n < length p")
  case True
  then show ?thesis by (auto simp: ReadUint8T_def Cons_nth_drop_Suc [symmetric])
qed (simp add: ReadUint8T_def)

lemma ReadUint32T_length: "ReadUint32T p = Inr v \<Longrightarrow> 4 \<le> length p"
  using u32.dec_safe_iff by blast

lemma byte_high_bits: "\<not> bit (b :: byte) (8 + n)" "\<not> bit (b :: byte) (16 + n)"
  using bit_imp_le_length [of b "8 + n"] bit_imp_le_length [of b "16 + n"] by auto

lemma ReadUint24T_bytes: "ReadUint24T (a # b # c # r) = Inr v \<longleftrightarrow> WriteUint24T v = [a, b, c] \<and> v < 2 ^ 24"
proof
  assume "ReadUint24T (a # b # c # r) = Inr v"
  then have v: "v = push_bit 16 (ucast a) OR push_bit 8 (ucast b) OR ucast c"
    by (simp add: ReadUint24T_def)
  have "v = v AND mask 24"
    unfolding v by (rule bit_word_eqI) (auto simp: bit_simps dest: bit_imp_le_length)
  moreover have "v AND mask 24 < 2 ^ 24" by (rule and_mask_less') simp
  ultimately have "v < 2 ^ 24" by metis
  moreover have "WriteUint24T v = [a, b, c]"
    unfolding v WriteUint24T_def
    by (auto intro!: bit_word_eqI simp: bit_simps byte_high_bits)
  ultimately show "WriteUint24T v = [a, b, c] \<and> v < 2 ^ 24" by simp
next
  assume "WriteUint24T v = [a, b, c] \<and> v < 2 ^ 24"
  then show "ReadUint24T (a # b # c # r) = Inr v" using u24.dec_enc [of v r] by simp
qed

lemma ReadUint24T_eq_9: "ReadUint24T (a # b # c # r) = Inr 9 \<longleftrightarrow> a = 0 \<and> b = 0 \<and> c = 9"
  by (auto simp: ReadUint24T_bytes WriteUint24T_def)

text \<open>A double that holds an integer the code can convert and convert back.\<close>

definition dbl_exact :: "dbl \<Rightarrow> bool" where
  "dbl_exact d = (case dbl_to_u64 d of Inr v \<Rightarrow> u64_to_dbl v = d | Inl _ \<Rightarrow> False)"

lemma dbl_exact_of_u64: "unat v < 2 ^ 53 \<Longrightarrow> dbl_exact (u64_to_dbl v)"
  by (simp add: dbl_exact_def dbl_roundtrip)

lemma ReadUint64T_exact:
  "dbl_exact d \<Longrightarrow> \<exists>v. ReadUint64T (store_be64 d @ rest) = Inr v \<and> u64_to_dbl v = d"
  by (auto simp: dbl_exact_def ReadUint64T_def u64.dec_enc simp del: bindE_eq_Inr split: sum.splits)

text \<open>Such a double never starts with the bytes that, behind a number's type byte 0, would read as
  an object end.\<close>

lemma dbl_exact_high: "dbl_exact d \<Longrightarrow> drop_bit 48 d \<noteq> 9"
proof
  assume ex: "dbl_exact d" and d9: "drop_bit 48 d = 9"
  have "unat (drop_bit 48 d) = 9" unfolding d9 by simp
  then have "unat d div 2 ^ 48 = 9" by (simp add: drop_bit_eq_div unat_div)
  then have "unat d < 2 ^ 52" "d \<noteq> 0" by auto
  then have "dbl_to_u64 d = Inr 0" by (simp add: dbl_to_u64_def Let_def)
  with ex \<open>d \<noteq> 0\<close> show False by (simp add: dbl_exact_def u64_to_dbl_def)
qed

lemma ReadUint8T_length: "ReadUint8T p = Inr v \<Longrightarrow> 1 \<le> length p"
  using u8.dec_safe_iff by blast

lemma ReadUint16T_length: "ReadUint16T p = Inr v \<Longrightarrow> 2 \<le> length p"
  using u16.dec_safe_iff by blast

lemma ReadUint24T_length: "ReadUint24T p = Inr v \<Longrightarrow> 3 \<le> length p"
  using u24.dec_safe_iff by blast

lemma ReadUint64T_length: "ReadUint64T p = Inr v \<Longrightarrow> 8 \<le> length p"
  using u64.dec_safe_iff by (auto simp: ReadUint64T_def)

lemmas read_lengths =
  ReadUint8T_length ReadUint16T_length ReadUint24T_length ReadUint32T_length ReadUint64T_length

end
