(* ===== verification/Packet.thy ===== *)
theory Packet
  imports Bytes
begin

text \<open>
  The media packet \<open>src/mmedia/base/Packet.{h,cpp}\<close>: a header followed in the same allocation by
  \<open>capacity\<close> bytes of data, and an extension pointer whose type depends on the packet's user.
  The sizes and the type are the 32-bit words of the code; the data area is a list of
  \<open>capacity\<close> bytes.
\<close>

record 'e packet =
  pk_type :: u32
  pk_size :: u32
  pk_index :: u32
  pk_timestamp :: u64
  pk_capacity :: u32
  pk_data :: "byte list"
  pk_ext :: "'e option"

abbreviation kPacketTypeVideo :: u32 where "kPacketTypeVideo \<equiv> 1"
abbreviation kPacketTypeAudio :: u32 where "kPacketTypeAudio \<equiv> 2"
abbreviation kPacketTypeMeta :: u32 where "kPacketTypeMeta \<equiv> 4"
abbreviation kPacketTypeMeta3 :: u32 where "kPacketTypeMeta3 \<equiv> 8"
abbreviation kFrameTypeKeyFrame :: u32 where "kFrameTypeKeyFrame \<equiv> 16"
abbreviation kPacketTypeUnknowed :: u32 where "kPacketTypeUnknowed \<equiv> 255"

text \<open>
  The allocation has \<open>size + sizeof (Packet)\<close> bytes, computed in a \<open>size_t\<close>. Below \<open>-sizeof (Packet)\<close> that wraps around to
  more than there is and \<open>new\<close> throws; from there up to \<open>-1\<close> a block is allocated which is too short
  for the header, and the header is written past its end. The class is packed: three words of 32 bits, one of 64,
  another of 32 and a shared pointer of two machine words.
\<close>

definition sizeof_Packet :: int where "sizeof_Packet = 40"

definition negative_alloc :: "int \<Rightarrow> fault" where
  "negative_alloc n = (if n < - sizeof_Packet then BadAlloc else BufferOverflow)"

definition NewPacket :: "int \<Rightarrow> 'e packet res" where
  "NewPacket n =
     (if n < 0 then Inl (negative_alloc n)
      else Inr \<lparr>pk_type = kPacketTypeUnknowed, pk_size = 0, pk_index = -1, pk_timestamp = 0,
                pk_capacity = word_of_int n, pk_data = replicate (nat n) 0, pk_ext = None\<rparr>)"

definition IsVideo :: "'e packet \<Rightarrow> bool" where
  "IsVideo p \<longleftrightarrow> pk_type p AND kPacketTypeVideo = kPacketTypeVideo"

definition IsKeyFrame :: "'e packet \<Rightarrow> bool" where
  "IsKeyFrame p \<longleftrightarrow> pk_type p AND kPacketTypeVideo = kPacketTypeVideo
     \<and> pk_type p AND kFrameTypeKeyFrame = kFrameTypeKeyFrame"

definition IsAudio :: "'e packet \<Rightarrow> bool" where
  "IsAudio p \<longleftrightarrow> pk_type p = kPacketTypeAudio"

definition IsMeta :: "'e packet \<Rightarrow> bool" where
  "IsMeta p \<longleftrightarrow> pk_type p = kPacketTypeMeta"

definition IsMeta3 :: "'e packet \<Rightarrow> bool" where
  "IsMeta3 p \<longleftrightarrow> pk_type p = kPacketTypeMeta3"

definition PacketSize :: "'e packet \<Rightarrow> int" where
  "PacketSize p = sint (pk_size p)"

definition Space :: "'e packet \<Rightarrow> int" where
  "Space p = sint (pk_capacity p - pk_size p)"

definition SetPacketSize :: "nat \<Rightarrow> 'e packet \<Rightarrow> 'e packet" where
  "SetPacketSize len p = p\<lparr>pk_size := of_nat len\<rparr>"

definition UpdatePacketSize :: "nat \<Rightarrow> 'e packet \<Rightarrow> 'e packet" where
  "UpdatePacketSize len p = p\<lparr>pk_size := pk_size p + of_nat len\<rparr>"

definition SetIndex :: "u32 \<Rightarrow> 'e packet \<Rightarrow> 'e packet" where
  "SetIndex i p = p\<lparr>pk_index := i\<rparr>"

definition Index :: "'e packet \<Rightarrow> int" where
  "Index p = sint (pk_index p)"

definition SetPacketType :: "u32 \<Rightarrow> 'e packet \<Rightarrow> 'e packet" where
  "SetPacketType t p = p\<lparr>pk_type := t\<rparr>"

definition SetTimeStamp :: "u64 \<Rightarrow> 'e packet \<Rightarrow> 'e packet" where
  "SetTimeStamp t p = p\<lparr>pk_timestamp := t\<rparr>"

definition SetExt :: "'e \<Rightarrow> 'e packet \<Rightarrow> 'e packet" where
  "SetExt e p = p\<lparr>pk_ext := Some e\<rparr>"

text \<open>\<open>memcpy (packet->Data () + off, bytes, len)\<close>.\<close>

definition write_data :: "nat \<Rightarrow> byte list \<Rightarrow> 'e packet \<Rightarrow> 'e packet res" where
  "write_data off bs p =
     (if off + length bs \<le> length (pk_data p)
      then Inr (p\<lparr>pk_data := overwrite off bs (pk_data p)\<rparr>) else Inl BufferOverflow)"

text \<open>The received part of the data.\<close>

definition body :: "'e packet \<Rightarrow> byte list" where
  "body p = take (unat (pk_size p)) (pk_data p)"

definition packet_ok :: "'e packet \<Rightarrow> bool" where
  "packet_ok p \<longleftrightarrow> pk_size p \<le> pk_capacity p \<and> unat (pk_capacity p) = length (pk_data p)
     \<and> length (pk_data p) < 2 ^ 31"

lemma NewPacket_ok:
  assumes "0 \<le> n" "n < 2 ^ 31"
  shows "\<exists>p. NewPacket n = Inr p \<and> packet_ok p \<and> body p = [] \<and> pk_size p = 0 \<and>
    pk_ext p = None \<and> unat (pk_capacity p) = nat n"
proof -
  have "unat (word_of_int n :: u32) = nat n"
    using assms by (simp add: unat_eq_nat_uint uint_word_of_int)
  then show ?thesis using assms by (auto simp: NewPacket_def packet_ok_def body_def)
qed

lemma Space_ok:
  assumes "packet_ok p"
  shows "Space p = int (length (pk_data p) - unat (pk_size p))"
proof -
  have le: "unat (pk_size p) \<le> unat (pk_capacity p)"
    using assms by (simp add: packet_ok_def word_le_nat_alt)
  then have "unat (pk_capacity p - pk_size p) = unat (pk_capacity p) - unat (pk_size p)"
    using assms by (simp add: packet_ok_def unat_sub)
  then show ?thesis
    unfolding Space_def using assms by (subst sint_unat_small) (auto simp: packet_ok_def)
qed

lemma PacketSize_ok: "packet_ok p \<Longrightarrow> PacketSize p = int (unat (pk_size p))"
  unfolding PacketSize_def packet_ok_def word_le_nat_alt by (intro sint_unat_small) auto

text \<open>Storing at the end of the body and advancing the size appends to the body.\<close>

lemma write_body:
  assumes "packet_ok p" "unat (pk_size p) + length bs \<le> length (pk_data p)"
  shows "\<exists>p'. write_data (unat (pk_size p)) bs p = Inr p' \<and>
    packet_ok (UpdatePacketSize (length bs) p') \<and>
    body (UpdatePacketSize (length bs) p') = body p @ bs \<and>
    pk_capacity p' = pk_capacity p \<and> length (pk_data p') = length (pk_data p) \<and>
    pk_ext p' = pk_ext p \<and> pk_size p' = pk_size p \<and>
    unat (pk_size (UpdatePacketSize (length bs) p')) = unat (pk_size p) + length bs"
proof -
  have n: "unat (pk_size p + of_nat (length bs)) = unat (pk_size p) + length bs"
    using assms by (subst unat_word_ariths) (simp add: packet_ok_def unat_of_nat)
  show ?thesis using assms n
    by (auto simp: write_data_def packet_ok_def UpdatePacketSize_def body_def word_le_nat_alt
        take_overwrite_end)
qed

end
