(* ===== verification/Amf.thy ===== *)
theory Amf
  imports Bytes
begin

text \<open>
  AMF0 values of RTMP commands: \<open>src/mmedia/rtmp/amf/\<close>. A value is a constructor of \<open>amf_any\<close>
  with its name (the classes derived from \<open>AMFAny\<close>), a string is its bytes. \<open>AMFObject::Decode\<close>
  and \<open>AMFObject::DecodeOnce\<close> share one \<open>switch\<close>, modelled once as \<open>decode_value\<close>; the code's
  return value -1 is part of the result, while a read past the received bytes is a fault.
\<close>

section \<open>Values\<close>

type_synonym str = "byte list"

definition lit :: "string \<Rightarrow> str" where
  "lit s = map of_char s"

datatype amf_any =
    AMFNumber str dbl
  | AMFBoolean str bool
  | AMFString str str
  | AMFLongString str str
  | AMFDate str dbl u16
  | AMFNull str
  | AMFObject str "amf_any list"

abbreviation kAMFNumber :: byte where "kAMFNumber \<equiv> 0"
abbreviation kAMFBoolean :: byte where "kAMFBoolean \<equiv> 1"
abbreviation kAMFString :: byte where "kAMFString \<equiv> 2"
abbreviation kAMFObject :: byte where "kAMFObject \<equiv> 3"
abbreviation kAMFNull :: byte where "kAMFNull \<equiv> 5"
abbreviation kAMFEcmaArray :: byte where "kAMFEcmaArray \<equiv> 8"
abbreviation kAMFObjectEnd :: byte where "kAMFObjectEnd \<equiv> 9"
abbreviation kAMStrictArray :: byte where "kAMStrictArray \<equiv> 10"
abbreviation kAMFDate :: byte where "kAMFDate \<equiv> 11"
abbreviation kAMFLongString :: byte where "kAMFLongString \<equiv> 12"

fun Name :: "amf_any \<Rightarrow> str" where
  "Name (AMFNumber n _) = n"
| "Name (AMFBoolean n _) = n"
| "Name (AMFString n _) = n"
| "Name (AMFLongString n _) = n"
| "Name (AMFDate n _ _) = n"
| "Name (AMFNull n) = n"
| "Name (AMFObject n _) = n"

text \<open>The virtual accessors: a value of another type logs and returns a default.\<close>

fun String :: "amf_any \<Rightarrow> str" where
  "String (AMFString _ s) = s"
| "String (AMFLongString _ s) = s"
| "String _ = []"

fun Boolean :: "amf_any \<Rightarrow> bool" where
  "Boolean (AMFBoolean _ b) = b"
| "Boolean _ = False"

fun Number :: "amf_any \<Rightarrow> dbl" where
  "Number (AMFNumber _ d) = d"
| "Number _ = 0"

fun Date :: "amf_any \<Rightarrow> dbl" where
  "Date (AMFDate _ d _) = d"
| "Date _ = 0"

fun Object :: "amf_any \<Rightarrow> amf_any list option" where
  \<comment> \<open>the properties of the object; \<open>None\<close> is the null \<open>AMFObjectPtr\<close>\<close>
  "Object (AMFObject _ ps) = Some ps"
| "Object _ = None"

fun IsString :: "amf_any \<Rightarrow> bool" where
  "IsString (AMFString _ _) = True"
| "IsString (AMFLongString _ _) = True"
| "IsString _ = False"

fun IsNumber :: "amf_any \<Rightarrow> bool" where
  "IsNumber (AMFNumber _ _) = True"
| "IsNumber _ = False"

fun IsBoolean :: "amf_any \<Rightarrow> bool" where
  "IsBoolean (AMFBoolean _ _) = True"
| "IsBoolean _ = False"

fun IsDate :: "amf_any \<Rightarrow> bool" where
  "IsDate (AMFDate _ _ _) = True"
| "IsDate _ = False"

fun IsObject :: "amf_any \<Rightarrow> bool" where
  "IsObject (AMFObject _ _) = True"
| "IsObject _ = False"

fun IsNull :: "amf_any \<Rightarrow> bool" where
  "IsNull (AMFNull _) = True"
| "IsNull _ = False"

definition Count :: "amf_any \<Rightarrow> int" where
  "Count v = 1"

text \<open>\<open>AMFObject::Property\<close>, by name (searching nested objects on the way) and by index.\<close>

fun Property :: "str \<Rightarrow> amf_any list \<Rightarrow> amf_any option" where
  "Property name [] = None"
| "Property name (AMFObject n qs # ps) =
     (if n = name then Some (AMFObject n qs)
      else case Property name qs of Some p2 \<Rightarrow> Some p2 | None \<Rightarrow> Property name ps)"
| "Property name (p # ps) = (if Name p = name then Some p else Property name ps)"

definition PropertyAt :: "int \<Rightarrow> amf_any list \<Rightarrow> amf_any option" where
  "PropertyAt i ps = (if i < 0 \<or> int (length ps) \<le> i then None else Some (ps ! nat i))"

section \<open>Decoding\<close>

definition DecodeString :: "byte list \<Rightarrow> str res" where
  "DecodeString data =
     bindE (ReadUint16T data) (\<lambda>len.
       if 0 < len then mem_read (unat len) (drop 2 data) else Inr [])"

text \<open>The \<open>Decode\<close> of each scalar class: \<open>None\<close> is the return value -1.\<close>

definition AMFNumber_Decode :: "byte list \<Rightarrow> int \<Rightarrow> (int \<times> dbl) option res" where
  "AMFNumber_Decode data sz =
     (if 8 \<le> sz then bindE (ReadUint64T data) (\<lambda>v. Inr (Some (8, u64_to_dbl v)))
      else Inr None)"

definition AMFBoolean_Decode :: "byte list \<Rightarrow> int \<Rightarrow> (int \<times> bool) option res" where
  "AMFBoolean_Decode data sz =
     (if 1 \<le> sz then bindE (ReadUint8T data) (\<lambda>b. Inr (Some (1, b \<noteq> 0))) else Inr None)"

definition AMFDate_Decode :: "byte list \<Rightarrow> int \<Rightarrow> (int \<times> dbl \<times> u16) option res" where
  "AMFDate_Decode data sz =
     (if sz < 10 then Inr None
      else bindE (ReadUint64T data) (\<lambda>v.
           bindE (ReadUint16T (drop 8 data)) (\<lambda>off. Inr (Some (10, u64_to_dbl v, off)))))"

definition AMFString_Decode :: "byte list \<Rightarrow> int \<Rightarrow> (int \<times> str) option res" where
  "AMFString_Decode data sz =
     (if sz < 2 then Inr None
      else bindE (ReadUint16T data) (\<lambda>len.
        if sz < uint len + 2 then Inr None
        else bindE (DecodeString data) (\<lambda>s. Inr (Some (uint len + 2, s)))))"

definition AMFLongString_Decode :: "byte list \<Rightarrow> int \<Rightarrow> (int \<times> str) option res" where
  \<comment> \<open>\<open>len\<close> is a \<open>uint32_t\<close>: \<open>len + 4\<close> wraps and \<open>size < len + 4\<close> compares unsigned\<close>
  "AMFLongString_Decode data sz =
     (if sz < 4 then Inr None
      else bindE (ReadUint32T data) (\<lambda>len.
        if (word_of_int sz :: u32) < len + 4 then Inr None
        else bindE (mem_read (unat len) (drop 4 data)) (\<lambda>s. Inr (Some (sint (len + 4), s)))))"

definition AMFNull_Decode :: "byte list \<Rightarrow> int \<Rightarrow> int" where
  "AMFNull_Decode data sz = 0"

text \<open>The name in front of a value, when the caller says that values have names.\<close>

definition read_name :: "bool \<Rightarrow> byte list \<Rightarrow> str res" where
  "read_name has data = (if has then DecodeString data else Inr [])"

text \<open>What reading a name advances the pointer by: an empty name leaves it in place.\<close>

definition name_skip :: "str \<Rightarrow> nat" where
  "name_skip nname = (if nname = [] then 0 else length nname + 2)"

text \<open>How the \<open>switch\<close> on the type byte ends.\<close>

datatype switch_result =
    SwFail                          \<comment> \<open>\<open>return -1\<close>\<close>
  | SwReturn                        \<comment> \<open>\<open>return parsed\<close>, at an object end\<close>
  | SwBreak int "amf_any list"      \<comment> \<open>\<open>break\<close>: the bytes taken, and the properties\<close>

definition push_scalar ::
  "('a \<Rightarrow> amf_any) \<Rightarrow> amf_any list \<Rightarrow> (int \<times> 'a) option res \<Rightarrow> switch_result res" where
  "push_scalar mk props r =
     bindE r (\<lambda>r. Inr (case r of None \<Rightarrow> SwFail | Some (len, v) \<Rightarrow> SwBreak len (props @ [mk v])))"

function Decode :: "byte list \<Rightarrow> int \<Rightarrow> bool \<Rightarrow> int \<Rightarrow> amf_any list \<Rightarrow> (int \<times> amf_any list) res"
  and DecodeOnce :: "byte list \<Rightarrow> int \<Rightarrow> bool \<Rightarrow> amf_any list \<Rightarrow> (int \<times> amf_any list) res"
  and decode_value :: "byte \<Rightarrow> byte list \<Rightarrow> int \<Rightarrow> int \<Rightarrow> str \<Rightarrow> amf_any list \<Rightarrow> switch_result res"
  and decode_array :: "byte list \<Rightarrow> int \<Rightarrow> int \<Rightarrow> int \<Rightarrow> amf_any list \<Rightarrow> (int \<times> amf_any list) option res"
where
  "Decode data sz has parsed props =
     (if parsed + 3 \<le> sz then
        bindE (ReadUint24T data) (\<lambda>e.
        if e = 9 then Inr (parsed + 3, props)
        else bindE (read_name has data) (\<lambda>nname.
        bindE (ReadUint8T (drop (name_skip nname) data)) (\<lambda>type.
        bindE (decode_value type (drop (Suc (name_skip nname)) data) sz
            (parsed + int (name_skip nname) + 1) nname props) (\<lambda>r.
        case r of
          SwFail \<Rightarrow> Inr (-1, props)
        | SwReturn \<Rightarrow> Inr (parsed + int (name_skip nname) + 1, props)
        | SwBreak len props' \<Rightarrow>
            Decode (drop (Suc (nat len + name_skip nname)) data) sz has
              (parsed + int (name_skip nname) + 1 + len) props'))))
      else Inr (parsed, props))"
| "DecodeOnce data sz has props =
     bindE (read_name has data) (\<lambda>nname.
     bindE (ReadUint8T (drop (name_skip nname) data)) (\<lambda>type.
     bindE (decode_value type (drop (Suc (name_skip nname)) data) sz
         (int (name_skip nname) + 1) nname props) (\<lambda>r.
     case r of
       SwFail \<Rightarrow> Inr (-1, props)
     | SwReturn \<Rightarrow> Inr (int (name_skip nname) + 1, props)
     | SwBreak len props' \<Rightarrow>
         Inr (int (name_skip nname) + 1 + len, props'))))"
| "decode_value type data sz parsed nname props =
     (if type = kAMFNumber then
        push_scalar (AMFNumber nname) props (AMFNumber_Decode data (sz - parsed))
      else if type = kAMFBoolean then
        push_scalar (AMFBoolean nname) props (AMFBoolean_Decode data (sz - parsed))
      else if type = kAMFString then
        push_scalar (AMFString nname) props (AMFString_Decode data (sz - parsed))
      else if type = kAMFObject then
        bindE (Decode data (sz - parsed) True 0 []) (\<lambda>(len, ps).
          Inr (if len = -1 then SwFail else SwBreak len (props @ [AMFObject nname ps])))
      else if type = kAMFNull then Inr (SwBreak 0 (props @ [AMFNull []]))
      else if type = kAMFEcmaArray then
        bindE (ReadUint32T data) (\<lambda>count.
        bindE (Decode (drop 4 data) (sz - (parsed + 4)) True 0 []) (\<lambda>(len, ps).
          Inr (if len = -1 then SwFail else SwBreak (4 + len) (props @ [AMFObject nname ps]))))
      else if type = kAMFObjectEnd then Inr SwReturn
      else if type = kAMStrictArray then
        bindE (ReadUint32T data) (\<lambda>count.
        bindE (decode_array (drop 4 data) sz (parsed + 4) (sint count) []) (\<lambda>r.
          Inr (case r of None \<Rightarrow> SwFail
               | Some (len, ps) \<Rightarrow> SwBreak (4 + len) (props @ [AMFObject nname ps]))))
      else if type = kAMFDate then
        push_scalar (\<lambda>(utc, off). AMFDate nname utc off) props (AMFDate_Decode data (sz - parsed))
      else if type = kAMFLongString then
        push_scalar (AMFLongString nname) props (AMFLongString_Decode data (sz - parsed))
      else Inr (SwBreak 0 props))"
| "decode_array data sz parsed count ps =
     (if 0 < count then
        bindE (DecodeOnce data (sz - parsed) True ps) (\<lambda>(len, ps').
          if len = -1 then Inr None
          else bindE (decode_array (drop (nat len) data) sz (parsed + len) (count - 1) ps') (\<lambda>r.
            Inr (map_option (\<lambda>(n, qs). (len + n, qs)) r)))
      else Inr (Some (0, ps)))"
  by pat_completeness auto
termination
proof (relation "measures
    [\<lambda>x. case x of
       Inl (Inl (data, sz, has, parsed, props)) \<Rightarrow> length data
     | Inl (Inr (data, sz, has, props)) \<Rightarrow> length data
     | Inr (Inl (ty, data, sz, parsed, nname, props)) \<Rightarrow> length data
     | Inr (Inr (data, sz, parsed, count, ps)) \<Rightarrow> length data,
     \<lambda>x. case x of
       Inl (Inl _) \<Rightarrow> 0
     | Inl (Inr _) \<Rightarrow> 0
     | Inr (Inl _) \<Rightarrow> 1
     | Inr (Inr (data, sz, parsed, count, ps)) \<Rightarrow> Suc (nat count)]", goal_cases)
  case 1
  show ?case by simp
qed (auto dest: ReadUint32T_length)

declare Decode.simps [simp del] DecodeOnce.simps [simp del] decode_value.simps [simp del]
  decode_array.simps [simp del]

section \<open>Encoding\<close>

definition EncodeNumber :: "dbl \<Rightarrow> byte list" where
  "EncodeNumber d = kAMFNumber # store_be64 d"

definition EncodeString :: "str \<Rightarrow> byte list" where
  "EncodeString s = kAMFString # WriteUint16T (of_nat (length s)) @ s"

definition EncodeBoolean :: "bool \<Rightarrow> byte list" where
  "EncodeBoolean b = [kAMFBoolean, if b then 1 else 0]"

definition EncodeName :: "str \<Rightarrow> byte list" where
  "EncodeName name = WriteUint16T (of_nat (length name)) @ name"

definition EncodeNamedNumber :: "str \<Rightarrow> dbl \<Rightarrow> byte list" where
  "EncodeNamedNumber name d = EncodeName name @ EncodeNumber d"

definition EncodeNamedString :: "str \<Rightarrow> str \<Rightarrow> byte list" where
  "EncodeNamedString name s = EncodeName name @ EncodeString s"

definition EncodeNamedBoolean :: "str \<Rightarrow> bool \<Rightarrow> byte list" where
  "EncodeNamedBoolean name b = EncodeName name @ EncodeBoolean b"

text \<open>An object is written as its type byte, its named properties and an end marker.\<close>

definition object_end :: "byte list" where
  "object_end = [0, 0, 9]"

fun enc_prop :: "amf_any \<Rightarrow> byte list" where
  "enc_prop (AMFNumber n d) = EncodeNamedNumber n d"
| "enc_prop (AMFBoolean n b) = EncodeNamedBoolean n b"
| "enc_prop (AMFString n s) = EncodeNamedString n s"
| "enc_prop (AMFObject n ps) =
     EncodeName n @ [kAMFObject] @ concat (map enc_prop ps) @ object_end"
| "enc_prop _ = []"

fun wf_prop :: "amf_any \<Rightarrow> bool" where
  "wf_prop (AMFNumber n d) = (n \<noteq> [] \<and> length n < 2 ^ 16 \<and> dbl_exact d)"
| "wf_prop (AMFBoolean n b) = (n \<noteq> [] \<and> length n < 2 ^ 16)"
| "wf_prop (AMFString n s) = (n \<noteq> [] \<and> length n < 2 ^ 16 \<and> length s < 2 ^ 16)"
| "wf_prop (AMFObject n ps) = (n \<noteq> [] \<and> length n < 2 ^ 16 \<and> list_all wf_prop ps)"
| "wf_prop _ = False"

section \<open>Decoding inverts encoding\<close>

lemma uint_of_nat_u16: "n < 2 ^ 16 \<Longrightarrow> uint (of_nat n :: u16) = int n"
  by (simp add: uint_nat unat_of_nat)

lemma unat_of_nat_u16: "n < 2 ^ 16 \<Longrightarrow> unat (of_nat n :: u16) = n"
  by (simp add: unat_of_nat)

lemma DecodeString_enc:
  "length s < 2 ^ 16 \<Longrightarrow> DecodeString (WriteUint16T (of_nat (length s)) @ s @ rest) = Inr s"
  by (auto simp del: bindE_eq_Inr simp: DecodeString_def u16.dec_enc unat_of_nat_u16
      word_less_nat_alt unat_eq_zero)

lemma AMFString_enc:
  "length s < 2 ^ 16 \<Longrightarrow> int (length s) + 2 \<le> sz \<Longrightarrow>
   AMFString_Decode (WriteUint16T (of_nat (length s)) @ s @ rest) sz
     = Inr (Some (int (length s) + 2, s))"
  by (simp del: bindE_eq_Inr add: AMFString_Decode_def u16.dec_enc uint_of_nat_u16 DecodeString_enc)

lemma AMFNumber_enc:
  "dbl_exact d \<Longrightarrow> 8 \<le> sz \<Longrightarrow> AMFNumber_Decode (store_be64 d @ rest) sz = Inr (Some (8, d))"
  using ReadUint64T_exact [of d rest] by (auto simp: AMFNumber_Decode_def)

lemma length_EncodeName [simp]: "length (EncodeName n) = length n + 2"
  by (simp add: EncodeName_def)

lemma decode_value_simps [simp]:
  "decode_value kAMFNumber data sz parsed n ps =
     push_scalar (AMFNumber n) ps (AMFNumber_Decode data (sz - parsed))"
  "decode_value kAMFBoolean data sz parsed n ps =
     push_scalar (AMFBoolean n) ps (AMFBoolean_Decode data (sz - parsed))"
  "decode_value kAMFString data sz parsed n ps =
     push_scalar (AMFString n) ps (AMFString_Decode data (sz - parsed))"
  "decode_value kAMFObject data sz parsed n ps =
     bindE (Decode data (sz - parsed) True 0 []) (\<lambda>(len, qs).
       Inr (if len = -1 then SwFail else SwBreak len (ps @ [AMFObject n qs])))"
  "decode_value kAMFNull data sz parsed n ps = Inr (SwBreak 0 (ps @ [AMFNull []]))"
  "decode_value kAMFEcmaArray data sz parsed n ps =
     bindE (ReadUint32T data) (\<lambda>count.
     bindE (Decode (drop 4 data) (sz - (parsed + 4)) True 0 []) (\<lambda>(len, qs).
       Inr (if len = -1 then SwFail else SwBreak (4 + len) (ps @ [AMFObject n qs]))))"
  "decode_value kAMStrictArray data sz parsed n ps =
     bindE (ReadUint32T data) (\<lambda>count.
     bindE (decode_array (drop 4 data) sz (parsed + 4) (sint count) []) (\<lambda>r.
       Inr (case r of None \<Rightarrow> SwFail
            | Some (len, qs) \<Rightarrow> SwBreak (4 + len) (ps @ [AMFObject n qs]))))"
  "decode_value kAMFLongString data sz parsed n ps =
     push_scalar (AMFLongString n) ps (AMFLongString_Decode data (sz - parsed))"
  by (simp_all add: decode_value.simps)

lemma push_scalar_simps [simp]:
  "push_scalar mk ps (Inl e) = Inl e" "push_scalar mk ps (Inr None) = Inr SwFail"
  "push_scalar mk ps (Inr (Some (len, v))) = Inr (SwBreak len (ps @ [mk v]))"
  by (simp_all add: push_scalar_def)

text \<open>One iteration of the loop behind a name, and one without names.\<close>

lemma Decode_named:
  assumes "n \<noteq> []" "length n < 2 ^ 16" "parsed + 3 \<le> sz"
  shows "Decode (EncodeName n @ ty # rest) sz True parsed props =
    bindE (decode_value ty rest sz (parsed + int (length n) + 3) n props) (\<lambda>r. case r of
      SwFail \<Rightarrow> Inr (-1, props)
    | SwReturn \<Rightarrow> Inr (parsed + int (length n) + 3, props)
    | SwBreak len props' \<Rightarrow>
        Decode (drop (nat len) rest) sz True (parsed + int (length n) + 3 + len) props')"
proof -
  obtain c n' where n: "n = c # n'" using assms(1) by (cases n) auto
  let ?p = "EncodeName n @ ty # rest"
  obtain v where v: "ReadUint24T ?p = Inr v" using u24.dec_long [of ?p] by auto
  have "WriteUint16T (of_nat (length n)) \<noteq> WriteUint16T 0"
    using u16.enc_inj [of "of_nat (length n)" 0] assms(1,2) unat_of_nat_u16 by fastforce
  then have "v \<noteq> 9"
    using v by (auto simp: n EncodeName_def WriteUint16T_def ReadUint24T_eq_9)
  moreover have "DecodeString ?p = Inr n"
    using DecodeString_enc [OF assms(2), of "ty # rest"] by (simp add: EncodeName_def)
  moreover have "name_skip n = length (EncodeName n)" using assms(1) by (simp add: name_skip_def)
  ultimately show ?thesis
    using v assms(3)
    by (subst Decode.simps) (simp del: bindE_eq_Inr length_EncodeName
        add: read_name_def ReadUint8T_def nth_append,
        simp add: algebra_simps)
qed

lemma Decode_plain:
  assumes "parsed + 3 \<le> sz" "2 \<le> length rest" "\<not> (ty = 0 \<and> rest ! 0 = 0 \<and> rest ! 1 = 9)"
  shows "Decode (ty # rest) sz False parsed props =
    bindE (decode_value ty rest sz (parsed + 1) [] props) (\<lambda>r. case r of
      SwFail \<Rightarrow> Inr (-1, props)
    | SwReturn \<Rightarrow> Inr (parsed + 1, props)
    | SwBreak len props' \<Rightarrow> Decode (drop (nat len) rest) sz False (parsed + 1 + len) props')"
proof -
  obtain a b r where rest: "rest = a # b # r" using ge_2_Cons [OF assms(2)] by blast
  obtain v where v: "ReadUint24T (ty # rest) = Inr v" using u24.dec_long [of "ty # rest"] assms(2) by auto
  with assms(3) have "v \<noteq> 9" by (auto simp: rest ReadUint24T_eq_9)
  with v assms(1) show ?thesis
    by (subst Decode.simps) (simp del: bindE_eq_Inr add: read_name_def name_skip_def ReadUint8T_def)
qed

lemma Decode_object_end:
  "parsed + 3 \<le> sz \<Longrightarrow> Decode (object_end @ rest) sz has parsed props = Inr (parsed + 3, props)"
  by (subst Decode.simps) (simp del: bindE_eq_Inr add: object_end_def ReadUint24T_def)

lemma Decode_props_if:
  assumes "\<And>v parsed props sz rest. v \<in> set vs \<Longrightarrow> parsed + int (length (enc_prop v)) \<le> sz \<Longrightarrow>
      Decode (enc_prop v @ rest) sz True parsed props
        = Decode rest sz True (parsed + int (length (enc_prop v))) (props @ [v])"
    and "parsed + int (length (concat (map enc_prop vs))) + 3 \<le> sz"
  shows "Decode (concat (map enc_prop vs) @ object_end @ rest) sz True parsed props
    = Inr (parsed + int (length (concat (map enc_prop vs))) + 3, props @ vs)"
  using assms
proof (induction vs arbitrary: parsed props)
  case Nil
  then show ?case by (simp add: Decode_object_end)
next
  case (Cons v vs)
  let ?rest = "concat (map enc_prop vs) @ object_end @ rest"
  have "Decode (enc_prop v @ ?rest) sz True parsed props
      = Decode ?rest sz True (parsed + int (length (enc_prop v))) (props @ [v])"
    using Cons.prems by (intro Cons.prems(1)) auto
  also have "\<dots> = Inr (parsed + int (length (enc_prop v)) + int (length (concat (map enc_prop vs))) + 3,
      (props @ [v]) @ vs)"
    using Cons.prems by (intro Cons.IH) auto
  finally show ?case by (simp add: algebra_simps)
qed

lemma Decode_enc_prop:
  "wf_prop v \<Longrightarrow> parsed + int (length (enc_prop v)) \<le> sz \<Longrightarrow>
   Decode (enc_prop v @ rest) sz True parsed props
     = Decode rest sz True (parsed + int (length (enc_prop v))) (props @ [v])"
proof (induction v arbitrary: parsed props sz rest)
  case (AMFNumber n d)
  then have "AMFNumber_Decode (store_be64 d @ rest) (sz - (parsed + int (length n) + 3))
      = Inr (Some (8, d))"
    by (intro AMFNumber_enc) (auto simp: EncodeNamedNumber_def EncodeNumber_def)
  with AMFNumber show ?case
    by (simp del: bindE_eq_Inr add: EncodeNamedNumber_def EncodeNumber_def Decode_named algebra_simps)
next
  case (AMFBoolean n b)
  then show ?case
    by (simp del: bindE_eq_Inr add: EncodeNamedBoolean_def EncodeBoolean_def Decode_named
        AMFBoolean_Decode_def ReadUint8T_def algebra_simps)
next
  case (AMFString n s)
  then have "AMFString_Decode (WriteUint16T (of_nat (length s)) @ s @ rest)
      (sz - (parsed + int (length n) + 3)) = Inr (Some (int (length s) + 2, s))"
    by (intro AMFString_enc) (auto simp: EncodeNamedString_def EncodeString_def)
  with AMFString show ?case
    by (simp del: bindE_eq_Inr add: EncodeNamedString_def EncodeString_def Decode_named
        nat_add_distrib algebra_simps)
next
  case (AMFObject n ps)
  let ?body = "concat (map enc_prop ps)"
  have "Decode (?body @ object_end @ rest) (sz - (parsed + int (length n) + 3)) True 0 []
      = Inr (int (length ?body) + 3, ps)"
    using AMFObject by (subst Decode_props_if) (auto simp: list_all_iff object_end_def)
  with AMFObject show ?case
    by (simp del: bindE_eq_Inr add: Decode_named object_end_def nat_add_distrib algebra_simps)
qed simp_all

lemma Decode_props:
  assumes "list_all wf_prop vs" "parsed + int (length (concat (map enc_prop vs))) + 3 \<le> sz"
  shows "Decode (concat (map enc_prop vs) @ object_end @ rest) sz True parsed props
    = Inr (parsed + int (length (concat (map enc_prop vs))) + 3, props @ vs)"
  using assms by (intro Decode_props_if Decode_enc_prop) (auto simp: list_all_iff)

text \<open>The unnamed values of a command, one after the other.\<close>

lemma Decode_plain_string:
  assumes "length s < 2 ^ 16" "parsed + int (length s) + 3 \<le> sz"
  shows "Decode (EncodeString s @ rest) sz False parsed props
    = Decode rest sz False (parsed + int (length s) + 3) (props @ [AMFString [] s])"
proof -
  have "AMFString_Decode (WriteUint16T (of_nat (length s)) @ s @ rest) (sz - (parsed + 1))
      = Inr (Some (int (length s) + 2, s))"
    using assms by (intro AMFString_enc) auto
  with assms show ?thesis
    by (simp del: bindE_eq_Inr add: EncodeString_def Decode_plain nat_add_distrib algebra_simps)
qed

lemma Decode_plain_number:
  assumes "dbl_exact d" "parsed + 9 \<le> sz"
  shows "Decode (EncodeNumber d @ rest) sz False parsed props
    = Decode rest sz False (parsed + 9) (props @ [AMFNumber [] d])"
proof -
  have "AMFNumber_Decode (store_be64 d @ rest) (sz - (parsed + 1)) = Inr (Some (8, d))"
    using assms by (intro AMFNumber_enc) auto
  moreover have "\<not> ((store_be64 d @ rest) ! 0 = 0 \<and> (store_be64 d @ rest) ! 1 = 9)"
  proof
    assume "(store_be64 d @ rest) ! 0 = 0 \<and> (store_be64 d @ rest) ! 1 = 9"
    then have h: "(ucast (drop_bit 56 d) :: byte) = 0" "(ucast (drop_bit 48 d) :: byte) = 9"
      by (auto simp: store_be64_def)
    have "drop_bit 48 d = push_bit 8 (ucast (ucast (drop_bit 56 d) :: byte)) OR
        ucast (ucast (drop_bit 48 d) :: byte)"
      by (rule bit_word_eqI) (auto simp: bit_simps dest: bit_imp_le_length)
    then have "drop_bit 48 d = 9" by (simp only: h) simp
    with dbl_exact_high [OF assms(1)] show False by simp
  qed
  ultimately show ?thesis using assms
    by (simp del: bindE_eq_Inr add: EncodeNumber_def Decode_plain algebra_simps)
qed

lemma Decode_plain_object:
  assumes "list_all wf_prop ps" "parsed + int (length (concat (map enc_prop ps))) + 4 \<le> sz"
  shows "Decode (kAMFObject # concat (map enc_prop ps) @ object_end @ rest) sz False parsed props
    = Decode rest sz False (parsed + int (length (concat (map enc_prop ps))) + 4)
        (props @ [AMFObject [] ps])"
proof -
  let ?body = "concat (map enc_prop ps)"
  have "Decode (?body @ object_end @ rest) (sz - (parsed + 1)) True 0 []
      = Inr (int (length ?body) + 3, ps)"
    using assms by (subst Decode_props) auto
  moreover have "2 \<le> length (?body @ object_end @ rest)" by (simp add: object_end_def)
  then have "Decode (kAMFObject # ?body @ object_end @ rest) sz False parsed props =
    bindE (decode_value kAMFObject (?body @ object_end @ rest) sz (parsed + 1) [] props) (\<lambda>r. case r of
      SwFail \<Rightarrow> Inr (-1, props)
    | SwReturn \<Rightarrow> Inr (parsed + 1, props)
    | SwBreak len props' \<Rightarrow>
        Decode (drop (nat len) (?body @ object_end @ rest)) sz False (parsed + 1 + len) props')"
    using assms by (intro Decode_plain) auto
  moreover have "drop (nat (int (length ?body) + 3)) (?body @ object_end @ rest) = rest"
    by (simp add: object_end_def nat_add_distrib)
  ultimately show ?thesis by (simp del: bindE_eq_Inr drop_append append_assoc add: algebra_simps)
qed

lemma Decode_plain_null:
  assumes "parsed + 3 \<le> sz" "2 \<le> length rest"
  shows "Decode (kAMFNull # rest) sz False parsed props
    = Decode rest sz False (parsed + 1) (props @ [AMFNull []])"
  using assms by (simp del: bindE_eq_Inr add: Decode_plain)

lemma Decode_stop: "sz < parsed + 3 \<Longrightarrow> Decode data sz has parsed props = Inr (parsed, props)"
  by (simp add: Decode.simps)

section \<open>Decoding takes no more bytes than there are\<close>

lemma DecodeString_bound: "DecodeString p = Inr s \<Longrightarrow> name_skip s \<le> length p"
  by (auto simp: DecodeString_def name_skip_def mem_read_eq_Inr split: if_splits dest: read_lengths)

lemma AMFNumber_bound: "AMFNumber_Decode p sz = Inr (Some (len, d)) \<Longrightarrow> 0 \<le> len \<and> len \<le> int (length p)"
  by (auto simp: AMFNumber_Decode_def split: if_splits dest: read_lengths)

lemma AMFBoolean_bound: "AMFBoolean_Decode p sz = Inr (Some (len, d)) \<Longrightarrow> 0 \<le> len \<and> len \<le> int (length p)"
  by (auto simp: AMFBoolean_Decode_def split: if_splits dest: read_lengths)

lemma AMFDate_bound: "AMFDate_Decode p sz = Inr (Some (len, d)) \<Longrightarrow> 0 \<le> len \<and> len \<le> int (length p)"
  by (auto simp: AMFDate_Decode_def split: if_splits dest!: ReadUint16T_length)

lemma AMFString_bound:
  assumes "AMFString_Decode p sz = Inr (Some (len, s))"
  shows "0 \<le> len \<and> len \<le> int (length p)"
proof -
  from assms obtain n where n: "ReadUint16T p = Inr n" "len = uint n + 2" "DecodeString p = Inr s"
    by (auto simp: AMFString_Decode_def split: if_splits)
  show ?thesis
  proof (cases "n = 0")
    case True
    with n show ?thesis by (auto dest: read_lengths)
  next
    case False
    with n have "unat n \<le> length p - 2" "2 \<le> length p"
      by (auto simp: DecodeString_def mem_read_eq_Inr word_gt_0 dest: read_lengths split: if_splits)
    then show ?thesis using n(2) uint_nat [of n] by linarith
  qed
qed

lemma AMFLongString_bound:
  assumes "AMFLongString_Decode p sz = Inr (Some (len, s))" "length p < 2 ^ 31"
  shows "0 \<le> len \<and> len \<le> int (length p)"
proof -
  from assms obtain n where n: "ReadUint32T p = Inr n" "len = sint (n + 4)"
    "unat n \<le> length p - 4"
    by (auto simp: AMFLongString_Decode_def mem_read_eq_Inr split: if_splits)
  have 4: "4 \<le> length p" using n(1) by (rule ReadUint32T_length)
  have "unat (n + 4) = unat n + 4"
    using n(3) 4 assms(2) by (subst unat_add_lem [THEN iffD1]) (auto simp: unat_of_nat)
  then have "sint (n + 4) = int (unat n + 4)"
    using n(3) 4 assms(2) by (subst sint_unat_small) auto
  then show ?thesis using n(2,3) 4 by linarith
qed

lemma push_scalar_break:
  "push_scalar mk props r = Inr (SwBreak len ps) \<Longrightarrow> \<exists>v. r = Inr (Some (len, v))"
  by (auto simp: push_scalar_def split: option.splits)

lemma decode_value_scalar_bound:
  assumes "decode_value ty data sz parsed nname props = Inr (SwBreak n ps)"
    "ty \<noteq> kAMFObject" "ty \<noteq> kAMFEcmaArray" "ty \<noteq> kAMStrictArray" "length data < 2 ^ 31"
  shows "0 \<le> n \<and> n \<le> int (length data)"
proof -
  let ?sz = "sz - parsed"
  note eq = decode_value.simps [of ty data sz parsed nname props]
  consider "ty = kAMFNumber" | "ty = kAMFBoolean" | "ty = kAMFString" | "ty = kAMFDate"
    | "ty = kAMFLongString" | "ty = kAMFObjectEnd"
    | "decode_value ty data sz parsed nname props = Inr (SwBreak 0 (props @ [AMFNull []]))"
    | "decode_value ty data sz parsed nname props = Inr (SwBreak 0 props)"
    using assms(2-4) eq by presburger
  then show ?thesis
  proof cases
    case 1
    with assms(1) eq obtain v where "AMFNumber_Decode data ?sz = Inr (Some (n, v))"
      using push_scalar_break by fastforce
    then show ?thesis by (rule AMFNumber_bound)
  next
    case 2
    with assms(1) eq obtain v where "AMFBoolean_Decode data ?sz = Inr (Some (n, v))"
      using push_scalar_break by fastforce
    then show ?thesis by (rule AMFBoolean_bound)
  next
    case 3
    with assms(1) eq obtain v where "AMFString_Decode data ?sz = Inr (Some (n, v))"
      using push_scalar_break by fastforce
    then show ?thesis by (rule AMFString_bound)
  next
    case 4
    with assms(1) eq obtain v where "AMFDate_Decode data ?sz = Inr (Some (n, v))"
      using push_scalar_break by fastforce
    then show ?thesis by (rule AMFDate_bound)
  next
    case 5
    with assms(1) eq obtain v where "AMFLongString_Decode data ?sz = Inr (Some (n, v))"
      using push_scalar_break by fastforce
    then show ?thesis using assms(5) by (rule AMFLongString_bound)
  qed (use assms(1) eq in auto)
qed

lemma decode_bounds:
  "Decode data sz has parsed props = Inr (n, ps) \<Longrightarrow> length data < 2 ^ 31 \<Longrightarrow>
     n = -1 \<or> parsed \<le> n \<and> n \<le> parsed + int (length data)"
  "DecodeOnce data sz has props = Inr (n, ps) \<Longrightarrow> length data < 2 ^ 31 \<Longrightarrow>
     n = -1 \<or> 0 \<le> n \<and> n \<le> int (length data)"
  "decode_value ty data sz parsed nname props = Inr (SwBreak n ps) \<Longrightarrow> length data < 2 ^ 31 \<Longrightarrow>
     0 \<le> n \<and> n \<le> int (length data)"
  "decode_array data sz parsed count props = Inr (Some (n, ps)) \<Longrightarrow> length data < 2 ^ 31 \<Longrightarrow>
     0 \<le> n \<and> n \<le> int (length data)"
proof (induction data sz has parsed props and data sz has props and ty data sz parsed nname props
    and data sz parsed count props arbitrary: n ps and n ps and n ps and n ps
    rule: Decode_DecodeOnce_decode_value_decode_array.induct)
  case (1 data sz has parsed props)
  show ?case
  proof (cases "parsed + 3 \<le> sz")
    case False
    with 1 show ?thesis by (simp add: Decode.simps)
  next
    case True
    from 1(3) True consider "n = parsed + 3" "3 \<le> length data"
      | v nname ty r where "ReadUint24T data = Inr v" "v \<noteq> 9"
        "read_name has data = Inr nname" "name_skip nname < length data"
        "ReadUint8T (drop (name_skip nname) data) = Inr ty"
        "decode_value ty (drop (Suc (name_skip nname)) data) sz
          (parsed + int (name_skip nname) + 1) nname props = Inr r"
        "(case r of SwFail \<Rightarrow> Inr (-1, props)
          | SwReturn \<Rightarrow> Inr (parsed + int (name_skip nname) + 1, props)
          | SwBreak len props' \<Rightarrow> Decode (drop (Suc (nat len + name_skip nname)) data) sz has
              (parsed + int (name_skip nname) + 1 + len) props') = Inr (n, ps)"
      by (auto simp: Decode.simps [of data sz has parsed props] split: if_splits dest: read_lengths)
    then show ?thesis
    proof cases
      case 1
      then show ?thesis by simp
    next
      case (2 v nname ty r)
      show ?thesis
      proof (cases r)
        case (SwBreak len props')
        have len: "0 \<le> len" "len \<le> int (length (drop (Suc (name_skip nname)) data))"
          using "1.IH"(1) [OF True 2(1) 2(2) 2(3) 2(5)] 2(6) SwBreak 1(4) by auto
        have "n = -1 \<or> parsed + int (name_skip nname) + 1 + len \<le> n \<and>
          n \<le> parsed + int (name_skip nname) + 1 + len
            + int (length (drop (Suc (nat len + name_skip nname)) data))"
          using "1.IH"(2) [OF True 2(1) 2(2) 2(3) 2(5) 2(6) SwBreak] 2(7) SwBreak 1(4) by auto
        then show ?thesis using len 2(4) by auto
      qed (use 2 in auto)
    qed
  qed
next
  case (2 data sz has props)
  from "2.prems" obtain nname ty r where r: "read_name has data = Inr nname"
    "name_skip nname < length data" "ReadUint8T (drop (name_skip nname) data) = Inr ty"
    "decode_value ty (drop (Suc (name_skip nname)) data) sz (int (name_skip nname) + 1) nname props = Inr r"
    "(case r of SwFail \<Rightarrow> Inr (-1, props) | SwReturn \<Rightarrow> Inr (int (name_skip nname) + 1, props)
      | SwBreak len props' \<Rightarrow> Inr (int (name_skip nname) + 1 + len, props'))
      = (Inr (n, ps) :: (int \<times> amf_any list) res)"
    by (auto simp: DecodeOnce.simps [of data sz has props])
  show ?case
  proof (cases r)
    case (SwBreak len props')
    with r have "decode_value ty (drop (Suc (name_skip nname)) data) sz (int (name_skip nname) + 1)
      nname props = Inr (SwBreak len props')" by simp
    then have "0 \<le> len \<and> len \<le> int (length (drop (Suc (name_skip nname)) data))"
      using "2.IH" [OF r(1,3)] "2.prems"(2) by simp
    then show ?thesis using r(2,5) SwBreak by auto
  qed (use r in auto)
next
  case (3 ty data sz parsed nname props)
  note IH = "3.IH" and pr = "3.prems"
  consider "ty = kAMFObject" | "ty = kAMFEcmaArray" | "ty = kAMStrictArray"
    | "ty \<noteq> kAMFObject" "ty \<noteq> kAMFEcmaArray" "ty \<noteq> kAMStrictArray" by blast
  then show ?case
  proof cases
    case 1
    with pr obtain qs where "Decode data (sz - parsed) True 0 [] = Inr (n, qs)" "n \<noteq> -1"
      by (auto split: if_splits)
    then show ?thesis using IH(1) [of n qs] 1 pr(2) by auto
  next
    case 2
    with pr obtain c m qs where c: "ReadUint32T data = Inr c" "n = 4 + m" "m \<noteq> -1"
      "Decode (drop 4 data) (sz - (parsed + 4)) True 0 [] = Inr (m, qs)"
      by (auto split: if_splits)
    then have "0 \<le> m \<and> m \<le> int (length (drop 4 data))"
      using IH(2) [of c m qs] 2 pr(2) by auto
    then show ?thesis using c(2) ReadUint32T_length [OF c(1)] by auto
  next
    case 3
    with pr obtain c m qs where c: "ReadUint32T data = Inr c" "n = 4 + m"
      "decode_array (drop 4 data) sz (parsed + 4) (sint c) [] = Inr (Some (m, qs))"
      by (auto split: if_splits option.splits)
    then have "0 \<le> m \<and> m \<le> int (length (drop 4 data))"
      using IH(3) [of c m qs] 3 pr(2) by auto
    then show ?thesis using c(2) ReadUint32T_length [OF c(1)] by auto
  next
    case 4
    with pr show ?thesis by (intro decode_value_scalar_bound)
  qed
next
  case (4 data sz parsed count props)
  show ?case
  proof (cases "0 < count")
    case False
    with "4.prems" show ?thesis by (simp add: decode_array.simps)
  next
    case True
    with "4.prems"(1) obtain len ps' m where r: "DecodeOnce data (sz - parsed) True props = Inr (len, ps')"
      "len \<noteq> -1" "decode_array (drop (nat len) data) sz (parsed + len) (count - 1) ps' = Inr (Some (m, ps))"
      "n = len + m"
      by (auto simp: decode_array.simps [of data sz parsed count props] split: if_splits)
    have len: "0 \<le> len" "len \<le> int (length data)"
      using "4.IH"(1) [OF True r(1) "4.prems"(2)] r(2) by auto
    have "0 \<le> m \<and> m \<le> int (length (drop (nat len) data))"
      using "4.IH"(2) [OF True r(1) refl r(2)] r(3) "4.prems"(2) by auto
    then show ?thesis using r(4) len by auto
  qed
qed

section \<open>Property lookup\<close>

text \<open>The values of an object in the order the lookup visits them.\<close>

fun preorder :: "amf_any list \<Rightarrow> amf_any list" where
  "preorder [] = []"
| "preorder (AMFObject n qs # ps) = AMFObject n qs # preorder qs @ preorder ps"
| "preorder (p # ps) = p # preorder ps"

lemma find_append: "find P (xs @ ys) = (case find P xs of Some x \<Rightarrow> Some x | None \<Rightarrow> find P ys)"
  by (induction xs) auto

lemma Property_find: "Property name ps = find (\<lambda>p. Name p = name) (preorder ps)"
  by (induction ps rule: preorder.induct) (auto simp: find_append split: option.splits)

lemma Property_wf_hit: "Name p = name \<Longrightarrow> Property name (p # ps) = Some p"
  by (cases p) auto

lemma Property_miss:
  "Name p \<noteq> name \<Longrightarrow> \<not> IsObject p \<Longrightarrow> Property name (p # ps) = Property name ps"
  by (cases p) auto

section \<open>Malformed input\<close>

lemma first_bytes_not_end:
  "v \<noteq> 0 \<Longrightarrow> ReadUint24T (WriteUint16T v @ c # r) \<noteq> Inr 9"
proof
  assume "v \<noteq> 0" and "ReadUint24T (WriteUint16T v @ c # r) = Inr 9"
  then have "WriteUint16T v = WriteUint16T 0"
    by (auto simp: WriteUint16T_def ReadUint24T_eq_9)
  with \<open>v \<noteq> 0\<close> show False using u16.enc_inj [of v 0] by simp
qed

lemma AMFLongString_exact:
  assumes "length s + 4 < 2 ^ 31"
  shows "AMFLongString_Decode (WriteUint32T len @ s) (int (4 + length s)) =
    (if 2 ^ 32 - 4 \<le> unat len then Inl OutOfBounds
     else if length s < unat len then Inr None
     else Inr (Some (int (unat len) + 4, take (unat len) s)))"
proof -
  let ?sz = "4 + length s"
  have sz: "unat (word_of_int (int ?sz) :: u32) = ?sz"
    unfolding of_int_of_nat_eq unat_of_nat using assms by (intro mod_less) simp
  have rd: "ReadUint32T (WriteUint32T len @ s) = Inr len" by (rule u32.dec_enc) simp
  have dr: "drop 4 (WriteUint32T len @ s) = s" by simp
  show ?thesis
  proof (cases "2 ^ 32 - 4 \<le> unat len")
    case True
    have "unat (len + 4) = unat len + 4 - 2 ^ 32"
      using True unat_u32_less [of len] by (simp add: unat_word_ariths mod_if)
    then have "\<not> (word_of_int (int ?sz) :: u32) < len + 4"
      using unat_u32_less [of len] sz by (simp add: word_less_nat_alt)
    with True rd dr assms show ?thesis
      by (simp del: bindE_eq_Inl of_nat_add add: AMFLongString_Decode_def)
  next
    case False
    then have l4: "unat (len + 4) = unat len + 4" by (simp add: unat_word_ariths)
    then have lt: "(word_of_int (int ?sz) :: u32) < len + 4 \<longleftrightarrow> length s < unat len"
      using sz by (simp add: word_less_nat_alt)
    show ?thesis
    proof (cases "length s < unat len")
      case True
      with False lt rd show ?thesis
        by (simp del: bindE_eq_Inr of_nat_add add: AMFLongString_Decode_def)
    next
      case fits: False
      then have "sint (len + 4) = int (unat len + 4)"
        using l4 assms by (subst sint_unat_small) auto
      moreover have "int (unat len + 4) = uint len + 4" by simp
      ultimately show ?thesis using False fits lt rd dr
        by (simp del: bindE_eq_Inr of_nat_add add: AMFLongString_Decode_def)
    qed
  qed
qed

lemma dbl_negative: "2 ^ 63 \<le> unat d \<Longrightarrow> 1023 \<le> unat d div 2 ^ 52 mod 2 ^ 11 \<Longrightarrow> dbl_to_u64 d = Inl BadConversion"
  by (simp add: dbl_to_u64_def Let_def)

lemma Decode_bad_number:
  assumes "2 ^ 63 \<le> unat d" "1023 \<le> unat d div 2 ^ 52 mod 2 ^ 11" "parsed + 9 \<le> sz"
  shows "Decode (EncodeNumber d @ rest) sz False parsed props = Inl BadConversion"
proof -
  have "dbl_to_u64 d = Inl BadConversion" using assms(1,2) by (rule dbl_negative)
  then have n: "AMFNumber_Decode (store_be64 d @ rest) (sz - (parsed + 1)) = Inl BadConversion"
    using assms(3) by (simp del: bindE_eq_Inl add: AMFNumber_Decode_def ReadUint64T_def u64.dec_enc)
  have "unat d div 2 ^ 63 = 1" using assms(1) unat_u64_less [of d] by (simp add: div_nat_eqI)
  then have "bit (unat d) 63" by (simp add: bit_iff_odd)
  then have "bit d 63" by (simp add: bit_unsigned_iff)
  then have "bit (ucast (drop_bit 56 d) :: byte) 7" by (simp add: bit_simps)
  then have "store_be64 d ! 0 \<noteq> 0" by (auto simp: store_be64_def)
  then show ?thesis
    using n assms(3)
    by (simp del: bindE_eq_Inl add: EncodeNumber_def Decode_plain nth_append)
qed

section \<open>Properties\<close>

text \<open>C19: Decoding an object's properties as the encoders write them (non-empty names, strings and
  names below 64 KiB, numbers that hold an integer a \<open>uint64_t\<close> represents, nested objects to any
  depth) gives back exactly those properties, in order, and consumes exactly the bytes written.\<close>

theorem Decode_inverts_encoding:
  assumes "list_all wf_prop ps"
  shows "Decode (concat (map enc_prop ps) @ object_end @ rest)
      (int (length (concat (map enc_prop ps)) + 3)) True 0 []
    = Inr (int (length (concat (map enc_prop ps)) + 3), ps)"
  using Decode_props [OF assms, of 0 _ rest "[]"] by simp

theorem Decode_inverts_encoding_witness:
  "list_all wf_prop [AMFString [97] [98, 99], AMFObject [111] [AMFBoolean [98] True]] \<and>
   Decode (concat (map enc_prop [AMFString [97] [98, 99], AMFObject [111] [AMFBoolean [98] True]])
       @ object_end) 23 True 0 []
     = Inr (23, [AMFString [97] [98, 99], AMFObject [111] [AMFBoolean [98] True]])"
proof -
  let ?ps = "[AMFString [97] [98, 99], AMFObject [111] [AMFBoolean [98] True]]"
  have wf: "list_all wf_prop ?ps" by simp
  have len: "int (length (concat (map enc_prop ?ps)) + 3) = 23"
    by (simp add: EncodeNamedString_def EncodeString_def EncodeNamedBoolean_def EncodeBoolean_def
        object_end_def)
  show ?thesis using wf Decode_inverts_encoding [OF wf, of "[]"] unfolding len by simp
qed

text \<open>Whatever bytes arrive and whatever size the caller claims, a decode that returns reports
  either the error -1 or a number of consumed bytes between zero and the number of bytes there
  are.\<close>

theorem Decode_consumes_at_most:
  assumes "Decode data sz has 0 [] = Inr (n, ps)" "length data < 2 ^ 31"
  shows "n = -1 \<or> (0 \<le> n \<and> n \<le> int (length data))"
  using decode_bounds(1) [OF assms] by simp

theorem Decode_consumes_at_most_witness:
  "Decode [0, 0, 9, 7] 4 True 0 [] = Inr (3, []) \<and> 0 \<le> (3 :: int) \<and> (3 :: int) \<le> 4"
proof -
  have d: "Decode [0, 0, 9, 7] 4 True 0 [] = Inr (3, [])"
    using Decode_object_end [of 0 4 "[7]" True "[]"] by (simp add: object_end_def)
  show ?thesis using d Decode_consumes_at_most [OF d] by simp
qed

text \<open>A property name that announces more bytes than were received makes the decoder read past
  the end of the message: \<open>DecodeString\<close> never compares the length with the size.\<close>

theorem Decode_long_name_overreads:
  assumes "s \<noteq> []" "length s < unat n"
  shows "Decode (WriteUint16T n @ s) (int (2 + length s)) True 0 props = Inl OutOfBounds"
proof -
  obtain c r where s: "s = c # r" using assms(1) by (cases s) auto
  let ?p = "WriteUint16T n @ s"
  obtain v where v: "ReadUint24T ?p = Inr v" using u24.dec_long [of ?p] s by auto
  have "n \<noteq> 0" using assms(2) by auto
  then have "v \<noteq> 9" using v first_bytes_not_end [of n c r] by (auto simp: s)
  moreover have "DecodeString ?p = Inl OutOfBounds"
    using assms \<open>n \<noteq> 0\<close> by (simp del: bindE_eq_Inl add: DecodeString_def u16.dec_enc word_gt_0)
  ultimately show ?thesis
    using v s by (subst Decode.simps) (simp del: bindE_eq_Inl add: read_name_def)
qed

theorem Decode_long_name_overreads_witness:
  "Decode [0, 9, 65] 3 True 0 [] = Inl OutOfBounds"
  using Decode_long_name_overreads [of "[65]" 9 "[]"] by (simp add: WriteUint16T_def)

text \<open>A long string is accepted exactly when its announced length fits the bytes received,
  except that a length of \<open>2 ^ 32 - 4\<close> or more makes \<open>len + 4\<close> wrap around, passes the check and
  is then read past the end of the message.\<close>

lemma AMFLongString_length_check:
  assumes "length s + 4 < 2 ^ 31"
  shows "AMFLongString_Decode (WriteUint32T len @ s) (int (4 + length s)) =
    (if 2 ^ 32 - 4 \<le> unat len then Inl OutOfBounds
     else if length s < unat len then Inr None
     else Inr (Some (int (unat len) + 4, take (unat len) s)))"
  using assms by (rule AMFLongString_exact)

theorem AMFLongString_length_check_witness:
  "AMFLongString_Decode (WriteUint32T 0xFFFFFFFE @ [1, 2]) 6 = Inl OutOfBounds \<and>
   AMFLongString_Decode (WriteUint32T 2 @ [1, 2]) 6 = Inr (Some (6, [1, 2]))"
  using AMFLongString_length_check [of "[1, 2]" "0xFFFFFFFE"]
    AMFLongString_length_check [of "[1, 2]" 2] by simp

text \<open>Looking a property up by name returns the first value of that name in a depth-first walk of
  the object and the objects nested in it.\<close>

theorem Property_is_first_in_preorder:
  "Property name ps = find (\<lambda>p. Name p = name) (preorder ps)"
  by (rule Property_find)

text \<open>A number that is -1 or below (such as the start position -1000 a player sends), or a
  negative infinity or NaN, has no defined result: the decoder converts it to an unsigned
  integer.\<close>

lemma Decode_negative_number:
  assumes "2 ^ 63 \<le> unat d" "1023 \<le> unat d div 2 ^ 52 mod 2 ^ 11" "9 \<le> sz"
  shows "Decode (EncodeNumber d @ rest) sz False 0 props = Inl BadConversion"
  using Decode_bad_number [OF assms(1,2), of 0 sz] assms(3) by simp

theorem Decode_negative_number_witness:
  "Decode (EncodeNumber 0xC08F400000000000) 9 False 0 [] = Inl BadConversion"
  using Decode_negative_number [of "0xC08F400000000000" 9 "[]" "[]"] by simp

end
