(* ===== verification/LiveBase.thy ===== *)
theory LiveBase
  imports Packet Amf
begin

text \<open>
  The bookkeeping of a live stream, \<open>src/live/base/\<close>: codec headers (\<open>CodecUtils\<close>, \<open>CodecHeader\<close>),
  the timestamp corrector (\<open>TimeCorrector\<close>) and the index of the groups of pictures (\<open>GopMgr\<close>).
  Timestamps are \<open>int64_t\<close> in the code and integers here: they come from 32-bit RTMP timestamps, so
  no sum of the code leaves the 64-bit range. The narrowing to \<open>int32_t\<close> and \<open>uint32_t\<close> is kept.
  The number of audio packets since the last video packet is taken not to reach \<open>2 ^ 31\<close>.
\<close>

section \<open>Codec headers\<close>

text \<open>A byte of the packet's data, \<open>packet->Data ()[i]\<close>.\<close>

definition data_at :: "nat \<Rightarrow> 'e packet \<Rightarrow> byte res" where
  "data_at i p = (if i < length (pk_data p) then Inr (pk_data p ! i) else Inl OutOfBounds)"

definition IsCodecHeader :: "'e packet \<Rightarrow> bool res" where
  "IsCodecHeader p =
     (if 1 < PacketSize p then bindE (data_at 1 p) (\<lambda>b. Inr (b = 0)) else Inr False)"

definition codec_IsKeyFrame :: "'e packet \<Rightarrow> bool res" where
  "codec_IsKeyFrame p =
     (if 0 < PacketSize p then bindE (data_at 0 p) (\<lambda>b. Inr (drop_bit 4 b AND 0x0F = 1))
      else Inr False)"

record 'e codec_header =
  ch_meta :: "'e packet option"
  ch_video :: "'e packet option"
  ch_audio :: "'e packet option"
  meta_version :: int
  video_version :: int
  audio_version :: int
  meta_packets :: "'e packet list"
  video_header_packets :: "'e packet list"
  audio_header_packets :: "'e packet list"

definition CodecHeader_new :: "'e codec_header" where
  "CodecHeader_new = \<lparr>ch_meta = None, ch_video = None, ch_audio = None, meta_version = 0,
     video_version = 0, audio_version = 0, meta_packets = [], video_header_packets = [],
     audio_header_packets = []\<rparr>"

text \<open>The search from the newest packet back, the same in the three accessors.\<close>

fun header_search :: "int \<Rightarrow> 'e packet list \<Rightarrow> 'e packet option \<Rightarrow> 'e packet option" where
  "header_search idx [] newest = newest"
| "header_search idx (pkt # older) newest =
     (if Index pkt \<le> idx then Some pkt else header_search idx older newest)"

definition Meta :: "int \<Rightarrow> 'e codec_header \<Rightarrow> 'e packet option" where
  "Meta idx c = (if idx \<le> 0 then ch_meta c else header_search idx (rev (meta_packets c)) (ch_meta c))"

definition VideoHeader :: "int \<Rightarrow> 'e codec_header \<Rightarrow> 'e packet option" where
  "VideoHeader idx c =
     (if idx \<le> 0 then ch_video c else header_search idx (rev (video_header_packets c)) (ch_video c))"

definition AudioHeader :: "int \<Rightarrow> 'e codec_header \<Rightarrow> 'e packet option" where
  "AudioHeader idx c =
     (if idx \<le> 0 then ch_audio c else header_search idx (rev (audio_header_packets c)) (ch_audio c))"

definition SaveMeta :: "'e packet \<Rightarrow> 'e codec_header \<Rightarrow> 'e codec_header" where
  "SaveMeta packet c = c\<lparr>ch_meta := Some packet, meta_version := meta_version c + 1,
     meta_packets := meta_packets c @ [packet]\<rparr>"

definition SaveAudioHeader :: "'e packet \<Rightarrow> 'e codec_header \<Rightarrow> 'e codec_header" where
  "SaveAudioHeader packet c = c\<lparr>ch_audio := Some packet, audio_version := audio_version c + 1,
     audio_header_packets := audio_header_packets c @ [packet]\<rparr>"

definition SaveVideoHeader :: "'e packet \<Rightarrow> 'e codec_header \<Rightarrow> 'e codec_header" where
  "SaveVideoHeader packet c = c\<lparr>ch_video := Some packet, video_version := video_version c + 1,
     video_header_packets := video_header_packets c @ [packet]\<rparr>"

text \<open>\<open>ParseMeta\<close> only logs, but what it logs it decodes and converts: \<open>(uint32_t) p->Number ()\<close> of each
  numeric property that is there.\<close>

definition dbl_to_u32 :: "dbl \<Rightarrow> u32 res" where
  "dbl_to_u32 d = bindE (dbl_to_u64 d) (\<lambda>v. if unat v < 2 ^ 32 then Inr (ucast v) else Inl BadConversion)"

definition meta_numbers :: "str list" where
  "meta_numbers = [lit ''width'', lit ''height'', lit ''videocodecid'', lit ''framerate'',
     lit ''videodatarate'', lit ''audiosamplerate'', lit ''audiosamplesize'', lit ''audiocodecid'',
     lit ''audiodatarate'', lit ''duration'']"

fun log_numbers :: "str list \<Rightarrow> amf_any list \<Rightarrow> unit res" where
  "log_numbers [] obj = Inr ()"
| "log_numbers (n # ns) obj =
     (case Property n obj of
        None \<Rightarrow> log_numbers ns obj
      | Some v \<Rightarrow> bindE (dbl_to_u32 (Number v)) (\<lambda>_. log_numbers ns obj))"

definition ParseMeta :: "'e packet \<Rightarrow> unit res" where
  "ParseMeta packet =
     bindE (Decode (pk_data packet) (PacketSize packet) False 0 []) (\<lambda>(r, obj).
       if r = 0 then Inr () else log_numbers meta_numbers obj)"

definition ParseCodecHeader :: "'e packet \<Rightarrow> 'e codec_header \<Rightarrow> 'e codec_header res" where
  "ParseCodecHeader packet c =
     (if IsMeta packet then bindE (ParseMeta packet) (\<lambda>_. Inr (SaveMeta packet c))
      else if IsAudio packet then Inr (SaveAudioHeader packet c)
      else if IsVideo packet then Inr (SaveVideoHeader packet c)
      else Inr c)"

section \<open>The timestamp corrector\<close>

record time_corrector =
  v_orig :: int
  v_corr :: int
  a_orig :: int
  a_corr :: int
  a_count :: int

definition TimeCorrector_new :: time_corrector where
  "TimeCorrector_new = \<lparr>v_orig = -1, v_corr = 0, a_orig = -1, a_corr = 0, a_count = 0\<rparr>"

definition to_int32 :: "int \<Rightarrow> int" where
  "to_int32 = signed_take_bit 31"

definition fine :: "int \<Rightarrow> bool" where
  "fine delta \<longleftrightarrow> -100 < delta \<and> delta < 100"

definition CorrectAudioByAudio :: "int \<Rightarrow> time_corrector \<Rightarrow> int \<times> time_corrector" where
  "CorrectAudioByAudio time t =
     (if a_orig t = -1 then (time, t\<lparr>a_orig := time, a_corr := time\<rparr>)
      else let delta = time - a_orig t;
               delta = (if fine delta then delta else 20);
               c = a_corr t + delta;
               c = (if c < 0 then 0 else c)
           in (c, t\<lparr>a_orig := time, a_corr := c\<rparr>))"

definition CorrectAudioByVideo :: "int \<Rightarrow> time_corrector \<Rightarrow> int \<times> time_corrector" where
  "CorrectAudioByVideo time t =
     (let t = t\<lparr>a_count := a_count t + 1\<rparr>
      in if 1 < a_count t then CorrectAudioByAudio time t
         else if v_orig t = -1 then (time, t\<lparr>a_orig := time, a_corr := time\<rparr>)
         else let delta = time - v_orig t;
                  delta = (if fine delta then delta else 40);
                  c = v_corr t + delta;
                  c = (if c < 0 then 0 else c)
              in (c, t\<lparr>a_orig := time, a_corr := c\<rparr>))"

text \<open>The first video packet takes its own timestamp, or goes on from audio that is far away.\<close>

definition start_video :: "int \<Rightarrow> time_corrector \<Rightarrow> time_corrector" where
  "start_video time t =
     (if v_orig t = -1 then
        let t = t\<lparr>v_orig := time, v_corr := time\<rparr>
        in if a_orig t \<noteq> -1 then
             (let delta = to_int32 (a_orig t - v_orig t)
              in if delta \<le> -100 \<or> 100 \<le> delta then t\<lparr>v_orig := a_orig t, v_corr := a_corr t\<rparr> else t)
           else t
      else t)"

definition CorrectVideoByVideo :: "int \<Rightarrow> time_corrector \<Rightarrow> int \<times> time_corrector" where
  "CorrectVideoByVideo time t =
     (let t = start_video time (t\<lparr>a_count := 0\<rparr>);
          delta = time - v_orig t;
          delta = (if fine delta then delta else 40);
          c = v_corr t + delta;
          c = (if c < 0 then 0 else c)
      in (c, t\<lparr>v_orig := time, v_corr := c\<rparr>))"

definition CorrectTimestamp :: "'e packet \<Rightarrow> time_corrector \<Rightarrow> (u32 \<times> time_corrector) res" where
  "CorrectTimestamp packet t =
     bindE (IsCodecHeader packet) (\<lambda>hdr.
       let time = sint (pk_timestamp packet);
           narrow = (\<lambda>(c, t). (word_of_int c, t))
       in Inr (if hdr then (0, t)
               else if IsVideo packet then narrow (CorrectVideoByVideo time t)
               else if IsAudio packet then narrow (CorrectAudioByVideo time t)
               else (0, t)))"

section \<open>The index of the groups of pictures\<close>

record gop_mgr =
  gops :: "(int \<times> int) list"   \<comment> \<open>index and timestamp of each key frame\<close>
  gop_length :: int
  max_gop_length :: int
  gop_numbers :: int
  total_gop_length :: int
  lastest_timestamp :: int

definition GopMgr_new :: gop_mgr where
  "GopMgr_new = \<lparr>gops = [], gop_length = 0, max_gop_length = 0, gop_numbers = 0,
     total_gop_length = 0, lastest_timestamp = 0\<rparr>"

definition AddFrame :: "'e packet \<Rightarrow> gop_mgr \<Rightarrow> gop_mgr" where
  "AddFrame packet g =
     (let g = g\<lparr>lastest_timestamp := sint (pk_timestamp packet)\<rparr>;
          g = (if IsKeyFrame packet
               then g\<lparr>gops := gops g @ [(Index packet, sint (pk_timestamp packet))],
                      max_gop_length := max (max_gop_length g) (gop_length g),
                      total_gop_length := total_gop_length g + gop_length g,
                      gop_numbers := gop_numbers g + 1, gop_length := 0\<rparr>
               else g)
      in g\<lparr>gop_length := gop_length g + 1\<rparr>)"

definition MaxGopLength :: "gop_mgr \<Rightarrow> int" where
  "MaxGopLength g = max_gop_length g"

definition GopSize :: "gop_mgr \<Rightarrow> nat" where
  "GopSize g = length (gops g)"

definition LastestTimeStamp :: "gop_mgr \<Rightarrow> int" where
  "LastestTimeStamp g = lastest_timestamp g"

text \<open>The loop from the newest key frame back: the index found so far, and its latency.\<close>

fun gop_back :: "int \<Rightarrow> int \<Rightarrow> (int \<times> int) list \<Rightarrow> int \<Rightarrow> int \<Rightarrow> int \<times> int" where
  "gop_back lastest content_latency [] got latency = (got, latency)"
| "gop_back lastest content_latency ((index, ts) # older) got latency =
     (let item_latency = to_int32 (lastest - ts)
      in if item_latency \<le> content_latency then gop_back lastest content_latency older index item_latency
         else (got, latency))"

definition GetGopByLatency :: "int \<Rightarrow> gop_mgr \<Rightarrow> int \<times> int" where
  "GetGopByLatency content_latency g =
     gop_back (lastest_timestamp g) content_latency (rev (gops g)) (-1) 0"

fun erase_gops :: "int \<Rightarrow> (int \<times> int) list \<Rightarrow> (int \<times> int) list" where
  "erase_gops min_idx [] = []"
| "erase_gops min_idx ((index, ts) # gs) =
     (if index \<le> min_idx then erase_gops min_idx gs else (index, ts) # erase_gops min_idx gs)"

definition ClearExpriedGop :: "int \<Rightarrow> gop_mgr \<Rightarrow> gop_mgr" where
  "ClearExpriedGop min_idx g = (if gops g = [] then g else g\<lparr>gops := erase_gops min_idx (gops g)\<rparr>)"

section \<open>Lemmas\<close>

text \<open>What the corrector makes of a distance between two video timestamps.\<close>

definition video_step :: "int \<Rightarrow> int" where
  "video_step d = (if d < 100 then d else 40)"

fun correct_videos :: "int list \<Rightarrow> time_corrector \<Rightarrow> int list" where
  "correct_videos [] t = []"
| "correct_videos (time # ts) t =
     (let (c, t') = CorrectVideoByVideo time t in c # correct_videos ts t')"

lemma video_next:
  assumes "v_orig t \<noteq> -1" "v_orig t \<le> time" "0 \<le> v_corr t"
  shows "CorrectVideoByVideo time t = (v_corr t + video_step (time - v_orig t),
    t\<lparr>a_count := 0, v_orig := time, v_corr := v_corr t + video_step (time - v_orig t)\<rparr>)"
  using assms by (auto simp: CorrectVideoByVideo_def start_video_def Let_def fine_def video_step_def)

lemma correct_videos_steps:
  assumes "v_orig t \<noteq> -1" "0 \<le> v_orig t" "0 \<le> v_corr t" "sorted (v_orig t # ts)" "i < length ts"
  shows "(v_corr t # correct_videos ts t) ! Suc i - (v_corr t # correct_videos ts t) ! i =
    video_step ((v_orig t # ts) ! Suc i - (v_orig t # ts) ! i)"
  using assms
proof (induction ts arbitrary: t i)
  case (Cons x ts)
  let ?t = "t\<lparr>a_count := 0, v_orig := x, v_corr := v_corr t + video_step (x - v_orig t)\<rparr>"
  have x: "v_orig t \<le> x" using Cons.prems(4) by simp
  have st: "0 \<le> video_step (x - v_orig t)" using x by (simp add: video_step_def)
  have run: "correct_videos (x # ts) t = v_corr ?t # correct_videos ts ?t"
    using video_next [OF Cons.prems(1) x Cons.prems(3)] by simp
  show ?case
  proof (cases i)
    case 0
    then show ?thesis using run by simp
  next
    case (Suc j)
    have "(v_corr ?t # correct_videos ts ?t) ! Suc j - (v_corr ?t # correct_videos ts ?t) ! j =
        video_step ((v_orig ?t # ts) ! Suc j - (v_orig ?t # ts) ! j)"
      by (rule Cons.IH) (use Cons.prems x st Suc in auto)
    then show ?thesis using Suc run by simp
  qed
qed simp

lemma fresh_videos:
  assumes "0 \<le> x"
  shows "correct_videos (x # ts) TimeCorrector_new =
    x # correct_videos ts (TimeCorrector_new\<lparr>v_orig := x, v_corr := x\<rparr>)"
  using assms by (simp add: CorrectVideoByVideo_def start_video_def TimeCorrector_new_def fine_def Let_def)

lemma steps_sorted:
  assumes "\<And>i. Suc i < length xs \<Longrightarrow> (xs ! i :: int) \<le> xs ! Suc i"
  shows "sorted xs"
  using assms by (simp add: sorted_iff_nth_Suc)

lemma to_int32_small: "0 \<le> d \<Longrightarrow> d < 2 ^ 31 \<Longrightarrow> to_int32 d = d"
  by (simp add: to_int32_def signed_take_bit_int_eq_self)

lemma gop_back_spec:
  assumes "sorted (map snd gs)" "\<forall>g \<in> set gs. snd g \<le> lastest \<and> lastest - snd g < 2 ^ 31"
  shows "gop_back lastest content_latency (rev gs) got latency =
    (case find (\<lambda>(i, ts). lastest - ts \<le> content_latency) gs of
       None \<Rightarrow> (got, latency) | Some (i, ts) \<Rightarrow> (i, lastest - ts))"
  using assms
proof (induction gs arbitrary: got latency rule: rev_induct)
  case (snoc g gs)
  obtain i ts where g: "g = (i, ts)" by (cases g)
  have n: "to_int32 (lastest - ts) = lastest - ts" using snoc.prems(2) g by (intro to_int32_small) auto
  have older: "\<forall>x \<in> set gs. snd x \<le> ts" using snoc.prems(1) g by (auto simp: sorted_append)
  have IH: "\<And>got latency. gop_back lastest content_latency (rev gs) got latency =
    (case find (\<lambda>(i, ts). lastest - ts \<le> content_latency) gs of
       None \<Rightarrow> (got, latency) | Some (i, ts) \<Rightarrow> (i, lastest - ts))"
    using snoc by (auto simp: sorted_append)
  have none: "find (\<lambda>(i, ts). lastest - ts \<le> content_latency) gs = None" if "\<not> lastest - ts \<le> content_latency"
    using that older by (fastforce simp: find_None_iff)
  have app: "find P (xs @ [y]) = (case find P xs of Some z \<Rightarrow> Some z | None \<Rightarrow> if P y then Some y else None)"
    for P and xs :: "(int \<times> int) list" and y by (induction xs) auto
  show ?case using IH none n by (auto simp: g app split: option.splits)
qed simp

lemma header_search_spec:
  "header_search idx (rev ps) newest =
     (if filter (\<lambda>p. Index p \<le> idx) ps = [] then newest else Some (last (filter (\<lambda>p. Index p \<le> idx) ps)))"
  by (induction ps rule: rev_induct) auto

definition add_frames :: "'e packet list \<Rightarrow> gop_mgr" where
  "add_frames ps = fold AddFrame ps GopMgr_new"

lemma add_frames_snoc: "add_frames (ps @ [p]) = AddFrame p (add_frames ps)"
  by (simp add: add_frames_def)

section \<open>Properties\<close>

text \<open>C40: the corrected clock of a video stream never runs back and never jumps: for timestamps that do
  not decrease, the corrected ones do not decrease, follow the originals exactly where these are
  less than 100 ms apart, and move by 40 ms over a larger gap.\<close>

theorem video_timestamps_smooth:
  assumes "sorted ts" "\<forall>t \<in> set ts. 0 \<le> t"
  shows "sorted (correct_videos ts TimeCorrector_new) \<and>
    length (correct_videos ts TimeCorrector_new) = length ts \<and>
    (ts \<noteq> [] \<longrightarrow> hd (correct_videos ts TimeCorrector_new) = hd ts) \<and>
    (\<forall>i. Suc i < length ts \<longrightarrow>
      correct_videos ts TimeCorrector_new ! Suc i - correct_videos ts TimeCorrector_new ! i =
      (if ts ! Suc i - ts ! i < 100 then ts ! Suc i - ts ! i else 40))"
proof (cases ts)
  case (Cons x xs)
  let ?t = "TimeCorrector_new\<lparr>v_orig := x, v_corr := x\<rparr>"
  have x: "0 \<le> x" using assms(2) Cons by simp
  have run: "correct_videos ts TimeCorrector_new = x # correct_videos xs ?t"
    using fresh_videos [OF x] Cons by simp
  have len: "length (correct_videos ys t) = length ys" for ys t
    by (induction ys arbitrary: t) (auto split: prod.splits)
  have steps: "correct_videos ts TimeCorrector_new ! Suc i - correct_videos ts TimeCorrector_new ! i =
      video_step (ts ! Suc i - ts ! i)" if "Suc i < length ts" for i
    unfolding run using correct_videos_steps [of ?t xs i] that assms(1) x by (simp add: Cons)
  have pos: "0 \<le> video_step (ts ! Suc i - ts ! i)" if "Suc i < length ts" for i
    using that assms(1) by (simp add: video_step_def sorted_iff_nth_Suc)
  have "sorted (correct_videos ts TimeCorrector_new)"
  proof (rule steps_sorted)
    fix i assume "Suc i < length (correct_videos ts TimeCorrector_new)"
    then have "Suc i < length ts" by (simp add: len)
    from steps [OF this] pos [OF this]
    show "correct_videos ts TimeCorrector_new ! i \<le> correct_videos ts TimeCorrector_new ! Suc i" by simp
  qed
  with steps show ?thesis using len run Cons by (simp add: video_step_def)
qed simp

lemma video_timestamps_smooth_witness:
  "sorted (correct_videos [0, 40, 5000, 5040] TimeCorrector_new) \<and>
   correct_videos [0, 40, 5000, 5040] TimeCorrector_new ! 2 - correct_videos [0, 40, 5000, 5040] TimeCorrector_new ! 1 = 40"
  using video_timestamps_smooth [of "[0, 40, 5000, 5040]"]
  by (auto simp: numeral_2_eq_2 dest: spec [of _ "Suc 0"])

text \<open>The first audio packet behind a video packet gets a time within 100 ms of the corrected video
  time, and at exactly its distance from the video packet where that is less than 100 ms.\<close>

lemma audio_stays_with_video:
  assumes "v_orig t \<noteq> -1" "0 \<le> v_corr t" "a_count t = 0"
  shows "\<bar>fst (CorrectAudioByVideo time t) - v_corr t\<bar> < 100 \<and> 0 \<le> fst (CorrectAudioByVideo time t) \<and>
    (\<bar>time - v_orig t\<bar> < 100 \<longrightarrow> fst (CorrectAudioByVideo time t) = max 0 (v_corr t + (time - v_orig t)))"
  using assms by (auto simp: CorrectAudioByVideo_def Let_def fine_def)

text \<open>the accounts of the group index add up: after any sequence of frames, the finished groups and
  the one in progress have as many frames as were added, there are as many groups as key frames,
  each with its index and timestamp, and no finished group is longer than the maximum.\<close>

theorem gop_accounts:
  fixes ps :: "'e packet list"
  shows "total_gop_length (add_frames ps) + gop_length (add_frames ps) = int (length ps) \<and>
    gop_numbers (add_frames ps) = int (length (filter IsKeyFrame ps)) \<and>
    gops (add_frames ps) = map (\<lambda>p. (Index p, sint (pk_timestamp p))) (filter IsKeyFrame ps) \<and>
    0 \<le> gop_length (add_frames ps) \<and> 0 \<le> max_gop_length (add_frames ps) \<and>
    total_gop_length (add_frames ps) \<le> gop_numbers (add_frames ps) * max_gop_length (add_frames ps) \<and>
    0 \<le> gop_numbers (add_frames ps)"
proof (induction ps rule: rev_induct)
  case Nil
  then show ?case by (simp add: add_frames_def GopMgr_new_def)
next
  case (snoc p ps)
  let ?g = "add_frames ps"
  let ?m = "max (max_gop_length ?g) (gop_length ?g)"
  have "total_gop_length ?g \<le> gop_numbers ?g * max_gop_length ?g" using snoc by blast
  also have "\<dots> \<le> gop_numbers ?g * ?m" using snoc by (intro mult_left_mono) auto
  finally have "total_gop_length ?g + gop_length ?g \<le> (gop_numbers ?g + 1) * ?m"
    by (simp add: distrib_right)
  with snoc show ?case by (auto simp: add_frames_snoc AddFrame_def Let_def)
qed

text \<open>a player that may lag by \<open>content_latency\<close> starts at the oldest key frame that is no further
  back: \<open>GetGopByLatency\<close> returns the index of that group and its latency, and -1 if there is none.\<close>

theorem GetGopByLatency_is_oldest:
  assumes "sorted (map snd (gops g))"
    and "\<forall>x \<in> set (gops g). snd x \<le> lastest_timestamp g \<and> lastest_timestamp g - snd x < 2 ^ 31"
  shows "GetGopByLatency content_latency g =
    (case find (\<lambda>(i, ts). lastest_timestamp g - ts \<le> content_latency) (gops g) of
       None \<Rightarrow> (-1, 0) | Some (i, ts) \<Rightarrow> (i, lastest_timestamp g - ts))"
  unfolding GetGopByLatency_def using gop_back_spec [OF assms] by simp

lemma GetGopByLatency_is_oldest_witness:
  "GetGopByLatency 2500 (GopMgr_new\<lparr>gops := [(0, 0), (50, 2000), (100, 4000)], lastest_timestamp := 4400\<rparr>) = (50, 2400)"
  using GetGopByLatency_is_oldest [of "GopMgr_new\<lparr>gops := [(0, 0), (50, 2000), (100, 4000)], lastest_timestamp := 4400\<rparr>" 2500]
  by simp

text \<open>The codec header a player needs at a frame index is the last one saved at or before that index;
  without one, the newest.\<close>

lemma header_at_index:
  assumes "0 < idx"
  shows "VideoHeader idx c =
    (if filter (\<lambda>p. Index p \<le> idx) (video_header_packets c) = [] then ch_video c
     else Some (last (filter (\<lambda>p. Index p \<le> idx) (video_header_packets c)))) \<and>
   AudioHeader idx c =
    (if filter (\<lambda>p. Index p \<le> idx) (audio_header_packets c) = [] then ch_audio c
     else Some (last (filter (\<lambda>p. Index p \<le> idx) (audio_header_packets c)))) \<and>
   Meta idx c =
    (if filter (\<lambda>p. Index p \<le> idx) (meta_packets c) = [] then ch_meta c
     else Some (last (filter (\<lambda>p. Index p \<le> idx) (meta_packets c))))"
  using assms by (simp add: VideoHeader_def AudioHeader_def Meta_def header_search_spec)

end
