(* ===== verification/NalBits.thy ===== *)
theory NalBits
  imports Bytes
begin

text \<open>
  The bit reader for slice headers, \<open>src/mmedia/base/NalBitStream.{h,cpp}\<close>: it takes the bytes of a NAL
  unit without the emulation prevention bytes (the 3 of a sequence 0 0 3), bit by bit from the top,
  and reads Exp-Golomb numbers. The data is the list of the bytes from the pointer to the end of the
  object, the length the number the caller gives.
\<close>

section \<open>The stream\<close>

record nal_stream =
  nb_data :: "byte list"
  nb_len :: int
  nb_bits :: nat
  nb_idx :: nat
  nb_byte :: byte

definition NalBitStream :: "byte list \<Rightarrow> int \<Rightarrow> nal_stream" where
  "NalBitStream p len = \<lparr>nb_data = p, nb_len = len, nb_bits = 0, nb_idx = 0, nb_byte = 0\<rparr>"

definition GetByte :: "nal_stream \<Rightarrow> (byte \<times> nal_stream) res" where
  "GetByte s =
     (let i = nb_idx s; d = nb_data s
      in if nb_len s \<le> int i then Inr (0, s)
         else bindE (element i d) (\<lambda>b.
           let i = (if b = 3 \<and> 2 \<le> i \<and> d ! (i - 1) = 0 \<and> d ! (i - 2) = 0 then i + 1 else i)
           in bindE (element i d) (\<lambda>v. Inr (v, s\<lparr>nb_idx := i + 1\<rparr>))))"

definition GetBit :: "nal_stream \<Rightarrow> (bool \<times> nal_stream) res" where
  "GetBit s =
     bindE (if nb_bits s = 0
            then bindE (GetByte s) (\<lambda>(b, s). Inr (s\<lparr>nb_byte := b, nb_bits := 8\<rparr>))
            else Inr s) (\<lambda>s.
       let n = nb_bits s - 1 in Inr (bit (nb_byte s) n, s\<lparr>nb_bits := n\<rparr>))"

fun word_loop :: "nat \<Rightarrow> u16 \<Rightarrow> nal_stream \<Rightarrow> (u16 \<times> nal_stream) res" where
  "word_loop 0 u s = Inr (u, s)"
| "word_loop (Suc n) u s =
     bindE (GetBit s) (\<lambda>(b, s). word_loop n (push_bit 1 u OR (if b then 1 else 0)) s)"

definition GetWord :: "nat \<Rightarrow> nal_stream \<Rightarrow> (u16 \<times> nal_stream) res" where
  "GetWord bits s = word_loop bits 0 s"

definition GetBitLong :: "nat \<Rightarrow> nal_stream \<Rightarrow> (u32 \<times> nal_stream) res" where
  "GetBitLong n s =
     (if n = 0 then Inr (0, s)
      else if n \<le> 16 then bindE (GetWord n s) (\<lambda>(w, s). Inr (ucast w, s))
      else bindE (GetWord 16 s) (\<lambda>(hi, s). bindE (GetWord (n - 16) s) (\<lambda>(lo, s).
             Inr (push_bit (n - 16) (ucast hi) OR ucast lo, s))))"

definition GetBit64 :: "nat \<Rightarrow> nal_stream \<Rightarrow> (u64 \<times> nal_stream) res" where
  "GetBit64 n s =
     (if n \<le> 32 then bindE (GetBitLong n s) (\<lambda>(w, s). Inr (ucast w, s))
      else bindE (GetBitLong (n - 32) s) (\<lambda>(hi, s). bindE (GetBitLong 32 s) (\<lambda>(lo, s).
             Inr (push_bit 32 (ucast hi) OR ucast lo, s))))"

text \<open>Every bit taken brings the end nearer.\<close>

definition bits_left :: "nal_stream \<Rightarrow> nat" where
  "bits_left s = 8 * nat (nb_len s - int (nb_idx s)) + nb_bits s"

lemma GetByte_progress:
  "GetByte s = Inr (b, s') \<Longrightarrow> int (nb_idx s) < nb_len s \<Longrightarrow> nb_len s' = nb_len s \<and> nb_idx s < nb_idx s' \<and> nb_bits s' = nb_bits s"
  by (auto simp: GetByte_def Let_def)

lemma GetBit_progress:
  assumes "GetBit s = Inr (b, s')" "int (nb_idx s) < nb_len s"
  shows "bits_left s' < bits_left s"
proof (cases "nb_bits s = 0")
  case True
  with assms obtain v t where t: "GetByte s = Inr (v, t)" "s' = t\<lparr>nb_byte := v, nb_bits := 7\<rparr>"
    by (auto simp: GetBit_def Let_def)
  then have "nb_len s' = nb_len s" "nb_idx s < nb_idx s'" "nb_bits s' = 7"
    using GetByte_progress [OF t(1) assms(2)] by auto
  with True assms(2) show ?thesis by (auto simp: bits_left_def)
next
  case False
  with assms(1) have "s' = s\<lparr>nb_bits := nb_bits s - 1\<rparr>" by (auto simp: GetBit_def Let_def)
  with False show ?thesis by (simp add: bits_left_def)
qed

function count_zeros :: "nat \<Rightarrow> nal_stream \<Rightarrow> (nat \<times> nal_stream) res" where
  "count_zeros zeros s =
     (if int (nb_idx s) < nb_len s
      then bindE (GetBit s) (\<lambda>r. if fst r then Inr (zeros, snd r) else count_zeros (zeros + 1) (snd r))
      else Inr (zeros, s))"
  by pat_completeness auto
termination
  by (relation "measure (\<lambda>(z, s). bits_left s)") (auto intro: GetBit_progress)

declare count_zeros.simps [simp del]

text \<open>\<open>1 << zeros\<close> is an \<open>int\<close>.\<close>

definition GetUE :: "nal_stream \<Rightarrow> (u32 \<times> nal_stream) res" where
  "GetUE s =
     bindE (count_zeros 0 s) (\<lambda>(zeros, s).
     bindE (GetWord zeros s) (\<lambda>(w, s).
       if 31 \<le> zeros then Inl BadShift else Inr (ucast w + (push_bit zeros 1 - 1), s)))"

definition GetSE :: "nal_stream \<Rightarrow> (u32 \<times> nal_stream) res" where
  "GetSE s =
     bindE (GetUE s) (\<lambda>(ue, s).
       let se = drop_bit 1 (ue + 1) in Inr (if ue AND 1 \<noteq> 0 then se else - se, s))"

section \<open>The bits of the stream\<close>

text \<open>What is to be read: the bits of the bytes, from the top, without the emulation prevention bytes.\<close>

fun unescape :: "byte \<Rightarrow> byte \<Rightarrow> byte list \<Rightarrow> byte list" where
  "unescape a b [] = []"
| "unescape a b (c # xs) =
     (if c = 3 \<and> a = 0 \<and> b = 0 then (case xs of [] \<Rightarrow> [] | d # ys \<Rightarrow> d # unescape c d ys)
      else c # unescape b c xs)"

text \<open>No emulation prevention byte is the last byte.\<close>

fun closed_end :: "byte \<Rightarrow> byte \<Rightarrow> byte list \<Rightarrow> bool" where
  "closed_end a b [] = True"
| "closed_end a b (c # xs) =
     (if c = 3 \<and> a = 0 \<and> b = 0 then (case xs of [] \<Rightarrow> False | d # ys \<Rightarrow> closed_end c d ys)
      else closed_end b c xs)"

definition top_bits :: "nat \<Rightarrow> byte \<Rightarrow> bool list" where
  "top_bits n b = map (bit b) (rev [0..<n])"

definition before :: "nat \<Rightarrow> nal_stream \<Rightarrow> byte" where
  "before k s = (if k \<le> nb_idx s then nb_data s ! (nb_idx s - k) else 1)"

definition unread :: "nal_stream \<Rightarrow> byte list" where
  "unread s = take (nat (nb_len s) - nb_idx s) (drop (nb_idx s) (nb_data s))"

definition remaining :: "nal_stream \<Rightarrow> bool list" where
  "remaining s = top_bits (nb_bits s) (nb_byte s) @
     concat (map (top_bits 8) (unescape (before 2 s) (before 1 s) (unread s)))"

definition stream_ok :: "nal_stream \<Rightarrow> bool" where
  "stream_ok s \<longleftrightarrow> nb_bits s \<le> 7 \<and> 0 \<le> nb_len s \<and> nat (nb_len s) \<le> length (nb_data s) \<and> int (nb_idx s) \<le> nb_len s \<and>
     closed_end (before 2 s) (before 1 s) (unread s)"

lemma top_bits_Suc: "top_bits (Suc n) b = bit b n # top_bits n b"
  by (simp add: top_bits_def)

lemma top_bits_simps [simp]: "top_bits 0 b = []" "length (top_bits n b) = n"
  by (simp_all add: top_bits_def)

lemma unread_Cons:
  assumes "int (nb_idx s) < nb_len s" "nat (nb_len s) \<le> length (nb_data s)"
  shows "unread s = nb_data s ! nb_idx s # unread (s\<lparr>nb_idx := nb_idx s + 1\<rparr>)"
proof -
  have "nb_idx s < nat (nb_len s)" using assms(1) by simp
  then have lt: "nb_idx s < length (nb_data s)" "nat (nb_len s) - nb_idx s = Suc (nat (nb_len s) - (nb_idx s + 1))"
    using assms(2) by auto
  show ?thesis unfolding unread_def lt(2) using Cons_nth_drop_Suc [OF lt(1), symmetric] by simp
qed

lemma before_next:
  "before (Suc 0) (s\<lparr>nb_idx := Suc i\<rparr>) = nb_data s ! i"
  "nb_idx s = i \<Longrightarrow> before 2 (s\<lparr>nb_idx := Suc i\<rparr>) = before 1 s"
  by (auto simp: before_def numeral_2_eq_2)

text \<open>The next byte.\<close>

lemma GetByte_next:
  assumes "stream_ok s" "unescape (before 2 s) (before 1 s) (unread s) = v # vs"
  shows "\<exists>s'. GetByte s = Inr (v, s') \<and> stream_ok s' \<and> nb_bits s' = nb_bits s \<and>
    unescape (before 2 s') (before 1 s') (unread s') = vs"
proof -
  let ?i = "nb_idx s" and ?d = "nb_data s"
  have "unread s \<noteq> []" using assms(2) by auto
  then have i: "int ?i < nb_len s" "nat (nb_len s) \<le> length ?d" using assms(1)
    by (auto simp: stream_ok_def unread_def)
  then have lt: "?i < length ?d" by linarith
  note u = unread_Cons [OF i]
  have esc: "before 2 s = 0 \<and> before 1 s = 0 \<longleftrightarrow> 2 \<le> ?i \<and> ?d ! (?i - 1) = 0 \<and> ?d ! (?i - 2) = 0"
    by (auto simp: before_def)
  show ?thesis
  proof (cases "?d ! ?i = 3 \<and> before 2 s = 0 \<and> before 1 s = 0")
    case False
    let ?s = "s\<lparr>nb_idx := ?i + 1\<rparr>"
    have "GetByte s = Inr (?d ! ?i, ?s)" using False esc lt i(1) by (auto simp: GetByte_def Let_def simp del: bindE_eq_Inr)
    moreover have "v = ?d ! ?i" "unescape (before 1 s) (?d ! ?i) (unread ?s) = vs"
      using assms(2) False unfolding u by auto
    moreover have "closed_end (before 1 s) (?d ! ?i) (unread ?s)"
      using assms(1) False unfolding stream_ok_def u by auto
    ultimately show ?thesis using assms(1) i by (auto simp: stream_ok_def before_next)
  next
    case True
    let ?s = "s\<lparr>nb_idx := ?i + 1\<rparr>" and ?t = "s\<lparr>nb_idx := ?i + 2\<rparr>"
    have "unread ?s \<noteq> []" using assms(1) True unfolding stream_ok_def u by auto
    then have j: "int (nb_idx ?s) < nb_len ?s" "nat (nb_len ?s) \<le> length (nb_data ?s)" using i
      by (auto simp: unread_def)
    then have lt2: "?i + 1 < length ?d" by simp
    have "?s\<lparr>nb_idx := nb_idx ?s + 1\<rparr> = ?t" by simp
    with unread_Cons [OF j] have w: "unread ?s = ?d ! (?i + 1) # unread ?t" by simp
    have "GetByte s = Inr (?d ! (?i + 1), ?t)" using True esc lt lt2 i(1)
      by (simp add: GetByte_def Let_def del: bindE_eq_Inr)
    moreover have "v = ?d ! (?i + 1)" "unescape 3 (?d ! (?i + 1)) (unread ?t) = vs"
      using assms(2) True unfolding u w by auto
    moreover have "closed_end 3 (?d ! (?i + 1)) (unread ?t)"
      using assms(1) True unfolding stream_ok_def u w by auto
    moreover have "before 2 ?t = 3" "before 1 ?t = ?d ! (?i + 1)" using True by (simp_all add: before_def)
    ultimately show ?thesis using assms(1) j by (auto simp: stream_ok_def)
  qed
qed

text \<open>The next bit, and the next bits.\<close>

lemma GetBit_next:
  assumes "stream_ok s" "remaining s = b # bs"
  shows "\<exists>s'. GetBit s = Inr (b, s') \<and> stream_ok s' \<and> remaining s' = bs"
proof (cases "nb_bits s")
  case (Suc n)
  let ?s = "s\<lparr>nb_bits := n\<rparr>"
  have same: "unread ?s = unread s" "before k ?s = before k s" for k by (simp_all add: unread_def before_def)
  have "b = bit (nb_byte s) n" "bs = top_bits n (nb_byte s) @ concat (map (top_bits 8) (unescape (before 2 s) (before 1 s) (unread s)))"
    using assms(2) Suc by (simp_all add: remaining_def top_bits_Suc)
  with Suc assms(1) show ?thesis
    by (intro exI [of _ ?s]) (simp add: GetBit_def Let_def stream_ok_def remaining_def same)
next
  case 0
  with assms(2) obtain v vs where v: "unescape (before 2 s) (before 1 s) (unread s) = v # vs"
    by (cases "unescape (before 2 s) (before 1 s) (unread s)") (auto simp: remaining_def)
  obtain t where t: "GetByte s = Inr (v, t)" "stream_ok t" "unescape (before 2 t) (before 1 t) (unread t) = vs"
    using GetByte_next [OF assms(1) v] by blast
  let ?s = "t\<lparr>nb_byte := v, nb_bits := 7\<rparr>"
  have same: "unread ?s = unread t" "before k ?s = before k t" for k by (simp_all add: unread_def before_def)
  have "top_bits 8 v = bit v 7 # top_bits 7 v" using top_bits_Suc [of 7 v] by simp
  then have "b = bit v 7" "bs = top_bits 7 v @ concat (map (top_bits 8) vs)"
    using assms(2) 0 v by (simp_all add: remaining_def)
  with 0 t show ?thesis
    by (intro exI [of _ ?s]) (simp add: GetBit_def Let_def stream_ok_def remaining_def same)
qed

definition bits_value :: "bool list \<Rightarrow> nat" where
  "bits_value w = foldl (\<lambda>n b. 2 * n + of_bool b) 0 w"

lemma shift_in: "push_bit 1 u OR (if b then 1 else 0) = 2 * u + (of_bool b :: u16)"
proof -
  have "even (push_bit 1 u)" using bit_push_bit_iff [of 1 u 0] by (simp add: bit_0)
  then show ?thesis by (cases b) (simp_all add: or_one_eq push_bit_eq_mult mult.commute)
qed

lemma word_loop_bits:
  assumes "stream_ok s" "remaining s = w @ rest"
  shows "\<exists>s'. word_loop (length w) (of_nat n) s = Inr (of_nat (foldl (\<lambda>n b. 2 * n + of_bool b) n w), s') \<and>
    stream_ok s' \<and> remaining s' = rest"
  using assms
proof (induction w arbitrary: n s)
  case (Cons b w)
  obtain t where t: "GetBit s = Inr (b, t)" "stream_ok t" "remaining t = w @ rest"
    using GetBit_next [OF Cons.prems(1)] Cons.prems(2) by auto
  have "push_bit 1 (of_nat n) OR (if b then 1 else 0) = (of_nat (2 * n + of_bool b) :: u16)"
    unfolding shift_in by simp
  with t Cons.IH [OF t(2,3), of "2 * n + of_bool b"] show ?case by (simp del: bindE_eq_Inr)
qed simp

lemma GetWord_bits:
  assumes "stream_ok s" "remaining s = w @ rest"
  shows "\<exists>s'. GetWord (length w) s = Inr (of_nat (bits_value w), s') \<and> stream_ok s' \<and> remaining s' = rest"
  using word_loop_bits [OF assms, of 0] by (simp add: GetWord_def bits_value_def)

lemma bits_value_less: "bits_value w < 2 ^ length w"
proof -
  have "foldl (\<lambda>n b. 2 * n + of_bool b) n w < (n + 1) * 2 ^ length w" for n :: nat
  proof (induction w arbitrary: n)
    case (Cons b w)
    have "foldl (\<lambda>n b. 2 * n + of_bool b) (2 * n + of_bool b) w < (2 * n + of_bool b + 1) * 2 ^ length w" by (rule Cons)
    also have "\<dots> \<le> (2 * n + 2) * 2 ^ length w" by (intro mult_right_mono) auto
    finally show ?case by (simp add: algebra_simps)
  qed simp
  from this [of 0] show ?thesis by (simp add: bits_value_def)
qed

text \<open>While a byte is still to come the loop over the zeros goes on.\<close>

lemma more_bytes:
  assumes "stream_ok s" "8 \<le> length (remaining s)"
  shows "int (nb_idx s) < nb_len s"
proof (rule ccontr)
  assume "\<not> int (nb_idx s) < nb_len s"
  then have "unread s = []" by (simp add: unread_def)
  then show False using assms by (simp add: stream_ok_def remaining_def)
qed

lemma count_zeros_bits:
  assumes "stream_ok s" "remaining s = replicate k False @ True # rest" "7 \<le> length rest"
  shows "\<exists>s'. count_zeros n s = Inr (n + k, s') \<and> stream_ok s' \<and> remaining s' = rest"
  using assms
proof (induction k arbitrary: n s)
  case 0
  obtain t where t: "GetBit s = Inr (True, t)" "stream_ok t" "remaining t = rest"
    using GetBit_next [OF 0(1)] 0(2) by auto
  have "int (nb_idx s) < nb_len s" using more_bytes [OF 0(1)] 0(2,3) by simp
  with t show ?case by (simp add: count_zeros.simps [of n s])
next
  case (Suc k)
  obtain t where t: "GetBit s = Inr (False, t)" "stream_ok t" "remaining t = replicate k False @ True # rest"
    using GetBit_next [OF Suc.prems(1)] Suc.prems(2) by auto
  have "int (nb_idx s) < nb_len s" using more_bytes [OF Suc.prems(1)] Suc.prems(2,3) by simp
  with t Suc.IH [OF t(2,3) Suc.prems(3), of "n + 1"] show ?case by (simp add: count_zeros.simps [of n s])
qed

text \<open>An Exp-Golomb number: as many zeros as the number behind the one has bits.\<close>

definition ue_bits :: "bool list \<Rightarrow> bool list" where
  "ue_bits w = replicate (length w) False @ True # w"

definition ue_value :: "bool list \<Rightarrow> nat" where
  "ue_value w = 2 ^ length w - 1 + bits_value w"

lemma GetUE_bits:
  assumes "stream_ok s" "remaining s = ue_bits w @ rest" "length w \<le> 16" "7 \<le> length (w @ rest)"
  shows "\<exists>s'. GetUE s = Inr (of_nat (ue_value w), s') \<and> stream_ok s' \<and> remaining s' = rest"
proof -
  obtain t where t: "count_zeros 0 s = Inr (length w, t)" "stream_ok t" "remaining t = w @ rest"
    using count_zeros_bits [OF assms(1), of "length w" "w @ rest" 0] assms(2,4) by (auto simp: ue_bits_def)
  obtain s' where s': "GetWord (length w) t = Inr (of_nat (bits_value w), s')" "stream_ok s'" "remaining s' = rest"
    using GetWord_bits [OF t(2,3)] by blast
  have "bits_value w < 2 ^ 16"
    using bits_value_less [of w] power_increasing [OF assms(3), of "2 :: nat"] by linarith
  then have "ucast (of_nat (bits_value w) :: u16) = (of_nat (bits_value w) :: u32)"
    by (simp add: unsigned_of_nat take_bit_nat_eq_self)
  moreover have "push_bit (length w) 1 - 1 = (of_nat (2 ^ length w - 1) :: u32)"
    by (simp add: push_bit_eq_mult of_nat_diff)
  ultimately have "ucast (of_nat (bits_value w) :: u16) + (push_bit (length w) 1 - 1) = (of_nat (ue_value w) :: u32)"
    by (simp only: ue_value_def of_nat_add add.commute)
  then show ?thesis using t s' assms(3) by (simp add: GetUE_def del: bindE_eq_Inr push_bit_of_1)
qed

lemma stream_start:
  assumes "closed_end 1 1 (take n p)" "n \<le> length p"
  shows "stream_ok (NalBitStream p (int n)) \<and>
    remaining (NalBitStream p (int n)) = concat (map (top_bits 8) (unescape 1 1 (take n p)))"
  using assms by (simp add: stream_ok_def NalBitStream_def remaining_def before_def unread_def)

end
