(* ===== verification/AvDemux.thy ===== *)
theory AvDemux
  imports NalBits
begin

text \<open>
  The demuxers of FLV audio and video tags: \<open>src/mmedia/demux/AudioDemux.{h,cpp}\<close> and
  \<open>VideoDemux.{h,cpp}\<close>, with the types of \<open>src/mmedia/base/AVTypes.h\<close> they use. A sample is a pointer
  and a size, as the code's \<open>SampleBuf\<close>: the bytes from the pointer to the end of the object, and the
  number. The size of a tag is a \<open>size_t\<close> and is subtracted from as such; the object behind the
  pointer (the data of a packet) may be longer than the size, or not.
\<close>

section \<open>Samples\<close>

record sample_buf =
  sb_addr :: "byte list"
  sb_size :: nat

definition SampleBuf :: "byte list \<Rightarrow> nat \<Rightarrow> sample_buf" where
  "SampleBuf p n = \<lparr>sb_addr = p, sb_size = n\<rparr>"

definition sample_bytes :: "sample_buf \<Rightarrow> byte list" where
  "sample_bytes b = take (sb_size b) (sb_addr b)"

text \<open>A \<open>size_t\<close> passed as an \<open>int\<close>, and \<open>std::string::assign (p, n)\<close>, which throws beyond the
  largest size of a string.\<close>

definition to_int :: "nat \<Rightarrow> int" where
  "to_int n = sint (of_nat n :: u32)"

definition assign_string :: "nat \<Rightarrow> byte list \<Rightarrow> byte list res" where
  "assign_string n p = (if 2 ^ 63 \<le> n then Inl BadAlloc else mem_read n p)"

lemma to_int_small [simp]: "n < 2 ^ 31 \<Longrightarrow> to_int n = int n"
  by (simp add: to_int_def sint_unat_small unat_of_nat)

lemma assign_string_simps [simp]: "n < 2 ^ 63 \<Longrightarrow> n \<le> length p \<Longrightarrow> assign_string n p = Inr (take n p)"
  by (simp add: assign_string_def)

section \<open>Audio\<close>

record audio_demux =
  sound_format :: u32
  sound_rate :: u32
  sound_size :: u32
  sound_type :: u32
  aac_object :: u32
  aac_sample_rate :: u32
  aac_channel :: byte
  aac_ok :: bool
  aac_seq_header :: "byte list"

abbreviation kAudioCodecIDMP3 :: u32 where "kAudioCodecIDMP3 \<equiv> 2"
abbreviation kAudioCodecIDAAC :: u32 where "kAudioCodecIDAAC \<equiv> 10"
abbreviation kAACPacketTypeAACSequenceHeader :: byte where "kAACPacketTypeAACSequenceHeader \<equiv> 0"
abbreviation kAACPacketTypeAACRaw :: byte where "kAACPacketTypeAACRaw \<equiv> 1"

text \<open>The constructor initialises \<open>aac_ok_\<close> and the string only; the numbers start with any value.\<close>

definition AudioDemux_new :: "u32 \<Rightarrow> audio_demux" where
  "AudioDemux_new g = \<lparr>sound_format = g, sound_rate = g, sound_size = g, sound_type = g, aac_object = g,
     aac_sample_rate = g, aac_channel = ucast g, aac_ok = False, aac_seq_header = []\<rparr>"

type_synonym 'd demuxed = "int \<times> 'd \<times> sample_buf list"

definition DemuxAACSequenceHeader :: "byte list \<Rightarrow> int \<Rightarrow> audio_demux \<Rightarrow> (int \<times> audio_demux) res" where
  "DemuxAACSequenceHeader p n d =
     (if n < 2 then Inr (-1, d)
      else bindE (GetWord 5 (NalBitStream p n)) (\<lambda>(obj, s).
           bindE (GetWord 4 s) (\<lambda>(rate, s).
           bindE (GetWord 4 s) (\<lambda>(ch, s).
             Inr (0, d\<lparr>aac_object := ucast obj, aac_sample_rate := ucast rate, aac_channel := ucast ch,
                       aac_ok := True\<rparr>)))))"

definition DemuxAAC :: "byte list \<Rightarrow> nat \<Rightarrow> audio_demux \<Rightarrow> sample_buf list \<Rightarrow> audio_demux demuxed res" where
  "DemuxAAC data n d outs =
     bindE (element 1 data) (\<lambda>t.
       if t = kAACPacketTypeAACSequenceHeader then
         (if 0 < size_sub n 2
          then bindE (assign_string (size_sub n 2) (drop 2 data)) (\<lambda>hdr.
               bindE (DemuxAACSequenceHeader (drop 2 data) (to_int (size_sub n 2)) (d\<lparr>aac_seq_header := hdr\<rparr>))
                 (\<lambda>(r, d). Inr (r, d, outs)))
          else Inr (0, d, outs))
       else if t = kAACPacketTypeAACRaw then
         (if \<not> aac_ok d then Inr (-1, d, outs)
          else Inr (0, d, outs @ [SampleBuf (drop 2 data) (size_sub n 2)]))
       else Inr (0, d, outs))"

definition DemuxMP3 :: "byte list \<Rightarrow> nat \<Rightarrow> sample_buf list \<Rightarrow> int \<times> sample_buf list" where
  "DemuxMP3 data n outs = (0, outs @ [SampleBuf (drop 1 data) (n - 1)])"

definition AudioDemux_OnDemux ::
    "byte list \<Rightarrow> nat \<Rightarrow> audio_demux \<Rightarrow> sample_buf list \<Rightarrow> audio_demux demuxed res" where
  "AudioDemux_OnDemux data n d outs =
     (if n < 1 then Inr (-1, d, outs)
      else bindE (element 0 data) (\<lambda>b.
        let d = d\<lparr>sound_format := ucast (drop_bit 4 b AND 0x0f), sound_rate := ucast (drop_bit 2 (b AND 0xc0)),
                  sound_size := ucast (drop_bit 1 (b AND 0x02)), sound_type := ucast (b AND 0x01)\<rparr>
        in if sound_format d = kAudioCodecIDMP3
           then (case DemuxMP3 data n outs of (r, outs) \<Rightarrow> Inr (r, d, outs))
           else if sound_format d = kAudioCodecIDAAC then DemuxAAC data n d outs
           else Inr (-1, d, outs)))"

definition GetSampleRate :: "audio_demux \<Rightarrow> nat res" where
  "GetSampleRate d = element (unat (aac_sample_rate d))
     [96000, 88200, 64000, 48000, 44100, 32000, 24000, 22050, 16000, 12000, 11025, 8000, 7350, 0, 0, 0]"

section \<open>Video\<close>

datatype payload_format = kPayloadFormatUnknowed | kPayloadFormatAvcc | kPayloadFormatAnnexB

record video_demux =
  vd_codec_id :: byte
  composition_time :: u32
  config_version :: byte
  vd_profile :: byte
  profile_com :: byte
  vd_level :: byte
  nalu_unit_length :: byte
  avc_ok :: bool
  vd_sps :: "byte list"
  vd_pps :: "byte list"
  payload_format :: payload_format
  has_aud :: bool
  has_idr :: bool
  has_sps_pps :: bool
  has_bframe :: bool

abbreviation kVideoCodecIDAVC :: byte where "kVideoCodecIDAVC \<equiv> 7"
abbreviation kNaluTypeIDR :: byte where "kNaluTypeIDR \<equiv> 5"
abbreviation kNaluTypeSPS :: byte where "kNaluTypeSPS \<equiv> 7"
abbreviation kNaluTypePPS :: byte where "kNaluTypePPS \<equiv> 8"
abbreviation kNaluTypeAccessUnitDelimiter :: byte where "kNaluTypeAccessUnitDelimiter \<equiv> 9"

text \<open>\<open>codec_id_\<close> starts with any value.\<close>

definition VideoDemux_new :: "byte \<Rightarrow> video_demux" where
  "VideoDemux_new g = \<lparr>vd_codec_id = g, composition_time = 0, config_version = 0, vd_profile = 0,
     profile_com = 0, vd_level = 0, nalu_unit_length = 0, avc_ok = False, vd_sps = [], vd_pps = [],
     payload_format = kPayloadFormatUnknowed, has_aud = False, has_idr = False, has_sps_pps = False,
     has_bframe = False\<rparr>"

definition VideoDemux_Reset :: "video_demux \<Rightarrow> video_demux" where
  "VideoDemux_Reset d = d\<lparr>has_aud := False, has_idr := False, has_sps_pps := False, has_bframe := False\<rparr>"

definition CheckNaluType :: "byte list \<Rightarrow> video_demux \<Rightarrow> video_demux res" where
  "CheckNaluType data d =
     bindE (element 0 data) (\<lambda>b.
       let t = b AND 0x1f
       in if t = kNaluTypeIDR then Inr (d\<lparr>has_idr := True\<rparr>)
          else if t = kNaluTypeAccessUnitDelimiter then Inr (d\<lparr>has_aud := True\<rparr>)
          else if t = kNaluTypeSPS \<or> t = kNaluTypePPS then Inr (d\<lparr>has_sps_pps := True\<rparr>)
          else Inr d)"

definition CheckBFrame :: "byte list \<Rightarrow> nat \<Rightarrow> bool res" where
  "CheckBFrame data bytes =
     bindE (element 0 data) (\<lambda>b.
       let t = b AND 0x1f
       in if t = 5 \<or> t = 1 \<or> t = 2
          then bindE (GetUE (NalBitStream (drop 1 data) (to_int (size_sub bytes 1)))) (\<lambda>(first_mb, s).
               bindE (GetUE s) (\<lambda>(slice_type, s). Inr (slice_type = 1 \<or> slice_type = 6)))
          else Inr False)"

text \<open>\<open>if (!has_bframe_) has_bframe_ = CheckBFrame (data, bytes)\<close>.\<close>

definition note_bframe :: "byte list \<Rightarrow> nat \<Rightarrow> video_demux \<Rightarrow> video_demux res" where
  "note_bframe data bytes d =
     (if has_bframe d then Inr d
      else bindE (CheckBFrame data bytes) (\<lambda>b. Inr (d\<lparr>has_bframe := b\<rparr>)))"

text \<open>The length in front of a unit. A third case reads one signed byte.\<close>

definition read_nalu_size :: "byte \<Rightarrow> byte list \<Rightarrow> nat res" where
  "read_nalu_size unit data =
     (if unit = 3 then bindE (ReadUint32T data) (\<lambda>v. Inr (unat v))
      else if unit = 1 then bindE (ReadUint16T data) (\<lambda>v. Inr (unat v))
      else bindE (element 0 data) (\<lambda>v. Inr (unat (scast v :: u32))))"

lemma read_nalu_size_nonempty: "read_nalu_size unit data = Inr k \<Longrightarrow> data \<noteq> []"
  by (auto simp: read_nalu_size_def ReadUint32T_def ReadUint16T_def split: if_splits)

function DecodeAVCNaluIAvcc ::
    "byte list \<Rightarrow> nat \<Rightarrow> video_demux \<Rightarrow> sample_buf list \<Rightarrow> video_demux demuxed res" where
  "DecodeAVCNaluIAvcc data n d outs =
     (if 1 < n
      then bindE (read_nalu_size (nalu_unit_length d) data) (\<lambda>nalu_size.
        let data' = drop (unat (nalu_unit_length d) + 1) data; n' = size_sub n (unat (nalu_unit_length d) + 1)
        in if n' < nalu_size \<or> n' = 0 then Inr (-1, d, outs)
           else bindE (CheckNaluType data' d) (\<lambda>d'.
                bindE (note_bframe data' nalu_size d') (\<lambda>d''.
                  DecodeAVCNaluIAvcc (drop nalu_size data') (n' - nalu_size) d''
                    (outs @ [SampleBuf data' nalu_size]))))
      else Inr (0, d, outs))"
  by pat_completeness auto
termination
  by (relation "measure (\<lambda>(data, n, d, outs). length data)") (auto dest!: read_nalu_size_nonempty)

declare DecodeAVCNaluIAvcc.simps [simp del]

text \<open>
  Pointers into the bytes of an Annex B tag are offsets from its start; the result is the offset
  \<open>e\<close> of the end where there is no start code.
\<close>

function find_annexb :: "byte list \<Rightarrow> nat \<Rightarrow> nat \<Rightarrow> nat res" where
  "find_annexb buf p e =
     (if p + 1 < e
      then bindE (element p buf) (\<lambda>c.
        if c = 1 \<and> buf ! (p - 1) = 0 \<and> buf ! (p - 2) = 0 then Inr (p + 1) else find_annexb buf (p + 1) e)
      else Inr e)"
  by pat_completeness auto
termination by (relation "measure (\<lambda>(buf, p, e). e - p)") auto

declare find_annexb.simps [simp del]

definition FindAnnexbNalu :: "byte list \<Rightarrow> nat \<Rightarrow> nat \<Rightarrow> nat res" where
  "FindAnnexbNalu buf p e = find_annexb buf (p + 2) e"

lemma find_annexb_progress: "find_annexb buf p e = Inr q \<Longrightarrow> q = e \<or> p < q"
proof (induction buf p e rule: find_annexb.induct)
  case (1 buf p e)
  show ?case
  proof (cases "p + 1 < e \<and> p < length buf \<and> \<not> (buf ! p = 1 \<and> buf ! (p - 1) = 0 \<and> buf ! (p - 2) = 0)")
    case True
    then have "find_annexb buf (p + 1) e = Inr q" using "1.prems" by (subst (asm) find_annexb.simps) auto
    with True show ?thesis using "1.IH" [of "buf ! p"] by auto
  next
    case False
    then show ?thesis using "1.prems"
      by (subst (asm) find_annexb.simps) (auto simp: element_def split: if_splits)
  qed
qed

function annexb_loop ::
    "byte list \<Rightarrow> nat \<Rightarrow> nat \<Rightarrow> nat \<Rightarrow> nat \<Rightarrow> int \<Rightarrow> video_demux \<Rightarrow> sample_buf list \<Rightarrow> video_demux demuxed res" where
  "annexb_loop buf e start data n ret d outs =
     (if start < e
      then bindE (FindAnnexbNalu buf (start + 1) e) (\<lambda>nxt.
        let nalu_size = nxt - start
        in if n < nalu_size \<or> n = 0 then Inr (-1, d, outs)
           else bindE (CheckNaluType (drop start buf) d) (\<lambda>d'.
                bindE (note_bframe (drop data buf) nalu_size d') (\<lambda>d''.
                  annexb_loop buf e nxt (data + nalu_size) (n - nalu_size) 0 d''
                    (outs @ [SampleBuf (drop data buf) nalu_size]))))
      else Inr (ret, d, outs))"
  by pat_completeness auto
termination
  by (relation "measure (\<lambda>(buf, e, start, data, n, ret, d, outs). e - start)")
    (auto simp: FindAnnexbNalu_def dest!: find_annexb_progress)

declare annexb_loop.simps [simp del]

definition DecodeAVCNaluAnnexb ::
    "byte list \<Rightarrow> nat \<Rightarrow> video_demux \<Rightarrow> sample_buf list \<Rightarrow> video_demux demuxed res" where
  "DecodeAVCNaluAnnexb data n d outs =
     (if n < 3 then Inr (-1, d, outs)
      else bindE (FindAnnexbNalu data 0 n) (\<lambda>start. annexb_loop data n start 0 n (-1) d outs))"

definition DecodeAVCSeqHeader :: "byte list \<Rightarrow> nat \<Rightarrow> video_demux \<Rightarrow> (int \<times> video_demux) res" where
  "DecodeAVCSeqHeader data n d =
     (if n < 5 then Inr (-1, d)
      else bindE (element 0 data) (\<lambda>b0. bindE (element 1 data) (\<lambda>b1. bindE (element 2 data) (\<lambda>b2.
           bindE (element 3 data) (\<lambda>b3. bindE (element 4 data) (\<lambda>b4.
        let d = d\<lparr>config_version := b0, vd_profile := b1, profile_com := b2, vd_level := b3,
                  nalu_unit_length := b4 AND 0x03\<rparr>;
            data = drop 5 data; n = n - 5
        in if n < 3 then Inr (-1, d)
           else bindE (element 0 data) (\<lambda>c. if c AND 0x1f \<noteq> 1 then Inr (-1, d)
           else bindE (ReadUint16T (drop 1 data)) (\<lambda>l.
             if \<not> (0 < sint l \<and> nat (sint l) < n - 3) then Inr (-1, d)
             else bindE (assign_string (nat (sint l)) (drop 3 data)) (\<lambda>sps.
               let d = d\<lparr>vd_sps := sps\<rparr>; data = drop (3 + nat (sint l)) data; n = n - 3 - nat (sint l)
               in if n < 3 then Inr (-1, d)
                  else bindE (element 0 data) (\<lambda>c. if c AND 0x1f \<noteq> 1 then Inr (-1, d)
                  else bindE (ReadUint16T (drop 1 data)) (\<lambda>l.
                    if \<not> (0 < sint l \<and> nat (sint l) \<le> n - 3) then Inr (-1, d)
                    else bindE (assign_string (nat (sint l)) (drop 3 data)) (\<lambda>pps.
                      Inr (0, d\<lparr>vd_pps := pps\<rparr>)))))))))))))"

definition DecodeAvcNalu ::
    "byte list \<Rightarrow> nat \<Rightarrow> video_demux \<Rightarrow> sample_buf list \<Rightarrow> video_demux demuxed res" where
  "DecodeAvcNalu data n d outs =
     (case payload_format d of
        kPayloadFormatUnknowed \<Rightarrow>
          bindE (DecodeAVCNaluIAvcc data n d outs) (\<lambda>(r, d, outs).
            if r = 0 then Inr (0, d\<lparr>payload_format := kPayloadFormatAvcc\<rparr>, outs)
            else bindE (DecodeAVCNaluAnnexb data n d outs) (\<lambda>(r, d, outs).
                   if r = 0 then Inr (0, d\<lparr>payload_format := kPayloadFormatAnnexB\<rparr>, outs)
                   else Inr (-1, d, outs)))
      | kPayloadFormatAvcc \<Rightarrow> DecodeAVCNaluIAvcc data n d outs
      | kPayloadFormatAnnexB \<Rightarrow> DecodeAVCNaluAnnexb data n d outs)"

definition DemuxAVC ::
    "byte list \<Rightarrow> nat \<Rightarrow> video_demux \<Rightarrow> sample_buf list \<Rightarrow> video_demux demuxed res" where
  "DemuxAVC data n d outs =
     bindE (element 0 data) (\<lambda>b.
       if drop_bit 4 (b AND 0xf0) = 5 then Inr (0, d, outs)
       else bindE (element 1 data) (\<lambda>t. bindE (ReadUint24T (drop 2 data)) (\<lambda>cst.
         let d = d\<lparr>composition_time := cst\<rparr>
         in if t = 0
            then bindE (DecodeAVCSeqHeader (drop 5 data) (size_sub n 5) d) (\<lambda>(r, d). Inr (r, d, outs))
            else if t = 1 then DecodeAvcNalu (drop 5 data) (size_sub n 5) d outs
            else Inr (0, d, outs))))"

definition VideoDemux_OnDemux ::
    "byte list \<Rightarrow> nat \<Rightarrow> video_demux \<Rightarrow> sample_buf list \<Rightarrow> video_demux demuxed res" where
  "VideoDemux_OnDemux data n d outs =
     bindE (element 0 data) (\<lambda>b.
       let d = d\<lparr>vd_codec_id := b AND 0x0f\<rparr>
       in if b AND 0x0f \<noteq> kVideoCodecIDAVC then Inr (-1, d, outs) else DemuxAVC data n d outs)"

section \<open>What the bytes of a tag mean\<close>

text \<open>The reference reading of a slice header: two Exp-Golomb numbers, the second the slice type; the
  types 1 and 6 are the B slices. The code stops counting zeros at the last byte of the data, so
  seven bits are left behind the prefix.\<close>

definition ref_ue :: "bool list \<Rightarrow> (nat \<times> bool list) option" where
  "ref_ue bs =
     (let k = length (takeWhile Not bs); r = drop (k + 1) bs
      in if k < length bs \<and> k \<le> 16 \<and> k \<le> length r \<and> 7 \<le> length r
         then Some (2 ^ k - 1 + bits_value (take k r), drop k r) else None)"

definition nal_type :: "byte list \<Rightarrow> byte" where
  "nal_type u = u ! 0 AND 0x1f"

definition slice_type :: "byte list \<Rightarrow> nat option" where
  "slice_type u =
     (case ref_ue (concat (map (top_bits 8) (unescape 1 1 (tl u)))) of
        None \<Rightarrow> None | Some (first_mb, r) \<Rightarrow> map_option fst (ref_ue r))"

definition is_slice :: "byte list \<Rightarrow> bool" where
  "is_slice u \<longleftrightarrow> nal_type u = 5 \<or> nal_type u = 1 \<or> nal_type u = 2"

definition b_slice :: "byte list \<Rightarrow> bool" where
  "b_slice u \<longleftrightarrow> is_slice u \<and> (slice_type u = Some 1 \<or> slice_type u = Some 6)"

definition nal_ok :: "byte list \<Rightarrow> bool" where
  "nal_ok u \<longleftrightarrow> u \<noteq> [] \<and> length u < 2 ^ 31 \<and>
     (is_slice u \<longrightarrow> closed_end 1 1 (tl u) \<and> slice_type u \<noteq> None)"

lemma ref_ue_bits:
  assumes "ref_ue bs = Some (v, r)"
  shows "\<exists>w. bs = ue_bits w @ r \<and> v = ue_value w \<and> length w \<le> 16 \<and> 7 \<le> length (w @ r)"
proof -
  let ?k = "length (takeWhile Not bs)"
  have k: "?k < length bs" "?k \<le> 16" "?k \<le> length (drop (?k + 1) bs)" "7 \<le> length (drop (?k + 1) bs)"
    and v: "v = 2 ^ ?k - 1 + bits_value (take ?k (drop (?k + 1) bs))" "r = drop ?k (drop (?k + 1) bs)"
    using assms by (auto simp: ref_ue_def Let_def split: if_splits)
  have zeros: "takeWhile Not bs = replicate ?k False"
    by (rule replicate_eqI) (auto dest: set_takeWhileD)
  have "bs = takeWhile Not bs @ bs ! ?k # drop (?k + 1) bs"
    using k(1) by (metis Suc_eq_plus1 append_take_drop_id Cons_nth_drop_Suc takeWhile_eq_take)
  also have "drop (?k + 1) bs = take ?k (drop (?k + 1) bs) @ r" unfolding v(2) by (rule append_take_drop_id [symmetric])
  finally have "bs = replicate ?k False @ True # take ?k (drop (?k + 1) bs) @ r"
    using zeros nth_length_takeWhile [OF k(1)] by simp
  then show ?thesis using k v
    by (intro exI [of _ "take ?k (drop (?k + 1) bs)"]) (simp add: ue_bits_def ue_value_def min_absorb2)
qed

lemma ue_value_bound: "length w \<le> 16 \<Longrightarrow> ue_value w < 2 ^ 17"
proof -
  assume "length w \<le> 16"
  then have "2 ^ length w \<le> (2 ^ 16 :: nat)" by (intro power_increasing) auto
  then show ?thesis using bits_value_less [of w] by (simp add: ue_value_def)
qed

text \<open>The check of the code is the reference reading.\<close>

lemma CheckBFrame_unit:
  assumes "nal_ok u"
  shows "CheckBFrame (u @ rest) (length u) = Inr (b_slice u)"
proof (cases "is_slice u")
  case False
  with assms show ?thesis
    by (auto simp: CheckBFrame_def b_slice_def is_slice_def nal_type_def nal_ok_def nth_append Let_def)
next
  case True
  with assms obtain t where u: "u \<noteq> []" "length u < 2 ^ 31" "closed_end 1 1 (tl u)" "slice_type u = Some t"
    by (auto simp: nal_ok_def)
  from u(4) obtain m r r' where m: "ref_ue (concat (map (top_bits 8) (unescape 1 1 (tl u)))) = Some (m, r)"
      and r: "ref_ue r = Some (t, r')"
    by (auto simp: slice_type_def split: option.splits)
  obtain w where w: "concat (map (top_bits 8) (unescape 1 1 (tl u))) = ue_bits w @ r" "length w \<le> 16"
      "7 \<le> length (w @ r)"
    using ref_ue_bits [OF m] by blast
  obtain x where x: "r = ue_bits x @ r'" "t = ue_value x" "length x \<le> 16" "7 \<le> length (x @ r')"
    using ref_ue_bits [OF r] by blast
  let ?p = "drop 1 (u @ rest)" and ?n = "length u - 1"
  have tl: "take ?n ?p = tl u" "?n \<le> length ?p" using u(1) by (cases u; simp)+
  have s: "stream_ok (NalBitStream ?p (int ?n))" "remaining (NalBitStream ?p (int ?n)) = ue_bits w @ r"
    using stream_start [of ?n ?p] tl u(3) w(1) by auto
  obtain s1 where s1: "GetUE (NalBitStream ?p (int ?n)) = Inr (of_nat (ue_value w), s1)" "stream_ok s1" "remaining s1 = r"
    using GetUE_bits [OF s w(2,3)] by blast
  obtain s2 where s2: "GetUE s1 = Inr (of_nat (ue_value x), s2)"
    using GetUE_bits [OF s1(2) _ x(3,4)] s1(3) x(1) by blast
  have "1 \<le> length u" using u(1) by (cases u) auto
  then have n: "to_int (size_sub (length u) 1) = int ?n" using u(2) by simp
  have "ue_value x < 2 ^ 32" using ue_value_bound [OF x(3)] by simp
  then have t: "of_nat (ue_value x) = (1 :: u32) \<longleftrightarrow> t = 1" "of_nat (ue_value x) = (6 :: u32) \<longleftrightarrow> t = 6"
    by (simp_all add: word_unat_eq_iff unat_of_nat x(2) take_bit_nat_eq_self)
  have e: "element 0 (u @ rest) = Inr (u ! 0)" using u(1) by (simp add: nth_append)
  have sl: "u ! 0 AND 0x1f = 5 \<or> u ! 0 AND 0x1f = 1 \<or> u ! 0 AND 0x1f = 2"
    using True by (simp add: is_slice_def nal_type_def)
  show ?thesis unfolding CheckBFrame_def e bindE.simps Let_def if_P [OF sl] n s1(1) prod.case s2
    using True u(4) t by (simp add: b_slice_def)
qed

text \<open>The flags after the units \<open>us\<close>.\<close>

definition mark :: "byte list list \<Rightarrow> video_demux \<Rightarrow> video_demux" where
  "mark us d = d\<lparr>
     has_idr := has_idr d \<or> list_ex (\<lambda>u. nal_type u = 5) us,
     has_aud := has_aud d \<or> list_ex (\<lambda>u. nal_type u = 9) us,
     has_sps_pps := has_sps_pps d \<or> list_ex (\<lambda>u. nal_type u = 7 \<or> nal_type u = 8) us,
     has_bframe := has_bframe d \<or> list_ex b_slice us\<rparr>"

lemma mark_simps [simp]:
  "nalu_unit_length (mark us d) = nalu_unit_length d" "payload_format (mark us d) = payload_format d"
  "mark [] d = d" "mark vs (mark us d) = mark (us @ vs) d"
  "mark us (d\<lparr>payload_format := f\<rparr>) = (mark us d)\<lparr>payload_format := f\<rparr>"
  by (auto simp: mark_def)

lemma mark_unit:
  assumes "nal_ok u"
  shows "bindE (CheckNaluType (u @ rest) d) (note_bframe (u @ rest) (length u)) = Inr (mark [u] d)"
proof -
  have e: "element 0 (u @ rest) = Inr (u ! 0)" using assms by (simp add: nal_ok_def nth_append)
  have "CheckNaluType (u @ rest) d = Inr (d\<lparr>
     has_idr := has_idr d \<or> nal_type u = 5, has_aud := has_aud d \<or> nal_type u = 9,
     has_sps_pps := has_sps_pps d \<or> nal_type u = 7 \<or> nal_type u = 8\<rparr>)"
    unfolding CheckNaluType_def e by (auto simp: nal_type_def Let_def)
  then show ?thesis by (auto simp: note_bframe_def CheckBFrame_unit [OF assms] mark_def)
qed

section \<open>Units with a length in front\<close>

definition avcc_unit :: "byte \<Rightarrow> byte list \<Rightarrow> byte list" where
  "avcc_unit unit u =
     (if unit = 3 then WriteUint32T (of_nat (length u)) else if unit = 1 then WriteUint16T (of_nat (length u))
      else [of_nat (length u)]) @ u"

text \<open>The lengths of one, two and four bytes, a one-byte length below 128.\<close>

definition unit_fits :: "byte \<Rightarrow> byte list \<Rightarrow> bool" where
  "unit_fits unit u \<longleftrightarrow> unit = 3 \<or> unit = 1 \<and> length u < 2 ^ 16 \<or> unit = 0 \<and> length u < 2 ^ 7"

fun avcc_samples :: "byte \<Rightarrow> byte list list \<Rightarrow> byte list \<Rightarrow> sample_buf list" where
  "avcc_samples unit [] rest = []"
| "avcc_samples unit (u # us) rest =
     SampleBuf (u @ concat (map (avcc_unit unit) us) @ rest) (length u) # avcc_samples unit us rest"

lemma avcc_samples_bytes: "map sample_bytes (avcc_samples unit us rest) = us"
  by (induction us) (simp_all add: sample_bytes_def SampleBuf_def)

lemma avcc_samples_inside: "list_all (\<lambda>b. sb_size b \<le> length (sb_addr b)) (avcc_samples unit us rest)"
  by (induction us) (simp_all add: SampleBuf_def)


lemma avcc_size:
  assumes "unit_fits unit u" "nal_ok u"
  shows "read_nalu_size unit (avcc_unit unit u @ rest) = Inr (length u)"
    "drop (unat unit + 1) (avcc_unit unit u @ rest) = u @ rest"
    "length (avcc_unit unit u) = unat unit + 1 + length u"
proof -
  have n: "length u < 2 ^ 31" "u \<noteq> []" using assms(2) by (auto simp: nal_ok_def)
  consider (four) "unit = 3" | (two) "unit = 1" "length u < 2 ^ 16" | (one) "unit = 0" "length u < 2 ^ 7"
    using assms(1) by (auto simp: unit_fits_def)
  then have "read_nalu_size unit (avcc_unit unit u @ rest) = Inr (length u) \<and>
    drop (unat unit + 1) (avcc_unit unit u @ rest) = u @ rest \<and> length (avcc_unit unit u) = unat unit + 1 + length u"
  proof cases
    case four
    have "ReadUint32T (WriteUint32T (of_nat (length u)) @ u @ rest) = Inr (of_nat (length u))"
      using u32.dec_enc by simp
    then show ?thesis using n four by (simp add: read_nalu_size_def avcc_unit_def unat_of_nat take_bit_nat_eq_self)
  next
    case two
    have "ReadUint16T (WriteUint16T (of_nat (length u)) @ u @ rest) = Inr (of_nat (length u))"
      using u16.dec_enc by simp
    then show ?thesis using two by (simp add: read_nalu_size_def avcc_unit_def unat_of_nat take_bit_nat_eq_self)
  next
    case one
    have "scast (of_nat (length u) :: byte) = (of_nat (length u) :: u32)"
      using one(2) by (simp add: signed_of_nat signed_take_bit_int_eq_self)
    then show ?thesis using one n by (simp add: read_nalu_size_def avcc_unit_def unat_of_nat take_bit_nat_eq_self)
  qed
  then show "read_nalu_size unit (avcc_unit unit u @ rest) = Inr (length u)"
    "drop (unat unit + 1) (avcc_unit unit u @ rest) = u @ rest"
    "length (avcc_unit unit u) = unat unit + 1 + length u" by auto
qed

text \<open>The loop takes the units one by one, and goes on with what is behind them.\<close>

lemma avcc_units:
  assumes "list_all nal_ok us" "list_all (unit_fits (nalu_unit_length d)) us"
  shows "DecodeAVCNaluIAvcc (concat (map (avcc_unit (nalu_unit_length d)) us) @ rest)
      (length (concat (map (avcc_unit (nalu_unit_length d)) us)) + m) d outs =
    DecodeAVCNaluIAvcc rest m (mark us d) (outs @ avcc_samples (nalu_unit_length d) us rest)"
  using assms
proof (induction us arbitrary: d outs)
  case (Cons u us)
  let ?L = "nalu_unit_length d" and ?rest = "concat (map (avcc_unit (nalu_unit_length d)) us) @ rest"
  let ?n = "length (concat (map (avcc_unit ?L) us)) + m"
  have ok: "nal_ok u" "unit_fits ?L u" "list_all nal_ok us" "list_all (unit_fits ?L) us" using Cons.prems by auto
  note size = avcc_size [OF ok(2,1)]
  have u: "0 < length u" using ok(1) by (auto simp: nal_ok_def)
  have n: "1 < unat ?L + 1 + length u + ?n" "size_sub (unat ?L + 1 + length u + ?n) (unat ?L + 1) = length u + ?n"
      "\<not> (length u + ?n < length u \<or> length u + ?n = 0)" "length u + ?n - length u = ?n" using u by simp_all
  have "DecodeAVCNaluIAvcc (avcc_unit ?L u @ ?rest) (unat ?L + 1 + length u + ?n) d outs =
      bindE (bindE (CheckNaluType (u @ ?rest) d) (note_bframe (u @ ?rest) (length u)))
        (\<lambda>d. DecodeAVCNaluIAvcc ?rest ?n d (outs @ [SampleBuf (u @ ?rest) (length u)]))"
    by (subst DecodeAVCNaluIAvcc.simps)
      (simp only: if_P [OF n(1)] size(1,2) bindE.simps Let_def n(2) if_not_P [OF n(3)] n(4) bindE_assoc
        drop_append_length)
  also have "\<dots> = DecodeAVCNaluIAvcc ?rest ?n (mark [u] d) (outs @ [SampleBuf (u @ ?rest) (length u)])"
    unfolding mark_unit [OF ok(1)] by simp
  also have "\<dots> = DecodeAVCNaluIAvcc rest m (mark us (mark [u] d))
      ((outs @ [SampleBuf (u @ ?rest) (length u)]) @ avcc_samples ?L us rest)"
    using Cons.IH [of "mark [u] d"] ok(3,4) by simp
  finally show ?case by (simp add: size(3) add.assoc)
qed simp

lemma avcc_all:
  assumes "list_all nal_ok us" "list_all (unit_fits (nalu_unit_length d)) us"
  shows "DecodeAVCNaluIAvcc (concat (map (avcc_unit (nalu_unit_length d)) us) @ rest)
      (length (concat (map (avcc_unit (nalu_unit_length d)) us))) d outs =
    Inr (0, mark us d, outs @ avcc_samples (nalu_unit_length d) us rest)"
  using avcc_units [OF assms, of rest 0 outs] by (simp add: DecodeAVCNaluIAvcc.simps [of rest 0])


definition avc_tag :: "byte \<Rightarrow> byte \<Rightarrow> u32 \<Rightarrow> byte list \<Rightarrow> byte list" where
  "avc_tag frame packet cst p = frame # packet # WriteUint24T cst @ p"

definition avc_frame :: "byte \<Rightarrow> bool" where
  "avc_frame h \<longleftrightarrow> h AND 0x0f = kVideoCodecIDAVC \<and> drop_bit 4 (h AND 0xf0) \<noteq> 5"

lemma OnDemux_avc_tag:
  assumes "avc_frame h" "cst < 2 ^ 24"
  shows "VideoDemux_OnDemux (avc_tag h t cst p) n d outs =
    (let d = d\<lparr>vd_codec_id := kVideoCodecIDAVC, composition_time := cst\<rparr>
     in if t = 0 then bindE (DecodeAVCSeqHeader p (size_sub n 5) d) (\<lambda>(r, d). Inr (r, d, outs))
        else if t = 1 then DecodeAvcNalu p (size_sub n 5) d outs else Inr (0, d, outs))"
proof -
  have r: "ReadUint24T (WriteUint24T cst @ p) = Inr cst" using assms(2) by (rule u24.dec_enc)
  have e: "element 0 (h # t # WriteUint24T cst @ p) = Inr h" "element 1 (h # t # WriteUint24T cst @ p) = Inr t"
      "drop 2 (h # t # WriteUint24T cst @ p) = WriteUint24T cst @ p" by simp_all
  have d: "drop 5 (h # t # WriteUint24T cst @ p) = p" by (simp add: WriteUint24T_def)
  have h: "h AND 0x0f = kVideoCodecIDAVC" "drop_bit 4 (h AND 0xf0) \<noteq> 5" using assms(1) by (auto simp: avc_frame_def)
  show ?thesis
    unfolding VideoDemux_OnDemux_def DemuxAVC_def avc_tag_def e bindE.simps Let_def h(1) if_not_P [OF h(2)] r d by simp
qed

lemma avc_tag_samples:
  assumes "avc_frame h" "cst < 2 ^ 24" "payload_format d \<noteq> kPayloadFormatAnnexB"
    and "list_all nal_ok us" "list_all (unit_fits (nalu_unit_length d)) us"
    and "units = concat (map (avcc_unit (nalu_unit_length d)) us)"
  shows "VideoDemux_OnDemux (avc_tag h 1 cst (units @ rest)) (5 + length units) d outs =
      Inr (0, (mark us d)\<lparr>vd_codec_id := kVideoCodecIDAVC, composition_time := cst,
                         payload_format := kPayloadFormatAvcc\<rparr>, outs @ avcc_samples (nalu_unit_length d) us rest)"
proof -
  let ?d = "d\<lparr>vd_codec_id := kVideoCodecIDAVC, composition_time := cst\<rparr>"
  have "DecodeAVCNaluIAvcc (units @ rest) (length units) ?d outs =
      Inr (0, mark us ?d, outs @ avcc_samples (nalu_unit_length d) us rest)"
    using avcc_all [of us ?d rest outs] assms(4-6) by simp
  then have "DecodeAvcNalu (units @ rest) (length units) ?d outs =
      Inr (0, (mark us ?d)\<lparr>payload_format := kPayloadFormatAvcc\<rparr>, outs @ avcc_samples (nalu_unit_length d) us rest)"
    using assms(3) by (cases "payload_format d") (simp_all add: DecodeAvcNalu_def mark_def del: bindE_eq_Inr)
  then show ?thesis using OnDemux_avc_tag [OF assms(1,2)] by (simp add: mark_def)
qed

text \<open>The units of an AVC tag come out one by one. For a demuxer that has not settled on Annex B, a
  tag whose units carry lengths of the announced width (four, two or one byte) is accepted, whatever
  lies behind it in the packet: the new samples are exactly the units, in their order, the
  composition time is the tag's, and the demuxer has noted an IDR picture, an access unit delimiter,
  parameter sets, and a B slice by the reference reading of the slice headers, exactly where the
  units have one.\<close>

theorem avc_tag_units:
  assumes "avc_frame h" "cst < 2 ^ 24" "payload_format d \<noteq> kPayloadFormatAnnexB"
    and "list_all nal_ok us" "list_all (unit_fits (nalu_unit_length d)) us"
    and "units = concat (map (avcc_unit (nalu_unit_length d)) us)"
  shows "\<exists>new. VideoDemux_OnDemux (avc_tag h 1 cst (units @ rest)) (5 + length units) d outs =
      Inr (0, (mark us d)\<lparr>vd_codec_id := kVideoCodecIDAVC, composition_time := cst,
                         payload_format := kPayloadFormatAvcc\<rparr>, outs @ new) \<and>
    map sample_bytes new = us"
  using avc_tag_samples [OF assms] avcc_samples_bytes by blast

lemma avc_tag_units_witness:
  "\<exists>new. VideoDemux_OnDemux (avc_tag 0x17 1 80 [0, 0, 0, 2, 9, 0x10, 0, 0, 0, 4, 1, 0xa9, 0x80, 0x80]) 19
      ((VideoDemux_new 0)\<lparr>nalu_unit_length := 3\<rparr>) [] =
      Inr (0, (mark [[9, 0x10], [1, 0xa9, 0x80, 0x80]] ((VideoDemux_new 0)\<lparr>nalu_unit_length := 3\<rparr>))\<lparr>
                vd_codec_id := kVideoCodecIDAVC, composition_time := 80, payload_format := kPayloadFormatAvcc\<rparr>,
           [] @ new) \<and>
    map sample_bytes new = [[9, 0x10], [1, 0xa9, 0x80, 0x80]]"
proof -
  have "closed_end 1 1 [0xa9, 0x80, 0x80] \<and> slice_type [1, 0xa9, 0x80, 0x80] \<noteq> None" by code_simp
  then have "list_all nal_ok [[9, 0x10], [1, 0xa9, 0x80, 0x80]]" by (simp add: nal_ok_def is_slice_def nal_type_def)
  moreover have "concat (map (avcc_unit (nalu_unit_length ((VideoDemux_new 0)\<lparr>nalu_unit_length := 3\<rparr>)))
      [[9, 0x10], [1, 0xa9, 0x80, 0x80]]) = [0, 0, 0, 2, 9, 0x10, 0, 0, 0, 4, 1, 0xa9, 0x80, 0x80]"
    by code_simp
  ultimately show ?thesis
    using avc_tag_units [of "0x17" 80 "(VideoDemux_new 0)\<lparr>nalu_unit_length := 3\<rparr>"
        "[[9, 0x10], [1, 0xa9, 0x80, 0x80]]" "[0, 0, 0, 2, 9, 0x10, 0, 0, 0, 4, 1, 0xa9, 0x80, 0x80]" "[]" "[]"]
    by (simp add: avc_frame_def VideoDemux_new_def unit_fits_def)
qed

definition avc_record :: "byte \<Rightarrow> byte \<Rightarrow> byte \<Rightarrow> byte \<Rightarrow> byte \<Rightarrow> byte list \<Rightarrow> byte list \<Rightarrow> byte list" where
  "avc_record v p c l w sps pps =
     [v, p, c, l, w, 0xe1] @ WriteUint16T (of_nat (length sps)) @ sps @
     [1] @ WriteUint16T (of_nat (length pps)) @ pps"

lemma field_length:
  assumes "n < 2 ^ 15"
  shows "sint (of_nat n :: u16) = int n"
  using assms by (simp add: signed_of_nat signed_take_bit_int_eq_self)

text \<open>The parameter sets of an AVC sequence header are stored. For a tag with an AVC decoder
  configuration record of one SPS and one PPS, each of one to 32767 bytes, the demuxer keeps the
  version, the profile, the level, the width of the unit lengths and both sets, whatever lies behind
  the record.\<close>

theorem avc_header_roundtrip:
  assumes "avc_frame h" "cst < 2 ^ 24" "0 < length sps" "length sps < 2 ^ 15" "0 < length pps" "length pps < 2 ^ 15"
  shows "VideoDemux_OnDemux (avc_tag h 0 cst (avc_record v p c l w sps pps @ rest)) (16 + length sps + length pps) d outs =
    Inr (0, d\<lparr>vd_codec_id := kVideoCodecIDAVC, composition_time := cst, config_version := v, vd_profile := p,
             profile_com := c, vd_level := l, nalu_unit_length := w AND 0x03, vd_sps := sps, vd_pps := pps\<rparr>, outs)"
proof -
  let ?d = "d\<lparr>vd_codec_id := kVideoCodecIDAVC, composition_time := cst\<rparr>"
  let ?pps = "1 # WriteUint16T (of_nat (length pps)) @ pps @ rest"
  have f: "ReadUint16T (WriteUint16T (of_nat (length x)) @ y) = Inr (of_nat (length x))" for x y :: "byte list"
    by (simp add: u16.dec_enc)
  have dr: "drop (Suc (Suc n)) (WriteUint16T a @ y) = drop n y" for n a and y :: "byte list"
    by (simp add: WriteUint16T_def)
  have d: "drop (3 + length sps) (0xe1 # WriteUint16T (of_nat (length sps)) @ sps @ ?pps) = ?pps"
      "drop 3 (0xe1 # WriteUint16T (of_nat (length sps)) @ sps @ ?pps) = sps @ ?pps"
      "drop 3 ?pps = pps @ rest"
    by (simp_all add: numeral_3_eq_3 dr)
  have "DecodeAVCSeqHeader (avc_record v p c l w sps pps @ rest) (11 + length sps + length pps) ?d =
    Inr (0, ?d\<lparr>config_version := v, vd_profile := p,
             profile_com := c, vd_level := l, nalu_unit_length := w AND 0x03, vd_sps := sps, vd_pps := pps\<rparr>)"
    using assms(3-6) by (simp add: DecodeAVCSeqHeader_def avc_record_def Let_def f d field_length del: bindE_eq_Inr)
  then show ?thesis using OnDemux_avc_tag [OF assms(1,2), of 0] by (simp add: add.assoc)
qed

lemma avc_header_roundtrip_witness:
  "VideoDemux_OnDemux (avc_tag 0x17 0 0 (avc_record 1 0x64 0 0x1f 0xff [0x67, 0x64] [0x68] @ [])) (16 + 2 + 1)
      (VideoDemux_new 0) [] =
    Inr (0, (VideoDemux_new 0)\<lparr>vd_codec_id := kVideoCodecIDAVC, composition_time := 0, config_version := 1,
             vd_profile := 0x64, profile_com := 0, vd_level := 0x1f, nalu_unit_length := 0xff AND 0x03,
             vd_sps := [0x67, 0x64], vd_pps := [0x68]\<rparr>, [])"
  using avc_header_roundtrip [of "0x17" 0 "[0x67, 0x64]" "[0x68]" 1 "0x64" 0 "0x1f" "0xff" "[]" "VideoDemux_new 0" "[]"]
  by (simp add: avc_frame_def)

text \<open>Two or three bytes behind the last unit of a tag with four-byte lengths send the demuxer past the
  end of the packet: nothing compares the width of a length with what is left, so the four bytes of
  the next length are read across the end.\<close>

theorem avc_tail_overread:
  assumes "avc_frame h" "cst < 2 ^ 24" "payload_format d \<noteq> kPayloadFormatAnnexB" "nalu_unit_length d = 3"
    and "list_all nal_ok us" "units = concat (map (avcc_unit 3) us)" "length tail = 2 \<or> length tail = 3"
  shows "VideoDemux_OnDemux (avc_tag h 1 cst (units @ tail)) (5 + length units + length tail) d outs = Inl OutOfBounds"
proof -
  let ?d = "d\<lparr>vd_codec_id := kVideoCodecIDAVC, composition_time := cst\<rparr>"
  have fits: "list_all (unit_fits 3) us" by (simp add: list_all_iff unit_fits_def)
  have L: "nalu_unit_length ?d = 3" using assms(4) by simp
  have "read_nalu_size 3 tail = Inl OutOfBounds"
    using assms(7) u32.dec_short [of tail] by (auto simp: read_nalu_size_def)
  then have "DecodeAVCNaluIAvcc tail (length tail) (mark us ?d) x = Inl OutOfBounds" for x
    using assms(4,7) by (subst DecodeAVCNaluIAvcc.simps) auto
  then have "DecodeAVCNaluIAvcc (units @ tail) (length units + length tail) ?d outs = Inl OutOfBounds"
    using avcc_units [of us ?d tail "length tail" outs] assms(5,6) fits unfolding L by simp
  then have "DecodeAvcNalu (units @ tail) (length units + length tail) ?d outs = Inl OutOfBounds"
    using assms(3) by (cases "payload_format d") (simp_all add: DecodeAvcNalu_def)
  then show ?thesis using OnDemux_avc_tag [OF assms(1,2)] by (simp add: add.assoc)
qed

lemma avc_tail_overread_witness:
  "VideoDemux_OnDemux (avc_tag 0x27 1 0 ([0, 0, 0, 2, 9, 0x10] @ [0, 0])) (5 + 6 + 2)
     ((VideoDemux_new 0)\<lparr>nalu_unit_length := 3\<rparr>) [] = Inl OutOfBounds"
  using avc_tail_overread [of "0x27" 0 "(VideoDemux_new 0)\<lparr>nalu_unit_length := 3\<rparr>" "[[9, 0x10]]"
      "[0, 0, 0, 2, 9, 0x10]" "[0, 0]" "[]"]
  by (simp add: avc_frame_def VideoDemux_new_def nal_ok_def is_slice_def nal_type_def avcc_unit_def WriteUint32T_def)

text \<open>A record whose lengths have three bytes (a width of 2): the first byte alone is taken for the length.\<close>

lemma three_byte_lengths:
  "DecodeAVCNaluIAvcc [0, 0, 3, 9, 0x10, 0x80] 6 ((VideoDemux_new 0)\<lparr>nalu_unit_length := 2\<rparr>) [] =
     Inr (-1, (VideoDemux_new 0)\<lparr>nalu_unit_length := 2, has_aud := True\<rparr>, [SampleBuf [9, 0x10, 0x80] 0])"
  by (simp add: DecodeAVCNaluIAvcc.simps VideoDemux_new_def read_nalu_size_def CheckNaluType_def note_bframe_def
      CheckBFrame_def Let_def del: bindE_eq_Inr)

section \<open>Units behind start codes\<close>

definition start_code :: "byte list" where
  "start_code = [0, 0, 0, 1]"

definition code_at :: "byte list \<Rightarrow> nat \<Rightarrow> bool" where
  "code_at buf p \<longleftrightarrow> buf ! p = 1 \<and> buf ! (p - 1) = 0 \<and> buf ! (p - 2) = 0"

fun has_code :: "byte list \<Rightarrow> bool" where
  "has_code (a # b # c # xs) \<longleftrightarrow> a = 0 \<and> b = 0 \<and> c = 1 \<or> has_code (b # c # xs)"
| "has_code xs \<longleftrightarrow> False"

lemma has_code_iff: "has_code xs \<longleftrightarrow> (\<exists>p. 2 \<le> p \<and> p < length xs \<and> code_at xs p)"
proof (induction xs rule: has_code.induct)
  case (1 a b c xs)
  have "(\<exists>p\<ge>2. p < length (a # b # c # xs) \<and> code_at (a # b # c # xs) p) \<longleftrightarrow>
    code_at (a # b # c # xs) 2 \<or> (\<exists>p\<ge>2. p < length (b # c # xs) \<and> code_at (b # c # xs) p)" (is "?l \<longleftrightarrow> ?r")
  proof
    assume ?l
    then obtain p where p: "2 \<le> p" "p < length (a # b # c # xs)" "code_at (a # b # c # xs) p" by blast
    show ?r
    proof (cases "p = 2")
      case False
      then have "2 \<le> p - 1" "p - 1 < length (b # c # xs)" using p by auto
      moreover have "code_at (b # c # xs) (p - 1)" using p False
        by (auto simp: code_at_def nth_Cons' numeral_2_eq_2 split: if_splits)
      ultimately show ?thesis by blast
    qed (use p in simp)
  next
    assume ?r
    then show ?l
    proof (elim disjE exE conjE)
      fix p assume p: "2 \<le> p" "p < length (b # c # xs)" "code_at (b # c # xs) p"
      then have "code_at (a # b # c # xs) (p + 1)"
        by (auto simp: code_at_def nth_Cons' numeral_2_eq_2 split: if_splits)
      then show ?l using p by (intro exI [of _ "p + 1"]) simp
    qed (intro exI [of _ 2], simp)
  qed
  with 1 show ?case by (auto simp: code_at_def)
qed (auto simp: code_at_def)

lemma find_annexb_none:
  assumes "\<And>q. p \<le> q \<Longrightarrow> q + 1 < e \<Longrightarrow> \<not> code_at buf q" "e \<le> length buf"
  shows "find_annexb buf p e = Inr e"
  using assms
proof (induction "e - p" arbitrary: p)
  case 0
  then show ?case by (subst find_annexb.simps) simp
next
  case (Suc k)
  show ?case
  proof (cases "p + 1 < e")
    case True
    then have "\<not> code_at buf p" using Suc.prems(1) by simp
    moreover have "find_annexb buf (p + 1) e = Inr e" using Suc.hyps(2) Suc.prems True by (intro Suc.hyps(1)) auto
    ultimately show ?thesis using True Suc.prems(2) by (subst find_annexb.simps) (auto simp: code_at_def)
  qed (subst find_annexb.simps, simp)
qed

lemma find_annexb_found:
  assumes "p \<le> r" "r + 1 < e" "code_at buf r" "\<And>q. p \<le> q \<Longrightarrow> q < r \<Longrightarrow> \<not> code_at buf q" "e \<le> length buf"
  shows "find_annexb buf p e = Inr (r + 1)"
  using assms
proof (induction "r - p" arbitrary: p)
  case 0
  then have "p = r" by simp
  with 0 show ?case by (subst find_annexb.simps) (simp add: code_at_def)
next
  case (Suc k)
  then have "\<not> code_at buf p" by simp
  moreover have "find_annexb buf (p + 1) e = Inr (r + 1)" using Suc.hyps(2) Suc.prems by (intro Suc.hyps(1)) auto
  ultimately show ?case using Suc.prems by (subst find_annexb.simps) (auto simp: code_at_def)
qed


lemma code_at_append: "2 \<le> q \<Longrightarrow> code_at (pre @ w) (length pre + q) \<longleftrightarrow> code_at w q"
  by (auto simp: code_at_def nth_append)

lemma no_code_in:
  assumes "\<not> has_code u" "2 \<le> q" "q < length u + 3"
  shows "\<not> code_at (u @ start_code @ v) q"
proof (cases "q < length u")
  case True
  then have "code_at (u @ start_code @ v) q \<longleftrightarrow> code_at u q" by (auto simp: code_at_def nth_append)
  then show ?thesis using assms True by (auto simp: has_code_iff)
next
  case False
  then obtain k where k: "q = length u + k" by (metis le_Suc_ex not_less)
  then have "k = 0 \<or> k = 1 \<or> k = 2" using assms(3) by auto
  then have "(u @ start_code @ v) ! q = 0" unfolding k nth_append_length_plus by (auto simp: start_code_def)
  then show ?thesis by (simp add: code_at_def)
qed

text \<open>The next start code behind a unit, and the end behind the last one.\<close>

lemma next_unit:
  assumes "\<not> has_code u" "buf = pre @ u @ start_code @ v" "v \<noteq> []" "length pre + length u + 5 \<le> e" "e \<le> length buf"
  shows "FindAnnexbNalu buf (length pre + 1) e = Inr (length pre + length u + 4)"
proof -
  let ?r = "length pre + (length u + 3)"
  have "code_at (u @ start_code @ v) (length u + 3)" by (simp add: code_at_def start_code_def nth_append)
  then have "code_at buf ?r" unfolding assms(2) by (subst code_at_append) auto
  moreover have "\<not> code_at buf q" if "length pre + 3 \<le> q" "q < ?r" for q
  proof -
    define i where "i = q - length pre"
    then have i: "q = length pre + i" "2 \<le> i" "i < length u + 3" using that by auto
    show ?thesis using no_code_in [OF assms(1) i(2,3)] code_at_append [OF i(2)] i(1) by (simp add: assms(2))
  qed
  ultimately have "find_annexb buf (length pre + 3) e = Inr (?r + 1)"
    using assms(4,5) by (intro find_annexb_found) auto
  then show ?thesis by (simp add: FindAnnexbNalu_def numeral_3_eq_3)
qed

lemma last_unit:
  assumes "\<not> has_code u" "buf = pre @ u @ v" "e = length pre + length u"
  shows "FindAnnexbNalu buf (length pre + 1) e = Inr e"
proof -
  have "\<not> code_at buf q" if "length pre + 3 \<le> q" "q + 1 < e" for q
  proof -
    define i where "i = q - length pre"
    then have i: "q = length pre + i" "3 \<le> i" "i < length u" using that assms(3) by auto
    have "code_at (u @ v) i \<longleftrightarrow> code_at u i" using i by (auto simp: code_at_def nth_append)
    then show ?thesis using assms(1) i code_at_append [of i pre "u @ v"] by (auto simp: has_code_iff assms(2))
  qed
  then have "find_annexb buf (length pre + 3) e = Inr e" using assms by (intro find_annexb_none) auto
  then show ?thesis by (simp add: FindAnnexbNalu_def numeral_3_eq_3)
qed

fun annexb_samples :: "byte list list \<Rightarrow> byte list \<Rightarrow> sample_buf list" where
  "annexb_samples [] rest = []"
| "annexb_samples (u # us) rest =
     SampleBuf (start_code @ u @ concat (map ((@) start_code) us) @ rest)
       (if us = [] then length u else length u + 4) # annexb_samples us rest"


definition mark_types :: "byte list list \<Rightarrow> video_demux \<Rightarrow> video_demux" where
  "mark_types us d = (mark us d)\<lparr>has_bframe := has_bframe d\<rparr>"

lemma mark_types_unit:
  assumes "u \<noteq> []"
  shows "CheckNaluType (u @ t) d = Inr (mark_types [u] d)"
proof -
  have e: "element 0 (u @ t) = Inr (u ! 0)" using assms by (simp add: nth_append)
  show ?thesis unfolding CheckNaluType_def e by (auto simp: mark_types_def mark_def nal_type_def Let_def)
qed

lemma mark_types_simps [simp]:
  "mark_types vs (mark_types us d) = mark_types (us @ vs) d"
  "mark_types us (d\<lparr>payload_format := f\<rparr>) = (mark_types us d)\<lparr>payload_format := f\<rparr>"
  by (auto simp: mark_types_def mark_def)

lemma note_bframe_code: "note_bframe (start_code @ w) n d = Inr d"
  by (simp add: note_bframe_def CheckBFrame_def start_code_def)

lemma annexb_units:
  assumes "us \<noteq> []" "list_all (\<lambda>u. u \<noteq> [] \<and> \<not> has_code u) us" "buf = pre @ concat (map ((@) start_code) us) @ rest"
    and "e = length pre + length (concat (map ((@) start_code) us))"
  shows "annexb_loop buf e (length pre + 4) (length pre) (e - length pre) ret d outs =
    Inr (0, mark_types us d, outs @ annexb_samples us rest)"
  using assms
proof (induction us arbitrary: pre ret d outs)
  case (Cons u us)
  let ?tail = "concat (map ((@) start_code) us)"
  have u: "u \<noteq> []" "\<not> has_code u" "0 < length u" using Cons.prems(2) by auto
  have sc: "length start_code = 4" by (simp add: start_code_def)
  have buf: "buf = (pre @ start_code) @ u @ ?tail @ rest" "buf = pre @ start_code @ u @ ?tail @ rest"
    using Cons.prems(3) by simp_all
  have e: "e = length pre + 4 + length u + length ?tail" using Cons.prems(4) by (simp add: sc)
  have at: "drop (length pre + 4) buf = u @ ?tail @ rest" "drop (length pre) buf = start_code @ u @ ?tail @ rest"
    using drop_append_length [of "pre @ start_code"] unfolding buf by (simp_all add: sc)
  let ?b = "SampleBuf (start_code @ u @ ?tail @ rest)"
  show ?case
  proof (cases us)
    case Nil
    then have "FindAnnexbNalu buf (length (pre @ start_code) + 1) e = Inr e"
      using e by (intro last_unit [OF u(2)]) (simp_all add: buf sc)
    then have f: "FindAnnexbNalu buf (length pre + 4 + 1) e = Inr e" by (simp add: sc)
    have n: "length pre + 4 < e" "\<not> (e - length pre < length u \<or> e - length pre = 0)"
        "e - (length pre + 4) = length u" using e Nil u(3) by auto
    have "annexb_loop buf e (length pre + 4) (length pre) (e - length pre) ret d outs =
        annexb_loop buf e e (length pre + length u) (e - length pre - length u) 0 (mark_types [u] d) (outs @ [?b (length u)])"
      by (subst annexb_loop.simps)
        (simp only: if_P [OF n(1)] f bindE.simps Let_def if_not_P [OF n(2)] at mark_types_unit [OF u(1)] note_bframe_code n(3))
    also have "\<dots> = Inr (0, mark_types [u] d, outs @ [?b (length u)])"
      by (subst annexb_loop.simps) simp
    finally show ?thesis using Nil by simp
  next
    case (Cons u' us')
    let ?pre = "pre @ start_code @ u"
    have "u' \<noteq> []" using Cons.prems(2) Cons by simp
    then have five: "5 \<le> length ?tail" using Cons by (cases u') (simp_all add: sc)
    have next_sc: "?tail @ rest = start_code @ u' @ concat (map ((@) start_code) us') @ rest" using Cons by simp
    have "FindAnnexbNalu buf (length (pre @ start_code) + 1) e = Inr (length (pre @ start_code) + length u + 4)"
    proof (rule next_unit [OF u(2)])
      show "buf = (pre @ start_code) @ u @ start_code @ (u' @ concat (map ((@) start_code) us') @ rest)"
        unfolding buf(1) next_sc by simp
      show "e \<le> length buf" using Cons.prems(3,4) by simp
    qed (use e five \<open>u' \<noteq> []\<close> in \<open>simp_all add: sc\<close>)
    then have f: "FindAnnexbNalu buf (length pre + 4 + 1) e = Inr (length ?pre + 4)" by (simp add: sc add.assoc)
    have n: "length pre + 4 < e" "\<not> (e - length pre < length u + 4 \<or> e - length pre = 0)"
        "length ?pre + 4 - (length pre + 4) = length u + 4" "length pre + (length u + 4) = length ?pre"
        "e - length pre - (length u + 4) = e - length ?pre" using e u(3) by (auto simp: sc)
    have "annexb_loop buf e (length pre + 4) (length pre) (e - length pre) ret d outs =
        annexb_loop buf e (length ?pre + 4) (length ?pre) (e - length ?pre) 0 (mark_types [u] d) (outs @ [?b (length u + 4)])"
      by (subst annexb_loop.simps)
        (simp only: if_P [OF n(1)] f bindE.simps Let_def if_not_P [OF n(2)] at mark_types_unit [OF u(1)]
          note_bframe_code n(3-5))
    also have "\<dots> = Inr (0, mark_types us (mark_types [u] d), (outs @ [?b (length u + 4)]) @ annexb_samples us rest)"
      using Cons.prems(2) Cons e by (intro Cons.IH) (auto simp: buf(2) sc)
    finally show ?thesis using Cons by simp
  qed
qed simp


lemma sample_of_code:
  "sample_bytes (SampleBuf (start_code @ u @ x) (length u)) = take (length u) (start_code @ u)"
  "sample_bytes (SampleBuf (start_code @ u @ x) (length u + 4)) = start_code @ u"
  by (simp_all add: sample_bytes_def SampleBuf_def start_code_def take_Cons' split: nat.split)

lemma annexb_samples_bytes:
  "us \<noteq> [] \<Longrightarrow> map sample_bytes (annexb_samples us rest) =
    map ((@) start_code) (butlast us) @ [take (length (last us)) (start_code @ last us)]"
proof (induction us)
  case (Cons u us)
  then show ?case by (cases us) (simp_all add: sample_of_code del: take_append)
qed simp

text \<open>The units of an Annex B tag come out with their start codes in front, and the last one loses its
  end. Once the demuxer has settled on Annex B, a tag of units behind four-byte start codes is
  accepted, and its samples run from the start code of a unit to its end, except the last, which has
  the length of the unit and so misses its last four bytes. The picture types are noted as they are,
  but no B slice ever, since the slice header is looked for at the start code.\<close>

theorem annexb_last_cut:
  assumes "avc_frame h" "cst < 2 ^ 24" "payload_format d = kPayloadFormatAnnexB"
    and "us \<noteq> []" "list_all (\<lambda>u. u \<noteq> [] \<and> \<not> has_code u) us"
    and "units = concat (map ((@) start_code) us)"
  shows "\<exists>new. VideoDemux_OnDemux (avc_tag h 1 cst (units @ rest)) (5 + length units) d outs =
      Inr (0, (mark_types us d)\<lparr>vd_codec_id := kVideoCodecIDAVC, composition_time := cst\<rparr>, outs @ new) \<and>
    map sample_bytes new = map ((@) start_code) (butlast us) @ [take (length (last us)) (start_code @ last us)]"
proof -
  let ?d = "d\<lparr>vd_codec_id := kVideoCodecIDAVC, composition_time := cst\<rparr>"
  obtain u us' where us: "us = u # us'" using assms(4) by (cases us) auto
  then have u: "0 < length u" using assms(5) by auto
  have n: "\<not> length units < 3" "4 < length units" using assms(6) us u by (simp_all add: start_code_def)
  have buf: "units @ rest = 0 # 0 # 0 # 1 # u @ concat (map ((@) start_code) us') @ rest"
    using assms(6) us by (simp add: start_code_def)
  have "find_annexb (units @ rest) 2 (length units) = Inr (3 + 1)"
  proof (rule find_annexb_found)
    show "code_at (units @ rest) 3" by (simp add: buf code_at_def)
    show "\<not> code_at (units @ rest) q" if "2 \<le> q" "q < 3" for q
    proof -
      have "q = 2" using that by simp
      then show ?thesis by (simp add: buf code_at_def)
    qed
  qed (use n in simp_all)
  then have "FindAnnexbNalu (units @ rest) 0 (length units) = Inr 4" by (simp add: FindAnnexbNalu_def numeral_2_eq_2)
  then have "DecodeAVCNaluAnnexb (units @ rest) (length units) ?d outs =
      annexb_loop (units @ rest) (length units) 4 0 (length units) (-1) ?d outs"
    using n by (simp add: DecodeAVCNaluAnnexb_def)
  also have "\<dots> = Inr (0, mark_types us ?d, outs @ annexb_samples us rest)"
    using annexb_units [of us "units @ rest" "[]" rest "length units" "-1" ?d outs] assms(4-6) by simp
  finally have "DecodeAvcNalu (units @ rest) (length units) ?d outs = \<dots>"
    using assms(3) by (simp add: DecodeAvcNalu_def)
  then show ?thesis using OnDemux_avc_tag [OF assms(1,2)] annexb_samples_bytes [OF assms(4)]
    by (intro exI [of _ "annexb_samples us rest"]) (simp add: mark_types_def mark_def)
qed

lemma annexb_last_cut_witness:
  "\<exists>new. VideoDemux_OnDemux (avc_tag 0x17 1 0 ([0, 0, 0, 1, 9, 0x10, 0, 0, 0, 1, 0x65, 0x88, 0x84, 0, 0x21, 0xff] @ [])) (5 + 16)
        ((VideoDemux_new 0)\<lparr>payload_format := kPayloadFormatAnnexB\<rparr>) [] =
      Inr (0, (mark_types [[9, 0x10], [0x65, 0x88, 0x84, 0, 0x21, 0xff]] ((VideoDemux_new 0)\<lparr>payload_format := kPayloadFormatAnnexB\<rparr>))
                \<lparr>vd_codec_id := kVideoCodecIDAVC, composition_time := 0\<rparr>, [] @ new) \<and>
    map sample_bytes new = [[0, 0, 0, 1, 9, 0x10], [0, 0, 0, 1, 0x65, 0x88]]"
  using annexb_last_cut [of "0x17" 0 "(VideoDemux_new 0)\<lparr>payload_format := kPayloadFormatAnnexB\<rparr>"
      "[[9, 0x10], [0x65, 0x88, 0x84, 0, 0x21, 0xff]]"
      "[0, 0, 0, 1, 9, 0x10, 0, 0, 0, 1, 0x65, 0x88, 0x84, 0, 0x21, 0xff]" "[]" "[]"]
  by (simp add: avc_frame_def VideoDemux_new_def start_code_def)

section \<open>Audio tags\<close>

text \<open>The first two bytes of an AudioSpecificConfig: five bits of object type, four of the index of the
  sample rate, four of the channels.\<close>

definition audio_config :: "byte \<Rightarrow> byte \<Rightarrow> nat \<times> nat \<times> nat" where
  "audio_config a b =
     (let bits = top_bits 8 a @ top_bits 8 b
      in (bits_value (take 5 bits), bits_value (take 4 (drop 5 bits)), bits_value (take 4 (drop 9 bits))))"

lemma top_8_split:
  "top_bits 8 a @ top_bits 8 b @ x =
    take 5 (top_bits 8 a @ top_bits 8 b) @ take 4 (drop 5 (top_bits 8 a @ top_bits 8 b)) @
    take 4 (drop 9 (top_bits 8 a @ top_bits 8 b)) @ drop 13 (top_bits 8 a @ top_bits 8 b) @ x"
proof -
  have "xs = take 5 xs @ take 4 (drop 5 xs) @ take 4 (drop 9 xs) @ drop 13 xs" for xs :: "bool list"
    using append_take_drop_id [of 5 xs] append_take_drop_id [of 4 "drop 5 xs"] append_take_drop_id [of 4 "drop 9 xs"]
    by simp
  from this [of "top_bits 8 a @ top_bits 8 b"] show ?thesis by simp
qed

lemma DemuxAACSequenceHeader_config:
  assumes "2 \<le> n" "n \<le> length p" "p = a # b # r" "closed_end 1 1 (take n p)"
  shows "DemuxAACSequenceHeader p (int n) d =
    (case audio_config a b of (obj, rate, ch) \<Rightarrow>
       Inr (0, d\<lparr>aac_object := of_nat obj, aac_sample_rate := of_nat rate, aac_channel := of_nat ch, aac_ok := True\<rparr>))"
proof -
  let ?bits = "top_bits 8 a @ top_bits 8 b"
  let ?o = "take 5 ?bits" and ?r = "take 4 (drop 5 ?bits)" and ?c = "take 4 (drop 9 ?bits)"
  obtain m where m: "n = Suc (Suc m)" using assms(1) by (metis add_2_eq_Suc le_Suc_ex)
  have "stream_ok (NalBitStream p (int n))"
      "remaining (NalBitStream p (int n)) = top_bits 8 a @ top_bits 8 b @ concat (map (top_bits 8) (unescape a b (take m r)))"
    using stream_start [OF assms(4,2)] assms(3) by (auto simp: m)
  then have s: "stream_ok (NalBitStream p (int n))" "remaining (NalBitStream p (int n)) = ?o @ ?r @ ?c @
      drop 13 ?bits @ concat (map (top_bits 8) (unescape a b (take m r)))" using top_8_split by metis+
  have len: "length ?o = 5" "length ?r = 4" "length ?c = 4" by simp_all
  obtain s1 where s1: "GetWord 5 (NalBitStream p (int n)) = Inr (of_nat (bits_value ?o), s1)" "stream_ok s1"
      "remaining s1 = ?r @ ?c @ drop 13 ?bits @ concat (map (top_bits 8) (unescape a b (take m r)))"
    using GetWord_bits [OF s] unfolding len by blast
  obtain s2 where s2: "GetWord 4 s1 = Inr (of_nat (bits_value ?r), s2)" "stream_ok s2"
      "remaining s2 = ?c @ drop 13 ?bits @ concat (map (top_bits 8) (unescape a b (take m r)))"
    using GetWord_bits [OF s1(2,3)] unfolding len by blast
  obtain s3 where s3: "GetWord 4 s2 = Inr (of_nat (bits_value ?c), s3)"
    using GetWord_bits [OF s2(2,3)] unfolding len by blast
  have b: "bits_value ?o < 2 ^ 5" "bits_value ?r < 2 ^ 4" "bits_value ?c < 2 ^ 4"
    using bits_value_less [of ?o] bits_value_less [of ?r] bits_value_less [of ?c] unfolding len by auto
  have u: "ucast (of_nat v :: u16) = (of_nat v :: u32)" "ucast (of_nat v :: u16) = (of_nat v :: byte)" if "v < 32" for v
    using that by (simp_all add: unsigned_of_nat take_bit_nat_eq_self)
  have n: "\<not> int n < 2" using assms(1) by simp
  show ?thesis unfolding DemuxAACSequenceHeader_def if_not_P [OF n] s1(1) s2(1) s3 bindE.simps prod.case audio_config_def Let_def
    using b by (simp add: u)
qed

text \<open>AAC frames are passed on after the configuration, and not before. A raw AAC tag before any
  configuration is refused; a configuration tag (two bytes or more, no emulation prevention byte
  last) is stored, and its object type, sample rate index and channels are those of the first
  thirteen bits; a raw tag after it gives one sample, the bytes behind the two of the tag, and the
  sample rate is the one of the index.\<close>

theorem aac_stream:
  assumes "drop_bit 4 h AND 0x0f = 10" "cfg = a # b # r" "length cfg < 2 ^ 31" "closed_end 1 1 cfg"
    and "audio_config a b = (obj, rate, ch)"
  shows "(aac_ok d \<or> (\<exists>d1. AudioDemux_OnDemux (h # 1 # raw @ rest) (2 + length raw) d outs = Inr (-1, d1, outs))) \<and>
    (\<exists>d1 d2. AudioDemux_OnDemux (h # 0 # cfg @ rest) (2 + length cfg) d outs = Inr (0, d1, outs) \<and>
      AudioDemux_OnDemux (h # 1 # raw @ rest) (2 + length raw) d1 outs =
        Inr (0, d2, outs @ [SampleBuf (raw @ rest) (length raw)]) \<and>
      aac_seq_header d2 = cfg \<and> unat (aac_object d2) = obj \<and> unat (aac_channel d2) = ch \<and>
      GetSampleRate d2 = Inr ([96000, 88200, 64000, 48000, 44100, 32000, 24000, 22050, 16000, 12000, 11025, 8000,
        7350, 0, 0, 0] ! rate))"
proof -
  let ?fmt = "\<lambda>d. d\<lparr>sound_format := 10, sound_rate := ucast (drop_bit 2 (h AND 0xc0)),
                  sound_size := ucast (drop_bit 1 (h AND 0x02)), sound_type := ucast (h AND 0x01)\<rparr>"
  have fmt: "AudioDemux_OnDemux (h # p) n d x = DemuxAAC (h # p) n (?fmt d) x" if "n = 2 + k" for p n k d x
    using that assms(1) by (simp add: AudioDemux_OnDemux_def del: bindE_eq_Inr)
  have raw: "AudioDemux_OnDemux (h # 1 # raw @ rest) (2 + length raw) d outs =
    (if aac_ok d then Inr (0, ?fmt d, outs @ [SampleBuf (raw @ rest) (length raw)]) else Inr (-1, ?fmt d, outs))" for d
    unfolding fmt [OF refl] by (simp add: DemuxAAC_def numeral_2_eq_2)
  have d2: "drop 2 (x # y # z) = z" for x y :: byte and z by simp
  have n: "2 \<le> length cfg" "cfg \<noteq> []" using assms(2) by simp_all
  have big: "length cfg < 2 ^ 63" using assms(3) by (rule less_trans) simp
  have cfg: "DemuxAACSequenceHeader (cfg @ rest) (int (length cfg)) d = Inr (0, d\<lparr>aac_object := of_nat obj,
      aac_sample_rate := of_nat rate, aac_channel := of_nat ch, aac_ok := True\<rparr>)" for d
    using DemuxAACSequenceHeader_config [of "length cfg" "cfg @ rest" a b "r @ rest" d] n(1) assms by simp
  let ?d1 = "(?fmt d)\<lparr>aac_seq_header := cfg, aac_object := of_nat obj, aac_sample_rate := of_nat rate,
    aac_channel := of_nat ch, aac_ok := True\<rparr>"
  have hdr: "AudioDemux_OnDemux (h # 0 # cfg @ rest) (2 + length cfg) d outs = Inr (0, ?d1, outs)"
    unfolding fmt [OF refl] using n assms(3) big
    by (simp add: DemuxAAC_def cfg d2 del: bindE_eq_Inr)
  have b: "obj < 32" "rate < 16" "ch < 16"
    using assms(5) bits_value_less [of "take 5 (top_bits 8 a @ top_bits 8 b)"]
      bits_value_less [of "take 4 (drop 5 (top_bits 8 a @ top_bits 8 b))"]
      bits_value_less [of "take 4 (drop 9 (top_bits 8 a @ top_bits 8 b))"]
    by (auto simp: audio_config_def Let_def)
  show ?thesis unfolding hdr raw
    using b by (intro conjI exI [of _ ?d1] exI [of _ "?fmt ?d1"])
      (auto simp: GetSampleRate_def unat_of_nat take_bit_nat_eq_self)
qed

lemma aac_stream_witness:
  "(aac_ok (AudioDemux_new 0) \<or> (\<exists>d1. AudioDemux_OnDemux (0xaf # 1 # [0x21] @ []) (2 + length [0x21 :: byte]) (AudioDemux_new 0) [] = Inr (-1, d1, []))) \<and>
    (\<exists>d1 d2. AudioDemux_OnDemux (0xaf # 0 # [0x12, 0x10] @ []) (2 + length [0x12, 0x10 :: byte]) (AudioDemux_new 0) [] = Inr (0, d1, []) \<and>
      AudioDemux_OnDemux (0xaf # 1 # [0x21] @ []) (2 + length [0x21 :: byte]) d1 [] =
        Inr (0, d2, [] @ [SampleBuf ([0x21] @ []) (length [0x21 :: byte])]) \<and>
      aac_seq_header d2 = [0x12, 0x10] \<and> unat (aac_object d2) = 2 \<and> unat (aac_channel d2) = 2 \<and>
      GetSampleRate d2 = Inr ([96000, 88200, 64000, 48000, 44100, 32000, 24000, 22050, 16000, 12000, 11025, 8000,
        7350, 0, 0, 0] ! 4))"
proof -
  have "audio_config 0x12 0x10 = (2, 4, 2)" by code_simp
  then show ?thesis by (intro aac_stream [where a = "0x12" and b = "0x10" and r = "[]"]) simp_all
qed

text \<open>An AAC tag of one byte yields a sample of almost \<open>2 ^ 64\<close> bytes. The size of a tag is checked for
  the first byte only, so the type of the packet is whatever byte lies behind it, and where that is
  1 the size less two wraps.\<close>

theorem aac_one_byte_tag:
  assumes "drop_bit 4 h AND 0x0f = 10" "aac_ok d"
  shows "\<exists>d'. AudioDemux_OnDemux (h # 1 # rest) 1 d outs = Inr (0, d', outs @ [SampleBuf rest (2 ^ 64 - 1)])"
proof -
  have "size_sub 1 2 = 2 ^ 64 - 1" "drop 2 (h # 1 # rest) = rest" by (simp_all add: size_sub_def)
  with assms show ?thesis by (simp add: AudioDemux_OnDemux_def DemuxAAC_def del: bindE_eq_Inr)
qed

lemma aac_one_byte_tag_witness:
  "\<exists>d'. AudioDemux_OnDemux (0xaf # 1 # [0]) 1 ((AudioDemux_new 0)\<lparr>aac_ok := True\<rparr>) [] =
     Inr (0, d', [] @ [SampleBuf [0] (2 ^ 64 - 1)])"
  by (rule aac_one_byte_tag) (simp_all add: AudioDemux_new_def)

text \<open>Asked before any configuration, the sample rate is looked up at an uninitialised index.\<close>

lemma sample_rate_uninitialised: "16 \<le> unat g \<Longrightarrow> GetSampleRate (AudioDemux_new g) = Inl OutOfBounds"
  by (simp add: GetSampleRate_def AudioDemux_new_def)

end
