(* ===== verification/Psi.thy ===== *)
theory Psi
  imports Bytes
begin

text \<open>
  MPEG-TS program tables: the CRC of \<open>src/mmedia/mpegts/TsTool.cpp\<close> and the writers of sections,
  \<open>PSIWriter\<close>, \<open>PatWriter\<close> and \<open>PmtWriter\<close>. The table of the CRC is a static variable, filled at
  the first use of either CRC function; it is passed along here. A \<open>StreamWriter\<close> is the list of
  the packets written to it.
\<close>

section \<open>CRC\<close>

text \<open>\<open>__crc32_reflect\<close>: the low \<open>width\<close> bits in reverse order.\<close>

fun reflect_loop :: "nat \<Rightarrow> u64 \<Rightarrow> u64 \<Rightarrow> u64" where
  "reflect_loop 0 data res = res"
| "reflect_loop (Suc n) data res =
     (let data = drop_bit 1 data in reflect_loop n data (push_bit 1 res OR (data AND 1)))"

definition crc32_reflect :: "u64 \<Rightarrow> nat \<Rightarrow> u64" where
  "crc32_reflect data width = reflect_loop (width - 1) data (data AND 1)"

text \<open>One entry of the table: eight shifts of a 64-bit register, of which only 32 bits count.\<close>

fun table_shift :: "nat \<Rightarrow> u64 \<Rightarrow> u64 \<Rightarrow> u64" where
  "table_shift 0 poly reg = reg"
| "table_shift (Suc n) poly reg =
     table_shift n poly (if reg AND 0x80000000 \<noteq> 0 then push_bit 1 reg XOR poly else push_bit 1 reg)"

definition table_entry :: "u64 \<Rightarrow> bool \<Rightarrow> nat \<Rightarrow> u32" where
  "table_entry poly reflect_in i =
     (let reg = of_nat i;
          reg = (if reflect_in then crc32_reflect reg 8 else reg);
          reg = table_shift 8 poly (push_bit 24 reg);
          reg = (if reflect_in then crc32_reflect reg 32 else reg)
      in ucast (reg AND 0xFFFFFFFF))"

definition make_table :: "u64 \<Rightarrow> bool \<Rightarrow> u32 list" where
  "make_table poly reflect_in = map (table_entry poly reflect_in) [0..<256]"

fun crc_loop :: "u32 list \<Rightarrow> bool \<Rightarrow> byte list \<Rightarrow> u64 \<Rightarrow> u64" where
  "crc_loop t reflect_in [] reg = reg"
| "crc_loop t False (b # bs) reg =
     (let tblidx = ucast (drop_bit 24 reg) XOR b
      in crc_loop t False bs (ucast (t ! unat tblidx) XOR push_bit 8 reg))"
| "crc_loop t True (b # bs) reg =
     (let tblidx = ucast reg XOR b
      in crc_loop t True bs (ucast (t ! unat tblidx) XOR drop_bit 8 reg))"

definition table_driven :: "u32 list \<Rightarrow> byte list \<Rightarrow> u32 \<Rightarrow> bool \<Rightarrow> u32 \<Rightarrow> bool \<Rightarrow> u32 \<Rightarrow> u32" where
  "table_driven t buf previous reflect_in xor_in reflect_out xor_out =
     (let reg = (if \<not> reflect_in then crc_loop t False buf (ucast xor_in)
                 else crc32_reflect (crc_loop t True buf
                        (ucast previous XOR crc32_reflect (ucast xor_in) 32)) 32);
          reg = (if reflect_out then crc32_reflect reg 32 else reg);
          reg = reg XOR ucast xor_out
      in ucast (reg AND 0xFFFFFFFF))"

abbreviation crc_poly :: u64 where "crc_poly \<equiv> 0x04C11DB7"

text \<open>Both functions fill the same table, each in its own way, if it is not filled yet.\<close>

definition CRC32 :: "byte list \<Rightarrow> u32 list option \<Rightarrow> u32 \<times> u32 list option" where
  "CRC32 buf tbl =
     (let t = (case tbl of None \<Rightarrow> make_table crc_poly False | Some t \<Rightarrow> t)
      in (table_driven t buf 0 False 0xFFFFFFFF False 0, Some t))"

definition CRC32Ieee :: "byte list \<Rightarrow> u32 list option \<Rightarrow> u32 \<times> u32 list option" where
  "CRC32Ieee buf tbl =
     (let t = (case tbl of None \<Rightarrow> make_table crc_poly True | Some t \<Rightarrow> t)
      in (table_driven t buf 0 True 0xFFFFFFFF True 0xFFFFFFFF, Some t))"

section \<open>Sections and packets\<close>

record psi_writer =
  cc :: byte
  pid :: u16
  table_id :: byte
  version :: byte

definition SetVersion :: "byte \<Rightarrow> psi_writer \<Rightarrow> psi_writer" where
  "SetVersion v w = w\<lparr>version := v\<rparr>"

text \<open>The header of one transport packet; the first of a section also has the pointer field.\<close>

definition psi_header :: "psi_writer \<Rightarrow> bool \<Rightarrow> byte list" where
  "psi_header w first =
     [0x47, ucast (drop_bit 8 (pid w)) OR (if first then 0x40 else 0), ucast (pid w), 0x10 OR cc w] @
     (if first then [0] else [])"

function push_loop :: "psi_writer \<Rightarrow> bool \<Rightarrow> byte list \<Rightarrow> psi_writer \<times> byte list list" where
  "push_loop w first buf =
     (if buf = [] then (w, [])
      else let w = w\<lparr>cc := (cc w + 1) AND 0x0F\<rparr>;
               hdr = psi_header w first;
               len1 = min (188 - length hdr) (length buf);
               packet = hdr @ take len1 buf @ replicate (188 - length hdr - len1) 0xFF;
               (w, packets) = push_loop w False (drop len1 buf)
           in (w, packet # packets))"
  by pat_completeness auto
termination
  by (relation "measure (\<lambda>(w, first, buf). length buf)") (auto simp: psi_header_def)

declare push_loop.simps [simp del]

definition PushSection :: "psi_writer \<Rightarrow> byte list \<Rightarrow> psi_writer \<times> byte list list" where
  "PushSection w buf = push_loop w True buf"

definition section_bytes :: "psi_writer \<Rightarrow> u16 \<Rightarrow> byte \<Rightarrow> byte \<Rightarrow> byte list \<Rightarrow> byte list" where
  "section_bytes w ident sec_num last_sec_num buf =
     [table_id w] @ WriteUint16T (of_nat (5 + 4 + length buf) OR 0xB000) @ WriteUint16T ident @
     [0xC1 OR push_bit 1 (version w), sec_num, last_sec_num] @ buf"

text \<open>The section is put together in 1024 bytes on the stack.\<close>

definition WriteSection :: "u16 \<Rightarrow> byte \<Rightarrow> byte \<Rightarrow> byte list \<Rightarrow> psi_writer \<Rightarrow> u32 list option \<Rightarrow>
    (byte list list \<times> psi_writer \<times> u32 list option) res" where
  "WriteSection ident sec_num last_sec_num buf w tbl =
     (if 1024 < length buf + 3 + 5 + 4 then Inl BufferOverflow
      else let sec = section_bytes w ident sec_num last_sec_num buf;
               (crc, tbl) = CRC32 sec tbl;
               (w, packets) = PushSection w (sec @ WriteUint32T crc)
           in Inr (packets, w, tbl))"

definition PatWriter :: psi_writer where
  "PatWriter = \<lparr>cc = -1, pid = 0, table_id = 0, version = 0\<rparr>"

definition WritePat :: "psi_writer \<Rightarrow> u32 list option \<Rightarrow> (byte list list \<times> psi_writer \<times> u32 list option) res" where
  "WritePat w tbl =
     WriteSection 1 0 0 (WriteUint16T 1 @ WriteUint16T (0xE000 OR 0x1001)) w tbl"

record program_info =
  stream_type :: byte
  elementary_pid :: u16

record pmt_writer =
  pmt_psi :: psi_writer
  pcr_pid :: u16
  programs :: "program_info list"

definition PmtWriter :: pmt_writer where
  "PmtWriter = \<lparr>pmt_psi = \<lparr>cc = -1, pid = 0x1001, table_id = 2, version = 0\<rparr>, pcr_pid = 0xE000,
     programs = []\<rparr>"

definition AddProgramInfo :: "program_info \<Rightarrow> pmt_writer \<Rightarrow> pmt_writer" where
  "AddProgramInfo p m = m\<lparr>programs := programs m @ [p]\<rparr>"

definition SetPcrPid :: "u32 \<Rightarrow> pmt_writer \<Rightarrow> pmt_writer" where
  "SetPcrPid p m = m\<lparr>pcr_pid := ucast p\<rparr>"

definition pmt_body :: "pmt_writer \<Rightarrow> byte list" where
  "pmt_body m = WriteUint16T (0xE000 OR pcr_pid m) @ WriteUint16T (0xF000 OR 0) @
     concat (map (\<lambda>p. [stream_type p] @ WriteUint16T (0xE000 OR elementary_pid p) @
       WriteUint16T (0xF000 OR 0)) (programs m))"

text \<open>The body is put together in \<open>kSectionMaxSize\<close> bytes.\<close>

definition WritePmt :: "pmt_writer \<Rightarrow> u32 list option \<Rightarrow> (byte list list \<times> pmt_writer \<times> u32 list option) res" where
  "WritePmt m tbl =
     (if 1020 < length (pmt_body m) then Inl BufferOverflow
      else bindE (WriteSection 1 0 0 (pmt_body m) (pmt_psi m) tbl) (\<lambda>(packets, w, tbl).
        Inr (packets, m\<lparr>pmt_psi := w\<rparr>, tbl)))"

section \<open>The reference CRC\<close>

text \<open>The register of the standard: one bit at a time, 32 bits wide.\<close>

definition crc_bit :: "u32 \<Rightarrow> u32" where
  "crc_bit r = (if bit r 31 then push_bit 1 r XOR 0x04C11DB7 else push_bit 1 r)"

definition crc_byte :: "u32 \<Rightarrow> byte \<Rightarrow> u32" where
  "crc_byte r b = (crc_bit ^^ 8) (r XOR push_bit 24 (ucast b))"

definition crc_reference :: "byte list \<Rightarrow> u32" where
  "crc_reference bs = foldl crc_byte 0xFFFFFFFF bs"

lemma crc_bit_xor: "crc_bit (x XOR y) = crc_bit x XOR crc_bit y"
  by (auto simp: crc_bit_def bit_simps push_bit_xor xor.assoc xor.left_commute intro!: bit_word_eqI)

lemma crc_bits_xor: "(crc_bit ^^ n) (x XOR y) = (crc_bit ^^ n) x XOR (crc_bit ^^ n) y"
  by (induction n) (simp_all add: crc_bit_xor)

lemma crc_bits_low:
  assumes "\<And>k. 32 - n \<le> k \<Longrightarrow> \<not> bit x k" "n \<le> 32"
  shows "(crc_bit ^^ n) x = push_bit n x"
  using assms
proof (induction n)
  case (Suc n)
  have "(crc_bit ^^ n) x = push_bit n x" using Suc by (intro Suc.IH) auto
  moreover have "\<not> bit (push_bit n x) 31" using Suc.prems(1) [of "31 - n"] Suc.prems(2) by (auto simp: bit_simps)
  moreover have "crc_bit (push_bit n x) = push_bit 1 (push_bit n x)" if "\<not> bit (push_bit n x) 31"
    using that by (simp only: crc_bit_def if_False)
  ultimately show ?case by (simp add: push_bit_push_bit)
qed simp

section \<open>The table-driven CRC is the reference\<close>

text \<open>Only the low half of the 64-bit register counts.\<close>

lemma bit31_and: "(x :: u64) AND 0x80000000 \<noteq> 0 \<longleftrightarrow> bit x 31"
  using and_exp_eq_0_iff_not_bit [of x 31] by simp

lemma ucast_shl: "(ucast (push_bit n x :: u64) :: u32) = push_bit n (ucast x)"
  by (rule bit_word_eqI) (auto simp: bit_simps)

lemma low_step:
  "(ucast (if bit reg 31 then push_bit 1 reg XOR crc_poly else push_bit 1 (reg :: u64)) :: u32)
   = crc_bit (ucast reg)"
  by (simp add: crc_bit_def ucast_shl unsigned_xor_eq bit_simps del: push_bit_Suc One_nat_def)

lemma low_shift: "(ucast (table_shift n crc_poly reg) :: u32) = (crc_bit ^^ n) (ucast reg)"
proof (induction n arbitrary: reg)
  case (Suc n)
  show ?case
    by (simp only: table_shift.simps bit31_and Suc low_step funpow_Suc_right comp_apply)
qed simp

lemma ucast_up_down [simp]: "(ucast (ucast (x :: u32) :: u64) :: u32) = x"
  by (rule bit_word_eqI) (auto simp: bit_simps)

lemma and_low_half: "(ucast (reg AND 0xFFFFFFFF :: u64) :: u32) = ucast reg"
proof -
  have "reg AND 0xFFFFFFFF = take_bit 32 reg"
    by (simp add: take_bit_eq_mask mask_numeral)
  then show ?thesis by (auto intro!: bit_word_eqI simp: bit_simps)
qed

lemma make_table_nth [simp]: "i < 256 \<Longrightarrow> make_table poly r ! i = table_entry poly r i"
  by (simp add: make_table_def)

lemma table_entry_eq:
  assumes "i < 256"
  shows "table_entry crc_poly False i = (crc_bit ^^ 8) (push_bit 24 (of_nat i))"
proof -
  have "(ucast (of_nat i :: u64) :: u32) = of_nat i"
    using assms by (simp add: unsigned_of_nat take_bit_nat_eq_self)
  then show ?thesis
    by (simp only: table_entry_def Let_def if_False and_low_half low_shift ucast_shl)
qed

lemma crc_byte_split:
  "crc_byte r b = (crc_bit ^^ 8) (push_bit 24 (ucast (ucast (drop_bit 24 r) XOR b))) XOR push_bit 8 r"
proof -
  have eq: "r XOR push_bit 24 (ucast b) =
      push_bit 24 (ucast (ucast (drop_bit 24 r) XOR b :: byte)) XOR take_bit 24 r"
    by (rule bit_word_eqI) (auto simp: bit_simps)
  have "(crc_bit ^^ 8) (take_bit 24 r) = push_bit 8 (take_bit 24 r)"
    by (rule crc_bits_low) (auto simp: bit_simps)
  moreover have "push_bit 8 (take_bit 24 r) = push_bit 8 r"
    by (rule bit_word_eqI) (auto simp: bit_simps)
  ultimately show ?thesis by (simp only: crc_byte_def eq crc_bits_xor)
qed

text \<open>One step of the loop on the low half of the register, for any table.\<close>

definition table_step :: "u32 list \<Rightarrow> u32 \<Rightarrow> byte \<Rightarrow> u32" where
  "table_step t r b = t ! unat (ucast (drop_bit 24 r) XOR b) XOR push_bit 8 r"

lemma crc_loop_steps: "(ucast (crc_loop t False bs reg) :: u32) = foldl (table_step t) (ucast reg) bs"
proof (induction bs arbitrary: reg)
  case (Cons b bs)
  define i :: byte where "i = ucast (drop_bit 24 reg) XOR b"
  have i: "i = ucast (drop_bit 24 (ucast reg :: u32)) XOR b"
    unfolding i_def by (rule bit_word_eqI) (auto simp: bit_simps)
  have "(ucast (ucast (t ! unat i) XOR push_bit 8 reg :: u64) :: u32) = table_step t (ucast reg) b"
    unfolding table_step_def i [symmetric] by (simp add: unsigned_xor_eq ucast_shl)
  then show ?case by (simp add: Cons Let_def i_def)
qed simp

lemma table_driven_steps:
  "table_driven t bs previous False 0xFFFFFFFF False 0 = foldl (table_step t) 0xFFFFFFFF bs"
  by (simp add: table_driven_def and_low_half unsigned_xor_eq crc_loop_steps)

lemma table_step_own: "table_step (make_table crc_poly False) = crc_byte"
proof (intro ext)
  fix r :: u32 and b :: byte
  have lt: "unat (ucast (drop_bit 24 r) XOR b :: byte) < 256"
    using unsigned_less [of "ucast (drop_bit 24 r) XOR b :: byte"] by simp
  show "table_step (make_table crc_poly False) r b = crc_byte r b"
    by (simp add: table_step_def crc_byte_split make_table_nth [OF lt] table_entry_eq [OF lt])
qed

lemma CRC32_eq: "CRC32 bs None = (crc_reference bs, Some (make_table crc_poly False))"
  "CRC32 bs (Some (make_table crc_poly False)) = (crc_reference bs, Some (make_table crc_poly False))"
  by (simp_all add: CRC32_def table_driven_steps table_step_own crc_reference_def)

text \<open>A byte equal to the top of the register shifts the register; four of them clear it.\<close>

lemma crc_byte_top: "crc_byte r (ucast (drop_bit 24 r)) = push_bit 8 r"
proof -
  have z: "(crc_bit ^^ n) 0 = 0" for n by (induction n) (simp_all add: crc_bit_def)
  show ?thesis by (simp add: crc_byte_split z)
qed

lemma crc_residue: "crc_reference (bs @ WriteUint32T (crc_reference bs)) = 0"
proof -
  let ?r = "crc_reference bs"
  have top: "ucast (drop_bit 24 (push_bit n ?r)) = (ucast (drop_bit (24 - n) ?r) :: byte)" if "n \<le> 24" for n
    using that by (intro bit_word_eqI) (auto simp: bit_simps)
  have step: "crc_byte (push_bit n ?r) (ucast (drop_bit (24 - n) ?r)) = push_bit (8 + n) ?r" if "n \<le> 24" for n
    using crc_byte_top [of "push_bit n ?r"] by (simp only: top [OF that] push_bit_push_bit)
  have z: "push_bit 32 ?r = 0" by (rule bit_word_eqI) (simp add: bit_simps)
  show ?thesis
    using step [of 0] step [of 8] step [of 16] step [of 24] z
    by (simp add: WriteUint32T_def crc_reference_def)
qed

section \<open>A receiver of sections\<close>

text \<open>
  What a demultiplexer does with the packets of one section on PID \<open>p\<close> after continuity counter
  \<open>c\<close>: it checks sync byte, PID, start indicator, counter and length, skips the header (and the
  pointer field of the first packet), and collects the payload.
\<close>

fun ts_payload :: "u16 \<Rightarrow> byte \<Rightarrow> bool \<Rightarrow> byte list list \<Rightarrow> (byte list \<times> byte) option" where
  "ts_payload p c first [] = Some ([], c)"
| "ts_payload p c first (k # ks) =
     (let c = (c + 1) AND 0x0F; skip = (if first then 5 else 4) in
      if length k = 188 \<and> k ! 0 = 0x47 \<and> k ! 1 AND 0x1F = ucast (drop_bit 8 p) \<and> k ! 2 = ucast p \<and>
         (k ! 1 AND 0x40 \<noteq> 0) = first \<and> k ! 3 = 0x10 OR c \<and> (if first then k ! 4 = 0 else True)
      then map_option (map_prod ((@) (drop skip k)) (\<lambda>c. c)) (ts_payload p c False ks)
      else None)"

text \<open>The section in front of the payload: its fields, if its CRC is right.\<close>

definition read_section :: "byte list \<Rightarrow> (byte \<times> u16 \<times> byte \<times> byte \<times> byte \<times> byte list) option" where
  "read_section p =
     (case (ReadUint16T (drop 1 p), ReadUint16T (drop 3 p)) of
        (Inr l, Inr ident) \<Rightarrow>
          let n = unat (take_bit 12 l) in
          if 9 \<le> n \<and> 3 + n \<le> length p \<and> crc_reference (take (3 + n) p) = 0
          then Some (p ! 0, ident, drop_bit 1 (p ! 5) AND 0x1F, p ! 6, p ! 7, take (n - 9) (drop 8 p))
          else None
      | _ \<Rightarrow> None)"

definition receive_section where
  "receive_section p c packets =
     (case ts_payload p c True packets of None \<Rightarrow> None
      | Some (bs, c) \<Rightarrow> map_option (\<lambda>s. (s, c)) (read_section bs))"

lemma length_psi_header: "length (psi_header w first) = (if first then 5 else 4)"
  by (simp add: psi_header_def)

lemma pid_byte:
  assumes "p < 0x2000"
  shows "(ucast (drop_bit 8 p) OR 0x40 :: byte) AND 0x1F = ucast (drop_bit 8 (p :: u16))"
    "(ucast (drop_bit 8 p) :: byte) AND 0x1F = ucast (drop_bit 8 p)"
    "(ucast (drop_bit 8 p) :: byte) AND 0x40 = 0" "(ucast (drop_bit 8 p) OR 0x40 :: byte) AND 0x40 \<noteq> 0"
proof -
  have "unat p < 2 ^ 13" using assms by (simp add: word_less_nat_alt)
  then have "unat (take_bit 13 p) = unat p" by (simp add: unsigned_take_bit_eq take_bit_nat_eq_self)
  then have t: "take_bit 13 p = p" by (rule unsigned_word_eqI)
  have hi: "k < 13" if "bit p k" for k
    using that by (subst (asm) t [symmetric]) (simp add: bit_simps)
  have m: "(0x1F :: byte) = mask 5" by (simp add: mask_numeral)
  have or40: "x OR 0x40 = set_bit 6 x" for x :: byte by (simp add: set_bit_eq_or)
  have and40: "x AND 0x40 = 0 \<longleftrightarrow> \<not> bit x 6" for x :: byte
    using and_exp_eq_0_iff_not_bit [of x 6] by simp
  show "(ucast (drop_bit 8 p) OR 0x40 :: byte) AND 0x1F = ucast (drop_bit 8 p)"
    "(ucast (drop_bit 8 p) :: byte) AND 0x1F = ucast (drop_bit 8 p)"
    unfolding m or40 by (auto intro!: bit_word_eqI simp: bit_simps dest!: hi)
  show "(ucast (drop_bit 8 p) :: byte) AND 0x40 = 0" "(ucast (drop_bit 8 p) OR 0x40 :: byte) AND 0x40 \<noteq> 0"
    unfolding and40 or40 by (auto simp: bit_simps dest!: hi)
qed

text \<open>The packets \<open>push_loop\<close> writes carry the section, padded with 0xFF, and lead the counter on.\<close>

lemma push_loop_received:
  assumes "pid w < 0x2000" "push_loop w first buf = (w', packets)"
  shows "\<exists>n. ts_payload (pid w) (cc w) first packets = Some (buf @ replicate n 0xFF, cc w')"
  using assms
proof (induction w first buf arbitrary: w' packets rule: push_loop.induct)
  case (1 w first buf)
  show ?case
  proof (cases "buf = []")
    case True
    with "1.prems" show ?thesis by (simp add: push_loop.simps [of w first "[]"])
  next
    case False
    define v where "v = w\<lparr>cc := (cc w + 1) AND 0x0F\<rparr>"
    define skip :: nat where "skip = (if first then 5 else 4)"
    define k where "k = min (188 - skip) (length buf)"
    obtain u ks where rest: "push_loop v False (drop k buf) = (u, ks)" by fastforce
    have out: "w' = u" "packets = (psi_header v first @ take k buf @ replicate (188 - skip - k) 0xFF) # ks"
      using "1.prems"(2) False rest
      by (simp_all add: push_loop.simps [of w first buf] Let_def length_psi_header v_def k_def skip_def)
    have ih: "\<exists>n. ts_payload (pid v) (cc v) False ks = Some (drop k buf @ replicate n 0xFF, cc u)"
      using "1.IH" [OF False v_def refl refl refl, of u ks] "1.prems"(1) rest
      by (simp add: length_psi_header v_def k_def skip_def)
    obtain n where n: "ts_payload (pid v) (cc v) False ks = Some (drop k buf @ replicate n 0xFF, cc u)"
      using ih by blast
    have "ts_payload (pid w) (cc w) first packets =
        Some (take k buf @ replicate (188 - skip - k) 0xFF @ drop k buf @ replicate n 0xFF, cc w')"
      using n pid_byte [OF "1.prems"(1)]
      by (cases first) (auto simp: out psi_header_def v_def skip_def k_def Let_def)
    moreover have "replicate (188 - skip - k) 0xFF @ drop k buf = drop k buf @ replicate (188 - skip - k) (0xFF :: byte)"
      by (simp add: k_def min_def)
    ultimately show ?thesis by (metis append.assoc append_take_drop_id replicate_add)
  qed
qed

lemma push_loop_fixed:
  "push_loop w first buf = (w', packets) \<Longrightarrow> pid w' = pid w \<and> version w' = version w \<and> table_id w' = table_id w"
proof (induction w first buf arbitrary: w' packets rule: push_loop.induct)
  case (1 w first buf)
  then show ?case
    by (subst (asm) (2) push_loop.simps) (auto simp: Let_def split: if_splits prod.splits)
qed

lemma length_section_bytes: "length (section_bytes w ident sn ls buf) = 8 + length buf"
  by (simp add: section_bytes_def)

lemma version_field:
  assumes "v < 32"
  shows "drop_bit 1 (0xC1 OR push_bit 1 v) AND 0x1F = (v :: byte)"
proof -
  have "unat v < 2 ^ 5" using assms by (simp add: word_less_nat_alt)
  then have "unat (take_bit 5 v) = unat v" by (simp add: unsigned_take_bit_eq take_bit_nat_eq_self)
  then have t: "take_bit 5 v = v" by (rule unsigned_word_eqI)
  have m: "x AND 0x1F = take_bit 5 x" for x :: byte by (simp add: take_bit_eq_mask mask_numeral)
  have "take_bit 5 (drop_bit m (push_bit n v)) = take_bit 5 v" if "n = 1" "m = 1" for m n
    using that by (intro bit_word_eqI) (auto simp: bit_simps simp del: push_bit_Suc One_nat_def)
  moreover have z: "take_bit 5 (drop_bit 1 (0xC1 :: byte)) = 0" by simp
  ultimately show ?thesis by (simp add: m drop_bit_or take_bit_or t z del: push_bit_Suc One_nat_def)
qed

lemma read_section_bytes:
  assumes "length buf \<le> 1012" "version w < 32" "crc_reference (sec @ WriteUint32T crc) = 0"
    "sec = section_bytes w ident sn ls buf"
  shows "read_section (sec @ WriteUint32T crc @ pad) = Some (table_id w, ident, version w, sn, ls, buf)"
proof -
  let ?l = "of_nat (5 + 4 + length buf) OR 0xB000 :: u16"
  have "unat (of_nat (5 + 4 + length buf) :: u16) = 5 + 4 + length buf"
    using assms(1) by (simp only: unsigned_of_nat) (simp add: take_bit_nat_eq_self)
  then have n: "unat (take_bit 12 ?l) = 9 + length buf"
    using assms(1) by (simp only: take_bit_or unsigned_or_eq unsigned_take_bit_eq) (simp add: take_bit_nat_eq_self)
  have v: "drop_bit 1 (0xC1 OR push_bit 1 (version w)) AND 0x1F = version w"
    by (rule version_field) (rule assms(2))
  have r: "ReadUint16T (drop 1 (sec @ WriteUint32T crc @ pad)) = Inr ?l"
    "ReadUint16T (drop 3 (sec @ WriteUint32T crc @ pad)) = Inr ident"
    by (simp_all add: assms(4) section_bytes_def u16.dec_enc)
  have t: "take (3 + (9 + length buf)) (sec @ WriteUint32T crc @ pad) = sec @ WriteUint32T crc"
    by (simp add: assms(4) length_section_bytes)
  have f: "(sec @ WriteUint32T crc @ pad) ! 0 = table_id w"
    "(sec @ WriteUint32T crc @ pad) ! 5 = 0xC1 OR push_bit 1 (version w)"
    "(sec @ WriteUint32T crc @ pad) ! 6 = sn" "(sec @ WriteUint32T crc @ pad) ! 7 = ls"
    "take (9 + length buf - 9) (drop 8 (sec @ WriteUint32T crc @ pad)) = buf"
    "9 \<le> 9 + length buf" "3 + (9 + length buf) \<le> length (sec @ WriteUint32T crc @ pad)"
    by (simp_all add: assms(4) section_bytes_def WriteUint16T_def WriteUint32T_def)
  show ?thesis
    by (simp only: read_section_def r n t f v assms(3) Let_def prod.case sum.case simp_thms if_True)
qed

definition own_table :: "u32 list option \<Rightarrow> bool" where
  "own_table tbl = (tbl = None \<or> tbl = Some (make_table crc_poly False))"

lemma CRC32_own: "own_table tbl \<Longrightarrow> CRC32 bs tbl = (crc_reference bs, Some (make_table crc_poly False))"
  by (auto simp: own_table_def CRC32_eq)

lemma WriteSection_received:
  assumes "length buf \<le> 1012" "own_table tbl" "pid w < 0x2000" "version w < 32"
  shows "\<exists>packets w' tbl'. WriteSection ident sn ls buf w tbl = Inr (packets, w', tbl') \<and> own_table tbl' \<and>
     pid w' = pid w \<and> version w' = version w \<and> table_id w' = table_id w \<and>
     receive_section (pid w) (cc w) packets = Some ((table_id w, ident, version w, sn, ls, buf), cc w')"
proof -
  define sec where "sec = section_bytes w ident sn ls buf"
  obtain w' packets where p: "push_loop w True (sec @ WriteUint32T (crc_reference sec)) = (w', packets)"
    by fastforce
  obtain n where n: "ts_payload (pid w) (cc w) True packets =
      Some (sec @ WriteUint32T (crc_reference sec) @ replicate n 0xFF, cc w')"
    using push_loop_received [OF assms(3) p] by auto
  have "read_section (sec @ WriteUint32T (crc_reference sec) @ replicate n 0xFF) =
      Some (table_id w, ident, version w, sn, ls, buf)"
    by (rule read_section_bytes [OF assms(1,4) crc_residue sec_def])
  then show ?thesis
    using assms(1) p n push_loop_fixed [OF p]
    by (simp add: WriteSection_def PushSection_def CRC32_own [OF assms(2)] own_table_def
        receive_section_def flip: sec_def)
qed

section \<open>A program association table after the other CRC\<close>

text \<open>The table entries that \<open>CRC32Ieee\<close> leaves for the bytes of the table written here, and the
  reference register over the section with the checksum computed from them.\<close>

lemma ieee_entries1:
  "table_entry crc_poly True 0x1 = 0x77073096"
  "table_entry crc_poly True 0x27 = 0xA50AB56B"
  "table_entry crc_poly True 0x53 = 0xF262004E"
  "table_entry crc_poly True 0x5e = 0x8CD37CF3"
  "table_entry crc_poly True 0x62 = 0xA3BC0074"
  "table_entry crc_poly True 0x65 = 0x3DD895D7"
  by code_simp+

lemma ieee_entries2:
  "table_entry crc_poly True 0x9e = 0x17B7BE43"
  "table_entry crc_poly True 0xb8 = 0xC5BA3BBE"
  "table_entry crc_poly True 0xc0 = 0x9B64C2B0"
  "table_entry crc_poly True 0xc5 = 0xEB0E363F"
  "table_entry crc_poly True 0xff = 0x2D02EF8D"
  by code_simp+

lemma crc_bits_8: "(crc_bit ^^ 8) x =
    crc_bit (crc_bit (crc_bit (crc_bit (crc_bit (crc_bit (crc_bit (crc_bit x)))))))"
  by (simp add: eval_nat_numeral)

lemma pat_registers:
  "crc_byte 0xFFFFFFFF 0x0 = 0x4E08BFB4"
  "crc_byte 0x4E08BFB4 0xB0 = 0xBD89E903"
  "crc_byte 0xBD89E903 0xD = 0x34D78E7E"
  "crc_byte 0x34D78E7E 0x0 = 0x10B8654C"
  "crc_byte 0x10B8654C 0x1 = 0xF0B58AC7"
  "crc_byte 0xF0B58AC7 0xC1 = 0x6579B727"
  "crc_byte 0x6579B727 0x0 = 0xC2D78AFC"
  "crc_byte 0xC2D78AFC 0x0 = 0x838257F7"
  "crc_byte 0x838257F7 0x0 = 0xE6183137"
  "crc_byte 0xE6183137 0x1 = 0xC3DF417C"
  "crc_byte 0xC3DF417C 0xF0 = 0x6303749"
  "crc_byte 0x6303749 0x1 = 0x2E701905"
  "crc_byte 0x2E701905 0xB0 = 0x698A9E94"
  "crc_byte 0x698A9E94 0xBC = 0x8CC0B482"
  "crc_byte 0x8CC0B482 0xD5 = 0x9AEAD908"
  "crc_byte 0x9AEAD908 0x43 = 0xD98BB3E6"
  by (simp_all only: crc_byte_def crc_bits_8) (simp_all add: crc_bit_def)

abbreviation pat_section :: "byte list" where
  "pat_section \<equiv> [0x0, 0xb0, 0xd, 0x0, 0x1, 0xc1, 0x0, 0x0, 0x0, 0x1, 0xf0, 0x1]"

lemma pat_section: "section_bytes PatWriter 1 0 0 (WriteUint16T 1 @ WriteUint16T 0xF001) = pat_section"
  by (simp add: section_bytes_def PatWriter_def WriteUint16T_def)

lemma ieee_indices:
  "(ucast (drop_bit 24 (0xffffffff :: u32)) XOR 0x0 :: byte) = 0xff"
  "(ucast (drop_bit 24 (0xd2fd108d :: u32)) XOR 0xb0 :: byte) = 0x62"
  "(ucast (drop_bit 24 (0x5eac8d74 :: u32)) XOR 0xd :: byte) = 0x53"
  "(ucast (drop_bit 24 (0x5eef744e :: u32)) XOR 0x0 :: byte) = 0x5e"
  "(ucast (drop_bit 24 (0x63a732f3 :: u32)) XOR 0x1 :: byte) = 0x62"
  "(ucast (drop_bit 24 (0x48ef374 :: u32)) XOR 0xc1 :: byte) = 0xc5"
  "(ucast (drop_bit 24 (0x65fd423f :: u32)) XOR 0x0 :: byte) = 0x65"
  "(ucast (drop_bit 24 (0xc09aaad7 :: u32)) XOR 0x0 :: byte) = 0xc0"
  "(ucast (drop_bit 24 (0x1ce15b0 :: u32)) XOR 0x0 :: byte) = 0x1"
  "(ucast (drop_bit 24 (0xb9128096 :: u32)) XOR 0x1 :: byte) = 0xb8"
  "(ucast (drop_bit 24 (0xd73aadbe :: u32)) XOR 0xf0 :: byte) = 0x27"
  "(ucast (drop_bit 24 (0x9fa70b6b :: u32)) XOR 0x1 :: byte) = 0x9e"
  by simp_all

lemma ieee_registers:
  "table_step (make_table crc_poly True) 0xffffffff 0x0 = 0xd2fd108d"
  "table_step (make_table crc_poly True) 0xd2fd108d 0xb0 = 0x5eac8d74"
  "table_step (make_table crc_poly True) 0x5eac8d74 0xd = 0x5eef744e"
  "table_step (make_table crc_poly True) 0x5eef744e 0x0 = 0x63a732f3"
  "table_step (make_table crc_poly True) 0x63a732f3 0x1 = 0x48ef374"
  "table_step (make_table crc_poly True) 0x48ef374 0xc1 = 0x65fd423f"
  "table_step (make_table crc_poly True) 0x65fd423f 0x0 = 0xc09aaad7"
  "table_step (make_table crc_poly True) 0xc09aaad7 0x0 = 0x1ce15b0"
  "table_step (make_table crc_poly True) 0x1ce15b0 0x0 = 0xb9128096"
  "table_step (make_table crc_poly True) 0xb9128096 0x1 = 0xd73aadbe"
  "table_step (make_table crc_poly True) 0xd73aadbe 0xf0 = 0x9fa70b6b"
  "table_step (make_table crc_poly True) 0x9fa70b6b 0x1 = 0xb0bcd543"
  by (simp_all only: table_step_def ieee_indices) (simp_all add: ieee_entries1 [unfolded One_nat_def] ieee_entries2)

lemma ieee_table_crc: "table_driven (make_table crc_poly True) pat_section 0 False 0xFFFFFFFF False 0 = 0xb0bcd543"
  by (simp only: table_driven_steps foldl.simps ieee_registers)

lemma pat_residue: "crc_reference (pat_section @ WriteUint32T 0xb0bcd543) \<noteq> 0"
proof -
  have "WriteUint32T 0xb0bcd543 = [0xb0, 0xbc, 0xd5, 0x43]"
    by (simp add: WriteUint32T_def)
  then show ?thesis by (simp only: crc_reference_def append.simps foldl.simps pat_registers) simp
qed

lemma read_pat_section:
  "crc_reference (pat_section @ WriteUint32T c) \<noteq> 0 \<Longrightarrow> read_section (pat_section @ WriteUint32T c @ pad) = None"
  by (simp add: read_section_def ReadUint16T_def WriteUint32T_def)

section \<open>Properties\<close>

text \<open>C25: A section of at most 1012 bytes that \<open>WriteSection\<close> cuts into transport packets is read
  back whole by a receiver that checks sync byte, PID, start indicator, continuity counter, length
  and CRC: table id, identifier, version, section numbers and body are those written, and the
  receiver's counter ends where the writer's does. The table of the checksum must not have been filled by
  \<open>CRC32Ieee\<close> first (\<open>own_table\<close>): the two functions share it, and the first one called fills it.\<close>

theorem section_roundtrip:
  assumes "length buf \<le> 1012" "own_table tbl" "pid w < 0x2000" "version w < 32"
  shows "\<exists>packets w' tbl'. WriteSection ident sn ls buf w tbl = Inr (packets, w', tbl') \<and>
     receive_section (pid w) (cc w) packets = Some ((table_id w, ident, version w, sn, ls, buf), cc w')"
  using WriteSection_received [OF assms] by blast

lemma section_roundtrip_witness:
  "\<exists>packets w' tbl'. WriteSection 1 0 0 (replicate 300 7) PatWriter None = Inr (packets, w', tbl') \<and>
     receive_section 0 (-1) packets = Some ((0, 1, 0, 0, 0, replicate 300 7), cc w')"
  using section_roundtrip [of "replicate 300 7" None PatWriter 1 0 0]
  by (simp add: own_table_def PatWriter_def)

text \<open>\<open>CRC32Ieee\<close> and \<open>CRC32\<close> fill one static table, each in its own way, when it is empty. If
  \<open>CRC32Ieee\<close> runs first, whatever it is given, every program association table written afterwards
  has a wrong CRC and is refused by the receiver.\<close>

theorem ieee_first_breaks_pat:
  "\<exists>packets w tbl. WritePat PatWriter (snd (CRC32Ieee x None)) = Inr (packets, w, tbl) \<and>
     receive_section 0 (-1) packets = None"
proof -
  have t: "snd (CRC32Ieee x None) = Some (make_table crc_poly True)" by (simp add: CRC32Ieee_def Let_def)
  obtain w packets where p: "push_loop PatWriter True (pat_section @ WriteUint32T 0xb0bcd543) = (w, packets)"
    by fastforce
  obtain n where n: "ts_payload 0 (-1) True packets =
      Some (pat_section @ WriteUint32T 0xb0bcd543 @ replicate n 0xFF, cc w)"
    using push_loop_received [OF _ p] by (auto simp: PatWriter_def)
  have "read_section (pat_section @ WriteUint32T 0xb0bcd543 @ replicate n 0xFF) = None"
    using read_pat_section pat_residue by simp
  then show ?thesis
    using p n by (simp add: WritePat_def WriteSection_def t CRC32_def pat_section ieee_table_crc
        PushSection_def receive_section_def)
qed

end
