(* ===== verification/TsPes.thy ===== *)
theory TsPes
  imports AvDemux Psi
begin

text \<open>
  Elementary streams in transport packets: the time fields of \<open>src/mmedia/mpegts/TsTool.cpp\<close>, the
  writer interface \<open>StreamWriter.h\<close>, and the loops \<open>AudioEncoder::WriteAudioPes\<close> and
  \<open>VideoEncoder::WriteVideoPes\<close>, which put a PES header in front of the samples and cut the result
  into packets of 188 bytes on the stack, the last one filled up by an adaptation field. The two
  loops differ in the header of the first packet only and are one function here. Sizes are far below
  \<open>2 ^ 31\<close> (a message of RTMP is below \<open>2 ^ 24\<close>), so the code's \<open>int\<close> sums are numbers.
\<close>

section \<open>The writer\<close>

text \<open>The fields of the base class, and its virtual functions as a record of functions. \<open>Data\<close> and
  \<open>Size\<close> are never called through the interface.\<close>

record stream_writer =
  sw_sps :: "byte list"
  sw_pps :: "byte list"
  sw_appended :: bool

record 'w writer_ops =
  AppendTimeStamp :: "u64 \<Rightarrow> 'w \<Rightarrow> 'w"
  WriteTs :: "byte list \<Rightarrow> 'w \<Rightarrow> 'w res"

definition SetSPS :: "byte list \<Rightarrow> 'a stream_writer_scheme \<Rightarrow> 'a stream_writer_scheme" where
  "SetSPS s w = w\<lparr>sw_sps := s\<rparr>"

definition SetPPS :: "byte list \<Rightarrow> 'a stream_writer_scheme \<Rightarrow> 'a stream_writer_scheme" where
  "SetPPS s w = w\<lparr>sw_pps := s\<rparr>"

definition SetSpsPpsAppended :: "bool \<Rightarrow> 'a stream_writer_scheme \<Rightarrow> 'a stream_writer_scheme" where
  "SetSpsPpsAppended b w = w\<lparr>sw_appended := b\<rparr>"

section \<open>Time fields\<close>

definition WritePts :: "byte \<Rightarrow> u64 \<Rightarrow> byte list" where
  "WritePts fourbits pts =
     (let v1 = push_bit 1 (drop_bit 15 pts AND 0x7fff) OR 1; v2 = push_bit 1 (pts AND 0x7fff) OR 1
      in [push_bit 4 fourbits OR push_bit 1 (ucast (drop_bit 30 pts AND 0x07)) OR 1,
          ucast (drop_bit 8 v1), ucast v1, ucast (drop_bit 8 v2), ucast v2])"

definition WritePcr :: "u64 \<Rightarrow> byte list" where
  "WritePcr pcr =
     (let v = (push_bit 9 0x3f AND 0x7E00) OR (push_bit 15 pcr AND 0xFFFFFFFF8000)
      in [ucast (drop_bit 40 v), ucast (drop_bit 32 v), ucast (drop_bit 24 v), ucast (drop_bit 16 v),
          ucast (drop_bit 8 v), ucast v])"

section \<open>Packets\<close>

text \<open>What the first packet announces: an audio frame, or a picture that may be a key frame.\<close>

datatype pes = AudioPes (pes_dts: u64) | VideoPes (pes_pts: u64) (pes_dts: u64) (pes_key: bool)

definition ts_header :: "u16 \<Rightarrow> bool \<Rightarrow> byte \<Rightarrow> byte list" where
  "ts_header p is_start c =
     [0x47, ucast (drop_bit 8 p) OR (if is_start then 0x40 else 0), ucast p, 0x10 OR c]"

definition pes_length :: "nat \<Rightarrow> u16" where
  "pes_length len = (if 0xffff < len then 0 else of_nat len)"

fun pes_header :: "pes \<Rightarrow> nat \<Rightarrow> byte list" where
  "pes_header (AudioPes dts) payload_size =
     [0, 0, 1, 0xc0] @ WriteUint16T (pes_length (payload_size + 5 + 3)) @ [0x80, push_bit 6 0x02, 5] @
     WritePts 0x02 dts"
| "pes_header (VideoPes pts dts key) payload_size =
     (let both = (pts \<noteq> dts); header_len = (if both then 10 else 5); flags = (if both then 0x03 else 0x02)
      in [0, 0, 1, 0xe0] @ WriteUint16T (pes_length (payload_size + header_len + 3)) @
         [0x80, push_bit 6 flags, of_nat header_len] @
         (if both then WritePts 0x03 pts @ WritePts 0x01 dts else WritePts 0x02 pts))"

text \<open>The bytes of a packet in front of the payload, before any filling. A key frame starts with an
  adaptation field of seven bytes: the flag of the clock reference and the reference.\<close>

definition packet_header :: "pes \<Rightarrow> u16 \<Rightarrow> bool \<Rightarrow> byte \<Rightarrow> nat \<Rightarrow> byte list" where
  "packet_header k p is_start c payload_size =
     (let head = ts_header p is_start c
      in if \<not> is_start then head
         else (case k of
                 AudioPes _ \<Rightarrow> head
               | VideoPes pts _ key \<Rightarrow>
                   if key then head[3 := head ! 3 OR 0x20] @ [1 + 6, 0x10] @ WritePcr pts else head) @
              pes_header k payload_size)"

text \<open>\<open>memmove\<close> inside the packet, and the filling between header and payload.\<close>

definition mem_move :: "nat \<Rightarrow> nat \<Rightarrow> nat \<Rightarrow> byte list \<Rightarrow> byte list" where
  "mem_move dst src n buf = overwrite dst (take n (drop src buf)) buf"

definition stuff :: "nat \<Rightarrow> nat \<Rightarrow> byte list \<Rightarrow> byte list" where
  "stuff header_len stuffing buf =
     (if stuffing = 0 then buf
      else if buf ! 3 AND 0x20 \<noteq> 0 then
        (let af_len = unat (buf ! 4) + 1;
             buf = mem_move (4 + af_len + stuffing) (4 + af_len) (header_len - (4 + af_len)) buf;
             buf = buf[4 := buf ! 4 + of_nat stuffing]
         in overwrite (4 + af_len) (replicate stuffing 0xff) buf)
      else
        (let buf = mem_move (4 + stuffing) 4 (header_len - 4) buf;
             buf = buf[3 := buf ! 3 OR 0x20, 4 := of_nat (stuffing - 1)]
         in if 2 < stuffing then overwrite 6 (replicate (stuffing - 2) 0xff) (buf[5 := 0]) else buf))"

text \<open>The samples are copied to the end of the packet; one that does not fit stays in the list with
  its rest.\<close>

fun copy_samples :: "nat \<Rightarrow> sample_buf list \<Rightarrow> byte list \<Rightarrow> (byte list \<times> sample_buf list) res" where
  "copy_samples slen [] buf = Inr (buf, [])"
| "copy_samples slen (s # ss) buf =
     (if slen = 0 then Inr (buf, s # ss)
      else if sb_size s \<le> slen
      then bindE (mem_read (sb_size s) (sb_addr s)) (\<lambda>bs.
             copy_samples (slen - sb_size s) ss (overwrite (188 - slen) bs buf))
      else bindE (mem_read slen (sb_addr s)) (\<lambda>bs.
             Inr (overwrite (188 - slen) bs buf, SampleBuf (drop slen (sb_addr s)) (sb_size s - slen) # ss)))"

definition payload_room :: "byte list \<Rightarrow> nat \<Rightarrow> nat" where
  "payload_room hdr payload_size = min (188 - length hdr) payload_size"

lemma length_WritePts [simp]: "length (WritePts f p) = 5"
  by (simp add: WritePts_def Let_def)

lemma length_packet_header: "4 \<le> length (packet_header k p st c n)" "length (packet_header k p st c n) \<le> 31"
  by (cases k; simp add: packet_header_def ts_header_def WritePcr_def Let_def; fail)+

function pes_loop ::
    "'w writer_ops \<Rightarrow> pes \<Rightarrow> u16 \<Rightarrow> bool \<Rightarrow> nat \<Rightarrow> sample_buf list \<Rightarrow> byte \<Rightarrow> 'w \<Rightarrow> (byte \<times> 'w) res" where
  "pes_loop ops k p is_start payload_size result c w =
     (if 0 < payload_size \<and> result \<noteq> []
      then let c = (c + 1) AND 0xf;
               hdr = packet_header k p is_start c payload_size;
               len = payload_room hdr payload_size;
               buf = stuff (length hdr) (188 - length hdr - len) (hdr @ replicate (188 - length hdr) 0)
           in bindE (copy_samples len result buf) (\<lambda>(buf, result).
              bindE (WriteTs ops buf w) (\<lambda>w.
                pes_loop ops k p False (payload_size - len) result c w))
      else Inr (c, w))"
  by pat_completeness auto
termination
proof (relation "measure (\<lambda>(ops, k, p, st, n, result, c, w). n)", goal_cases)
  case (2 ops k p st n result c w c' hdr len)
  then show ?case using length_packet_header(2) [of k p st c' n] by (simp add: payload_room_def)
qed simp

declare pes_loop.simps [simp del]

definition WriteAudioPes ::
    "'w writer_ops \<Rightarrow> u16 \<Rightarrow> sample_buf list \<Rightarrow> nat \<Rightarrow> u64 \<Rightarrow> byte \<Rightarrow> 'w \<Rightarrow> (byte \<times> 'w) res" where
  "WriteAudioPes ops p result payload_size dts c w =
     pes_loop ops (AudioPes dts) p True payload_size result c w"

definition WriteVideoPes ::
    "'w writer_ops \<Rightarrow> u16 \<Rightarrow> sample_buf list \<Rightarrow> nat \<Rightarrow> u64 \<Rightarrow> u64 \<Rightarrow> bool \<Rightarrow> byte \<Rightarrow> 'w \<Rightarrow> (byte \<times> 'w) res" where
  "WriteVideoPes ops p result payload_size pts dts key c w =
     pes_loop ops (VideoPes pts dts key) p True payload_size result c w"

section \<open>The packets of a stretch of bytes\<close>

text \<open>The header with the filling of \<open>s\<close> bytes, as a list.\<close>

definition adapt :: "byte list \<Rightarrow> nat \<Rightarrow> byte list" where
  "adapt hdr s =
     (if s = 0 then hdr
      else if hdr ! 3 AND 0x20 \<noteq> 0
      then take 4 hdr @ [hdr ! 4 + of_nat s] @ take (unat (hdr ! 4)) (drop 5 hdr) @ replicate s 0xff @
           drop (5 + unat (hdr ! 4)) hdr
      else take 3 hdr @ [hdr ! 3 OR 0x20, of_nat (s - 1)] @
           (if s = 1 then [] else 0 # replicate (s - 2) 0xff) @ drop 4 hdr)"

lemma length_adapt:
  "4 \<le> length hdr \<Longrightarrow> (hdr ! 3 AND 0x20 \<noteq> 0 \<Longrightarrow> 5 + unat (hdr ! 4) \<le> length hdr) \<Longrightarrow> length (adapt hdr s) = length hdr + s"
  by (auto simp: adapt_def)

lemma mem_move_gap: "mem_move (length t + s) (length t) (length r) (t @ r @ z) = t @ take s (r @ z) @ r @ drop s z"
proof -
  have "drop (length t + s + length r) (t @ r @ z) = drop s z" by (simp add: add.commute)
  moreover have "take (length t + s) (t @ r @ z) = t @ take s (r @ z)" by simp
  moreover have "take (length r) (drop (length t) (t @ r @ z)) = r" by simp
  ultimately show ?thesis unfolding mem_move_def overwrite_def by (simp only: append_assoc)
qed

lemma stuff_plain:
  assumes "b3 AND 0x20 = 0" "hdr = [b0, b1, b2, b3] @ rest" "rest = [] \<or> rest ! 1 = 0 \<and> 2 \<le> length rest"
    and "length hdr + s \<le> 188"
  shows "stuff (length hdr) s (hdr @ replicate (188 - length hdr) 0) = adapt hdr s @ replicate (188 - length hdr - s) 0"
proof (cases "s = 0")
  case False
  let ?z = "replicate (188 - length hdr) 0 :: byte list"
  have z: "drop s ?z = replicate (188 - length hdr - s) 0" by simp
  have mv: "mem_move (4 + s) 4 (length hdr - 4) (hdr @ ?z) = [b0, b1, b2, b3] @ take s (rest @ ?z) @ rest @ drop s ?z"
  proof -
    have four: "length [b0, b1, b2, b3] = 4" by simp
    show ?thesis using mem_move_gap [of "[b0, b1, b2, b3]" s rest ?z] unfolding four by (simp add: assms(2) del: take_append)
  qed
  have five: "2 \<le> s \<Longrightarrow> take s (rest @ ?z) ! 1 = 0" using assms(2-4) by (auto simp: nth_append)
  have len: "length (take s (rest @ ?z)) = s" using assms(2,4) by simp
  obtain u0 us where u: "take s (rest @ ?z) = u0 # us" using len False by (cases "take s (rest @ ?z)") auto
  have h: "(hdr @ ?z) ! 3 = b3" by (simp add: assms(2))
  show ?thesis
  proof (cases "s = 1")
    case True
    then have "us = []" using u len by auto
    then show ?thesis using True assms(1) unfolding stuff_def Let_def mv u h z
      by (simp add: adapt_def assms(2) numeral_3_eq_3 eval_nat_numeral)
  next
    case False
    then have "2 \<le> s" using \<open>s \<noteq> 0\<close> by simp
    then obtain us' where us: "us = 0 # us'" "length us' = s - 2" using five u len by (cases us) auto
    have n: "4 + Suc (Suc 0) = (6 :: nat)" by simp
    have six: "overwrite 6 (replicate (s - 2) 0xff) ([b0, b1, b2, b3 OR 0x20, of_nat (s - 1), 0] @ us' @ t) =
        [b0, b1, b2, b3 OR 0x20, of_nat (s - 1), 0] @ replicate (s - 2) 0xff @ t" for t
    proof -
      let ?h = "[b0, b1, b2, b3 OR 0x20, of_nat (s - 1), 0]"
      have n: "6 + length (replicate (s - 2) (0xff :: byte)) = length (?h @ us')" using us(2) by simp
      have "drop (length (?h @ us')) ((?h @ us') @ t) = t" by (rule drop_append_length)
      moreover have "take 6 (?h @ us' @ t) = ?h" by simp
      ultimately show ?thesis unfolding overwrite_def n by (simp only: append_assoc)
    qed
    have upd: "([b0, b1, b2, b3] @ (u0 # 0 # us') @ t)[3 := b3 OR 0x20, 4 := of_nat (s - 1)] =
        [b0, b1, b2, b3 OR 0x20, of_nat (s - 1), 0] @ us' @ t"
      "([b0, b1, b2, b3 OR 0x20, of_nat (s - 1), 0] @ us' @ t)[5 := 0] = [b0, b1, b2, b3 OR 0x20, of_nat (s - 1), 0] @ us' @ t" for t
      by (simp_all add: eval_nat_numeral)
    have h3: "([b0, b1, b2, b3] @ (u0 # 0 # us') @ t) ! 3 = b3" for t by simp
    show ?thesis
    proof (cases "2 < s")
      case True
      then show ?thesis using assms(1) unfolding stuff_def Let_def mv u us(1) h h3 upd six z
        by (simp add: adapt_def assms(2))
    next
      case False
      then have "s = 2" "us' = []" using \<open>2 \<le> s\<close> us(2) by auto
      then show ?thesis using assms(1) unfolding stuff_def Let_def mv u us(1) h h3 upd z
        by (simp add: adapt_def assms(2))
    qed
  qed
qed (simp add: stuff_def adapt_def)

lemma stuff_af:
  assumes "b3 AND 0x20 \<noteq> 0" "hdr = [b0, b1, b2, b3, of_nat (length af)] @ af @ rest" "length hdr + s \<le> 188"
  shows "stuff (length hdr) s (hdr @ replicate (188 - length hdr) 0) = adapt hdr s @ replicate (188 - length hdr - s) 0"
proof (cases "s = 0")
  case False
  let ?z = "replicate (188 - length hdr) 0 :: byte list" and ?n = "length af"
  have n: "unat (of_nat ?n :: byte) = ?n" using assms(2,3) by (simp add: unat_of_nat take_bit_nat_eq_self)
  have z: "drop s ?z = replicate (188 - length hdr - s) 0" by simp
  let ?t = "\<lambda>x. [b0, b1, b2, b3, x] @ af"
  have l: "length (?t x) = 4 + (?n + 1)" for x by simp
  have hdr: "hdr = ?t (of_nat ?n) @ rest" using assms(2) by simp
  have mv: "mem_move (4 + (?n + 1) + s) (4 + (?n + 1)) (length hdr - (4 + (?n + 1))) (hdr @ ?z) =
      ?t (of_nat ?n) @ take s (rest @ ?z) @ rest @ drop s ?z"
  proof -
    have "length rest = length hdr - (4 + (?n + 1))" using assms(2) by simp
    then show ?thesis using mem_move_gap [of "?t (of_nat ?n)" s rest ?z] unfolding l by (simp add: hdr del: take_append)
  qed
  have len: "length (take s (rest @ ?z)) = s" using assms(2,3) by simp
  have ow: "overwrite (4 + (?n + 1)) (replicate s 0xff) (?t x @ take s (rest @ ?z) @ y) = ?t x @ replicate s 0xff @ y" for x y
    unfolding overwrite_def l [of x, symmetric] using len by simp
  have u4: "(?t x @ y)[4 := v] = ?t v @ y" "(?t x @ y) ! 4 = x" "(?t x @ y) ! 3 = b3" for x y v
    by (simp_all add: eval_nat_numeral)
  have h: "(hdr @ ?z) ! 3 = b3" "(hdr @ ?z) ! 4 = of_nat ?n" unfolding hdr by simp_all
  have "stuff (length hdr) s (hdr @ ?z) = ?t (of_nat ?n + of_nat s) @ replicate s 0xff @ rest @ drop s ?z"
    unfolding stuff_def Let_def h n if_not_P [OF False] if_P [OF assms(1)] mv u4 ow by (rule refl)
  moreover have "adapt hdr s = ?t (of_nat ?n + of_nat s) @ replicate s 0xff @ rest"
  proof -
    have "5 + ?n = length (?t (of_nat ?n))" by simp
    then have "drop (5 + ?n) hdr = rest" unfolding hdr by (simp only: drop_append_length)
    then show ?thesis using False assms(1) n by (simp add: adapt_def) (simp add: hdr)
  qed
  ultimately show ?thesis unfolding z by simp
qed (simp add: stuff_def adapt_def)

lemma stuff_packet:
  assumes "hdr = packet_header k p st ((c + 1) AND 0xf) n" "length hdr + s \<le> 188"
  shows "stuff (length hdr) s (hdr @ replicate (188 - length hdr) 0) = adapt hdr s @ replicate (188 - length hdr - s) 0"
    and "length (adapt hdr s) = length hdr + s"
proof -
  let ?c = "(c + 1) AND 0xf"
  let ?b1 = "ucast (drop_bit 8 p) OR (if st then 0x40 else 0) :: byte"
  have b3: "(0x10 OR ?c) AND 0x20 = 0" "((0x10 OR ?c) OR 0x20) AND 0x20 \<noteq> (0 :: byte)"
    by (simp_all add: bit.conj_disj_distrib2 and.assoc)
  have pes: "pes_header k n ! 1 = 0" "2 \<le> length (pes_header k n)" for k n
    by (cases k; simp add: Let_def)+
  have "stuff (length hdr) s (hdr @ replicate (188 - length hdr) 0) = adapt hdr s @ replicate (188 - length hdr - s) 0 \<and>
    length (adapt hdr s) = length hdr + s"
  proof (cases "st \<and> (\<exists>pts dts. k = VideoPes pts dts True)")
    case False
    then obtain rest where "hdr = [0x47, ?b1, ucast p, 0x10 OR ?c] @ rest" "rest = [] \<or> rest = pes_header k n"
      using assms(1) by (cases k) (auto simp: packet_header_def ts_header_def Let_def split: if_splits)
    then show ?thesis using stuff_plain [OF b3(1) _ _ assms(2)] pes [of k n] b3(1)
      by (intro conjI length_adapt) auto
  next
    case True
    then obtain pts dts where k: "k = VideoPes pts dts True" "st" by auto
    let ?af = "0x10 # WritePcr pts"
    have "length (WritePcr pts) = 6" by (simp add: WritePcr_def Let_def)
    then have hdr: "hdr = [0x47, ?b1, ucast p, (0x10 OR ?c) OR 0x20, of_nat (length ?af)] @ ?af @ pes_header k n"
      using assms(1) k by (simp add: packet_header_def ts_header_def eval_nat_numeral)
    have "length ?af = 7" "hdr ! 4 = of_nat (length ?af)" using \<open>length (WritePcr pts) = 6\<close> by (simp_all add: hdr)
    then have "unat (hdr ! 4) = 7" by (simp only:) simp
    moreover have "12 \<le> length hdr" using \<open>length (WritePcr pts) = 6\<close> by (simp add: hdr)
    ultimately show ?thesis using stuff_af [OF b3(2) hdr assms(2)] by (intro conjI length_adapt) auto
  qed
  then show "stuff (length hdr) s (hdr @ replicate (188 - length hdr) 0) = adapt hdr s @ replicate (188 - length hdr - s) 0"
    "length (adapt hdr s) = length hdr + s" by auto
qed

definition readable :: "sample_buf \<Rightarrow> bool" where
  "readable b \<longleftrightarrow> sb_size b \<le> length (sb_addr b)"

abbreviation sample_concat :: "sample_buf list \<Rightarrow> byte list" where
  "sample_concat ss \<equiv> concat (map sample_bytes ss)"

lemma copy_samples_eq:
  assumes "list_all readable ss" "slen \<le> length (sample_concat ss)" "slen \<le> 188" "length buf = 188"
  shows "\<exists>ss'. copy_samples slen ss buf = Inr (take (188 - slen) buf @ take slen (sample_concat ss), ss') \<and>
    sample_concat ss' = drop slen (sample_concat ss) \<and> list_all readable ss'"
  using assms
proof (induction slen ss buf rule: copy_samples.induct)
  case (2 slen s ss buf)
  have s: "mem_read n (sb_addr s) = Inr (take n (sample_bytes s))" "length (sample_bytes s) = sb_size s" if "n \<le> sb_size s" for n
    using "2.prems"(1) that by (auto simp: readable_def sample_bytes_def mem_read_def min_def)
  have size: "length (sample_bytes s) = sb_size s" using s(2) [OF order_refl] .
  consider "slen = 0" | "slen \<noteq> 0" "sb_size s \<le> slen" | "slen \<noteq> 0" "slen < sb_size s" by linarith
  then show ?case
  proof cases
    case 2
    let ?buf = "overwrite (188 - slen) (sample_bytes s) buf"
    have l: "length ?buf = 188" using "2.prems"(3,4) 2(2) size by simp
    have a: "slen - sb_size s \<le> length (sample_concat ss)" "slen - sb_size s \<le> 188" using "2.prems"(2,3) size by auto
    have r: "mem_read (sb_size s) (sb_addr s) = Inr (sample_bytes s)" using s [of "sb_size s"] by simp
    obtain ss' where ss': "copy_samples (slen - sb_size s) ss ?buf =
        Inr (take (188 - (slen - sb_size s)) ?buf @ take (slen - sb_size s) (sample_concat ss), ss')"
      "sample_concat ss' = drop (slen - sb_size s) (sample_concat ss)" "list_all readable ss'"
      using "2.IH" [OF 2 r _ a l] "2.prems"(1) by auto
    have "take (188 - (slen - sb_size s)) ?buf = take (188 - slen) buf @ sample_bytes s"
    proof -
      have e: "188 - (slen - sb_size s) = 188 - slen + length (sample_bytes s)" using 2 size "2.prems"(3) by simp
      show ?thesis unfolding e by (rule take_overwrite_end) (use "2.prems"(3,4) 2 size in simp)
    qed
    with ss' 2 r size show ?thesis by (auto simp del: bindE_eq_Inr)
  next
    case 3
    then have r: "mem_read slen (sb_addr s) = Inr (take slen (sample_bytes s))" "length (sample_bytes s) = sb_size s"
      using s [of slen] by auto
    have "overwrite (188 - slen) (take slen (sample_bytes s)) buf = take (188 - slen) buf @ take slen (sample_bytes s)"
      using "2.prems"(3,4) 3 r(2) by (simp add: overwrite_def)
    moreover have "sample_bytes (SampleBuf (drop slen (sb_addr s)) (sb_size s - slen)) = drop slen (sample_bytes s)"
      using 3 by (simp add: sample_bytes_def SampleBuf_def drop_take)
    ultimately show ?thesis using 3 r "2.prems"(1) by (auto simp: readable_def SampleBuf_def simp del: bindE_eq_Inr)
  qed (use "2.prems" in auto)
qed simp

text \<open>The packets of \<open>bytes\<close>, and the counter after them.\<close>

function pes_cut :: "pes \<Rightarrow> u16 \<Rightarrow> bool \<Rightarrow> byte \<Rightarrow> byte list \<Rightarrow> byte list list \<times> byte" where
  "pes_cut k p st c bytes =
     (if bytes = [] then ([], c)
      else let c = (c + 1) AND 0xf; hdr = packet_header k p st c (length bytes);
               len = payload_room hdr (length bytes)
           in map_prod ((#) (adapt hdr (188 - length hdr - len) @ take len bytes)) (\<lambda>c. c)
                (pes_cut k p False c (drop len bytes)))"
  by pat_completeness auto
termination
proof (relation "measure (\<lambda>(k, p, st, c, bytes). length bytes)", goal_cases)
  case (2 k p st c bytes c' hdr len)
  then show ?case using length_packet_header(2) [of k p st c' "length bytes"] by (simp add: payload_room_def)
qed simp

declare pes_cut.simps [simp del]

fun write_all :: "'w writer_ops \<Rightarrow> byte list list \<Rightarrow> 'w \<Rightarrow> 'w res" where
  "write_all ops [] w = Inr w"
| "write_all ops (b # bs) w = bindE (WriteTs ops b w) (write_all ops bs)"

lemma pes_loop_cut:
  assumes "list_all readable ss" "n = length (sample_concat ss)"
  shows "pes_loop ops k p st n ss c w =
    (case pes_cut k p st c (sample_concat ss) of (packets, c') \<Rightarrow> bindE (write_all ops packets w) (\<lambda>w. Inr (c', w)))"
  using assms
proof (induction n arbitrary: ss st c w rule: less_induct)
  case (less n)
  show ?case
  proof (cases "sample_concat ss = []")
    case True
    then have "n = 0" using less.prems(2) by simp
    then show ?thesis unfolding True by (simp add: pes_loop.simps [of ops k p st 0] pes_cut.simps [of k p st c "[]"])
  next
    case False
    let ?c = "(c + 1) AND 0xf"
    define hdr where "hdr = packet_header k p st ?c n"
    define len where "len = payload_room hdr n"
    have n: "0 < n" "ss \<noteq> []" using False less.prems(2) by auto
    have h: "length hdr \<le> 31" unfolding hdr_def by (rule length_packet_header)
    have len: "0 < len" "len \<le> n" "length hdr + len \<le> 188" using h n by (auto simp: len_def payload_room_def)
    let ?s = "188 - length hdr - len"
    have s: "length hdr + ?s \<le> 188" using len by simp
    note st = stuff_packet [OF hdr_def s]
    have r: "188 - length hdr - ?s = len" using len by simp
    let ?buf = "adapt hdr ?s @ replicate len 0"
    have b: "length ?buf = 188" using st(2) len by simp
    obtain ss' where ss': "copy_samples len ss ?buf = Inr (take (188 - len) ?buf @ take len (sample_concat ss), ss')"
        "sample_concat ss' = drop len (sample_concat ss)" "list_all readable ss'"
      using copy_samples_eq [OF less.prems(1), of len ?buf] len less.prems(2) b by auto
    have t: "take (188 - len) ?buf = adapt hdr ?s" using st(2) len by simp
    have ih: "pes_loop ops k p False (n - len) ss' ?c v =
      (case pes_cut k p False ?c (drop len (sample_concat ss)) of (packets, c') \<Rightarrow>
        bindE (write_all ops packets v) (\<lambda>w. Inr (c', w)))" for v
      using less.IH [of "n - len" ss'] len n ss'(2,3) less.prems(2) by simp
    have "pes_loop ops k p st n ss c w = bindE (WriteTs ops (adapt hdr ?s @ take len (sample_concat ss)) w)
        (\<lambda>w. pes_loop ops k p False (n - len) ss' ?c w)"
      by (subst pes_loop.simps)
        (simp only: n if_True simp_thms Let_def hdr_def [symmetric] len_def [symmetric] st(1) r ss'(1) t bindE.simps prod.case)
    also have "\<dots> = (case pes_cut k p st c (sample_concat ss) of (packets, c') \<Rightarrow>
        bindE (write_all ops packets w) (\<lambda>w. Inr (c', w)))"
    proof -
      obtain ks c' where rest: "pes_cut k p False ?c (drop len (sample_concat ss)) = (ks, c')" by fastforce
      have "pes_cut k p st c (sample_concat ss) = ((adapt hdr ?s @ take len (sample_concat ss)) # ks, c')"
        by (subst pes_cut.simps [of k p st c])
          (simp only: False if_False Let_def less.prems(2) [symmetric] hdr_def [symmetric] len_def [symmetric] rest
            map_prod_simp)
      then show ?thesis unfolding ih rest by (simp only: prod.case write_all.simps bindE_assoc)
    qed
    finally show ?thesis .
  qed
qed

section \<open>A receiver of elementary streams\<close>

text \<open>
  What a demultiplexer does with the packets of PID \<open>p\<close> after continuity counter \<open>c\<close>: it checks sync
  byte, PID, start indicator, counter and length, reads the adaptation field (nothing but filling, or
  a clock reference), and collects the payload and the references.
\<close>

definition read_pts :: "byte \<Rightarrow> byte list \<Rightarrow> u64 option" where
  "read_pts fourbits bs =
     (case bs of [a, b, c, d, e] \<Rightarrow>
        if drop_bit 4 a = fourbits \<and> bit a 0 \<and> bit c 0 \<and> bit e 0
        then Some (push_bit 30 (ucast (drop_bit 1 a AND 7)) OR
                   push_bit 22 (ucast b) OR push_bit 15 (ucast (drop_bit 1 c)) OR push_bit 7 (ucast d) OR drop_bit 1 (ucast e))
        else None
      | _ \<Rightarrow> None)"

definition read_pcr :: "byte list \<Rightarrow> u64 option" where
  "read_pcr bs =
     (case bs of [a, b, c, d, e, f] \<Rightarrow>
        if e AND 0x7f = 0x7e \<and> f = 0
        then Some (push_bit 25 (ucast a) OR push_bit 17 (ucast b) OR push_bit 9 (ucast c) OR push_bit 1 (ucast d) OR
                   ucast (drop_bit 7 e))
        else None
      | _ \<Rightarrow> None)"

lemma field_masks: "(x :: u64) AND 0x7fff = take_bit 15 x" "(x :: u64) AND 0x07 = take_bit 3 x" "(b :: byte) AND 7 = take_bit 3 b" 
  "b AND 0x7f = take_bit 7 b" "(x :: u64) AND 0xFFFFFFFF8000 = push_bit 15 (take_bit 33 (drop_bit 15 x))"
proof -
  have "(0xFFFFFFFF8000 :: u64) = push_bit 15 (mask 33)" by (simp add: mask_numeral)
  moreover have "x AND push_bit 15 (mask 33) = push_bit 15 (take_bit 33 (drop_bit 15 x))"
    by (rule bit_word_eqI) (auto simp: bit_simps)
  ultimately show "x AND 0xFFFFFFFF8000 = push_bit 15 (take_bit 33 (drop_bit 15 x))" by (simp only:)
qed (simp_all add: take_bit_eq_mask mask_numeral)

lemma high_bits: "(push_bit 30 (ucast (take_bit 3 (drop_bit 1 (push_bit 4 f OR push_bit 1 (ucast (take_bit 3 (drop_bit 30 t))) OR 1 :: byte))) :: u64)) = push_bit 30 (take_bit 3 (drop_bit 30 t))"
  by (rule bit_word_eqI)
   (auto simp: bit_simps bit_1_iff simp del: push_bit_Suc One_nat_def)

lemma low_bits:
  assumes "v1 = push_bit 1 (take_bit 15 (drop_bit 15 t)) OR 1" "v2 = push_bit 1 (take_bit 15 t) OR 1" 
  shows "push_bit 30 (take_bit 3 (drop_bit 30 t)) OR push_bit 22 (ucast (ucast (drop_bit 8 v1) :: byte)) OR push_bit 15 (ucast (drop_bit 1 (ucast v1 :: byte))) OR
    push_bit 7 (ucast (ucast (drop_bit 8 v2) :: byte)) OR drop_bit 1 (ucast (ucast v2 :: byte)) = (take_bit 33 t :: u64)"
  unfolding assms
proof (rule bit_word_eqI, goal_cases)
  case (1 n)
  consider "n < 7" | "7 \<le> n" "n < 15" | "15 \<le> n" "n < 22" | "22 \<le> n" "n < 30" | "30 \<le> n" by linarith
  then show ?case using 1
   by cases (auto simp: bit_simps bit_1_iff simp del: push_bit_Suc One_nat_def)
qed

lemma tag_bits: "f < 4 \<Longrightarrow> drop_bit 4 (push_bit 4 f OR push_bit 1 (ucast (take_bit 3 x :: u64)) OR 1) = (f :: byte)"
proof -
  assume "f < 4"
  then have "unat f < 2 ^ 2" by (simp add: word_less_nat_alt)
  then have "unat (take_bit 2 f) = unat f" by (simp add: unsigned_take_bit_eq take_bit_nat_eq_self)
  then have t: "take_bit 2 f = f" by (rule unsigned_word_eqI)
  have f: "k < 2" if "bit f k" for k using that by (subst (asm) t [symmetric]) (simp add: bit_simps)
  show ?thesis
  by (rule bit_word_eqI) (auto simp: bit_simps bit_1_iff simp del: push_bit_Suc One_nat_def dest: f)
qed

lemma read_pts_WritePts: 
  assumes "f < 4" shows "read_pts f (WritePts f t) = Some (take_bit 33 t)"
proof -
  have o: "bit (x OR 1 :: byte) 0" "bit (ucast (y OR 1 :: u64) :: byte) 0" for x y by (simp_all add: bit_simps)
  show ?thesis
  unfolding read_pts_def WritePts_def Let_def field_masks list.case tag_bits [OF assms] high_bits low_bits [OF refl refl]
    by (simp add: o del: push_bit_Suc One_nat_def flip: or.assoc)
qed
lemma read_pcr_WritePcr: "read_pcr (WritePcr t) = Some (take_bit 33 t)"
proof -
  have c: "push_bit 9 0x3f AND 0x7E00 = (push_bit 9 0x3f :: u64)" by simp
  let ?v = "push_bit 9 0x3f OR push_bit 15 (take_bit 33 t) :: u64"
  have b6: "bit (0x3f :: u64) n \<longleftrightarrow> n < 6" "bit (0x3f :: byte) n \<longleftrightarrow> n < 6" "bit (0x3f :: int) n \<longleftrightarrow> n < 6" for n
  proof -
    have "(0x3f :: u64) = mask 6" "(0x3f :: byte) = mask 6" "(0x3f :: int) = mask 6" by (simp_all add: mask_numeral)
    then show "bit (0x3f :: u64) n \<longleftrightarrow> n < 6" "bit (0x3f :: byte) n \<longleftrightarrow> n < 6" "bit (0x3f :: int) n \<longleftrightarrow> n < 6"
      by (simp_all only: bit_mask_iff) auto
  qed
  have e: "take_bit 7 (ucast (drop_bit 8 ?v)) = (0x7e :: byte)"
  proof -
    have "(0x7e :: byte) = push_bit 1 (mask 6)" by (simp add: mask_numeral)
    moreover have "take_bit 7 (ucast (drop_bit 8 ?v)) = (push_bit 1 (mask 6) :: byte)" 
      by (rule bit_word_eqI) (auto simp: bit_simps b6 simp del: push_bit_Suc One_nat_def push_bit_numeral)
    ultimately show ?thesis by simp
  qed
  have f: "ucast ?v = (0 :: byte)"
      by (rule bit_word_eqI) (auto simp: bit_simps b6 simp del: push_bit_Suc One_nat_def push_bit_numeral)
  have p: "push_bit 15 (take_bit 33 (drop_bit 15 (push_bit 15 t))) = push_bit 15 (take_bit 33 t)"
     by (rule bit_word_eqI) (auto simp: bit_simps)
  have v: "push_bit 25 (ucast (ucast (drop_bit 40 ?v) :: byte)) OR push_bit 17 (ucast (ucast (drop_bit 32 ?v) :: byte)) OR
     push_bit 9 (ucast (ucast (drop_bit 24 ?v) :: byte)) OR push_bit 1 (ucast (ucast (drop_bit 16 ?v) :: byte)) OR
     ucast (drop_bit 7 (ucast (drop_bit 8 ?v) :: byte)) = take_bit 33 t"
  proof (rule bit_word_eqI, goal_cases)
  case (1 n)
  consider "n = 0" | "1 \<le> n" "n < 9" | "9 \<le> n" "n < 17" | "17 \<le> n" "n < 25" | "25 \<le> n" by linarith
  then show ?case using 1
   by cases (auto simp: bit_simps b6 simp del: bit_0 push_bit_Suc One_nat_def push_bit_numeral)
  qed
  show ?thesis unfolding read_pcr_def WritePcr_def Let_def c field_masks p list.case e f v by simp
qed

text \<open>Where the payload starts, and the clock reference if there is one.\<close>

definition adaptation :: "byte list \<Rightarrow> (nat \<times> u64 list) option" where
  "adaptation k =
     (if k ! 3 AND 0x20 = 0 then Some (4, [])
      else let l = unat (k ! 4) in
           if 183 \<le> l then None
           else if l = 0 then Some (5, [])
           else if k ! 5 = 0 \<and> list_all (\<lambda>b. b = 0xff) (take (l - 1) (drop 6 k)) then Some (5 + l, [])
           else if k ! 5 = 0x10 \<and> 7 \<le> l \<and> list_all (\<lambda>b. b = 0xff) (take (l - 7) (drop 12 k))
           then map_option (\<lambda>r. (5 + l, [r])) (read_pcr (take 6 (drop 6 k)))
           else None)"

fun es_payload :: "u16 \<Rightarrow> byte \<Rightarrow> bool \<Rightarrow> byte list list \<Rightarrow> (byte list \<times> u64 list \<times> byte) option" where
  "es_payload p c first [] = Some ([], [], c)"
| "es_payload p c first (k # ks) =
     (let c = (c + 1) AND 0xf in
      if length k = 188 \<and> k ! 0 = 0x47 \<and> k ! 1 AND 0x1f = ucast (drop_bit 8 p) \<and> k ! 2 = ucast p \<and>
         (k ! 1 AND 0x40 \<noteq> 0) = first \<and> k ! 3 AND 0x10 \<noteq> 0 \<and> k ! 3 AND 0x0f = c
      then (case adaptation k of
              None \<Rightarrow> None
            | Some (start, pcr) \<Rightarrow>
                map_option (\<lambda>(bytes, pcrs, c). (drop start k @ bytes, pcr @ pcrs, c)) (es_payload p c False ks))
      else None)"

text \<open>The header of a PES packet: stream, times and payload. A length of zero means unbounded.\<close>

definition read_pes :: "byte list \<Rightarrow> (byte \<times> u64 \<times> u64 option \<times> byte list) option" where
  "read_pes bs =
     (case bs of
        z1 # z2 # one # sid # l1 # l2 # m # flags # hl # r \<Rightarrow>
          if z1 = 0 \<and> z2 = 0 \<and> one = 1 \<and> m = 0x80 \<and> (l1 = 0 \<and> l2 = 0 \<or> ReadUint16T [l1, l2] = Inr (of_nat (length bs - 6)) \<and> length bs - 6 < 2 ^ 16)
          then (if flags = 0x80 \<and> hl = 5
                then map_option (\<lambda>t. (sid, t, None, drop 5 r)) (read_pts 2 (take 5 r))
                else if flags = 0xc0 \<and> hl = 10
                then (case (read_pts 3 (take 5 r), read_pts 1 (take 5 (drop 5 r))) of
                        (Some t, Some u) \<Rightarrow> Some (sid, t, Some u, drop 10 r)
                      | _ \<Rightarrow> None)
                else None)
          else None
      | _ \<Rightarrow> None)"

lemma adaptation_plain:
  assumes "b3 AND 0x20 = 0" "hdr = [b0, b1, b2, b3] @ rest" "length hdr + s + length x = 188" "x \<noteq> []"
  shows "\<exists>start. adaptation (adapt hdr s @ x) = Some (start, []) \<and> drop start (adapt hdr s @ x) = rest @ x"
    and "\<exists>t. adapt hdr s @ x = [b0, b1, b2, if s = 0 then b3 else b3 OR 0x20] @ t"
proof -
  have or20: "(b3 OR 0x20) AND 0x20 \<noteq> 0" by (simp add: bit.conj_disj_distrib2)
  have h3: "hdr ! 3 = b3" "take 3 hdr = [b0, b1, b2]" "drop 4 hdr = rest" using assms(2) by (simp_all add: eval_nat_numeral)
  consider "s = 0" | "s = 1" | "2 \<le> s" by linarith
  then have "(\<exists>start. adaptation (adapt hdr s @ x) = Some (start, []) \<and> drop start (adapt hdr s @ x) = rest @ x) \<and>
    (\<exists>t. adapt hdr s @ x = [b0, b1, b2, if s = 0 then b3 else b3 OR 0x20] @ t)"
  proof cases
    case 1
    then show ?thesis using assms(1,2) by (simp add: adapt_def adaptation_def)
  next
    case 2
    have "adapt hdr s @ x = [b0, b1, b2, b3 OR 0x20, 0] @ rest @ x" using 2 assms(1) h3 by (simp add: adapt_def)
    moreover have "adaptation ([b0, b1, b2, b3 OR 0x20, 0] @ rest @ x) = Some (5, [])"
      using or20 by (simp add: adaptation_def)
    ultimately show ?thesis using 2 by simp
  next
    case 3
    let ?pk = "[b0, b1, b2, b3 OR 0x20, of_nat (s - 1), 0] @ replicate (s - 2) 0xff @ rest @ x"
    have pk: "adapt hdr s @ x = ?pk" using 3 assms(1) h3 by (simp add: adapt_def)
    have "0 < length x" "length hdr = 4 + length rest" using assms(2,4) by simp_all
    then have s: "s - 1 < 183" using assms(3) 3 by linarith
    then have l: "unat (of_nat (s - 1) :: byte) = s - 1" by (simp add: unat_of_nat take_bit_nat_eq_self del: of_nat_diff)
    have f: "?pk ! 3 = b3 OR 0x20" "?pk ! 4 = of_nat (s - 1)" "?pk ! 5 = 0" "drop 6 ?pk = replicate (s - 2) 0xff @ rest @ x"
      by (simp_all add: eval_nat_numeral)
    have t: "take (s - 1 - 1) (drop 6 ?pk) = replicate (s - 2) 0xff" unfolding f using 3 by (simp add: numeral_2_eq_2)
    have "adaptation ?pk = Some (5 + (s - 1), [])"
      unfolding adaptation_def f(1-3) l t Let_def using or20 s 3 by (simp add: list_all_iff)
    moreover have "5 + (s - 1) = length ([b0, b1, b2, b3 OR 0x20, of_nat (s - 1), 0] @ replicate (s - 2) 0xff)" using 3 by simp
    then have "drop (5 + (s - 1)) ?pk = rest @ x" by (metis append_assoc drop_append_length)
    ultimately show ?thesis unfolding pk using 3 by auto
  qed
  then show "\<exists>start. adaptation (adapt hdr s @ x) = Some (start, []) \<and> drop start (adapt hdr s @ x) = rest @ x"
    "\<exists>t. adapt hdr s @ x = [b0, b1, b2, if s = 0 then b3 else b3 OR 0x20] @ t" by auto
qed

lemma adaptation_af:
  assumes "b3 AND 0x20 \<noteq> 0" "hdr = [b0, b1, b2, b3, 7] @ 0x10 # WritePcr t @ rest"
    and "length hdr + s + length x = 188" "x \<noteq> []"
  shows "\<exists>start. adaptation (adapt hdr s @ x) = Some (start, [take_bit 33 t]) \<and> drop start (adapt hdr s @ x) = rest @ x"
    and "\<exists>t. adapt hdr s @ x = [b0, b1, b2, b3] @ t"
proof -
  have six: "length (WritePcr t) = 6" by (simp add: WritePcr_def Let_def)
  let ?pk = "([b0, b1, b2, b3, 7 + of_nat s, 0x10] @ WritePcr t @ replicate s 0xff) @ rest @ x"
  have pk: "adapt hdr s @ x = ?pk"
  proof -
    have "hdr ! 4 = 7" "take 4 hdr = [b0, b1, b2, b3]" "take 7 (drop 5 hdr) = 0x10 # WritePcr t" "drop 12 hdr = rest" "hdr ! 3 = b3"
      unfolding assms(2) using six by (simp_all add: eval_nat_numeral)
    moreover have "hdr = [b0, b1, b2, b3, 7] @ (0x10 # WritePcr t) @ rest" using assms(2) by simp
    ultimately show ?thesis using assms(1) by (simp add: adapt_def)
  qed
  have "0 < length x" "length hdr = 12 + length rest" using assms(2,4) six by simp_all
  then have s: "7 + s < 183" using assms(3) by linarith
  have l: "unat (7 + of_nat s :: byte) = 7 + s"
  proof -
    have "7 + of_nat s = (of_nat (7 + s) :: byte)" by simp
    then show ?thesis using s by (simp only: unat_of_nat) simp
  qed
  have f: "?pk ! 3 = b3" "?pk ! 4 = 7 + of_nat s" "?pk ! 5 = 0x10" "drop 6 ?pk = WritePcr t @ replicate s 0xff @ rest @ x"
    by (simp_all add: eval_nat_numeral)
  have "drop 12 ?pk = drop 6 (drop 6 ?pk)" by simp
  also have "\<dots> = replicate s 0xff @ rest @ x" unfolding f(4) using six by simp
  finally have t: "take (7 + s - 7) (drop 12 ?pk) = replicate s 0xff" by simp
  have "take 6 (drop 6 ?pk) = WritePcr t" unfolding f(4) using six by simp
  then have "adaptation ?pk = Some (5 + (7 + s), [take_bit 33 t])"
    unfolding adaptation_def f(1-3) l t Let_def using assms(1) s read_pcr_WritePcr [of t] by (simp add: list_all_iff)
  moreover have "5 + (7 + s) = length ([b0, b1, b2, b3, 7 + of_nat s, 0x10] @ WritePcr t @ replicate s 0xff)" using six by simp
  then have "drop (5 + (7 + s)) ?pk = rest @ x" by (simp only: drop_append_length)
  ultimately show "\<exists>start. adaptation (adapt hdr s @ x) = Some (start, [take_bit 33 t]) \<and> drop start (adapt hdr s @ x) = rest @ x"
    "\<exists>t. adapt hdr s @ x = [b0, b1, b2, b3] @ t" unfolding pk by auto
qed

text \<open>Every packet is accepted, and gives back what was put into it.\<close>

fun clock :: "pes \<Rightarrow> u64 list" where
  "clock (VideoPes pts dts True) = [take_bit 33 pts]"
| "clock k = []"

definition es_head :: "pes \<Rightarrow> bool \<Rightarrow> nat \<Rightarrow> byte list" where
  "es_head k st n = (if st then pes_header k n else [])"

lemma counter_byte:
  fixes c :: byte
  assumes "d = (c + 1) AND 0xf"
  shows "(0x10 OR d) AND 0x20 = 0" "(0x10 OR d) AND 0x10 \<noteq> 0" "(0x10 OR d) AND 0x0f = d"
    "((0x10 OR d) OR 0x20) AND 0x20 \<noteq> 0" "((0x10 OR d) OR 0x20) AND 0x10 \<noteq> 0" "((0x10 OR d) OR 0x20) AND 0x0f = d"
  unfolding assms by (simp_all add: bit.conj_disj_distrib2 and.assoc)

lemma packet_received:
  assumes "hdr = packet_header k p st d n" "d = (c + 1) AND 0xf" "length hdr + s + length x = 188" "x \<noteq> []" "p < 0x2000"
  shows "es_payload p c st ((adapt hdr s @ x) # ks) =
    map_option (\<lambda>(bytes, pcrs, c). (es_head k st n @ x @ bytes, (if st then clock k else []) @ pcrs, c)) (es_payload p d False ks)"
proof -
  let ?b1 = "ucast (drop_bit 8 p) OR (if st then 0x40 else 0) :: byte"
  have pes: "pes_header k n ! 1 = 0" "2 \<le> length (pes_header k n)" by (cases k; simp add: Let_def)+
  note cb = counter_byte [OF assms(2)]
  have "\<exists>start b3 t. adaptation (adapt hdr s @ x) = Some (start, if st then clock k else []) \<and>
      drop start (adapt hdr s @ x) = es_head k st n @ x \<and> adapt hdr s @ x = [0x47, ?b1, ucast p, b3] @ t \<and>
      b3 AND 0x10 \<noteq> 0 \<and> b3 AND 0x0f = d"
  proof (cases "st \<and> (\<exists>pts dts. k = VideoPes pts dts True)")
    case False
    have hdr: "hdr = [0x47, ?b1, ucast p, 0x10 OR d] @ es_head k st n"
      using assms(1) False by (cases k) (auto simp: packet_header_def ts_header_def es_head_def Let_def)
    have clk: "(if st then clock k else []) = []" using False by (cases k rule: clock.cases) auto
    show ?thesis using adaptation_plain [OF cb(1) hdr assms(3,4)] cb unfolding clk by (cases "s = 0") fastforce+
  next
    case True
    then obtain pts dts where k: "k = VideoPes pts dts True" "st" by auto
    have hdr: "hdr = [0x47, ?b1, ucast p, (0x10 OR d) OR 0x20, 7] @ 0x10 # WritePcr pts @ es_head k st n"
      using assms(1) k by (simp add: packet_header_def ts_header_def es_head_def eval_nat_numeral)
    show ?thesis using adaptation_af [OF cb(4) hdr assms(3,4)] cb(5,6) k by fastforce
  qed
  then obtain start b3 t where f: "adaptation (adapt hdr s @ x) = Some (start, if st then clock k else [])"
      "drop start (adapt hdr s @ x) = es_head k st n @ x" "adapt hdr s @ x = [0x47, ?b1, ucast p, b3] @ t"
      "b3 AND 0x10 \<noteq> 0" "b3 AND 0x0f = d" by blast
  have "length (adapt hdr s @ x) = 188"
  proof -
    have "length hdr + s \<le> 188" using assms(3) by simp
    then show ?thesis using stuff_packet(2) [of hdr k p st c n s] assms(1-3) by simp
  qed
  then have "length ([0x47, ?b1, ucast p, b3] @ t) = 188" unfolding f(3) .
  then show ?thesis using f(1,2,4,5) pid_byte [OF assms(5)] assms(2)
    unfolding es_payload.simps Let_def f(3) by (cases st) (auto simp: option.map_comp comp_def split_beta)
qed

lemma es_cut:
  assumes "p < 0x2000" "st \<longrightarrow> bytes \<noteq> []" "pes_cut k p st c bytes = (packets, c')"
  shows "es_payload p c st packets = Some (es_head k st (length bytes) @ bytes, if st then clock k else [], c')"
  using assms
proof (induction "length bytes" arbitrary: bytes st c packets rule: less_induct)
  case less
  show ?case
  proof (cases "bytes = []")
    case True
    then have "packets = [] \<and> c' = c" using less.prems(3) by (subst (asm) pes_cut.simps) simp
    then show ?thesis using less.prems(2) True by (simp add: es_head_def)
  next
    case False
    let ?c = "(c + 1) AND 0xf"
    define hdr where "hdr = packet_header k p st ?c (length bytes)"
    define len where "len = payload_room hdr (length bytes)"
    obtain ks where ks: "pes_cut k p False ?c (drop len bytes) = (ks, c')"
        "packets = (adapt hdr (188 - length hdr - len) @ take len bytes) # ks"
      using less.prems(3) False
      by (cases "pes_cut k p False ?c (drop len bytes)", subst (asm) pes_cut.simps [of k p st c bytes])
        (auto simp: Let_def hdr_def [symmetric] len_def [symmetric])
    have "length hdr \<le> 31" unfolding hdr_def by (rule length_packet_header)
    then have len: "0 < len" "length hdr + len \<le> 188" "len \<le> length bytes" using False by (auto simp: len_def payload_room_def)
    have ih: "es_payload p ?c False ks = Some (drop len bytes, [], c')"
      using less.hyps [of "drop len bytes" False ?c ks] less.prems(1) ks(1) len by (simp add: es_head_def)
    have x: "length hdr + (188 - length hdr - len) + length (take len bytes) = 188" "take len bytes \<noteq> []"
      using len by auto
    show ?thesis unfolding ks(2) packet_received [OF hdr_def refl x less.prems(1)] ih by simp
  qed
qed

lemma pes_length_field:
  "WriteUint16T (pes_length n) = [l1, l2] \<Longrightarrow> l1 = 0 \<and> l2 = 0 \<or> ReadUint16T [l1, l2] = Inr (of_nat n) \<and> n < 2 ^ 16"
  using u16.dec_exact [of "pes_length n"] by (auto simp: pes_length_def WriteUint16T_def)

lemma read_pes_header:
  "read_pes (pes_header (AudioPes t) (length bytes) @ bytes) = Some (0xc0, take_bit 33 t, None, bytes)"
  "read_pes (pes_header (VideoPes t u key) (length bytes) @ bytes) =
    Some (0xe0, take_bit 33 t, if t \<noteq> u then Some (take_bit 33 u) else None, bytes)"
proof -
  have field: "\<exists>l1 l2. WriteUint16T (pes_length n) = [l1, l2] \<and> (l1 = 0 \<and> l2 = 0 \<or> ReadUint16T [l1, l2] = Inr (of_nat n) \<and> n < 2 ^ 16)" for n
    using pes_length_field by (simp add: WriteUint16T_def)
  have t: "read_pts 1 (WritePts 1 x) = Some (take_bit 33 x)" "read_pts 2 (WritePts 2 x) = Some (take_bit 33 x)"
      "read_pts 3 (WritePts 3 x) = Some (take_bit 33 x)" for x by (simp_all add: read_pts_WritePts)
  show "read_pes (pes_header (AudioPes t) (length bytes) @ bytes) = Some (0xc0, take_bit 33 t, None, bytes)"
    using field [of "length bytes + 5 + 3"] by (auto simp: read_pes_def t)
  show "read_pes (pes_header (VideoPes t u key) (length bytes) @ bytes) =
    Some (0xe0, take_bit 33 t, if t \<noteq> u then Some (take_bit 33 u) else None, bytes)"
  proof (cases "t = u")
    case True
    then show ?thesis using field [of "length bytes + 5 + 3"] by (auto simp: read_pes_def t Let_def)
  next
    case False
    have d: "drop 5 (WritePts x y @ z) = z" "take 5 (WritePts x y @ z) = WritePts x y" "drop 10 (WritePts x y @ z) = drop 5 z" for x y z by simp_all
    show ?thesis using False field [of "length bytes + 10 + 3"]
      by (auto simp: read_pes_def t Let_def d simp del: drop_append take_append)
  qed
qed

text \<open>A frame cut into transport packets is received whole. For samples that are all in memory, the loop
  of the encoders hands the writer packets which a receiver on the PID (below 0x2000) accepts one by
  one, sync byte, start indicator, continuity counter, adaptation field and filling included; the
  counter goes on from frame to frame. What the packets carry is one PES packet whose payload is the
  samples put together, with the presentation time and, where it differs, the decoding time, modulo
  \<open>2 ^ 33\<close>; a key frame, and nothing else, carries a clock reference, equal to the presentation time.\<close>

theorem pes_received:
  assumes "list_all readable ss" "n = length (sample_concat ss)" "0 < n" "p < 0x2000"
  shows "\<exists>packets c'. pes_loop ops k p True n ss c w = bindE (write_all ops packets w) (\<lambda>w. Inr (c', w)) \<and>
    (\<exists>es. es_payload p c True packets = Some (es, clock k, c') \<and>
      read_pes es = (case k of
        AudioPes t \<Rightarrow> Some (0xc0, take_bit 33 t, None, sample_concat ss)
      | VideoPes t u key \<Rightarrow> Some (0xe0, take_bit 33 t, if t \<noteq> u then Some (take_bit 33 u) else None, sample_concat ss)))"
proof -
  obtain packets c' where cut: "pes_cut k p True c (sample_concat ss) = (packets, c')" by fastforce
  have ne: "True \<longrightarrow> sample_concat ss \<noteq> []" using assms(2,3) by auto
  show ?thesis
    using pes_loop_cut [OF assms(1,2), of ops k p True c w] es_cut [OF assms(4) ne cut]
      read_pes_header [where bytes = "sample_concat ss"] unfolding cut
    by (intro exI [of _ packets] exI [of _ c']) (simp add: es_head_def split: pes.split)
qed

end
