(* ===== verification/TsEncoder.thy ===== *)
theory TsEncoder
  imports TsPes Packet
begin

text \<open>
  The encoders of a transport stream, \<open>src/mmedia/mpegts/AudioEncoder.cpp\<close>, \<open>VideoEncoder.cpp\<close> and
  \<open>TsEncoder.cpp\<close>: FLV tags are demultiplexed, AAC frames get an ADTS header, pictures get start codes,
  an access unit delimiter and parameter sets, and the result goes through \<open>pes_loop\<close> to the writer.
  The encoders keep the demuxers, so the flags of \<open>VideoDemux\<close> are never reset. Time stamps are the
  64-bit words of the code's \<open>int64_t\<close>; the packets are those of the live library.
\<close>

section \<open>Audio\<close>

definition Ts_IsCodecHeader :: "'e packet \<Rightarrow> bool res" where
  "Ts_IsCodecHeader packet =
     (if 1 < PacketSize packet then bindE (element 1 (pk_data packet)) (\<lambda>b. Inr (b = 0)) else Inr False)"

definition AacObjectType2AacProfile :: "u32 \<Rightarrow> byte" where
  "AacObjectType2AacProfile t =
     (if t = 1 then 0 else if t = 5 \<or> t = 29 \<or> t = 2 then 1 else if t = 3 then 2 else 3)"

text \<open>\<open>type_\<close> is written and never read.\<close>

record audio_encoder =
  ae_pid :: u16
  ae_type :: byte
  ae_cc :: byte
  ae_demux :: audio_demux

definition AudioEncoder_new :: "u32 \<Rightarrow> audio_encoder" where
  "AudioEncoder_new g = \<lparr>ae_pid = 0xe000, ae_type = 0, ae_cc = -1, ae_demux = AudioDemux_new g\<rparr>"

definition adts_header :: "audio_demux \<Rightarrow> nat \<Rightarrow> byte list" where
  "adts_header d frame_length =
     (let n = of_nat frame_length :: u32; profile = AacObjectType2AacProfile (aac_object d)
      in [0xff, 0xf9,
          (push_bit 6 profile AND 0xc0) OR (ucast (push_bit 2 (aac_sample_rate d)) AND 0x3c) OR
            (drop_bit 2 (aac_channel d) AND 0x01),
          (push_bit 6 (aac_channel d) AND 0xc0) OR (ucast (drop_bit 11 n) AND 0x03),
          ucast (drop_bit 3 n),
          (ucast (push_bit 5 n) AND 0xe0) OR 0x1f,
          0xfc])"

text \<open>The loop over the samples returns in its first round.\<close>

definition EncodeAAC ::
    "'w writer_ops \<Rightarrow> sample_buf list \<Rightarrow> u64 \<Rightarrow> audio_encoder \<Rightarrow> 'w \<Rightarrow> (int \<times> audio_encoder \<times> 'w) res" where
  "EncodeAAC ops samples pts e w =
     (case samples of
        [] \<Rightarrow> Inr (0, e, w)
      | l # _ \<Rightarrow>
          if sb_size l = 0 \<or> 0x1fff < sb_size l then Inr (-1, e, w)
          else bindE (WriteAudioPes ops (ae_pid e)
                 [SampleBuf (adts_header (ae_demux e) (7 + sb_size l)) 7, SampleBuf (sb_addr l) (sb_size l)]
                 (7 + sb_size l) pts (ae_cc e) w) (\<lambda>(c, w). Inr (0, e\<lparr>ae_cc := c\<rparr>, w)))"

definition EncodeMP3 ::
    "'w writer_ops \<Rightarrow> sample_buf list \<Rightarrow> u64 \<Rightarrow> audio_encoder \<Rightarrow> 'w \<Rightarrow> (int \<times> audio_encoder \<times> 'w) res" where
  "EncodeMP3 ops samples pts e w =
     bindE (WriteAudioPes ops (ae_pid e) samples (sum_list (map sb_size samples)) pts (ae_cc e) w)
       (\<lambda>(c, w). Inr (0, e\<lparr>ae_cc := c\<rparr>, w))"

definition EncodeAudio ::
    "'w writer_ops \<Rightarrow> 'e packet \<Rightarrow> u64 \<Rightarrow> audio_encoder \<Rightarrow> 'w \<Rightarrow> (int \<times> audio_encoder \<times> 'w) res" where
  "EncodeAudio ops data dts e w =
     bindE (AudioDemux_OnDemux (pk_data data) (unat (scast (pk_size data) :: u64)) (ae_demux e) []) (\<lambda>(ret, d, list).
       let e = e\<lparr>ae_demux := d\<rparr>
       in if ret = -1 then Inr (-1, e, w)
          else bindE (Ts_IsCodecHeader data) (\<lambda>hdr.
            if hdr then Inr (0, e, w)
            else let w = AppendTimeStamp ops dts w; dts = dts * 90
                 in if sound_format d = kAudioCodecIDAAC then EncodeAAC ops list dts e w
                    else if sound_format d = kAudioCodecIDMP3 then EncodeMP3 ops list dts e w
                    else Inr (0, e, w)))"

definition AudioEncoder_SetPid :: "u16 \<Rightarrow> audio_encoder \<Rightarrow> audio_encoder" where
  "AudioEncoder_SetPid p e = e\<lparr>ae_pid := p\<rparr>"

definition AudioEncoder_SetStreamType :: "byte \<Rightarrow> audio_encoder \<Rightarrow> audio_encoder" where
  "AudioEncoder_SetStreamType t e = e\<lparr>ae_type := t\<rparr>"

section \<open>Video\<close>

text \<open>\<open>type_\<close>, \<open>startcode_inserted_\<close> and \<open>sps_pps_appended_\<close> are never read.\<close>

record video_encoder =
  ve_pid :: u16
  ve_type :: byte
  ve_cc :: byte
  ve_demux :: video_demux

definition VideoEncoder_new :: "byte \<Rightarrow> video_encoder" where
  "VideoEncoder_new g = \<lparr>ve_pid = 0xe000, ve_type = 0, ve_cc = -1, ve_demux = VideoDemux_new g\<rparr>"

text \<open>The static arrays of the code, as samples.\<close>

definition default_aud_buf :: sample_buf where
  "default_aud_buf = SampleBuf [0x09, 0xf0] 2"

definition AvcInsertStartCode :: "sample_buf list \<Rightarrow> bool \<Rightarrow> nat \<times> sample_buf list \<times> bool" where
  "AvcInsertStartCode samples startcode_inserted =
     (if startcode_inserted then (3, samples @ [SampleBuf [0, 0, 1] 3], startcode_inserted)
      else (4, samples @ [SampleBuf [0, 0, 0, 1] 4], True))"

text \<open>A parameter set in front of a picture.\<close>

definition append_unit :: "sample_buf \<Rightarrow> nat \<times> sample_buf list \<times> bool \<Rightarrow> nat \<times> sample_buf list \<times> bool" where
  "append_unit b r =
     (case r of (k, result, sc) \<Rightarrow>
        (case AvcInsertStartCode result sc of (n, result, sc) \<Rightarrow> (k + n + sb_size b, result @ [b], sc)))"

definition set_sample :: "byte list \<Rightarrow> sample_buf" where
  "set_sample s = SampleBuf s (length s)"

definition append_sets ::
    "video_demux \<Rightarrow> nat \<times> sample_buf list \<times> bool \<Rightarrow> 'a stream_writer_scheme \<Rightarrow>
     (nat \<times> sample_buf list \<times> bool) \<times> 'a stream_writer_scheme" where
  "append_sets d r w =
     (let (r, w) = (if vd_sps d \<noteq> [] then (append_unit (set_sample (vd_sps d)) r, SetSPS (vd_sps d) w) else (r, w));
          (r, w) = (if vd_pps d \<noteq> [] then (append_unit (set_sample (vd_pps d)) r, SetPPS (vd_pps d) w) else (r, w))
      in (r, SetSpsPpsAppended True w))"

definition needs_sets :: "video_demux \<Rightarrow> byte \<Rightarrow> 'a stream_writer_scheme \<Rightarrow> bool" where
  "needs_sets d t w \<longleftrightarrow> t = kNaluTypeIDR \<and> \<not> has_sps_pps d \<and>
     (sw_sps w \<noteq> vd_sps d \<or> sw_pps w \<noteq> vd_pps d \<or> \<not> sw_appended w)"

fun avc_loop ::
    "video_demux \<Rightarrow> sample_buf list \<Rightarrow> nat \<times> sample_buf list \<times> bool \<Rightarrow> 'a stream_writer_scheme \<Rightarrow>
     ((nat \<times> sample_buf list \<times> bool) \<times> 'a stream_writer_scheme) res" where
  "avc_loop d [] r w = Inr (r, w)"
| "avc_loop d (l # ls) r w =
     (if sb_size l = 0 then avc_loop d ls r w
      else bindE (element 0 (sb_addr l)) (\<lambda>b.
        let (r, w) = (if needs_sets d (b AND 0x1f) w then append_sets d r w else (r, w))
        in avc_loop d ls (append_unit l r) w))"

definition EncodeAvc ::
    "'a stream_writer_scheme writer_ops \<Rightarrow> sample_buf list \<Rightarrow> bool \<Rightarrow> u64 \<Rightarrow> video_encoder \<Rightarrow>
     'a stream_writer_scheme \<Rightarrow> (int \<times> video_encoder \<times> 'a stream_writer_scheme) res" where
  "EncodeAvc ops samples key dts e w =
     (let d = ve_demux e; r = (0, [], True);
          r = (if \<not> has_aud d then append_unit default_aud_buf r else r)
      in bindE (avc_loop d samples r w) (\<lambda>((total_size, result, sc), w).
           let pts = (if 0 < sint (composition_time d) then dts + scast (composition_time d * 90) else dts)
           in bindE (WriteVideoPes ops (ve_pid e) result total_size pts dts key (ve_cc e) w)
                (\<lambda>(c, w). Inr (0, e\<lparr>ve_cc := c\<rparr>, w))))"

definition EncodeVideo ::
    "'a stream_writer_scheme writer_ops \<Rightarrow> bool \<Rightarrow> 'e packet \<Rightarrow> u64 \<Rightarrow> video_encoder \<Rightarrow>
     'a stream_writer_scheme \<Rightarrow> (int \<times> video_encoder \<times> 'a stream_writer_scheme) res" where
  "EncodeVideo ops key data dts e w =
     bindE (VideoDemux_OnDemux (pk_data data) (unat (scast (pk_size data) :: u64)) (ve_demux e) []) (\<lambda>(ret, d, list).
       let e = e\<lparr>ve_demux := d\<rparr>
       in if ret = -1 then Inr (-1, e, w)
          else bindE (Ts_IsCodecHeader data) (\<lambda>hdr.
            if hdr then Inr (0, e, w)
            else let w = AppendTimeStamp ops dts w; dts = dts * 90
                 in if vd_codec_id d = kVideoCodecIDAVC then EncodeAvc ops list key dts e w else Inr (0, e, w)))"

definition VideoEncoder_SetPid :: "u16 \<Rightarrow> video_encoder \<Rightarrow> video_encoder" where
  "VideoEncoder_SetPid p e = e\<lparr>ve_pid := p\<rparr>"

definition VideoEncoder_SetStreamType :: "byte \<Rightarrow> video_encoder \<Rightarrow> video_encoder" where
  "VideoEncoder_SetStreamType t e = e\<lparr>ve_type := t\<rparr>"

section \<open>The stream\<close>

abbreviation kTsStreamReserved :: byte where "kTsStreamReserved \<equiv> 0x00"
abbreviation kTsStreamAudioMp3 :: byte where "kTsStreamAudioMp3 \<equiv> 0x04"
abbreviation kTsStreamAudioAAC :: byte where "kTsStreamAudioAAC \<equiv> 0x0f"
abbreviation kTsStreamVideoH264 :: byte where "kTsStreamVideoH264 \<equiv> 0x1b"

text \<open>The table of the checksums is a static variable of the code and is passed along in the encoder.\<close>

record ts_encoder =
  te_pat :: psi_writer
  te_pmt :: pmt_writer
  te_audio :: audio_encoder
  te_video :: video_encoder
  video_type :: byte
  audio_type :: byte
  video_pid :: u16
  audio_pid :: u16
  crc_table :: "u32 list option"

definition TsEncoder_new :: "u32 \<Rightarrow> u32 list option \<Rightarrow> ts_encoder" where
  "TsEncoder_new g tbl = \<lparr>te_pat = PatWriter, te_pmt = PmtWriter, te_audio = AudioEncoder_new g,
     te_video = VideoEncoder_new (ucast g), video_type = kTsStreamReserved, audio_type = kTsStreamReserved,
     video_pid = 0xe000, audio_pid = 0xe000, crc_table = tbl\<rparr>"

definition WritePatPmt :: "'w writer_ops \<Rightarrow> ts_encoder \<Rightarrow> 'w \<Rightarrow> (ts_encoder \<times> 'w) res" where
  "WritePatPmt ops e w =
     (if audio_pid e \<noteq> 0xe000 \<and> video_pid e \<noteq> 0xe000
      then bindE (WritePat (te_pat e) (crc_table e)) (\<lambda>(packets, pat, tbl).
           bindE (write_all ops packets w) (\<lambda>w.
           bindE (WritePmt (te_pmt e) tbl) (\<lambda>(packets, pmt, tbl).
           bindE (write_all ops packets w) (\<lambda>w.
             Inr (e\<lparr>te_pat := pat, te_pmt := pmt, crc_table := tbl\<rparr>, w)))))
      else Inr (e, w))"

definition SetStreamType ::
    "'w writer_ops \<Rightarrow> byte \<Rightarrow> u32 \<Rightarrow> ts_encoder \<Rightarrow> 'w \<Rightarrow> (ts_encoder \<times> 'w) res" where
  "SetStreamType ops vc ac e w =
     (let (atype, e) = (if ac = kAudioCodecIDAAC then (kTsStreamAudioAAC, e\<lparr>audio_pid := 0x101\<rparr>)
                        else if ac = kAudioCodecIDMP3 then (kTsStreamAudioMp3, e\<lparr>audio_pid := 0x102\<rparr>)
                        else (kTsStreamReserved, e));
          (vtype, e) = (if vc = kVideoCodecIDAVC then (kTsStreamVideoH264, e\<lparr>video_pid := 0x100\<rparr>)
                        else (kTsStreamReserved, e));
          new_audio = (atype \<noteq> kTsStreamReserved \<and> atype \<noteq> audio_type e);
          new_video = (vtype \<noteq> kTsStreamReserved \<and> vtype \<noteq> video_type e);
          e = (if new_audio
               then e\<lparr>te_pmt := AddProgramInfo \<lparr>stream_type = atype, elementary_pid = audio_pid e\<rparr> (te_pmt e),
                      te_audio := AudioEncoder_SetStreamType atype (AudioEncoder_SetPid (audio_pid e) (te_audio e)),
                      audio_type := atype\<rparr>
               else e);
          e = (if new_video
               then e\<lparr>te_pmt := SetPcrPid (ucast (video_pid e))
                        (AddProgramInfo \<lparr>stream_type = vtype, elementary_pid = video_pid e\<rparr> (te_pmt e)),
                      te_video := VideoEncoder_SetStreamType vtype (VideoEncoder_SetPid (video_pid e) (te_video e)),
                      video_type := vtype\<rparr>
               else e)
      in if new_audio \<or> new_video then WritePatPmt ops e w else Inr (e, w))"

definition Encode ::
    "'a stream_writer_scheme writer_ops \<Rightarrow> 'e packet \<Rightarrow> u64 \<Rightarrow> ts_encoder \<Rightarrow>
     'a stream_writer_scheme \<Rightarrow> (int \<times> ts_encoder \<times> 'a stream_writer_scheme) res" where
  "Encode ops data dts e w =
     (if IsAudio data
      then bindE (EncodeAudio ops data dts (te_audio e) w) (\<lambda>(r, a, w). Inr (r, e\<lparr>te_audio := a\<rparr>, w))
      else if IsVideo data
      then bindE (EncodeVideo ops (IsKeyFrame data) data dts (te_video e) w) (\<lambda>(r, v, w). Inr (r, e\<lparr>te_video := v\<rparr>, w))
      else Inr (0, e, w))"

section \<open>ADTS\<close>

text \<open>The fixed fields of an ADTS header, as a decoder reads them: profile, index of the sample rate,
  channels and the length of the frame.\<close>

definition adts_fields :: "byte list \<Rightarrow> (byte \<times> byte \<times> byte \<times> u32) option" where
  "adts_fields bs =
     (case bs of [b0, b1, b2, b3, b4, b5, b6] \<Rightarrow>
        if b0 = 0xff \<and> b1 AND 0xf6 = 0xf0
        then Some (drop_bit 6 b2, drop_bit 2 b2 AND 0x0f, push_bit 2 (b2 AND 1) OR drop_bit 6 b3,
                   push_bit 11 (ucast (b3 AND 0x03)) OR push_bit 3 (ucast b4) OR ucast (drop_bit 5 b5))
        else None
      | _ \<Rightarrow> None)"

lemma profile_range: "AacObjectType2AacProfile t < 4"
  by (simp add: AacObjectType2AacProfile_def)

lemma adts_masks:
  "(x :: byte) AND 0xc0 = push_bit 6 (drop_bit 6 x)" "x AND 0x3c = push_bit 2 (take_bit 4 (drop_bit 2 x))"
  "x AND 0x01 = take_bit 1 x" "x AND 0x03 = take_bit 2 x" "x AND 0xe0 = push_bit 5 (drop_bit 5 x)" "x AND 0x0f = take_bit 4 x"
proof -
  have "x AND push_bit n (mask m) = push_bit n (take_bit m (drop_bit n x))" for n m
    by (rule bit_word_eqI) (auto simp: bit_simps)
  moreover have "take_bit 2 (drop_bit 6 x) = drop_bit 6 x" "take_bit 3 (drop_bit 5 x) = drop_bit 5 x"
    by (rule bit_word_eqI; auto simp: bit_simps dest: bit_imp_le_length; fail)+
  moreover have "(0xc0 :: byte) = push_bit 6 (mask 2)" "(0x3c :: byte) = push_bit 2 (mask 4)" "(0xe0 :: byte) = push_bit 5 (mask 3)"
    by (simp_all add: mask_numeral)
  ultimately show "x AND 0xc0 = push_bit 6 (drop_bit 6 x)" "x AND 0x3c = push_bit 2 (take_bit 4 (drop_bit 2 x))"
    "x AND 0xe0 = push_bit 5 (drop_bit 5 x)" by (simp_all only:)
qed (simp_all add: take_bit_eq_mask mask_numeral)

lemma adts_byte2:
  fixes pr ch :: byte and r :: u32
  assumes "pr < 4"
  shows "drop_bit 6 (push_bit 6 (drop_bit 6 (push_bit 6 pr)) OR push_bit 2 (take_bit 4 (drop_bit 2 (ucast (push_bit 2 r)))) OR take_bit 1 (drop_bit 2 ch)) = pr"
    and "take_bit 4 (drop_bit 2 (push_bit 6 (drop_bit 6 (push_bit 6 pr)) OR push_bit 2 (take_bit 4 (drop_bit 2 (ucast (push_bit 2 r)))) OR take_bit 1 (drop_bit 2 ch))) = ucast (take_bit 4 r)"
    and "take_bit 1 (push_bit 6 (drop_bit 6 (push_bit 6 pr)) OR push_bit 2 (take_bit 4 (drop_bit 2 (ucast (push_bit 2 r)))) OR take_bit 1 (drop_bit 2 ch)) = take_bit 1 (drop_bit 2 ch)"
proof -
  have "unat pr < 2 ^ 2" using assms by (simp add: word_less_nat_alt)
  then have "unat (take_bit 2 pr) = unat pr" by (simp add: unsigned_take_bit_eq take_bit_nat_eq_self)
  then have t: "take_bit 2 pr = pr" by (rule unsigned_word_eqI)
  have b: "k < 2" if "bit pr k" for k using that by (subst (asm) t [symmetric]) (simp add: bit_simps)
  show "drop_bit 6 (push_bit 6 (drop_bit 6 (push_bit 6 pr)) OR push_bit 2 (take_bit 4 (drop_bit 2 (ucast (push_bit 2 r)))) OR take_bit 1 (drop_bit 2 ch)) = pr"
    "take_bit 4 (drop_bit 2 (push_bit 6 (drop_bit 6 (push_bit 6 pr)) OR push_bit 2 (take_bit 4 (drop_bit 2 (ucast (push_bit 2 r)))) OR take_bit 1 (drop_bit 2 ch))) = ucast (take_bit 4 r)"
    "take_bit 1 (push_bit 6 (drop_bit 6 (push_bit 6 pr)) OR push_bit 2 (take_bit 4 (drop_bit 2 (ucast (push_bit 2 r)))) OR take_bit 1 (drop_bit 2 ch)) = take_bit 1 (drop_bit 2 ch)"
    by (rule bit_word_eqI; auto simp: bit_simps dest: b simp del: push_bit_Suc One_nat_def; fail)+
qed

lemma adts_byte3:
  fixes ch :: byte and n :: u32
  shows "drop_bit 6 (push_bit 6 (drop_bit 6 (push_bit 6 ch)) OR take_bit 2 (ucast (drop_bit 11 n))) = take_bit 2 ch"
    and "take_bit 2 (push_bit 6 (drop_bit 6 (push_bit 6 ch)) OR take_bit 2 (ucast (drop_bit 11 n))) = take_bit 2 (ucast (drop_bit 11 n) :: byte)"
    and "push_bit 2 (take_bit 1 (drop_bit 2 ch)) OR take_bit 2 ch = take_bit 3 ch"
proof -
  show "drop_bit 6 (push_bit 6 (drop_bit 6 (push_bit 6 ch)) OR take_bit 2 (ucast (drop_bit 11 n))) = take_bit 2 ch"
    "take_bit 2 (push_bit 6 (drop_bit 6 (push_bit 6 ch)) OR take_bit 2 (ucast (drop_bit 11 n))) = take_bit 2 (ucast (drop_bit 11 n) :: byte)"
    by (rule bit_word_eqI; auto simp: bit_simps simp del: push_bit_Suc One_nat_def; fail)+
  show "push_bit 2 (take_bit 1 (drop_bit 2 ch)) OR take_bit 2 ch = take_bit 3 ch"
  proof (rule bit_word_eqI, goal_cases)
    case (1 n)
    consider "n < 2" | "n = 2" | "2 < n" by linarith
    then show ?case using 1 by cases (auto simp: bit_simps simp del: push_bit_Suc One_nat_def)
  qed
qed

lemma adts_length:
  fixes n :: u32
  shows "push_bit 11 (ucast (take_bit 2 (ucast (drop_bit 11 n) :: byte))) OR push_bit 3 (ucast (ucast (drop_bit 3 n) :: byte)) OR
    ucast (drop_bit 5 (push_bit 5 (drop_bit 5 (ucast (push_bit 5 n))) OR 0x1f :: byte)) = take_bit 13 n"
proof -
  have "drop_bit 5 (push_bit 5 x OR mask 5) = (take_bit 3 x :: byte)" for x
    by (rule bit_word_eqI) (auto simp: bit_simps)
  moreover have "(0x1f :: byte) = mask 5" by (simp add: mask_numeral)
  ultimately have low: "drop_bit 5 (push_bit 5 x OR 0x1f) = (take_bit 3 x :: byte)" for x by (simp only:)
  show ?thesis unfolding low
  proof (rule bit_word_eqI, goal_cases)
    case (1 k)
    consider "k < 3" | "3 \<le> k" "k < 11" | "11 \<le> k" by linarith
    then show ?case using 1 by cases (auto simp: bit_simps simp del: push_bit_Suc One_nat_def)
  qed
qed

lemma adts_fields_header:
  "adts_fields (adts_header d n) =
    Some (AacObjectType2AacProfile (aac_object d), ucast (take_bit 4 (aac_sample_rate d)), take_bit 3 (aac_channel d),
      take_bit 13 (of_nat n))"
proof -
  have h: "(0xff :: byte) = 0xff \<and> (0xf9 :: byte) AND 0xf6 = 0xf0" by simp
  show ?thesis
    unfolding adts_fields_def adts_header_def Let_def list.case if_P [OF h] adts_masks adts_byte2 [OF profile_range]
      adts_byte3 adts_length by (rule refl)
qed

lemma packet_size_small:
  assumes "pk_size p = of_nat n" "n < 2 ^ 31"
  shows "PacketSize p = int n" "unat (scast (pk_size p) :: u64) = n"
proof -
  have "unat (of_nat n :: u32) = n" using assms(2) by (simp add: unat_of_nat take_bit_nat_eq_self)
  then show s: "PacketSize p = int n" using assms by (simp add: PacketSize_def sint_unat_small)
  have "scast (pk_size p) = (word_of_int (sint (pk_size p)) :: u64)" by simp
  also have "\<dots> = of_nat n" using s by (simp add: PacketSize_def)
  finally show "unat (scast (pk_size p) :: u64) = n" using assms(2) by (simp add: unat_of_nat take_bit_nat_eq_self)
qed

lemma not_codec_header:
  assumes "pk_data p = a # 1 # r" "pk_size p = of_nat n" "n < 2 ^ 31"
  shows "Ts_IsCodecHeader p = Inr False"
  using assms(1) by (simp add: Ts_IsCodecHeader_def packet_size_small [OF assms(2,3)])

section \<open>A frame of audio\<close>

text \<open>C24: A raw AAC tag arrives as one ADTS frame. Once a configuration is known, a tag with a frame of 1 to
  8191 bytes is encoded into packets which a receiver on the stream's PID takes for one PES packet
  of audio at time \<open>dts * 90\<close>, whose payload is an ADTS header and the frame; the header has the
  profile, sample rate and channels of the configuration. Its length field is that of header and
  frame modulo \<open>2 ^ 13\<close>: right up to 8184 bytes, and too small by 8192 above.\<close>

theorem aac_frame:
  assumes "pk_data data = h # 1 # raw @ rest" "pk_size data = of_nat (2 + length raw)" "drop_bit 4 h AND 0x0f = 10"
    and "aac_ok (ae_demux e)" "0 < length raw" "length raw \<le> 0x1fff" "ae_pid e < 0x2000"
  shows "\<exists>packets e'. EncodeAudio ops data dts e w =
        bindE (write_all ops packets (AppendTimeStamp ops dts w)) (\<lambda>w. Inr (0, e', w)) \<and>
      ae_pid e' = ae_pid e \<and> aac_ok (ae_demux e') \<and>
      (\<exists>es hdr n. es_payload (ae_pid e) (ae_cc e) True packets = Some (es, [], ae_cc e') \<and>
        read_pes es = Some (0xc0, take_bit 33 (dts * 90), None, hdr @ raw) \<and>
        adts_fields hdr = Some (AacObjectType2AacProfile (aac_object (ae_demux e)),
          ucast (take_bit 4 (aac_sample_rate (ae_demux e))), take_bit 3 (aac_channel (ae_demux e)), n) \<and>
        unat n = (7 + length raw) mod 2 ^ 13)"
proof -
  have n: "2 + length raw < 2 ^ 31" using assms(6) by simp
  let ?d = "(ae_demux e)\<lparr>sound_format := 10, sound_rate := ucast (drop_bit 2 (h AND 0xc0)),
                  sound_size := ucast (drop_bit 1 (h AND 0x02)), sound_type := ucast (h AND 0x01)\<rparr>"
  let ?e = "e\<lparr>ae_demux := ?d\<rparr>" and ?w = "AppendTimeStamp ops dts w"
  have d2: "drop 2 (h # 1 # raw @ rest) = raw @ rest" by simp
  have demux: "AudioDemux_OnDemux (pk_data data) (unat (scast (pk_size data) :: u64)) (ae_demux e) [] =
      Inr (0, ?d, [SampleBuf (raw @ rest) (length raw)])"
    using assms(1,3,4) packet_size_small(2) [OF assms(2) n]
    by (simp add: AudioDemux_OnDemux_def DemuxAAC_def d2 del: bindE_eq_Inr)
  define hdr where "hdr = adts_header ?d (7 + length raw)"
  let ?ss = "[SampleBuf hdr 7, SampleBuf (raw @ rest) (length raw)]"
  have hdr: "length hdr = 7" by (simp add: hdr_def adts_header_def Let_def)
  have ss: "list_all readable ?ss" "7 + length raw = length (sample_concat ?ss)" "sample_concat ?ss = hdr @ raw"
    using hdr by (simp_all add: readable_def SampleBuf_def sample_bytes_def)
  obtain packets c' es where pes: "pes_loop ops (AudioPes (dts * 90)) (ae_pid e) True (7 + length raw) ?ss (ae_cc e) ?w =
        bindE (write_all ops packets ?w) (\<lambda>w. Inr (c', w))"
      "es_payload (ae_pid e) (ae_cc e) True packets = Some (es, [], c')"
      "read_pes es = Some (0xc0, take_bit 33 (dts * 90), None, hdr @ raw)"
    using pes_received [OF ss(1,2) _ assms(7), of ops "AudioPes (dts * 90)" "ae_cc e" ?w] unfolding ss(3) by auto
  have "EncodeAudio ops data dts e w = EncodeAAC ops [SampleBuf (raw @ rest) (length raw)] (dts * 90) ?e ?w"
    unfolding EncodeAudio_def demux using not_codec_header [OF assms(1,2) n] by (simp del: bindE_eq_Inr)
  also have "\<dots> = bindE (write_all ops packets ?w) (\<lambda>w. Inr (0, ?e\<lparr>ae_cc := c'\<rparr>, w))"
    using assms(5,6) pes(1) by (simp add: EncodeAAC_def WriteAudioPes_def hdr_def SampleBuf_def del: bindE_eq_Inr)
  finally have out: "EncodeAudio ops data dts e w = \<dots>" .
  have f: "adts_fields hdr = Some (AacObjectType2AacProfile (aac_object (ae_demux e)),
          ucast (take_bit 4 (aac_sample_rate (ae_demux e))), take_bit 3 (aac_channel (ae_demux e)),
          take_bit 13 (of_nat (7 + length raw)))"
    unfolding hdr_def adts_fields_header by simp
  have "unat (take_bit 13 (of_nat (7 + length raw)) :: u32) = (7 + length raw) mod 2 ^ 13"
    unfolding unsigned_take_bit_eq unat_of_nat using assms(6) by (simp add: take_bit_eq_mod)
  with f show ?thesis using pes(2,3) assms(4) out
    by (intro exI [of _ packets] exI [of _ "?e\<lparr>ae_cc := c'\<rparr>"]) (auto simp del: bindE_eq_Inr)
qed

lemma aac_frame_witness:
  "\<exists>packets e'. EncodeAudio \<lparr>AppendTimeStamp = \<lambda>t w. w, WriteTs = \<lambda>b w. Inr (w @ b)\<rparr>
        \<lparr>pk_type = 2, pk_size = of_nat (2 + length [0x21, 0x10 :: byte]), pk_index = 0, pk_timestamp = 40, pk_capacity = 4,
          pk_data = 0xaf # 1 # [0x21, 0x10] @ [], pk_ext = None :: unit option\<rparr> 40
        ((AudioEncoder_new 0)\<lparr>ae_demux := (AudioDemux_new 2)\<lparr>aac_ok := True\<rparr>, ae_pid := 0x101\<rparr>) [] =
        bindE (write_all \<lparr>AppendTimeStamp = \<lambda>t w. w, WriteTs = \<lambda>b w. Inr (w @ b)\<rparr> packets []) (\<lambda>w. Inr (0, e', w)) \<and>
      ae_pid e' = 0x101 \<and> aac_ok (ae_demux e') \<and>
      (\<exists>es hdr n. es_payload 0x101 (-1) True packets = Some (es, [], ae_cc e') \<and>
        read_pes es = Some (0xc0, 3600, None, hdr @ [0x21, 0x10]) \<and>
        adts_fields hdr = Some (1, 2, 2, n) \<and> unat n = 9)"
  using aac_frame [of "\<lparr>pk_type = 2, pk_size = of_nat (2 + length [0x21, 0x10 :: byte]), pk_index = 0, pk_timestamp = 40,
      pk_capacity = 4, pk_data = 0xaf # 1 # [0x21, 0x10] @ [], pk_ext = None :: unit option\<rparr>" "0xaf" "[0x21, 0x10]" "[]"
      "(AudioEncoder_new 0)\<lparr>ae_demux := (AudioDemux_new 2)\<lparr>aac_ok := True\<rparr>, ae_pid := 0x101\<rparr>"
      "\<lparr>AppendTimeStamp = \<lambda>t w. w, WriteTs = \<lambda>b w. Inr (w @ b)\<rparr>" 40 "[]"]
  by (simp add: AudioEncoder_new_def AudioDemux_new_def AacObjectType2AacProfile_def)

section \<open>A picture\<close>

text \<open>The units of the stream for a picture: an access unit delimiter unless one has ever been seen, the
  units, and in front of the first IDR unit the parameter sets where they are to be put in.\<close>

fun insert_sets :: "byte list list \<Rightarrow> byte list list \<Rightarrow> byte list list" where
  "insert_sets sets [] = []"
| "insert_sets sets (u # us) = (if nal_type u = kNaluTypeIDR then sets @ u # us else u # insert_sets sets us)"

definition frame_units :: "video_demux \<Rightarrow> bool \<Rightarrow> byte list list \<Rightarrow> byte list list" where
  "frame_units d sets us =
     (if has_aud d then [] else [[0x09, 0xf0]]) @ (if sets then insert_sets [vd_sps d, vd_pps d] us else us)"

definition with_codes :: "byte list list \<Rightarrow> byte list" where
  "with_codes us = concat (map ((@) [0, 0, 1]) us)"

lemma with_codes_simps [simp]:
  "with_codes [] = []" "with_codes (u # us) = [0, 0, 1] @ u @ with_codes us" "with_codes (us @ vs) = with_codes us @ with_codes vs"
  by (simp_all add: with_codes_def)

text \<open>A total, a list of samples and the flag, as the encoder keeps them, stand for the units \<open>us\<close>.\<close>

definition holds_units :: "byte list list \<Rightarrow> nat \<times> sample_buf list \<times> bool \<Rightarrow> bool" where
  "holds_units us r \<longleftrightarrow> (case r of (n, ss, sc) \<Rightarrow>
     sc \<and> list_all readable ss \<and> sample_concat ss = with_codes us \<and> n = length (with_codes us))"

lemma append_unit_holds:
  assumes "holds_units us r" "readable b"
  shows "holds_units (us @ [sample_bytes b]) (append_unit b r)"
  using assms by (auto simp: holds_units_def append_unit_def AvcInsertStartCode_def readable_def SampleBuf_def
      sample_bytes_def min_def split: prod.splits)

lemma set_sample_simps: "readable (set_sample s)" "sample_bytes (set_sample s) = s"
  by (simp_all add: set_sample_def readable_def SampleBuf_def sample_bytes_def)

lemma append_sets_holds:
  assumes "holds_units us r" "vd_sps d \<noteq> []" "vd_pps d \<noteq> []" "append_sets d r w = (r', w')"
  shows "holds_units (us @ [vd_sps d, vd_pps d]) r' \<and>
    w' = SetSpsPpsAppended True (SetPPS (vd_pps d) (SetSPS (vd_sps d) w))"
proof -
  have "holds_units ((us @ [vd_sps d]) @ [vd_pps d]) (append_unit (set_sample (vd_pps d)) (append_unit (set_sample (vd_sps d)) r))"
    using append_unit_holds [OF append_unit_holds [OF assms(1) set_sample_simps(1)] set_sample_simps(1)]
    by (simp add: set_sample_simps)
  then show ?thesis using assms(2-4) by (auto simp: append_sets_def)
qed

lemma sets_once: "\<not> needs_sets d t (SetSpsPpsAppended True (SetPPS (vd_pps d) (SetSPS (vd_sps d) w)))"
  by (simp add: needs_sets_def SetSpsPpsAppended_def SetPPS_def SetSPS_def)

text \<open>Without parameter sets to put in, and with them.\<close>

lemma avc_loop_plain:
  assumes "list_all readable ls" "list_all (\<lambda>l. sample_bytes l \<noteq> []) ls" "holds_units us r"
    and "\<not> needs_sets d kNaluTypeIDR w"
  shows "\<exists>r'. avc_loop d ls r w = Inr (r', w) \<and> holds_units (us @ map sample_bytes ls) r'"
  using assms
proof (induction ls arbitrary: us r)
  case (Cons l ls)
  have l: "readable l" "sample_bytes l \<noteq> []" using Cons.prems by auto
  then have "sb_size l \<noteq> 0" "sb_addr l \<noteq> []" by (auto simp: sample_bytes_def)
  then obtain b where b: "element 0 (sb_addr l) = Inr b" by simp
  have ns: "\<not> needs_sets d (b AND 0x1f) w" using Cons.prems(4) by (auto simp: needs_sets_def)
  obtain r' where "avc_loop d ls (append_unit l r) w = Inr (r', w)"
      "holds_units ((us @ [sample_bytes l]) @ map sample_bytes ls) r'"
    using Cons.IH [OF _ _ append_unit_holds [OF Cons.prems(3) l(1)] Cons.prems(4)] Cons.prems(1,2) by auto
  then show ?case using \<open>sb_size l \<noteq> 0\<close> b ns by (simp del: bindE_eq_Inr)
qed auto

lemma avc_loop_sets:
  assumes "list_all readable ls" "list_all (\<lambda>l. sample_bytes l \<noteq> []) ls" "holds_units us r"
    and "needs_sets d kNaluTypeIDR w" "vd_sps d \<noteq> []" "vd_pps d \<noteq> []"
  shows "\<exists>r'. avc_loop d ls r w = Inr (r', if list_ex (\<lambda>u. nal_type u = kNaluTypeIDR) (map sample_bytes ls)
        then SetSpsPpsAppended True (SetPPS (vd_pps d) (SetSPS (vd_sps d) w)) else w) \<and>
    holds_units (us @ insert_sets [vd_sps d, vd_pps d] (map sample_bytes ls)) r'"
  using assms(1-3)
proof (induction ls arbitrary: us r)
  case (Cons l ls)
  have l: "readable l" "sample_bytes l \<noteq> []" using Cons.prems by auto
  then have ne: "sb_size l \<noteq> 0" "sb_addr l \<noteq> []" by (auto simp: sample_bytes_def)
  then have b: "element 0 (sb_addr l) = Inr (sb_addr l ! 0)" "nal_type (sample_bytes l) = sb_addr l ! 0 AND 0x1f"
    by (auto simp: nal_type_def sample_bytes_def)
  have rest: "list_all readable ls" "list_all (\<lambda>l. sample_bytes l \<noteq> []) ls" using Cons.prems(1,2) by auto
  show ?case
  proof (cases "nal_type (sample_bytes l) = kNaluTypeIDR")
    case False
    then have ns: "\<not> needs_sets d (sb_addr l ! 0 AND 0x1f) w" using b(2) by (auto simp: needs_sets_def)
    obtain r' where "avc_loop d ls (append_unit l r) w = Inr (r', if list_ex (\<lambda>u. nal_type u = kNaluTypeIDR) (map sample_bytes ls)
        then SetSpsPpsAppended True (SetPPS (vd_pps d) (SetSPS (vd_sps d) w)) else w)"
        "holds_units ((us @ [sample_bytes l]) @ insert_sets [vd_sps d, vd_pps d] (map sample_bytes ls)) r'"
      using Cons.IH [OF rest append_unit_holds [OF Cons.prems(3) l(1)]] by blast
    then show ?thesis using ne b(1) ns False by (simp del: bindE_eq_Inr)
  next
    case True
    obtain r1 w1 where s: "append_sets d r w = (r1, w1)" by fastforce
    note s' = append_sets_holds [OF Cons.prems(3) assms(5,6) s]
    have "needs_sets d (sb_addr l ! 0 AND 0x1f) w" using True b(2) assms(4) by simp
    moreover obtain r' where "avc_loop d ls (append_unit l r1) w1 = Inr (r', w1)"
        "holds_units (((us @ [vd_sps d, vd_pps d]) @ [sample_bytes l]) @ map sample_bytes ls) r'"
      using avc_loop_plain [OF rest append_unit_holds [OF conjunct1 [OF s'] l(1)], where w = w1 and d = d] s' sets_once [of d kNaluTypeIDR w] by blast
    ultimately show ?thesis using ne b(1) s s' True by (simp del: bindE_eq_Inr)
  qed
qed auto

lemma holds_units_start: "holds_units [] (0, [], True)"
  by (simp add: holds_units_def)

lemma holds_units_aud: "holds_units [[0x09, 0xf0]] (append_unit default_aud_buf (0, [], True))"
  by (simp add: holds_units_def append_unit_def AvcInsertStartCode_def default_aud_buf_def SampleBuf_def sample_bytes_def
      readable_def with_codes_def)

lemma avc_loop_frame:
  assumes "list_all readable ls" "map sample_bytes ls = us" "list_all (\<lambda>u. u \<noteq> []) us" "vd_sps d \<noteq> []" "vd_pps d \<noteq> []"
  shows "\<exists>n ss. avc_loop d ls (if \<not> has_aud d then append_unit default_aud_buf (0, [], True) else (0, [], True)) w =
      Inr ((n, ss, True), if needs_sets d kNaluTypeIDR w \<and> list_ex (\<lambda>u. nal_type u = kNaluTypeIDR) us
        then SetSpsPpsAppended True (SetPPS (vd_pps d) (SetSPS (vd_sps d) w)) else w) \<and>
    list_all readable ss \<and> n = length (sample_concat ss) \<and>
    sample_concat ss = with_codes (frame_units d (needs_sets d kNaluTypeIDR w) us)"
proof -
  let ?r = "if \<not> has_aud d then append_unit default_aud_buf (0, [], True) else (0, [], True)"
  have r: "holds_units (if has_aud d then [] else [[0x09, 0xf0]]) ?r"
    using holds_units_start holds_units_aud by simp
  have ne: "list_all (\<lambda>l. sample_bytes l \<noteq> []) ls" using assms(2,3) by (auto simp: list_all_iff)
  have "\<exists>r'. avc_loop d ls ?r w =
      Inr (r', if needs_sets d kNaluTypeIDR w \<and> list_ex (\<lambda>u. nal_type u = kNaluTypeIDR) us
        then SetSpsPpsAppended True (SetPPS (vd_pps d) (SetSPS (vd_sps d) w)) else w) \<and>
      holds_units (frame_units d (needs_sets d kNaluTypeIDR w) us) r'"
  proof (cases "needs_sets d kNaluTypeIDR w")
    case True
    show ?thesis using avc_loop_sets [OF assms(1) ne r True assms(4,5)] unfolding assms(2) by (simp add: True frame_units_def)
  next
    case False
    show ?thesis using avc_loop_plain [OF assms(1) ne r False] unfolding assms(2) by (simp add: False frame_units_def)
  qed
  then show ?thesis by (fastforce simp: holds_units_def)
qed

lemma frame_nonempty: "us \<noteq> [] \<Longrightarrow> 0 < length (with_codes (frame_units d b us))"
  by (cases us) (auto simp: frame_units_def)

lemma cts_positive:
  assumes "cst < 2 ^ 24"
  shows "0 < sint cst \<longleftrightarrow> cst \<noteq> 0" "scast (cst * 90 :: u32) = (ucast cst * 90 :: u64)"
proof -
  have n: "unat cst < 2 ^ 24" using assms by (simp add: word_less_nat_alt)
  then have "sint cst = int (unat cst)" by (simp add: sint_unat_small)
  then show "0 < sint cst \<longleftrightarrow> cst \<noteq> 0" by (simp only: of_nat_0_less_iff unat_gt_0)
  have "unat (cst * 90) = unat cst * 90" using n by (subst unat_word_ariths) simp
  then have "sint (cst * 90) = int (unat cst * 90)" using n by (subst sint_unat_small) simp_all
  then have "scast (cst * 90) = (of_nat (unat cst * 90) :: u64)" by (metis of_int_of_nat_eq of_int_sint)
  then show "scast (cst * 90 :: u32) = (ucast cst * 90 :: u64)" by simp
qed

text \<open>C23: A picture arrives whole, with its times and the parameter sets. An AVC tag of units with lengths in
  front is encoded, once both parameter sets are known, into packets which a receiver on the stream's
  PID takes for one PES packet of video, whose payload is the units behind start codes: first an
  access unit delimiter unless the stream has ever brought one, and in front of the first IDR unit
  the two parameter sets, unless the stream has ever brought its own or the writer has them already.
  The decoding time is \<open>dts * 90\<close> and the presentation time \<open>(dts + cst) * 90\<close> with the tag's
  composition time as an unsigned number; a key frame has the clock reference. The writer is told the
  time stamp first and remembers the sets put in.\<close>

theorem video_frame:
  assumes "pk_data data = avc_tag h 1 cst (units @ rest)" "pk_size data = of_nat (5 + length units)" "5 + length units < 2 ^ 31"
    and "avc_frame h" "cst < 2 ^ 24" "payload_format (ve_demux e) \<noteq> kPayloadFormatAnnexB" "us \<noteq> []" "list_all nal_ok us"
    and "list_all (unit_fits (nalu_unit_length (ve_demux e))) us"
    and "units = concat (map (avcc_unit (nalu_unit_length (ve_demux e))) us)"
    and "vd_sps (ve_demux e) \<noteq> []" "vd_pps (ve_demux e) \<noteq> []" "ve_pid e < 0x2000"
    and "d = mark us (ve_demux e)" "w1 = AppendTimeStamp ops dts w" "sets = needs_sets d kNaluTypeIDR w1"
    and "w2 = (if sets \<and> list_ex (\<lambda>u. nal_type u = kNaluTypeIDR) us
               then SetSpsPpsAppended True (SetPPS (vd_pps d) (SetSPS (vd_sps d) w1)) else w1)"
  shows "\<exists>packets e'. EncodeVideo ops key data dts e w = bindE (write_all ops packets w2) (\<lambda>w. Inr (0, e', w)) \<and>
    ve_pid e' = ve_pid e \<and>
    ve_demux e' = d\<lparr>vd_codec_id := kVideoCodecIDAVC, composition_time := cst, payload_format := kPayloadFormatAvcc\<rparr> \<and>
    (\<exists>es. es_payload (ve_pid e) (ve_cc e) True packets =
        Some (es, if key then [take_bit 33 ((dts + ucast cst) * 90)] else [], ve_cc e') \<and>
      read_pes es = Some (0xe0, take_bit 33 ((dts + ucast cst) * 90),
        if cst \<noteq> 0 then Some (take_bit 33 (dts * 90)) else None, with_codes (frame_units d sets us)))"
proof -
  let ?d = "d\<lparr>vd_codec_id := kVideoCodecIDAVC, composition_time := cst, payload_format := kPayloadFormatAvcc\<rparr>"
  let ?e = "e\<lparr>ve_demux := ?d\<rparr>" and ?ls = "avcc_samples (nalu_unit_length (ve_demux e)) us rest"
  let ?pts = "(dts + ucast cst) * 90 :: u64"
  have demux: "VideoDemux_OnDemux (pk_data data) (unat (scast (pk_size data) :: u64)) (ve_demux e) [] = Inr (0, ?d, ?ls)"
    unfolding assms(1,14) packet_size_small(2) [OF assms(2,3)]
    using avc_tag_samples [OF assms(4-6,8-10), of rest "[]"] by simp
  have same: "needs_sets ?d t v = needs_sets d t v" "has_aud ?d = has_aud d" "vd_sps ?d = vd_sps d" "vd_pps ?d = vd_pps d"
      "frame_units ?d b us = frame_units d b us" "vd_sps d \<noteq> []" "vd_pps d \<noteq> []" for t v b
    using assms(11,12) by (simp_all add: needs_sets_def frame_units_def assms(14) mark_def)
  have ls: "list_all readable ?ls" "map sample_bytes ?ls = us" "list_all (\<lambda>u. u \<noteq> []) us"
    using avcc_samples_inside [of "nalu_unit_length (ve_demux e)" us rest] avcc_samples_bytes assms(8)
    by (auto simp: readable_def list_all_iff nal_ok_def)
  obtain n ss where loop: "avc_loop ?d ?ls (if \<not> has_aud d then append_unit default_aud_buf (0, [], True) else (0, [], True)) w1 =
        Inr ((n, ss, True), w2)" "list_all readable ss" "n = length (sample_concat ss)"
      "sample_concat ss = with_codes (frame_units d sets us)"
    using avc_loop_frame [OF ls, of ?d w1] unfolding same assms(16,17) using same(6,7) by auto
  have n: "0 < n" using loop(3,4) frame_nonempty [OF assms(7)] by simp
  have pts: "(if 0 < sint cst then dts * 90 + scast (cst * 90) else dts * 90) = ?pts"
    using cts_positive [OF assms(5)] by (auto simp: distrib_right)
  have differ: "?pts \<noteq> dts * 90 \<longleftrightarrow> cst \<noteq> 0"
  proof -
    have "unat (ucast cst * 90 :: u64) = unat cst * 90"
      using assms(5) by (subst unat_word_ariths) (simp add: word_less_nat_alt unsigned_ucast_eq take_bit_nat_eq_self)
    then have "ucast cst * 90 = (0 :: u64) \<longleftrightarrow> cst = 0" by (metis mult_eq_0_iff unat_eq_zero zero_neq_numeral)
    then show ?thesis by (simp add: distrib_right)
  qed
  obtain packets c' es where pes: "pes_loop ops (VideoPes ?pts (dts * 90) key) (ve_pid e) True n ss (ve_cc e) w2 =
        bindE (write_all ops packets w2) (\<lambda>w. Inr (c', w))"
      "es_payload (ve_pid e) (ve_cc e) True packets = Some (es, clock (VideoPes ?pts (dts * 90) key), c')"
      "read_pes es = Some (0xe0, take_bit 33 ?pts, if cst \<noteq> 0 then Some (take_bit 33 (dts * 90)) else None,
        with_codes (frame_units d sets us))"
    using pes_received [OF loop(2,3) n assms(13), of ops "VideoPes ?pts (dts * 90) key" "ve_cc e" w2]
    unfolding loop(4) pes.case differ by blast
  have "Ts_IsCodecHeader data = Inr False"
    using not_codec_header [OF _ assms(2,3)] assms(1) by (simp add: avc_tag_def)
  then have "EncodeVideo ops key data dts e w = EncodeAvc ops ?ls key (dts * 90) ?e w1"
    unfolding EncodeVideo_def demux assms(15) by (simp del: bindE_eq_Inr)
  also have "\<dots> = bindE (write_all ops packets w2) (\<lambda>w. Inr (0, ?e\<lparr>ve_cc := c'\<rparr>, w))"
  proof -
    have f: "ve_demux ?e = ?d" "ve_pid ?e = ve_pid e" "ve_cc ?e = ve_cc e" "composition_time ?d = cst" by simp_all
    show ?thesis unfolding EncodeAvc_def Let_def f same(2) loop(1) bindE.simps prod.case pts WriteVideoPes_def pes(1)
      by (simp only: bindE_assoc bindE.simps prod.case)
  qed
  finally have out: "EncodeVideo ops key data dts e w = \<dots>" .
  have "clock (VideoPes ?pts (dts * 90) key) = (if key then [take_bit 33 ?pts] else [])" by (cases key) auto
  then show ?thesis using pes(2,3) out
    by (intro exI [of _ packets] exI [of _ "?e\<lparr>ve_cc := c'\<rparr>"]) simp
qed

lemma video_frame_witness:
  "\<exists>packets e'. EncodeVideo \<lparr>AppendTimeStamp = \<lambda>t w. w, WriteTs = \<lambda>b w. Inr w\<rparr> True
        \<lparr>pk_type = 17, pk_size = of_nat (5 + length [0, 0, 0, 4, 0x65, 0x88, 0x84, 0xff :: byte]), pk_index = 0, pk_timestamp = 40,
          pk_capacity = 13, pk_data = avc_tag 0x17 1 80 ([0, 0, 0, 4, 0x65, 0x88, 0x84, 0xff] @ []), pk_ext = None :: unit option\<rparr> 40
        ((VideoEncoder_new 0)\<lparr>ve_pid := 0x100, ve_demux := (VideoDemux_new 0)
          \<lparr>nalu_unit_length := 3, vd_sps := [0x67, 0x64], vd_pps := [0x68]\<rparr>\<rparr>)
        \<lparr>sw_sps = [], sw_pps = [], sw_appended = False\<rparr> =
      bindE (write_all \<lparr>AppendTimeStamp = \<lambda>t w. w, WriteTs = \<lambda>b w. Inr w\<rparr> packets
        \<lparr>sw_sps = [0x67, 0x64], sw_pps = [0x68], sw_appended = True\<rparr>) (\<lambda>w. Inr (0, e', w)) \<and>
    (\<exists>es. es_payload 0x100 (-1) True packets = Some (es, [10800], ve_cc e') \<and>
      read_pes es = Some (0xe0, 10800, Some 3600,
        with_codes [[0x09, 0xf0], [0x67, 0x64], [0x68], [0x65, 0x88, 0x84, 0xff]]))"
proof -
  let ?d = "(VideoDemux_new 0)\<lparr>nalu_unit_length := 3, vd_sps := [0x67, 0x64], vd_pps := [0x68]\<rparr>"
  let ?e = "(VideoEncoder_new 0)\<lparr>ve_pid := 0x100, ve_demux := ?d\<rparr>"
  let ?w = "\<lparr>sw_sps = [], sw_pps = [], sw_appended = False\<rparr> :: stream_writer"
  let ?ops = "\<lparr>AppendTimeStamp = \<lambda>t w. w, WriteTs = \<lambda>b w. Inr w\<rparr> :: stream_writer writer_ops"
  let ?us = "[[0x65, 0x88, 0x84, 0xff]] :: byte list list"
  have slice: "closed_end 1 1 [0x88, 0x84, 0xff] \<and> slice_type [0x65, 0x88, 0x84, 0xff] = Some 7" by code_simp
  have t: "nal_type [0x65, 0x88, 0x84, 0xff] = 5" by (simp add: nal_type_def)
  have d: "mark ?us ?d = ?d\<lparr>has_idr := True\<rparr>"
    using slice t by (simp add: mark_def VideoDemux_new_def b_slice_def)
  have hyps: "list_all nal_ok ?us" "list_all (unit_fits (nalu_unit_length (ve_demux ?e))) ?us"
      "[0, 0, 0, 4, 0x65, 0x88, 0x84, 0xff] = concat (map (avcc_unit (nalu_unit_length (ve_demux ?e))) ?us)"
    using slice by (simp_all add: nal_ok_def unit_fits_def avcc_unit_def WriteUint32T_def VideoDemux_new_def)
  have u: "frame_units (?d\<lparr>has_idr := True\<rparr>) (needs_sets (?d\<lparr>has_idr := True\<rparr>) kNaluTypeIDR ?w) ?us =
      [[0x09, 0xf0], [0x67, 0x64], [0x68], [0x65, 0x88, 0x84, 0xff]]"
    and ns: "needs_sets (?d\<lparr>has_idr := True\<rparr>) kNaluTypeIDR ?w"
    using t by (simp_all add: needs_sets_def frame_units_def VideoDemux_new_def)
  have "\<exists>packets e'. EncodeVideo ?ops True
        \<lparr>pk_type = 17, pk_size = of_nat (5 + length [0, 0, 0, 4, 0x65, 0x88, 0x84, 0xff :: byte]), pk_index = 0, pk_timestamp = 40,
          pk_capacity = 13, pk_data = avc_tag 0x17 1 80 ([0, 0, 0, 4, 0x65, 0x88, 0x84, 0xff] @ []), pk_ext = None :: unit option\<rparr> 40 ?e ?w =
      bindE (write_all ?ops packets
        (if needs_sets (?d\<lparr>has_idr := True\<rparr>) kNaluTypeIDR ?w \<and> list_ex (\<lambda>u. nal_type u = kNaluTypeIDR) ?us
               then SetSpsPpsAppended True (SetPPS (vd_pps (?d\<lparr>has_idr := True\<rparr>)) (SetSPS (vd_sps (?d\<lparr>has_idr := True\<rparr>)) ?w)) else ?w))
        (\<lambda>w. Inr (0, e', w)) \<and> ve_pid e' = ve_pid ?e \<and>
      ve_demux e' = (?d\<lparr>has_idr := True\<rparr>)\<lparr>vd_codec_id := kVideoCodecIDAVC, composition_time := 80, payload_format := kPayloadFormatAvcc\<rparr> \<and>
    (\<exists>es. es_payload (ve_pid ?e) (ve_cc ?e) True packets =
        Some (es, if True then [take_bit 33 ((40 + ucast (80 :: u32)) * 90)] else [], ve_cc e') \<and>
      read_pes es = Some (0xe0, take_bit 33 ((40 + ucast (80 :: u32)) * 90),
        if (80 :: u32) \<noteq> 0 then Some (take_bit 33 (40 * 90)) else None,
        with_codes (frame_units (?d\<lparr>has_idr := True\<rparr>) (needs_sets (?d\<lparr>has_idr := True\<rparr>) kNaluTypeIDR ?w) ?us)))"
    by (rule video_frame [where h = "0x17" and cst = 80 and us = ?us and units = "[0, 0, 0, 4, 0x65, 0x88, 0x84, 0xff]"
          and rest = "[]" and sets = "needs_sets (?d\<lparr>has_idr := True\<rparr>) kNaluTypeIDR ?w", OF _ _ _ _ _ _ _ hyps])
      (simp_all add: avc_frame_def VideoEncoder_new_def d, simp_all add: VideoDemux_new_def)
  then show ?thesis unfolding u using ns t
    by (auto simp: SetSpsPpsAppended_def SetPPS_def SetSPS_def VideoDemux_new_def VideoEncoder_new_def simp del: with_codes_simps)
qed

section \<open>Announcing the streams\<close>

lemma WritePat_received:
  assumes "own_table tbl" "pid w < 0x2000" "version w < 32"
  shows "\<exists>packets w' tbl'. WritePat w tbl = Inr (packets, w', tbl') \<and> own_table tbl' \<and>
    receive_section (pid w) (cc w) packets =
      Some ((table_id w, 1, version w, 0, 0, WriteUint16T 1 @ WriteUint16T (0xE000 OR 0x1001)), cc w')"
  using WriteSection_received [OF _ assms, of "WriteUint16T 1 @ WriteUint16T (0xE000 OR 0x1001)" 1 0 0]
  by (auto simp: WritePat_def)

lemma WritePmt_received:
  assumes "own_table tbl" "pid (pmt_psi m) < 0x2000" "version (pmt_psi m) < 32" "length (pmt_body m) \<le> 1012"
  shows "\<exists>packets m' tbl'. WritePmt m tbl = Inr (packets, m', tbl') \<and> own_table tbl' \<and>
    receive_section (pid (pmt_psi m)) (cc (pmt_psi m)) packets =
      Some ((table_id (pmt_psi m), 1, version (pmt_psi m), 0, 0, pmt_body m), cc (pmt_psi m'))"
  using WriteSection_received [OF assms(4,1-3), of 1 0 0] assms(4) by (auto simp: WritePmt_def)

text \<open>The tables are written once both kinds of stream are known, and never for one kind alone. A fresh
  encoder that is told of an audio stream only, or of an AVC stream only, writes nothing; told of AAC
  after AVC, it writes a program association table naming one program on PID 0x1001 and a program map
  with the AVC stream on PID 0x100, which also carries the clock, and the AAC stream on 0x101; a
  receiver of sections accepts both tables.\<close>

theorem tables_announced:
  assumes "own_table tbl" "e = TsEncoder_new g tbl"
  shows "(\<exists>e1. SetStreamType ops 0 ac e w = Inr (e1, w)) \<and>
    (\<exists>e1 pat pmt e2 c1 c2. SetStreamType ops kVideoCodecIDAVC 0 e w = Inr (e1, w) \<and>
      SetStreamType ops 0 kAudioCodecIDAAC e1 w =
        bindE (write_all ops pat w) (\<lambda>w. bindE (write_all ops pmt w) (\<lambda>w. Inr (e2, w))) \<and>
      receive_section 0 (-1) pat = Some ((0, 1, 0, 0, 0, [0, 1, 0xf0, 1]), c1) \<and>
      receive_section 0x1001 (-1) pmt = Some ((2, 1, 0, 0, 0,
        [0xe1, 0, 0xf0, 0] @ [0x1b, 0xe1, 0, 0xf0, 0] @ [0x0f, 0xe1, 1, 0xf0, 0]), c2))"
proof -
  let ?audio = "SetStreamType ops 0 ac e w"
  have audio: "\<exists>e1. ?audio = Inr (e1, w)"
    by (auto simp: SetStreamType_def assms(2) TsEncoder_new_def WritePatPmt_def Let_def)
  let ?pmt1 = "SetPcrPid 0x100 (AddProgramInfo \<lparr>stream_type = 0x1b, elementary_pid = 0x100\<rparr> PmtWriter)"
  let ?pmt2 = "AddProgramInfo \<lparr>stream_type = 0x0f, elementary_pid = 0x101\<rparr> ?pmt1"
  let ?e1 = "e\<lparr>te_pmt := ?pmt1, te_video := VideoEncoder_SetStreamType 0x1b (VideoEncoder_SetPid 0x100 (te_video e)),
    video_type := 0x1b, video_pid := 0x100\<rparr>"
  let ?e2 = "?e1\<lparr>te_pmt := ?pmt2, te_audio := AudioEncoder_SetStreamType 0x0f (AudioEncoder_SetPid 0x101 (te_audio e)),
    audio_type := 0x0f, audio_pid := 0x101\<rparr>"
  have one: "SetStreamType ops kVideoCodecIDAVC 0 e w = Inr (?e1, w)"
    by (simp add: SetStreamType_def assms(2) TsEncoder_new_def WritePatPmt_def Let_def)
  have two: "SetStreamType ops 0 kAudioCodecIDAAC ?e1 w = WritePatPmt ops ?e2 w"
    by (simp add: SetStreamType_def assms(2) TsEncoder_new_def Let_def)
  have f: "te_pat ?e2 = PatWriter" "te_pmt ?e2 = ?pmt2" "crc_table ?e2 = tbl" "audio_pid ?e2 = 0x101" "video_pid ?e2 = 0x100"
    by (simp_all add: assms(2) TsEncoder_new_def)
  obtain pat w' tbl' where pat: "WritePat PatWriter tbl = Inr (pat, w', tbl')" "own_table tbl'"
      "receive_section 0 (-1) pat = Some ((0, 1, 0, 0, 0, [0, 1, 0xf0, 1]), cc w')"
    using WritePat_received [OF assms(1), of PatWriter] by (auto simp: PatWriter_def WriteUint16T_def)
  have body: "pmt_body ?pmt2 = [0xe1, 0, 0xf0, 0] @ [0x1b, 0xe1, 0, 0xf0, 0] @ [0x0f, 0xe1, 1, 0xf0, 0]"
    by (simp add: pmt_body_def AddProgramInfo_def SetPcrPid_def PmtWriter_def WriteUint16T_def)
  have psi: "pmt_psi ?pmt2 = \<lparr>cc = -1, pid = 0x1001, table_id = 2, version = 0\<rparr>"
    by (simp add: AddProgramInfo_def SetPcrPid_def PmtWriter_def)
  obtain pmt m' tbl2 where pmt: "WritePmt ?pmt2 tbl' = Inr (pmt, m', tbl2)"
      "receive_section 0x1001 (-1) pmt = Some ((2, 1, 0, 0, 0, pmt_body ?pmt2), cc (pmt_psi m'))"
    using WritePmt_received [OF pat(2), of ?pmt2] unfolding psi body by auto
  have "WritePatPmt ops ?e2 w = bindE (write_all ops pat w) (\<lambda>w. bindE (write_all ops pmt w)
      (\<lambda>w. Inr (?e2\<lparr>te_pat := w', te_pmt := m', crc_table := tbl2\<rparr>, w)))"
    unfolding WritePatPmt_def f pat(1) by (simp add: pmt(1) del: bindE_eq_Inr)
  then have t: "SetStreamType ops 0 kAudioCodecIDAAC ?e1 w = bindE (write_all ops pat w) (\<lambda>w. bindE (write_all ops pmt w)
      (\<lambda>w. Inr (?e2\<lparr>te_pat := w', te_pmt := m', crc_table := tbl2\<rparr>, w)))" by (rule trans [OF two])
  show ?thesis
    by (rule conjI, rule audio, rule exI [of _ ?e1], rule exI [of _ pat], rule exI [of _ pmt], rule exI, rule exI, rule exI,
        rule conjI, rule one, rule conjI, rule t, rule conjI, rule pat(3), rule pmt(2) [unfolded body])
qed

lemma tables_announced_witness:
  "(\<exists>e1. SetStreamType \<lparr>AppendTimeStamp = \<lambda>t w. w, WriteTs = \<lambda>b w. Inr (w @ b)\<rparr> 0 2 (TsEncoder_new 0 None) [] = Inr (e1, [])) \<and>
    (\<exists>e1 pat pmt e2 c1 c2. SetStreamType \<lparr>AppendTimeStamp = \<lambda>t w. w, WriteTs = \<lambda>b w. Inr (w @ b)\<rparr> kVideoCodecIDAVC 0
        (TsEncoder_new 0 None) [] = Inr (e1, []) \<and>
      SetStreamType \<lparr>AppendTimeStamp = \<lambda>t w. w, WriteTs = \<lambda>b w. Inr (w @ b)\<rparr> 0 kAudioCodecIDAAC e1 [] =
        bindE (write_all \<lparr>AppendTimeStamp = \<lambda>t w. w, WriteTs = \<lambda>b w. Inr (w @ b)\<rparr> pat []) (\<lambda>w.
          bindE (write_all \<lparr>AppendTimeStamp = \<lambda>t w. w, WriteTs = \<lambda>b w. Inr (w @ b)\<rparr> pmt w) (\<lambda>w. Inr (e2, w))) \<and>
      receive_section 0 (-1) pat = Some ((0, 1, 0, 0, 0, [0, 1, 0xf0, 1]), c1) \<and>
      receive_section 0x1001 (-1) pmt = Some ((2, 1, 0, 0, 0,
        [0xe1, 0, 0xf0, 0] @ [0x1b, 0xe1, 0, 0xf0, 0] @ [0x0f, 0xe1, 1, 0xf0, 0]), c2))"
  by (rule tables_announced) (simp_all add: own_table_def)

text \<open>Once a stream has brought parameter sets of its own, none are ever put in again, whoever the writer.\<close>

lemma sets_never_again: "has_sps_pps d \<Longrightarrow> \<not> needs_sets (mark us d) t w"
  by (simp add: needs_sets_def mark_def)

section \<open>What the encoder does to its writer\<close>

text \<open>Every packet handed to the writer has 188 bytes.\<close>

abbreviation ts_sized :: "byte list list \<Rightarrow> bool" where
  "ts_sized packets \<equiv> list_all (\<lambda>k. length k = 188) packets"

lemma copy_samples_length:
  "copy_samples slen ss buf = Inr (buf', ss') \<Longrightarrow> length buf = 188 \<Longrightarrow> slen \<le> 188 \<Longrightarrow> length buf' = 188"
proof (induction slen ss buf arbitrary: buf' rule: copy_samples.induct)
  case (2 slen s ss buf)
  show ?case
  proof (cases "sb_size s \<le> slen \<and> slen \<noteq> 0")
    case True
    then obtain bs where bs: "mem_read (sb_size s) (sb_addr s) = Inr bs"
        "copy_samples (slen - sb_size s) ss (overwrite (188 - slen) bs buf) = Inr (buf', ss')"
      using "2.prems"(1) by auto
    have "length bs = sb_size s" using bs(1) by (auto simp: mem_read_eq_Inr)
    with True "2.prems" show ?thesis using "2.IH" [OF _ _ bs(1) bs(2)] by auto
  next
    case False
    then show ?thesis using "2.prems" by (auto simp: mem_read_eq_Inr split: if_splits)
  qed
qed simp

lemma push_loop_sized: "push_loop w first buf = (w', packets) \<Longrightarrow> ts_sized packets"
proof (induction w first buf arbitrary: w' packets rule: push_loop.induct)
  case (1 w first buf)
  show ?case
  proof (cases "buf = []")
    case True
    with "1.prems" show ?thesis by (subst (asm) push_loop.simps) simp
  next
    case False
    define v where "v = w\<lparr>cc := (cc w + 1) AND 0x0F\<rparr>"
    define k where "k = min (188 - length (psi_header v first)) (length buf)"
    obtain u ks where rest: "push_loop v False (drop k buf) = (u, ks)" by fastforce
    have "ts_sized ks" using "1.IH" [OF False v_def refl refl refl] rest by (simp add: k_def)
    moreover have "packets = (psi_header v first @ take k buf @ replicate (188 - length (psi_header v first) - k) 0xFF) # ks"
      using "1.prems" False rest by (subst (asm) push_loop.simps) (simp add: Let_def k_def v_def)
    ultimately show ?thesis by (simp add: k_def length_psi_header)
  qed
qed

lemma WriteSection_sized: "WriteSection ident sn ls buf w tbl = Inr (packets, w', tbl') \<Longrightarrow> ts_sized packets"
  by (auto simp: WriteSection_def PushSection_def Let_def split: if_splits prod.splits dest: push_loop_sized)

lemma WritePat_sized: "WritePat w tbl = Inr (packets, w', tbl') \<Longrightarrow> ts_sized packets"
  by (auto simp: WritePat_def dest: WriteSection_sized)

lemma WritePmt_sized: "WritePmt m tbl = Inr (packets, m', tbl') \<Longrightarrow> ts_sized packets"
  by (auto simp: WritePmt_def split: if_splits dest: WriteSection_sized)

text \<open>The contract of a writer: whole packets are appended to its contents, and nothing else changes them.\<close>

locale ts_writer =
  fixes ops :: "'a stream_writer_scheme writer_ops"
    and ok :: "'a stream_writer_scheme \<Rightarrow> bool"
    and contents :: "'a stream_writer_scheme \<Rightarrow> byte list"
  assumes stamp: "ok w \<Longrightarrow> ok (AppendTimeStamp ops t w) \<and> contents (AppendTimeStamp ops t w) = contents w"
    and written: "ok w \<Longrightarrow> length b = 188 \<Longrightarrow> WriteTs ops b w = Inr w' \<Longrightarrow> ok w' \<and> contents w' = contents w @ b"
    and sets: "ok w \<Longrightarrow> ok (SetSPS s w) \<and> contents (SetSPS s w) = contents w"
      "ok w \<Longrightarrow> ok (SetPPS s w) \<and> contents (SetPPS s w) = contents w"
      "ok w \<Longrightarrow> ok (SetSpsPpsAppended a w) \<and> contents (SetSpsPpsAppended a w) = contents w"
begin

definition appended :: "'a stream_writer_scheme \<Rightarrow> 'a stream_writer_scheme \<Rightarrow> bool" where
  "appended w w' \<longleftrightarrow> (ok w \<longrightarrow> ok w' \<and> (\<exists>packets. ts_sized packets \<and> contents w' = contents w @ concat packets))"

lemma appended_refl [simp]: "appended w w"
  by (auto simp: appended_def intro: exI [of _ "[]"])

lemma appended_trans: "appended u v \<Longrightarrow> appended v w \<Longrightarrow> appended u w"
proof (unfold appended_def, intro impI)
  assume uv: "ok u \<longrightarrow> ok v \<and> (\<exists>packets. ts_sized packets \<and> contents v = contents u @ concat packets)"
    and vw: "ok v \<longrightarrow> ok w \<and> (\<exists>packets. ts_sized packets \<and> contents w = contents v @ concat packets)" and "ok u"
  then obtain p q where "ts_sized p" "contents v = contents u @ concat p" "ts_sized q" "contents w = contents v @ concat q" "ok w"
    by blast
  then show "ok w \<and> (\<exists>packets. ts_sized packets \<and> contents w = contents u @ concat packets)"
    by (intro conjI exI [of _ "p @ q"]) simp_all
qed

lemma appended_calls:
  "appended w (AppendTimeStamp ops t w)" "appended w (SetSPS s w)" "appended w (SetPPS s w)"
  "appended w (SetSpsPpsAppended b w)"
  using stamp sets by (auto simp: appended_def intro: exI [of _ "[]"])

lemma append_sets_appended: "appended w (snd (append_sets d r w))"
proof -
  have "appended w (SetSpsPpsAppended True w)" "appended w (SetSpsPpsAppended True (SetSPS s w))"
    "appended w (SetSpsPpsAppended True (SetPPS q w))" "appended w (SetSpsPpsAppended True (SetPPS q (SetSPS s w)))" for s q
    by (meson appended_calls appended_trans)+
  then show ?thesis by (auto simp: append_sets_def Let_def)
qed

lemma appended_write: "WriteTs ops b w = Inr w' \<Longrightarrow> length b = 188 \<Longrightarrow> appended w w'"
  using written unfolding appended_def by (auto intro!: exI [of _ "[b]"])

lemma write_all_appended: "write_all ops packets w = Inr w' \<Longrightarrow> ts_sized packets \<Longrightarrow> appended w w'"
proof (induction packets arbitrary: w)
  case (Cons b bs)
  then obtain v where "WriteTs ops b w = Inr v" "write_all ops bs v = Inr w'" by auto
  with Cons show ?case by (auto intro: appended_trans [OF appended_write])
qed simp

lemma pes_loop_appended: "pes_loop ops k p st n ss c w = Inr (c', w') \<Longrightarrow> appended w w'"
proof (induction n arbitrary: st ss c w rule: less_induct)
  case (less n)
  show ?case
  proof (cases "0 < n \<and> ss \<noteq> []")
    case False
    then show ?thesis using less.prems by (subst (asm) pes_loop.simps) (simp add: split: if_splits)
  next
    case True
    let ?c = "(c + 1) AND 0xf"
    define hdr where "hdr = packet_header k p st ?c n"
    define len where "len = payload_room hdr n"
    define s where "s = 188 - length hdr - len"
    have h: "length hdr \<le> 31" unfolding hdr_def by (rule length_packet_header)
    have len: "0 < len" "length hdr + len \<le> 188" using h True by (auto simp: len_def payload_room_def)
    then have s: "length hdr + s \<le> 188" by (simp add: s_def)
    let ?buf = "stuff (length hdr) s (hdr @ replicate (188 - length hdr) 0)"
    have b: "length ?buf = 188" using stuff_packet [OF hdr_def s] s by simp
    have "bindE (copy_samples len ss ?buf) (\<lambda>(buf, result).
        bindE (WriteTs ops buf w) (\<lambda>w. pes_loop ops k p False (n - len) result ?c w)) = Inr (c', w')"
      using less.prems True
      by (subst (asm) pes_loop.simps) (simp only: if_True simp_thms Let_def hdr_def [symmetric] len_def [symmetric] s_def [symmetric])
    then obtain buf ss' v where r: "copy_samples len ss ?buf = Inr (buf, ss')" "WriteTs ops buf w = Inr v"
        "pes_loop ops k p False (n - len) ss' ?c v = Inr (c', w')" by auto
    have "length buf = 188" using copy_samples_length [OF r(1) b] len by simp
    then have "appended w v" by (rule appended_write [OF r(2)])
    moreover have "appended v w'" using less.IH [OF _ r(3)] len True by simp
    ultimately show ?thesis by (rule appended_trans)
  qed
qed

lemma avc_loop_appended: "avc_loop d ls r w = Inr (r', w') \<Longrightarrow> appended w w'"
proof (induction d ls r w rule: avc_loop.induct)
  case (2 d l ls r w)
  show ?case
  proof (cases "sb_size l = 0")
    case False
    then obtain b where b: "element 0 (sb_addr l) = Inr b" using "2.prems" by auto
    let ?rw = "if needs_sets d (b AND 0x1f) w then append_sets d r w else (r, w)"
    have "appended w (snd ?rw)" by (simp add: append_sets_appended)
    moreover have "appended (snd ?rw) w'"
      using "2.IH"(2) [OF False b, of ?rw "fst ?rw" "snd ?rw"] "2.prems" False b by (simp add: Let_def split_beta)
    ultimately show ?thesis by (rule appended_trans)
  qed (use 2 in simp)
qed simp

lemma EncodeVideo_appended:
  assumes "EncodeVideo ops key data dts e w = Inr (r, e', w')"
  shows "appended w w'"
proof -
  have avc: "appended v w'" if "EncodeAvc ops ls key t e v = Inr (r, e', w')" for ls t e v
    using that unfolding EncodeAvc_def WriteVideoPes_def Let_def
    by (auto simp: prod.case_eq_if dest!: pes_loop_appended avc_loop_appended elim!: appended_trans [rotated])
  show ?thesis using assms unfolding EncodeVideo_def Let_def
    by (auto simp: appended_calls(1) split: if_splits dest!: avc intro: appended_trans [OF appended_calls(1)])
qed

lemma EncodeAudio_appended:
  assumes "EncodeAudio ops data dts e w = Inr (r, e', w')"
  shows "appended w w'"
proof -
  have aac: "appended v w'" if "EncodeAAC ops ls t e v = Inr (r, e', w')" for ls t e v
    using that unfolding EncodeAAC_def WriteAudioPes_def
    by (auto split: list.splits if_splits dest!: pes_loop_appended)
  have mp3: "appended v w'" if "EncodeMP3 ops ls t e v = Inr (r, e', w')" for ls t e v
    using that unfolding EncodeMP3_def WriteAudioPes_def by (auto dest!: pes_loop_appended)
  show ?thesis using assms unfolding EncodeAudio_def Let_def
    by (auto simp: appended_calls(1) split: if_splits dest!: aac mp3 intro: appended_trans [OF appended_calls(1)])
qed

lemma Encode_appended: "Encode ops data dts e w = Inr (r, e', w') \<Longrightarrow> appended w w'"
  unfolding Encode_def by (auto split: if_splits dest: EncodeVideo_appended EncodeAudio_appended)

lemma WritePatPmt_appended: "WritePatPmt ops e w = Inr (e', w') \<Longrightarrow> appended w w'"
  unfolding WritePatPmt_def
  by (auto split: if_splits dest!: WritePat_sized WritePmt_sized write_all_appended elim!: appended_trans [rotated])

lemma SetStreamType_appended: "SetStreamType ops vc ac e w = Inr (e', w') \<Longrightarrow> appended w w'"
  unfolding SetStreamType_def by (auto simp: Let_def split: if_splits prod.splits dest: WritePatPmt_appended)

end

end
