(* ===== verification/StrUtils.thy ===== *)
theory StrUtils
  imports Amf
begin

text \<open>
  String helpers: \<open>src/base/StringUtils.cpp\<close>. A \<open>std::string\<close> is the list of its bytes; a position
  is a \<open>nat option\<close>, with \<open>None\<close> for \<open>npos\<close>.
\<close>

section \<open>Searching\<close>

text \<open>\<open>s.find (sub)\<close>, \<open>s.find_first_of\<close> and \<open>s.find_last_of\<close>.\<close>

fun find_sub :: "str \<Rightarrow> str \<Rightarrow> nat option" where
  "find_sub d [] = (if d = [] then Some 0 else None)"
| "find_sub d (c # s) =
     (if take (length d) (c # s) = d then Some 0 else map_option Suc (find_sub d s))"

fun find_first :: "(byte \<Rightarrow> bool) \<Rightarrow> str \<Rightarrow> nat option" where
  "find_first P [] = None"
| "find_first P (c # s) = (if P c then Some 0 else map_option Suc (find_first P s))"

fun find_last :: "(byte \<Rightarrow> bool) \<Rightarrow> str \<Rightarrow> nat option" where
  "find_last P [] = None"
| "find_last P (c # s) =
     (case find_last P s of Some n \<Rightarrow> Some (Suc n) | None \<Rightarrow> if P c then Some 0 else None)"

definition StartsWith :: "str \<Rightarrow> str \<Rightarrow> bool" where
  "StartsWith s sub =
     (if sub = [] then True
      else if s = [] then False
      else if length s < length sub then False
      else take (length sub) s = sub)"

definition EndsWith :: "str \<Rightarrow> str \<Rightarrow> bool" where
  "EndsWith s sub =
     (if sub = [] then True
      else if s = [] then False
      else if length s < length sub then False
      else drop (length s - length sub) s = sub)"

section \<open>Paths\<close>

definition is_sep :: "byte \<Rightarrow> bool" where
  "is_sep c \<longleftrightarrow> c = 47 \<or> c = 92"  \<comment> \<open>\<open>/\<close> or \<open>\\<close>\<close>

definition is_dot :: "byte \<Rightarrow> bool" where
  "is_dot c \<longleftrightarrow> c = 46"

definition FilePath :: "str \<Rightarrow> str" where
  "FilePath path =
     (case find_last is_sep path of Some pos \<Rightarrow> take pos path | None \<Rightarrow> lit ''./'')"

definition FileNameExt :: "str \<Rightarrow> str" where
  "FileNameExt path =
     (case find_last is_sep path of
        Some pos \<Rightarrow> if pos + 1 < length path then drop (pos + 1) path else path
      | None \<Rightarrow> path)"

definition FileName :: "str \<Rightarrow> str" where
  "FileName path =
     (let file_name = FileNameExt path
      in case find_last is_dot file_name of
           Some pos \<Rightarrow> if pos \<noteq> 0 then take pos file_name else file_name
         | None \<Rightarrow> file_name)"

definition Extension :: "str \<Rightarrow> str" where
  "Extension path =
     (let file_name = FileNameExt path
      in case find_last is_dot file_name of
           Some pos \<Rightarrow> if pos \<noteq> 0 \<and> pos + 1 < length file_name then drop (pos + 1) file_name else []
         | None \<Rightarrow> [])"

section \<open>Splitting\<close>

lemma find_sub_less: "find_sub d s = Some n \<Longrightarrow> d \<noteq> [] \<Longrightarrow> n + length d \<le> length s"
proof (induction d s arbitrary: n rule: find_sub.induct)
  case (2 d c s)
  have "length d \<le> Suc (length s)" if "take (length d) (c # s) = d"
    using that by (metis length_Cons length_take min.cobounded1)
  with 2 show ?case by (auto split: if_splits)
qed (auto split: if_splits)

lemma find_sub_rest: "find_sub d s = Some n \<Longrightarrow> d \<noteq> [] \<Longrightarrow> length s - (n + length d) < length s"
  using find_sub_less [of d s n] by (cases d) auto

text \<open>The loop of \<open>SplitString\<close>, on the part of the string from \<open>last\<close> on.\<close>

function split_loop :: "str \<Rightarrow> str \<Rightarrow> str list" where
  "split_loop d rest =
     (if d = [] then []
      else case find_sub d rest of
        Some next \<Rightarrow>
          (if 0 < next then take next rest else []) # split_loop d (drop (next + length d) rest)
      | None \<Rightarrow> if rest \<noteq> [] then [rest] else [])"
  by pat_completeness auto
termination
  by (relation "measure (\<lambda>(d, s). length s)") (simp_all add: find_sub_rest)

declare split_loop.simps [simp del]

definition SplitString :: "str \<Rightarrow> str \<Rightarrow> str list" where
  "SplitString s delimiter = (if delimiter = [] then [] else split_loop delimiter s)"

datatype fsm_state = kStateNormal | kStateDelimiter

function fsm :: "byte \<Rightarrow> fsm_state \<Rightarrow> str \<Rightarrow> str \<Rightarrow> str list" where
  "fsm delimiter kStateNormal tmp (c # s) =
     (if c = delimiter then fsm delimiter kStateDelimiter tmp (c # s)
      else fsm delimiter kStateNormal (tmp @ [c]) s)"
| "fsm delimiter kStateDelimiter tmp (c # s) = tmp # fsm delimiter kStateNormal [] s"
| "fsm delimiter state tmp [] = (if tmp \<noteq> [] then [tmp] else [])"
  by pat_completeness auto
termination
  by (relation "measures [\<lambda>(d, st, tmp, s). length s, \<lambda>(d, st, tmp, s). if st = kStateNormal then 1 else 0]")
    auto

definition SplitStringWithFSM :: "str \<Rightarrow> byte \<Rightarrow> str list" where
  "SplitStringWithFSM s delimiter = fsm delimiter kStateNormal [] s"

section \<open>Lemmas\<close>

lemma find_sub_Some:
  assumes "find_sub d s = Some n"
  shows "s = take n s @ d @ drop (n + length d) s"
  using assms
proof (induction d s arbitrary: n rule: find_sub.induct)
  case (2 d c s)
  show ?case
  proof (cases "take (length d) (c # s) = d")
    case True
    then show ?thesis using 2(2) by (metis (no_types) add_0 append_Nil append_take_drop_id find_sub.simps(2)
          option.inject take0)
  next
    case False
    with 2 show ?thesis by auto
  qed
qed (auto split: if_splits)

lemma find_sub_single: "find_sub [c] s = find_first (\<lambda>x. x = c) s"
  by (induction s) auto

lemma fsm_split:
  "fsm c kStateNormal tmp s =
     (if tmp = [] then split_loop [c] s
      else case find_sub [c] s of
        Some n \<Rightarrow> (tmp @ take n s) # split_loop [c] (drop (n + 1) s)
      | None \<Rightarrow> [tmp @ s])"
proof (induction s arbitrary: tmp)
  case Nil
  then show ?case by (simp add: split_loop.simps)
next
  case (Cons x s)
  show ?case
  proof (cases "x = c")
    case True
    then show ?thesis using Cons [of "[]"] by (simp add: split_loop.simps [of "[c]" "c # s"])
  next
    case False
    then show ?thesis using Cons [of "tmp @ [x]"]
      by (auto simp: split_loop.simps [of "[c]" "x # s"] split: option.splits)
  qed
qed

lemma find_sub_take: "find_sub d s = Some n \<Longrightarrow> d \<noteq> [] \<Longrightarrow> find_sub d (take n s) = None"
proof (induction d s arbitrary: n rule: find_sub.induct)
  case (2 d c s)
  show ?case
  proof (cases n)
    case 0
    with 2 show ?thesis by simp
  next
    case (Suc m)
    with 2 have nm: "take (length d) (c # s) \<noteq> d" "find_sub d s = Some m" by (auto split: if_splits)
    have "take (length d) (c # take m s) \<noteq> d"
    proof
      assume a: "take (length d) (c # take m s) = d"
      then have "length d \<le> Suc m"
        by (metis length_Cons length_take min.cobounded1 min.cobounded2 order_trans not_less_eq_eq)
      then have "take (length d) (c # take m s) = take (length d) (c # s)"
        by (cases d) (auto simp: take_Cons' min_def)
      with a nm show False by simp
    qed
    with Suc 2 nm show ?thesis by simp
  qed
qed simp

lemma find_first_takeWhile:
  "(case find_first P s of Some n \<Rightarrow> take n s | None \<Rightarrow> s) = takeWhile (\<lambda>x. \<not> P x) s"
  by (induction s) (auto split: option.splits)

lemma find_first_dropWhile:
  "(case find_first P s of Some n \<Rightarrow> drop (n + 1) s | None \<Rightarrow> []) = drop 1 (dropWhile (\<lambda>x. \<not> P x) s)"
  by (induction s) (auto split: option.splits)

lemma find_sub_extend: "find_sub d s = Some n \<Longrightarrow> d \<noteq> [] \<Longrightarrow> find_sub d (s @ t) = Some n"
proof (induction d s arbitrary: n rule: find_sub.induct)
  case (2 d c s)
  show ?case
  proof (cases "take (length d) (c # s) = d")
    case True
    then have "length d \<le> length (c # s)" by (metis length_take min.cobounded1)
    then have "take (length d) (c # s @ t) = take (length d) (c # s)" by (cases d) auto
    with True 2 show ?thesis by simp
  next
    case False
    with 2 obtain m where m: "find_sub d s = Some m" "n = Suc m" by auto
    have "length d \<le> length s" using find_sub_less [OF m(1) 2(3)] by simp
    then have "take (length d) (c # s @ t) = take (length d) (c # s)" by (cases d) auto
    with False m 2 show ?thesis by simp
  qed
qed (simp split: if_splits)

lemma find_first_none: "c \<notin> set s \<Longrightarrow> find_first (\<lambda>x. x = c) s = None"
  by (induction s) auto

lemma find_first_at: "c \<notin> set p \<Longrightarrow> find_first (\<lambda>x. x = c) (p @ c # s) = Some (length p)"
  by (induction p) auto

lemma split_piece:
  assumes "c \<notin> set p"
  shows "SplitString (p @ c # s) [c] = p # SplitString s [c]"
proof -
  have "find_first (\<lambda>x. x = c) (p @ c # s) = Some (length p)" using assms by (rule find_first_at)
  then show ?thesis
    by (auto simp: SplitString_def split_loop.simps [of "[c]" "p @ c # s"] find_sub_single
        simp del: find_sub.simps find_first.simps)
qed

lemma split_last:
  assumes "c \<notin> set p" "p \<noteq> []"
  shows "SplitString p [c] = [p]"
proof -
  have "find_first (\<lambda>x. x = c) p = None" using assms(1) by (rule find_first_none)
  then show ?thesis using assms(2)
    by (simp add: SplitString_def split_loop.simps [of "[c]" p] find_sub_single)
qed

lemma find_last_Some:
  "find_last P s = Some n \<Longrightarrow> n < length s \<and> P (s ! n) \<and> s = take n s @ [s ! n] @ drop (Suc n) s \<and>
     (\<forall>x \<in> set (drop (Suc n) s). \<not> P x)"
proof (induction P s arbitrary: n rule: find_last.induct)
  case (2 P c s)
  have none: "find_last P s = None \<Longrightarrow> \<forall>x \<in> set s. \<not> P x" for s
    by (induction s) (auto split: option.splits if_splits)
  from 2 none show ?case by (auto split: option.splits if_splits)
qed simp

section \<open>Properties\<close>

text \<open>the state machine is a faster \<open>SplitString\<close>: for a delimiter of one character both give
  the same pieces of every string.\<close>

theorem SplitStringWithFSM_eq: "SplitStringWithFSM s c = SplitString s [c]"
  using fsm_split [of c "[]" s] by (simp add: SplitStringWithFSM_def SplitString_def)

text \<open>splitting loses nothing but a final delimiter: the pieces, each followed by the delimiter,
  are the string, or the string with one more delimiter, and no piece contains the delimiter.\<close>

lemma SplitString_joins:
  assumes "d \<noteq> []"
  shows "(concat (map (\<lambda>p. p @ d) (SplitString s d)) = s \<or> concat (map (\<lambda>p. p @ d) (SplitString s d)) = s @ d) \<and>
    (\<forall>p \<in> set (SplitString s d). find_sub d p = None)"
proof -
  have "(concat (map (\<lambda>p. p @ d) (split_loop d s)) = s \<or> concat (map (\<lambda>p. p @ d) (split_loop d s)) = s @ d) \<and>
    (\<forall>p \<in> set (split_loop d s). find_sub d p = None)"
    using assms
  proof (induction d s rule: split_loop.induct)
    case (1 d rest)
    show ?case
    proof (cases "find_sub d rest")
      case None
      with 1 show ?thesis by (simp add: split_loop.simps [of d rest])
    next
      case (Some n)
      let ?r = "drop (n + length d) rest"
      have rest: "rest = take n rest @ d @ ?r" by (rule find_sub_Some [OF Some])
      have "find_sub d (take n rest) = None" by (rule find_sub_take [OF Some 1(2)])
      moreover have "split_loop d rest = take n rest # split_loop d ?r"
        using Some 1(2) by (simp add: split_loop.simps [of d rest])
      moreover have "(concat (map (\<lambda>p. p @ d) (split_loop d ?r)) = ?r \<or>
          concat (map (\<lambda>p. p @ d) (split_loop d ?r)) = ?r @ d) \<and>
          (\<forall>p \<in> set (split_loop d ?r). find_sub d p = None)"
        using 1 Some by auto
      ultimately have "(concat (map (\<lambda>p. p @ d) (split_loop d rest)) = take n rest @ d @ ?r \<or>
          concat (map (\<lambda>p. p @ d) (split_loop d rest)) = (take n rest @ d @ ?r) @ d) \<and>
          (\<forall>p \<in> set (split_loop d rest). find_sub d p = None)" by auto
      then show ?thesis unfolding rest [symmetric] .
    qed
  qed
  then show ?thesis using assms by (simp add: SplitString_def)
qed

text \<open>a path with a directory and a file name is its directory, a separator and the file name, and
  a file name with an extension is its stem, a dot and the extension, which has no dot itself.\<close>

theorem path_parts:
  assumes "find_last is_sep path = Some pos" "pos + 1 < length path" "Extension path \<noteq> []"
  shows "path = FilePath path @ [path ! pos] @ FileName path @ lit ''.'' @ Extension path \<and>
    (\<forall>x \<in> set (FileName path @ Extension path). \<not> is_sep x) \<and> (\<forall>x \<in> set (Extension path). \<not> is_dot x)"
proof -
  have f: "FileNameExt path = drop (Suc pos) path" "FilePath path = take pos path"
    using assms(1,2) by (simp_all add: FileNameExt_def FilePath_def)
  from assms(3) obtain n where n: "find_last is_dot (FileNameExt path) = Some n" "n \<noteq> 0" "n + 1 < length (FileNameExt path)"
    by (auto simp: Extension_def Let_def split: option.splits if_splits)
  let ?f = "FileNameExt path"
  have e: "Extension path = drop (Suc n) ?f" "FileName path = take n ?f"
    using n by (simp_all add: Extension_def FileName_def)
  note sep = find_last_Some [OF assms(1)] and dot = find_last_Some [OF n(1)]
  have "?f = FileName path @ [?f ! n] @ Extension path" unfolding e using dot by blast
  moreover have "[?f ! n] = lit ''.''" using dot by (simp add: is_dot_def lit_def)
  ultimately have parts: "?f = FileName path @ lit ''.'' @ Extension path" by simp
  have "path = FilePath path @ [path ! pos] @ ?f" unfolding f using sep by blast
  with parts have "path = FilePath path @ [path ! pos] @ FileName path @ lit ''.'' @ Extension path" by simp
  moreover have "\<forall>x \<in> set ?f. \<not> is_sep x" unfolding f using sep by blast
  moreover have "set (FileName path @ Extension path) \<subseteq> set ?f" unfolding parts by auto
  moreover have "\<forall>x \<in> set (Extension path). \<not> is_dot x" unfolding e using dot by blast
  ultimately show ?thesis by blast
qed

lemma path_parts_witness:
  "lit ''a/b.ts'' = FilePath (lit ''a/b.ts'') @ [lit ''a/b.ts'' ! 1] @ FileName (lit ''a/b.ts'') @ lit ''.'' @
      Extension (lit ''a/b.ts'') \<and>
    list_all (\<lambda>x. \<not> is_sep x) (FileName (lit ''a/b.ts'') @ Extension (lit ''a/b.ts'')) \<and>
    list_all (\<lambda>x. \<not> is_dot x) (Extension (lit ''a/b.ts''))"
  unfolding list_all_iff
  by (rule path_parts) (simp_all add: lit_def is_sep_def is_dot_def Extension_def FileNameExt_def)

end
