(* ===== verification/CStr.thy ===== *)
theory CStr
  imports StrUtils
begin

text \<open>
  The functions of the C library the text protocols rely on, in the C locale: character classes,
  the conversions of a string to a number with their clamping, and the printing of numbers
  (\<open>sprintf\<close> and \<open>operator<<\<close>).
\<close>

section \<open>Characters\<close>

definition isspace :: "byte \<Rightarrow> bool" where
  "isspace c \<longleftrightarrow> c = 32 \<or> 9 \<le> c \<and> c \<le> 13"

definition isdigit :: "byte \<Rightarrow> bool" where
  "isdigit c \<longleftrightarrow> 48 \<le> c \<and> c \<le> 57"

definition tolower :: "byte \<Rightarrow> byte" where
  "tolower c = (if 65 \<le> c \<and> c \<le> 90 then c + 32 else c)"

definition toupper :: "byte \<Rightarrow> byte" where
  "toupper c = (if 97 \<le> c \<and> c \<le> 122 then c - 32 else c)"

text \<open>The value of a digit, of a base up to 16.\<close>

definition digit_val :: "byte \<Rightarrow> nat option" where
  "digit_val c =
     (if isdigit c then Some (unat (c - 48))
      else if 97 \<le> c \<and> c \<le> 102 then Some (unat (c - 87))
      else if 65 \<le> c \<and> c \<le> 70 then Some (unat (c - 55))
      else None)"

definition is_digit :: "nat \<Rightarrow> byte \<Rightarrow> bool" where
  "is_digit base c = (case digit_val c of None \<Rightarrow> False | Some v \<Rightarrow> v < base)"

definition isxdigit :: "byte \<Rightarrow> bool" where
  "isxdigit c = is_digit 16 c"

section \<open>Reading numbers\<close>

definition digits_value :: "nat \<Rightarrow> str \<Rightarrow> nat" where
  "digits_value base ds = foldl (\<lambda>n c. n * base + the (digit_val c)) 0 ds"

text \<open>
  What \<open>strtol\<close> and its relatives read: white space, a sign, in base 16 an optional \<open>0x\<close> in front
  of a digit, and the digits.
\<close>

definition scan_number :: "nat \<Rightarrow> str \<Rightarrow> bool \<times> str" where
  "scan_number base s =
     (let s = dropWhile isspace s;
          neg = (s \<noteq> [] \<and> s ! 0 = 45);
          s = (if s \<noteq> [] \<and> (s ! 0 = 45 \<or> s ! 0 = 43) then drop 1 s else s);
          s = (if base = 16 \<and> 2 < length s \<and> s ! 0 = 48 \<and> tolower (s ! 1) = 120 \<and> is_digit 16 (s ! 2)
               then drop 2 s else s)
      in (neg, takeWhile (is_digit base) s))"

definition strtol :: "nat \<Rightarrow> str \<Rightarrow> int" where
  "strtol base s =
     (let (neg, ds) = scan_number base s;
          v = int (digits_value base ds)
      in if neg then max (- (2 ^ 63)) (- v) else min (2 ^ 63 - 1) v)"

definition atoi :: "str \<Rightarrow> u32" where
  "atoi s = word_of_int (strtol 10 s)"

text \<open>\<open>std::stoull\<close>: \<open>None\<close> where it throws.\<close>

definition stoull :: "str \<Rightarrow> u64 option" where
  "stoull s =
     (let (neg, ds) = scan_number 10 s;
          v = digits_value 10 ds
      in if ds = [] then None
         else if 2 ^ 64 \<le> v then None
         else Some (if neg then - of_nat v else of_nat v))"

section \<open>Printing numbers\<close>

definition digit_char :: "nat \<Rightarrow> byte" where
  "digit_char d = (if d < 10 then 48 + of_nat d else 55 + of_nat d)"

fun digits :: "nat \<Rightarrow> nat \<Rightarrow> str" where
  "digits base n =
     (if n < base \<or> base < 2 then [digit_char n] else digits base (n div base) @ [digit_char (n mod base)])"

declare digits.simps [simp del]

section \<open>Lemmas\<close>

lemma less16_cases:
  assumes "(d :: nat) < 16"
  shows "d = 0 \<or> d = 1 \<or> d = 2 \<or> d = 3 \<or> d = 4 \<or> d = 5 \<or> d = 6 \<or> d = 7 \<or> d = 8 \<or> d = 9 \<or>
    d = 10 \<or> d = 11 \<or> d = 12 \<or> d = 13 \<or> d = 14 \<or> d = 15"
  using assms by presburger

lemma digit_val_char [simp]: "d < 16 \<Longrightarrow> digit_val (digit_char d) = Some d"
  by (drule less16_cases) (elim disjE; simp add: digit_val_def digit_char_def isdigit_def)

lemma digit_char_plain: "d < 16 \<Longrightarrow> \<not> isspace (digit_char d) \<and> digit_char d \<noteq> 45 \<and> digit_char d \<noteq> 43 \<and>
    tolower (digit_char d) \<noteq> 120 \<and> digit_char d \<noteq> 13 \<and> digit_char d \<noteq> 10"
  by (drule less16_cases) (elim disjE; simp add: digit_char_def isspace_def tolower_def)

lemma digits_set: "2 \<le> base \<Longrightarrow> base \<le> 16 \<Longrightarrow> c \<in> set (digits base n) \<Longrightarrow> \<exists>d < base. c = digit_char d"
proof (induction base n rule: digits.induct)
  case (1 base n)
  have m: "n mod base < base" using 1(2) by simp
  show ?case
  proof (cases "n < base")
    case True
    with 1 show ?thesis by (auto simp: digits.simps [of base n])
  next
    case False
    with 1 have "c \<in> set (digits base (n div base)) \<or> c = digit_char (n mod base)"
      by (auto simp: digits.simps [of base n])
    with False 1 m show ?thesis by (metis linorder_not_less)
  qed
qed

lemma digits_nonempty [simp]: "digits base n \<noteq> []"
  by (subst digits.simps) simp

lemma digits_value_snoc: "digits_value base (ds @ [c]) = digits_value base ds * base + the (digit_val c)"
  by (simp add: digits_value_def)

lemma digits_value_digits: "2 \<le> base \<Longrightarrow> base \<le> 16 \<Longrightarrow> digits_value base (digits base n) = n"
proof (induction base n rule: digits.induct)
  case (1 base n)
  show ?case
  proof (cases "n < base")
    case True
    with 1 have "digits_value base [digit_char n] = n" by (simp add: digits_value_def)
    with True show ?thesis by (simp add: digits.simps [of base n])
  next
    case False
    have "n mod base < 16" using 1(2,3) by (metis less_le_trans mod_less_divisor not_numeral_le_zero not_gr_zero)
    with False 1 show ?thesis
      by (simp add: digits.simps [of base n] digits_value_snoc)
  qed
qed

lemma is_digit_digits: "2 \<le> base \<Longrightarrow> base \<le> 16 \<Longrightarrow> c \<in> set (digits base n) \<Longrightarrow> is_digit base c"
  using digits_set [of base c n] by (auto simp: is_digit_def)

text \<open>Printing and reading a number, with something behind it that is no digit.\<close>

lemma scan_digits:
  assumes "2 \<le> base" "base \<le> 16" "rest = [] \<or> \<not> is_digit base (hd rest)"
    and "base = 16 \<longrightarrow> rest = [] \<or> tolower (hd rest) \<noteq> 120"
  shows "scan_number base (digits base n @ rest) = (False, digits base n)"
proof -
  obtain c ds where c: "digits base n = c # ds" by (metis digits_nonempty list.exhaust)
  have plain: "\<not> isspace x \<and> x \<noteq> 45 \<and> x \<noteq> 43 \<and> tolower x \<noteq> 120" if "x \<in> set (c # ds)" for x
  proof -
    obtain d where "d < base" "x = digit_char d" using digits_set [OF assms(1,2)] \<open>x \<in> _\<close> c by metis
    then show ?thesis using digit_char_plain [of d] assms(2) by simp
  qed
  have hex: "\<not> (base = 16 \<and> 2 < length (c # ds @ rest) \<and> (c # ds @ rest) ! 0 = 48 \<and>
      tolower ((c # ds @ rest) ! 1) = 120 \<and> is_digit 16 ((c # ds @ rest) ! 2))"
  proof (cases ds)
    case Nil
    then show ?thesis using assms(4) by (cases rest) auto
  next
    case (Cons d ds')
    then show ?thesis using plain [of d] by simp
  qed
  have "takeWhile (is_digit base) (digits base n @ rest) = digits base n"
    using is_digit_digits [OF assms(1,2)] assms(3) by (cases rest) (simp_all add: takeWhile_tail)
  moreover have "dropWhile isspace (digits base n @ rest) = digits base n @ rest" using plain [of c] by (simp add: c)
  ultimately show ?thesis using hex plain [of c] unfolding c scan_number_def Let_def by auto
qed

lemma strtol_digits:
  assumes "2 \<le> base" "base \<le> 16" "n < 2 ^ 63"
  shows "strtol base (digits base n) = int n"
proof -
  have "int n \<le> 2 ^ 63 - 1" using assms(3) by simp
  then show ?thesis using scan_digits [OF assms(1,2), of "[]" n] digits_value_digits [OF assms(1,2)]
    by (simp add: strtol_def)
qed

lemma stoull_digits: "n < 2 ^ 64 \<Longrightarrow> stoull (digits 10 n) = Some (of_nat n)"
  using scan_digits [of 10 "[]" n] digits_value_digits [of 10 n] by (simp add: stoull_def)

lemma atoi_digits: "n < 2 ^ 63 \<Longrightarrow> atoi (digits 10 n) = of_nat n"
  by (simp add: atoi_def strtol_digits)

end
