(* ===== verification/Fragment.thy ===== *)
theory Fragment
  imports TsEncoder CStr
begin

text \<open>
  One segment of an HLS stream, \<open>src/mmedia/hls/Fragment.{h,cpp}\<close>: a writer whose packets go into a
  buffer that grows in steps. \<open>buf_size_\<close> and \<open>data_size_\<close> are numbers here; where the code's \<open>int\<close>
  would go beyond \<open>2 ^ 31\<close> the allocation fails. The clock is read once per name and is an argument.
  \<open>Save\<close>, which nothing calls, writes the data to a file and is left out.
\<close>

section \<open>The segment\<close>

record fragment = stream_writer +
  fr_duration :: u64
  fr_filename :: str
  fr_start_dts :: u64
  fr_data :: "unit packet option"
  fr_buf_size :: nat
  fr_data_size :: nat
  fr_sequence_no :: u32

definition Fragment_new :: fragment where
  "Fragment_new = \<lparr>sw_sps = [], sw_pps = [], sw_appended = False, fr_duration = 0, fr_filename = [], fr_start_dts = -1,
     fr_data = None, fr_buf_size = 512 * 1024, fr_data_size = 0, fr_sequence_no = 0\<rparr>"

definition Fragment_AppendTimeStamp :: "u64 \<Rightarrow> fragment \<Rightarrow> fragment" where
  "Fragment_AppendTimeStamp dts f =
     (let start = (if fr_start_dts f = -1 then dts else fr_start_dts f);
          start = (if dts <s start then dts else start)
      in f\<lparr>fr_start_dts := start, fr_duration := dts - start\<rparr>)"

definition kFragmentStepSize :: nat where
  "kFragmentStepSize = 128 * 1024"

function grow :: "nat \<Rightarrow> nat \<Rightarrow> nat" where
  "grow need buf_size = (if buf_size < need then grow need (buf_size + kFragmentStepSize) else buf_size)"
  by pat_completeness auto
termination by (relation "measure (\<lambda>(need, buf_size). need - buf_size)") (auto simp: kFragmentStepSize_def)

declare grow.simps [simp del]

definition new_data :: "nat \<Rightarrow> unit packet res" where
  "new_data n = (if 2 ^ 31 \<le> n then Inl BadAlloc else NewPacket (int n))"

definition Fragment_Write :: "byte list \<Rightarrow> fragment \<Rightarrow> fragment res" where
  "Fragment_Write buf f =
     bindE (case fr_data f of None \<Rightarrow> new_data (fr_buf_size f) | Some d \<Rightarrow> Inr d) (\<lambda>data.
     bindE (if pk_capacity data - pk_size data < of_nat (length buf)
            then (let n = grow (fr_data_size f + length buf) (fr_buf_size f + kFragmentStepSize)
                  in bindE (new_data n) (\<lambda>new_pkt.
                     bindE (mem_read (unat (pk_size data)) (pk_data data)) (\<lambda>old.
                     bindE (write_data 0 old new_pkt) (\<lambda>new_pkt.
                       Inr (SetPacketSize (unat (pk_size data)) new_pkt, n)))))
            else Inr (data, fr_buf_size f)) (\<lambda>(data, n).
     bindE (write_data (unat (pk_size data)) buf data) (\<lambda>data.
       Inr (f\<lparr>fr_data := Some (UpdatePacketSize (length buf) data), fr_buf_size := n,
              fr_data_size := fr_data_size f + length buf\<rparr>))))"

definition fragment_ops :: "fragment writer_ops" where
  "fragment_ops = \<lparr>AppendTimeStamp = Fragment_AppendTimeStamp, WriteTs = Fragment_Write\<rparr>"

definition Fragment_Size :: "fragment \<Rightarrow> int res" where
  "Fragment_Size f = (case fr_data f of None \<Rightarrow> Inl NullDeref | Some d \<Rightarrow> Inr (PacketSize d))"

definition Duration :: "fragment \<Rightarrow> int" where
  "Duration f = sint (fr_duration f)"

text \<open>\<open>std::to_string\<close> of a 64-bit integer.\<close>

definition to_string :: "int \<Rightarrow> str" where
  "to_string n = (if n < 0 then 45 # digits 10 (nat (- n)) else digits 10 (nat n))"

definition SetBaseFileName :: "str \<Rightarrow> u64 \<Rightarrow> fragment \<Rightarrow> fragment" where
  "SetBaseFileName v now f = f\<lparr>fr_filename := v @ lit ''_'' @ to_string (sint now) @ lit ''.ts''\<rparr>"

definition SetSequenceNo :: "u32 \<Rightarrow> fragment \<Rightarrow> fragment" where
  "SetSequenceNo n f = f\<lparr>fr_sequence_no := n\<rparr>"

text \<open>The parameter sets, the name and the buffer stay.\<close>

definition Fragment_Reset :: "fragment \<Rightarrow> fragment" where
  "Fragment_Reset f = f\<lparr>fr_duration := 0, fr_sequence_no := 0, fr_data_size := 0, fr_start_dts := -1, sw_appended := False,
     fr_data := map_option (SetPacketSize 0) (fr_data f)\<rparr>"

section \<open>What a segment holds\<close>

definition fragment_bytes :: "fragment \<Rightarrow> byte list" where
  "fragment_bytes f = (case fr_data f of None \<Rightarrow> [] | Some d \<Rightarrow> body d)"

text \<open>The buffer is a proper packet of the size kept, and the number of bytes kept is its size.\<close>

definition fragment_ok :: "fragment \<Rightarrow> bool" where
  "fragment_ok f \<longleftrightarrow> fr_buf_size f < 2 ^ 31 \<and> (case fr_data f of None \<Rightarrow> fr_data_size f = 0
     | Some d \<Rightarrow> packet_ok d \<and> unat (pk_size d) = fr_data_size f \<and> length (pk_data d) = fr_buf_size f)"

lemma Fragment_new_ok: "fragment_ok Fragment_new" "fragment_bytes Fragment_new = []"
  by (simp_all add: fragment_ok_def fragment_bytes_def Fragment_new_def)

lemma Fragment_Reset_ok: "fragment_ok f \<Longrightarrow> fragment_ok (Fragment_Reset f) \<and> fragment_bytes (Fragment_Reset f) = []"
  by (auto simp: fragment_ok_def fragment_bytes_def Fragment_Reset_def SetPacketSize_def packet_ok_def body_def split: option.splits)

lemma grow_ge: "need \<le> grow need n"
  by (induction need n rule: grow.induct) (subst grow.simps, simp)

lemma grow_bound: "grow need n \<le> max n (need + kFragmentStepSize)"
proof (induction need n rule: grow.induct)
  case (1 need n)
  then show ?case by (subst grow.simps) (auto simp: max_def)
qed

text \<open>A whole write: the bytes come behind what is there.\<close>

lemma write_data_body:
  assumes "packet_ok d" "unat (pk_size d) + length b \<le> length (pk_data d)" "write_data (unat (pk_size d)) b d = Inr d'"
  shows "packet_ok (UpdatePacketSize (length b) d') \<and> body (UpdatePacketSize (length b) d') = body d @ b \<and>
    unat (pk_size (UpdatePacketSize (length b) d')) = unat (pk_size d) + length b"
  using write_body [OF assms(1,2)] assms(3) by auto

lemma space_word:
  assumes "packet_ok d" "n < 2 ^ 32"
  shows "pk_capacity d - pk_size d < of_nat n \<longleftrightarrow> length (pk_data d) < unat (pk_size d) + n"
proof -
  have le: "pk_size d \<le> pk_capacity d" "unat (pk_capacity d) = length (pk_data d)" using assms(1) by (auto simp: packet_ok_def)
  have "unat (pk_capacity d - pk_size d) = length (pk_data d) - unat (pk_size d)" using le by (simp add: unat_sub)
  moreover have "unat (pk_size d) \<le> length (pk_data d)" using le by (simp add: word_le_nat_alt)
  ultimately show ?thesis using assms(2) by (auto simp: word_less_nat_alt unat_of_nat take_bit_nat_eq_self)
qed

lemma new_data_ok:
  assumes "new_data n = Inr d"
  shows "packet_ok d \<and> body d = [] \<and> pk_size d = 0 \<and> length (pk_data d) = n"
proof -
  have n: "n < 2 ^ 31" "NewPacket (int n) = Inr d" using assms by (auto simp: new_data_def split: if_splits)
  then show ?thesis using NewPacket_ok [of "int n"] by (auto simp: NewPacket_def)
qed

lemma copied_packet:
  assumes "packet_ok d" "packet_ok q" "pk_size q = 0" "unat (pk_size d) \<le> length (pk_data q)"
    and "write_data 0 (take (unat (pk_size d)) (pk_data d)) q = Inr q'"
  shows "packet_ok (SetPacketSize (unat (pk_size d)) q') \<and> body (SetPacketSize (unat (pk_size d)) q') = body d \<and>
    unat (pk_size (SetPacketSize (unat (pk_size d)) q')) = unat (pk_size d) \<and> length (pk_data q') = length (pk_data q)"
proof -
  have len: "length (take (unat (pk_size d)) (pk_data d)) = unat (pk_size d)"
    using assms(1) by (auto simp: packet_ok_def word_le_nat_alt)
  have q': "q' = q\<lparr>pk_data := overwrite 0 (take (unat (pk_size d)) (pk_data d)) (pk_data q)\<rparr>"
    using assms(4,5) len by (auto simp: write_data_def split: if_splits)
  have l: "length (pk_data q') = length (pk_data q)" using assms(4) len by (simp add: q')
  have "unat (of_nat (unat (pk_size d)) :: u32) = unat (pk_size d)" by simp
  then show ?thesis using assms(2,4) len l
    by (auto simp: q' packet_ok_def SetPacketSize_def body_def word_le_nat_alt overwrite_def)
qed

lemma new_data_total: "n < 2 ^ 31 \<Longrightarrow> \<exists>d. new_data n = Inr d"
  using NewPacket_ok [of "int n"] by (auto simp: new_data_def)

definition room_for :: "nat \<Rightarrow> fragment \<Rightarrow> bool" where
  "room_for n f \<longleftrightarrow> fr_data_size f + n + kFragmentStepSize < 2 ^ 31"

lemma Fragment_Write_ok:
  assumes "fragment_ok f" "room_for (length b) f"
  shows "\<exists>f'. Fragment_Write b f = Inr f' \<and> fragment_ok f' \<and> fragment_bytes f' = fragment_bytes f @ b \<and>
    fr_data_size f' = fr_data_size f + length b"
proof -
  have n: "fr_data_size f + length b + kFragmentStepSize < 2 ^ 31" using assms(2) by (simp add: room_for_def)
  have "\<exists>d. (case fr_data f of None \<Rightarrow> new_data (fr_buf_size f) | Some d \<Rightarrow> Inr d) = Inr d \<and> packet_ok d \<and>
      body d = fragment_bytes f \<and> unat (pk_size d) = fr_data_size f \<and> length (pk_data d) = fr_buf_size f"
  proof (cases "fr_data f")
    case None
    then have b: "fr_buf_size f < 2 ^ 31" "fr_data_size f = 0" using assms(1) by (auto simp: fragment_ok_def)
    obtain d where d: "new_data (fr_buf_size f) = Inr d" using new_data_total [OF b(1)] by blast
    with None b(2) show ?thesis using new_data_ok [OF d] by (simp add: fragment_bytes_def)
  next
    case (Some d)
    with assms(1) show ?thesis by (simp add: fragment_ok_def fragment_bytes_def)
  qed
  then obtain d where d: "(case fr_data f of None \<Rightarrow> new_data (fr_buf_size f) | Some d \<Rightarrow> Inr d) = Inr d" "packet_ok d"
      "body d = fragment_bytes f" "unat (pk_size d) = fr_data_size f" "length (pk_data d) = fr_buf_size f" by blast
  let ?need = "fr_data_size f + length b"
  have "\<exists>q m. (if pk_capacity d - pk_size d < of_nat (length b)
            then (let n = grow ?need (fr_buf_size f + kFragmentStepSize)
                  in bindE (new_data n) (\<lambda>new_pkt.
                     bindE (mem_read (unat (pk_size d)) (pk_data d)) (\<lambda>old.
                     bindE (write_data 0 old new_pkt) (\<lambda>new_pkt.
                       Inr (SetPacketSize (unat (pk_size d)) new_pkt, n)))))
            else Inr (d, fr_buf_size f)) = Inr (q, m) \<and> packet_ok q \<and> body q = fragment_bytes f \<and>
      unat (pk_size q) = fr_data_size f \<and> length (pk_data q) = m \<and> m < 2 ^ 31 \<and> ?need \<le> m"
  proof (cases "pk_capacity d - pk_size d < of_nat (length b)")
    case False
    then have "?need \<le> length (pk_data d)" using space_word [OF d(2), of "length b"] n d(4) by simp
    then show ?thesis using False d(2-5) assms(1) by (auto simp: fragment_ok_def)
  next
    case True
    then have "fr_buf_size f < ?need" using space_word [OF d(2), of "length b"] n d(4,5) by simp
    let ?n = "grow ?need (fr_buf_size f + kFragmentStepSize)"
    have big: "?need \<le> ?n" "?n < 2 ^ 31"
      using grow_ge [of ?need "fr_buf_size f + kFragmentStepSize"] grow_bound [of ?need "fr_buf_size f + kFragmentStepSize"]
        n \<open>fr_buf_size f < ?need\<close> by (auto simp: max_def split: if_splits)
    obtain q where q: "new_data ?n = Inr q" using new_data_total [OF big(2)] by blast
    note q' = new_data_ok [OF q]
    have r: "mem_read (unat (pk_size d)) (pk_data d) = Inr (take (unat (pk_size d)) (pk_data d))"
      using d(2) by (auto simp: packet_ok_def word_le_nat_alt)
    have fits: "unat (pk_size d) \<le> length (pk_data q)" using q' big(1) d(4) by simp
    obtain p where p: "write_data 0 (take (unat (pk_size d)) (pk_data d)) q = Inr p"
      using fits by (simp add: write_data_def min.coboundedI2)
    show ?thesis using copied_packet [OF d(2) _ _ fits p] q' True q r p d(3,4) big
      by (intro exI [of _ "SetPacketSize (unat (pk_size d)) p"] exI [of _ ?n]) (simp add: SetPacketSize_def del: bindE_eq_Inr)
  qed
  then obtain q m where q: "(if pk_capacity d - pk_size d < of_nat (length b)
            then (let n = grow ?need (fr_buf_size f + kFragmentStepSize)
                  in bindE (new_data n) (\<lambda>new_pkt.
                     bindE (mem_read (unat (pk_size d)) (pk_data d)) (\<lambda>old.
                     bindE (write_data 0 old new_pkt) (\<lambda>new_pkt.
                       Inr (SetPacketSize (unat (pk_size d)) new_pkt, n)))))
            else Inr (d, fr_buf_size f)) = Inr (q, m)" "packet_ok q" "body q = fragment_bytes f"
      "unat (pk_size q) = fr_data_size f" "length (pk_data q) = m" "m < 2 ^ 31" "?need \<le> m" by blast
  have fits: "unat (pk_size q) + length b \<le> length (pk_data q)" using q(4,5,7) by simp
  then obtain p where p: "write_data (unat (pk_size q)) b q = Inr p" by (auto simp: write_data_def)
  have len: "length (pk_data p) = length (pk_data q)" using p fits by (auto simp: write_data_def split: if_splits)
  note w = write_data_body [OF q(2) fits p]
  have "Fragment_Write b f = Inr (f\<lparr>fr_data := Some (UpdatePacketSize (length b) p), fr_buf_size := m,
      fr_data_size := ?need\<rparr>)"
    unfolding Fragment_Write_def d(1) bindE.simps q(1) prod.case p ..
  then show ?thesis using w q(3-6) len
    by (auto simp: fragment_ok_def fragment_bytes_def UpdatePacketSize_def)
qed

text \<open>A segment holds exactly the packets written to it. Any run of writes to a segment in its invariant
  succeeds as long as the bytes stay 128 KiB below \<open>2 ^ 31\<close>: the buffer grows as often as it has to,
  nothing written before is lost, and the bytes of the segment are those it had and those written, in
  their order, and so is its size.\<close>

theorem segment_holds_writes:
  assumes "fragment_ok f" "room_for (length (concat packets)) f"
  shows "\<exists>f'. write_all fragment_ops packets f = Inr f' \<and> fragment_ok f' \<and>
    fragment_bytes f' = fragment_bytes f @ concat packets \<and> fr_data_size f' = length (fragment_bytes f')"
  using assms
proof (induction packets arbitrary: f)
  case Nil
  then show ?case
    by (auto simp: fragment_ok_def fragment_bytes_def body_def packet_ok_def word_le_nat_alt min_def split: option.splits)
next
  case (Cons b bs)
  have "room_for (length b) f" using Cons.prems(2) by (simp add: room_for_def)
  then obtain v where v: "Fragment_Write b f = Inr v" "fragment_ok v" "fragment_bytes v = fragment_bytes f @ b"
      "fr_data_size v = fr_data_size f + length b" using Fragment_Write_ok [OF Cons.prems(1)] by blast
  have "room_for (length (concat bs)) v" using Cons.prems(2) v(4) by (simp add: room_for_def)
  then obtain f' where "write_all fragment_ops bs v = Inr f'" "fragment_ok f'"
      "fragment_bytes f' = fragment_bytes v @ concat bs" "fr_data_size f' = length (fragment_bytes f')"
    using Cons.IH [OF v(2)] by blast
  then show ?case using v by (simp add: fragment_ops_def del: bindE_eq_Inr)
qed

lemma segment_holds_writes_witness:
  "\<exists>f'. write_all fragment_ops [[1, 2], [3]] Fragment_new = Inr f' \<and> fragment_ok f' \<and>
    fragment_bytes f' = fragment_bytes Fragment_new @ concat [[1, 2], [3]] \<and> fr_data_size f' = length (fragment_bytes f')"
  by (rule segment_holds_writes [OF Fragment_new_ok(1)]) (simp add: room_for_def Fragment_new_def kFragmentStepSize_def)

text \<open>A write that succeeds has appended, whatever the size.\<close>

lemma Fragment_Write_appends:
  assumes "fragment_ok f" "length b < 2 ^ 32" "Fragment_Write b f = Inr f'"
  shows "fragment_ok f' \<and> fragment_bytes f' = fragment_bytes f @ b"
proof -
  let ?need = "fr_data_size f + length b" and ?n = "grow (fr_data_size f + length b) (fr_buf_size f + kFragmentStepSize)"
  from assms(3) obtain d q m p where d: "(case fr_data f of None \<Rightarrow> new_data (fr_buf_size f) | Some d \<Rightarrow> Inr d) = Inr d"
    and q: "(if pk_capacity d - pk_size d < of_nat (length b)
            then (let n = ?n
                  in bindE (new_data n) (\<lambda>new_pkt.
                     bindE (mem_read (unat (pk_size d)) (pk_data d)) (\<lambda>old.
                     bindE (write_data 0 old new_pkt) (\<lambda>new_pkt.
                       Inr (SetPacketSize (unat (pk_size d)) new_pkt, n)))))
            else Inr (d, fr_buf_size f)) = Inr (q, m)"
    and p: "write_data (unat (pk_size q)) b q = Inr p"
    and f': "f' = f\<lparr>fr_data := Some (UpdatePacketSize (length b) p), fr_buf_size := m, fr_data_size := ?need\<rparr>"
    unfolding Fragment_Write_def by (auto elim!: bindE_InrE)
  have d': "packet_ok d \<and> body d = fragment_bytes f \<and> unat (pk_size d) = fr_data_size f \<and> length (pk_data d) = fr_buf_size f"
  proof (cases "fr_data f")
    case None
    then show ?thesis using d new_data_ok [of "fr_buf_size f" d] assms(1) by (simp add: fragment_bytes_def fragment_ok_def)
  next
    case (Some x)
    then show ?thesis using assms(1) d by (simp add: fragment_bytes_def fragment_ok_def)
  qed
  have q': "packet_ok q \<and> body q = fragment_bytes f \<and> unat (pk_size q) = fr_data_size f \<and> length (pk_data q) = m \<and> m < 2 ^ 31"
  proof (cases "pk_capacity d - pk_size d < of_nat (length b)")
    case False
    then show ?thesis using q d' assms(1) by (auto simp: fragment_ok_def)
  next
    case True
    then obtain x old y where x: "new_data ?n = Inr x" "mem_read (unat (pk_size d)) (pk_data d) = Inr old"
        "write_data 0 old x = Inr y" "q = SetPacketSize (unat (pk_size d)) y" "m = ?n"
      using q by (auto simp: Let_def elim!: bindE_InrE)
    have "old = take (unat (pk_size d)) (pk_data d)" using x(2) by (simp add: mem_read_eq_Inr)
    moreover have "unat (pk_size d) \<le> length (pk_data x)" using new_data_ok [OF x(1)] grow_ge [of ?need "fr_buf_size f + kFragmentStepSize"] d' by simp
    moreover have "?n < 2 ^ 31" using x(1) by (auto simp: new_data_def split: if_splits)
    ultimately show ?thesis using copied_packet [of d x y] new_data_ok [OF x(1)] x(3-5) d' by (simp add: SetPacketSize_def)
  qed
  have fits: "unat (pk_size q) + length b \<le> length (pk_data q)" "length (pk_data p) = length (pk_data q)"
    using p by (auto simp: write_data_def split: if_splits)
  show ?thesis using write_data_body [OF conjunct1 [OF q'] fits(1) p] q' fits(2)
    by (auto simp: f' fragment_ok_def fragment_bytes_def UpdatePacketSize_def)
qed

text \<open>The number and the name of a segment are never touched by the encoder.\<close>

definition segment_ok :: "u32 \<Rightarrow> str \<Rightarrow> fragment \<Rightarrow> bool" where
  "segment_ok n v f \<longleftrightarrow> fragment_ok f \<and> fr_sequence_no f = n \<and> fr_filename f = v"

lemma Fragment_Write_keeps:
  "Fragment_Write b f = Inr f' \<Longrightarrow> fr_sequence_no f' = fr_sequence_no f \<and> fr_filename f' = fr_filename f"
  by (auto simp: Fragment_Write_def elim!: bindE_InrE)

interpretation segment: ts_writer fragment_ops "segment_ok n v" fragment_bytes for n v
proof
  fix w :: fragment and t b w'
  assume "segment_ok n v w" "length b = 188" "WriteTs fragment_ops b w = Inr w'"
  then show "segment_ok n v w' \<and> fragment_bytes w' = fragment_bytes w @ b"
    using Fragment_Write_appends [of w b w'] Fragment_Write_keeps [of b w w'] by (simp add: fragment_ops_def segment_ok_def)
qed (auto simp: fragment_ops_def Fragment_AppendTimeStamp_def Let_def SetSPS_def SetPPS_def SetSpsPpsAppended_def
      segment_ok_def fragment_ok_def fragment_bytes_def split: option.splits)

lemma segment_appended:
  assumes "segment.appended (fr_sequence_no f) (fr_filename f) f f'" "fragment_ok f"
  shows "fragment_ok f' \<and> fr_sequence_no f' = fr_sequence_no f \<and> fr_filename f' = fr_filename f \<and>
    (\<exists>packets. ts_sized packets \<and> fragment_bytes f' = fragment_bytes f @ concat packets)"
  using assms by (auto simp: segment.appended_def segment_ok_def)

text \<open>C28: Whatever the packets of a stream hold, a segment stays a whole number of transport packets. Every
  call of the encoder on a segment that returns, for audio, video or anything else, well-formed or
  not, leaves the segment in its invariant and its bytes those before followed by packets of 188
  bytes each; so do the calls that announce streams and that write the tables.\<close>

theorem segment_whole_packets:
  assumes "fragment_ok f"
    and "Encode fragment_ops data dts e f = Inr (r, e', f') \<or> SetStreamType fragment_ops vc ac e f = Inr (e', f') \<or>
      WritePatPmt fragment_ops e f = Inr (e', f')"
  shows "fragment_ok f' \<and> (\<exists>packets. list_all (\<lambda>k. length k = 188) packets \<and>
    fragment_bytes f' = fragment_bytes f @ concat packets)"
proof -
  have "segment.appended (fr_sequence_no f) (fr_filename f) f f'"
    using assms(2)
    by (elim disjE) (erule segment.Encode_appended segment.SetStreamType_appended segment.WritePatPmt_appended)+
  then show ?thesis using segment_appended [OF _ assms(1)] by blast
qed

text \<open>A tag of AAC with a frame of two bytes fills one packet.\<close>

lemma one_packet:
  assumes "list_all readable ss" "n = length (sample_concat ss)" "0 < n" "n \<le> 157" "p < 0x2000"
  shows "\<exists>b c'. pes_loop ops k p True n ss c w = bindE (WriteTs ops b w) (\<lambda>w. Inr (c', w)) \<and> length b = 188"
proof -
  let ?c = "(c + 1) AND 0xf" and ?bs = "sample_concat ss"
  let ?hdr = "packet_header k p True ?c (length ?bs)"
  let ?b = "adapt ?hdr (188 - length ?hdr - payload_room ?hdr (length ?bs)) @ take (payload_room ?hdr (length ?bs)) ?bs"
  have "payload_room ?hdr (length ?bs) = length ?bs"
    using assms(2,4) length_packet_header(2) [of k p True ?c n] by (simp add: payload_room_def)
  moreover have "?bs \<noteq> []" using assms(2,3) by auto
  ultimately have "pes_cut k p True c ?bs = ([?b], ?c)"
    by (subst pes_cut.simps) (simp add: Let_def pes_cut.simps [of k p False ?c "[]"])
  then obtain b where cut: "pes_cut k p True c ?bs = ([b], ?c)" by blast
  have "es_payload p c True [b] \<noteq> None" using es_cut [OF assms(5) _ cut] assms(2,3) by auto
  then have "length b = 188" by (simp add: Let_def split: if_splits)
  then show ?thesis using pes_loop_cut [OF assms(1,2), of ops k p True c w] cut by (auto simp del: bindE_eq_Inr)
qed

definition one_frame :: "unit packet" where
  "one_frame = \<lparr>pk_type = 2, pk_size = 4, pk_index = 0, pk_timestamp = 40, pk_capacity = 4, pk_data = [0xaf, 1, 0x21, 0x10], pk_ext = None\<rparr>"

definition aac_stream :: ts_encoder where
  "aac_stream = (TsEncoder_new 0 None)\<lparr>te_audio := (AudioEncoder_new 0)\<lparr>ae_demux := (AudioDemux_new 2)\<lparr>aac_ok := True\<rparr>, ae_pid := 0x101\<rparr>\<rparr>"

lemma one_frame_encoded:
  "\<exists>e f. Encode fragment_ops one_frame 40 aac_stream Fragment_new = Inr (0, e, f) \<and> length (fragment_bytes f) = 188"
proof -
  let ?f = "Fragment_AppendTimeStamp 40 Fragment_new"
  let ?d = "(AudioDemux_new 2)\<lparr>aac_ok := True, sound_format := 10, sound_rate := 0x20, sound_size := 1, sound_type := 1\<rparr>"
  let ?ss = "[SampleBuf (adts_header ?d 9) 7, SampleBuf [0x21, 0x10] 2]"
  have ss: "list_all readable ?ss" "9 = length (sample_concat ?ss)"
    by (simp_all add: readable_def SampleBuf_def sample_bytes_def adts_header_def Let_def)
  obtain b c' where b: "pes_loop fragment_ops (AudioPes 3600) 0x101 True 9 ?ss (-1) ?f = bindE (WriteTs fragment_ops b ?f) (\<lambda>w. Inr (c', w))"
      "length b = 188"
    using one_packet [where p = "0x101" and ops = fragment_ops and k = "AudioPes 3600" and c = "-1" and w = ?f, OF ss] by auto
  have "fragment_ok ?f" "fragment_bytes ?f = []" "room_for (length b) ?f"
    using b(2) by (simp_all add: Fragment_AppendTimeStamp_def Fragment_new_def fragment_ok_def fragment_bytes_def room_for_def
        kFragmentStepSize_def Let_def)
  then obtain f where f: "Fragment_Write b ?f = Inr f" "fragment_bytes f = b" using Fragment_Write_ok [of ?f b] by auto
  have "AudioDemux_OnDemux [0xaf, 1, 0x21, 0x10] 4 ((AudioDemux_new 2)\<lparr>aac_ok := True\<rparr>) [] = Inr (0, ?d, [SampleBuf [0x21, 0x10] 2])"
    by (simp add: AudioDemux_OnDemux_def DemuxAAC_def AudioDemux_new_def size_sub_def)
  then have "Encode fragment_ops one_frame 40 aac_stream Fragment_new =
      Inr (0, aac_stream\<lparr>te_audio := (te_audio aac_stream)\<lparr>ae_demux := ?d, ae_cc := c'\<rparr>\<rparr>, f)"
    using b(1) f(1)
    by (simp add: Encode_def one_frame_def IsAudio_def EncodeAudio_def aac_stream_def AudioEncoder_new_def Ts_IsCodecHeader_def
        PacketSize_def element_def EncodeAAC_def WriteAudioPes_def fragment_ops_def SampleBuf_def Let_def del: bindE_eq_Inr)
  then show ?thesis using f(2) b(2) by auto
qed

lemma segment_whole_packets_witness:
  "\<exists>e f packets. Encode fragment_ops one_frame 40 aac_stream Fragment_new = Inr (0, e, f) \<and> length (fragment_bytes f) = 188 \<and>
    fragment_ok f \<and> list_all (\<lambda>k. length k = 188) packets \<and> fragment_bytes f = fragment_bytes Fragment_new @ concat packets"
proof -
  obtain e f where f: "Encode fragment_ops one_frame 40 aac_stream Fragment_new = Inr (0, e, f)" "length (fragment_bytes f) = 188"
    using one_frame_encoded by blast
  then have "Encode fragment_ops one_frame 40 aac_stream Fragment_new = Inr (0, e, f) \<or>
      SetStreamType fragment_ops 0 0 aac_stream Fragment_new = Inr (e, f) \<or> WritePatPmt fragment_ops aac_stream Fragment_new = Inr (e, f)"
    by simp
  from segment_whole_packets [OF Fragment_new_ok(1) this] f show ?thesis by blast
qed

end
