(* ===== verification/Hls.thy ===== *)
theory Hls
  imports Fragment
begin

text \<open>
  The HLS muxer, \<open>src/mmedia/hls/FragmentWindow.{h,cpp}\<close> and \<open>HLSMuxer.{h,cpp}\<close>: it cuts a stream into
  segments, keeps the last five in a window and prints a playlist of them. Segments are shared
  pointers, which the HTTP side holds as well, so they are references into a heap here: an
  operation on a segment is seen by everyone who has the reference. The lock of the window makes each
  of its operations one step. Durations are printed through a \<open>double\<close> with three decimals, which
  is exact for the milliseconds of a segment. The clock is an argument.
\<close>

section \<open>The heap of segments\<close>

record fragment_heap =
  fragment_at :: "nat \<Rightarrow> fragment"
  next_ref :: nat

definition on_fragment :: "nat \<Rightarrow> (fragment \<Rightarrow> fragment) \<Rightarrow> fragment_heap \<Rightarrow> fragment_heap" where
  "on_fragment r f h = h\<lparr>fragment_at := (fragment_at h)(r := f (fragment_at h r))\<rparr>"

text \<open>\<open>std::make_shared<Fragment> ()\<close>.\<close>

definition new_fragment :: "fragment_heap \<Rightarrow> nat \<times> fragment_heap" where
  "new_fragment h =
     (next_ref h, h\<lparr>fragment_at := (fragment_at h)(next_ref h := Fragment_new), next_ref := next_ref h + 1\<rparr>)"

section \<open>The window\<close>

record fragment_window =
  window_size :: nat
  fragments :: "nat list"
  free_fragments :: "nat list"
  playlist :: str

definition FragmentWindow_new :: "nat \<Rightarrow> fragment_window" where
  "FragmentWindow_new n = \<lparr>window_size = n, fragments = [], free_fragments = [], playlist = []\<rparr>"

fun shrink_loop :: "nat \<Rightarrow> fragment_window \<Rightarrow> fragment_heap \<Rightarrow> fragment_window \<times> fragment_heap" where
  "shrink_loop 0 w h = (w, h)"
| "shrink_loop (Suc n) w h =
     (case fragments w of
        [] \<Rightarrow> (w, h)
      | p # ps \<Rightarrow> shrink_loop n (w\<lparr>fragments := ps, free_fragments := free_fragments w @ [p]\<rparr>)
                    (on_fragment p Fragment_Reset h))"

definition Shrink :: "fragment_window \<Rightarrow> fragment_heap \<Rightarrow> fragment_window \<times> fragment_heap" where
  "Shrink w h =
     (if length (fragments w) \<le> window_size w then (w, h)
      else shrink_loop (length (fragments w) - window_size w) w h)"

text \<open>A duration in milliseconds divided by \<open>1000.0\<close>, with three decimals.\<close>

definition print_seconds :: "int \<Rightarrow> str" where
  "print_seconds n =
     (let k = nat (abs n); ms = k mod 1000
      in (if n < 0 then lit ''-'' else []) @ digits 10 (k div 1000) @ lit ''.'' @
         [digit_char (ms div 100), digit_char (ms div 10 mod 10), digit_char (ms mod 10)])"

definition max_duration :: "fragment list \<Rightarrow> int" where
  "max_duration fs = foldl (\<lambda>m f. max m (sint (ucast (fr_duration f) :: u32))) 0 fs"

definition print_playlist :: "fragment list \<Rightarrow> str" where
  "print_playlist fs =
     lit ''#EXTM3U'' @ [10] @ lit ''#EXT-X-VERSION:3 '' @ [10] @
     lit ''#EXT-X-TARGETDURATION:'' @ to_string ((max_duration fs + 999) div 1000) @ [10] @
     lit ''#EXT-X-MEDIA-SEQUENCE:'' @ to_string (sint (fr_sequence_no (fs ! 0))) @ [10] @
     concat (map (\<lambda>f. lit ''#EXTINF:'' @ print_seconds (Duration f) @ [10] @ fr_filename f @ [10]) fs)"

definition UpdatePlayList :: "fragment_window \<Rightarrow> fragment_heap \<Rightarrow> fragment_window" where
  "UpdatePlayList w h =
     (let n = length (fragments w)
      in if n < 3 then w
         else w\<lparr>playlist := print_playlist (map (fragment_at h) (drop (if 5 < n then n - 5 else 0) (fragments w)))\<rparr>)"

definition AppendFragment :: "nat \<Rightarrow> fragment_window \<Rightarrow> fragment_heap \<Rightarrow> fragment_window \<times> fragment_heap" where
  "AppendFragment r w h =
     (let (w, h) = Shrink (w\<lparr>fragments := fragments w @ [r]\<rparr>) h in (UpdatePlayList w h, h))"

definition GetIdleFragment :: "fragment_window \<Rightarrow> fragment_heap \<Rightarrow> nat \<times> fragment_window \<times> fragment_heap" where
  "GetIdleFragment w h =
     (case free_fragments w of
        [] \<Rightarrow> (case new_fragment h of (r, h) \<Rightarrow> (r, w, h))
      | p # ps \<Rightarrow> (p, w\<lparr>free_fragments := ps\<rparr>, h))"

definition GetFragmentByName :: "str \<Rightarrow> fragment_window \<Rightarrow> fragment_heap \<Rightarrow> nat option" where
  "GetFragmentByName name w h = find (\<lambda>r. fr_filename (fragment_at h r) = name) (fragments w)"

section \<open>The muxer\<close>

record hls_muxer =
  hm_window :: fragment_window
  hm_encoder :: ts_encoder
  hm_current :: "nat option"
  hm_name :: str
  hm_seq_no :: u64
  hm_heap :: fragment_heap

definition min_fragment_size :: int where "min_fragment_size = 3000"
definition max_fragment_size :: int where "max_fragment_size = 12000"

definition HLSMuxer_new :: "str \<Rightarrow> u32 \<Rightarrow> u32 list option \<Rightarrow> hls_muxer" where
  "HLSMuxer_new session_name g tbl =
     (let list = SplitString session_name (lit ''/'')
      in \<lparr>hm_window = FragmentWindow_new 5, hm_encoder = TsEncoder_new g tbl, hm_current = None,
          hm_name = (if length list = 3 then list ! 2 else []), hm_seq_no = 0,
          hm_heap = \<lparr>fragment_at = (\<lambda>_. Fragment_new), next_ref = 0\<rparr>\<rparr>)"

definition PlayList :: "hls_muxer \<Rightarrow> str" where
  "PlayList m = playlist (hm_window m)"

definition GetFragment :: "str \<Rightarrow> hls_muxer \<Rightarrow> nat option" where
  "GetFragment name m = GetFragmentByName name (hm_window m) (hm_heap m)"

definition Hls_IsCodecHeader :: "'e packet \<Rightarrow> bool res" where
  "Hls_IsCodecHeader packet =
     (if 1 < PacketSize packet then bindE (element 1 (pk_data packet)) (\<lambda>b. Inr (b = 0)) else Inr False)"

text \<open>A call of the encoder on the segment \<open>r\<close>.\<close>

definition with_fragment ::
    "nat \<Rightarrow> (ts_encoder \<Rightarrow> fragment \<Rightarrow> (ts_encoder \<times> fragment) res) \<Rightarrow> hls_muxer \<Rightarrow> hls_muxer res" where
  "with_fragment r call m =
     bindE (call (hm_encoder m) (fragment_at (hm_heap m) r)) (\<lambda>(e, f).
       Inr (m\<lparr>hm_encoder := e, hm_heap := on_fragment r (\<lambda>_. f) (hm_heap m)\<rparr>))"

definition ParseCodec :: "nat \<Rightarrow> 'e packet \<Rightarrow> hls_muxer \<Rightarrow> hls_muxer res" where
  "ParseCodec r packet m =
     (if IsAudio packet
      then bindE (element 0 (pk_data packet)) (\<lambda>b.
             with_fragment r (SetStreamType fragment_ops 0 (ucast (drop_bit 4 (b AND 0xf0)))) m)
      else if IsVideo packet
      then bindE (element 0 (pk_data packet)) (\<lambda>b.
             with_fragment r (SetStreamType fragment_ops (b AND 0x0f) 0) m)
      else Inr m)"

definition cut_due :: "'e packet \<Rightarrow> fragment \<Rightarrow> bool" where
  "cut_due packet f \<longleftrightarrow> IsKeyFrame packet \<and> min_fragment_size \<le> Duration f \<or> max_fragment_size < Duration f"

definition end_segment :: "'e packet \<Rightarrow> hls_muxer \<Rightarrow> hls_muxer" where
  "end_segment packet m =
     (case hm_current m of
        None \<Rightarrow> m
      | Some r \<Rightarrow>
          if cut_due packet (fragment_at (hm_heap m) r)
          then (case AppendFragment r (hm_window m) (hm_heap m) of
                  (w, h) \<Rightarrow> m\<lparr>hm_window := w, hm_heap := h, hm_current := None\<rparr>)
          else m)"

definition start_segment :: "u64 \<Rightarrow> hls_muxer \<Rightarrow> (nat \<times> hls_muxer) res" where
  "start_segment now m =
     (case hm_current m of
        Some r \<Rightarrow> Inr (r, m)
      | None \<Rightarrow>
          (case GetIdleFragment (hm_window m) (hm_heap m) of
             (r, w, h) \<Rightarrow>
               let h = on_fragment r (\<lambda>f. SetSequenceNo (ucast (hm_seq_no m))
                         (SetBaseFileName (hm_name m) now (Fragment_Reset f))) h;
                   m = m\<lparr>hm_window := w, hm_heap := h, hm_current := Some r, hm_seq_no := hm_seq_no m + 1\<rparr>
               in bindE (with_fragment r (WritePatPmt fragment_ops) m) (\<lambda>m. Inr (r, m))))"

definition Hls_OnPacket :: "u64 \<Rightarrow> 'e packet \<Rightarrow> hls_muxer \<Rightarrow> hls_muxer res" where
  "Hls_OnPacket now packet m =
     bindE (start_segment now (end_segment packet m)) (\<lambda>(r, m).
     bindE (Hls_IsCodecHeader packet) (\<lambda>hdr.
     bindE (if hdr then ParseCodec r packet m else Inr m) (\<lambda>m.
       with_fragment r (\<lambda>e f. bindE (Encode fragment_ops packet (pk_timestamp packet) e f) (\<lambda>(ret, e, f). Inr (e, f))) m)))"

section \<open>The invariant\<close>

text \<open>Segments hold whole transport packets.\<close>

definition whole :: "fragment \<Rightarrow> bool" where
  "whole f \<longleftrightarrow> fragment_ok f \<and> 188 dvd length (fragment_bytes f)"

text \<open>The sequence numbers of a list of segments run up to the one before \<open>s\<close>.\<close>

definition numbered :: "u64 \<Rightarrow> u32 list \<Rightarrow> bool" where
  "numbered s xs \<longleftrightarrow> xs = map (\<lambda>i. ucast (s - of_nat (length xs - i))) [0..<length xs]"

definition live_refs :: "hls_muxer \<Rightarrow> nat list" where
  "live_refs m = fragments (hm_window m) @ (case hm_current m of None \<Rightarrow> [] | Some r \<Rightarrow> [r])"

definition seq_at :: "hls_muxer \<Rightarrow> nat \<Rightarrow> u32" where
  "seq_at m r = fr_sequence_no (fragment_at (hm_heap m) r)"

definition hls_inv :: "hls_muxer \<Rightarrow> bool" where
  "hls_inv m \<longleftrightarrow>
     distinct (live_refs m @ free_fragments (hm_window m)) \<and>
     list_all (\<lambda>r. r < next_ref (hm_heap m)) (live_refs m @ free_fragments (hm_window m)) \<and>
     (\<forall>r. whole (fragment_at (hm_heap m) r)) \<and>
     window_size (hm_window m) = 5 \<and> length (fragments (hm_window m)) \<le> 5 \<and>
     numbered (hm_seq_no m) (map (seq_at m) (live_refs m)) \<and>
     list_all (\<lambda>r. min_fragment_size \<le> Duration (fragment_at (hm_heap m) r)) (fragments (hm_window m)) \<and>
     playlist (hm_window m) = (if length (fragments (hm_window m)) < 3 then []
       else print_playlist (map (fragment_at (hm_heap m)) (fragments (hm_window m)))) \<and>
     length (free_fragments (hm_window m)) \<le> 1 \<and> (hm_current m = None \<or> free_fragments (hm_window m) = [])"

lemma numbered_iff: "numbered s xs \<longleftrightarrow> (\<forall>i < length xs. xs ! i = ucast (s - of_nat (length xs - i)))"
proof -
  have "ys = map f [0..<length ys] \<longleftrightarrow> (\<forall>i < length ys. ys ! i = f i)" for ys :: "u32 list" and f
    using list_eq_iff_nth_eq [of ys "map f [0..<length ys]"] by simp
  then show ?thesis unfolding numbered_def .
qed

lemma numbered_Nil: "numbered s []"
  by (simp add: numbered_def)

lemma numbered_snoc:
  assumes "numbered s xs"
  shows "numbered (s + 1) (xs @ [ucast s])"
  unfolding numbered_iff
proof (intro allI impI)
  fix i assume "i < length (xs @ [ucast s :: u32])"
  then have i: "i \<le> length xs" by simp
  have step: "s + 1 - of_nat (length (xs @ [ucast s :: u32]) - i) = s - of_nat (length xs - i)"
  proof -
    have "length (xs @ [ucast s :: u32]) - i = Suc (length xs - i)" using i by simp
    then show ?thesis by (simp only: of_nat_Suc) simp
  qed
  show "(xs @ [ucast s]) ! i = ucast (s + 1 - of_nat (length (xs @ [ucast s :: u32]) - i))"
  proof (cases "i = length xs")
    case True
    then show ?thesis unfolding step by simp
  next
    case False
    with i have "i < length xs" by simp
    with assms have "xs ! i = ucast (s - of_nat (length xs - i))" unfolding numbered_iff by blast
    then show ?thesis unfolding step using \<open>i < length xs\<close> by (simp only: nth_append if_True)
  qed
qed

lemma numbered_tl:
  assumes "numbered s (x # xs)"
  shows "numbered s xs"
  unfolding numbered_iff
proof (intro allI impI)
  fix i assume "i < length xs"
  then have "(x # xs) ! Suc i = ucast (s - of_nat (length (x # xs) - Suc i))"
    using assms unfolding numbered_iff by (metis length_Cons Suc_less_eq)
  then show "xs ! i = ucast (s - of_nat (length xs - i))" by (simp only: nth_Cons_Suc length_Cons diff_Suc_Suc)
qed

text \<open>The work on one segment leaves the others alone.\<close>

lemma fragment_at_on [simp]:
  "fragment_at (on_fragment r f h) q = (if q = r then f (fragment_at h r) else fragment_at h q)"
  "next_ref (on_fragment r f h) = next_ref h"
  by (simp_all add: on_fragment_def)

lemma whole_simps:
  "whole Fragment_new" "whole f \<Longrightarrow> whole (Fragment_Reset f)"
  "whole (SetSequenceNo n f) \<longleftrightarrow> whole f" "whole (SetBaseFileName v now f) \<longleftrightarrow> whole f"
  using Fragment_new_ok Fragment_Reset_ok [of f]
  by (auto simp: whole_def SetSequenceNo_def SetBaseFileName_def fragment_ok_def fragment_bytes_def split: option.splits)

lemma fresh_fragment:
  assumes "whole f"
  shows "whole (SetSequenceNo n (SetBaseFileName v now (Fragment_Reset f)))"
    "fragment_bytes (SetSequenceNo n (SetBaseFileName v now (Fragment_Reset f))) = []"
    "fr_filename (SetSequenceNo n (SetBaseFileName v now (Fragment_Reset f))) = v @ lit ''_'' @ to_string (sint now) @ lit ''.ts''"
proof -
  show "whole (SetSequenceNo n (SetBaseFileName v now (Fragment_Reset f)))"
    by (simp only: whole_simps(3,4)) (rule whole_simps(2) [OF assms])
  have "fragment_ok f" using assms by (simp add: whole_def)
  then have "fragment_bytes (Fragment_Reset f) = []" by (rule Fragment_Reset_ok [THEN conjunct2])
  then show "fragment_bytes (SetSequenceNo n (SetBaseFileName v now (Fragment_Reset f))) = []"
    by (simp add: fragment_bytes_def SetSequenceNo_def SetBaseFileName_def)
  show "fr_filename (SetSequenceNo n (SetBaseFileName v now (Fragment_Reset f))) = v @ lit ''_'' @ to_string (sint now) @ lit ''.ts''"
    by (simp add: SetSequenceNo_def SetBaseFileName_def)
qed

abbreviation encoded :: "fragment \<Rightarrow> fragment \<Rightarrow> bool" where
  "encoded f f' \<equiv> segment.appended (fr_sequence_no f) (fr_filename f) f f'"

lemma whole_encoded:
  assumes "whole f" "encoded f f'"
  shows "whole f' \<and> fr_sequence_no f' = fr_sequence_no f \<and> fr_filename f' = fr_filename f"
proof -
  obtain packets where p: "fragment_ok f'" "ts_sized packets" "fragment_bytes f' = fragment_bytes f @ concat packets"
      "fr_sequence_no f' = fr_sequence_no f" "fr_filename f' = fr_filename f"
    using assms segment_appended [OF assms(2)] by (auto simp: whole_def)
  have "188 dvd length (concat packets)" using p(2) by (induction packets) auto
  then show ?thesis using assms(1) p by (simp add: whole_def)
qed

lemma with_fragment_inv:
  assumes "hls_inv m" "hm_current m = Some r" "with_fragment r call m = Inr m'"
    and "\<And>e f e' f'. call e f = Inr (e', f') \<Longrightarrow> encoded f f'"
  shows "hls_inv m' \<and> hm_current m' = Some r \<and> hm_window m' = hm_window m \<and> hm_seq_no m' = hm_seq_no m \<and>
    encoded (fragment_at (hm_heap m) r) (fragment_at (hm_heap m') r)"
proof -
  obtain e f where c: "call (hm_encoder m) (fragment_at (hm_heap m) r) = Inr (e, f)"
      "m' = m\<lparr>hm_encoder := e, hm_heap := on_fragment r (\<lambda>_. f) (hm_heap m)\<rparr>"
    using assms(3) by (auto simp: with_fragment_def)
  let ?w = "hm_window m"
  have enc: "encoded (fragment_at (hm_heap m) r) f" by (rule assms(4) [OF c(1)])
  have wf: "\<forall>q. whole (fragment_at (hm_heap m) q)" using assms(1) by (simp add: hls_inv_def)
  then have f: "whole f" "fr_sequence_no f = fr_sequence_no (fragment_at (hm_heap m) r)"
    using whole_encoded [OF _ enc] by auto
  have refs: "live_refs m' = live_refs m" by (simp add: c(2) live_refs_def)
  have notin: "r \<notin> set (fragments ?w)" using assms(1,2) by (simp add: hls_inv_def live_refs_def)
  have eq: "map (seq_at m') (live_refs m) = map (seq_at m) (live_refs m)"
    by (simp add: seq_at_def c(2) f(2))
  have num: "numbered (hm_seq_no m) (map (seq_at m') (live_refs m))"
    unfolding eq using assms(1) by (simp add: hls_inv_def)
  have fields: "hm_window m' = ?w" "hm_current m' = hm_current m" "hm_seq_no m' = hm_seq_no m"
      "next_ref (hm_heap m') = next_ref (hm_heap m)" "fragment_at (hm_heap m') r = f" by (simp_all add: c(2))
  have wf': "\<forall>q. whole (fragment_at (hm_heap m') q)" using wf f(1) by (simp add: c(2))
  have other: "fragment_at (hm_heap m') q = fragment_at (hm_heap m) q" if "q \<in> set (fragments ?w)" for q
    using that notin by (auto simp: c(2))
  have list: "map (fragment_at (hm_heap m')) (fragments ?w) = map (fragment_at (hm_heap m)) (fragments ?w)"
    using other by simp
  have "list_all (\<lambda>q. min_fragment_size \<le> Duration (fragment_at (hm_heap m') q)) (fragments ?w)"
    using assms(1) other by (auto simp: hls_inv_def list_all_iff)
  moreover have "playlist ?w = (if length (fragments ?w) < 3 then [] else print_playlist (map (fragment_at (hm_heap m')) (fragments ?w)))"
    unfolding list using assms(1) by (simp add: hls_inv_def)
  ultimately show ?thesis using assms(1,2) enc num wf' unfolding hls_inv_def refs fields by simp
qed

text \<open>The end of a segment: it joins the window, and the oldest one leaves it when there are six.\<close>

lemma AppendFragment_eq:
  assumes "window_size w = 5" "length (fragments w) \<le> 5" "AppendFragment r w h = (w', h')"
    and "length (fragments w) < 3 \<Longrightarrow> playlist w = []"
  shows "(length (fragments w) < 5 \<longrightarrow> fragments w' = fragments w @ [r] \<and> free_fragments w' = free_fragments w \<and> h' = h) \<and>
    (length (fragments w) = 5 \<longrightarrow> fragments w' = tl (fragments w) @ [r] \<and>
       free_fragments w' = free_fragments w @ [hd (fragments w)] \<and> h' = on_fragment (hd (fragments w)) Fragment_Reset h) \<and>
    window_size w' = 5 \<and>
    playlist w' = (if length (fragments w') < 3 then [] else print_playlist (map (fragment_at h') (fragments w')))"
proof (cases "length (fragments w) = 5")
  case True
  then obtain p ps where p: "fragments w = p # ps" "length ps = 4" by (cases "fragments w") auto
  have "Shrink (w\<lparr>fragments := fragments w @ [r]\<rparr>) h =
      (w\<lparr>fragments := ps @ [r], free_fragments := free_fragments w @ [p]\<rparr>, on_fragment p Fragment_Reset h)"
    using assms(1) p by (simp add: Shrink_def eval_nat_numeral)
  then show ?thesis using assms(3) p assms(1) by (auto simp: AppendFragment_def UpdatePlayList_def)
next
  case False
  then have "Shrink (w\<lparr>fragments := fragments w @ [r]\<rparr>) h = (w\<lparr>fragments := fragments w @ [r]\<rparr>, h)"
    using assms(1,2) by (simp add: Shrink_def)
  moreover have "\<not> 5 < Suc (length (fragments w))" using assms(2) False by simp
  ultimately show ?thesis using assms(1,3,4) False
    by (cases "length (fragments w) < 2") (auto simp: AppendFragment_def UpdatePlayList_def)
qed

lemma end_segment_inv:
  assumes "hls_inv m" "free_fragments (hm_window m) = []"
  shows "hls_inv (end_segment packet m) \<and> hm_seq_no (end_segment packet m) = hm_seq_no m"
proof (cases "\<exists>r. hm_current m = Some r \<and> cut_due packet (fragment_at (hm_heap m) r)")
  case False
  then have "end_segment packet m = m" by (auto simp: end_segment_def split: option.splits)
  then show ?thesis using assms by simp
next
  case True
  then obtain r where r: "hm_current m = Some r" "cut_due packet (fragment_at (hm_heap m) r)" by blast
  let ?w = "hm_window m" and ?h = "hm_heap m"
  obtain w' h' where a: "AppendFragment r ?w ?h = (w', h')" by fastforce
  have m': "end_segment packet m = m\<lparr>hm_window := w', hm_heap := h', hm_current := None\<rparr>" using r a by (simp add: end_segment_def)
  have inv: "distinct (fragments ?w @ [r])" "list_all (\<lambda>r. r < next_ref ?h) (fragments ?w @ [r])"
      "\<forall>q. whole (fragment_at ?h q)" "window_size ?w = 5" "length (fragments ?w) \<le> 5"
      "numbered (hm_seq_no m) (map (seq_at m) (fragments ?w @ [r]))"
      "list_all (\<lambda>r. min_fragment_size \<le> Duration (fragment_at ?h r)) (fragments ?w)"
      "length (fragments ?w) < 3 \<Longrightarrow> playlist ?w = []"
    using assms r(1) by (simp_all add: hls_inv_def live_refs_def)
  have dur: "min_fragment_size \<le> Duration (fragment_at ?h r)"
    using r(2) by (auto simp: cut_due_def min_fragment_size_def max_fragment_size_def)
  note ap = AppendFragment_eq [OF inv(4,5) a inv(8)]
  show ?thesis
  proof (cases "length (fragments ?w) = 5")
    case False
    then have w': "fragments w' = fragments ?w @ [r]" "free_fragments w' = []" "h' = ?h" "window_size w' = 5"
        "playlist w' = (if length (fragments w') < 3 then [] else print_playlist (map (fragment_at h') (fragments w')))"
      using ap inv(5) assms(2) by auto
    have "seq_at (end_segment packet m) = seq_at m" by (simp add: fun_eq_iff seq_at_def m' w'(3))
    then show ?thesis using inv dur w' False unfolding hls_inv_def live_refs_def by (simp add: m')
  next
    case True
    then obtain p ps where p: "fragments ?w = p # ps" "length ps = 4" by (cases "fragments ?w") auto
    then have w': "fragments w' = ps @ [r]" "free_fragments w' = [p]" "h' = on_fragment p Fragment_Reset ?h" "window_size w' = 5"
        "playlist w' = (if length (fragments w') < 3 then [] else print_playlist (map (fragment_at h') (fragments w')))"
      using ap assms(2) True by auto
    have d: "p \<notin> set (ps @ [r])" "distinct (ps @ [r])" using inv(1) p by auto
    have eq: "map (seq_at (end_segment packet m)) (ps @ [r]) = map (seq_at m) (ps @ [r])"
      using d(1) by (auto simp: seq_at_def m' w'(3))
    have num: "numbered (hm_seq_no m) (map (seq_at (end_segment packet m)) (ps @ [r]))"
      unfolding eq using inv(6) p by (auto dest: numbered_tl)
    have durs: "list_all (\<lambda>q. min_fragment_size \<le> Duration (fragment_at h' q)) (ps @ [r])"
      using inv(7) dur d(1) by (auto simp: w'(3) p list_all_iff)
    have wh: "\<forall>q. whole (fragment_at h' q)" using inv(3) by (simp add: w'(3) whole_simps(2))
    show ?thesis using inv(1,2) num durs wh d w' p unfolding hls_inv_def live_refs_def
      by (simp add: m' del: map_append)
  qed
qed

lemma start_segment_inv:
  assumes "hls_inv m" "start_segment now m = Inr (r, m')"
  shows "hls_inv m' \<and> hm_current m' = Some r \<and> free_fragments (hm_window m') = [] \<and>
    (hm_current m = None \<longrightarrow> r = fst (GetIdleFragment (hm_window m) (hm_heap m)) \<and> (\<exists>f. whole f \<and> fragment_bytes f = [] \<and>
      fr_filename f = hm_name m @ lit ''_'' @ to_string (sint now) @ lit ''.ts'' \<and> encoded f (fragment_at (hm_heap m') r)))"
proof (cases "hm_current m")
  case (Some q)
  then have "r = q" "m' = m" using assms(2) by (simp_all add: start_segment_def)
  then show ?thesis using assms(1) Some by (simp add: hls_inv_def)
next
  case None
  let ?w = "hm_window m" and ?h = "hm_heap m"
  obtain q w h where idle: "GetIdleFragment ?w ?h = (q, w, h)" by (cases "GetIdleFragment ?w ?h") auto
  have inv: "distinct (fragments ?w @ free_fragments ?w)" "list_all (\<lambda>r. r < next_ref ?h) (fragments ?w @ free_fragments ?w)"
      "\<forall>q. whole (fragment_at ?h q)" "window_size ?w = 5" "length (fragments ?w) \<le> 5"
      "numbered (hm_seq_no m) (map (seq_at m) (fragments ?w))"
      "list_all (\<lambda>r. min_fragment_size \<le> Duration (fragment_at ?h r)) (fragments ?w)"
      "playlist ?w = (if length (fragments ?w) < 3 then [] else print_playlist (map (fragment_at ?h) (fragments ?w)))"
      "length (free_fragments ?w) \<le> 1"
    using assms(1) None by (simp_all add: hls_inv_def live_refs_def)
  have q: "q \<notin> set (fragments ?w)" "fragments w = fragments ?w" "free_fragments w = []" "window_size w = 5"
      "playlist w = playlist ?w" "q < next_ref h" "next_ref ?h \<le> next_ref h" "\<forall>p. whole (fragment_at h p)"
      "\<And>p. p \<in> set (fragments ?w) \<Longrightarrow> fragment_at h p = fragment_at ?h p"
    using idle inv by (auto simp: GetIdleFragment_def new_fragment_def list_all_iff whole_simps(1) split: list.splits)
  define h1 where "h1 = on_fragment q (\<lambda>f. SetSequenceNo (ucast (hm_seq_no m))
                         (SetBaseFileName (hm_name m) now (Fragment_Reset f))) h"
  define m1 where "m1 = m\<lparr>hm_window := w, hm_heap := h1, hm_current := Some q, hm_seq_no := hm_seq_no m + 1\<rparr>"
  have r: "with_fragment q (WritePatPmt fragment_ops) m1 = Inr m'" "r = q"
    using assms(2) None idle by (auto simp: start_segment_def Let_def h1_def m1_def)
  have at: "fragment_at h1 p = fragment_at ?h p" if "p \<in> set (fragments ?w)" for p using that q by (auto simp: h1_def)
  have list: "map (fragment_at h1) (fragments ?w) = map (fragment_at ?h) (fragments ?w)" using at by simp
  have seqs: "map (seq_at m1) (fragments ?w @ [q]) = map (seq_at m) (fragments ?w) @ [ucast (hm_seq_no m)]"
    using at by (simp add: seq_at_def m1_def h1_def SetSequenceNo_def)
  have "numbered (hm_seq_no m + 1) (map (seq_at m1) (fragments ?w @ [q]))"
    unfolding seqs by (rule numbered_snoc [OF inv(6)])
  moreover have "playlist ?w = (if length (fragments ?w) < 3 then [] else print_playlist (map (fragment_at h1) (fragments ?w)))"
    unfolding list by (rule inv(8))
  moreover have "list_all (\<lambda>r. min_fragment_size \<le> Duration (fragment_at h1 r)) (fragments ?w)"
    using inv(7) at by (auto simp: list_all_iff)
  moreover have "\<forall>p. whole (fragment_at h1 p)" using q(8) by (simp add: h1_def whole_simps)
  moreover have "list_all (\<lambda>r. r < next_ref h1) (fragments ?w @ [q])" using inv(2) q(6,7) by (auto simp: h1_def list_all_iff intro: less_le_trans)
  ultimately have "hls_inv m1" using inv(1,4,5) q(1-5) unfolding hls_inv_def live_refs_def by (simp add: m1_def)
  moreover have "hm_current m1 = Some q" by (simp add: m1_def)
  ultimately have m': "hls_inv m' \<and> hm_current m' = Some q \<and> hm_window m' = hm_window m1 \<and>
      encoded (fragment_at (hm_heap m1) q) (fragment_at (hm_heap m') q)"
    using with_fragment_inv [OF _ _ r(1)] segment.WritePatPmt_appended by blast
  have "whole (fragment_at (hm_heap m1) q) \<and> fragment_bytes (fragment_at (hm_heap m1) q) = [] \<and>
      fr_filename (fragment_at (hm_heap m1) q) = hm_name m @ lit ''_'' @ to_string (sint now) @ lit ''.ts''"
    using q(8) by (simp add: m1_def h1_def fresh_fragment)
  then show ?thesis using m' q(3) r(2) idle by (auto simp: m1_def)
qed

lemma encode_call_inv:
  assumes "hls_inv m" "hm_current m = Some r"
    and "with_fragment r (\<lambda>e f. bindE (Encode fragment_ops packet dts e f) (\<lambda>(ret, e, f). Inr (e, f))) m = Inr m'"
  shows "hls_inv m' \<and> hm_current m' = Some r \<and> hm_window m' = hm_window m \<and>
    encoded (fragment_at (hm_heap m) r) (fragment_at (hm_heap m') r)"
proof -
  have enc: "encoded f f'" if "bindE (Encode fragment_ops packet dts e f) (\<lambda>(ret, e, f). Inr (e, f)) = Inr (e', f')" for e f e' f'
    using that by (auto intro: segment.Encode_appended)
  have "hls_inv m' \<and> hm_current m' = Some r \<and> hm_window m' = hm_window m \<and> hm_seq_no m' = hm_seq_no m \<and>
    encoded (fragment_at (hm_heap m) r) (fragment_at (hm_heap m') r)"
    by (rule with_fragment_inv [OF assms]) (rule enc)
  then show ?thesis by blast
qed

lemma ParseCodec_inv:
  assumes "hls_inv m" "hm_current m = Some r" "ParseCodec r packet m = Inr m'"
  shows "hls_inv m' \<and> hm_current m' = Some r \<and> hm_window m' = hm_window m \<and>
    encoded (fragment_at (hm_heap m) r) (fragment_at (hm_heap m') r)"
proof -
  have call: "hls_inv m' \<and> hm_current m' = Some r \<and> hm_window m' = hm_window m \<and>
      encoded (fragment_at (hm_heap m) r) (fragment_at (hm_heap m') r)"
    if "with_fragment r (SetStreamType fragment_ops vc ac) m = Inr m'" for vc ac
    using with_fragment_inv [OF assms(1,2) that] segment.SetStreamType_appended by blast
  show ?thesis using assms(3) call segment.appended_refl assms(1,2) by (auto simp: ParseCodec_def split: if_splits)
qed

lemma OnPacket_inv:
  assumes "hls_inv m" "free_fragments (hm_window m) = []" "Hls_OnPacket now packet m = Inr m'"
  shows "hls_inv m' \<and> free_fragments (hm_window m') = [] \<and> hm_current m' \<noteq> None"
proof -
  obtain r m1 hdr m2 where 1: "start_segment now (end_segment packet m) = Inr (r, m1)"
      and 2: "(if hdr then ParseCodec r packet m1 else Inr m1) = Inr m2"
      and 3: "with_fragment r (\<lambda>e f. bindE (Encode fragment_ops packet (pk_timestamp packet) e f)
        (\<lambda>(ret, e, f). Inr (e, f))) m2 = Inr m'"
    using assms(3) unfolding Hls_OnPacket_def by (auto elim!: bindE_InrE)
  have i1: "hls_inv m1" "hm_current m1 = Some r" "free_fragments (hm_window m1) = []"
    using start_segment_inv [OF conjunct1 [OF end_segment_inv [OF assms(1,2)]] 1] by auto
  then have i2: "hls_inv m2" "hm_current m2 = Some r" "free_fragments (hm_window m2) = []"
    using 2 ParseCodec_inv [OF i1(1,2), of packet m2] by (auto split: if_splits)
  then show ?thesis using encode_call_inv [OF i2(1,2) 3] by simp
qed

text \<open>The states of a muxer: it is made for a session, and packets come in at any times.\<close>

inductive hls_state :: "hls_muxer \<Rightarrow> bool" where
  made: "hls_state (HLSMuxer_new session_name g tbl)"
| packet: "hls_state m \<Longrightarrow> Hls_OnPacket now (p :: unit packet) m = Inr m' \<Longrightarrow> hls_state m'"

lemma HLSMuxer_new_inv: "hls_inv (HLSMuxer_new session_name g tbl)"
  by (simp add: hls_inv_def HLSMuxer_new_def Let_def FragmentWindow_new_def live_refs_def numbered_Nil whole_simps(1))

lemma hls_state_inv: "hls_state m \<Longrightarrow> hls_inv m \<and> free_fragments (hm_window m) = []"
proof (induction rule: hls_state.induct)
  case (made session_name g tbl)
  then show ?case using HLSMuxer_new_inv by (simp add: HLSMuxer_new_def Let_def FragmentWindow_new_def)
next
  case (packet m now p m')
  then show ?case using OnPacket_inv by blast
qed

text \<open>C18: The window of an HLS stream. In every state a muxer can reach, whatever packets have come in and
  at whatever times, the window holds at most five segments, all different from each other and from
  the one being written; every segment is a whole number of transport packets of 188 bytes and lasts,
  once in the window, three seconds or more; the sequence numbers of the window and of the segment
  being written run without a gap up to the last one given out; and the playlist is
  empty below three segments, and from then on the one of exactly the segments in the window.\<close>

theorem hls_window:
  assumes "hls_state m" "segs = map (fragment_at (hm_heap m)) (fragments (hm_window m))"
  shows "length segs \<le> 5 \<and> distinct (live_refs m) \<and> list_all whole segs \<and> list_all (\<lambda>f. 3000 \<le> Duration f) segs \<and>
    map (seq_at m) (live_refs m) =
      map (\<lambda>i. ucast (hm_seq_no m - of_nat (length (live_refs m) - i))) [0..<length (live_refs m)] \<and>
    PlayList m = (if length segs < 3 then [] else print_playlist segs)"
proof -
  have inv: "hls_inv m" using hls_state_inv [OF assms(1)] by simp
  then have "numbered (hm_seq_no m) (map (seq_at m) (live_refs m))" by (simp add: hls_inv_def)
  then have num: "map (seq_at m) (live_refs m) =
      map (\<lambda>i. ucast (hm_seq_no m - of_nat (length (live_refs m) - i))) [0..<length (live_refs m)]"
    unfolding numbered_def length_map .
  show ?thesis
  proof (intro conjI num)
    show "length segs \<le> 5" "distinct (live_refs m)" "list_all whole segs" "list_all (\<lambda>f. 3000 \<le> Duration f) segs"
      using inv by (auto simp: assms(2) hls_inv_def list_all_iff min_fragment_size_def)
    show "PlayList m = (if length segs < 3 then [] else print_playlist segs)"
      using inv by (simp add: assms(2) hls_inv_def PlayList_def)
  qed
qed

text \<open>A run for the witness: tags of AAC without samples, which only move the time on; \<open>ticking n s d\<close> is a muxer with
  \<open>n\<close> segments whose current one started at \<open>s\<close> and lasts \<open>d\<close>.\<close>

definition beep :: "u64 \<Rightarrow> unit packet" where
  "beep t = \<lparr>pk_type = kPacketTypeAudio, pk_size = 2, pk_index = 0, pk_timestamp = t, pk_capacity = 2, pk_data = [0xaf, 2], pk_ext = None\<rparr>"

definition ticking :: "nat \<Rightarrow> u64 \<Rightarrow> u64 \<Rightarrow> hls_muxer \<Rightarrow> bool" where
  "ticking n s d m \<longleftrightarrow> hls_state m \<and> audio_pid (hm_encoder m) = 0xe000 \<and> length (fragments (hm_window m)) = n \<and>
     (\<exists>r. hm_current m = Some r \<and> fr_start_dts (fragment_at (hm_heap m) r) = s \<and> fr_duration (fragment_at (hm_heap m) r) = d)"

lemma Encode_beep:
  "\<exists>e'. Encode fragment_ops (beep t) t e f = Inr (0, e', Fragment_AppendTimeStamp t f) \<and> audio_pid e' = audio_pid e"
  by (simp add: Encode_def beep_def IsAudio_def EncodeAudio_def AudioDemux_OnDemux_def DemuxAAC_def Ts_IsCodecHeader_def EncodeAAC_def
      PacketSize_def fragment_ops_def Let_def)

lemma Hls_OnPacket_beep:
  assumes "start_segment 0 (end_segment (beep t) m) = Inr (r, m1)"
  shows "\<exists>e'. Hls_OnPacket 0 (beep t) m = Inr (m1\<lparr>hm_encoder := e', hm_heap := on_fragment r (Fragment_AppendTimeStamp t) (hm_heap m1)\<rparr>) \<and>
    audio_pid e' = audio_pid (hm_encoder m1)"
proof -
  obtain e' where e: "Encode fragment_ops (beep t) t (hm_encoder m1) (fragment_at (hm_heap m1) r) =
      Inr (0, e', Fragment_AppendTimeStamp t (fragment_at (hm_heap m1) r))" "audio_pid e' = audio_pid (hm_encoder m1)"
    using Encode_beep by blast
  have "Hls_IsCodecHeader (beep t) = Inr False" "pk_timestamp (beep t) = t"
    by (simp_all add: Hls_IsCodecHeader_def beep_def PacketSize_def element_def)
  then show ?thesis using assms e
    by (intro exI [of _ e']) (simp add: Hls_OnPacket_def with_fragment_def on_fragment_def del: bindE_eq_Inr)
qed

lemma beep_key: "cut_due (beep t) f \<longleftrightarrow> max_fragment_size < Duration f"
  by (simp add: cut_due_def beep_def IsKeyFrame_def)

lemma beep_more:
  assumes "ticking n s d m" "sint d \<le> 12000" "s \<noteq> -1" "\<not> t <s s"
  shows "\<exists>m'. ticking n s (t - s) m'"
proof -
  obtain r where r: "hm_current m = Some r" "fr_start_dts (fragment_at (hm_heap m) r) = s" "fr_duration (fragment_at (hm_heap m) r) = d"
    using assms(1) by (auto simp: ticking_def)
  have "start_segment 0 (end_segment (beep t) m) = Inr (r, m)"
    using r assms(2) by (simp add: end_segment_def start_segment_def beep_key max_fragment_size_def Duration_def)
  from Hls_OnPacket_beep [OF this] obtain e' where
    e: "Hls_OnPacket 0 (beep t) m = Inr (m\<lparr>hm_encoder := e', hm_heap := on_fragment r (Fragment_AppendTimeStamp t) (hm_heap m)\<rparr>)"
      "audio_pid e' = audio_pid (hm_encoder m)" by blast
  from hls_state.packet [OF _ e(1)] assms r e(2) show ?thesis
    by (intro exI [of _ "m\<lparr>hm_encoder := e', hm_heap := on_fragment r (Fragment_AppendTimeStamp t) (hm_heap m)\<rparr>"])
      (simp add: ticking_def on_fragment_def Fragment_AppendTimeStamp_def Let_def)
qed

lemma beep_start:
  assumes "hls_state m0" "audio_pid (hm_encoder m0) = 0xe000" "end_segment (beep t) m0 = m" "hm_current m = None"
    and "free_fragments (hm_window m) = []" "length (fragments (hm_window m)) = n" "audio_pid (hm_encoder m) = 0xe000"
  shows "\<exists>m'. ticking n t 0 m'"
proof -
  let ?h = "on_fragment (next_ref (hm_heap m)) (\<lambda>f. SetSequenceNo (ucast (hm_seq_no m)) (SetBaseFileName (hm_name m) 0 (Fragment_Reset f)))
      (snd (new_fragment (hm_heap m)))"
  let ?m = "m\<lparr>hm_heap := ?h, hm_current := Some (next_ref (hm_heap m)), hm_seq_no := hm_seq_no m + 1\<rparr>"
  have "start_segment 0 m = Inr (next_ref (hm_heap m), ?m)"
    using assms(4,5,7) by (simp add: start_segment_def GetIdleFragment_def new_fragment_def with_fragment_def WritePatPmt_def on_fragment_def
        Let_def)
  then have "start_segment 0 (end_segment (beep t) m0) = Inr (next_ref (hm_heap m), ?m)" using assms(3) by simp
  from Hls_OnPacket_beep [OF this] obtain e' m' where
    e: "Hls_OnPacket 0 (beep t) m0 = Inr m'" "audio_pid e' = audio_pid (hm_encoder m)"
      "m' = ?m\<lparr>hm_encoder := e', hm_heap := on_fragment (next_ref (hm_heap m)) (Fragment_AppendTimeStamp t) ?h\<rparr>" by auto
  have "ticking n t 0 m'" using hls_state.packet [OF assms(1) e(1)] assms(6,7) e(2)
    by (simp add: ticking_def e(3) on_fragment_def new_fragment_def Fragment_AppendTimeStamp_def Fragment_new_def Fragment_Reset_def
        SetSequenceNo_def SetBaseFileName_def Let_def)
  then show ?thesis by blast
qed

lemma beep_cut:
  assumes "ticking n s d m" "12000 < sint d" "n < 5"
  shows "\<exists>m'. ticking (n + 1) t 0 m'"
proof -
  obtain r where r: "hls_state m" "audio_pid (hm_encoder m) = 0xe000" "length (fragments (hm_window m)) = n" "hm_current m = Some r"
      "fr_duration (fragment_at (hm_heap m) r) = d"
    using assms(1) by (auto simp: ticking_def)
  have w: "window_size (hm_window m) = 5" "free_fragments (hm_window m) = []" using hls_state_inv [OF r(1)] by (simp_all add: hls_inv_def)
  let ?w = "(hm_window m)\<lparr>fragments := fragments (hm_window m) @ [r]\<rparr>"
  have "Shrink ?w (hm_heap m) = (?w, hm_heap m)" using r(3) assms(3) w(1) by (simp add: Shrink_def)
  then have "end_segment (beep t) m = m\<lparr>hm_window := UpdatePlayList ?w (hm_heap m), hm_current := None\<rparr>"
    using r(4,5) assms(2) by (simp add: end_segment_def beep_key max_fragment_size_def Duration_def AppendFragment_def)
  from beep_start [OF r(1,2) this] show ?thesis using r(2,3) w by (auto simp: UpdatePlayList_def Let_def)
qed

lemma beeps: "\<exists>m. ticking 3 60003 0 m"
proof -
  let ?m = "HLSMuxer_new [] 0 None"
  have "hm_current ?m = None" "audio_pid (hm_encoder ?m) = 0xe000" "hm_window ?m = FragmentWindow_new 5"
    by (simp_all add: HLSMuxer_new_def TsEncoder_new_def Let_def)
  then obtain m0 where m0: "ticking 0 0 0 m0"
    using beep_start [OF hls_state.made [of "[]" 0 None], of 0 ?m 0] by (auto simp: end_segment_def FragmentWindow_new_def)
  obtain m1 where "ticking 0 0 20000 m1" using beep_more [OF m0, of 20000] by (auto simp: word_sless_alt)
  from beep_cut [OF this] obtain m2 where m2: "ticking 1 20001 0 m2" by auto
  obtain m3 where "ticking 1 20001 20000 m3" using beep_more [OF m2, of 40001] by (auto simp: word_sless_alt)
  from beep_cut [OF this] obtain m4 where m4: "ticking 2 40002 0 m4" by (auto simp: numeral_2_eq_2)
  obtain m5 where "ticking 2 40002 20000 m5" using beep_more [OF m4, of 60002] by (auto simp: word_sless_alt)
  from beep_cut [OF this, of 60003] show ?thesis by (simp add: numeral_3_eq_3 numeral_2_eq_2)
qed

lemma hls_window_witness:
  "\<exists>m segs. hls_state m \<and> length segs = 3 \<and> distinct (live_refs m) \<and> list_all whole segs \<and>
    list_all (\<lambda>f. 3000 \<le> Duration f) segs \<and> PlayList m = print_playlist segs"
proof -
  obtain m where "ticking 3 60003 0 m" using beeps by blast
  then have m: "hls_state m" "length (fragments (hm_window m)) = 3" by (simp_all add: ticking_def)
  from hls_window [OF m(1) refl] m show ?thesis
    by (intro exI [of _ m] exI [of _ "map (fragment_at (hm_heap m)) (fragments (hm_window m))"]) simp
qed

section \<open>A segment that is still being sent\<close>

lemma encoded_trans:
  assumes "whole f" "encoded f g" "encoded g h"
  shows "encoded f h"
  using whole_encoded [OF assms(1,2)] assms(2,3) by (auto intro: segment.appended_trans)

text \<open>The segment that leaves the window is written over at once, even while a client still reads it. In
  every reachable state with a full window, a client may have been given the oldest segment by its
  name; when the next packet ends the current segment, that very segment is the one written next: it
  carries a new name, it is no longer in the window, and its bytes are the packets written by this
  call alone.\<close>

theorem served_segment_rewritten:
  assumes "hls_state m" "fragments (hm_window m) = [r, r2, r3, r4, r5]" "hm_current m = Some c"
    and "GetFragment name m = Some r" "cut_due p (fragment_at (hm_heap m) c)" "Hls_OnPacket now p m = Inr m'"
  shows "hm_current m' = Some r \<and> fragments (hm_window m') = [r2, r3, r4, r5, c] \<and>
    fr_filename (fragment_at (hm_heap m') r) = hm_name m @ lit ''_'' @ to_string (sint now) @ lit ''.ts'' \<and>
    (\<exists>packets. ts_sized packets \<and> fragment_bytes (fragment_at (hm_heap m') r) = concat packets)"
proof -
  have inv: "hls_inv m" "free_fragments (hm_window m) = []" using hls_state_inv [OF assms(1)] by auto
  obtain q m1 hdr m2 where 1: "start_segment now (end_segment p m) = Inr (q, m1)"
      and 2: "(if hdr then ParseCodec q p m1 else Inr m1) = Inr m2"
      and 3: "with_fragment q (\<lambda>e f. bindE (Encode fragment_ops p (pk_timestamp p) e f)
        (\<lambda>(ret, e, f). Inr (e, f))) m2 = Inr m'"
    using assms(6) unfolding Hls_OnPacket_def by (auto elim!: bindE_InrE)
  obtain w h where a: "AppendFragment c (hm_window m) (hm_heap m) = (w, h)" by fastforce
  have "window_size (hm_window m) = 5" using inv(1) by (simp add: hls_inv_def)
  then have w: "fragments w = [r2, r3, r4, r5, c]" "free_fragments w = [r]"
    using AppendFragment_eq [OF _ _ a] assms(2) inv(2) by auto
  have e: "end_segment p m = m\<lparr>hm_window := w, hm_heap := h, hm_current := None\<rparr>"
    using assms(3,5) a by (simp add: end_segment_def)
  have ei: "hls_inv (end_segment p m)" using end_segment_inv [OF inv] by blast
  have win: "fragments (hm_window m1) = [r2, r3, r4, r5, c]" and q: "q = r"
    using 1 w by (auto simp: start_segment_def e GetIdleFragment_def Let_def with_fragment_def elim!: bindE_InrE)
  obtain f where f: "whole f" "fragment_bytes f = []"
      "fr_filename f = hm_name m @ lit ''_'' @ to_string (sint now) @ lit ''.ts''" "encoded f (fragment_at (hm_heap m1) r)"
    using start_segment_inv [OF ei 1] by (auto simp: e q)
  have i1: "hls_inv m1" "hm_current m1 = Some r" using start_segment_inv [OF ei 1] q by auto
  have i2: "hls_inv m2 \<and> hm_current m2 = Some r \<and> hm_window m2 = hm_window m1 \<and>
      encoded (fragment_at (hm_heap m1) r) (fragment_at (hm_heap m2) r)"
    using 2 q ParseCodec_inv [OF i1, of p m2] i1 segment.appended_refl by (auto split: if_splits)
  have i3: "hm_current m' = Some r \<and> hm_window m' = hm_window m2 \<and>
      encoded (fragment_at (hm_heap m2) r) (fragment_at (hm_heap m') r)"
    using encode_call_inv [of m2 r] i2 3 unfolding q by blast
  have enc: "encoded f (fragment_at (hm_heap m') r)"
    using encoded_trans [OF f(1) encoded_trans [OF f(1) f(4)]] i2 i3 by blast
  have "fragment_ok f" using f(1) by (simp add: whole_def)
  then show ?thesis using segment_appended [OF enc] f(2,3) i2 i3 win by auto
qed

text \<open>A tag of MP3 without a payload moves the time of the segment and writes nothing; two of them,
  twelve seconds apart, fill a segment.\<close>

definition mp3_tag :: "u64 \<Rightarrow> unit packet" where
  "mp3_tag t = \<lparr>pk_type = kPacketTypeAudio, pk_size = 1, pk_index = 0, pk_timestamp = t, pk_capacity = 1,
     pk_data = [0x20], pk_ext = None\<rparr>"

lemma Encode_mp3_tag:
  "\<exists>e'. Encode fragment_ops (mp3_tag t) t e f = Inr (0, e', Fragment_AppendTimeStamp t f) \<and> audio_pid e' = audio_pid e"
proof -
  obtain d where d: "AudioDemux_OnDemux [0x20] 1 (ae_demux (te_audio e)) [] = Inr (0, d, [SampleBuf [] 0])"
      "sound_format d = kAudioCodecIDMP3"
    by (simp add: AudioDemux_OnDemux_def DemuxMP3_def element_def Let_def)
  have "WriteAudioPes ops p [SampleBuf [] 0] 0 dts c w = Inr (c, w)" for ops :: "fragment writer_ops" and p dts c w
    unfolding WriteAudioPes_def by (subst pes_loop.simps) simp
  then have "EncodeAudio fragment_ops (mp3_tag t) t (te_audio e) f =
      Inr (0, (te_audio e)\<lparr>ae_demux := d\<rparr>, Fragment_AppendTimeStamp t f)"
    using d by (cases "te_audio e") (simp add: EncodeAudio_def mp3_tag_def Ts_IsCodecHeader_def PacketSize_def EncodeMP3_def
        fragment_ops_def Let_def SampleBuf_def del: bindE_eq_Inr)
  moreover have "IsAudio (mp3_tag t)" by (simp add: mp3_tag_def IsAudio_def)
  ultimately show ?thesis by (simp add: Encode_def)
qed

lemma quiet_packet:
  assumes "start_segment now (end_segment (mp3_tag t) m) = Inr (r, m1)"
  shows "\<exists>m'. Hls_OnPacket now (mp3_tag t) m = Inr m' \<and> hm_window m' = hm_window m1 \<and> hm_current m' = hm_current m1 \<and>
    audio_pid (hm_encoder m') = audio_pid (hm_encoder m1) \<and>
    fragment_at (hm_heap m') r = Fragment_AppendTimeStamp t (fragment_at (hm_heap m1) r)"
proof -
  obtain e' where "Encode fragment_ops (mp3_tag t) t (hm_encoder m1) (fragment_at (hm_heap m1) r) =
      Inr (0, e', Fragment_AppendTimeStamp t (fragment_at (hm_heap m1) r))" "audio_pid e' = audio_pid (hm_encoder m1)"
    using Encode_mp3_tag by blast
  moreover have "Hls_IsCodecHeader (mp3_tag t) = Inr False" "pk_timestamp (mp3_tag t) = t"
    by (simp_all add: Hls_IsCodecHeader_def mp3_tag_def PacketSize_def)
  ultimately show ?thesis
    using assms by (simp add: Hls_OnPacket_def with_fragment_def del: bindE_eq_Inr)
qed

definition full_segment :: "hls_muxer \<Rightarrow> nat \<Rightarrow> nat list \<Rightarrow> bool" where
  "full_segment m c ks \<longleftrightarrow> hls_state m \<and> audio_pid (hm_encoder m) = 0xe000 \<and> fragments (hm_window m) = ks \<and>
     hm_current m = Some c \<and> 12000 < Duration (fragment_at (hm_heap m) c)"

lemma fill_segment:
  assumes "hls_state m" "start_segment 0 (end_segment (mp3_tag 0) m) = Inr (c, m1)"
    and "audio_pid (hm_encoder m1) = 0xe000" "hm_current m1 = Some c" "fr_start_dts (fragment_at (hm_heap m1) c) = -1"
  shows "\<exists>m'. full_segment m' c (fragments (hm_window m1))"
proof -
  obtain n where n: "Hls_OnPacket 0 (mp3_tag 0) m = Inr n" "hm_window n = hm_window m1" "hm_current n = Some c"
      "audio_pid (hm_encoder n) = 0xe000"
      "fragment_at (hm_heap n) c = Fragment_AppendTimeStamp 0 (fragment_at (hm_heap m1) c)"
    using quiet_packet [OF assms(2)] assms(3,4) by auto
  have "\<not> cut_due (mp3_tag 12001) (fragment_at (hm_heap n) c)"
    using assms(5) by (simp add: cut_due_def n(5) Fragment_AppendTimeStamp_def Duration_def Let_def min_fragment_size_def
        max_fragment_size_def word_sless_alt)
  then have "start_segment 0 (end_segment (mp3_tag 12001) n) = Inr (c, n)"
    by (simp add: end_segment_def start_segment_def n(3))
  from quiet_packet [OF this] obtain m' where m': "Hls_OnPacket 0 (mp3_tag 12001) n = Inr m'" "hm_window m' = hm_window n"
      "hm_current m' = Some c" "audio_pid (hm_encoder m') = 0xe000"
      "fragment_at (hm_heap m') c = Fragment_AppendTimeStamp 12001 (fragment_at (hm_heap n) c)"
    using n by auto
  have "hls_state m'" by (rule hls_state.packet [OF hls_state.packet [OF assms(1) n(1)] m'(1)])
  moreover have "12000 < Duration (fragment_at (hm_heap m') c)"
    using assms(5) by (simp add: m'(5) n(5) Fragment_AppendTimeStamp_def Duration_def Let_def word_sless_alt)
  ultimately show ?thesis using m' n by (auto simp: full_segment_def)
qed

lemma next_segment:
  assumes "full_segment m c ks" "length ks < 5"
  shows "\<exists>m' c'. full_segment m' c' (ks @ [c])"
proof -
  have st: "hls_state m" "audio_pid (hm_encoder m) = 0xe000" "fragments (hm_window m) = ks" "hm_current m = Some c"
      "12000 < Duration (fragment_at (hm_heap m) c)" using assms(1) by (auto simp: full_segment_def)
  have inv: "window_size (hm_window m) = 5" "free_fragments (hm_window m) = []"
      "length (fragments (hm_window m)) < 3 \<Longrightarrow> playlist (hm_window m) = []"
    using hls_state_inv [OF st(1)] by (auto simp: hls_inv_def)
  obtain w h where a: "AppendFragment c (hm_window m) (hm_heap m) = (w, h)" by fastforce
  have w: "fragments w = ks @ [c]" "free_fragments w = []"
    using AppendFragment_eq [OF inv(1) _ a inv(3)] assms(2) inv(2) st(3) by auto
  have "cut_due (mp3_tag 0) (fragment_at (hm_heap m) c)" using st(5) by (simp add: cut_due_def max_fragment_size_def)
  then have e: "end_segment (mp3_tag 0) m = m\<lparr>hm_window := w, hm_heap := h, hm_current := None\<rparr>"
    using st(4) a by (simp add: end_segment_def)
  let ?r = "next_ref h"
  define m1 where "m1 = m\<lparr>hm_window := w,
      hm_heap := on_fragment ?r (\<lambda>f. f) (on_fragment ?r (\<lambda>f. SetSequenceNo (ucast (hm_seq_no m)) (SetBaseFileName (hm_name m) 0 (Fragment_Reset f)))
        (snd (new_fragment h))), hm_current := Some ?r, hm_seq_no := hm_seq_no m + 1\<rparr>"
  have "start_segment 0 (end_segment (mp3_tag 0) m) = Inr (?r, m1)"
    using w st(2) by (simp add: start_segment_def e GetIdleFragment_def new_fragment_def with_fragment_def WritePatPmt_def
        m1_def Let_def on_fragment_def)
  from fill_segment [OF st(1) this] show ?thesis
    using st(2) w(1) by (fastforce simp: m1_def SetSequenceNo_def SetBaseFileName_def Fragment_Reset_def)
qed

lemma first_segment: "\<exists>m c. full_segment m c []"
proof -
  let ?m = "HLSMuxer_new [] 0 None"
  obtain m1 where "start_segment 0 (end_segment (mp3_tag 0) ?m) = Inr (0, m1)" "audio_pid (hm_encoder m1) = 0xe000"
      "hm_current m1 = Some 0" "fr_start_dts (fragment_at (hm_heap m1) 0) = -1" "fragments (hm_window m1) = []"
    by (simp add: end_segment_def start_segment_def HLSMuxer_new_def FragmentWindow_new_def GetIdleFragment_def new_fragment_def
        with_fragment_def WritePatPmt_def TsEncoder_new_def Let_def SetSequenceNo_def SetBaseFileName_def Fragment_Reset_def)
  from fill_segment [OF hls_state.made this(1-4)] this(5) show ?thesis by auto
qed

lemma full_window: "\<exists>m c r r2 r3 r4 r5. full_segment m c [r, r2, r3, r4, r5]"
proof -
  have "\<exists>m c ks. full_segment m c ks \<and> length ks = n" if "n \<le> 5" for n
    using that
  proof (induction n)
    case 0
    then show ?case using first_segment by auto
  next
    case (Suc n)
    then obtain m c ks where "full_segment m c ks" "length ks = n" by auto
    then show ?case using next_segment [of m c ks] Suc.prems by fastforce
  qed
  from this [of 5] obtain m c ks where "full_segment m c ks" "length ks = 5" by blast
  moreover then obtain r r2 r3 r4 r5 where "ks = [r, r2, r3, r4, r5]" by (auto simp: eval_nat_numeral length_Suc_conv)
  ultimately show ?thesis by blast
qed

lemma served_segment_rewritten_witness:
  "\<exists>(m :: hls_muxer) (m' :: hls_muxer) r r2 r3 r4 r5 c name (now :: u64). fragments (hm_window m) = [r, r2, r3, r4, r5] \<and> GetFragment name m = Some r \<and>
    hm_current m' = Some r \<and> fragments (hm_window m') = [r2, r3, r4, r5, c] \<and>
    fr_filename (fragment_at (hm_heap m') r) = hm_name m @ lit ''_'' @ to_string (sint now) @ lit ''.ts'' \<and>
    (\<exists>packets. ts_sized packets \<and> fragment_bytes (fragment_at (hm_heap m') r) = concat packets)"
proof -
  obtain m c r r2 r3 r4 r5 where m: "full_segment m c [r, r2, r3, r4, r5]" using full_window by blast
  then have st: "hls_state m" "fragments (hm_window m) = [r, r2, r3, r4, r5]" "hm_current m = Some c"
      "cut_due (mp3_tag 0) (fragment_at (hm_heap m) c)" "audio_pid (hm_encoder m) = 0xe000"
    by (auto simp: full_segment_def cut_due_def max_fragment_size_def)
  have name: "GetFragment (fr_filename (fragment_at (hm_heap m) r)) m = Some r"
    by (simp add: GetFragment_def GetFragmentByName_def st(2))
  have "\<exists>q m1. start_segment 0 (end_segment (mp3_tag 0) m) = Inr (q, m1)"
    using st(3-5) by (auto simp: end_segment_def start_segment_def with_fragment_def WritePatPmt_def Let_def
        split: prod.splits)
  then obtain m' where "Hls_OnPacket 0 (mp3_tag 0) m = Inr m'" using quiet_packet by blast
  note new = served_segment_rewritten [OF st(1-3) name st(4) this]
  show ?thesis
    by (rule exI [of _ m], rule exI [of _ m'], rule exI [of _ r], rule exI [of _ r2], rule exI [of _ r3], rule exI [of _ r4],
        rule exI [of _ r5], rule exI [of _ c], rule exI [of _ "fr_filename (fragment_at (hm_heap m) r)"], rule exI [of _ "0 :: u64"])
      (intro conjI st(2) name new [THEN conjunct1] new [THEN conjunct2, THEN conjunct1] new [THEN conjunct2, THEN conjunct2, THEN conjunct1]
        new [THEN conjunct2, THEN conjunct2, THEN conjunct2])
qed

end
