(* ===== verification/Stream.thy ===== *)
theory Stream
  imports LiveBase Hls
begin

text \<open>
  A live stream and the position of a player in it: \<open>src/live/Stream.{h,cpp}\<close> and the fields of
  \<open>live/user/PlayerUser.h\<close>. Packets of the publisher get an index and go into a ring of a thousand
  slots, with the index of the groups of pictures, the codec headers and the HLS muxer beside it;
  players take them out ten at a time. A packet is not changed any more once it is in the ring, so
  the shared pointers are values. The lock of the stream makes each of its operations one step; the
  clock is read once per operation. Indices stay below \<open>2 ^ 31\<close>.
\<close>

section \<open>State\<close>

text \<open>The settings of an application that a stream uses (\<open>base/AppInfo.h\<close>).\<close>

record app_info =
  rtmp_support :: bool
  flv_support :: bool
  hls_support :: bool
  content_latency :: u32
  stream_idle_time :: u32
  stream_timeout_time :: u32

definition AppInfo_new :: app_info where
  "AppInfo_new = \<lparr>rtmp_support = False, flv_support = False, hls_support = False, content_latency = 3 * 1000,
     stream_idle_time = 30 * 1000, stream_timeout_time = 30 * 1000\<rparr>"

text \<open>What a stream keeps of a player, and what it hands to it.\<close>

record 'e player_user =
  pu_start_timestamp :: int
  pu_video_header :: "'e packet option"
  pu_audio_header :: "'e packet option"
  pu_meta :: "'e packet option"
  wait_meta :: bool
  wait_audio :: bool
  wait_video :: bool
  video_header_index :: int
  audio_header_index :: int
  meta_index :: int
  pu_corrector :: time_corrector
  wait_timeout :: bool
  out_version :: int
  out_frame_timestamp :: int
  out_frames :: "'e packet list"
  out_index :: int

definition PlayerUser_new :: "int \<Rightarrow> 'e player_user" where
  "PlayerUser_new now = \<lparr>pu_start_timestamp = now, pu_video_header = None, pu_audio_header = None, pu_meta = None,
     wait_meta = True, wait_audio = True, wait_video = True, video_header_index = 0, audio_header_index = 0,
     meta_index = 0, pu_corrector = TimeCorrector_new, wait_timeout = False, out_version = -1,
     out_frame_timestamp = 0, out_frames = [], out_index = -1\<rparr>"

definition ElapsedTime :: "int \<Rightarrow> 'e player_user \<Rightarrow> int" where
  "ElapsedTime now u = now - pu_start_timestamp u"

record 'e stream =
  data_coming_time :: int
  start_timestamp :: int
  ready_time :: int
  stream_time :: int
  st_session_name :: str
  frame_index :: int
  packet_buffer :: "'e packet option list"
  has_audio :: bool
  has_video :: bool
  has_meta :: bool
  ready :: bool
  stream_version :: int
  st_gops :: gop_mgr
  codec_headers :: "'e codec_header"
  st_corrector :: time_corrector
  st_muxer :: hls_muxer

definition packet_buffer_size :: nat where
  "packet_buffer_size = 1000"

definition Stream_new :: "int \<Rightarrow> str \<Rightarrow> u32 \<Rightarrow> u32 list option \<Rightarrow> 'e stream" where
  "Stream_new now session g tbl = \<lparr>data_coming_time = 0, start_timestamp = now, ready_time = 0, stream_time = now,
     st_session_name = session, frame_index = -1, packet_buffer = replicate packet_buffer_size None,
     has_audio = False, has_video = False, has_meta = False, ready = False, stream_version = -1,
     st_gops = GopMgr_new, codec_headers = CodecHeader_new, st_corrector = TimeCorrector_new,
     st_muxer = HLSMuxer_new session g tbl\<rparr>"

definition SinceStart :: "int \<Rightarrow> 'e stream \<Rightarrow> int" where
  "SinceStart now s = now - start_timestamp s"

definition Stream_Timeout :: "int \<Rightarrow> 'e stream \<Rightarrow> bool" where
  "Stream_Timeout now s \<longleftrightarrow> 20 * 1000 < now - stream_time s"

definition HasMedia :: "'e stream \<Rightarrow> bool" where
  "HasMedia s \<longleftrightarrow> has_audio s \<or> has_video s \<or> has_meta s"

definition SetReady :: "int \<Rightarrow> 'e stream \<Rightarrow> 'e stream" where
  "SetReady now s = s\<lparr>ready := True, ready_time := now\<rparr>"

section \<open>The publisher's side\<close>

definition ProcessHls :: "app_info \<Rightarrow> int \<Rightarrow> 'e packet \<Rightarrow> 'e stream \<Rightarrow> 'e stream res" where
  "ProcessHls info now packet s =
     (if hls_support info
      then bindE (Hls_OnPacket (word_of_int now) packet (st_muxer s)) (\<lambda>x. Inr (s\<lparr>st_muxer := x\<rparr>))
      else Inr s)"

text \<open>A key frame makes the stream ready and is marked as one.\<close>

definition mark_key :: "int \<Rightarrow> 'e packet \<Rightarrow> 'e stream \<Rightarrow> ('e packet \<times> 'e stream) res" where
  "mark_key now packet s =
     bindE (if IsVideo packet then codec_IsKeyFrame packet else Inr False) (\<lambda>key.
       Inr (if key then (SetPacketType (kPacketTypeVideo OR kFrameTypeKeyFrame) packet, SetReady now s) else (packet, s)))"

text \<open>A codec header is kept, and the kind of media is noted.\<close>

definition keep_header :: "'e packet \<Rightarrow> 'e stream \<Rightarrow> 'e stream res" where
  "keep_header packet s =
     bindE (IsCodecHeader packet) (\<lambda>hdr.
       if hdr
       then bindE (ParseCodecHeader packet (codec_headers s)) (\<lambda>c.
              let s = s\<lparr>codec_headers := c\<rparr>
              in Inr (if IsVideo packet then s\<lparr>has_video := True, stream_version := stream_version s + 1\<rparr>
                      else if IsAudio packet then s\<lparr>has_audio := True, stream_version := stream_version s + 1\<rparr>
                      else if IsMeta packet then s\<lparr>has_meta := True, stream_version := stream_version s + 1\<rparr>
                      else s))
       else Inr s)"

text \<open>The packet goes into the ring; groups that have left it are forgotten.\<close>

definition store_packet :: "int \<Rightarrow> 'e packet \<Rightarrow> 'e stream \<Rightarrow> 'e stream" where
  "store_packet now packet s =
     (let s = s\<lparr>packet_buffer := (packet_buffer s)[nat (frame_index s) mod packet_buffer_size := Some packet]\<rparr>;
          min_idx = frame_index s - int packet_buffer_size;
          s = (if 0 < min_idx then s\<lparr>st_gops := ClearExpriedGop min_idx (st_gops s)\<rparr> else s);
          s = (if data_coming_time s = 0 then s\<lparr>data_coming_time := now\<rparr> else s)
      in s\<lparr>stream_time := now\<rparr>)"

text \<open>The result also says whether all players are woken (\<open>session_.ActiveAllPlayers ()\<close>).\<close>

definition AddPacket :: "app_info \<Rightarrow> int \<Rightarrow> 'e packet \<Rightarrow> 'e stream \<Rightarrow> (bool \<times> 'e stream) res" where
  "AddPacket info now packet s =
     bindE (CorrectTimestamp packet (st_corrector s)) (\<lambda>(t, c).
       let packet = SetTimeStamp (ucast t) packet;
           index = frame_index s + 1;
           s = s\<lparr>st_corrector := c, frame_index := index\<rparr>;
           packet = SetIndex (word_of_int index) packet
       in bindE (mark_key now packet s) (\<lambda>(packet, s).
          bindE (keep_header packet s) (\<lambda>s.
          bindE (ProcessHls info now packet (s\<lparr>st_gops := AddFrame packet (st_gops s)\<rparr>)) (\<lambda>s.
            let s = store_packet now packet s in Inr (frame_index s < 300 \<or> frame_index s mod 5 = 0, s)))))"

section \<open>The players' side\<close>

definition note_timeout :: "int \<Rightarrow> 'e player_user \<Rightarrow> 'e player_user" where
  "note_timeout now u = (if 1000 \<le> ElapsedTime now u \<and> \<not> wait_timeout u then u\<lparr>wait_timeout := True\<rparr> else u)"

definition wait_for_meta :: "int \<Rightarrow> 'e stream \<Rightarrow> 'e player_user \<Rightarrow> 'e player_user" where
  "wait_for_meta idx s u =
     (let u = u\<lparr>wait_meta := wait_meta u \<and> has_meta s\<rparr>
      in if wait_meta u
         then (case Meta idx (codec_headers s) of
                 None \<Rightarrow> u
               | Some p \<Rightarrow> u\<lparr>wait_meta := False, pu_meta := Some p, meta_index := Index p\<rparr>)
         else u)"

definition wait_for_audio :: "int \<Rightarrow> 'e stream \<Rightarrow> 'e player_user \<Rightarrow> 'e player_user" where
  "wait_for_audio idx s u =
     (let u = u\<lparr>wait_audio := wait_audio u \<and> has_audio s\<rparr>
      in if wait_audio u
         then (case AudioHeader idx (codec_headers s) of
                 None \<Rightarrow> u
               | Some p \<Rightarrow> u\<lparr>wait_audio := False, pu_audio_header := Some p, audio_header_index := Index p\<rparr>)
         else u)"

definition wait_for_video :: "int \<Rightarrow> 'e stream \<Rightarrow> 'e player_user \<Rightarrow> 'e player_user" where
  "wait_for_video idx s u =
     (let u = u\<lparr>wait_video := wait_video u \<and> has_video s\<rparr>
      in if wait_video u
         then (case VideoHeader idx (codec_headers s) of
                 None \<Rightarrow> u
               | Some p \<Rightarrow> u\<lparr>wait_video := False, pu_video_header := Some p, video_header_index := Index p\<rparr>)
         else u)"

definition LocateGop :: "app_info \<Rightarrow> int \<Rightarrow> 'e stream \<Rightarrow> 'e player_user \<Rightarrow> bool \<times> 'e player_user" where
  "LocateGop info now s u =
     (case GetGopByLatency (sint (content_latency info)) (st_gops s) of (idx, latency) \<Rightarrow>
        if idx = -1 then (False, note_timeout now u)
        else let u = wait_for_video idx s (wait_for_audio idx s (wait_for_meta idx s (u\<lparr>out_index := idx - 1\<rparr>)))
             in if wait_meta u \<or> wait_audio u \<or> wait_video u then (False, note_timeout now u)
                else (True, u\<lparr>wait_meta := True, wait_audio := True, wait_video := True,
                              out_version := stream_version s\<rparr>))"

definition skip_to :: "int \<Rightarrow> 'e stream \<Rightarrow> 'e player_user \<Rightarrow> 'e player_user" where
  "skip_to idx s u =
     (let u = (case Meta idx (codec_headers s) of
                 None \<Rightarrow> u
               | Some p \<Rightarrow> if meta_index u < Index p then u\<lparr>pu_meta := Some p, meta_index := Index p\<rparr> else u);
          u = (case AudioHeader idx (codec_headers s) of
                 None \<Rightarrow> u
               | Some p \<Rightarrow> if audio_header_index u < Index p
                           then u\<lparr>pu_audio_header := Some p, audio_header_index := Index p\<rparr> else u);
          u = (case VideoHeader idx (codec_headers s) of
                 None \<Rightarrow> u
               | Some p \<Rightarrow> if video_header_index u < Index p
                           then u\<lparr>pu_video_header := Some p, video_header_index := Index p\<rparr> else u)
      in u\<lparr>out_index := idx - 1\<rparr>)"

definition SkipFrame :: "app_info \<Rightarrow> 'e stream \<Rightarrow> 'e player_user \<Rightarrow> 'e player_user" where
  "SkipFrame info s u =
     (case GetGopByLatency (sint (content_latency info)) (st_gops s) of (idx, latency) \<Rightarrow>
        if idx = -1 \<or> idx \<le> out_index u then u else skip_to idx s u)"

fun next_frames :: "nat \<Rightarrow> int \<Rightarrow> 'e stream \<Rightarrow> 'e player_user \<Rightarrow> 'e player_user res" where
  "next_frames 0 idx s u = Inr u"
| "next_frames (Suc n) idx s u =
     (if frame_index s < idx then Inr u
      else bindE (element (unat (word_of_int idx :: u32) mod packet_buffer_size) (packet_buffer s)) (\<lambda>slot.
        case slot of
          None \<Rightarrow> Inr u
        | Some pkt \<Rightarrow>
            next_frames n (Index pkt + 1) s
              (u\<lparr>out_frames := out_frames u @ [pkt], out_index := Index pkt,
                 out_frame_timestamp := to_int32 (sint (pk_timestamp pkt))\<rparr>)))"

definition GetNextFrame :: "'e stream \<Rightarrow> 'e player_user \<Rightarrow> 'e player_user res" where
  "GetNextFrame s u = next_frames 10 (out_index u + 1) s u"

definition must_skip :: "app_info \<Rightarrow> 'e stream \<Rightarrow> 'e player_user \<Rightarrow> bool" where
  "must_skip info s u \<longleftrightarrow>
     out_index u < to_int32 (frame_index s - int packet_buffer_size) \<or>
     2 * sint (content_latency info) < LastestTimeStamp (st_gops s) - out_frame_timestamp u"

definition GetFrames :: "app_info \<Rightarrow> int \<Rightarrow> 'e stream \<Rightarrow> 'e player_user \<Rightarrow> 'e player_user res" where
  "GetFrames info now s u =
     (if \<not> HasMedia s then Inr u
      else if pu_meta u \<noteq> None \<or> pu_audio_header u \<noteq> None \<or> pu_video_header u \<noteq> None \<or> out_frames u \<noteq> [] then Inr u
      else if 0 \<le> out_index u then GetNextFrame s (if must_skip info s u then SkipFrame info s u else u)
      else (case LocateGop info now s u of (found, u) \<Rightarrow> if found then GetNextFrame s u else Inr u))"

section \<open>The ring\<close>

text \<open>The ring holds, in every slot, the newest packet of its residue: \<open>h\<close> is the list of all packets of the
  stream as they were stored, and \<open>latest\<close> the newest index of a slot.\<close>

definition latest :: "nat \<Rightarrow> nat \<Rightarrow> nat" where
  "latest n k = k + (n - 1 - k) div packet_buffer_size * packet_buffer_size"

definition ring_of :: "'e packet list \<Rightarrow> 'e packet option list" where
  "ring_of h = map (\<lambda>k. if k < length h then Some (h ! latest (length h) k) else None) [0..<packet_buffer_size]"

lemma latest_less: "k < n \<Longrightarrow> latest n k < n"
proof -
  assume "k < n"
  moreover have "(n - 1 - k) div packet_buffer_size * packet_buffer_size \<le> n - 1 - k" by (rule div_times_less_eq_dividend)
  ultimately show ?thesis unfolding latest_def by linarith
qed

lemma latest_ge: "i < n \<Longrightarrow> i \<le> latest n (i mod packet_buffer_size)"
proof -
  assume i: "i < n"
  let ?k = "i mod packet_buffer_size"
  have "i = ?k + i div packet_buffer_size * packet_buffer_size" by simp
  moreover have "i div packet_buffer_size \<le> (n - 1 - ?k) div packet_buffer_size"
  proof -
    have "i div packet_buffer_size = (i - ?k) div packet_buffer_size"
      by (simp add: minus_mod_eq_mult_div packet_buffer_size_def)
    also have "\<dots> \<le> (n - 1 - ?k) div packet_buffer_size" using i by (intro div_le_mono) simp
    finally show ?thesis .
  qed
  ultimately show ?thesis unfolding latest_def by (metis add_le_cancel_left mult_le_mono1)
qed

lemma latest_mod: "k < packet_buffer_size \<Longrightarrow> latest n k mod packet_buffer_size = k"
  by (simp add: latest_def)

lemma latest_window:
  assumes "i < n" "n \<le> i + packet_buffer_size"
  shows "latest n (i mod packet_buffer_size) = i"
proof (rule ccontr)
  let ?l = "latest n (i mod packet_buffer_size)"
  assume "?l \<noteq> i"
  then have "i < ?l" using latest_ge [OF assms(1)] by simp
  moreover have "?l mod packet_buffer_size = i mod packet_buffer_size" by (rule latest_mod) (simp add: packet_buffer_size_def)
  ultimately have "i + packet_buffer_size \<le> ?l"
    by (metis add_le_cancel_left le_add_diff_inverse less_imp_le_nat mod_eq_dvd_iff_nat nat_dvd_not_less not_le zero_less_diff)
  moreover have "?l < n" by (rule latest_less) (rule le_less_trans [OF mod_less_eq_dividend assms(1)])
  ultimately show False using assms(2) by simp
qed

lemma latest_add:
  assumes "k < packet_buffer_size" "k < n" "k \<noteq> n mod packet_buffer_size"
  shows "latest (Suc n) k = latest n k"
proof -
  have suc: "Suc (n - 1 - k) = n - k" using assms(2) by simp
  have "(n - k) div packet_buffer_size = (n - 1 - k) div packet_buffer_size"
  proof -
    have "\<not> packet_buffer_size dvd Suc (n - 1 - k)"
    proof
      assume "packet_buffer_size dvd Suc (n - 1 - k)"
      then have "packet_buffer_size dvd n - k" unfolding suc .
      then have "n mod packet_buffer_size = k mod packet_buffer_size" using assms(2) by (simp add: mod_eq_dvd_iff_nat)
      then show False using assms(1,3) by simp
    qed
    then have "Suc (n - 1 - k) div packet_buffer_size = (n - 1 - k) div packet_buffer_size"
      by (simp add: div_Suc dvd_eq_mod_eq_0)
    then show ?thesis unfolding suc .
  qed
  then show ?thesis by (simp add: latest_def)
qed

lemma ring_of_snoc: "(ring_of h)[length h mod packet_buffer_size := Some q] = ring_of (h @ [q])"
proof (rule nth_equalityI)
  fix k assume "k < length ((ring_of h)[length h mod packet_buffer_size := Some q])"
  then have k: "k < packet_buffer_size" by (simp add: ring_of_def)
  show "(ring_of h)[length h mod packet_buffer_size := Some q] ! k = ring_of (h @ [q]) ! k"
  proof (cases "k = length h mod packet_buffer_size")
    case True
    have "latest (Suc (length h)) k = length h" unfolding True by (rule latest_window) (simp_all add: packet_buffer_size_def)
    moreover have "k < Suc (length h)" using True by (metis less_Suc_eq_le mod_less_eq_dividend)
    ultimately show ?thesis using k True by (simp add: ring_of_def)
  next
    case False
    have "k < length h \<Longrightarrow> latest (Suc (length h)) k = latest (length h) k" using latest_add [OF k _ False] .
    moreover have "k \<noteq> length h" using False k by auto
    ultimately show ?thesis using k False latest_less [of k "length h"] by (auto simp: ring_of_def nth_append)
  qed
qed (simp add: ring_of_def)

lemma length_ring_of [simp]: "length (ring_of h) = packet_buffer_size"
  by (simp add: ring_of_def)

lemma ring_slot:
  assumes "i < length h"
  shows "ring_of h ! (i mod packet_buffer_size) = Some (h ! latest (length h) (i mod packet_buffer_size))"
  using assms by (simp add: ring_of_def packet_buffer_size_def)

section \<open>What a player takes\<close>

definition indexed :: "'e packet list \<Rightarrow> bool" where
  "indexed h \<longleftrightarrow> length h < 2 ^ 31 \<and> (\<forall>i < length h. Index (h ! i) = int i)"

definition holds :: "'e packet list \<Rightarrow> 'e stream \<Rightarrow> bool" where
  "holds h s \<longleftrightarrow> indexed h \<and> packet_buffer s = ring_of h \<and> frame_index s = int (length h) - 1"

text \<open>The player after it has been given the packets \<open>fs\<close>.\<close>

definition took :: "'e packet list \<Rightarrow> 'e player_user \<Rightarrow> 'e player_user" where
  "took fs u = (if fs = [] then u
     else u\<lparr>out_frames := out_frames u @ fs, out_index := Index (last fs),
            out_frame_timestamp := to_int32 (sint (pk_timestamp (last fs)))\<rparr>)"

lemma took_Cons: "took fs (took [p] u) = took (p # fs) u"
  by (simp add: took_def)

lemma slot_index: "i < 2 ^ 31 \<Longrightarrow> unat (word_of_int (int i) :: u32) = i"
  using unat_word_of_int_u32 [of "int i"] by simp

lemma next_frames_slot:
  assumes "holds h s" "i < length h"
  defines "p \<equiv> h ! latest (length h) (i mod packet_buffer_size)"
  shows "next_frames (Suc n) (int i) s u = next_frames n (Index p + 1) s (took [p] u)"
proof -
  have "unat (word_of_int (int i) :: u32) = i" using assms(1,2) by (intro slot_index) (simp add: holds_def indexed_def)
  moreover have "i mod packet_buffer_size < length (ring_of h)" by (simp add: packet_buffer_size_def)
  ultimately show ?thesis using assms ring_slot [OF assms(2)] by (simp add: holds_def took_def del: bindE_eq_Inr)
qed

text \<open>In the window: the next packets, one after the other.\<close>

lemma next_frames_window:
  assumes "holds h s" "length h \<le> i + packet_buffer_size"
  shows "next_frames n (int i) s u = Inr (took (take n (drop i h)) u)"
  using assms(2)
proof (induction n arbitrary: i u)
  case 0
  then show ?case by (simp add: took_def)
next
  case (Suc n)
  show ?case
  proof (cases "i < length h")
    case True
    have l: "latest (length h) (i mod packet_buffer_size) = i" using latest_window [OF True] Suc.prems by simp
    have nx: "Index (h ! i) + 1 = int (Suc i)" using assms(1) True by (simp add: holds_def indexed_def)
    have "next_frames (Suc n) (int i) s u = next_frames n (int (Suc i)) s (took [h ! i] u)"
      by (simp only: next_frames_slot [OF assms(1) True] l nx)
    also have "\<dots> = Inr (took (take n (drop (Suc i) h)) (took [h ! i] u))" by (rule Suc.IH) (use Suc.prems in simp)
    also have "\<dots> = Inr (took (take (Suc n) (drop i h)) u)" unfolding took_Cons using True by (simp add: Cons_nth_drop_Suc [symmetric])
    finally show ?thesis .
  qed (use assms(1) in \<open>simp add: holds_def took_def\<close>)
qed

text \<open>Anywhere: packets of the stream, each later than the one before.\<close>

lemma next_frames_later:
  assumes "holds h s" "next_frames n (int i) s u = Inr u'"
  shows "\<exists>ks. u' = took (map ((!) h) ks) u \<and> sorted_wrt (<) ks \<and> list_all (\<lambda>k. i \<le> k \<and> k < length h) ks"
  using assms(2)
proof (induction n arbitrary: i u)
  case 0
  then show ?case by (intro exI [of _ "[]"]) (simp add: took_def)
next
  case (Suc n)
  show ?case
  proof (cases "i < length h")
    case True
    let ?k = "latest (length h) (i mod packet_buffer_size)"
    have k: "i \<le> ?k" "?k < length h" using latest_ge [OF True] latest_less [OF le_less_trans [OF mod_less_eq_dividend True]] by simp_all
    have nx: "Index (h ! ?k) + 1 = int (Suc ?k)" using assms(1) k(2) by (simp add: holds_def indexed_def)
    have "next_frames n (int (Suc ?k)) s (took [h ! ?k] u) = Inr u'"
      using Suc.prems by (simp only: next_frames_slot [OF assms(1) True] nx)
    from Suc.IH [OF this] obtain ks where ks: "u' = took (map ((!) h) ks) (took [h ! ?k] u)" "sorted_wrt (<) ks"
        "list_all (\<lambda>k. Suc ?k \<le> k \<and> k < length h) ks" by blast
    then show ?thesis using k
      by (intro exI [of _ "?k # ks"]) (auto simp: took_Cons list_all_iff)
  next
    case False
    then have "u' = u" using Suc.prems assms(1) by (simp add: holds_def)
    then show ?thesis by (intro exI [of _ "[]"]) (simp add: took_def)
  qed
qed

section \<open>What a packet changes\<close>

text \<open>The packet in the ring is the publisher's, with a time and an index; a key frame is marked.\<close>

definition same_frame :: "'e packet \<Rightarrow> 'e packet \<Rightarrow> bool" where
  "same_frame p q \<longleftrightarrow> pk_data q = pk_data p \<and> pk_size q = pk_size p \<and> pk_ext q = pk_ext p \<and>
     (pk_type q = pk_type p \<or> IsVideo p \<and> codec_IsKeyFrame p = Inr True \<and> pk_type q = kPacketTypeVideo OR kFrameTypeKeyFrame)"

lemma same_frame_stamped: "same_frame (SetIndex i (SetTimeStamp t p)) q \<longleftrightarrow> same_frame p q"
proof -
  have "codec_IsKeyFrame (SetIndex i (SetTimeStamp t p)) = codec_IsKeyFrame p"
    by (simp add: codec_IsKeyFrame_def PacketSize_def data_at_def SetIndex_def SetTimeStamp_def)
  then show ?thesis by (simp add: same_frame_def IsVideo_def) (simp add: SetIndex_def SetTimeStamp_def)
qed

lemma mark_key_same:
  assumes "mark_key now p s = Inr (q, s')"
  shows "same_frame p q \<and> pk_index q = pk_index p \<and> pk_timestamp q = pk_timestamp p \<and> packet_buffer s' = packet_buffer s \<and>
    frame_index s' = frame_index s \<and> st_gops s' = st_gops s \<and> codec_headers s' = codec_headers s \<and>
    has_audio s' = has_audio s \<and> has_video s' = has_video s \<and> has_meta s' = has_meta s"
  using assms by (auto simp: mark_key_def same_frame_def SetReady_def SetPacketType_def split: if_splits)

text \<open>A kind of media that has been noted has a header.\<close>

definition headers_there :: "'e stream \<Rightarrow> bool" where
  "headers_there s \<longleftrightarrow> (has_meta s \<longrightarrow> ch_meta (codec_headers s) \<noteq> None) \<and>
     (has_audio s \<longrightarrow> ch_audio (codec_headers s) \<noteq> None) \<and> (has_video s \<longrightarrow> ch_video (codec_headers s) \<noteq> None)"

lemma types_apart:
  "\<not> (IsVideo p \<and> IsMeta p)" "\<not> (IsVideo p \<and> IsAudio p)" "\<not> (IsAudio p \<and> IsMeta p)"
  by (auto simp: IsVideo_def IsMeta_def IsAudio_def)

lemma keep_header_same:
  assumes "keep_header p s = Inr s'"
  shows "packet_buffer s' = packet_buffer s \<and> frame_index s' = frame_index s \<and> st_gops s' = st_gops s \<and>
    (headers_there s \<longrightarrow> headers_there s')"
  using assms types_apart [of p]
  by (auto simp: keep_header_def ParseCodecHeader_def SaveMeta_def SaveAudioHeader_def SaveVideoHeader_def headers_there_def
      Let_def elim!: bindE_InrE split: if_splits)

lemma ProcessHls_same:
  assumes "ProcessHls info now p s = Inr s'"
  shows "packet_buffer s' = packet_buffer s \<and> frame_index s' = frame_index s \<and> st_gops s' = st_gops s \<and>
    codec_headers s' = codec_headers s \<and> has_audio s' = has_audio s \<and> has_video s' = has_video s \<and> has_meta s' = has_meta s"
  using assms by (auto simp: ProcessHls_def elim!: bindE_InrE split: if_splits)

text \<open>The groups of pictures the stream may still start a player with.\<close>

definition gops_ok :: "'e packet list \<Rightarrow> (int \<times> int) list \<Rightarrow> bool" where
  "gops_ok h gs \<longleftrightarrow> list_all (\<lambda>(i, ts). 0 \<le> i \<and> i < int (length h) \<and> IsKeyFrame (h ! nat i) \<and>
     (int (length h) - 1 - int packet_buffer_size < i \<or> length h \<le> packet_buffer_size + 1)) gs"

lemma erase_gops_filter: "erase_gops m gs = filter (\<lambda>g. m < fst g) gs"
  by (induction m gs rule: erase_gops.induct) auto

lemma AddFrame_gops:
  "gops (AddFrame q g) = gops g @ (if IsKeyFrame q then [(Index q, sint (pk_timestamp q))] else [])"
  by (simp add: AddFrame_def Let_def)

lemma store_packet_same:
  "packet_buffer (store_packet now q s) = (packet_buffer s)[nat (frame_index s) mod packet_buffer_size := Some q]"
  "frame_index (store_packet now q s) = frame_index s" "codec_headers (store_packet now q s) = codec_headers s"
  "has_audio (store_packet now q s) = has_audio s" "has_video (store_packet now q s) = has_video s"
  "has_meta (store_packet now q s) = has_meta s"
  "gops (st_gops (store_packet now q s)) = (if 0 < frame_index s - int packet_buffer_size
     then filter (\<lambda>g. frame_index s - int packet_buffer_size < fst g) else (\<lambda>g. g)) (gops (st_gops s))"
  by (simp_all add: store_packet_def ClearExpriedGop_def erase_gops_filter Let_def)

definition stream_inv :: "'e packet list \<Rightarrow> 'e stream \<Rightarrow> bool" where
  "stream_inv h s \<longleftrightarrow> holds h s \<and> headers_there s \<and> gops_ok h (gops (st_gops s))"

lemma AddPacket_steps:
  assumes "AddPacket info now p s = Inr (b, s')" "frame_index s + 1 = n"
  obtains t c q s1 s2 s3 where
    "mark_key now (SetIndex (word_of_int n) (SetTimeStamp (ucast (t :: u32)) p)) (s\<lparr>st_corrector := c, frame_index := n\<rparr>) = Inr (q, s1)"
    "keep_header q s1 = Inr s2" "ProcessHls info now q (s2\<lparr>st_gops := AddFrame q (st_gops s2)\<rparr>) = Inr s3"
    "s' = store_packet now q s3"
  using assms(1) unfolding AddPacket_def assms(2) Let_def
  by (elim bindE_InrE) (simp only: prod.case split_paired_all, elim bindE_InrE,
      simp only: prod.case split_paired_all, elim bindE_InrE, simp)

lemma AddPacket_inv:
  assumes "AddPacket info now p s = Inr (b, s')" "stream_inv h s" "length h < 2 ^ 31 - 1"
  shows "\<exists>q. packet_buffer s' ! (length h mod packet_buffer_size) = Some q \<and> same_frame p q \<and> stream_inv (h @ [q]) s'"
proof -
  have st: "holds h s" "headers_there s" "gops_ok h (gops (st_gops s))" using assms(2) by (auto simp: stream_inv_def)
  have n: "frame_index s + 1 = int (length h)" using st(1) by (simp add: holds_def)
  obtain t c q s1 s2 s3 where
      1: "mark_key now (SetIndex (word_of_int (int (length h))) (SetTimeStamp (ucast (t :: u32)) p))
        (s\<lparr>st_corrector := c, frame_index := int (length h)\<rparr>) = Inr (q, s1)"
      and 2: "keep_header q s1 = Inr s2"
      and 3: "ProcessHls info now q (s2\<lparr>st_gops := AddFrame q (st_gops s2)\<rparr>) = Inr s3"
      and s': "s' = store_packet now q s3"
    by (rule AddPacket_steps [OF assms(1) n])
  note m = mark_key_same [OF 1] and k = keep_header_same [OF 2] and l = ProcessHls_same [OF 3]
  have "sint (word_of_int (int (length h)) :: u32) = int (length h)"
    using assms(3) by (simp add: signed_of_nat signed_take_bit_int_eq_self)
  then have q: "same_frame p q" "Index q = int (length h)"
    using m by (simp_all add: same_frame_stamped) (simp add: SetIndex_def Index_def)
  have f3: "frame_index s3 = int (length h)" using m k l by simp
  have f: "frame_index s' = int (length h)" using f3 by (simp add: s' store_packet_same)
  have ring: "packet_buffer s' = ring_of (h @ [q])"
    using st(1) m k l f3 by (simp add: s' store_packet_same holds_def ring_of_snoc)
  have hold: "holds (h @ [q]) s'"
    using st(1) q(2) ring f assms(3) by (simp add: holds_def indexed_def nth_append)
  have "headers_there s1" using st(2) m by (simp add: headers_there_def)
  then have there: "headers_there s'" using k l by (simp add: headers_there_def s' store_packet_same)
  have g: "gops (st_gops s') = (if 0 < int (length h) - int packet_buffer_size
           then filter (\<lambda>g. int (length h) - int packet_buffer_size < fst g) else (\<lambda>g. g))
      (gops (st_gops s) @ (if IsKeyFrame q then [(int (length h), sint (pk_timestamp q))] else []))"
    using m k l q(2) f3 by (simp add: s' store_packet_same AddFrame_gops)
  have "gops_ok (h @ [q]) (gops (st_gops s'))"
    using st(3) unfolding gops_ok_def list_all_iff g by (auto simp: nth_append nat_less_iff)
  moreover have "packet_buffer s' ! (length h mod packet_buffer_size) = Some q"
    using f3 m k l st(1) by (simp add: s' store_packet_same holds_def packet_buffer_size_def)
  ultimately show ?thesis using q(1) hold there by (auto simp: stream_inv_def)
qed

section \<open>A stream with a player\<close>

lemma gop_back_mem: "fst (gop_back l c gs got lat) = got \<or> fst (gop_back l c gs got lat) \<in> fst ` set gs"
  by (induction l c gs got lat rule: gop_back.induct) (auto simp: Let_def)

lemma GetGopByLatency_mem: "fst (GetGopByLatency c g) = -1 \<or> fst (GetGopByLatency c g) \<in> fst ` set (gops g)"
  using gop_back_mem [of "lastest_timestamp g" c "rev (gops g)" "-1" 0] by (simp add: GetGopByLatency_def)

text \<open>A header kind that is there is found at any index.\<close>

lemma header_search_there: "\<exists>y. header_search idx ps (Some x) = Some y"
  by (induction ps) auto

lemma headers_found:
  assumes "headers_there s"
  shows "has_meta s \<Longrightarrow> Meta idx (codec_headers s) \<noteq> None" "has_audio s \<Longrightarrow> AudioHeader idx (codec_headers s) \<noteq> None"
    "has_video s \<Longrightarrow> VideoHeader idx (codec_headers s) \<noteq> None"
  using assms by (auto simp: headers_there_def Meta_def AudioHeader_def VideoHeader_def header_search_there)

text \<open>A player at a group: the headers that are there, and the place in front of the key frame.\<close>

definition at_gop :: "int \<Rightarrow> 'e stream \<Rightarrow> 'e player_user \<Rightarrow> 'e player_user \<Rightarrow> bool" where
  "at_gop idx s u u' \<longleftrightarrow> out_index u' = idx - 1 \<and> out_frames u' = out_frames u \<and>
     wait_meta u' \<and> wait_audio u' \<and> wait_video u' \<and>
     pu_meta u' = (if has_meta s then Meta idx (codec_headers s) else pu_meta u) \<and>
     pu_audio_header u' = (if has_audio s then AudioHeader idx (codec_headers s) else pu_audio_header u) \<and>
     pu_video_header u' = (if has_video s then VideoHeader idx (codec_headers s) else pu_video_header u)"

lemma wait_for_simps:
  fixes idx :: int
  assumes "headers_there s" "wait_meta u" "wait_audio u" "wait_video u"
  defines "v \<equiv> wait_for_video idx s (wait_for_audio idx s (wait_for_meta idx s u))"
  shows "\<not> wait_meta v \<and> \<not> wait_audio v \<and> \<not> wait_video v \<and> out_index v = out_index u \<and> out_frames v = out_frames u \<and>
    pu_meta v = (if has_meta s then Meta idx (codec_headers s) else pu_meta u) \<and>
    pu_audio_header v = (if has_audio s then AudioHeader idx (codec_headers s) else pu_audio_header u) \<and>
    pu_video_header v = (if has_video s then VideoHeader idx (codec_headers s) else pu_video_header u)"
  using headers_found [OF assms(1), of idx] assms(2-4)
  by (auto simp: v_def wait_for_video_def wait_for_audio_def wait_for_meta_def Let_def split: option.splits)

lemma LocateGop_found:
  assumes "headers_there s" "wait_meta u" "wait_audio u" "wait_video u"
    and "fst (GetGopByLatency (sint (content_latency info)) (st_gops s)) = idx" "idx \<noteq> -1"
  shows "\<exists>u'. LocateGop info now s u = (True, u') \<and> at_gop idx s u u'"
proof -
  obtain l where l: "GetGopByLatency (sint (content_latency info)) (st_gops s) = (idx, l)"
    using assms(5) by (metis prod.collapse)
  have w: "wait_meta (u\<lparr>out_index := idx - 1\<rparr>)" "wait_audio (u\<lparr>out_index := idx - 1\<rparr>)"
      "wait_video (u\<lparr>out_index := idx - 1\<rparr>)" using assms(2-4) by simp_all
  show ?thesis using wait_for_simps [OF assms(1) w, of idx] assms(6) by (simp add: LocateGop_def l Let_def at_gop_def)
qed

lemma LocateGop_none:
  assumes "fst (GetGopByLatency (sint (content_latency info)) (st_gops s)) = -1"
  shows "LocateGop info now s u = (False, note_timeout now u)"
  using assms by (cases "GetGopByLatency (sint (content_latency info)) (st_gops s)") (simp add: LocateGop_def)

lemma SkipFrame_later:
  "out_frames (SkipFrame info s u) = out_frames u \<and> wait_meta (SkipFrame info s u) = wait_meta u \<and>
   wait_audio (SkipFrame info s u) = wait_audio u \<and> wait_video (SkipFrame info s u) = wait_video u \<and>
   out_index u \<le> out_index (SkipFrame info s u)"
  by (auto simp: SkipFrame_def skip_to_def Let_def split: prod.splits option.splits)

text \<open>Everything that can happen: packets of the publisher come in, the player fetches, and what it has
  been handed is sent. \<open>ps\<close> are the packets published, \<open>h\<close> those stored, \<open>out\<close> the frames sent.\<close>

inductive session_run ::
    "app_info \<Rightarrow> 'e packet list \<Rightarrow> 'e packet list \<Rightarrow> 'e stream \<Rightarrow> 'e player_user \<Rightarrow> 'e packet list \<Rightarrow> bool"
  for info :: app_info where
  start: "session_run info [] [] (Stream_new now session g tbl) (PlayerUser_new now') []"
| publish: "session_run info ps h s u out \<Longrightarrow> AddPacket info now p s = Inr (b, s') \<Longrightarrow>
    packet_buffer s' ! (length h mod packet_buffer_size) = Some q \<Longrightarrow> session_run info (ps @ [p]) (h @ [q]) s' u out"
| fetch: "session_run info ps h s u out \<Longrightarrow> GetFrames info now s u = Inr u' \<Longrightarrow> session_run info ps h s u' out"
| sent: "session_run info ps h s u out \<Longrightarrow>
    session_run info ps h s (u\<lparr>out_frames := [], pu_corrector := c\<rparr>) (out @ out_frames u)"
| meta_sent: "session_run info ps h s u out \<Longrightarrow> session_run info ps h s (u\<lparr>pu_meta := None\<rparr>) out"
| audio_sent: "session_run info ps h s u out \<Longrightarrow> session_run info ps h s (u\<lparr>pu_audio_header := None\<rparr>) out"
| video_sent: "session_run info ps h s u out \<Longrightarrow> session_run info ps h s (u\<lparr>pu_video_header := None\<rparr>) out"

definition handed :: "'e packet list \<Rightarrow> int \<Rightarrow> 'e packet list \<Rightarrow> nat list \<Rightarrow> bool" where
  "handed h n fs ks \<longleftrightarrow> fs = map ((!) h) ks \<and> sorted_wrt (<) ks \<and> list_all (\<lambda>k. k < length h \<and> int k \<le> n) ks"

definition player_inv :: "'e packet list \<Rightarrow> 'e player_user \<Rightarrow> 'e packet list \<Rightarrow> bool" where
  "player_inv h u out \<longleftrightarrow> wait_meta u \<and> wait_audio u \<and> wait_video u \<and> -1 \<le> out_index u \<and>
     (\<exists>ks. handed h (out_index u) (out @ out_frames u) ks)"

lemma handed_later: "handed h n fs ks \<Longrightarrow> n \<le> n' \<Longrightarrow> handed h n' fs ks"
  by (auto simp: handed_def list_all_iff)

lemma handed_snoc: "handed h n fs ks \<Longrightarrow> handed (h @ [q]) n fs ks"
  by (auto simp: handed_def list_all_iff nth_append)

lemma handed_none: "handed h n fs ks \<Longrightarrow> n < 0 \<Longrightarrow> fs = []"
  by (auto simp: handed_def list_all_iff)

lemma handed_append:
  assumes "handed h n fs js" "sorted_wrt (<) ks" "list_all (\<lambda>k. n + 1 \<le> int k \<and> k < length h) ks" "ks \<noteq> []"
  shows "handed h (int (last ks)) (fs @ map ((!) h) ks) (js @ ks)"
proof -
  obtain ls k where ks: "ks = ls @ [k]" using assms(4) by (cases ks rule: rev_cases) auto
  have "k' < k" if "k' \<in> set js" for k' using assms(1,3) that ks by (fastforce simp: handed_def list_all_iff)
  moreover have "k' < k''" if "k' \<in> set js" "k'' \<in> set ks" for k' k''
    using assms(1,3) that by (fastforce simp: handed_def list_all_iff)
  ultimately show ?thesis
    using assms(1-3) by (auto simp: handed_def sorted_wrt_append ks list_all_iff less_imp_le)
qed

lemma Stream_new_inv: "stream_inv [] (Stream_new now session g tbl)"
  by (simp add: stream_inv_def Stream_new_def holds_def indexed_def headers_there_def gops_ok_def GopMgr_new_def
      ring_of_def map_replicate_const packet_buffer_size_def)

lemma took_inv:
  assumes "holds h s" "-1 \<le> out_index u" "GetNextFrame s u = Inr u'" "player_inv h u out"
  shows "player_inv h u' out"
proof -
  obtain i where i: "out_index u + 1 = int i" using nonneg_int_cases [of "out_index u + 1"] assms(2) by auto
  obtain ks where ks: "u' = took (map ((!) h) ks) u" "sorted_wrt (<) ks" "list_all (\<lambda>k. i \<le> k \<and> k < length h) ks"
    using next_frames_later [OF assms(1)] assms(3) unfolding GetNextFrame_def i by blast
  obtain js where js: "handed h (out_index u) (out @ out_frames u) js" using assms(4) by (auto simp: player_inv_def)
  show ?thesis
  proof (cases "ks = []")
    case True
    then show ?thesis using ks(1) assms(4) by (simp add: took_def)
  next
    case False
    have "list_all (\<lambda>k. out_index u + 1 \<le> int k \<and> k < length h) ks" using ks(3) by (simp add: i)
    from handed_append [OF js ks(2) this False]
    have "handed h (int (last ks)) ((out @ out_frames u) @ map ((!) h) ks) (js @ ks)" .
    moreover have "out_index u' = int (last ks)"
      using ks(3) False assms(1) by (simp add: ks(1) took_def last_map holds_def indexed_def list_all_iff)
    ultimately show ?thesis using assms(4) False unfolding player_inv_def by (auto simp: ks(1) took_def)
  qed
qed

lemma GetFrames_inv:
  assumes "GetFrames info now s u = Inr u'" "stream_inv h s" "player_inv h u out"
  shows "player_inv h u' out"
proof -
  have st: "holds h s" "headers_there s" "gops_ok h (gops (st_gops s))" using assms(2) by (auto simp: stream_inv_def)
  have w: "wait_meta u" "wait_audio u" "wait_video u" "-1 \<le> out_index u" using assms(3) by (auto simp: player_inv_def)
  let ?idx = "fst (GetGopByLatency (sint (content_latency info)) (st_gops s))"
  consider "u' = u" | "0 \<le> out_index u" "GetNextFrame s (if must_skip info s u then SkipFrame info s u else u) = Inr u'"
    | "out_index u < 0" "GetNextFrame s (snd (LocateGop info now s u)) = Inr u'" "fst (LocateGop info now s u)"
    | "u' = snd (LocateGop info now s u)" "\<not> fst (LocateGop info now s u)"
    using assms(1) by (auto simp: GetFrames_def split: if_splits prod.splits)
  then show ?thesis
  proof cases
    case 2
    let ?v = "if must_skip info s u then SkipFrame info s u else u"
    note sk = SkipFrame_later [of info s u]
    obtain ks where "handed h (out_index u) (out @ out_frames u) ks" using assms(3) by (auto simp: player_inv_def)
    then have "handed h (out_index ?v) (out @ out_frames ?v) ks" using handed_later sk by auto
    then have "player_inv h ?v out" using w sk unfolding player_inv_def by auto
    moreover then have "-1 \<le> out_index ?v" by (simp only: player_inv_def)
    ultimately show ?thesis using took_inv [OF st(1) _ 2(2)] by blast
  next
    case 3
    have "?idx \<noteq> -1" using 3(3) LocateGop_none [of info s now u] by auto
    then obtain v where v: "LocateGop info now s u = (True, v)" "at_gop ?idx s u v"
      using LocateGop_found [OF st(2) w(1-3) refl] by blast
    have "0 \<le> ?idx" using GetGopByLatency_mem [of "sint (content_latency info)" "st_gops s"] \<open>?idx \<noteq> -1\<close> st(3)
      by (auto simp: gops_ok_def list_all_iff)
    moreover have "out @ out_frames u = []" using assms(3) 3(1) handed_none unfolding player_inv_def by blast
    moreover have "handed h n [] []" for n by (simp add: handed_def)
    ultimately have "player_inv h v out" using v(2) by (auto simp: player_inv_def at_gop_def)
    moreover then have "-1 \<le> out_index v" by (simp only: player_inv_def)
    moreover have "GetNextFrame s v = Inr u'" using 3(2) v(1) by simp
    ultimately show ?thesis using took_inv [OF st(1)] by blast
  next
    case 4
    have "?idx = -1"
    proof (rule ccontr)
      assume "?idx \<noteq> -1"
      then obtain v where "LocateGop info now s u = (True, v)" using LocateGop_found [OF st(2) w(1-3) refl] by blast
      then show False using 4(2) by simp
    qed
    then have "u' = note_timeout now u" using 4(1) LocateGop_none [of info s now u] by simp
    then show ?thesis using assms(3) by (simp add: player_inv_def note_timeout_def)
  qed (use assms(3) in simp)
qed

lemma session_run_inv:
  assumes "session_run info ps h s u out" "length ps < 2 ^ 31"
  shows "stream_inv h s \<and> player_inv h u out \<and> list_all2 same_frame ps h"
  using assms
proof (induction rule: session_run.induct)
  case (start now session g tbl now')
  then show ?case by (simp add: Stream_new_inv) (simp add: player_inv_def PlayerUser_new_def handed_def)
next
  case (publish ps h s u out now p b s' q)
  then have IH: "stream_inv h s" "player_inv h u out" "list_all2 same_frame ps h" by auto
  then have len: "length h = length ps" by (simp add: list_all2_lengthD)
  obtain q' where q': "packet_buffer s' ! (length h mod packet_buffer_size) = Some q'" "same_frame p q'" "stream_inv (h @ [q']) s'"
    using AddPacket_inv [OF publish.hyps(2) IH(1)] publish.prems len by auto
  have "player_inv (h @ [q]) u out" using IH(2) handed_snoc unfolding player_inv_def by blast
  then show ?case using q' publish.hyps(3) IH(3) by (simp add: list_all2_appendI)
next
  case (fetch ps h s u out now u')
  then show ?case using GetFrames_inv by blast
qed (auto simp: player_inv_def)

text \<open>C7: What a player gets of a stream. However publishing, fetching and sending are interleaved, and
  however far the player falls behind, the frames handed to it are frames of the stream, each at most
  once and in their order, and every one of them is a packet the publisher sent, with its data, size
  and header untouched, and its type unless it was marked as a key frame.\<close>

theorem player_gets_stream:
  assumes "session_run info ps h s u out" "length ps < 2 ^ 31"
  shows "list_all2 same_frame ps h \<and>
    (\<exists>ks. out @ out_frames u = map ((!) h) ks \<and> sorted_wrt (<) ks \<and> list_all (\<lambda>k. k < length h) ks)"
  using session_run_inv [OF assms] by (auto simp: player_inv_def handed_def list_all_iff)

text \<open>C10: A player that keeps up misses nothing. When it has been handed a frame before, nothing is waiting
  for it, it is less than a thousand frames behind and no more than twice the latency of the
  application, it is given exactly the next frames of the stream, ten at most.\<close>

theorem player_keeps_up:
  assumes "session_run info ps h s u out" "length ps < 2 ^ 31"
    and "HasMedia s" "pu_meta u = None" "pu_audio_header u = None" "pu_video_header u = None" "out_frames u = []"
    and "0 \<le> out_index u" "\<not> must_skip info s u"
  shows "GetFrames info now s u = Inr (took (take 10 (drop (nat (out_index u + 1)) h)) u)"
proof -
  have inv: "holds h s" using session_run_inv [OF assms(1,2)] by (auto simp: stream_inv_def)
  then have n: "frame_index s = int (length h) - 1" "length h < 2 ^ 31" by (auto simp: holds_def indexed_def)
  then have "to_int32 (frame_index s - int packet_buffer_size) = frame_index s - int packet_buffer_size"
    by (simp add: to_int32_def signed_take_bit_int_eq_self packet_buffer_size_def)
  then have "int (length h) \<le> out_index u + 1 + int packet_buffer_size" using assms(9) n by (simp add: must_skip_def)
  moreover have i: "out_index u + 1 = int (nat (out_index u + 1))" using assms(8) by simp
  ultimately have window: "length h \<le> nat (out_index u + 1) + packet_buffer_size" by linarith
  from i have "GetNextFrame s u = Inr (took (take 10 (drop (nat (out_index u + 1)) h)) u)"
    using next_frames_window [OF inv window] unfolding GetNextFrame_def by metis
  then show ?thesis using assms(3-9) by (simp add: GetFrames_def)
qed

lemma fetch_at_key:
  assumes "session_run info ps h s u out" "length ps < 2 ^ 31"
    and "length ps \<noteq> 1001 \<or> fst (GetGopByLatency (sint (content_latency info)) (st_gops s)) \<noteq> 0"
    and "HasMedia s" "pu_meta u = None" "pu_audio_header u = None" "pu_video_header u = None" "out_frames u = []"
    and "out_index u < 0" "fst (GetGopByLatency (sint (content_latency info)) (st_gops s)) \<noteq> -1"
  shows "\<exists>k v. GetFrames info now s u = Inr (took (take 10 (drop k h)) v) \<and> k < length h \<and> IsKeyFrame (h ! k) \<and>
    at_gop (int k) s u v \<and> headers_there s"
proof -
  let ?idx = "fst (GetGopByLatency (sint (content_latency info)) (st_gops s))"
  have inv: "holds h s" "headers_there s" "gops_ok h (gops (st_gops s))" "length h = length ps"
    using session_run_inv [OF assms(1,2)] by (auto simp: stream_inv_def dest: list_all2_lengthD)
  have w: "wait_meta u" "wait_audio u" "wait_video u"
    using session_run_inv [OF assms(1,2)] by (auto simp: player_inv_def)
  obtain ts where "(?idx, ts) \<in> set (gops (st_gops s))"
    using GetGopByLatency_mem [of "sint (content_latency info)" "st_gops s"] assms(10) by auto
  then have g: "0 \<le> ?idx" "?idx < int (length h)" "IsKeyFrame (h ! nat ?idx)"
      "int (length h) - 1 - int packet_buffer_size < ?idx \<or> length h \<le> packet_buffer_size + 1"
    using inv(3) by (auto simp: gops_ok_def list_all_iff)
  define k where "k = nat ?idx"
  have k: "?idx = int k" "k < length h" "IsKeyFrame (h ! k)" "length h \<le> k + packet_buffer_size"
    using g assms(3) inv(4) by (auto simp: k_def packet_buffer_size_def)
  obtain v where v: "LocateGop info now s u = (True, v)" "at_gop ?idx s u v"
    using LocateGop_found [OF inv(2) w refl assms(10)] by blast
  have "out_index v + 1 = int k" using v(2) k(1) by (simp add: at_gop_def)
  then have next1: "GetNextFrame s v = Inr (took (take 10 (drop k h)) v)"
    using next_frames_window [OF inv(1) k(4)] unfolding GetNextFrame_def by simp
  have "GetFrames info now s u = Inr (took (take 10 (drop k h)) v)"
    using assms(4-9) v(1) next1 by (simp add: GetFrames_def)
  then show ?thesis using k(2,3) v(2) inv(2) unfolding k(1) by blast
qed

text \<open>C9: A new player starts with a key frame and what it takes to decode it. As soon as there is a group of
  pictures within the latency of the application, its first frames are those from the key frame of
  that group on, and it is handed, for each kind of media the stream has, a codec header: the last
  one before the key frame, or the newest if there is none. The one exception: when the stream has exactly
  1001 packets and the group on offer starts with the first of them, whose slot has been written over.\<close>

theorem player_starts_at_key_frame:
  assumes "session_run info ps h s u out" "length ps < 2 ^ 31"
    and "length ps \<noteq> 1001 \<or> fst (GetGopByLatency (sint (content_latency info)) (st_gops s)) \<noteq> 0"
    and "HasMedia s" "pu_meta u = None" "pu_audio_header u = None" "pu_video_header u = None" "out_frames u = []"
    and "out_index u < 0" "fst (GetGopByLatency (sint (content_latency info)) (st_gops s)) \<noteq> -1"
  shows "\<exists>k u'. GetFrames info now s u = Inr u' \<and> k < length h \<and> IsKeyFrame (h ! k) \<and> out_frames u' = take 10 (drop k h) \<and>
    pu_meta u' = (if has_meta s then Meta (int k) (codec_headers s) else None) \<and>
    pu_audio_header u' = (if has_audio s then AudioHeader (int k) (codec_headers s) else None) \<and>
    pu_video_header u' = (if has_video s then VideoHeader (int k) (codec_headers s) else None) \<and>
    (pu_meta u' = None) = (\<not> has_meta s) \<and> (pu_audio_header u' = None) = (\<not> has_audio s) \<and>
    (pu_video_header u' = None) = (\<not> has_video s)"
proof -
  obtain k v where v: "GetFrames info now s u = Inr (took (take 10 (drop k h)) v)" "k < length h" "IsKeyFrame (h ! k)"
      "at_gop (int k) s u v" "headers_there s"
    using fetch_at_key [OF assms] by blast
  then show ?thesis
    using assms(5-8) headers_found [OF v(5), of "int k"]
    by (intro exI [of _ k] exI [of _ "took (take 10 (drop k h)) v"]) (auto simp: at_gop_def took_def)
qed

text \<open>The exception: when the stream has just got its 1001st packet and the group on offer is the one of the first,
  the slot of its key frame has been written over, and a new player is given only the newest packet.\<close>

theorem player_misses_key_frame:
  assumes "session_run info ps h s u out" "length ps = 1001"
    and "HasMedia s" "pu_meta u = None" "pu_audio_header u = None" "pu_video_header u = None" "out_frames u = []"
    and "out_index u < 0" "fst (GetGopByLatency (sint (content_latency info)) (st_gops s)) = 0"
  shows "\<exists>u'. GetFrames info now s u = Inr u' \<and> out_frames u' = [h ! 1000]"
proof -
  have inv: "holds h s" "headers_there s" "length h = 1001"
    using session_run_inv [OF assms(1)] assms(2) by (auto simp: stream_inv_def dest: list_all2_lengthD)
  have w: "wait_meta u" "wait_audio u" "wait_video u"
    using session_run_inv [OF assms(1)] assms(2) by (auto simp: player_inv_def)
  obtain v where v: "LocateGop info now s u = (True, v)" "at_gop 0 s u v"
    using LocateGop_found [OF inv(2) w assms(9)] by auto
  have l: "latest 1001 0 = 1000" by (simp add: latest_def packet_buffer_size_def)
  have i: "Index (h ! 1000) = 1000" "frame_index s = 1000" using inv(1,3) by (auto simp: holds_def indexed_def)
  have "GetNextFrame s v = next_frames 9 1001 s (took [h ! 1000] v)"
    using next_frames_slot [OF inv(1), of 0 9 v] v(2) inv(3) by (simp add: GetNextFrame_def at_gop_def l i(1))
  also have "\<dots> = Inr (took [h ! 1000] v)" using next_frames.simps(2) [of 8 1001 s "took [h ! 1000] v"] i(2) by simp
  finally have "GetFrames info now s u = Inr (took [h ! 1000] v)" using assms(3-8) v(1) by (simp add: GetFrames_def)
  then show ?thesis using v(2) assms(7) by (simp add: at_gop_def took_def)
qed

text \<open>A run: a configuration and a picture are published, and a player fetches after the first.\<close>

definition demo_tag :: "byte \<Rightarrow> unit packet" where
  "demo_tag b = \<lparr>pk_type = kPacketTypeVideo, pk_size = 2, pk_index = 0, pk_timestamp = 0, pk_capacity = 2,
     pk_data = [0x17, b], pk_ext = None\<rparr>"

abbreviation demo_stream :: "unit stream" where
  "demo_stream \<equiv> Stream_new 0 [] 0 None"

lemma ring_size: "int packet_buffer_size = 1000" "0 < packet_buffer_size"
  by (simp_all add: packet_buffer_size_def)

text \<open>The packet as it is stored, and the stream it leaves behind.\<close>

definition demo_stored :: "byte \<Rightarrow> u32 \<Rightarrow> unit packet" where
  "demo_stored b i = SetPacketType (kPacketTypeVideo OR kFrameTypeKeyFrame) (SetIndex i (SetTimeStamp 0 (demo_tag b)))"

lemma demo_stored_simps:
  "Index (demo_stored b i) = sint i" "pk_timestamp (demo_stored b i) = 0" "IsKeyFrame (demo_stored b i)"
  "IsVideo (demo_stored b i)" "\<not> IsAudio (demo_stored b i)" "\<not> IsMeta (demo_stored b i)"
  "IsCodecHeader (demo_stored b i) = Inr (b = 0)"
  by (simp_all add: demo_stored_def demo_tag_def SetPacketType_def SetIndex_def SetTimeStamp_def Index_def IsKeyFrame_def
      IsVideo_def IsAudio_def IsMeta_def IsCodecHeader_def PacketSize_def data_at_def)

lemma demo_mark: "mark_key now (SetIndex i (SetTimeStamp 0 (demo_tag b))) s = Inr (demo_stored b i, SetReady now s)"
  by (simp add: mark_key_def demo_stored_def demo_tag_def IsVideo_def codec_IsKeyFrame_def PacketSize_def data_at_def
      SetIndex_def SetTimeStamp_def)

lemma demo_correct:
  "\<exists>c. CorrectTimestamp (demo_tag b) TimeCorrector_new = Inr (0, c) \<and> (b = 0 \<longrightarrow> c = TimeCorrector_new)"
  by (simp add: CorrectTimestamp_def demo_tag_def IsCodecHeader_def PacketSize_def data_at_def Let_def IsVideo_def
      TimeCorrector_new_def CorrectVideoByVideo_def start_video_def fine_def)

lemma AddFrame_latest: "lastest_timestamp (AddFrame q g) = sint (pk_timestamp q)"
  by (simp add: AddFrame_def Let_def)

lemma demo_add:
  assumes "st_corrector s = TimeCorrector_new" "frame_index s + 1 = i" "i < 100" "b = 0 \<or> HasMedia s"
  shows "\<exists>s'. AddPacket AppInfo_new now (demo_tag b) s = Inr (True, s') \<and> HasMedia s' \<and> frame_index s' = i \<and>
    packet_buffer s' = (packet_buffer s)[nat i mod packet_buffer_size := Some (demo_stored b (word_of_int i))] \<and>
    lastest_timestamp (st_gops s') = 0 \<and> gops (st_gops s') = gops (st_gops s) @ [(sint (word_of_int i :: u32), 0)] \<and>
    (b = 0 \<longrightarrow> st_corrector s' = TimeCorrector_new)"
proof -
  let ?q = "demo_stored b (word_of_int i)"
  obtain c where c: "CorrectTimestamp (demo_tag b) TimeCorrector_new = Inr (0, c)" "b = 0 \<longrightarrow> c = TimeCorrector_new"
    using demo_correct by blast
  let ?s = "s\<lparr>st_corrector := c, frame_index := i\<rparr>"
  obtain s2 where s2: "keep_header ?q (SetReady now ?s) = Inr s2" "HasMedia s2" "frame_index s2 = i"
      "packet_buffer s2 = packet_buffer s" "st_gops s2 = st_gops s" "st_corrector s2 = c"
    using assms(4) by (cases "b = 0") (auto simp: keep_header_def demo_stored_simps ParseCodecHeader_def HasMedia_def SetReady_def Let_def)
  define s3 where "s3 = s2\<lparr>st_gops := AddFrame ?q (st_gops s2)\<rparr>"
  have "AddPacket AppInfo_new now (demo_tag b) s = Inr (True, store_packet now ?q s3)"
    using c(1) s2(1,3) assms(1-3)
    by (simp add: AddPacket_def demo_mark ProcessHls_def AppInfo_new_def s3_def Let_def store_packet_same del: bindE_eq_Inr)
  moreover have "HasMedia (store_packet now ?q s3)" using s2(2) by (simp add: HasMedia_def store_packet_same s3_def)
  moreover have "st_corrector (store_packet now ?q s3) = c" "st_gops (store_packet now ?q s3) = st_gops s3"
    using s2(3,6) assms(3) by (simp_all add: store_packet_def s3_def ring_size Let_def)
  ultimately show ?thesis
    using s2 c(2) by (intro exI [of _ "store_packet now ?q s3"])
      (auto simp: store_packet_same s3_def AddFrame_gops AddFrame_latest demo_stored_simps)
qed

lemma demo_published:
  "\<exists>s s' h. AddPacket AppInfo_new 1 (demo_tag 0) demo_stream = Inr (True, s) \<and>
     packet_buffer s ! 0 = Some h \<and> pk_timestamp h = 0 \<and> HasMedia s \<and> GetGopByLatency 3000 (st_gops s) = (0, 0) \<and>
     AddPacket AppInfo_new 2 (demo_tag 1) s = Inr (True, s') \<and> HasMedia s' \<and> LastestTimeStamp (st_gops s') = 0"
proof -
  have new: "st_corrector demo_stream = TimeCorrector_new" "frame_index demo_stream + 1 = 0" "gops (st_gops demo_stream) = []"
      "packet_buffer demo_stream = replicate packet_buffer_size None"
    by (simp_all add: Stream_new_def GopMgr_new_def)
  obtain s where s: "AddPacket AppInfo_new 1 (demo_tag 0) demo_stream = Inr (True, s)" "HasMedia s" "frame_index s = 0"
      "packet_buffer s = (packet_buffer demo_stream)[nat 0 mod packet_buffer_size := Some (demo_stored 0 (word_of_int 0))]"
      "lastest_timestamp (st_gops s) = 0" "gops (st_gops s) = [] @ [(sint (word_of_int 0 :: u32), 0)]"
      "st_corrector s = TimeCorrector_new"
    using demo_add [OF new(1,2), of 0 1] unfolding new(3) by auto
  have "frame_index s + 1 = 1" using s(3) by simp
  then obtain s' where s': "AddPacket AppInfo_new 2 (demo_tag 1) s = Inr (True, s')" "HasMedia s'"
      "lastest_timestamp (st_gops s') = 0"
    using demo_add [OF s(7), of 1 1 2] s(2) by auto
  have "packet_buffer s ! 0 = Some (demo_stored 0 0)" using ring_size(2) by (simp add: s(4) new(4))
  moreover have "GetGopByLatency 3000 (st_gops s) = (0, 0)" using s(5,6) by (simp add: GetGopByLatency_def to_int32_def)
  ultimately show ?thesis using s(1,2) s' by (auto simp: demo_stored_simps LastestTimeStamp_def)
qed

lemma demo_run:
  "\<exists>s s' h q u. session_run AppInfo_new [demo_tag 0] [h] s (PlayerUser_new 0) [] \<and> HasMedia s \<and>
     GetGopByLatency 3000 (st_gops s) = (0, 0) \<and>
     session_run AppInfo_new [demo_tag 0, demo_tag 1] [h, q] s' u [h] \<and> HasMedia s' \<and> pu_meta u = None \<and>
     pu_audio_header u = None \<and> pu_video_header u = None \<and> out_frames u = [] \<and> out_index u = 0 \<and> \<not> must_skip AppInfo_new s' u"
proof -
  obtain s s' h where p: "AddPacket AppInfo_new 1 (demo_tag 0) demo_stream = Inr (True, s)"
      "packet_buffer s ! 0 = Some h" "pk_timestamp h = 0" "HasMedia s" "GetGopByLatency 3000 (st_gops s) = (0, 0)"
      "AddPacket AppInfo_new 2 (demo_tag 1) s = Inr (True, s')" "HasMedia s'" "LastestTimeStamp (st_gops s') = 0"
    using demo_published by blast
  have h: "stream_inv [h] s" using AddPacket_inv [OF p(1) Stream_new_inv] p(2) by auto
  obtain q where q: "packet_buffer s' ! 1 = Some q" "stream_inv [h, q] s'"
    using AddPacket_inv [OF p(6) h] by (auto simp: packet_buffer_size_def)
  have "session_run AppInfo_new [] [] demo_stream (PlayerUser_new 0) []" by (rule session_run.start)
  from session_run.publish [OF this p(1), of h] have r1: "session_run AppInfo_new [demo_tag 0] [h] s (PlayerUser_new 0) []"
    using p(2) by simp
  have lat: "sint (content_latency AppInfo_new) = 3000" by (simp add: AppInfo_new_def)
  obtain k v where v: "GetFrames AppInfo_new 0 s (PlayerUser_new 0) = Inr (took (take 10 (drop k [h])) v)" "k < 1"
      "at_gop (int k) s (PlayerUser_new 0) v"
    using fetch_at_key [OF r1, of 0] p(4,5) unfolding lat by (auto simp: PlayerUser_new_def)
  let ?u = "took [h] v"
  let ?w = "?u\<lparr>pu_meta := None, pu_audio_header := None, pu_video_header := None, out_frames := []\<rparr>"
  have k: "out_frames ?u = [h]" "took (take 10 (drop k [h])) v = ?u" using v(2,3) by (simp_all add: at_gop_def took_def PlayerUser_new_def)
  have r2: "session_run AppInfo_new [demo_tag 0] [h] s ?u []" using session_run.fetch [OF r1 v(1)] k(2) by simp
  from session_run.sent [OF session_run.video_sent [OF session_run.audio_sent [OF session_run.meta_sent [OF this]]], of "pu_corrector ?u"]
  have "session_run AppInfo_new [demo_tag 0] [h] s ?w [h]" using k(1) by simp
  from session_run.publish [OF this p(6), of q]
  have r3: "session_run AppInfo_new [demo_tag 0, demo_tag 1] [h, q] s' ?w [h]" using q(1) by (simp add: packet_buffer_size_def)
  have "Index h = 0" using h by (simp add: stream_inv_def holds_def indexed_def)
  then have "out_index ?w = 0" "out_frame_timestamp ?w = 0" using p(3) by (simp_all add: took_def to_int32_def)
  moreover have "frame_index s' = 1" using q(2) by (simp add: stream_inv_def holds_def)
  ultimately have "\<not> must_skip AppInfo_new s' ?w"
    using p(8) lat by (simp add: must_skip_def to_int32_def packet_buffer_size_def)
  then show ?thesis using r1 r3 p(4,5,7) \<open>out_index ?w = 0\<close>
    by (intro exI [of _ s] exI [of _ s'] exI [of _ h] exI [of _ q] exI [of _ ?w]) simp
qed

lemma player_gets_stream_witness:
  "\<exists>h s u out. length out = 1 \<and> session_run AppInfo_new [demo_tag 0, demo_tag 1] h s u out \<and>
    list_all2 same_frame [demo_tag 0, demo_tag 1] h \<and>
    (\<exists>ks. out @ out_frames u = map ((!) h) ks \<and> sorted_wrt (<) ks \<and> list_all (\<lambda>k. k < length h) ks)"
proof -
  obtain h q s u where r: "session_run AppInfo_new [demo_tag 0, demo_tag 1] [h, q] s u [h]" using demo_run by blast
  from player_gets_stream [OF r] r show ?thesis
    by (intro exI [of _ "[h, q]"] exI [of _ s] exI [of _ u] exI [of _ "[h]"]) simp
qed

lemma player_keeps_up_witness:
  "\<exists>h q s u. session_run AppInfo_new [demo_tag 0, demo_tag 1] [h, q] s u [h] \<and>
    GetFrames AppInfo_new 7 s u = Inr (took [q] u)"
proof -
  obtain h q s u where r: "session_run AppInfo_new [demo_tag 0, demo_tag 1] [h, q] s u [h]" "HasMedia s" "pu_meta u = None"
     "pu_audio_header u = None" "pu_video_header u = None" "out_frames u = []" "out_index u = 0" "\<not> must_skip AppInfo_new s u"
    using demo_run by blast
  have "0 \<le> out_index u" using r(7) by simp
  from player_keeps_up [OF r(1) _ r(2-6) this r(8), of 7] r(1,7) show ?thesis by auto
qed

lemma player_starts_at_key_frame_witness:
  "\<exists>h s u. session_run AppInfo_new [demo_tag 0] [h] s (PlayerUser_new 0) [] \<and> IsKeyFrame h \<and>
    GetFrames AppInfo_new 7 s (PlayerUser_new 0) = Inr u \<and> out_frames u = [h]"
proof -
  obtain h s where r: "session_run AppInfo_new [demo_tag 0] [h] s (PlayerUser_new 0) []" "HasMedia s"
      "GetGopByLatency 3000 (st_gops s) = (0, 0)"
    using demo_run by blast
  have lat: "sint (content_latency AppInfo_new) = 3000" by (simp add: AppInfo_new_def)
  obtain k u where "GetFrames AppInfo_new 7 s (PlayerUser_new 0) = Inr u" "k < length [h]" "IsKeyFrame ([h] ! k)"
      "out_frames u = take 10 (drop k [h])"
    using player_starts_at_key_frame [OF r(1), of 7] r(2,3) unfolding lat by (auto simp: PlayerUser_new_def)
  then show ?thesis using r(1) by auto
qed

end
