(* ===== verification/Flv.thy ===== *)
theory Flv
  imports Packet StrUtils
begin

text \<open>
  The FLV muxer of a player over HTTP, \<open>src/mmedia/flv/FlvContext.{h,cpp}\<close>: headers are built in a
  buffer of 512 bytes, bodies are sent from the packets. A buffer node is the bytes it points to;
  \<open>fc_current\<close> is the offset of \<open>current_\<close>. Calls on the connection and on the handler are recorded in
  the field \<open>fc_events\<close>. What is sent is read back by a reader of FLV files written from the format.
\<close>

section \<open>The context\<close>

datatype flv_event = FlvSend "byte list list" | FlvActive

record 'e flv_ctx =
  fc_bufs :: "byte list list"
  fc_out_packets :: "'e packet list"
  previous_size :: u32
  http_header :: str
  fc_current :: nat
  fc_sending :: bool
  fc_has_handler :: bool
  fc_events :: "flv_event list"

definition FlvContext_new :: "bool \<Rightarrow> 'e flv_ctx" where
  "FlvContext_new handler = \<lparr>fc_bufs = [], fc_out_packets = [], previous_size = 0, http_header = [], fc_current = 0,
     fc_sending = False, fc_has_handler = handler, fc_events = []\<rparr>"

definition Flv_Send :: "'e flv_ctx \<Rightarrow> 'e flv_ctx" where
  "Flv_Send c = (if fc_sending c then c
     else c\<lparr>fc_sending := True, fc_events := fc_events c @ [FlvSend (fc_bufs c)]\<rparr>)"

text \<open>Bytes that are put at \<open>current_\<close> and queued.\<close>

definition put_header :: "byte list \<Rightarrow> 'e flv_ctx \<Rightarrow> 'e flv_ctx res" where
  "put_header bs c =
     (if 512 < fc_current c + length bs then Inl BufferOverflow
      else Inr (c\<lparr>fc_current := fc_current c + length bs, fc_bufs := fc_bufs c @ [bs]\<rparr>))"

definition flv_file_header :: "byte \<Rightarrow> byte list" where
  "flv_file_header flags = [0x46, 0x4c, 0x56, 0x01, flags, 0, 0, 0, 9]"

definition WriteFlvHeader :: "bool \<Rightarrow> bool \<Rightarrow> 'e flv_ctx \<Rightarrow> 'e flv_ctx res" where
  "WriteFlvHeader video audio c =
     put_header (flv_file_header (if \<not> audio then 0x01 else if \<not> video then 0x04 else 0x05)) c"

definition crlf :: str where "crlf = [13, 10]"

definition flv_http_header :: str where
  "flv_http_header = lit ''HTTP/1.1 200 OK '' @ crlf @ lit ''Access-Control-Allow-Origin: *'' @ crlf @
     lit ''Content-Type: video/x-flv'' @ crlf @ lit ''Connection: Keep-Alive'' @ crlf @ crlf"

definition SendFlvHttpHeader :: "bool \<Rightarrow> bool \<Rightarrow> 'e flv_ctx \<Rightarrow> 'e flv_ctx res" where
  "SendFlvHttpHeader video audio c =
     bindE (WriteFlvHeader video audio (c\<lparr>http_header := flv_http_header, fc_bufs := fc_bufs c @ [flv_http_header]\<rparr>))
       (\<lambda>c. Inr (Flv_Send c))"

definition GetRtmpPacketType :: "'e packet \<Rightarrow> byte" where
  "GetRtmpPacketType pkt =
     (if IsAudio pkt then 8 else if IsVideo pkt then 9 else if IsMeta pkt then 18 else 0)"

definition flv_tag_header :: "u32 \<Rightarrow> byte \<Rightarrow> u32 \<Rightarrow> u32 \<Rightarrow> byte list" where
  "flv_tag_header previous t mlen timestamp =
     WriteUint32T previous @ [t] @ WriteUint24T mlen @ WriteUint24T timestamp @ [0] @ [0, 0, 0]"

definition BuildFlvFrame :: "'e packet \<Rightarrow> u32 \<Rightarrow> 'e flv_ctx \<Rightarrow> 'e flv_ctx res" where
  "BuildFlvFrame pkt timestamp c =
     (let c = c\<lparr>fc_out_packets := fc_out_packets c @ [pkt]\<rparr>
      in bindE (put_header (flv_tag_header (previous_size c) (GetRtmpPacketType pkt) (pk_size pkt) timestamp) c) (\<lambda>c.
         bindE (mem_read (unat (pk_size pkt)) (pk_data pkt)) (\<lambda>bs.
           Inr (c\<lparr>previous_size := pk_size pkt + 11, fc_bufs := fc_bufs c @ [bs]\<rparr>))))"

definition Flv_Ready :: "'e flv_ctx \<Rightarrow> bool" where
  "Flv_Ready c \<longleftrightarrow> \<not> fc_sending c"

definition Flv_WriteComplete :: "'e flv_ctx \<Rightarrow> 'e flv_ctx" where
  "Flv_WriteComplete c =
     (let c = c\<lparr>fc_sending := False, fc_current := 0, fc_bufs := [], fc_out_packets := []\<rparr>
      in if fc_has_handler c then c\<lparr>fc_events := fc_events c @ [FlvActive]\<rparr> else c)"

section \<open>A reader of FLV\<close>

text \<open>The bytes sent so far, and those queued.\<close>

fun flv_sent :: "flv_event list \<Rightarrow> byte list" where
  "flv_sent [] = []"
| "flv_sent (FlvSend bs # es) = concat bs @ flv_sent es"
| "flv_sent (FlvActive # es) = flv_sent es"

definition flv_bytes :: "'e flv_ctx \<Rightarrow> byte list" where
  "flv_bytes c = flv_sent (fc_events c) @ (if fc_sending c then [] else concat (fc_bufs c))"

text \<open>Tags as the format has them: the size of the previous tag, kind, size, time with its upper byte
  after the others, stream 0, data.\<close>

function read_tags :: "u32 \<Rightarrow> byte list \<Rightarrow> (byte \<times> u32 \<times> byte list) list option" where
  "read_tags prev bs =
     (if bs = [] then Some []
      else case (ReadUint32T bs, ReadUint8T (drop 4 bs), ReadUint24T (drop 5 bs), ReadUint24T (drop 8 bs),
                 ReadUint32T (drop 11 bs)) of
        (Inr p, Inr k, Inr n, Inr low, Inr high) \<Rightarrow>
          if p = prev \<and> high AND 0xffffff = 0 \<and> unat n \<le> length (drop 15 bs)
          then map_option (Cons (k, high OR low, take (unat n) (drop 15 bs))) (read_tags (n + 11) (drop (15 + unat n) bs))
          else None
      | _ \<Rightarrow> None)"
  by pat_completeness auto
termination by (relation "measure (length o snd)") auto

declare read_tags.simps [simp del]

definition read_flv :: "byte list \<Rightarrow> (byte \<times> (byte \<times> u32 \<times> byte list) list) option" where
  "read_flv bs =
     (if 9 \<le> length bs \<and> take 4 bs = [0x46, 0x4c, 0x56, 1] \<and> take 4 (drop 5 bs) = [0, 0, 0, 9]
      then map_option (Pair (bs ! 4)) (read_tags 0 (drop 9 bs)) else None)"

section \<open>Lemmas\<close>

text \<open>The tag a packet becomes: its time is cut to 24 bits.\<close>

definition tag_of :: "'e packet \<times> u32 \<Rightarrow> byte \<times> u32 \<times> byte list" where
  "tag_of = (\<lambda>(p, t). (GetRtmpPacketType p, t AND 0xffffff, body p))"

definition flv_ok :: "'e packet \<Rightarrow> bool" where
  "flv_ok p \<longleftrightarrow> unat (pk_size p) \<le> length (pk_data p) \<and> unat (pk_size p) < 2 ^ 24"

fun tags_bytes :: "u32 \<Rightarrow> ('e packet \<times> u32) list \<Rightarrow> byte list" where
  "tags_bytes prev [] = []"
| "tags_bytes prev ((p, t) # fs) =
     flv_tag_header prev (GetRtmpPacketType p) (pk_size p) t @ body p @ tags_bytes (pk_size p + 11) fs"

definition last_size :: "u32 \<Rightarrow> ('e packet \<times> u32) list \<Rightarrow> u32" where
  "last_size prev fs = (if fs = [] then prev else pk_size (fst (last fs)) + 11)"

lemma tags_bytes_append: "tags_bytes prev (fs @ gs) = tags_bytes prev fs @ tags_bytes (last_size prev fs) gs"
  by (induction prev fs rule: tags_bytes.induct) (auto simp: last_size_def)

lemma body_length: "flv_ok p \<Longrightarrow> length (body p) = unat (pk_size p)"
  by (simp add: body_def flv_ok_def min_def)

lemma u24_low: "WriteUint24T (v AND 0xffffff) = WriteUint24T v" "v AND 0xffffff < (2 ^ 24 :: u32)"
proof -
  have m: "v AND 0xffffff = take_bit 24 v"
    by (simp add: take_bit_eq_mask mask_eq_exp_minus_1)
  show "WriteUint24T (v AND 0xffffff) = WriteUint24T v"
    unfolding m WriteUint24T_def by (auto intro!: bit_word_eqI simp: bit_simps)
  show "v AND 0xffffff < (2 ^ 24 :: u32)"
    using and_mask_less' [of 24 v] by (simp add: mask_eq_exp_minus_1)
qed

lemma read_tag:
  assumes "flv_ok p"
  shows "read_tags prev (flv_tag_header prev (GetRtmpPacketType p) (pk_size p) t @ body p @ rest) =
    map_option (Cons (tag_of (p, t))) (read_tags (pk_size p + 11) rest)"
proof -
  let ?z = "[0, 0, 0, 0] @ body p @ rest"
  let ?bs = "WriteUint32T prev @ GetRtmpPacketType p # WriteUint24T (pk_size p) @ WriteUint24T (t AND 0xffffff) @ ?z"
  have len: "length (WriteUint32T v) = 4" "length (WriteUint24T v) = 3" for v
    by (simp_all add: WriteUint32T_def WriteUint24T_def)
  have n: "pk_size p < 2 ^ 24" using assms by (simp add: flv_ok_def word_less_nat_alt)
  have bs: "flv_tag_header prev (GetRtmpPacketType p) (pk_size p) t @ body p @ rest = ?bs"
    by (simp add: flv_tag_header_def u24_low)
  have fields: "ReadUint32T ?bs = Inr prev" "ReadUint8T (drop 4 ?bs) = Inr (GetRtmpPacketType p)"
    "ReadUint24T (drop 5 ?bs) = Inr (pk_size p)" "ReadUint24T (drop 8 ?bs) = Inr (t AND 0xffffff)"
    "drop 15 ?bs = body p @ rest"
    using n u24_low(2) [of t] by (simp_all add: len u24.dec_enc u32.dec_enc ReadUint8T_def)
  have high: "ReadUint32T (drop 11 ?bs) = Inr 0"
    unfolding ReadUint32T_def by (simp add: len)
  have b: "length (body p) = unat (pk_size p)" using assms by (rule body_length)
  have d: "drop (15 + unat (pk_size p)) ?bs = rest"
  proof -
    have "drop (15 + unat (pk_size p)) ?bs = drop (unat (pk_size p)) (drop 15 ?bs)"
      by (simp only: drop_drop add.commute)
    then show ?thesis unfolding fields(5) using b by simp
  qed
  have ne: "?bs \<noteq> []" by simp
  show ?thesis
    unfolding bs read_tags.simps [of prev ?bs] fields high if_not_P [OF ne] sum.case prod.case d
    by (simp add: b tag_of_def)
qed

lemma read_tags_bytes:
  "list_all (\<lambda>(p, _). flv_ok p) fs \<Longrightarrow> read_tags prev (tags_bytes prev fs) = Some (map tag_of fs)"
  by (induction prev fs rule: tags_bytes.induct) (simp_all add: read_tag read_tags.simps [of _ "[]"])

lemma length_tags_header: "length (flv_tag_header prev k n t) = 15"
  by (simp add: flv_tag_header_def WriteUint32T_def WriteUint24T_def)

lemma read_flv_tags:
  assumes "list_all (\<lambda>(p, _). flv_ok p) fs"
  shows "read_flv (flv_file_header flags @ tags_bytes 0 fs) = Some (flags, map tag_of fs)"
  using read_tags_bytes [OF assms, of 0] by (simp add: read_flv_def flv_file_header_def)

text \<open>What the context has written: its headers, then the tags of \<open>fs\<close>. While it is ready nothing is
  queued but what has been built since.\<close>

definition flv_wrote :: "byte \<Rightarrow> ('e packet \<times> u32) list \<Rightarrow> 'e flv_ctx \<Rightarrow> bool" where
  "flv_wrote flags fs c \<longleftrightarrow>
     flv_bytes c = flv_http_header @ flv_file_header flags @ tags_bytes 0 fs \<and> previous_size c = last_size 0 fs"

definition flv_idle :: "'e flv_ctx \<Rightarrow> bool" where
  "flv_idle c \<longleftrightarrow> fc_sending c \<or> fc_current c = 0 \<and> fc_bufs c = []"

lemma flv_sent_append: "flv_sent (es @ fs) = flv_sent es @ flv_sent fs"
  by (induction es rule: flv_sent.induct) simp_all

lemma SendFlvHttpHeader_wrote:
  "\<exists>c. SendFlvHttpHeader video audio (FlvContext_new handler) = Inr c \<and> fc_sending c \<and>
     flv_wrote (if \<not> audio then 1 else if \<not> video then 4 else 5) [] c"
  by (simp add: SendFlvHttpHeader_def WriteFlvHeader_def put_header_def FlvContext_new_def flv_file_header_def
      Flv_Send_def flv_wrote_def flv_bytes_def last_size_def)

lemma BuildFlvFrame_wrote:
  assumes "flv_ok p" "fc_current c + 15 \<le> 512" "\<not> fc_sending c"
  shows "\<exists>c'. BuildFlvFrame p t c = Inr c' \<and> \<not> fc_sending c' \<and> fc_current c' = fc_current c + 15 \<and>
    (flv_wrote flags fs c \<longrightarrow> flv_wrote flags (fs @ [(p, t)]) c')"
proof -
  have "mem_read (unat (pk_size p)) (pk_data p) = Inr (body p)" using assms(1) by (simp add: flv_ok_def body_def)
  then show ?thesis using assms(2,3)
    by (simp add: BuildFlvFrame_def put_header_def length_tags_header flv_wrote_def flv_bytes_def Let_def
        tags_bytes_append last_size_def)
qed

lemma Flv_Send_wrote: "flv_wrote flags fs c \<Longrightarrow> flv_wrote flags fs (Flv_Send c)" "fc_sending (Flv_Send c)"
  by (simp_all add: flv_wrote_def Flv_Send_def flv_bytes_def flv_sent_append split: if_splits)

lemma Flv_WriteComplete_wrote:
  assumes "fc_sending c"
  shows "flv_wrote flags fs c \<Longrightarrow> flv_wrote flags fs (Flv_WriteComplete c)" "flv_idle (Flv_WriteComplete c)"
  using assms by (simp_all add: flv_wrote_def Flv_WriteComplete_def flv_bytes_def flv_sent_append flv_idle_def Let_def)

end
