(* ===== verification/MsgBuffer.thy ===== *)
theory MsgBuffer
  imports Bytes
begin

text \<open>
  The network buffer \<open>src/network/base/MsgBuffer.{h,cpp}\<close>: a vector of bytes with a head and a
  tail index, the readable bytes between them, and eight spare bytes in front.

  Sizes are natural numbers; only the subtractions \<open>tail_ - head_\<close> and
  \<open>buffer_.size() - tail_\<close> can wrap, and they are \<open>size_sub\<close>. The abstraction is
  \<open>contents\<close>, the list of readable bytes; the invariant \<open>mb_inv\<close> orders the indices. The
  locale \<open>byte_queue\<close> is the contract the protocol parsers use the buffer through.
\<close>

section \<open>State\<close>

record msg_buffer =
  mb_head :: nat
  mb_initCap :: nat
  mb_buffer :: "byte list"
  mb_tail :: nat

definition kBufferOffset :: nat where "kBufferOffset = 8"
definition kBufferDefaultLength :: nat where "kBufferDefaultLength = 2048"

definition MsgBuffer_new :: "nat \<Rightarrow> msg_buffer" where
  "MsgBuffer_new len = \<lparr>mb_head = kBufferOffset, mb_initCap = len,
     mb_buffer = replicate (len + kBufferOffset) 0, mb_tail = kBufferOffset\<rparr>"

definition Peek :: "msg_buffer \<Rightarrow> byte list" where
  "Peek b = drop (mb_head b) (mb_buffer b)"

definition ReadableBytes :: "msg_buffer \<Rightarrow> nat" where
  "ReadableBytes b = size_sub (mb_tail b) (mb_head b)"

definition WritableBytes :: "msg_buffer \<Rightarrow> nat" where
  "WritableBytes b = size_sub (length (mb_buffer b)) (mb_tail b)"

definition contents :: "msg_buffer \<Rightarrow> byte list" where
  "contents b = take (ReadableBytes b) (Peek b)"

definition mb_inv :: "msg_buffer \<Rightarrow> bool" where
  "mb_inv b \<longleftrightarrow> mb_head b \<le> mb_tail b \<and> mb_tail b \<le> length (mb_buffer b)
     \<and> 8 \<le> length (mb_buffer b) \<and> 8 \<le> mb_initCap b"

section \<open>Writing\<close>

text \<open>\<open>memcpy\<close> into the vector, and \<open>std::copy\<close> inside it.\<close>

definition put_at :: "nat \<Rightarrow> byte list \<Rightarrow> msg_buffer \<Rightarrow> msg_buffer res" where
  "put_at off new b =
     (if off + length new \<le> length (mb_buffer b)
      then Inr (b\<lparr>mb_buffer := overwrite off new (mb_buffer b)\<rparr>) else Inl BufferOverflow)"

definition copy_within :: "nat \<Rightarrow> msg_buffer \<Rightarrow> msg_buffer res" where
  \<comment> \<open>\<open>std::copy (begin () + head_, begin () + tail_, begin () + dst)\<close>\<close>
  "copy_within dst b =
     (if mb_head b < dst \<and> dst < mb_tail b then Inl OverlapCopy
      else bindE (mem_read (ReadableBytes b) (Peek b)) (\<lambda>d. put_at dst d b))"

function EnsureWritableBytes :: "nat \<Rightarrow> msg_buffer \<Rightarrow> msg_buffer res" where
  "EnsureWritableBytes len b =
     (if len \<le> WritableBytes b then Inr b
      else if len + kBufferOffset \<le> mb_head b + WritableBytes b then
        bindE (copy_within kBufferOffset b) (\<lambda>b'.
          Inr (b'\<lparr>mb_tail := kBufferOffset + ReadableBytes b, mb_head := kBufferOffset\<rparr>))
      else
        (let newLen = (if kBufferOffset + ReadableBytes b + len < length (mb_buffer b) * 2
                       then length (mb_buffer b) * 2
                       else kBufferOffset + ReadableBytes b + len)
         in \<comment> \<open>\<open>newbuffer.Append (*this); Swap (newbuffer)\<close>\<close>
            bindE (EnsureWritableBytes (ReadableBytes b) (MsgBuffer_new newLen)) (\<lambda>nb.
            bindE (mem_read (ReadableBytes b) (Peek b)) (\<lambda>d.
            bindE (put_at (mb_tail nb) d nb) (\<lambda>nb.
              Inr (nb\<lparr>mb_tail := mb_tail nb + ReadableBytes b\<rparr>))))))"
  by pat_completeness auto
termination
  by (relation "measure (\<lambda>(len, b). if WritableBytes b < len then 1 else 0)")
    (auto simp: WritableBytes_def MsgBuffer_new_def)

declare EnsureWritableBytes.simps [simp del]

definition Append :: "byte list \<Rightarrow> msg_buffer \<Rightarrow> msg_buffer res" where
  "Append d b =
     bindE (EnsureWritableBytes (length d) b) (\<lambda>b.
     bindE (put_at (mb_tail b) d b) (\<lambda>b.
       Inr (b\<lparr>mb_tail := mb_tail b + length d\<rparr>)))"

definition AppendBuffer :: "msg_buffer \<Rightarrow> msg_buffer \<Rightarrow> msg_buffer res" where
  "AppendBuffer buf b =
     bindE (EnsureWritableBytes (ReadableBytes buf) b) (\<lambda>b.
     bindE (mem_read (ReadableBytes buf) (Peek buf)) (\<lambda>d.
     bindE (put_at (mb_tail b) d b) (\<lambda>b.
       Inr (b\<lparr>mb_tail := mb_tail b + ReadableBytes buf\<rparr>))))"

definition AppendInt8 :: "byte \<Rightarrow> msg_buffer \<Rightarrow> msg_buffer res" where
  "AppendInt8 v = Append (WriteUint8T v)"
definition AppendInt16 :: "u16 \<Rightarrow> msg_buffer \<Rightarrow> msg_buffer res" where
  "AppendInt16 v = Append (WriteUint16T v)"
definition AppendInt32 :: "u32 \<Rightarrow> msg_buffer \<Rightarrow> msg_buffer res" where
  "AppendInt32 v = Append (WriteUint32T v)"
definition AppendInt64 :: "u64 \<Rightarrow> msg_buffer \<Rightarrow> msg_buffer res" where
  "AppendInt64 v = Append (store_be64 v)"

definition AddInFront :: "byte list \<Rightarrow> msg_buffer \<Rightarrow> msg_buffer res" where
  "AddInFront d b =
     (let len = length d in
      if len \<le> mb_head b then
        bindE (put_at (mb_head b - len) d b) (\<lambda>b. Inr (b\<lparr>mb_head := mb_head b - len\<rparr>))
      else if len \<le> WritableBytes b then
        bindE (copy_within (mb_head b + len) b) (\<lambda>b.
        bindE (put_at (mb_head b) d b) (\<lambda>b. Inr (b\<lparr>mb_tail := mb_tail b + len\<rparr>)))
      else
        (let newLen = (if len + ReadableBytes b < mb_initCap b then mb_initCap b
                       else len + ReadableBytes b)
         in bindE (Append d (MsgBuffer_new newLen)) (\<lambda>nb. AppendBuffer b nb)))"

definition AddInFrontInt8 :: "byte \<Rightarrow> msg_buffer \<Rightarrow> msg_buffer res" where
  "AddInFrontInt8 v = AddInFront (WriteUint8T v)"
definition AddInFrontInt16 :: "u16 \<Rightarrow> msg_buffer \<Rightarrow> msg_buffer res" where
  "AddInFrontInt16 v = AddInFront (WriteUint16T v)"
definition AddInFrontInt32 :: "u32 \<Rightarrow> msg_buffer \<Rightarrow> msg_buffer res" where
  "AddInFrontInt32 v = AddInFront (WriteUint32T v)"
definition AddInFrontInt64 :: "u64 \<Rightarrow> msg_buffer \<Rightarrow> msg_buffer res" where
  "AddInFrontInt64 v = AddInFront (store_be64 v)"

definition HasWritten :: "nat \<Rightarrow> msg_buffer \<Rightarrow> msg_buffer res" where
  "HasWritten len b =
     (if len \<le> WritableBytes b then Inr (b\<lparr>mb_tail := mb_tail b + len\<rparr>) else Inl AssertFailed)"

definition Unwrite :: "nat \<Rightarrow> msg_buffer \<Rightarrow> msg_buffer res" where
  "Unwrite off b =
     (if off \<le> ReadableBytes b then Inr (b\<lparr>mb_tail := size_sub (mb_tail b) off\<rparr>)
      else Inl AssertFailed)"

section \<open>Reading\<close>

definition RetrieveAll :: "msg_buffer \<Rightarrow> msg_buffer" where
  "RetrieveAll b =
     (let b' = (if mb_initCap b * 2 < length (mb_buffer b)
                then b\<lparr>mb_buffer := take (mb_initCap b) (mb_buffer b)\<rparr> else b)
      in b'\<lparr>mb_tail := kBufferOffset, mb_head := kBufferOffset\<rparr>)"

definition Retrieve :: "nat \<Rightarrow> msg_buffer \<Rightarrow> msg_buffer" where
  "Retrieve len b =
     (if ReadableBytes b \<le> len then RetrieveAll b else b\<lparr>mb_head := mb_head b + len\<rparr>)"

definition RetrieveUntil :: "nat \<Rightarrow> msg_buffer \<Rightarrow> msg_buffer res" where
  \<comment> \<open>\<open>e\<close> is the index of the \<open>end\<close> pointer in the vector\<close>
  "RetrieveUntil e b =
     (if mb_head b \<le> e \<and> e \<le> mb_tail b then Inr (Retrieve (e - mb_head b) b)
      else Inl AssertFailed)"

definition Read :: "nat \<Rightarrow> msg_buffer \<Rightarrow> (byte list \<times> msg_buffer) res" where
  "Read len b =
     (let len = (if ReadableBytes b < len then ReadableBytes b else len)
      in bindE (mem_read len (Peek b)) (\<lambda>s. Inr (s, Retrieve len b)))"

definition peek_int :: "nat \<Rightarrow> (byte list \<Rightarrow> 'a res) \<Rightarrow> msg_buffer \<Rightarrow> 'a res" where
  "peek_int w rd b = (if w \<le> ReadableBytes b then rd (Peek b) else Inl AssertFailed)"

definition PeekInt8 :: "msg_buffer \<Rightarrow> byte res" where
  "PeekInt8 = peek_int 1 ReadUint8T"
definition PeekInt16 :: "msg_buffer \<Rightarrow> u16 res" where
  "PeekInt16 = peek_int 2 ReadUint16T"
definition PeekInt32 :: "msg_buffer \<Rightarrow> u32 res" where
  "PeekInt32 = peek_int 4 ReadUint32T"
definition PeekInt64 :: "msg_buffer \<Rightarrow> u64 res" where
  "PeekInt64 = peek_int 8 load_be64"

definition ReadInt8 :: "msg_buffer \<Rightarrow> (byte \<times> msg_buffer) res" where
  "ReadInt8 b = bindE (PeekInt8 b) (\<lambda>v. Inr (v, Retrieve 1 b))"
definition ReadInt16 :: "msg_buffer \<Rightarrow> (u16 \<times> msg_buffer) res" where
  "ReadInt16 b = bindE (PeekInt16 b) (\<lambda>v. Inr (v, Retrieve 2 b))"
definition ReadInt32 :: "msg_buffer \<Rightarrow> (u32 \<times> msg_buffer) res" where
  "ReadInt32 b = bindE (PeekInt32 b) (\<lambda>v. Inr (v, Retrieve 4 b))"
definition ReadInt64 :: "msg_buffer \<Rightarrow> (u64 \<times> msg_buffer) res" where
  "ReadInt64 b = bindE (PeekInt64 b) (\<lambda>v. Inr (v, Retrieve 8 b))"

fun crlf_at :: "byte list \<Rightarrow> nat option" where
  "crlf_at (a # b # r) =
     (if a = 13 \<and> b = 10 then Some 0 else map_option Suc (crlf_at (b # r)))"
| "crlf_at _ = None"

definition FindCRLF :: "msg_buffer \<Rightarrow> nat option" where
  \<comment> \<open>the index of the match in the vector; \<open>None\<close> is \<open>NULL\<close>\<close>
  "FindCRLF b = map_option (\<lambda>i. mb_head b + i) (crlf_at (contents b))"

definition at_offset :: "nat \<Rightarrow> msg_buffer \<Rightarrow> byte res" where
  "at_offset off b =
     (if off \<le> ReadableBytes b then ReadUint8T (drop off (Peek b)) else Inl AssertFailed)"

definition Swap :: "msg_buffer \<Rightarrow> msg_buffer \<Rightarrow> msg_buffer \<times> msg_buffer" where
  "Swap a b = (b, a)"

text \<open>
  \<open>ReadFd\<close>: the kernel's \<open>readv\<close> either fails with an \<open>errno\<close> or stores the received bytes
  first into the writable part of the vector and then, only offered when fewer than 8192 bytes
  are writable, into the 8192 bytes of the stack buffer. Its outcome is the argument \<open>r\<close>.
\<close>

definition ReadFd :: "int + byte list \<Rightarrow> msg_buffer \<Rightarrow> (msg_buffer \<times> int \<times> int option) res" where
  "ReadFd r b =
     (case r of
        Inl errno \<Rightarrow> Inr (b, -1, Some errno)
      | Inr bs \<Rightarrow>
          (let w = WritableBytes b; n = length bs in
           if n \<le> w then
             bindE (put_at (mb_tail b) bs b) (\<lambda>b. Inr (b\<lparr>mb_tail := mb_tail b + n\<rparr>, int n, None))
           else
             bindE (put_at (mb_tail b) (take w bs) b) (\<lambda>b.
             bindE (Append (drop w bs) (b\<lparr>mb_tail := length (mb_buffer b)\<rparr>)) (\<lambda>b.
               Inr (b, int n, None)))))"

section \<open>The contract of a byte queue\<close>

text \<open>
  What the parsers rely on: appending extends the readable bytes at the end, retrieving removes
  them from the front, and neither leaves the invariant.
\<close>

locale byte_queue =
  fixes inv :: "'q \<Rightarrow> bool"
    and bytes :: "'q \<Rightarrow> byte list"
    and append :: "byte list \<Rightarrow> 'q \<Rightarrow> 'q res"
    and retrieve :: "nat \<Rightarrow> 'q \<Rightarrow> 'q"
  assumes append_ok: "inv q \<Longrightarrow> \<exists>q'. append d q = Inr q' \<and> inv q' \<and> bytes q' = bytes q @ d"
    and retrieve_inv: "inv q \<Longrightarrow> inv (retrieve n q)"
    and bytes_retrieve: "inv q \<Longrightarrow> bytes (retrieve n q) = drop n (bytes q)"
begin

lemma retrieve_retrieve:
  "inv q \<Longrightarrow> bytes (retrieve m (retrieve n q)) = bytes (retrieve (n + m) q)"
  by (simp add: retrieve_inv bytes_retrieve add.commute)

lemma append_never_faults: "inv q \<Longrightarrow> append d q \<noteq> Inl e"
  by (metis append_ok sum.distinct(1))

lemma append_result: "inv q \<Longrightarrow> append d q = Inr q' \<Longrightarrow> inv q' \<and> bytes q' = bytes q @ d"
  by (metis append_ok sum.inject(2))

lemma append_retrieve:
  assumes "inv q" "append d q = Inr q'" "n \<le> length (bytes q)"
  shows "bytes (retrieve n q') = bytes (retrieve n q) @ d"
  using append_result [OF assms(1,2)] assms(1,3) by (simp add: bytes_retrieve)

end

section \<open>Every operation keeps the invariant and acts on the contents\<close>

lemma ReadableBytes_inv [simp]: "mb_inv b \<Longrightarrow> ReadableBytes b = mb_tail b - mb_head b"
  by (simp add: ReadableBytes_def mb_inv_def)

lemma WritableBytes_inv [simp]: "mb_inv b \<Longrightarrow> WritableBytes b = length (mb_buffer b) - mb_tail b"
  by (simp add: WritableBytes_def mb_inv_def)

lemma contents_inv: "mb_inv b \<Longrightarrow> contents b = drop (mb_head b) (take (mb_tail b) (mb_buffer b))"
  by (simp add: contents_def Peek_def drop_take)

lemma length_contents: "mb_inv b \<Longrightarrow> length (contents b) = mb_tail b - mb_head b"
  by (auto simp: contents_inv mb_inv_def)

lemma length_contents_Readable: "mb_inv b \<Longrightarrow> length (contents b) = ReadableBytes b"
  by (simp add: length_contents)

lemma read_contents: "mb_inv b \<Longrightarrow> mem_read (ReadableBytes b) (Peek b) = Inr (contents b)"
  by (auto simp: contents_def mem_read_def Peek_def mb_inv_def)

lemma read_contents_inv [simp]:
  "mb_inv b \<Longrightarrow> mem_read (mb_tail b - mb_head b) (Peek b) = Inr (contents b)"
  using read_contents [of b] by simp

lemma MsgBuffer_new_inv [simp]: "8 \<le> len \<Longrightarrow> mb_inv (MsgBuffer_new len)"
  by (simp add: mb_inv_def MsgBuffer_new_def kBufferOffset_def)

lemma MsgBuffer_new_simps [simp]:
  "WritableBytes (MsgBuffer_new len) = len" "ReadableBytes (MsgBuffer_new len) = 0"
  "contents (MsgBuffer_new len) = []" "mb_tail (MsgBuffer_new len) = 8"
  "length (mb_buffer (MsgBuffer_new len)) = len + 8" "mb_head (MsgBuffer_new len) = 8"
  "mb_initCap (MsgBuffer_new len) = len"
  by (simp_all add: WritableBytes_def ReadableBytes_def contents_def MsgBuffer_new_def
      kBufferOffset_def)

lemma EnsureWritable_fits: "len \<le> WritableBytes b \<Longrightarrow> EnsureWritableBytes len b = Inr b"
  by (simp add: EnsureWritableBytes.simps)

text \<open>Storing at the tail appends to the contents.\<close>

lemma put_tail:
  assumes "mb_inv b" "length d \<le> WritableBytes b"
  shows "\<exists>b'. put_at (mb_tail b) d b = Inr b' \<and>
     mb_inv (b'\<lparr>mb_tail := mb_tail b + length d\<rparr>) \<and> mb_tail b' = mb_tail b \<and>
     contents (b'\<lparr>mb_tail := mb_tail b + length d\<rparr>) = contents b @ d"
proof -
  let ?b' = "b\<lparr>mb_buffer := overwrite (mb_tail b) d (mb_buffer b), mb_tail := mb_tail b + length d\<rparr>"
  from assms have fits: "mb_tail b + length d \<le> length (mb_buffer b)" by (auto simp: mb_inv_def)
  with assms(1) have inv: "mb_inv ?b'" by (auto simp: mb_inv_def)
  have "contents ?b' = drop (mb_head b) (take (mb_tail b) (mb_buffer b)) @ d"
    using contents_inv [OF inv] assms(1) fits by (simp add: drop_take_overwrite mb_inv_def)
  with assms(1) inv fits show ?thesis by (simp add: put_at_def contents_inv)
qed

lemma copy_down:
  assumes "mb_inv b" "8 < mb_head b"
  shows "\<exists>b'. copy_within 8 b = Inr b' \<and>
     mb_inv (b'\<lparr>mb_tail := 8 + ReadableBytes b, mb_head := 8\<rparr>) \<and>
     contents (b'\<lparr>mb_tail := 8 + ReadableBytes b, mb_head := 8\<rparr>) = contents b \<and>
     length (mb_buffer b') = length (mb_buffer b)"
proof -
  let ?n = "ReadableBytes b"
  have len: "length (contents b) = ?n" using assms(1) by (rule length_contents_Readable)
  have fits: "8 + ?n \<le> length (mb_buffer b)" using assms by (auto simp: mb_inv_def)
  let ?b' = "b\<lparr>mb_buffer := overwrite 8 (contents b) (mb_buffer b)\<rparr>"
  have "copy_within 8 b = Inr ?b'"
    using assms fits len by (simp del: bindE_eq_Inr add: copy_within_def put_at_def)
  moreover have inv: "mb_inv (?b'\<lparr>mb_tail := 8 + ?n, mb_head := 8\<rparr>)"
    using assms fits len by (auto simp: mb_inv_def)
  moreover have "contents (?b'\<lparr>mb_tail := 8 + ?n, mb_head := 8\<rparr>) = contents b"
    using contents_inv [OF inv] fits len drop_take_overwrite [of 8 8 "contents b" "mb_buffer b"]
    by simp
  ultimately show ?thesis using fits len assms by simp
qed

lemma kBufferOffset_8 [simp]: "kBufferOffset = 8"
  by (simp add: kBufferOffset_def)

lemma Ensure_ok:
  assumes "mb_inv b"
  shows "\<exists>b'. EnsureWritableBytes len b = Inr b' \<and> mb_inv b' \<and>
     contents b' = contents b \<and> len \<le> WritableBytes b'"
proof -
  let ?w = "WritableBytes b" and ?r = "ReadableBytes b"
  consider (fits) "len \<le> ?w" | (move) "?w < len" "len + 8 \<le> mb_head b + ?w"
    | (grow) "?w < len" "mb_head b + ?w < len + 8" by linarith
  then show ?thesis
  proof cases
    case fits
    with assms show ?thesis by (simp add: EnsureWritable_fits)
  next
    case move
    then have "8 < mb_head b" by linarith
    then obtain b' where b': "copy_within 8 b = Inr b'"
      "mb_inv (b'\<lparr>mb_tail := 8 + ?r, mb_head := 8\<rparr>)"
      "contents (b'\<lparr>mb_tail := 8 + ?r, mb_head := 8\<rparr>) = contents b"
      "length (mb_buffer b') = length (mb_buffer b)"
      using copy_down [OF assms] by blast
    have "EnsureWritableBytes len b = Inr (b'\<lparr>mb_tail := 8 + ?r, mb_head := 8\<rparr>)"
      using move b'(1) by (subst EnsureWritableBytes.simps) (simp del: ReadableBytes_inv)
    moreover have "len \<le> length (mb_buffer b) - (8 + ?r)"
      using assms move by (auto simp: mb_inv_def)
    ultimately show ?thesis using b' by (simp del: ReadableBytes_inv)
  next
    case grow
    define n where "n = (if 8 + ?r + len < length (mb_buffer b) * 2 then length (mb_buffer b) * 2
      else 8 + ?r + len)"
    have n: "8 + ?r + len \<le> n" by (auto simp: n_def)
    let ?nb = "MsgBuffer_new n"
    have nb: "mb_inv ?nb" using n by simp
    have "length (contents b) \<le> WritableBytes ?nb"
      using n length_contents_Readable [OF assms] by simp
    then obtain b' where b': "put_at 8 (contents b) ?nb = Inr b'" "mb_tail b' = 8"
      "mb_inv (b'\<lparr>mb_tail := 8 + ?r\<rparr>)" "contents (b'\<lparr>mb_tail := 8 + ?r\<rparr>) = contents b"
      using put_tail [OF nb, of "contents b"] length_contents_Readable [OF assms] by auto
    have "EnsureWritableBytes len b = Inr (b'\<lparr>mb_tail := 8 + ?r\<rparr>)"
      using grow b' n assms
      by (subst EnsureWritableBytes.simps, cases "8 + ?r + len < length (mb_buffer b) * 2")
        (simp_all del: ReadableBytes_inv WritableBytes_inv bindE_eq_Inr
          add: n_def Let_def EnsureWritable_fits read_contents)
    moreover have "length (mb_buffer b') = n + 8"
      using b'(1) by (auto simp: put_at_def split: if_splits)
    ultimately show ?thesis using b' n by (simp del: ReadableBytes_inv)
  qed
qed

lemma Append_ok:
  assumes "mb_inv b"
  shows "\<exists>b'. Append d b = Inr b' \<and> mb_inv b' \<and> contents b' = contents b @ d"
proof -
  obtain b1 where b1: "EnsureWritableBytes (length d) b = Inr b1" "mb_inv b1"
    "contents b1 = contents b" "length d \<le> WritableBytes b1"
    using Ensure_ok [OF assms] by blast
  then show ?thesis using put_tail [OF b1(2,4)] by (auto simp: Append_def)
qed

lemma AppendBuffer_Append:
  "mb_inv buf \<Longrightarrow> mb_inv b \<Longrightarrow> AppendBuffer buf b = Append (contents buf) b"
  by (simp del: bindE_eq_Inr ReadableBytes_inv
      add: AppendBuffer_def Append_def read_contents length_contents_Readable)

lemma RetrieveAll_ok: "mb_inv b \<Longrightarrow> mb_inv (RetrieveAll b) \<and> contents (RetrieveAll b) = []"
  by (auto simp: RetrieveAll_def mb_inv_def Let_def contents_def ReadableBytes_def)

lemma Retrieve_ok: "mb_inv b \<Longrightarrow> mb_inv (Retrieve n b) \<and> contents (Retrieve n b) = drop n (contents b)"
proof (cases "ReadableBytes b \<le> n")
  case True
  assume "mb_inv b"
  with True show ?thesis using RetrieveAll_ok length_contents by (simp add: Retrieve_def)
next
  case False
  assume inv: "mb_inv b"
  with False have inv': "mb_inv (b\<lparr>mb_head := mb_head b + n\<rparr>)" by (simp add: mb_inv_def)
  from False inv show ?thesis
    using contents_inv [OF inv] contents_inv [OF inv'] inv'
    by (simp add: Retrieve_def add.commute)
qed

interpretation mb: byte_queue mb_inv contents Append Retrieve
  by unfold_locales (use Append_ok Retrieve_ok in auto)

lemma Read_ok:
  assumes "mb_inv b"
  shows "Read n b = Inr (take n (contents b), Retrieve (min n (ReadableBytes b)) b)"
proof -
  have "mem_read (min n (ReadableBytes b)) (Peek b) = Inr (take n (contents b))"
    using assms by (auto simp: mem_read_def contents_def Peek_def mb_inv_def min.commute)
  moreover have "(if ReadableBytes b < n then ReadableBytes b else n) = min n (ReadableBytes b)"
    by simp
  ultimately show ?thesis by (simp only: Read_def Let_def) simp
qed

text \<open>
  \<open>AddInFront\<close> prepends. When the data fits neither in front of the head nor in a new buffer it
  shifts the readable bytes up with \<open>std::copy\<close>, which is undefined once they are longer than
  the shift: that case is the fault.
\<close>

lemma AddInFront_front:
  assumes "mb_inv b" "length d \<le> mb_head b"
  shows "\<exists>b'. AddInFront d b = Inr b' \<and> mb_inv b' \<and> contents b' = d @ contents b"
proof -
  let ?off = "mb_head b - length d"
  let ?b' = "b\<lparr>mb_buffer := overwrite ?off d (mb_buffer b), mb_head := ?off\<rparr>"
  have fits: "?off + length d \<le> mb_tail b" "mb_tail b \<le> length (mb_buffer b)"
    using assms by (auto simp: mb_inv_def)
  then have inv: "mb_inv ?b'" using assms by (auto simp: mb_inv_def)
  have "contents ?b' = d @ contents b"
    using contents_inv [OF inv] contents_inv [OF assms(1)] fits assms(2)
    by (simp add: drop_overwrite_at)
  with inv assms fits show ?thesis
    by (simp del: bindE_eq_Inr add: AddInFront_def put_at_def Let_def)
qed

lemma AddInFront_shift:
  assumes "mb_inv b" "mb_head b < length d" "length d \<le> WritableBytes b"
    "ReadableBytes b \<le> length d"
  shows "\<exists>b'. AddInFront d b = Inr b' \<and> mb_inv b' \<and> contents b' = d @ contents b"
proof -
  let ?h = "mb_head b" and ?c = "contents b"
  have c: "length ?c = mb_tail b - ?h" using assms(1) by (rule length_contents)
  have fits: "?h \<le> mb_tail b" "mb_tail b + length d \<le> length (mb_buffer b)"
    using assms by (auto simp: mb_inv_def)
  let ?buf1 = "overwrite (?h + length d) ?c (mb_buffer b)"
  let ?b' = "b\<lparr>mb_buffer := overwrite ?h d ?buf1, mb_tail := mb_tail b + length d\<rparr>"
  have l1: "length ?buf1 = length (mb_buffer b)" using fits c by simp
  have inv: "mb_inv ?b'" using assms fits c l1 by (auto simp: mb_inv_def)
  have "drop (?h + length d) (take (?h + length d + length ?c) ?buf1) = ?c"
    using drop_take_overwrite [of "?h + length d" "?h + length d" ?c "mb_buffer b"] fits c by simp
  then have "contents ?b' = d @ ?c"
    using contents_inv [OF inv] fits c l1 by (simp add: drop_overwrite_at add.commute add.left_commute)
  moreover have "\<not> ?h + length d < mb_tail b" using assms fits by auto
  then have "copy_within (?h + length d) b = Inr (b\<lparr>mb_buffer := ?buf1\<rparr>)"
    using assms fits c by (simp del: bindE_eq_Inr add: copy_within_def put_at_def)
  moreover have "put_at ?h d (b\<lparr>mb_buffer := ?buf1\<rparr>) = Inr (b\<lparr>mb_buffer := overwrite ?h d ?buf1\<rparr>)"
    using fits l1 by (simp add: put_at_def)
  ultimately show ?thesis using assms inv
    by (simp del: bindE_eq_Inr add: AddInFront_def Let_def)
qed

lemma AddInFront_realloc:
  assumes "mb_inv b" "mb_head b < length d" "WritableBytes b < length d"
  shows "\<exists>b'. AddInFront d b = Inr b' \<and> mb_inv b' \<and> contents b' = d @ contents b"
proof -
  define n where "n = (if length d + ReadableBytes b < mb_initCap b then mb_initCap b
    else length d + ReadableBytes b)"
  have "8 \<le> n" using assms(1) by (auto simp: n_def mb_inv_def)
  then obtain nb where nb: "Append d (MsgBuffer_new n) = Inr nb" "mb_inv nb" "contents nb = d"
    using Append_ok [of "MsgBuffer_new n" d] by auto
  then obtain b' where "Append (contents b) nb = Inr b'" "mb_inv b'" "contents b' = d @ contents b"
    using Append_ok [of nb "contents b"] by auto
  with nb assms show ?thesis
    by (simp del: bindE_eq_Inr WritableBytes_inv ReadableBytes_inv
        add: AddInFront_def Let_def n_def [symmetric] AppendBuffer_Append)
qed

lemma AddInFront_ok:
  assumes "mb_inv b"
    and "length d \<le> mb_head b \<or> ReadableBytes b \<le> length d \<or> WritableBytes b < length d"
  shows "\<exists>b'. AddInFront d b = Inr b' \<and> mb_inv b' \<and> contents b' = d @ contents b"
  using assms AddInFront_front AddInFront_shift AddInFront_realloc not_le by metis

lemma AddInFront_overlap:
  assumes "mb_inv b" "mb_head b < length d" "length d < ReadableBytes b" "length d \<le> WritableBytes b"
  shows "AddInFront d b = Inl OverlapCopy"
proof -
  have "copy_within (mb_head b + length d) b = Inl OverlapCopy"
    using assms by (auto simp: copy_within_def)
  with assms show ?thesis by (simp del: bindE_eq_Inl add: AddInFront_def Let_def)
qed

text \<open>Whatever \<open>readv\<close> delivers is appended to the contents.\<close>

lemma ReadFd_ok:
  assumes "mb_inv b"
  shows "\<exists>b'. ReadFd (Inr bs) b = Inr (b', int (length bs), None) \<and> mb_inv b' \<and>
    contents b' = contents b @ bs"
proof (cases "length bs \<le> WritableBytes b")
  case True
  then show ?thesis using put_tail [OF assms True]
    by (auto simp del: WritableBytes_inv simp: ReadFd_def Let_def)
next
  case False
  let ?w = "WritableBytes b"
  have w: "length (take ?w bs) = ?w" using False by simp
  then have "length (take ?w bs) \<le> ?w" by (simp only: order_refl)
  then obtain b1 where b1: "put_at (mb_tail b) (take ?w bs) b = Inr b1"
    "mb_inv (b1\<lparr>mb_tail := mb_tail b + ?w\<rparr>)"
    "contents (b1\<lparr>mb_tail := mb_tail b + ?w\<rparr>) = contents b @ take ?w bs"
    using put_tail [OF assms, of "take ?w bs"] w by auto
  have "length (mb_buffer b1) = length (mb_buffer b)"
    using b1(1) by (auto simp: put_at_def split: if_splits)
  then have t: "length (mb_buffer b1) = mb_tail b + ?w" using assms by (simp add: mb_inv_def)
  obtain b2 where "Append (drop ?w bs) (b1\<lparr>mb_tail := mb_tail b + ?w\<rparr>) = Inr b2" "mb_inv b2"
    "contents b2 = contents b @ bs"
    using Append_ok [OF b1(2), of "drop ?w bs"] b1(3) by auto
  with b1(1) t False show ?thesis
    by (simp del: WritableBytes_inv bindE_eq_Inr add: ReadFd_def Let_def)
qed

lemma peek_int_ok:
  assumes "mb_inv b" "field_codec enc rd w ok" "ok v" "contents b = enc v @ rest"
  shows "peek_int w rd b = Inr v"
proof -
  have "w \<le> ReadableBytes b"
    using assms(4) length_contents_Readable [OF assms(1)] field_codec.length_enc [OF assms(2), of v] by simp
  moreover have "Peek b = enc v @ rest @ drop (ReadableBytes b) (Peek b)"
    using assms(4) by (metis append_assoc append_take_drop_id contents_def)
  ultimately show ?thesis using field_codec.dec_enc [OF assms(2,3)] by (metis peek_int_def)
qed

section \<open>Runs of operations\<close>

text \<open>
  A client's use of the buffer is a sequence of operations; each returns the bytes it read. The
  abstract specification is the same sequence on a plain list of bytes.
\<close>

datatype mb_op =
    OpAppend "byte list"     \<comment> \<open>\<open>Append\<close>\<close>
  | OpRecv "byte list"       \<comment> \<open>\<open>ReadFd\<close>, with what the kernel delivered\<close>
  | OpRead nat               \<comment> \<open>\<open>Read\<close>\<close>
  | OpRetrieve nat           \<comment> \<open>\<open>Retrieve\<close>\<close>
  | OpRetrieveAll            \<comment> \<open>\<open>RetrieveAll\<close>\<close>
  | OpEnsure nat             \<comment> \<open>\<open>EnsureWritableBytes\<close>\<close>

fun mb_step :: "mb_op \<Rightarrow> msg_buffer \<Rightarrow> (byte list \<times> msg_buffer) res" where
  "mb_step (OpAppend d) b = bindE (Append d b) (\<lambda>b. Inr ([], b))"
| "mb_step (OpRecv d) b = bindE (ReadFd (Inr d) b) (\<lambda>(b, _). Inr ([], b))"
| "mb_step (OpRead n) b = Read n b"
| "mb_step (OpRetrieve n) b = Inr ([], Retrieve n b)"
| "mb_step OpRetrieveAll b = Inr ([], RetrieveAll b)"
| "mb_step (OpEnsure n) b = bindE (EnsureWritableBytes n b) (\<lambda>b. Inr ([], b))"

fun spec_step :: "mb_op \<Rightarrow> byte list \<Rightarrow> byte list \<times> byte list" where
  "spec_step (OpAppend d) xs = ([], xs @ d)"
| "spec_step (OpRecv d) xs = ([], xs @ d)"
| "spec_step (OpRead n) xs = (take n xs, drop n xs)"
| "spec_step (OpRetrieve n) xs = ([], drop n xs)"
| "spec_step OpRetrieveAll xs = ([], [])"
| "spec_step (OpEnsure n) xs = ([], xs)"

fun mb_run :: "mb_op list \<Rightarrow> msg_buffer \<Rightarrow> (byte list list \<times> msg_buffer) res" where
  "mb_run [] b = Inr ([], b)"
| "mb_run (x # xs) b =
     bindE (mb_step x b) (\<lambda>(r, b). bindE (mb_run xs b) (\<lambda>(rs, b). Inr (r # rs, b)))"

fun spec_run :: "mb_op list \<Rightarrow> byte list \<Rightarrow> byte list list \<times> byte list" where
  "spec_run [] q = ([], q)"
| "spec_run (x # xs) q =
     (let (r, q) = spec_step x q; (rs, q) = spec_run xs q in (r # rs, q))"

lemma mb_step_ok:
  assumes "mb_inv b"
  shows "\<exists>b'. mb_step x b = Inr (fst (spec_step x (contents b)), b') \<and> mb_inv b' \<and>
    contents b' = snd (spec_step x (contents b))"
proof (cases x)
  case (OpAppend d)
  then show ?thesis using Append_ok [OF assms, of d] by auto
next
  case (OpRecv d)
  then show ?thesis using ReadFd_ok [OF assms, of d] by auto
next
  case (OpRead n)
  have "drop (min n (ReadableBytes b)) (contents b) = drop n (contents b)"
    using length_contents_Readable [OF assms] by (auto simp: min_def)
  with OpRead show ?thesis using Read_ok [OF assms] Retrieve_ok [OF assms] by simp
next
  case (OpEnsure n)
  then show ?thesis using Ensure_ok [OF assms, of n] by auto
qed (use Retrieve_ok [OF assms] RetrieveAll_ok [OF assms] in auto)

lemma mb_run_ok:
  "mb_inv b \<Longrightarrow> \<exists>b'. mb_run xs b = Inr (fst (spec_run xs (contents b)), b') \<and> mb_inv b' \<and>
    contents b' = snd (spec_run xs (contents b))"
proof (induction xs arbitrary: b)
  case Nil
  then show ?case by simp
next
  case (Cons x xs)
  obtain b1 where b1: "mb_step x b = Inr (fst (spec_step x (contents b)), b1)" "mb_inv b1"
    "contents b1 = snd (spec_step x (contents b))"
    using mb_step_ok [OF Cons.prems] by blast
  from Cons.IH [OF b1(2)] obtain b2 where
    "mb_run xs b1 = Inr (fst (spec_run xs (contents b1)), b2)" "mb_inv b2"
    "contents b2 = snd (spec_run xs (contents b1))" by blast
  with b1 show ?case by (auto simp: Let_def split_beta)
qed

section \<open>Properties\<close>

text \<open>C39: Any sequence of appends, reads from the socket, reads, retrievals and reservations on a
  buffer in its invariant runs without a memory fault, returns exactly the bytes the same sequence
  returns on a plain list of bytes, and leaves the invariant and that list as the contents.\<close>

theorem MsgBuffer_refines_list:
  assumes "mb_inv b"
  shows "\<exists>b'. mb_run xs b = Inr (fst (spec_run xs (contents b)), b') \<and> mb_inv b' \<and>
    contents b' = snd (spec_run xs (contents b))"
  using assms by (rule mb_run_ok)

theorem MsgBuffer_refines_list_witness:
  "mb_inv (MsgBuffer_new 2048) \<and>
   (\<exists>b'. mb_run [OpAppend [1, 2, 3], OpRead 2, OpRecv [4], OpRead 9] (MsgBuffer_new 2048)
      = Inr ([[], [1, 2], [], [3, 4]], b') \<and> contents b' = [])"
proof -
  have inv: "mb_inv (MsgBuffer_new 2048)" by simp
  show ?thesis
    using inv MsgBuffer_refines_list [OF inv, of "[OpAppend [1, 2, 3], OpRead 2, OpRecv [4], OpRead 9]"]
    by (auto simp: eval_nat_numeral)
qed

text \<open>Prepending puts the data in front of the contents and keeps the invariant whenever it
  fits before the head, or the readable bytes are no longer than it, or a new buffer is made; in
  the remaining case the code copies the readable bytes forward onto themselves with
  \<open>std::copy\<close>, which C++ leaves undefined.\<close>

lemma AddInFront_total:
  assumes "mb_inv b"
  shows "if mb_head b < length d \<and> length d < ReadableBytes b \<and> length d \<le> WritableBytes b
     then AddInFront d b = Inl OverlapCopy
     else \<exists>b'. AddInFront d b = Inr b' \<and> mb_inv b' \<and> contents b' = d @ contents b"
  using AddInFront_ok [OF assms, of d] AddInFront_overlap [OF assms, of d]
  by (auto simp: not_less not_le)

theorem AddInFront_total_witness:
  "\<exists>b'. AddInFront [7, 8] (MsgBuffer_new 64) = Inr b' \<and> mb_inv b' \<and> contents b' = [7, 8]"
  using AddInFront_total [of "MsgBuffer_new 64" "[7, 8]"] by (simp del: bindE_eq_Inr)

text \<open>A buffer made with an initial capacity below eight loses its invariant the first time it
  is emptied: the vector shrinks below the tail index, the writable size wraps around, and the next
  append writes past the end of the vector.\<close>

theorem RetrieveAll_small_capacity:
  assumes "len < 8" "d \<noteq> []" "length d < 2 ^ 63"
  shows "WritableBytes (RetrieveAll (MsgBuffer_new len)) = 2 ^ 64 - (8 - len) \<and>
    Append d (RetrieveAll (MsgBuffer_new len)) = Inl BufferOverflow"
proof -
  let ?b = "RetrieveAll (MsgBuffer_new len)"
  have b: "length (mb_buffer ?b) = len" "mb_tail ?b = 8"
    using assms(1) by (auto simp: RetrieveAll_def Let_def)
  then have w: "WritableBytes ?b = 2 ^ 64 - (8 - len)"
    using assms(1) by (simp add: WritableBytes_def size_sub_def)
  have "length d \<le> WritableBytes ?b" using assms by (simp add: w)
  then have "EnsureWritableBytes (length d) ?b = Inr ?b" by (rule EnsureWritable_fits)
  moreover have "put_at 8 d ?b = Inl BufferOverflow"
    using assms(1,2) b by (auto simp: put_at_def)
  ultimately have "Append d ?b = Inl BufferOverflow"
    using b by (simp del: bindE_eq_Inl add: Append_def)
  with w show ?thesis by simp
qed

theorem RetrieveAll_small_capacity_witness:
  "Append [1] (RetrieveAll (MsgBuffer_new 4)) = Inl BufferOverflow"
  using RetrieveAll_small_capacity [of 4 "[1]"] by simp

end
