(* ===== verification/RtmpState.thy ===== *)
theory RtmpState
  imports Packet MsgBuffer Amf
begin

text \<open>
  The state of an RTMP connection and its sending half: \<open>src/mmedia/rtmp/RtmpHeader.h\<close>, the fields
  of \<open>RtmpContext\<close> and, from \<open>RtmpContext.cpp\<close>, \<open>BuildChunk\<close> (both overloads), \<open>Send\<close>,
  \<open>CheckAndSend\<close> and \<open>PushOutQueue\<close>.

  An \<open>unordered_map\<close> is a partial map. A buffer node of the sending list is the bytes it points
  to; \<open>out_current\<close> is the offset of \<open>out_current_\<close> in the 4096 bytes of \<open>out_buffer_\<close>. Calls on
  the connection and on the handler are recorded in order in the field \<open>events\<close>.
\<close>

section \<open>Headers and state\<close>

record rtmp_hdr =
  h_cs_id :: u32
  h_timestamp :: u32
  h_msg_len :: u32
  h_msg_type :: byte
  h_msg_sid :: u32

definition RtmpMsgHeader0 :: rtmp_hdr where
  "RtmpMsgHeader0 = \<lparr>h_cs_id = 0, h_timestamp = 0, h_msg_len = 0, h_msg_type = 0, h_msg_sid = 0\<rparr>"

abbreviation kRtmpMsgTypeChunkSize :: byte where "kRtmpMsgTypeChunkSize \<equiv> 1"
abbreviation kRtmpMsgTypeBytesRead :: byte where "kRtmpMsgTypeBytesRead \<equiv> 3"
abbreviation kRtmpMsgTypeUserControl :: byte where "kRtmpMsgTypeUserControl \<equiv> 4"
abbreviation kRtmpMsgTypeWindowACKSize :: byte where "kRtmpMsgTypeWindowACKSize \<equiv> 5"
abbreviation kRtmpMsgTypeSetPeerBW :: byte where "kRtmpMsgTypeSetPeerBW \<equiv> 6"
abbreviation kRtmpMsgTypeAudio :: byte where "kRtmpMsgTypeAudio \<equiv> 8"
abbreviation kRtmpMsgTypeVideo :: byte where "kRtmpMsgTypeVideo \<equiv> 9"
abbreviation kRtmpMsgTypeAMF3Meta :: byte where "kRtmpMsgTypeAMF3Meta \<equiv> 15"
abbreviation kRtmpMsgTypeAMF3Message :: byte where "kRtmpMsgTypeAMF3Message \<equiv> 17"
abbreviation kRtmpMsgTypeAMFMeta :: byte where "kRtmpMsgTypeAMFMeta \<equiv> 18"
abbreviation kRtmpMsgTypeAMFMessage :: byte where "kRtmpMsgTypeAMFMessage \<equiv> 20"

abbreviation kRtmpCSIDCommand :: u32 where "kRtmpCSIDCommand \<equiv> 2"
abbreviation kRtmpCSIDAMFIni :: u32 where "kRtmpCSIDAMFIni \<equiv> 3"

type_synonym rpacket = "rtmp_hdr packet"

datatype rtmp_event =
    EvSend "byte list list"    \<comment> \<open>\<open>connection_->Send (sending_bufs_)\<close>\<close>
  | EvForceClose               \<comment> \<open>\<open>connection_->ForceClose ()\<close>\<close>
  | EvRecv rpacket             \<comment> \<open>\<open>rtmp_handler_->OnRecv\<close>\<close>
  | EvPlay str str             \<comment> \<open>\<open>rtmp_handler_->OnPlay\<close>: session name and parameters\<close>
  | EvPublish str str          \<comment> \<open>\<open>rtmp_handler_->OnPublish\<close>\<close>
  | EvPublishPrepare           \<comment> \<open>\<open>rtmp_handler_->OnPublishPrepare\<close>\<close>
  | EvActive                   \<comment> \<open>\<open>rtmp_handler_->OnActive\<close>\<close>

record rtmp_ctx =
  has_handler :: bool
  in_message_headers :: "u32 \<rightharpoonup> rtmp_hdr"
  in_packets :: "u32 \<rightharpoonup> rpacket"
  in_deltas :: "u32 \<rightharpoonup> u32"
  in_ext :: "u32 \<rightharpoonup> bool"
  in_chunk_size :: u32
  out_current :: nat
  out_deltas :: "u32 \<rightharpoonup> u32"
  out_message_headers :: "u32 \<rightharpoonup> rtmp_hdr"
  out_chunk_size :: u32
  out_waiting_queue :: "rpacket list"
  sending_bufs :: "byte list list"
  out_sending_packets :: "rpacket list"
  sending :: bool
  ack_size :: u32
  in_bytes :: u32
  last_left :: u32
  app :: str
  tc_url :: str
  name :: str
  session_name :: str
  param :: str
  is_player :: bool
  is_client :: bool
  events :: "rtmp_event list"

definition RtmpContext_new :: "bool \<Rightarrow> bool \<Rightarrow> rtmp_ctx" where
  "RtmpContext_new handler client = \<lparr>has_handler = handler, in_message_headers = Map.empty,
     in_packets = Map.empty, in_deltas = Map.empty, in_ext = Map.empty, in_chunk_size = 128,
     out_current = 0, out_deltas = Map.empty, out_message_headers = Map.empty,
     out_chunk_size = 4096, out_waiting_queue = [], sending_bufs = [], out_sending_packets = [],
     sending = False, ack_size = 2500000, in_bytes = 0, last_left = 0, app = [], tc_url = [],
     name = [], session_name = [], param = [], is_player = False, is_client = client,
     events = []\<rparr>"

text \<open>\<open>operator[]\<close> of a map: a missing entry reads as the default.\<close>

definition dflt :: "'v \<Rightarrow> ('k \<rightharpoonup> 'v) \<Rightarrow> 'k \<Rightarrow> 'v" where
  "dflt d m k = (case m k of None \<Rightarrow> d | Some v \<Rightarrow> v)"

lemma dflt_simps [simp]:
  "m k = None \<Longrightarrow> dflt d m k = d" "m k = Some v \<Longrightarrow> dflt d m k = v"
  "dflt d (m(k \<mapsto> w)) k = w" "k \<noteq> k' \<Longrightarrow> dflt d (m(k' \<mapsto> w)) k = dflt d m k"
  by (auto simp: dflt_def)

definition log_event :: "rtmp_event \<Rightarrow> rtmp_ctx \<Rightarrow> rtmp_ctx" where
  "log_event e c = c\<lparr>events := events c @ [e]\<rparr>"

section \<open>Building chunks\<close>

definition basic_header :: "byte \<Rightarrow> u32 \<Rightarrow> byte list" where
  "basic_header fmt cs =
     (if cs < 64 then [push_bit 6 fmt OR ucast cs]
      else if cs < 64 + 256 then [push_bit 6 fmt OR 0, ucast (cs - 64)]
      else (push_bit 6 fmt OR 1) # store_le16 (ucast (cs - 64)))"

definition message_header :: "byte \<Rightarrow> u32 \<Rightarrow> rtmp_hdr \<Rightarrow> byte list" where
  "message_header fmt ts h =
     (if fmt = 0 then WriteUint24T ts @ WriteUint24T (h_msg_len h) @ WriteUint8T (h_msg_type h)
        @ store_le32 (h_msg_sid h)
      else if fmt = 1 then WriteUint24T ts @ WriteUint24T (h_msg_len h) @ WriteUint8T (h_msg_type h)
      else if fmt = 2 then WriteUint24T ts
      else [])"

text \<open>The extended timestamp is copied in host order, without a byte swap.\<close>

definition ext_timestamp :: "u32 \<Rightarrow> u32 \<Rightarrow> byte list" where
  "ext_timestamp ts timestamp = (if ts = 0xFFFFFF then store_le32 timestamp else [])"

text \<open>Header compression: the format, and the timestamp (a delta when the previous header is used).\<close>

definition choose_fmt :: "bool \<Rightarrow> u32 \<Rightarrow> rtmp_hdr \<Rightarrow> rtmp_hdr \<Rightarrow> u32 \<Rightarrow> byte \<times> u32" where
  "choose_fmt use_delta timestamp h prev out_delta =
     (if use_delta then
        (let timestamp = timestamp - h_timestamp prev
         in if h_msg_type h = h_msg_type prev \<and> h_msg_len h = h_msg_len prev
            then (if timestamp = out_delta then 3 else 2, timestamp)
            else (1, timestamp))
      else (0, timestamp))"

text \<open>
  The body in pieces of the chunk size, with a type-3 header in front of every piece but the first.
  The loop gives up without a word when the header buffer is used up.
\<close>

function chunk_body :: "rtmp_hdr \<Rightarrow> byte list \<Rightarrow> byte list \<Rightarrow> nat \<Rightarrow> nat \<Rightarrow> nat \<Rightarrow> byte list list \<Rightarrow>
    (nat \<times> byte list list) res" where
  "chunk_body h data ext chunk_size bytes_parsed pos bufs =
     (let sz = min (unat (h_msg_len h) - bytes_parsed) chunk_size
      in bindE (mem_read sz (drop bytes_parsed data)) (\<lambda>node.
         if bytes_parsed + sz < unat (h_msg_len h) then
           (if 4096 \<le> pos then Inr (pos, bufs @ [node])
            else (let nheader = basic_header 3 (h_cs_id h) @ ext
                  in if 4096 < pos + length nheader then Inl BufferOverflow
                     else chunk_body h data ext chunk_size (bytes_parsed + sz)
                            (pos + length nheader) (bufs @ [node, nheader])))
         else Inr (pos, bufs @ [node])))"
  by pat_completeness auto
termination
  by (relation "measure (\<lambda>(h, data, ext, cs, bp, pos, bufs). 4096 - pos)")
    (auto simp: basic_header_def)

declare chunk_body.simps [simp del]

text \<open>What both overloads do once \<open>use_delta\<close> is known.\<close>

definition emit_chunks :: "rtmp_hdr \<Rightarrow> rpacket \<Rightarrow> u32 \<Rightarrow> bool \<Rightarrow> rtmp_ctx \<Rightarrow> rtmp_ctx res" where
  "emit_chunks h packet timestamp use_delta c =
     (let cs = h_cs_id h;
          prev = dflt RtmpMsgHeader0 (out_message_headers c) cs;
          (fmt, timestamp) = choose_fmt use_delta timestamp h prev (dflt 0 (out_deltas c) cs);
          ts = (if 0xFFFFFF \<le> timestamp then 0xFFFFFF else timestamp);
          ext = ext_timestamp ts timestamp;
          nheader = basic_header fmt cs @ message_header fmt ts h @ ext;
          deltas = (if fmt = 0 then (out_deltas c)(cs \<mapsto> 0)
                    else if fmt = 1 \<or> fmt = 2 then (out_deltas c)(cs \<mapsto> timestamp)
                    else out_deltas c);
          prev' = h\<lparr>h_timestamp := (if fmt = 0 then timestamp else h_timestamp prev + timestamp)\<rparr>
      in if 4096 < out_current c + length nheader then Inl BufferOverflow
         else bindE (chunk_body h (pk_data packet) ext (unat (out_chunk_size c)) 0
                (out_current c + length nheader) (sending_bufs c @ [nheader])) (\<lambda>(pos, bufs).
           Inr (c\<lparr>out_deltas := deltas,
                  out_message_headers := (out_message_headers c)(cs \<mapsto> prev'),
                  out_current := pos, sending_bufs := bufs\<rparr>)))"

text \<open>\<open>BuildChunk (PacketPtr &&packet, timestamp, fmt0)\<close>\<close>

definition BuildChunk_move :: "rpacket \<Rightarrow> u32 \<Rightarrow> bool \<Rightarrow> rtmp_ctx \<Rightarrow> (bool \<times> rtmp_ctx) res" where
  "BuildChunk_move packet timestamp fmt0 c =
     (case pk_ext packet of
        None \<Rightarrow> Inr (False, c)
      | Some h \<Rightarrow>
          (let use_delta = (\<not> fmt0 \<and> (case out_message_headers c (h_cs_id h) of
                 None \<Rightarrow> False
               | Some prev \<Rightarrow> h_timestamp prev \<le> timestamp \<and> h_msg_sid h = h_msg_sid prev))
           in bindE (emit_chunks h packet timestamp use_delta c) (\<lambda>c.
                Inr (True, c\<lparr>out_sending_packets := out_sending_packets c @ [packet]\<rparr>))))"

text \<open>
  \<open>BuildChunk (const PacketPtr &packet, timestamp, fmt0)\<close> differs in one character: it asks for
  \<open>!prev\<close> before it reads \<open>prev->timestamp\<close>. With a previous header the conjunction is false;
  without one the null pointer is dereferenced.
\<close>

definition BuildChunk_copy :: "rpacket \<Rightarrow> u32 \<Rightarrow> bool \<Rightarrow> rtmp_ctx \<Rightarrow> (bool \<times> rtmp_ctx) res" where
  "BuildChunk_copy packet timestamp fmt0 c =
     (case pk_ext packet of
        None \<Rightarrow> Inr (False, c)
      | Some h \<Rightarrow>
          (let c = c\<lparr>out_sending_packets := out_sending_packets c @ [packet]\<rparr>
           in bindE (if fmt0 then Inr False
                     else (case out_message_headers c (h_cs_id h) of
                             None \<Rightarrow> Inl NullDeref | Some prev \<Rightarrow> Inr False)) (\<lambda>use_delta.
              bindE (emit_chunks h packet timestamp use_delta c) (\<lambda>c. Inr (True, c)))))"

section \<open>Sending\<close>

fun send_some :: "nat \<Rightarrow> rtmp_ctx \<Rightarrow> rtmp_ctx res" where
  "send_some 0 c = Inr c"
| "send_some (Suc n) c =
     (case out_waiting_queue c of
        [] \<Rightarrow> Inr c
      | packet # q \<Rightarrow>
          bindE (BuildChunk_move packet 0 False (c\<lparr>out_waiting_queue := q\<rparr>)) (\<lambda>(_, c).
            send_some n c))"

definition Send :: "rtmp_ctx \<Rightarrow> rtmp_ctx res" where
  "Send c =
     (if sending c then Inr c
      else bindE (send_some 10 (c\<lparr>sending := True\<rparr>)) (\<lambda>c.
             Inr (log_event (EvSend (sending_bufs c)) c)))"

definition Ready :: "rtmp_ctx \<Rightarrow> bool" where
  "Ready c \<longleftrightarrow> \<not> sending c"

definition CheckAndSend :: "rtmp_ctx \<Rightarrow> rtmp_ctx res" where
  "CheckAndSend c =
     (let c = c\<lparr>sending := False, out_current := 0, sending_bufs := [], out_sending_packets := []\<rparr>
      in if out_waiting_queue c \<noteq> [] then Send c
         else Inr (if has_handler c then log_event EvActive c else c))"

definition PushOutQueue :: "rpacket \<Rightarrow> rtmp_ctx \<Rightarrow> rtmp_ctx res" where
  "PushOutQueue packet c = Send (c\<lparr>out_waiting_queue := out_waiting_queue c @ [packet]\<rparr>)"

end
