(* ===== verification/RtmpChunk.thy ===== *)
theory RtmpChunk
  imports RtmpState
begin

text \<open>
  The receiving half: one iteration of the loop of \<open>RtmpContext::ParseMessage\<close>
  (\<open>src/mmedia/rtmp/RtmpContext.cpp\<close>), from the basic header to the completed message. Its input is
  the list of readable bytes; reading anything behind them would be the fault \<open>OutOfBounds\<close>.
\<close>

section \<open>One chunk\<close>

text \<open>The format, the chunk stream id and the length of the basic header; \<open>None\<close>: more is needed.\<close>

definition parse_basic :: "byte list \<Rightarrow> (byte \<times> u32 \<times> nat) option res" where
  "parse_basic bs =
     bindE (ReadUint8T bs) (\<lambda>b.
       let fmt = drop_bit 6 b AND 0x03; csid = ucast (b AND 0x3F) :: u32
       in if csid = 0 then
            (if length bs < 2 then Inr None
             else bindE (ReadUint8T (drop 1 bs)) (\<lambda>x. Inr (Some (fmt, 64 + ucast x, 2))))
          else if csid = 1 then
            (if length bs < 3 then Inr None
             else bindE (ReadUint8T (drop 1 bs)) (\<lambda>x.
                  bindE (ReadUint8T (drop 2 bs)) (\<lambda>y.
                    Inr (Some (fmt, 64 + ucast x + ucast y * 256, 3)))))
          else Inr (Some (fmt, csid, 1)))"

text \<open>The bytes a message header of each format needs.\<close>

definition header_need :: "byte \<Rightarrow> nat" where
  "header_need fmt = (if fmt = 0 then 11 else if fmt = 1 then 7 else if fmt = 2 then 3 else 0)"

text \<open>
  The message header: given the bytes behind the basic header, the previous header of the chunk
  stream, its delta and the header of the packet being assembled, the timestamp field, the new
  packet header, the new delta and the bytes taken.
\<close>

definition parse_header :: "byte \<Rightarrow> byte list \<Rightarrow> rtmp_hdr \<Rightarrow> u32 \<Rightarrow> rtmp_hdr \<Rightarrow>
    (u32 \<times> rtmp_hdr \<times> u32 \<times> nat) res" where
  "parse_header fmt p prev delta h =
     (if fmt = 0 then
        bindE (ReadUint24T p) (\<lambda>ts.
        bindE (ReadUint24T (drop 3 p)) (\<lambda>len.
        bindE (ReadUint8T (drop 6 p)) (\<lambda>ty.
        bindE (load_le32 (drop 7 p)) (\<lambda>sid.
          Inr (ts, h\<lparr>h_timestamp := ts, h_msg_len := len, h_msg_type := ty, h_msg_sid := sid\<rparr>, 0, 11)))))
      else if fmt = 1 then
        bindE (ReadUint24T p) (\<lambda>ts.
        bindE (ReadUint24T (drop 3 p)) (\<lambda>len.
        bindE (ReadUint8T (drop 6 p)) (\<lambda>ty.
          Inr (ts, h\<lparr>h_timestamp := ts + h_timestamp prev, h_msg_len := len, h_msg_type := ty,
                     h_msg_sid := h_msg_sid prev\<rparr>, ts, 7))))
      else if fmt = 2 then
        bindE (ReadUint24T p) (\<lambda>ts.
          Inr (ts, h\<lparr>h_timestamp := ts + h_timestamp prev, h_msg_len := h_msg_len prev,
                     h_msg_type := h_msg_type prev, h_msg_sid := h_msg_sid prev\<rparr>, ts, 3))
      else
        Inr (0, h\<lparr>h_timestamp := (if h_timestamp h = 0 then delta + h_timestamp prev else h_timestamp h),
                  h_msg_len := h_msg_len prev, h_msg_type := h_msg_type prev,
                  h_msg_sid := h_msg_sid prev\<rparr>, delta, 0))"

text \<open>The length the packet of a new message is allocated with.\<close>

definition alloc_len :: "byte \<Rightarrow> byte list \<Rightarrow> rtmp_hdr \<Rightarrow> u32 \<Rightarrow> u32 res" where
  "alloc_len fmt p prev chunk_size =
     (if fmt = 0 \<or> fmt = 1 then ReadUint24T (drop 3 p)
      else if h_msg_len prev = 0 then Inr chunk_size
      else Inr (h_msg_len prev))"

definition new_message :: "u32 \<Rightarrow> u32 \<Rightarrow> rpacket res" where
  "new_message csid msg_len =
     bindE (NewPacket (sint msg_len)) (\<lambda>p.
       Inr (SetExt \<lparr>h_cs_id = csid, h_timestamp = 0, h_msg_len = msg_len, h_msg_type = 0,
              h_msg_sid = 0\<rparr> p))"

text \<open>The extended timestamp: replaces the delta, but not the absolute timestamp of format 0.\<close>

definition apply_ext :: "byte \<Rightarrow> u32 \<Rightarrow> rtmp_hdr \<Rightarrow> rtmp_hdr \<Rightarrow> u32 \<Rightarrow> rtmp_hdr \<times> u32" where
  "apply_ext fmt ts prev h delta =
     (if fmt \<noteq> 0 then (h\<lparr>h_timestamp := ts + h_timestamp prev\<rparr>, ts) else (h, delta))"

datatype chunk_result =
    NeedMore rtmp_ctx                         \<comment> \<open>\<open>return 1\<close> before the chunk was taken\<close>
  | Chunk nat rtmp_ctx "rpacket option"       \<comment> \<open>bytes taken, and the message it completed\<close>

text \<open>The body of the chunk, once the header of its message is known.\<close>

definition take_body :: "byte list \<Rightarrow> nat \<Rightarrow> u32 \<Rightarrow> rpacket \<Rightarrow> rtmp_hdr \<Rightarrow> rtmp_ctx \<Rightarrow> chunk_result res" where
  "take_body bs parsed csid packet header c =
     (let bytes = min (Space packet) (sint (in_chunk_size c));
          packet = SetExt header packet
      in \<comment> \<open>\<open>total_bytes - parsed < bytes\<close> compares unsigned 32-bit values\<close>
         if (of_nat (length bs - parsed) :: u32) < word_of_int bytes
         then Inr (NeedMore (c\<lparr>in_packets := (in_packets c)(csid \<mapsto> packet)\<rparr>))
         else if bytes < 0 then Inl OutOfBounds \<comment> \<open>\<open>memcpy\<close> of a negative size\<close>
         else bindE (mem_read (nat bytes) (drop parsed bs)) (\<lambda>d.
              bindE (write_data (unat (pk_size packet)) d packet) (\<lambda>packet.
              let packet = UpdatePacketSize (nat bytes) packet;
                  c = c\<lparr>in_message_headers := (in_message_headers c)(csid \<mapsto> header)\<rparr>
              in if Space packet = 0
                 then Inr (Chunk (parsed + nat bytes) (c\<lparr>in_packets := (in_packets c)(csid := None)\<rparr>)
                        (Some (SetTimeStamp (ucast (h_timestamp header))
                                 (SetPacketType (ucast (h_msg_type header)) packet))))
                 else Inr (Chunk (parsed + nat bytes)
                        (c\<lparr>in_packets := (in_packets c)(csid \<mapsto> packet)\<rparr>) None))))"

text \<open>The extended timestamp, if there is one, and the body.\<close>

definition ext_present :: "byte \<Rightarrow> u32 \<Rightarrow> u32 \<Rightarrow> rtmp_ctx \<Rightarrow> bool" where
  "ext_present fmt csid ts c = (if fmt = 3 then dflt False (in_ext c) csid else ts = 0xFFFFFF)"

definition take_ext :: "byte list \<Rightarrow> nat \<Rightarrow> byte \<Rightarrow> u32 \<Rightarrow> u32 \<Rightarrow> rtmp_hdr \<Rightarrow> u32 \<Rightarrow> rpacket \<Rightarrow> rtmp_hdr \<Rightarrow>
    rtmp_ctx \<Rightarrow> chunk_result res" where
  "take_ext bs parsed fmt csid ts header delta packet prev c =
     (let ext = ext_present fmt csid ts c;
          c = c\<lparr>in_deltas := (in_deltas c)(csid \<mapsto> delta), in_ext := (in_ext c)(csid \<mapsto> ext)\<rparr>
      in if ext then
           (if length bs - parsed < 4
            then Inr (NeedMore (c\<lparr>in_packets := (in_packets c)(csid \<mapsto> SetExt header packet)\<rparr>))
            else bindE (ReadUint32T (drop parsed bs)) (\<lambda>ts.
                 let (header, delta) = apply_ext fmt ts prev header delta
                 in take_body bs (parsed + 4) csid packet header
                      (c\<lparr>in_deltas := (in_deltas c)(csid \<mapsto> delta)\<rparr>)))
         else take_body bs parsed csid packet header c)"

text \<open>Everything behind the basic header.\<close>

definition take_message :: "byte \<Rightarrow> u32 \<Rightarrow> nat \<Rightarrow> byte list \<Rightarrow> rtmp_ctx \<Rightarrow> chunk_result res" where
  "take_message fmt csid parsed bs c =
     (let p = drop parsed bs;
          prev = dflt RtmpMsgHeader0 (in_message_headers c) csid;
          c = c\<lparr>in_message_headers := (in_message_headers c)(csid \<mapsto> prev)\<rparr>
      in bindE (alloc_len fmt p prev (in_chunk_size c)) (\<lambda>msg_len.
         bindE (case in_packets c csid of Some packet \<Rightarrow> Inr packet
                | None \<Rightarrow> new_message csid msg_len) (\<lambda>packet.
         bindE (case pk_ext packet of Some h \<Rightarrow> Inr h | None \<Rightarrow> Inl NullDeref) (\<lambda>header.
         bindE (parse_header fmt p prev (dflt 0 (in_deltas c) csid) header) (\<lambda>(ts, header, delta, n).
           take_ext bs (parsed + n) fmt csid ts header delta packet prev c)))))"

definition parse_chunk :: "byte list \<Rightarrow> rtmp_ctx \<Rightarrow> chunk_result res" where
  "parse_chunk bs c =
     bindE (parse_basic bs) (\<lambda>r. case r of
       None \<Rightarrow> Inr (NeedMore c)
     | Some (fmt, csid, parsed) \<Rightarrow>
         if length bs - parsed = 0 \<or> length bs - parsed < header_need fmt then Inr (NeedMore c)
         else take_message fmt csid parsed bs c)"

section \<open>Memory safety\<close>

text \<open>
  The invariant of the receiving half: every message under assembly fits its allocation and has a
  header.
\<close>

definition assembly_ok :: "rpacket \<Rightarrow> bool" where
  "assembly_ok p \<longleftrightarrow> packet_ok p \<and> pk_ext p \<noteq> None"

definition packets_ok :: "(u32 \<rightharpoonup> rpacket) \<Rightarrow> bool" where
  "packets_ok m \<longleftrightarrow> (\<forall>csid p. m csid = Some p \<longrightarrow> assembly_ok p)"

definition sized :: "rtmp_hdr \<Rightarrow> bool" where
  "sized h \<longleftrightarrow> 0 \<le> sint (h_msg_len h)"

definition headers_ok :: "(u32 \<rightharpoonup> rtmp_hdr) \<Rightarrow> bool" where
  "headers_ok m \<longleftrightarrow> (\<forall>csid h. m csid = Some h \<longrightarrow> sized h)"

definition in_ok :: "rtmp_ctx \<Rightarrow> bool" where
  "in_ok c \<longleftrightarrow> packets_ok (in_packets c) \<and> headers_ok (in_message_headers c)"

lemma packets_ok_upd [simp]:
  "packets_ok m \<Longrightarrow> assembly_ok p \<Longrightarrow> packets_ok (m(csid \<mapsto> p))"
  "packets_ok m \<Longrightarrow> packets_ok (m(csid := None))" "packets_ok Map.empty"
  by (auto simp: packets_ok_def)

lemma headers_ok_upd [simp]:
  "headers_ok m \<Longrightarrow> sized h \<Longrightarrow> headers_ok (m(csid \<mapsto> h))" "headers_ok Map.empty"
  "headers_ok m \<Longrightarrow> sized (dflt RtmpMsgHeader0 m csid)"
  by (auto simp: headers_ok_def dflt_def sized_def RtmpMsgHeader0_def split: option.splits)

text \<open>The outcome every stage has from a state in the invariant: no fault (but the allocation of a
  negative chunk size), the invariant again, and no more bytes taken than there are.\<close>

definition chunk_fine :: "byte list \<Rightarrow> u32 \<Rightarrow> nat \<Rightarrow> chunk_result res \<Rightarrow> bool" where
  "chunk_fine bs ics lo r \<longleftrightarrow> (case r of
       Inl e \<Rightarrow> sint ics < 0 \<and> e = negative_alloc (sint ics)
     | Inr (NeedMore c) \<Rightarrow> in_ok c
     | Inr (Chunk n c m) \<Rightarrow> in_ok c \<and> lo \<le> n \<and> n \<le> length bs \<and>
         (case m of None \<Rightarrow> True | Some p \<Rightarrow> assembly_ok p \<and> Space p = 0))"

lemma assembly_ok_updates [simp]:
  "assembly_ok (SetExt h p) \<longleftrightarrow> packet_ok p"
  "assembly_ok (SetTimeStamp t q) = assembly_ok q" "assembly_ok (SetPacketType y q) = assembly_ok q"
  "Space (SetTimeStamp t q) = Space q" "Space (SetPacketType y q) = Space q"
  "packet_ok (SetTimeStamp t q) = packet_ok q" "packet_ok (SetPacketType y q) = packet_ok q"
  "packet_ok (SetExt h p) = packet_ok p" "Space (SetExt h p) = Space p"
  "pk_size (SetExt h p) = pk_size p" "pk_data (SetExt h p) = pk_data p" "body (SetExt h p) = body p"
  "pk_ext (SetExt h p) = Some h" "pk_ext (UpdatePacketSize n p) = pk_ext p"
  "pk_capacity (SetExt h p) = pk_capacity p"
  "body (SetTimeStamp t q) = body q" "body (SetPacketType y q) = body q"
  "pk_ext (SetTimeStamp t q) = pk_ext q" "pk_ext (SetPacketType y q) = pk_ext q"
  by (auto simp: assembly_ok_def SetExt_def SetTimeStamp_def SetPacketType_def Space_def
      packet_ok_def body_def UpdatePacketSize_def)

lemma take_body_fine:
  assumes "in_ok c" "packet_ok packet" "parsed \<le> length bs" "length bs < 2 ^ 31" "sized header" "sized prev"
  shows "chunk_fine bs ics parsed (take_body bs parsed csid packet header c)"
proof -
  define bytes where "bytes = min (Space packet) (sint (in_chunk_size c))"
  let ?w = "(of_nat (length bs - parsed) :: u32) < word_of_int bytes"
  let ?p = "SetExt header packet"
  have len: "unat (of_nat (length bs - parsed) :: u32) = length bs - parsed"
    using assms(4) by (simp add: unat_of_nat)
  consider "?w" | "\<not> ?w" "0 \<le> bytes" | "\<not> ?w" "bytes < 0" by linarith
  then show ?thesis
  proof cases
    case 1
    with assms show ?thesis
      by (simp add: take_body_def chunk_fine_def Let_def bytes_def [symmetric] in_ok_def)
  next
    case 2
    have sp: "bytes \<le> Space packet" by (simp add: bytes_def)
    have inside: "unat (pk_size packet) \<le> length (pk_data packet)"
      using assms(2) by (simp add: packet_ok_def word_le_nat_alt)
    have "nat bytes \<le> length (pk_data packet) - unat (pk_size packet)"
      using sp unfolding Space_ok [OF assms(2)] by (simp only: nat_le_iff)
    with inside have fits: "unat (pk_size packet) + nat bytes \<le> length (pk_data packet)" by linarith
    define m where "m = length (pk_data packet) - unat (pk_size packet)"
    have "m < 2 ^ 31" using assms(2) by (simp add: packet_ok_def m_def less_imp_diff_less)
    moreover have "bytes \<le> int m" using sp Space_ok [OF assms(2)] by (simp only: m_def)
    ultimately have "bytes < 2 ^ 32" by simp
    then have "unat (word_of_int bytes :: u32) = nat bytes" using 2 by (simp only: unat_word_of_int_u32)
    with 2 have enough: "nat bytes \<le> length bs - parsed" using len by (simp add: word_less_nat_alt)
    define d where "d = take (nat bytes) (drop parsed bs)"
    have d: "length d = nat bytes" using enough by (simp add: d_def)
    obtain p' where p': "write_data (unat (pk_size packet)) d ?p = Inr p'"
      "packet_ok (UpdatePacketSize (nat bytes) p')" "pk_ext p' = Some header"
      using write_body [of ?p d] assms(2) fits d by auto
    then show ?thesis
      using 2 assms enough
      by (auto simp del: bindE_eq_Inr simp: take_body_def chunk_fine_def Let_def bytes_def [symmetric]
          d_def [symmetric] in_ok_def assembly_ok_def)
  next
    case 3
    have "sint (in_chunk_size c) < 0 \<or> Space packet < 0" using 3 by (auto simp: bytes_def)
    then have neg: "bytes = sint (in_chunk_size c)" using Space_ok [OF assms(2)] 3 by (simp add: bytes_def)
    have "- (2 ^ 31) \<le> bytes" unfolding neg using sint_ge [of "in_chunk_size c"] by simp
    then have "2 ^ 31 \<le> unat (word_of_int bytes :: u32)" using 3 by (intro unat_word_of_neg_u32)
    with 3 len assms(4) show ?thesis by (simp add: word_less_nat_alt)
  qed
qed

lemma chunk_fine_mono: "chunk_fine bs ics lo r \<Longrightarrow> lo' \<le> lo \<Longrightarrow> chunk_fine bs ics lo' r"
  by (auto simp: chunk_fine_def split: sum.splits chunk_result.splits)

lemma take_ext_fine:
  assumes "in_ok c" "packet_ok packet" "parsed \<le> length bs" "length bs < 2 ^ 31" "sized header" "sized prev"
  shows "chunk_fine bs ics parsed (take_ext bs parsed fmt csid ts header delta packet prev c)"
proof -
  have body: "chunk_fine bs ics parsed (take_body bs p csid packet h c')"
    if "in_ok c'" "parsed \<le> p" "p \<le> length bs" "sized h" for p h c'
    using take_body_fine [OF that(1) assms(2) that(3) assms(4) that(4,4)] that(2) by (rule chunk_fine_mono)
  show ?thesis
  proof (cases "ext_present fmt csid ts c")
    case False
    then show ?thesis using assms body by (simp add: take_ext_def Let_def in_ok_def)
  next
    case True
    show ?thesis
    proof (cases "length bs - parsed < 4")
      case short: True
      with True assms show ?thesis by (auto simp: take_ext_def Let_def chunk_fine_def in_ok_def)
    next
      case False
      then obtain v where "ReadUint32T (drop parsed bs) = Inr v"
        using u32.dec_long [of "drop parsed bs"] by auto
      moreover have "sized (fst (apply_ext fmt v prev header delta))"
        using assms(5) by (simp add: apply_ext_def sized_def)
      ultimately show ?thesis using False True assms body
        by (auto simp: take_ext_def Let_def in_ok_def split: prod.splits)
    qed
  qed
qed

lemma parse_header_total:
  assumes "header_need fmt \<le> length p"
  shows "\<exists>ts h' d. parse_header fmt p prev delta h = Inr (ts, h', d, header_need fmt)"
proof -
  have r: "\<exists>v. ReadUint24T p = Inr v" if "3 \<le> length p" using that by (rule u24.dec_long)
  have r3: "\<exists>v. ReadUint24T (drop 3 p) = Inr v" if "7 \<le> length p" using that by (intro u24.dec_long) auto
  have r6: "\<exists>v. ReadUint8T (drop 6 p) = Inr v" if "7 \<le> length p" using that by (intro u8.dec_long) auto
  have r7: "\<exists>v. load_le32 (drop 7 p) = Inr v" if "11 \<le> length p" using that by (intro le32.dec_long) auto
  show ?thesis using assms r r3 r6 r7
    by (auto simp: parse_header_def header_need_def split: if_splits)
qed

lemma sint_u24: "v < (2 ^ 24 :: u32) \<Longrightarrow> 0 \<le> sint v"
  using sint_unat_small [of v] by (simp add: word_less_nat_alt)

lemma ReadUint24T_less: "ReadUint24T p = Inr v \<Longrightarrow> v < 2 ^ 24"
  using ge_3_Cons [of p] u24.dec_fault_iff [of p] by (cases "length p < 3") (auto simp: ReadUint24T_bytes)

lemma parse_header_sized:
  assumes "parse_header fmt p prev delta h = Inr (ts, h', d, n)" "sized prev"
  shows "sized h'"
  using assms by (auto simp: parse_header_def sized_def split: if_splits dest!: ReadUint24T_less sint_u24)

lemma alloc_len_sized:
  assumes "alloc_len fmt p prev cs = Inr n" "sized prev" "sint n < 0"
  shows "n = cs"
  using assms by (auto simp: alloc_len_def sized_def split: if_splits dest!: ReadUint24T_less sint_u24)

lemma alloc_len_total:
  assumes "header_need fmt \<le> length p"
  shows "\<exists>n. alloc_len fmt p prev cs = Inr n"
  using assms u24.dec_long [of "drop 3 p"] by (auto simp: alloc_len_def header_need_def split: if_splits)

lemma new_message_fine:
  "case new_message csid n of Inl e \<Rightarrow> sint n < 0 \<and> e = negative_alloc (sint n) | Inr p \<Rightarrow> assembly_ok p \<and> body p = []"
proof (cases "sint n < 0")
  case True
  then show ?thesis by (simp add: new_message_def NewPacket_def)
next
  case False
  then obtain p :: rpacket where "NewPacket (sint n) = Inr p" "packet_ok p" "body p = []"
    using NewPacket_ok [of "sint n"] sint_lt [of n] by auto
  then show ?thesis by (simp add: new_message_def)
qed

lemma take_message_fine:
  assumes "in_ok c" "parsed \<le> length bs" "header_need fmt \<le> length bs - parsed" "length bs < 2 ^ 31"
  shows "chunk_fine bs (in_chunk_size c) parsed (take_message fmt csid parsed bs c)"
proof -
  let ?p = "drop parsed bs"
  define prev where "prev = dflt RtmpMsgHeader0 (in_message_headers c) csid"
  define c1 where "c1 = c\<lparr>in_message_headers := (in_message_headers c)(csid \<mapsto> prev)\<rparr>"
  obtain n where n: "alloc_len fmt ?p prev (in_chunk_size c1) = Inr n"
    using alloc_len_total [of fmt ?p] assms by auto
  have unf: "take_message fmt csid parsed bs c =
      bindE (case in_packets c csid of Some packet \<Rightarrow> Inr packet | None \<Rightarrow> new_message csid n) (\<lambda>packet.
      bindE (case pk_ext packet of Some h \<Rightarrow> Inr h | None \<Rightarrow> Inl NullDeref) (\<lambda>header.
      bindE (parse_header fmt ?p prev (dflt 0 (in_deltas c1) csid) header) (\<lambda>(ts, header, delta, n).
        take_ext bs (parsed + n) fmt csid ts header delta packet prev c1)))"
    using n by (simp add: take_message_def Let_def prev_def [symmetric] c1_def)
  have fine: "case (case in_packets c csid of Some packet \<Rightarrow> Inr packet | None \<Rightarrow> new_message csid n) of
      Inl e \<Rightarrow> sint n < 0 \<and> e = negative_alloc (sint n) | Inr p \<Rightarrow> assembly_ok p"
    using assms(1) new_message_fine [of n csid]
    by (auto simp: in_ok_def packets_ok_def split: option.splits sum.splits)
  have prev: "sized prev" using assms(1) by (simp add: prev_def in_ok_def)
  have neg: "sint n < 0 \<Longrightarrow> n = in_chunk_size c"
    using alloc_len_sized [OF n prev] by (simp add: c1_def)
  show ?thesis
  proof (cases "case in_packets c csid of Some packet \<Rightarrow> Inr packet | None \<Rightarrow> new_message csid n")
    case (Inl e)
    with fine neg show ?thesis unfolding unf by (simp add: chunk_fine_def)
  next
    case (Inr packet)
    with fine have "assembly_ok packet" by simp
    then obtain h where h: "pk_ext packet = Some h" "packet_ok packet" by (auto simp: assembly_ok_def)
    obtain ts h' d where ph: "parse_header fmt ?p prev (dflt 0 (in_deltas c1) csid) h
        = Inr (ts, h', d, header_need fmt)"
      using parse_header_total [of fmt ?p] assms by fastforce
    have "chunk_fine bs (in_chunk_size c) (parsed + header_need fmt)
        (take_ext bs (parsed + header_need fmt) fmt csid ts h' d packet prev c1)"
      using assms h prev parse_header_sized [OF ph prev]
      by (intro take_ext_fine) (auto simp: c1_def in_ok_def)
    then show ?thesis unfolding unf Inr using h ph by (simp add: chunk_fine_mono del: bindE_eq_Inr)
  qed
qed

lemma parse_basic_total:
  assumes "bs \<noteq> []"
  shows "parse_basic bs = Inr None \<or>
    (\<exists>fmt csid k. parse_basic bs = Inr (Some (fmt, csid, k)) \<and> 1 \<le> k \<and> k \<le> length bs)"
proof -
  have r: "\<exists>v. ReadUint8T (drop k bs) = Inr v" if "k < length bs" for k
    using that by (intro u8.dec_long) simp
  obtain x where x: "ReadUint8T bs = Inr x" using r [of 0] assms by auto
  have r1: "ReadUint8T (drop (Suc 0) bs) = Inr (bs ! 1)" if "\<not> length bs < 2"
    using r [of 1] that by auto
  have r2: "ReadUint8T (drop 2 bs) = Inr (bs ! 2)" if "\<not> length bs < 3"
    using r [of 2] that by auto
  consider "ucast (x AND 0x3F) = (0 :: u32)" | "ucast (x AND 0x3F) = (1 :: u32)" |
    "ucast (x AND 0x3F) \<noteq> (0 :: u32)" "ucast (x AND 0x3F) \<noteq> (1 :: u32)" by blast
  then show ?thesis
  proof cases
    case 1
    then show ?thesis using x
      by (cases "length bs < 2") (auto simp: r1 parse_basic_def Let_def simp del: bindE_eq_Inr)
  next
    case 2
    then show ?thesis using x
      by (cases "length bs < 3") (auto simp: r1 r2 parse_basic_def Let_def simp del: bindE_eq_Inr)
  next
    case 3
    then show ?thesis using x assms
      by (cases bs) (auto simp: parse_basic_def Let_def simp del: bindE_eq_Inr)
  qed
qed

lemma parse_chunk_fine:
  assumes "in_ok c" "bs \<noteq> []" "length bs < 2 ^ 31"
  shows "chunk_fine bs (in_chunk_size c) 1 (parse_chunk bs c)"
proof -
  consider "parse_basic bs = Inr None" |
    fmt csid k where "parse_basic bs = Inr (Some (fmt, csid, k))" "1 \<le> k" "k \<le> length bs"
    using parse_basic_total [OF assms(2)] by blast
  then show ?thesis
  proof cases
    case 1
    with assms show ?thesis by (simp add: parse_chunk_def chunk_fine_def)
  next
    case 2
    show ?thesis
    proof (cases "length bs - k = 0 \<or> length bs - k < header_need fmt")
      case True
      with 2 assms show ?thesis by (simp add: parse_chunk_def chunk_fine_def)
    next
      case False
      then have "chunk_fine bs (in_chunk_size c) 1 (take_message fmt csid k bs c)"
        using 2 assms by (intro chunk_fine_mono [OF take_message_fine]) auto
      with False 2 show ?thesis by (simp add: parse_chunk_def)
    qed
  qed
qed

section \<open>Arrival in pieces\<close>

text \<open>
  Bytes arrive in pieces, and a chunk that is incomplete is parsed again from its start, in the
  state the first attempt left. That must not be visible.
\<close>

definition settled :: "chunk_result res \<Rightarrow> bool" where
  "settled r \<longleftrightarrow> (case r of Inr (NeedMore _) \<Rightarrow> False | _ \<Rightarrow> True)"

lemma settled_simps [simp]:
  "settled (Inl e)" "\<not> settled (Inr (NeedMore c))" "settled (Inr (Chunk n c m))"
  by (simp_all add: settled_def)

lemma take_body_more:
  assumes "settled (take_body bs parsed csid packet header c)" "parsed \<le> length bs"
    "length (bs @ rest) < 2 ^ 31"
  shows "take_body (bs @ rest) parsed csid packet header c = take_body bs parsed csid packet header c"
proof -
  define bytes where "bytes = min (Space packet) (sint (in_chunk_size c))"
  have enough: "\<not> (of_nat (length bs - parsed) :: u32) < word_of_int bytes"
    using assms(1) by (auto simp: take_body_def Let_def bytes_def [symmetric] split: if_splits)
  have len: "unat (of_nat (length xs - parsed) :: u32) = length xs - parsed"
    if "length xs < 2 ^ 31" for xs :: "byte list"
    using that by (simp add: unat_of_nat)
  have l1: "unat (of_nat (length bs - parsed) :: u32) = length bs - parsed"
    and l2: "unat (of_nat (length (bs @ rest) - parsed) :: u32) = length (bs @ rest) - parsed"
    using assms(3) by (intro len; simp)+
  have le: "unat (word_of_int bytes :: u32) \<le> length bs - parsed"
    using enough l1 by (simp only: word_less_nat_alt not_less)
  then have enough': "\<not> (of_nat (length (bs @ rest) - parsed) :: u32) < word_of_int bytes"
    using l2 assms(2) unfolding word_less_nat_alt by simp
  have read: "mem_read (nat bytes) (drop parsed (bs @ rest)) = mem_read (nat bytes) (drop parsed bs)"
    if "0 \<le> bytes"
  proof -
    have "bytes < 2 ^ 32" using sint_lt [of "in_chunk_size c"] by (simp add: bytes_def)
    then have "unat (word_of_int bytes :: u32) = nat bytes" using that by (intro unat_word_of_int_u32)
    then have "nat bytes \<le> length bs - parsed" using le by simp
    then show ?thesis using assms(2) by simp
  qed
  show ?thesis
    unfolding take_body_def Let_def bytes_def [symmetric]
    by (cases "bytes < 0") (simp_all only: enough enough' read if_False if_True not_less)
qed

lemma ctx_order:
  "c\<lparr>in_ext := e, in_deltas := d\<rparr> = c\<lparr>in_deltas := d, in_ext := e\<rparr>"
  "c\<lparr>in_packets := p, in_deltas := d\<rparr> = c\<lparr>in_deltas := d, in_packets := p\<rparr>"
  "c\<lparr>in_packets := p, in_ext := e\<rparr> = c\<lparr>in_ext := e, in_packets := p\<rparr>"
  by simp_all

lemma take_ext_more:
  assumes "settled (take_ext bs parsed fmt csid ts header delta packet prev c)" "parsed \<le> length bs"
    "length (bs @ rest) < 2 ^ 31"
  shows "take_ext (bs @ rest) parsed fmt csid ts header delta packet prev c =
    take_ext bs parsed fmt csid ts header delta packet prev c"
proof (cases "ext_present fmt csid ts c")
  case False
  with assms take_body_more [OF _ assms(2,3)] show ?thesis by (simp add: take_ext_def Let_def)
next
  case True
  with assms(1) have l: "4 \<le> length bs - parsed" by (auto simp: take_ext_def Let_def split: if_splits)
  then obtain v where v: "ReadUint32T (drop parsed bs) = Inr v"
    using u32.dec_long [of "drop parsed bs"] by auto
  have v': "ReadUint32T (drop parsed (bs @ rest)) = Inr v"
    using u32.dec_prefix [of "drop parsed bs" rest] l assms(2) v by simp
  show ?thesis
  proof (cases "apply_ext fmt v prev header delta")
    case (Pair h d)
    have step: "take_ext xs parsed fmt csid ts header delta packet prev c =
        take_body xs (parsed + 4) csid packet h (c\<lparr>in_deltas := (in_deltas c)(csid \<mapsto> d),
          in_ext := (in_ext c)(csid \<mapsto> True)\<rparr>)"
      if "ReadUint32T (drop parsed xs) = Inr v" "4 \<le> length xs - parsed" for xs
      using True that Pair by (simp add: take_ext_def Let_def ctx_order)
    have "4 \<le> length (bs @ rest) - parsed" using l by simp
    from step [OF v' this] step [OF v l] show ?thesis using assms l by (simp add: take_body_more)
  qed
qed

text \<open>The state an incomplete chunk leaves.\<close>

definition waiting :: "u32 \<Rightarrow> u32 \<Rightarrow> bool \<Rightarrow> rpacket \<Rightarrow> rtmp_ctx \<Rightarrow> rtmp_ctx" where
  "waiting csid delta ext packet c =
     c\<lparr>in_deltas := (in_deltas c)(csid \<mapsto> delta), in_ext := (in_ext c)(csid \<mapsto> ext),
       in_packets := (in_packets c)(csid \<mapsto> packet)\<rparr>"

lemma take_body_NeedMore:
  assumes "take_body bs parsed csid packet header c = Inr (NeedMore c')"
  shows "c' = c\<lparr>in_packets := (in_packets c)(csid \<mapsto> SetExt header packet)\<rparr>"
  using assms by (auto simp: take_body_def Let_def split: if_splits)

lemma take_body_waiting:
  "take_body bs parsed csid (SetExt h packet) header
     (c\<lparr>in_packets := (in_packets c)(csid \<mapsto> p)\<rparr>) = take_body bs parsed csid packet header c"
proof -
  have "SetExt header (SetExt h packet) = SetExt header packet" by (simp add: SetExt_def)
  then show ?thesis by (simp add: take_body_def Let_def cong: if_cong)
qed

lemma take_ext_NeedMore:
  assumes "take_ext bs parsed fmt csid ts header delta packet prev c = Inr (NeedMore c')"
  defines "ext \<equiv> ext_present fmt csid ts c"
  shows "\<exists>h d. c' = waiting csid d ext (SetExt h packet) c \<and>
    (h = header \<and> d = delta \<or> ext \<and> 4 \<le> length bs - parsed \<and> (\<exists>v. apply_ext fmt v prev header delta = (h, d)))"
proof (cases "ext \<and> \<not> length bs - parsed < 4")
  case False
  then show ?thesis using assms
    by (auto simp: take_ext_def Let_def ext_def waiting_def split: if_splits dest!: take_body_NeedMore)
next
  case True
  then obtain v where v: "ReadUint32T (drop parsed bs) = Inr v"
    using u32.dec_long [of "drop parsed bs"] by auto
  obtain h d where a: "apply_ext fmt v prev header delta = (h, d)" by (cases "apply_ext fmt v prev header delta")
  have "take_body bs (parsed + 4) csid packet h (c\<lparr>in_deltas := (in_deltas c)(csid \<mapsto> d),
      in_ext := (in_ext c)(csid \<mapsto> ext)\<rparr>) = Inr (NeedMore c')"
    using assms True v a by (simp add: take_ext_def Let_def ctx_order)
  from take_body_NeedMore [OF this] a True show ?thesis by (auto simp: waiting_def)
qed

lemma take_ext_waiting:
  fixes c :: rtmp_ctx and ts csid :: u32 and fmt :: byte
  defines "ext \<equiv> ext_present fmt csid ts c"
  assumes "header' = header \<and> delta' = delta \<or>
      ext \<and> 4 \<le> length bs - parsed \<and>
      (\<forall>v. apply_ext fmt v prev header' delta' = apply_ext fmt v prev header delta)"
  shows "take_ext bs parsed fmt csid ts header' delta' (SetExt h packet) prev
      (waiting csid d ext (SetExt h packet) c) =
    take_ext bs parsed fmt csid ts header delta packet prev c"
proof -
  have e: "ext_present fmt csid ts (waiting csid d ext (SetExt h packet) c) = ext"
    by (simp add: waiting_def ext_def ext_present_def)
  have eq: "take_body bs p csid (SetExt h packet) g (waiting csid d ext (SetExt h packet) c
        \<lparr>in_deltas := (in_deltas c)(csid \<mapsto> d'), in_ext := (in_ext c)(csid \<mapsto> ext)\<rparr>) =
     take_body bs p csid packet g (c\<lparr>in_deltas := (in_deltas c)(csid \<mapsto> d'),
        in_ext := (in_ext c)(csid \<mapsto> ext)\<rparr>)" for p g d'
    using take_body_waiting [of bs p csid h packet g "c\<lparr>in_deltas := (in_deltas c)(csid \<mapsto> d'),
        in_ext := (in_ext c)(csid \<mapsto> ext)\<rparr>" "SetExt h packet"]
    by (simp add: waiting_def ctx_order)
  have s: "SetExt g (SetExt h packet) = SetExt g packet" for g by (simp add: SetExt_def)
  show ?thesis
    unfolding take_ext_def Let_def e unfolding ext_def [symmetric]
    using assms(2) eq s by (cases ext) (auto simp: waiting_def ctx_order split: prod.splits)
qed

lemma field_prefix:
  "3 \<le> length p \<Longrightarrow> ReadUint24T (p @ q) = ReadUint24T p"
  "n + 3 \<le> length p \<Longrightarrow> ReadUint24T (drop n p @ q) = ReadUint24T (drop n p)"
  "n + 1 \<le> length p \<Longrightarrow> ReadUint8T (drop n p @ q) = ReadUint8T (drop n p)"
  "n + 4 \<le> length p \<Longrightarrow> load_le32 (drop n p @ q) = load_le32 (drop n p)"
  by (intro u24.dec_prefix u8.dec_prefix le32.dec_prefix; simp)+

lemma header_prefix:
  assumes "header_need fmt \<le> length p"
  shows "parse_header fmt (p @ q) prev delta h = parse_header fmt p prev delta h"
    "alloc_len fmt (p @ q) prev cs = alloc_len fmt p prev cs"
  using assms by (auto simp: parse_header_def alloc_len_def header_need_def field_prefix split: if_splits)

text \<open>\<open>take_message\<close> with its allocation done.\<close>

definition with_packet :: "byte \<Rightarrow> u32 \<Rightarrow> nat \<Rightarrow> byte list \<Rightarrow> rpacket \<Rightarrow> rtmp_hdr \<Rightarrow> rtmp_ctx \<Rightarrow> chunk_result res" where
  "with_packet fmt csid parsed bs packet prev c =
     bindE (case pk_ext packet of Some h \<Rightarrow> Inr h | None \<Rightarrow> Inl NullDeref) (\<lambda>header.
     bindE (parse_header fmt (drop parsed bs) prev (dflt 0 (in_deltas c) csid) header) (\<lambda>(ts, header, delta, n).
       take_ext bs (parsed + n) fmt csid ts header delta packet prev c))"

lemma take_message_cases:
  assumes "header_need fmt \<le> length bs - parsed" "parsed \<le> length bs"
  obtains
    (fault) e where "\<And>rest. take_message fmt csid parsed (bs @ rest) c = Inl e"
  | (packet) packet prev where "prev = dflt RtmpMsgHeader0 (in_message_headers c) csid"
      "\<And>rest. take_message fmt csid parsed (bs @ rest) c =
         with_packet fmt csid parsed (bs @ rest) packet prev
           (c\<lparr>in_message_headers := (in_message_headers c)(csid \<mapsto> prev)\<rparr>)"
proof -
  define prev where "prev = dflt RtmpMsgHeader0 (in_message_headers c) csid"
  let ?c = "c\<lparr>in_message_headers := (in_message_headers c)(csid \<mapsto> prev)\<rparr>"
  obtain n where n: "alloc_len fmt (drop parsed bs) prev (in_chunk_size c) = Inr n"
    using alloc_len_total [of fmt "drop parsed bs"] assms by auto
  let ?alloc = "case in_packets c csid of Some packet \<Rightarrow> Inr packet | None \<Rightarrow> new_message csid n"
  have unf: "take_message fmt csid parsed (bs @ rest) c = bindE ?alloc (\<lambda>packet.
      with_packet fmt csid parsed (bs @ rest) packet prev ?c)" for rest
    unfolding take_message_def Let_def prev_def [symmetric] with_packet_def
    using n header_prefix [of fmt "drop parsed bs" rest] assms by simp
  show ?thesis
  proof (cases ?alloc)
    case (Inl e)
    then show ?thesis using unf by (intro fault [of e]) simp
  next
    case (Inr packet)
    then show ?thesis using unf by (intro that(2) [of prev packet]) (simp_all add: prev_def)
  qed
qed

lemma with_packet_more:
  assumes "settled (with_packet fmt csid parsed bs packet prev c)" "header_need fmt \<le> length bs - parsed"
    "parsed \<le> length bs" "length (bs @ rest) < 2 ^ 31"
  shows "with_packet fmt csid parsed (bs @ rest) packet prev c = with_packet fmt csid parsed bs packet prev c"
proof (cases "pk_ext packet")
  case None
  then show ?thesis by (simp add: with_packet_def)
next
  case (Some h)
  let ?d = "dflt 0 (in_deltas c) csid"
  obtain ts h' d where ph: "parse_header fmt (drop parsed bs) prev ?d h = Inr (ts, h', d, header_need fmt)"
    using parse_header_total [of fmt "drop parsed bs"] assms by fastforce
  then have ph': "parse_header fmt (drop parsed (bs @ rest)) prev ?d h = Inr (ts, h', d, header_need fmt)"
    using header_prefix [of fmt "drop parsed bs" rest] assms by simp
  have "settled (take_ext bs (parsed + header_need fmt) fmt csid ts h' d packet prev c)"
    using assms(1) Some ph by (simp add: with_packet_def del: bindE_eq_Inr)
  then have "take_ext (bs @ rest) (parsed + header_need fmt) fmt csid ts h' d packet prev c =
      take_ext bs (parsed + header_need fmt) fmt csid ts h' d packet prev c"
    using assms by (intro take_ext_more) auto
  then show ?thesis using Some ph ph' by (simp add: with_packet_def del: bindE_eq_Inr)
qed

lemma take_message_more:
  assumes "settled (take_message fmt csid parsed bs c)" "header_need fmt \<le> length bs - parsed"
    "parsed \<le> length bs" "length (bs @ rest) < 2 ^ 31"
  shows "take_message fmt csid parsed (bs @ rest) c = take_message fmt csid parsed bs c"
proof (rule take_message_cases [OF assms(2,3), of csid c])
  fix e assume f: "\<And>rest. take_message fmt csid parsed (bs @ rest) c = Inl e"
  show ?thesis using f [of "[]"] f [of rest] by simp
next
  fix packet prev assume f: "\<And>rest. take_message fmt csid parsed (bs @ rest) c =
     with_packet fmt csid parsed (bs @ rest) packet prev
       (c\<lparr>in_message_headers := (in_message_headers c)(csid \<mapsto> prev)\<rparr>)"
  show ?thesis using f [of "[]"] f [of rest] assms by (simp add: with_packet_more)
qed

lemma parse_basic_prefix:
  assumes "parse_basic bs = Inr (Some r)"
  shows "parse_basic (bs @ rest) = Inr (Some r)"
proof -
  have p: "ReadUint8T (drop k bs @ rest) = ReadUint8T (drop k bs)" if "k < length bs" for k
    using that by (intro u8.dec_prefix) simp
  from assms have "bs \<noteq> []" by (auto simp: parse_basic_def ReadUint8T_def)
  with p [of 0] have 0: "ReadUint8T (bs @ rest) = ReadUint8T bs" by simp
  from assms obtain x where x: "ReadUint8T bs = Inr x" by (auto simp: parse_basic_def)
  consider "ucast (x AND 0x3F) = (0 :: u32)" | "ucast (x AND 0x3F) = (1 :: u32)" |
    "ucast (x AND 0x3F) \<noteq> (0 :: u32)" "ucast (x AND 0x3F) \<noteq> (1 :: u32)" by blast
  then show ?thesis
  proof cases
    case 1
    with assms x have "\<not> length bs < 2" by (auto simp: parse_basic_def Let_def)
    with 1 x 0 assms p [of 1] show ?thesis by (simp add: parse_basic_def Let_def del: bindE_eq_Inr)
  next
    case 2
    with assms x have "\<not> length bs < 3" by (auto simp: parse_basic_def Let_def)
    with 2 x 0 assms p [of 1] p [of 2] show ?thesis by (simp add: parse_basic_def Let_def del: bindE_eq_Inr)
  next
    case 3
    with x 0 assms show ?thesis by (simp add: parse_basic_def Let_def del: bindE_eq_Inr)
  qed
qed

lemma parse_chunk_more:
  assumes "settled (parse_chunk bs c)" "bs \<noteq> []" "length (bs @ rest) < 2 ^ 31"
  shows "parse_chunk (bs @ rest) c = parse_chunk bs c"
proof -
  from parse_basic_total [OF assms(2)] assms(1) obtain fmt csid k
    where b: "parse_basic bs = Inr (Some (fmt, csid, k))" "k \<le> length bs"
    by (auto simp: parse_chunk_def)
  with assms(1) have l: "\<not> (length bs - k = 0 \<or> length bs - k < header_need fmt)"
    by (auto simp: parse_chunk_def)
  with b assms have "take_message fmt csid k (bs @ rest) c = take_message fmt csid k bs c"
    by (intro take_message_more) (auto simp: parse_chunk_def)
  with b l parse_basic_prefix [OF b(1), of rest] show ?thesis by (simp add: parse_chunk_def del: bindE_eq_Inr) linarith
qed

text \<open>Reading the same header again, from the state the first reading left, changes nothing.\<close>

lemma parse_header_again:
  assumes "parse_header fmt p prev delta header = Inr (ts, h1, d1, n)"
    and "h = h1 \<and> d = d1 \<or> apply_ext fmt v prev h1 d1 = (h, d)"
  shows "\<exists>h' d'. parse_header fmt p prev d h = Inr (ts, h', d', n) \<and>
    (h = h1 \<and> d = d1 \<longrightarrow> h' = h1 \<and> d' = d1) \<and>
    (\<forall>w. apply_ext fmt w prev h' d' = apply_ext fmt w prev h1 d1)"
proof -
  consider "fmt = 0" | "fmt = 1" | "fmt = 2" | "fmt \<noteq> 0" "fmt \<noteq> 1" "fmt \<noteq> 2" by blast
  then show ?thesis
  proof cases
    case 4
    then show ?thesis using assms by (auto simp: parse_header_def apply_ext_def split: if_splits)
  qed (use assms in \<open>auto simp: parse_header_def apply_ext_def\<close>)
qed

lemma with_packet_resume:
  assumes "with_packet fmt csid parsed bs packet prev c = Inr (NeedMore c')"
    "header_need fmt \<le> length bs - parsed" "parsed \<le> length bs"
  shows "\<exists>d e h. c' = waiting csid d e (SetExt h packet) c \<and>
    with_packet fmt csid parsed (bs @ rest) (SetExt h packet) prev c' =
    with_packet fmt csid parsed (bs @ rest) packet prev c"
proof -
  let ?d = "dflt 0 (in_deltas c) csid" and ?n = "parsed + header_need fmt"
  from assms(1) obtain header where header: "pk_ext packet = Some header"
    by (auto simp: with_packet_def split: option.splits)
  obtain ts h1 d1 where ph: "parse_header fmt (drop parsed bs) prev ?d header = Inr (ts, h1, d1, header_need fmt)"
    using parse_header_total [of fmt "drop parsed bs"] assms by fastforce
  then have ph': "parse_header fmt (drop parsed (bs @ rest)) prev ?d header = Inr (ts, h1, d1, header_need fmt)"
    using header_prefix [of fmt "drop parsed bs" rest] assms by simp
  let ?e = "ext_present fmt csid ts c"
  have "take_ext bs ?n fmt csid ts h1 d1 packet prev c = Inr (NeedMore c')"
    using assms(1) header ph by (simp add: with_packet_def del: bindE_eq_Inr)
  from take_ext_NeedMore [OF this] obtain h d where c': "c' = waiting csid d ?e (SetExt h packet) c"
    and hd: "h = h1 \<and> d = d1 \<or> ?e \<and> 4 \<le> length bs - ?n \<and> (\<exists>v. apply_ext fmt v prev h1 d1 = (h, d))"
    by blast
  from hd obtain v where "h = h1 \<and> d = d1 \<or> apply_ext fmt v prev h1 d1 = (h, d)" by blast
  from parse_header_again [OF ph' this] obtain h' d' where
    again: "parse_header fmt (drop parsed (bs @ rest)) prev d h = Inr (ts, h', d', header_need fmt)"
    and same: "h = h1 \<and> d = d1 \<longrightarrow> h' = h1 \<and> d' = d1"
    and ext: "\<forall>w. apply_ext fmt w prev h' d' = apply_ext fmt w prev h1 d1" by blast
  have "h' = h1 \<and> d' = d1 \<or> ?e \<and> 4 \<le> length (bs @ rest) - ?n \<and>
      (\<forall>w. apply_ext fmt w prev h' d' = apply_ext fmt w prev h1 d1)"
    using hd same ext by auto
  then have "take_ext (bs @ rest) ?n fmt csid ts h' d' (SetExt h packet) prev c' =
      take_ext (bs @ rest) ?n fmt csid ts h1 d1 packet prev c"
    unfolding c' by (rule take_ext_waiting)
  moreover have "dflt 0 (in_deltas c') csid = d" by (simp add: c' waiting_def)
  ultimately have "with_packet fmt csid parsed (bs @ rest) (SetExt h packet) prev c' =
      with_packet fmt csid parsed (bs @ rest) packet prev c"
    using again ph' header by (simp add: with_packet_def del: bindE_eq_Inr)
  with c' show ?thesis by blast
qed

lemma take_message_resume:
  assumes "take_message fmt csid parsed bs c = Inr (NeedMore c')"
    "header_need fmt \<le> length bs - parsed" "parsed \<le> length bs"
  shows "take_message fmt csid parsed (bs @ rest) c' = take_message fmt csid parsed (bs @ rest) c"
proof (rule take_message_cases [OF assms(2,3), of csid c])
  fix e assume "\<And>rest. take_message fmt csid parsed (bs @ rest) c = Inl e"
  from this [of "[]"] assms(1) show ?thesis by simp
next
  fix packet prev
  let ?c = "c\<lparr>in_message_headers := (in_message_headers c)(csid \<mapsto> prev)\<rparr>"
  assume f: "\<And>rest. take_message fmt csid parsed (bs @ rest) c =
     with_packet fmt csid parsed (bs @ rest) packet prev ?c"
  with assms(1) have "with_packet fmt csid parsed bs packet prev ?c = Inr (NeedMore c')"
    using f [of "[]"] by simp
  from with_packet_resume [OF this assms(2,3), of rest] obtain d e h
    where c': "c' = waiting csid d e (SetExt h packet) ?c"
    and eq: "with_packet fmt csid parsed (bs @ rest) (SetExt h packet) prev c' =
      with_packet fmt csid parsed (bs @ rest) packet prev ?c" by blast
  have p: "in_packets c' csid = Some (SetExt h packet)" "in_message_headers c' csid = Some prev"
    by (simp_all add: c' waiting_def)
  then have upd: "c'\<lparr>in_message_headers := (in_message_headers c')(csid \<mapsto> prev)\<rparr> = c'"
    by (simp add: map_upd_triv)
  obtain n where "alloc_len fmt (drop parsed (bs @ rest)) prev (in_chunk_size c') = Inr n"
    using alloc_len_total [of fmt "drop parsed (bs @ rest)"] assms(2,3) by fastforce
  then have "take_message fmt csid parsed (bs @ rest) c' =
      with_packet fmt csid parsed (bs @ rest) (SetExt h packet) prev c'"
    using p upd by (simp add: take_message_def with_packet_def Let_def del: bindE_eq_Inr)
  then show ?thesis using eq f by simp
qed

lemma parse_chunk_resume:
  assumes "parse_chunk bs c = Inr (NeedMore c')" "bs \<noteq> []"
  shows "parse_chunk (bs @ rest) c' = parse_chunk (bs @ rest) c"
proof (cases "c' = c")
  case False
  with assms obtain fmt csid k where b: "parse_basic bs = Inr (Some (fmt, csid, k))" "k \<le> length bs"
    using parse_basic_total [OF assms(2)] by (auto simp: parse_chunk_def)
  with assms False have l: "\<not> (length bs - k = 0 \<or> length bs - k < header_need fmt)"
    by (auto simp: parse_chunk_def)
  from l b assms have "take_message fmt csid k (bs @ rest) c' = take_message fmt csid k (bs @ rest) c"
    by (intro take_message_resume) (auto simp: parse_chunk_def)
  moreover have "\<not> (length (bs @ rest) - k = 0 \<or> length (bs @ rest) - k < header_need fmt)"
    using l by auto
  ultimately show ?thesis using parse_basic_prefix [OF b(1), of rest] by (simp add: parse_chunk_def)
qed simp

section \<open>Properties\<close>

text \<open>C14: As long as the peer has not set a chunk size of \<open>2 ^ 31\<close> or more, no byte sequence it sends makes an
  iteration of the loop read or write out of bounds. After it has, the only
  fault is the allocation of a packet of that negative size: it throws, or, from -40 to -1, the header of the packet is written past the
  end of the block. Otherwise the invariant holds again, a chunk takes at least one byte and no more than there are, and a completed
  message fills its allocation exactly.\<close>

theorem parse_chunk_safe:
  assumes "in_ok c" "bs \<noteq> []" "length bs < 2 ^ 31"
  shows "case parse_chunk bs c of
      Inl e \<Rightarrow> sint (in_chunk_size c) < 0 \<and> e = negative_alloc (sint (in_chunk_size c))
    | Inr (NeedMore c') \<Rightarrow> in_ok c'
    | Inr (Chunk n c' m) \<Rightarrow> in_ok c' \<and> 1 \<le> n \<and> n \<le> length bs \<and>
        (case m of None \<Rightarrow> True | Some p \<Rightarrow> assembly_ok p \<and> Space p = 0)"
  using parse_chunk_fine [OF assms] unfolding chunk_fine_def .

lemma parse_chunk_safe_witness:
  "case parse_chunk [0x03, 0, 0, 1, 0, 0, 2] (RtmpContext_new True False) of
      Inl e \<Rightarrow> sint (in_chunk_size (RtmpContext_new True False)) < 0 \<and>
        e = negative_alloc (sint (in_chunk_size (RtmpContext_new True False)))
    | Inr (NeedMore c') \<Rightarrow> in_ok c'
    | Inr (Chunk n c' m) \<Rightarrow> in_ok c' \<and> 1 \<le> n \<and> n \<le> length ([0x03, 0, 0, 1, 0, 0, 2] :: byte list) \<and>
        (case m of None \<Rightarrow> True | Some p \<Rightarrow> assembly_ok p \<and> Space p = 0)"
  by (rule parse_chunk_safe) (simp_all add: in_ok_def RtmpContext_new_def)

text \<open>The exception is real: after a peer has set the chunk size \<open>2 ^ 32 - 1\<close>, the first chunk of format 3 on
  a new chunk stream writes a packet header past the end of a block of 39 bytes.\<close>

theorem negative_chunk_size_overflows:
  "parse_chunk [0xC3, 0] (RtmpContext_new True False\<lparr>in_chunk_size := 0xFFFFFFFF\<rparr>) = Inl BufferOverflow"
  by (simp add: parse_chunk_def parse_basic_def ReadUint8T_def Let_def header_need_def take_message_def alloc_len_def
      RtmpContext_new_def new_message_def NewPacket_def negative_alloc_def sizeof_Packet_def RtmpMsgHeader0_def dflt_def
      del: bindE_eq_Inr)

text \<open>An extended timestamp is lost: a message sent at the time \<open>0x1000000\<close> (after 4.66 hours), with \<open>0xFFFFFF\<close> in its
  header and the time behind it, is taken to be from \<open>0xFFFFFF\<close>. So the theorems on delivery stop there.\<close>

theorem extended_timestamp_lost:
  "\<exists>c p. parse_chunk [3, 0xFF, 0xFF, 0xFF, 0, 0, 1, 9, 1, 0, 0, 0, 1, 0, 0, 0, 7] (RtmpContext_new True False) =
      Inr (Chunk 17 c (Some p)) \<and> pk_timestamp p = 0xFFFFFF \<and> pk_data p = [7]"
  by (simp add: parse_chunk_def parse_basic_def ReadUint8T_def Let_def header_need_def take_message_def alloc_len_def
      ReadUint24T_def ReadUint32T_def RtmpContext_new_def new_message_def NewPacket_def parse_header_def load_le32_def take_ext_def
      ext_present_def apply_ext_def take_body_def Space_def SetExt_def RtmpMsgHeader0_def write_data_def UpdatePacketSize_def
      SetTimeStamp_def SetPacketType_def overwrite_def dflt_def del: bindE_eq_Inr)

text \<open>arrival in pieces is invisible: a chunk that was complete is parsed the same when more bytes
  follow it, and a chunk that was not is parsed, once more bytes are there, from the state the
  first attempt left exactly as from the state before it.\<close>

theorem parse_chunk_incremental:
  assumes "bs \<noteq> []" "length (bs @ rest) < 2 ^ 31"
  shows "case parse_chunk bs c of
      Inr (NeedMore c') \<Rightarrow> parse_chunk (bs @ rest) c' = parse_chunk (bs @ rest) c
    | r \<Rightarrow> parse_chunk (bs @ rest) c = r"
proof (cases "settled (parse_chunk bs c)")
  case True
  from parse_chunk_more [OF this assms] True show ?thesis
    by (auto simp: settled_def split: sum.splits chunk_result.splits)
next
  case False
  then obtain c' where "parse_chunk bs c = Inr (NeedMore c')"
    by (auto simp: settled_def split: sum.splits chunk_result.splits)
  with parse_chunk_resume [OF this assms(1)] show ?thesis by simp
qed

lemma parse_chunk_incremental_witness:
  "case parse_chunk [0x03, 0, 0, 1, 0, 0, 2, 9, 1, 0, 0, 0, 7] (RtmpContext_new True False) of
      Inr (NeedMore c') \<Rightarrow> parse_chunk ([0x03, 0, 0, 1, 0, 0, 2, 9, 1, 0, 0, 0, 7] @ [8]) c' =
        parse_chunk ([0x03, 0, 0, 1, 0, 0, 2, 9, 1, 0, 0, 0, 7] @ [8]) (RtmpContext_new True False)
    | r \<Rightarrow> parse_chunk ([0x03, 0, 0, 1, 0, 0, 2, 9, 1, 0, 0, 0, 7] @ [8]) (RtmpContext_new True False) = r"
  by (rule parse_chunk_incremental) simp_all

end
