(* ===== verification/RtmpWire.thy ===== *)
theory RtmpWire
  imports RtmpChunk
begin

text \<open>
  The two halves of the chunk protocol together: what \<open>RtmpContext::BuildChunk\<close> puts on the wire is
  parsed by the loop of \<open>RtmpContext::ParseMessage\<close> back to the same message.
\<close>

section \<open>Headers\<close>

lemma byte_hi_lo:
  assumes "f < (4 :: byte)" "cs < (64 :: u32)"
  shows "drop_bit 6 (push_bit 6 f OR ucast cs) AND 3 = f"
    "(push_bit 6 f OR ucast cs) AND 0x3F = (ucast cs :: byte)"
    "ucast (ucast cs :: byte) = cs"
proof -
  have c: "cs AND mask 6 = cs" using assms(2) by (intro less_mask_eq) simp
  have f: "f AND mask 2 = f" using assms(1) by (intro less_mask_eq) simp
  have cb: "\<not> bit cs n" if "6 \<le> n" for n
    using that c by (metis bit_and_iff bit_mask_iff not_le)
  have fb: "n < 2" if "bit f n" for n
    using that f by (metis bit_and_iff bit_mask_iff)
  have m2: "(3 :: byte) = mask 2" and m6: "(0x3F :: byte) = mask 6" by (simp_all add: mask_numeral)
  show "drop_bit 6 (push_bit 6 f OR ucast cs) AND 3 = f"
    unfolding m2 by (rule bit_word_eqI) (auto simp: bit_simps cb dest: fb)
  show "(push_bit 6 f OR ucast cs) AND 0x3F = (ucast cs :: byte)"
    unfolding m6 by (rule bit_word_eqI) (auto simp: bit_simps cb intro: ccontr)
  show "ucast (ucast cs :: byte) = cs"
    by (rule bit_word_eqI) (auto simp: bit_simps cb intro: ccontr)
qed

lemma two_bytes:
  assumes "v < (65536 :: u32)"
  shows "ucast (ucast (ucast v :: u16) :: byte) + ucast (ucast (drop_bit 8 (ucast v :: u16)) :: byte) * 256 = v"
proof -
  have n: "unat v < 65536" using assms by (simp add: word_less_nat_alt)
  have "unat (ucast (ucast (ucast v :: u16) :: byte) + ucast (ucast (drop_bit 8 (ucast v :: u16)) :: byte) * 256 :: u32)
     = unat v mod 256 + unat v div 256 mod 256 * 256"
    using n by (simp add: unat_word_ariths unsigned_ucast_eq unsigned_drop_bit_eq take_bit_eq_mod drop_bit_eq_div)
  also have "\<dots> = unat v" using n by (simp add: less_mult_imp_div_less)
  finally show ?thesis by (simp only: word_unat_eq_iff)
qed

lemma parse_basic_header:
  assumes "fmt < 4" "2 \<le> cs" "cs < 65600"
  shows "parse_basic (basic_header fmt cs @ rest) = Inr (Some (fmt, cs, length (basic_header fmt cs)))"
proof -
  consider "cs < 64" | "\<not> cs < 64" "cs < 320" | "\<not> cs < 64" "\<not> cs < 320" by blast
  then show ?thesis
  proof cases
    case 1
    have "cs \<noteq> 0" "cs \<noteq> 1" using assms(2) by (auto simp: word_le_nat_alt)
    then show ?thesis using 1 byte_hi_lo [OF assms(1) 1]
      by (simp add: parse_basic_def basic_header_def ReadUint8T_def del: bindE_eq_Inr)
  next
    case 2
    have "cs - 64 < 256" using 2 by unat_arith
    then have "ucast (ucast (cs - 64) :: byte) = cs - 64"
      using byte_slice0 [of "cs - 64"] less_mask_eq [of "cs - 64" 8] by simp
    then show ?thesis using 2 byte_hi_lo [OF assms(1), of 0]
      by (simp add: parse_basic_def basic_header_def ReadUint8T_def del: bindE_eq_Inr)
  next
    case 3
    have "cs - 64 < 65536" using 3 assms(3) by unat_arith
    from two_bytes [OF this] show ?thesis using 3 byte_hi_lo [OF assms(1), of 1]
      by (simp add: parse_basic_def basic_header_def ReadUint8T_def store_le16_def
          add.assoc del: bindE_eq_Inr)
  qed
qed

lemma length_basic_header: "1 \<le> length (basic_header fmt cs)" "length (basic_header fmt cs) \<le> 3"
  by (auto simp: basic_header_def store_le16_def)

lemma length_message_header:
  "length (message_header fmt ts h) = header_need fmt"
  by (simp add: message_header_def header_need_def u24.length_enc u8.length_enc le32.length_enc)

text \<open>A header of format \<open>fmt\<close> can stand for \<open>h\<close> behind the previous header \<open>prev\<close>.\<close>

definition expressible :: "byte \<Rightarrow> rtmp_hdr \<Rightarrow> rtmp_hdr \<Rightarrow> bool" where
  "expressible fmt h prev \<longleftrightarrow> fmt < 4 \<and> (fmt \<noteq> 0 \<longrightarrow> h_msg_sid h = h_msg_sid prev) \<and>
     (fmt = 2 \<or> fmt = 3 \<longrightarrow> h_msg_type h = h_msg_type prev \<and> h_msg_len h = h_msg_len prev)"

lemma fmt_cases:
  assumes "(fmt :: byte) < 4"
  obtains "fmt = 0" | "fmt = 1" | "fmt = 2" | "fmt = 3"
proof -
  have "unat fmt = 0 \<or> unat fmt = 1 \<or> unat fmt = 2 \<or> unat fmt = 3"
    using assms by (simp add: word_less_nat_alt) linarith
  then show ?thesis using that by (auto simp: word_unat_eq_iff)
qed

lemma parse_message_header:
  assumes "expressible fmt h prev" "v < 2 ^ 24" "h_msg_len h < 2 ^ 24"
  shows "parse_header fmt (message_header fmt v h @ rest) prev delta header =
    Inr (if fmt = 3 then 0 else v,
         header\<lparr>h_timestamp := (if fmt = 0 then v
                   else if fmt = 3 then (if h_timestamp header = 0 then delta + h_timestamp prev
                                         else h_timestamp header)
                   else v + h_timestamp prev),
                h_msg_len := h_msg_len h, h_msg_type := h_msg_type h, h_msg_sid := h_msg_sid h\<rparr>,
         if fmt = 0 then 0 else if fmt = 3 then delta else v, header_need fmt)"
proof -
  have f: "fmt < 4" using assms(1) by (simp add: expressible_def)
  have e: "\<And>w r. w < 2 ^ 24 \<Longrightarrow> ReadUint24T (WriteUint24T w @ r) = Inr w"
    "\<And>w r. ReadUint8T (WriteUint8T w @ r) = Inr w" "\<And>w r. load_le32 (store_le32 w @ r) = Inr w"
    by (rule u24.dec_enc u8.dec_enc le32.dec_enc; simp)+
  have d: "drop 3 (WriteUint24T a @ r) = r" "drop 6 (WriteUint24T a @ WriteUint24T b @ r) = r"
    "drop 7 (WriteUint24T a @ WriteUint24T b @ WriteUint8T y @ r) = r" for a b y r
    by (simp_all add: WriteUint24T_def WriteUint8T_def)
  show ?thesis
    by (rule fmt_cases [OF f])
      (use assms e d in \<open>simp_all add: parse_header_def message_header_def header_need_def
        expressible_def del: bindE_eq_Inr\<close>)
qed

lemma alloc_message_header:
  assumes "expressible fmt h prev" "v < 2 ^ 24" "h_msg_len h < 2 ^ 24" "h_msg_len h \<noteq> 0"
  shows "alloc_len fmt (message_header fmt v h @ rest) prev cs = Inr (h_msg_len h)"
proof -
  have f: "fmt < 4" using assms(1) by (simp add: expressible_def)
  have e: "ReadUint24T (WriteUint24T (h_msg_len h) @ r) = Inr (h_msg_len h)" for r
    using assms(3) by (rule u24.dec_enc)
  have d: "drop 3 (WriteUint24T a @ r) = r" for a r by (simp add: WriteUint24T_def)
  show ?thesis
    by (rule fmt_cases [OF f]) (use assms e d in \<open>simp_all add: alloc_len_def message_header_def expressible_def\<close>)
qed

section \<open>The body of a chunk\<close>

lemma take_body_deliver:
  assumes "packet_ok packet" "unat (in_chunk_size c) < 2 ^ 31" "parsed \<le> length bs" "length bs < 2 ^ 31"
    and n: "n = min (length (pk_data packet) - unat (pk_size packet)) (unat (in_chunk_size c))"
    and bs: "drop parsed bs = d @ tail" "length d = n"
  shows "\<exists>p'. packet_ok p' \<and> body p' = body packet @ d \<and> pk_ext p' = Some header \<and>
    length (pk_data p') = length (pk_data packet) \<and> unat (pk_size p') = unat (pk_size packet) + n \<and>
    take_body bs parsed csid packet header c = Inr (
      if unat (pk_size packet) + n = length (pk_data packet)
      then Chunk (parsed + n) (c\<lparr>in_message_headers := (in_message_headers c)(csid \<mapsto> header),
                                in_packets := (in_packets c)(csid := None)\<rparr>)
             (Some (SetTimeStamp (ucast (h_timestamp header)) (SetPacketType (ucast (h_msg_type header)) p')))
      else Chunk (parsed + n) (c\<lparr>in_message_headers := (in_message_headers c)(csid \<mapsto> header),
                                in_packets := (in_packets c)(csid \<mapsto> p')\<rparr>) None)"
proof -
  define bytes where "bytes = min (Space packet) (sint (in_chunk_size c))"
  define m where "m = length (pk_data packet) - unat (pk_size packet)"
  have inside: "unat (pk_size packet) \<le> length (pk_data packet)" "m < 2 ^ 31"
    using assms(1) by (auto simp: packet_ok_def word_le_nat_alt m_def less_imp_diff_less)
  have sc: "sint (in_chunk_size c) = int (unat (in_chunk_size c))"
    using assms(2) by (rule sint_unat_small)
  have "bytes = min (int m) (int (unat (in_chunk_size c)))"
    using Space_ok [OF assms(1)] sc by (simp only: bytes_def m_def)
  then have bytes: "bytes = int n" by (simp only: n m_def [symmetric] of_nat_min)
  have n31: "n < 2 ^ 31" using n inside(2) m_def by linarith
  have len: "unat (of_nat (length bs - parsed) :: u32) = length bs - parsed"
    using assms(4) by (simp add: unat_of_nat)
  have "length (drop parsed bs) = n + length tail" using bs by simp
  then have fits: "n \<le> length bs - parsed" by simp
  have "unat (word_of_int bytes :: u32) = n"
    using n31 unfolding bytes by (subst unat_word_of_int_u32) auto
  then have enough: "\<not> (of_nat (length bs - parsed) :: u32) < word_of_int bytes"
    using fits len by (simp only: word_less_nat_alt not_less)
  let ?p = "SetExt header packet"
  have "unat (pk_size ?p) + length d \<le> length (pk_data ?p)"
    using bs(2) n inside by simp
  from write_body [OF _ this] assms(1) obtain q where q:
    "write_data (unat (pk_size packet)) d ?p = Inr q" "packet_ok (UpdatePacketSize n q)"
    "body (UpdatePacketSize n q) = body packet @ d" "pk_ext q = Some header"
    "length (pk_data q) = length (pk_data packet)"
    "unat (pk_size (UpdatePacketSize n q)) = unat (pk_size packet) + n"
    using bs(2) by auto
  have data: "pk_data (UpdatePacketSize n q) = pk_data q" by (simp add: UpdatePacketSize_def)
  have room: "unat (pk_size packet) + n \<le> length (pk_data packet)" using n inside(1) by simp
  have "(Space (UpdatePacketSize n q) = 0) = (unat (pk_size packet) + n = length (pk_data packet))"
    unfolding Space_ok [OF q(2)] data q(5,6) of_nat_eq_0_iff diff_is_0_eq using room by linarith
  then show ?thesis
    using q data enough bs fits
    by (intro exI [of _ "UpdatePacketSize n q"])
      (simp add: take_body_def Let_def bytes_def [symmetric] bytes del: bindE_eq_Inr)
qed

section \<open>One chunk\<close>

text \<open>The receiver's state behind a chunk of the stream \<open>csid\<close>.\<close>

definition taken :: "u32 \<Rightarrow> rtmp_hdr \<Rightarrow> u32 \<Rightarrow> rpacket option \<Rightarrow> rtmp_ctx \<Rightarrow> rtmp_ctx" where
  "taken csid header delta p r = r\<lparr>in_message_headers := (in_message_headers r)(csid \<mapsto> header),
     in_packets := (in_packets r)(csid := p), in_deltas := (in_deltas r)(csid \<mapsto> delta),
     in_ext := (in_ext r)(csid \<mapsto> False)\<rparr>"

text \<open>The message handed over when the body is complete.\<close>

definition finish :: "rtmp_hdr \<Rightarrow> rpacket \<Rightarrow> rpacket" where
  "finish header p =
     SetTimeStamp (ucast (h_timestamp header)) (SetPacketType (ucast (h_msg_type header)) p)"

lemma chunk_step:
  fixes r :: rtmp_ctx and cs :: u32
  defines "prev \<equiv> dflt RtmpMsgHeader0 (in_message_headers r) cs"
  assumes cs: "fmt < 4" "2 \<le> cs" "cs < 65600"
    and mh: "length mh = header_need fmt"
    and alloc: "bindE (alloc_len fmt (mh @ d @ tail) prev (in_chunk_size r)) (\<lambda>len.
        case in_packets r cs of Some p \<Rightarrow> Inr p | None \<Rightarrow> new_message cs len) = Inr packet"
    and ext: "pk_ext packet = Some old"
    and ph: "parse_header fmt (mh @ d @ tail) prev (dflt 0 (in_deltas r) cs) old =
        Inr (ts, header, delta, header_need fmt)"
    and noext: "\<not> ext_present fmt cs ts r"
    and ok: "packet_ok packet" "unat (in_chunk_size r) < 2 ^ 31"
    and bs: "bs = basic_header fmt cs @ mh @ d @ tail" "length bs < 2 ^ 31" "d \<noteq> []"
    and n: "length d = min (length (pk_data packet) - unat (pk_size packet)) (unat (in_chunk_size r))"
  shows "\<exists>p'. packet_ok p' \<and> body p' = body packet @ d \<and> pk_ext p' = Some header \<and>
    length (pk_data p') = length (pk_data packet) \<and>
    unat (pk_size p') = unat (pk_size packet) + length d \<and>
    parse_chunk bs r = Inr (
      if unat (pk_size packet) + length d = length (pk_data packet)
      then Chunk (length bs - length tail) (taken cs header delta None r) (Some (finish header p'))
      else Chunk (length bs - length tail) (taken cs header delta (Some p') r) None)"
proof -
  let ?k = "length (basic_header fmt cs)"
  define r1 where "r1 = r\<lparr>in_message_headers := (in_message_headers r)(cs \<mapsto> prev)\<rparr>"
  define r2 where "r2 = r1\<lparr>in_deltas := (in_deltas r1)(cs \<mapsto> delta), in_ext := (in_ext r1)(cs \<mapsto> False)\<rparr>"
  have "unat (in_chunk_size r2) < 2 ^ 31" using ok(2) by (simp add: r2_def r1_def)
  moreover have "length d = min (length (pk_data packet) - unat (pk_size packet)) (unat (in_chunk_size r2))"
    using n by (simp add: r2_def r1_def)
  moreover have "drop (?k + header_need fmt) bs = d @ tail" using mh by (simp add: bs)
  moreover have "?k + header_need fmt \<le> length bs" using mh by (simp add: bs)
  ultimately obtain p' where p': "packet_ok p'" "body p' = body packet @ d" "pk_ext p' = Some header"
    "length (pk_data p') = length (pk_data packet)" "unat (pk_size p') = unat (pk_size packet) + length d"
    and tb: "take_body bs (?k + header_need fmt) cs packet header r2 = Inr (
      if unat (pk_size packet) + length d = length (pk_data packet)
      then Chunk (?k + header_need fmt + length d)
             (r2\<lparr>in_message_headers := (in_message_headers r2)(cs \<mapsto> header),
                in_packets := (in_packets r2)(cs := None)\<rparr>) (Some (finish header p'))
      else Chunk (?k + header_need fmt + length d)
             (r2\<lparr>in_message_headers := (in_message_headers r2)(cs \<mapsto> header),
                in_packets := (in_packets r2)(cs \<mapsto> p')\<rparr>) None)"
    using take_body_deliver [OF ok(1), of r2 "?k + header_need fmt" bs "length d" d tail header cs] bs(2)
    unfolding finish_def by blast
  have "?k + header_need fmt + length d = length bs - length tail" using mh by (simp add: bs)
  then have tb': "take_body bs (?k + header_need fmt) cs packet header r2 = Inr (
      if unat (pk_size packet) + length d = length (pk_data packet)
      then Chunk (length bs - length tail) (taken cs header delta None r) (Some (finish header p'))
      else Chunk (length bs - length tail) (taken cs header delta (Some p') r) None)"
    unfolding tb by (simp add: taken_def r2_def r1_def)
  have te: "take_ext bs (?k + header_need fmt) fmt cs ts header delta packet prev r1 =
      take_body bs (?k + header_need fmt) cs packet header r2"
  proof -
    have "\<not> ext_present fmt cs ts r1" using noext by (auto simp: ext_present_def r1_def)
    then show ?thesis by (simp add: take_ext_def Let_def r2_def)
  qed
  from alloc obtain len where len: "alloc_len fmt (mh @ d @ tail) prev (in_chunk_size r) = Inr len"
    and pkt: "(case in_packets r cs of Some p \<Rightarrow> Inr p | None \<Rightarrow> new_message cs len) = Inr packet"
    by auto
  have drop: "drop ?k bs = mh @ d @ tail" by (simp add: bs)
  have "take_message fmt cs ?k bs r = take_ext bs (?k + header_need fmt) fmt cs ts header delta packet prev r1"
    unfolding take_message_def Let_def prev_def [symmetric] drop
    using len pkt ext ph by (simp add: r1_def del: bindE_eq_Inr)
  moreover have "parse_chunk bs r = take_message fmt cs ?k bs r"
    using parse_basic_header [OF cs, of "mh @ d @ tail"] bs(1,3) mh
    by (simp add: parse_chunk_def del: bindE_eq_Inr)
  ultimately show ?thesis using p' te tb' by (intro exI [of _ p']) simp
qed

section \<open>A message in pieces\<close>

text \<open>A body of several chunks, with the header \<open>hdr\<close> in front of every piece but the first.\<close>

function wire :: "nat \<Rightarrow> byte list \<Rightarrow> byte list \<Rightarrow> byte list" where
  "wire k hdr d = (if k = 0 \<or> length d \<le> k then d else take k d @ hdr @ wire k hdr (drop k d))"
  by pat_completeness auto
termination by (relation "measure (\<lambda>(k, hdr, d). length d)") auto

declare wire.simps [simp del]

text \<open>The receiver's loop up to the next complete message: the bytes, the state, the message, the
  bytes left and the state then.\<close>

inductive delivers :: "byte list \<Rightarrow> rtmp_ctx \<Rightarrow> rpacket \<Rightarrow> byte list \<Rightarrow> rtmp_ctx \<Rightarrow> bool" where
  complete: "parse_chunk bs c = Inr (Chunk n c' (Some m)) \<Longrightarrow> delivers bs c m (drop n bs) c'"
| partial: "parse_chunk bs c = Inr (Chunk n c1 None) \<Longrightarrow> delivers (drop n bs) c1 m rest c' \<Longrightarrow>
    delivers bs c m rest c'"

lemma taken_simps [simp]:
  "in_message_headers (taken cs h d p r) cs = Some h" "in_packets (taken cs h d p r) cs = p"
  "in_deltas (taken cs h d p r) cs = Some d" "in_ext (taken cs h d p r) cs = Some False"
  "in_chunk_size (taken cs h d p r) = in_chunk_size r"
  "dflt x (in_message_headers (taken cs h d p r)) cs = h" "dflt y (in_deltas (taken cs h d p r)) cs = d"
  "dflt z (in_ext (taken cs h d p r)) cs = False"
  "taken cs h d p (taken cs h' d' p' r) = taken cs h d p r"
  by (simp_all add: taken_def)

text \<open>The state between two chunks of the same message.\<close>

definition midway :: "u32 \<Rightarrow> rtmp_hdr \<Rightarrow> rpacket \<Rightarrow> rtmp_ctx \<Rightarrow> bool" where
  "midway cs header p r \<longleftrightarrow> packet_ok p \<and> in_packets r cs = Some p \<and> pk_ext p = Some header \<and>
     in_message_headers r cs = Some header \<and> \<not> dflt False (in_ext r) cs \<and>
     (h_timestamp header = 0 \<longrightarrow> dflt 0 (in_deltas r) cs = 0)"

lemma continuation_step:
  assumes "midway cs header p r" "2 \<le> cs" "cs < 65600" "unat (in_chunk_size r) < 2 ^ 31"
    and "bs = basic_header 3 cs @ d @ tail" "length bs < 2 ^ 31" "d \<noteq> []"
    and "length d = min (length (pk_data p) - unat (pk_size p)) (unat (in_chunk_size r))"
  shows "\<exists>p'. packet_ok p' \<and> body p' = body p @ d \<and> pk_ext p' = Some header \<and>
    length (pk_data p') = length (pk_data p) \<and> unat (pk_size p') = unat (pk_size p) + length d \<and>
    parse_chunk bs r = Inr (
      if unat (pk_size p) + length d = length (pk_data p)
      then Chunk (length bs - length tail) (taken cs header (dflt 0 (in_deltas r) cs) None r) (Some (finish header p'))
      else Chunk (length bs - length tail) (taken cs header (dflt 0 (in_deltas r) cs) (Some p') r) None)"
proof -
  note m = assms(1) [unfolded midway_def]
  have "header\<lparr>h_timestamp := if h_timestamp header = 0 then dflt 0 (in_deltas r) cs + h_timestamp header
      else h_timestamp header, h_msg_len := h_msg_len header, h_msg_type := h_msg_type header,
      h_msg_sid := h_msg_sid header\<rparr> = header" using m by (cases header) simp
  then have ph: "parse_header 3 ([] @ d @ tail) header (dflt 0 (in_deltas r) cs) header =
      Inr (0, header, dflt 0 (in_deltas r) cs, header_need 3)"
    by (simp add: parse_header_def header_need_def)
  show ?thesis
    by (rule chunk_step [where fmt = 3 and mh = "[]" and old = header and ts = 0])
      (use m assms ph in \<open>auto simp: header_need_def alloc_len_def ext_present_def\<close>)
qed

lemma deliver_rest:
  assumes "midway cs header p r" "2 \<le> cs" "cs < 65600" "0 < unat (in_chunk_size r)"
    "unat (in_chunk_size r) < 2 ^ 31"
    and "bs = basic_header 3 cs @ wire (unat (in_chunk_size r)) (basic_header 3 cs) d @ rest"
    and "length bs < 2 ^ 31" "d \<noteq> []" "length (pk_data p) = unat (pk_size p) + length d"
  shows "\<exists>q. delivers bs r (finish header q) rest (taken cs header (dflt 0 (in_deltas r) cs) None r) \<and>
    packet_ok q \<and> body q = body p @ d \<and> pk_ext q = Some header \<and> unat (pk_size q) = length (pk_data p)"
  using assms
proof (induction "length d" arbitrary: d p r bs rule: less_induct)
  case less
  let ?k = "unat (in_chunk_size r)" and ?h = "basic_header 3 cs" and ?dl = "dflt 0 (in_deltas r) cs"
  show ?case
  proof (cases "length d \<le> ?k")
    case True
    have bs: "bs = ?h @ d @ rest" using less.prems(6) True by (subst (asm) wire.simps) simp
    from continuation_step [OF less.prems(1-3,5) bs less.prems(7,8)] True less.prems(9) obtain q where
      q: "packet_ok q" "body q = body p @ d" "pk_ext q = Some header"
      "unat (pk_size q) = length (pk_data p)"
      "parse_chunk bs r = Inr (Chunk (length bs - length rest) (taken cs header ?dl None r) (Some (finish header q)))"
      by auto
    have "delivers bs r (finish header q) (drop (length bs - length rest) bs) (taken cs header ?dl None r)"
      by (rule delivers.complete [OF q(5)])
    moreover have "drop (length bs - length rest) bs = rest" by (simp add: bs)
    ultimately show ?thesis using q by auto
  next
    case False
    let ?d = "take ?k d" and ?tail = "?h @ wire ?k ?h (drop ?k d) @ rest"
    have bs: "bs = ?h @ ?d @ ?tail" using less.prems(4,6) False
      by (subst (asm) wire.simps) simp
    have n: "?d \<noteq> []" "length ?d = min (length (pk_data p) - unat (pk_size p)) ?k"
      using less.prems(4,8,9) False by auto
    from continuation_step [OF less.prems(1-3,5) bs less.prems(7) n] False less.prems(9) obtain p' where
      p': "packet_ok p'" "body p' = body p @ ?d" "pk_ext p' = Some header"
      "length (pk_data p') = length (pk_data p)" "unat (pk_size p') = unat (pk_size p) + ?k"
      "parse_chunk bs r = Inr (Chunk (length bs - length ?tail) (taken cs header ?dl (Some p') r) None)"
      by auto
    let ?r = "taken cs header ?dl (Some p') r"
    have drop: "drop (length bs - length ?tail) bs = ?tail" by (simp add: bs)
    have "midway cs header p' ?r" using less.prems(1) p'(1,3) by (simp add: midway_def)
    moreover have "length (drop ?k d) < length d" using less.prems(4) False by simp
    moreover have "length ?tail < 2 ^ 31" using less.prems(7) bs by simp
    moreover have "length (pk_data p') = unat (pk_size p') + length (drop ?k d)"
      using p' less.prems(9) False by simp
    ultimately obtain q where "delivers ?tail ?r (finish header q) rest (taken cs header (dflt 0 (in_deltas ?r) cs) None ?r)"
      "packet_ok q" "body q = body p' @ drop ?k d" "pk_ext q = Some header" "unat (pk_size q) = length (pk_data p')"
      using less.hyps [of "drop ?k d" p' ?r ?tail] less.prems(2-5) False by auto
    with p' drop show ?thesis by (auto intro!: exI [of _ q] delivers.partial [OF p'(6)])
  qed
qed

text \<open>The first chunk, and with it the whole message.\<close>

lemma deliver_message:
  fixes r :: rtmp_ctx and cs :: u32
  defines "prev \<equiv> dflt RtmpMsgHeader0 (in_message_headers r) cs"
    and "delta \<equiv> dflt 0 (in_deltas r) cs"
  assumes cs: "2 \<le> cs" "cs < 65600" "h_cs_id h = cs"
    and k: "0 < unat (in_chunk_size r)" "unat (in_chunk_size r) < 2 ^ 31"
    and fmt: "expressible fmt h prev" "v < 0xFFFFFF"
    and idle: "in_packets r cs = None" "\<not> dflt False (in_ext r) cs"
    and len: "h_msg_len h < 2 ^ 24" "unat (h_msg_len h) = length d" "d \<noteq> []"
    and bs: "bs = basic_header fmt cs @ message_header fmt v h @
               wire (unat (in_chunk_size r)) (basic_header 3 cs) d @ rest" "length bs < 2 ^ 31"
    and t: "t = (if fmt = 0 then v else if fmt = 3 then delta + h_timestamp prev else v + h_timestamp prev)"
    and delta': "delta' = (if fmt = 0 then 0 else if fmt = 3 then delta else v)"
    and zero: "t = 0 \<Longrightarrow> delta' = 0"
  shows "\<exists>q. delivers bs r (finish (h\<lparr>h_timestamp := t\<rparr>) q) rest
        (taken cs (h\<lparr>h_timestamp := t\<rparr>) delta' None r) \<and>
      packet_ok q \<and> body q = d \<and> pk_ext q = Some (h\<lparr>h_timestamp := t\<rparr>) \<and> unat (pk_size q) = length d"
proof -
  let ?k = "unat (in_chunk_size r)" and ?h = "basic_header 3 cs" and ?mh = "message_header fmt v h"
  define header where "header = h\<lparr>h_timestamp := t\<rparr>"
  define old where "old = \<lparr>h_cs_id = cs, h_timestamp = 0, h_msg_len = h_msg_len h, h_msg_type = 0, h_msg_sid = 0\<rparr>"
  have v: "v < 2 ^ 24" using fmt(2) by (rule order.strict_trans2) simp
  have f: "fmt < 4" using fmt(1) by (simp add: expressible_def)
  have sl: "sint (h_msg_len h) = int (length d)" "length d < 2 ^ 31"
  proof -
    have "unat (h_msg_len h) < 2 ^ 24" using len(1) by (simp add: word_less_nat_alt)
    then show "length d < 2 ^ 31" using len(2) by simp
    then show "sint (h_msg_len h) = int (length d)" using len(2) sint_unat_small [of "h_msg_len h"] by simp
  qed
  obtain p where p: "new_message cs (h_msg_len h) = Inr p" "packet_ok p" "body p = []"
    "pk_size p = 0" "length (pk_data p) = length d" "pk_ext p = Some old"
  proof -
    obtain p0 :: rpacket where p0: "NewPacket (int (length d)) = Inr p0" "packet_ok p0" "body p0 = []"
      "pk_size p0 = 0" "unat (pk_capacity p0) = length d"
      using NewPacket_ok [of "int (length d)"] sl(2) by auto
    then have "length (pk_data p0) = length d" by (simp add: packet_ok_def)
    then show ?thesis using p0 sl(1) by (intro that [of "SetExt old p0"]) (simp_all add: new_message_def old_def)
  qed
  have alloc: "bindE (alloc_len fmt (?mh @ x) prev (in_chunk_size r)) (\<lambda>len.
        case in_packets r cs of Some p \<Rightarrow> Inr p | None \<Rightarrow> new_message cs len) = Inr p" for x
  proof -
    have "h_msg_len h \<noteq> 0" using len by auto
    then have "alloc_len fmt (?mh @ x) prev (in_chunk_size r) = Inr (h_msg_len h)"
      by (rule alloc_message_header [OF fmt(1) v len(1)])
    then show ?thesis using idle(1) p(1) by simp
  qed
  have ph: "parse_header fmt (?mh @ x) prev delta old =
        Inr (if fmt = 3 then 0 else v, header, delta', header_need fmt)" for x
    using parse_message_header [OF fmt(1) v len(1), of x delta old] cs(3)
    by (simp add: header_def old_def t delta')
  have noext: "\<not> ext_present fmt cs (if fmt = 3 then 0 else v) r"
    using idle(2) fmt(2) by (auto simp: ext_present_def)
  have mh: "length ?mh = header_need fmt" by (rule length_message_header)
  note step = chunk_step [OF f cs(1,2) mh alloc [unfolded prev_def] p(6) ph [unfolded prev_def delta_def]
      noext p(2) k(2)]
  show ?thesis
  proof (cases "length d \<le> ?k")
    case True
    have bs': "bs = basic_header fmt cs @ ?mh @ d @ rest" using bs(1) True by (simp add: wire.simps [of _ _ d])
    from step [OF bs' bs(2) len(3)] p(3-5) True obtain q where
      q: "packet_ok q" "body q = d" "pk_ext q = Some header" "unat (pk_size q) = length d"
      "parse_chunk bs r = Inr (Chunk (length bs - length rest) (taken cs header delta' None r) (Some (finish header q)))"
      by auto
    have "drop (length bs - length rest) bs = rest" by (simp add: bs')
    with q delivers.complete [OF q(5)] show ?thesis unfolding header_def by auto
  next
    case False
    let ?d = "take ?k d" and ?tail = "?h @ wire ?k ?h (drop ?k d) @ rest"
    have bs': "bs = basic_header fmt cs @ ?mh @ ?d @ ?tail"
      using bs(1) False k by (simp add: wire.simps [of _ _ d])
    have n: "?d \<noteq> []" "length ?d = min (length (pk_data p) - unat (pk_size p)) ?k"
      using k len(3) False p(4,5) by auto
    from step [OF bs' bs(2) n] p(3-5) False obtain p' where
      p': "packet_ok p'" "body p' = ?d" "pk_ext p' = Some header"
      "length (pk_data p') = length d" "unat (pk_size p') = ?k"
      "parse_chunk bs r = Inr (Chunk (length bs - length ?tail) (taken cs header delta' (Some p') r) None)"
      by auto
    let ?r = "taken cs header delta' (Some p') r"
    have drop: "drop (length bs - length ?tail) bs = ?tail" by (simp add: bs')
    have "midway cs header p' ?r" using p'(1,3) zero by (simp add: midway_def header_def)
    moreover have "length ?tail < 2 ^ 31" using bs(2) bs' by simp
    ultimately obtain q where "delivers ?tail ?r (finish header q) rest (taken cs header delta' None ?r)"
      "packet_ok q" "body q = body p' @ drop ?k d" "pk_ext q = Some header" "unat (pk_size q) = length (pk_data p')"
      using deliver_rest [of cs header p' ?r ?tail "drop ?k d" rest] cs k p' False by auto
    with p' drop show ?thesis unfolding header_def [symmetric]
      by (auto intro!: exI [of _ q] delivers.partial [OF p'(6)])
  qed
qed

section \<open>The sender\<close>

text \<open>The bytes of the header buffer a message of \<open>n\<close> bytes may take, with chunks of \<open>k\<close> bytes.\<close>

definition header_room :: "nat \<Rightarrow> nat \<Rightarrow> nat" where
  "header_room k n = 14 + 3 * (n div k)"

lemma chunk_body_wire:
  assumes "0 < k" "bp \<le> unat (h_msg_len h)" "unat (h_msg_len h) \<le> length data"
    and "pos + 3 * ((unat (h_msg_len h) - bp) div k) \<le> 4096"
  shows "\<exists>pos' ns. chunk_body h data [] k bp pos bufs = Inr (pos', bufs @ ns) \<and>
    concat ns = wire k (basic_header 3 (h_cs_id h)) (take (unat (h_msg_len h) - bp) (drop bp data)) \<and>
    pos' \<le> pos + 3 * ((unat (h_msg_len h) - bp) div k)"
  using assms
proof (induction "unat (h_msg_len h) - bp" arbitrary: bp pos bufs rule: less_induct)
  case less
  let ?len = "unat (h_msg_len h)" and ?bh = "basic_header 3 (h_cs_id h)"
  let ?d = "take (?len - bp) (drop bp data)"
  show ?case
  proof (cases "?len - bp \<le> k")
    case True
    then have "length ?d \<le> k" by simp
    then have "wire k ?bh ?d = ?d" by (simp only: wire.simps [of _ _ ?d] simp_thms if_True)
    moreover have "chunk_body h data [] k bp pos bufs = Inr (pos, bufs @ [?d])"
      using less.prems True by (simp add: chunk_body.simps [of _ _ _ _ bp] Let_def min_def del: bindE_eq_Inr)
    ultimately show ?thesis by (intro exI [of _ pos] exI [of _ "[?d]"]) simp
  next
    case False
    have bh: "1 \<le> length ?bh" "length ?bh \<le> 3" by (rule length_basic_header)+
    have div: "(?len - bp) div k = Suc ((?len - (bp + k)) div k)"
      using False less.prems(1) by (simp add: le_div_geq)
    have lt: "bp + k < ?len" using False by linarith
    then have dec: "?len - (bp + k) < ?len - bp" using less.prems(1) by linarith
    have rec: "chunk_body h data [] k bp pos bufs =
        chunk_body h data [] k (bp + k) (pos + length ?bh) (bufs @ [take k (drop bp data), ?bh])"
      using less.prems False div bh lt
      by (simp add: chunk_body.simps [of _ _ _ _ bp] Let_def min_def del: bindE_eq_Inr)
    obtain pos' ns where IH: "chunk_body h data [] k (bp + k) (pos + length ?bh)
          (bufs @ [take k (drop bp data), ?bh]) = Inr (pos', (bufs @ [take k (drop bp data), ?bh]) @ ns)"
      "concat ns = wire k ?bh (take (?len - (bp + k)) (drop (bp + k) data))"
      "pos' \<le> pos + length ?bh + 3 * ((?len - (bp + k)) div k)"
      using less.hyps [of "bp + k" "pos + length ?bh" "bufs @ [take k (drop bp data), ?bh]"]
        less.prems False div bh lt dec by auto
    have big: "\<not> length data - bp \<le> k" using lt less.prems(3) by linarith
    have w: "wire k ?bh ?d = take k (drop bp data) @ ?bh @ wire k ?bh (take (?len - (bp + k)) (drop (bp + k) data))"
      using less.prems False lt big
      by (simp add: wire.simps [of _ _ ?d] min_def drop_take add.commute)
    show ?thesis
      using rec IH div bh w
      by (intro exI [of _ pos'] exI [of _ "[take k (drop bp data), ?bh] @ ns"]) simp
  qed
qed

text \<open>Sender and receiver agree: the chunk size, and on every chunk stream the previous header and
  the delta; and no message is under way.\<close>

definition in_sync :: "rtmp_ctx \<Rightarrow> rtmp_ctx \<Rightarrow> bool" where
  "in_sync s r \<longleftrightarrow> in_chunk_size r = out_chunk_size s \<and> 0 < unat (in_chunk_size r) \<and>
     unat (in_chunk_size r) < 2 ^ 31 \<and>
     (\<forall>cs. in_packets r cs = None \<and> \<not> dflt False (in_ext r) cs \<and>
       (case out_message_headers s cs of None \<Rightarrow> True
        | Some h \<Rightarrow> in_message_headers r cs = Some h \<and> dflt 0 (in_deltas r) cs = dflt 0 (out_deltas s) cs))"

text \<open>A packet the protocol can carry: its header gives its length and names a chunk stream.\<close>

definition sendable :: "rpacket \<Rightarrow> bool" where
  "sendable p \<longleftrightarrow> (\<exists>h. pk_ext p = Some h \<and> 2 \<le> h_cs_id h \<and> h_cs_id h < 65600 \<and> 0 < h_msg_len h \<and>
     h_msg_len h < 2 ^ 24 \<and> unat (h_msg_len h) \<le> length (pk_data p))"

definition payload :: "rpacket \<Rightarrow> byte list" where
  "payload p = (case pk_ext p of None \<Rightarrow> [] | Some h \<Rightarrow> take (unat (h_msg_len h)) (pk_data p))"

text \<open>\<open>q\<close> is the message \<open>p\<close>, stamped with \<open>t\<close>.\<close>

definition same_message :: "rpacket \<Rightarrow> u32 \<Rightarrow> rpacket \<Rightarrow> bool" where
  "same_message p t q \<longleftrightarrow> (\<exists>h. pk_ext p = Some h \<and> pk_ext q = Some (h\<lparr>h_timestamp := t\<rparr>) \<and>
     packet_ok q \<and> body q = payload p \<and> unat (pk_size q) = length (payload p) \<and>
     pk_type q = ucast (h_msg_type h) \<and> pk_timestamp q = ucast t)"

lemma choose_fmt_expressible:
  assumes "use_delta \<longrightarrow> h_msg_sid h = h_msg_sid prev \<and> h_timestamp prev \<le> t" "t < 0xFFFFFF"
    and "choose_fmt use_delta t h prev delta = (fmt, v)"
  shows "expressible fmt h prev \<and> v < 0xFFFFFF \<and>
    t = (if fmt = 0 then v else if fmt = 3 then delta + h_timestamp prev else v + h_timestamp prev) \<and>
    (t = 0 \<longrightarrow> (if fmt = 0 then 0 else if fmt = 3 then delta else v) = 0) \<and> (use_delta \<longleftrightarrow> fmt \<noteq> 0) \<and>
    t = (if fmt = 0 then v else h_timestamp prev + v)"
proof -
  have "t - h_timestamp prev \<le> t" if "h_timestamp prev \<le> t"
    using that by (simp add: word_le_nat_alt unat_sub)
  then have "t - h_timestamp prev < 0xFFFFFF" if "h_timestamp prev \<le> t"
    using that assms(2) by (meson order.strict_trans1)
  then show ?thesis using assms
    by (auto simp: choose_fmt_def expressible_def Let_def split: if_splits)
qed

lemma emit_chunks_wire:
  assumes h: "unat (h_msg_len h) \<le> length (pk_data packet)" and k: "0 < unat (out_chunk_size s)"
    and cf: "choose_fmt use_delta t h (dflt RtmpMsgHeader0 (out_message_headers s) (h_cs_id h))
        (dflt 0 (out_deltas s) (h_cs_id h)) = (fmt, v)" "v < 0xFFFFFF"
    and room: "out_current s + header_room (unat (out_chunk_size s)) (unat (h_msg_len h)) \<le> 4096"
  shows "\<exists>pos ns. emit_chunks h packet t use_delta s = Inr (s\<lparr>
      out_deltas := (if fmt = 0 then (out_deltas s)(h_cs_id h \<mapsto> 0)
                     else if fmt = 1 \<or> fmt = 2 then (out_deltas s)(h_cs_id h \<mapsto> v) else out_deltas s),
      out_message_headers := (out_message_headers s)(h_cs_id h \<mapsto> h\<lparr>h_timestamp :=
        (if fmt = 0 then v else h_timestamp (dflt RtmpMsgHeader0 (out_message_headers s) (h_cs_id h)) + v)\<rparr>),
      out_current := pos, sending_bufs := sending_bufs s @ ns\<rparr>) \<and>
    concat ns = basic_header fmt (h_cs_id h) @ message_header fmt v h @
      wire (unat (out_chunk_size s)) (basic_header 3 (h_cs_id h)) (take (unat (h_msg_len h)) (pk_data packet)) \<and>
    pos \<le> out_current s + header_room (unat (out_chunk_size s)) (unat (h_msg_len h))"
proof -
  let ?cs = "h_cs_id h" and ?n = "unat (h_msg_len h)" and ?k = "unat (out_chunk_size s)"
  define nh where "nh = basic_header fmt ?cs @ message_header fmt v h"
  have "header_need fmt \<le> 11" by (simp add: header_need_def)
  then have nh: "length nh \<le> 14"
    using length_basic_header(2) [of fmt ?cs] by (simp add: nh_def length_message_header)
  have ts: "\<not> 0xFFFFFF \<le> v" "v \<noteq> 0xFFFFFF" using cf(2) by auto
  have "out_current s + length nh + 3 * ((?n - 0) div ?k) \<le> 4096"
    using room nh by (simp add: header_room_def)
  from chunk_body_wire [OF k le0 h this, of "sending_bufs s @ [nh]"] obtain pos ns where
    b: "chunk_body h (pk_data packet) [] ?k 0 (out_current s + length nh) (sending_bufs s @ [nh]) =
       Inr (pos, (sending_bufs s @ [nh]) @ ns)"
    "concat ns = wire ?k (basic_header 3 ?cs) (take ?n (pk_data packet))"
    "pos \<le> out_current s + length nh + 3 * (?n div ?k)" by auto
  have fits: "\<not> 4096 < out_current s + length nh" using room nh by (simp add: header_room_def)
  have "emit_chunks h packet t use_delta s = Inr (s\<lparr>
      out_deltas := (if fmt = 0 then (out_deltas s)(?cs \<mapsto> 0)
                     else if fmt = 1 \<or> fmt = 2 then (out_deltas s)(?cs \<mapsto> v) else out_deltas s),
      out_message_headers := (out_message_headers s)(?cs \<mapsto> h\<lparr>h_timestamp :=
        (if fmt = 0 then v else h_timestamp (dflt RtmpMsgHeader0 (out_message_headers s) ?cs) + v)\<rparr>),
      out_current := pos, sending_bufs := sending_bufs s @ nh # ns\<rparr>)"
    unfolding emit_chunks_def Let_def cf(1) prod.case
    using ts b(1) fits by (simp add: ext_timestamp_def nh_def [symmetric] del: bindE_eq_Inr)
  then show ?thesis using b(2,3) nh
    by (intro exI [of _ pos] exI [of _ "nh # ns"]) (simp add: nh_def header_room_def)
qed

lemma send_one:
  assumes "sendable p" "in_sync s r" "t < 0xFFFFFF"
    and "out_current s + header_room (unat (out_chunk_size s)) (length (payload p)) \<le> 4096"
  shows "\<exists>s' W r'. BuildChunk_move p t fmt0 s = Inr (True, s') \<and> in_sync s' r' \<and>
    concat (sending_bufs s') = concat (sending_bufs s) @ W \<and>
    out_current s' \<le> out_current s + header_room (unat (out_chunk_size s)) (length (payload p)) \<and>
    out_chunk_size s' = out_chunk_size s \<and>
    (\<forall>rest. length (W @ rest) < 2 ^ 31 \<longrightarrow>
       (\<exists>q. delivers (W @ rest) r q rest r' \<and> same_message p t q))"
proof -
  obtain h where h: "pk_ext p = Some h" "2 \<le> h_cs_id h" "h_cs_id h < 65600" "0 < h_msg_len h"
    "h_msg_len h < 2 ^ 24" "unat (h_msg_len h) \<le> length (pk_data p)"
    using assms(1) by (auto simp: sendable_def)
  let ?cs = "h_cs_id h" and ?k = "unat (out_chunk_size s)"
  let ?prev = "dflt RtmpMsgHeader0 (out_message_headers s) ?cs" and ?delta = "dflt 0 (out_deltas s) ?cs"
  have k: "0 < ?k" "in_chunk_size r = out_chunk_size s" "?k < 2 ^ 31"
    using assms(2) by (auto simp: in_sync_def)
  have d: "payload p = take (unat (h_msg_len h)) (pk_data p)" "length (payload p) = unat (h_msg_len h)"
    "payload p \<noteq> []"
    using h by (auto simp: payload_def word_less_nat_alt)
  define use_delta where "use_delta = (\<not> fmt0 \<and> (case out_message_headers s ?cs of None \<Rightarrow> False
      | Some prev \<Rightarrow> h_timestamp prev \<le> t \<and> h_msg_sid h = h_msg_sid prev))"
  obtain fmt v where cf: "choose_fmt use_delta t h ?prev ?delta = (fmt, v)" by fastforce
  have "use_delta \<longrightarrow> h_msg_sid h = h_msg_sid ?prev \<and> h_timestamp ?prev \<le> t"
    by (auto simp: use_delta_def split: option.splits)
  note e = choose_fmt_expressible [OF this assms(3) cf]
  have v: "v < 0xFFFFFF" using e by blast
  define t' where "t' = (if fmt = 0 then v else h_timestamp ?prev + v)"
  have t': "t' = t" using e unfolding t'_def by argo
  obtain pos ns where em: "emit_chunks h p t use_delta s = Inr (s\<lparr>
      out_deltas := (if fmt = 0 then (out_deltas s)(?cs \<mapsto> 0)
                     else if fmt = 1 \<or> fmt = 2 then (out_deltas s)(?cs \<mapsto> v) else out_deltas s),
      out_message_headers := (out_message_headers s)(?cs \<mapsto> h\<lparr>h_timestamp := t\<rparr>),
      out_current := pos, sending_bufs := sending_bufs s @ ns\<rparr>)" (is "_ = Inr ?s1")
    and ns: "concat ns = basic_header fmt ?cs @ message_header fmt v h @ wire ?k (basic_header 3 ?cs) (payload p)"
    and pos: "pos \<le> out_current s + header_room ?k (length (payload p))"
    using emit_chunks_wire [OF h(6) k(1) cf] e assms(4) d unfolding t'_def [symmetric] t' by auto
  let ?s = "?s1\<lparr>out_sending_packets := out_sending_packets ?s1 @ [p]\<rparr>"
  have build: "BuildChunk_move p t fmt0 s = Inr (True, ?s)"
    using em h(1) by (simp add: BuildChunk_move_def Let_def use_delta_def [symmetric] del: bindE_eq_Inr)
  let ?pr = "dflt RtmpMsgHeader0 (in_message_headers r) ?cs" and ?dr = "dflt 0 (in_deltas r) ?cs"
  let ?delta' = "if fmt = 0 then 0 else if fmt = 3 then ?dr else v"
  have same: "?pr = ?prev \<and> ?dr = ?delta" if "fmt \<noteq> 0"
  proof -
    have use_delta using e that by argo
    then obtain prev where "out_message_headers s ?cs = Some prev"
      by (auto simp: use_delta_def split: option.splits)
    then show ?thesis using assms(2) by (auto simp: in_sync_def split: option.splits dest!: spec [of _ ?cs])
  qed
  have ex: "expressible fmt h ?pr" using e same by (cases "fmt = 0") (auto simp: expressible_def)
  have tr: "t = (if fmt = 0 then v else if fmt = 3 then ?dr + h_timestamp ?pr else v + h_timestamp ?pr)"
    using e same by (cases "fmt = 0") auto
  have zero: "t = 0 \<Longrightarrow> ?delta' = 0" using e same by (cases "fmt = 0") auto
  have idle: "in_packets r ?cs = None" "\<not> dflt False (in_ext r) ?cs"
    using assms(2) by (simp_all add: in_sync_def)
  have rk: "0 < unat (in_chunk_size r)" "unat (in_chunk_size r) < 2 ^ 31" using k by simp_all
  let ?od = "if fmt = 0 then (out_deltas s)(?cs \<mapsto> 0)
     else if fmt = 1 \<or> fmt = 2 then (out_deltas s)(?cs \<mapsto> v) else out_deltas s"
  have "fmt < 4" using ex by (simp add: expressible_def)
  then have od: "dflt 0 ?od ?cs = ?delta'" using same by (elim fmt_cases) auto
  have od': "dflt 0 ?od c = dflt 0 (out_deltas s) c" if "c \<noteq> ?cs" for c using that by auto
  have sync: "in_sync ?s (taken ?cs (h\<lparr>h_timestamp := t\<rparr>) ?delta' None r)"
  proof -
    define dl where "dl = ?delta'"
    define odl where "odl = ?od"
    have "dflt 0 odl c = (if c = ?cs then dl else dflt 0 (out_deltas s) c)" for c
      using od od' by (simp add: dl_def odl_def)
    with assms(2) show ?thesis unfolding dl_def [symmetric] odl_def [symmetric]
      by (auto simp: in_sync_def taken_def cong: option.case_cong)
  qed
  have "\<exists>q. delivers (concat ns @ rest) r q rest (taken ?cs (h\<lparr>h_timestamp := t\<rparr>) ?delta' None r) \<and>
      same_message p t q" if total: "length (concat ns @ rest) < 2 ^ 31" for rest
  proof -
    have bs: "concat ns @ rest = basic_header fmt ?cs @ message_header fmt v h @
        wire (unat (in_chunk_size r)) (basic_header 3 ?cs) (payload p) @ rest"
      using ns k(2) by simp
    from deliver_message [OF h(2,3) refl rk ex v idle h(5) d(2) [symmetric] d(3) bs total tr refl zero]
    obtain q where q: "delivers (concat ns @ rest) r (finish (h\<lparr>h_timestamp := t\<rparr>) q) rest
        (taken ?cs (h\<lparr>h_timestamp := t\<rparr>) ?delta' None r)"
      "packet_ok q" "body q = payload p" "pk_ext q = Some (h\<lparr>h_timestamp := t\<rparr>)"
      "unat (pk_size q) = length (payload p)"
      by blast
    moreover have "same_message p t (finish (h\<lparr>h_timestamp := t\<rparr>) q)"
      using q h(1) by (auto simp: same_message_def finish_def SetTimeStamp_def SetPacketType_def packet_ok_def body_def)
    ultimately show ?thesis using q(1) by blast
  qed
  then show ?thesis using build pos sync
    by (intro exI [of _ ?s] exI [of _ "concat ns"] exI [of _ "taken ?cs (h\<lparr>h_timestamp := t\<rparr>) ?delta' None r"]) simp
qed

section \<open>Batches\<close>

text \<open>Messages with their timestamps and \<open>fmt0\<close> flags, sent in one go; and received in one go. They go through the overload of
  \<open>BuildChunk\<close> that takes a packet over, which the context uses for its own messages; players send through the one that
  copies, and theory \<open>Players\<close> shows what arrives then.\<close>

fun build_all :: "(rpacket \<times> u32 \<times> bool) list \<Rightarrow> rtmp_ctx \<Rightarrow> rtmp_ctx res" where
  "build_all [] c = Inr c"
| "build_all ((p, t, fmt0) # ms) c = bindE (BuildChunk_move p t fmt0 c) (\<lambda>(_, c). build_all ms c)"

inductive delivers_all :: "byte list \<Rightarrow> rtmp_ctx \<Rightarrow> rpacket list \<Rightarrow> byte list \<Rightarrow> rtmp_ctx \<Rightarrow> bool" where
  none: "delivers_all bs c [] bs c"
| some: "delivers bs c q mid c1 \<Longrightarrow> delivers_all mid c1 qs rest c' \<Longrightarrow> delivers_all bs c (q # qs) rest c'"

definition batch_room :: "nat \<Rightarrow> (rpacket \<times> u32 \<times> bool) list \<Rightarrow> nat" where
  "batch_room k ms = sum_list (map (\<lambda>(p, _). header_room k (length (payload p))) ms)"

lemma send_batch:
  assumes "\<forall>(p, t, _) \<in> set ms. sendable p \<and> t < 0xFFFFFF" "in_sync s r"
    and "out_current s + batch_room (unat (out_chunk_size s)) ms \<le> 4096"
  shows "\<exists>s' W r'. build_all ms s = Inr s' \<and> concat (sending_bufs s') = concat (sending_bufs s) @ W \<and>
    in_sync s' r' \<and> (\<forall>rest. length (W @ rest) < 2 ^ 31 \<longrightarrow> (\<exists>qs. delivers_all (W @ rest) r qs rest r' \<and>
       list_all2 (\<lambda>(p, t, _) q. same_message p t q) ms qs))"
  using assms
proof (induction ms arbitrary: s r)
  case Nil
  then show ?case
    by (intro exI [of _ s] exI [of _ "[]"] exI [of _ r]) (auto intro: delivers_all.none exI [of _ "[]"])
next
  case (Cons m ms)
  obtain p t fmt0 where m: "m = (p, t, fmt0)" by (cases m)
  let ?k = "unat (out_chunk_size s)"
  have room: "out_current s + header_room ?k (length (payload p)) + batch_room ?k ms \<le> 4096"
    using Cons.prems(3) by (simp add: batch_room_def m)
  then have r1: "out_current s + header_room ?k (length (payload p)) \<le> 4096" by simp
  have "sendable p" "t < 0xFFFFFF" using Cons.prems(1) m by auto
  from send_one [OF this(1) Cons.prems(2) this(2) r1, of fmt0]
  obtain s1 W1 r1 where b: "BuildChunk_move p t fmt0 s = Inr (True, s1)" "in_sync s1 r1"
    "concat (sending_bufs s1) = concat (sending_bufs s) @ W1"
    "out_current s1 \<le> out_current s + header_room ?k (length (payload p))"
    "out_chunk_size s1 = out_chunk_size s"
    and d1: "\<And>rest. length (W1 @ rest) < 2 ^ 31 \<Longrightarrow>
       \<exists>q. delivers (W1 @ rest) r q rest r1 \<and> same_message p t q" by blast
  have room1: "out_current s1 + batch_room (unat (out_chunk_size s1)) ms \<le> 4096" using room b by simp
  have all: "\<forall>(p, t, _) \<in> set ms. sendable p \<and> t < 0xFFFFFF" using Cons.prems(1) by simp
  from Cons.IH [OF all b(2) room1] obtain s' W r' where i: "build_all ms s1 = Inr s'"
    "concat (sending_bufs s') = concat (sending_bufs s1) @ W" "in_sync s' r'"
    and d: "\<And>rest. length (W @ rest) < 2 ^ 31 \<Longrightarrow> \<exists>qs. delivers_all (W @ rest) r1 qs rest r' \<and>
       list_all2 (\<lambda>(p, t, _) q. same_message p t q) ms qs" by blast
  have "\<exists>qs. delivers_all ((W1 @ W) @ rest) r qs rest r' \<and>
       list_all2 (\<lambda>(p, t, _) q. same_message p t q) (m # ms) qs"
    if l: "length ((W1 @ W) @ rest) < 2 ^ 31" for rest
  proof -
    from d1 [of "W @ rest"] l obtain q where q: "delivers (W1 @ W @ rest) r q (W @ rest) r1" "same_message p t q"
      by auto
    from d [of rest] l obtain qs where "delivers_all (W @ rest) r1 qs rest r'"
      "list_all2 (\<lambda>(p, t, _) q. same_message p t q) ms qs" by auto
    with q m show ?thesis by (intro exI [of _ "q # qs"]) (auto intro: delivers_all.some)
  qed
  then show ?case using b i m by (intro exI [of _ s'] exI [of _ "W1 @ W"] exI [of _ r']) simp
qed

section \<open>Late timestamps\<close>

lemma emit_chunks_frame:
  "emit_chunks h p t d (c\<lparr>out_sending_packets := x\<rparr>) =
     bindE (emit_chunks h p t d c) (\<lambda>c'. Inr (c'\<lparr>out_sending_packets := x\<rparr>))"
proof (cases "choose_fmt d t h (dflt RtmpMsgHeader0 (out_message_headers c) (h_cs_id h))
    (dflt 0 (out_deltas c) (h_cs_id h))")
  case (Pair f v)
  have b: "bindE m (\<lambda>(pos, bufs). Inr (F pos bufs)) = bindE (bindE m (\<lambda>(pos, bufs). Inr (G pos bufs))) k"
    if "\<And>pos bufs. Inr (F pos bufs) = k (G pos bufs)" for m :: "(nat \<times> byte list list) res" and F G k
    using that by (cases m) auto
  have acc: "out_message_headers (c\<lparr>out_sending_packets := x\<rparr>) = out_message_headers c"
    "out_deltas (c\<lparr>out_sending_packets := x\<rparr>) = out_deltas c"
    "out_current (c\<lparr>out_sending_packets := x\<rparr>) = out_current c"
    "sending_bufs (c\<lparr>out_sending_packets := x\<rparr>) = sending_bufs c"
    "out_chunk_size (c\<lparr>out_sending_packets := x\<rparr>) = out_chunk_size c" by simp_all
  show ?thesis unfolding emit_chunks_def Let_def acc Pair prod.case
    by (simp only: if_distrib [where f = "\<lambda>m. bindE m k" for k] bindE.simps) (intro if_cong refl b, simp)
qed

lemma BuildChunk_copy_move:
  assumes "pk_ext p = Some h"
  shows "BuildChunk_copy p t fmt0 c =
    (if \<not> fmt0 \<and> out_message_headers c (h_cs_id h) = None then Inl NullDeref
     else BuildChunk_move p t True c)"
proof -
  have sp: "out_sending_packets c' = out_sending_packets c" if "emit_chunks h p t False c = Inr c'" for c'
    using that by (auto simp: emit_chunks_def Let_def split: prod.splits if_splits)
  have "bindE (bindE (emit_chunks h p t False c) (\<lambda>c'. Inr (c'\<lparr>out_sending_packets := out_sending_packets c @ [p]\<rparr>)))
      (\<lambda>c. Inr (True, c)) =
    bindE (emit_chunks h p t False c) (\<lambda>c. Inr (True, c\<lparr>out_sending_packets := out_sending_packets c @ [p]\<rparr>))"
    using sp by (cases "emit_chunks h p t False c") auto
  then show ?thesis using assms
    by (auto simp: BuildChunk_copy_def BuildChunk_move_def emit_chunks_frame Let_def simp del: bindE_assoc split: option.splits)
qed

text \<open>A message that is sent with an absolute timestamp that does not fit the field.\<close>

lemma emit_late:
  assumes "unat (h_msg_len h) \<le> length (pk_data p)" "unat (h_msg_len h) \<le> unat (out_chunk_size s)"
    and "0xFFFFFF \<le> t" "out_current s + 18 \<le> 4096"
  shows "\<exists>s'. emit_chunks h p t False s = Inr s' \<and> sending_bufs s' = sending_bufs s @
    [basic_header 0 (h_cs_id h) @ message_header 0 0xFFFFFF h @ store_le32 t, take (unat (h_msg_len h)) (pk_data p)]"
proof -
  let ?nh = "basic_header 0 (h_cs_id h) @ message_header 0 0xFFFFFF h @ store_le32 t"
  have "length ?nh \<le> 18"
    using length_basic_header(2) [of 0 "h_cs_id h"]
    by (simp add: length_message_header header_need_def le32.length_enc)
  then have fits: "\<not> 4096 < out_current s + length ?nh" using assms(4) by linarith
  have "chunk_body h (pk_data p) e (unat (out_chunk_size s)) 0 pos bufs =
      Inr (pos, bufs @ [take (unat (h_msg_len h)) (pk_data p)])" for e pos bufs
    using assms by (simp add: chunk_body.simps [of h] Let_def min_def del: bindE_eq_Inr)
  with assms(3) fits show ?thesis
    by (simp add: emit_chunks_def choose_fmt_def ext_timestamp_def Let_def del: bindE_eq_Inr)
qed

lemma parse_late:
  fixes r :: rtmp_ctx and cs :: u32
  assumes cs: "2 \<le> cs" "cs < 65600" and k: "unat (in_chunk_size r) < 2 ^ 31" "length d \<le> unat (in_chunk_size r)"
    and idle: "in_packets r cs = None"
    and len: "h_msg_len h < 2 ^ 24" "unat (h_msg_len h) = length d" "d \<noteq> []"
    and bs: "bs = (basic_header 0 cs @ message_header 0 0xFFFFFF h @ store_le32 t) @ d @ rest" "length bs < 2 ^ 31"
  shows "\<exists>q r'. delivers bs r q rest r' \<and> body q = d \<and> pk_timestamp q = 0xFFFFFF"
proof -
  let ?k = "length (basic_header 0 cs)" and ?mh = "message_header 0 0xFFFFFF h"
  define prev where "prev = dflt RtmpMsgHeader0 (in_message_headers r) cs"
  define old where "old = \<lparr>h_cs_id = cs, h_timestamp = 0, h_msg_len = h_msg_len h, h_msg_type = 0, h_msg_sid = 0\<rparr>"
  have ex: "expressible 0 h prev" by (simp add: expressible_def)
  have sl: "sint (h_msg_len h) = int (length d)" "length d < 2 ^ 31"
    using sint_unat_small [of "h_msg_len h"] len k by simp_all
  obtain p0 :: rpacket where p0: "NewPacket (int (length d)) = Inr p0" "packet_ok p0" "body p0 = []"
    "pk_size p0 = 0" "unat (pk_capacity p0) = length d"
    using NewPacket_ok [of "int (length d)"] sl(2) by auto
  then have dl: "length (pk_data p0) = length d" by (simp add: packet_ok_def)
  have nm: "new_message cs (h_msg_len h) = Inr (SetExt old p0)"
    using p0 sl by (simp add: new_message_def old_def)
  have al: "alloc_len 0 (?mh @ x) prev (in_chunk_size r) = Inr (h_msg_len h)" for x
    using len by (intro alloc_message_header ex) auto
  obtain header delta where ph: "parse_header 0 (?mh @ x) prev dl old = Inr (0xFFFFFF, header, 0, header_need 0)"
    and ht: "h_timestamp header = 0xFFFFFF" for x dl
    using parse_message_header [OF ex _ len(1), of "0xFFFFFF" _ _ old] by auto
  define c1 where "c1 = r\<lparr>in_message_headers := (in_message_headers r)(cs \<mapsto> prev)\<rparr>"
  define c2 where "c2 = c1\<lparr>in_deltas := (in_deltas c1)(cs \<mapsto> 0), in_ext := (in_ext c1)(cs \<mapsto> True)\<rparr>"
  let ?n = "?k + 11"
  have mh: "length ?mh = 11" using length_message_header [of 0] by (simp add: header_need_def)
  have dr: "drop ?n bs = store_le32 t @ d @ rest" "drop ?k bs = ?mh @ store_le32 t @ d @ rest"
    "drop (?n + 4) bs = d @ rest"
    using mh by (simp_all add: bs le32.length_enc)
  obtain v where v: "ReadUint32T (store_le32 t @ d @ rest) = Inr v"
    using u32.dec_long [of "store_le32 t @ d @ rest"] by (auto simp: le32.length_enc)
  have te: "take_ext bs ?n 0 cs 0xFFFFFF header 0 (SetExt old p0) prev c1 =
      take_body bs (?n + 4) cs (SetExt old p0) header c2"
    using v mh by (simp add: take_ext_def ext_present_def apply_ext_def Let_def dr c2_def ctx_order bs
        le32.length_enc del: bindE_eq_Inr)
  have "?n + 4 \<le> length bs" using mh by (simp add: bs le32.length_enc)
  then obtain p' where p': "packet_ok p'" "body p' = d"
    "take_body bs (?n + 4) cs (SetExt old p0) header c2 = Inr (Chunk (?n + 4 + length d)
       (c2\<lparr>in_message_headers := (in_message_headers c2)(cs \<mapsto> header), in_packets := (in_packets c2)(cs := None)\<rparr>)
       (Some (finish header p')))"
    using take_body_deliver [of "SetExt old p0" c2 "?n + 4" bs "length d" d rest header cs] p0 dl dr(3) bs(2) k
    unfolding finish_def by (auto simp: c2_def c1_def)
  have "take_message 0 cs ?k bs r = take_ext bs ?n 0 cs 0xFFFFFF header 0 (SetExt old p0) prev c1"
    unfolding take_message_def Let_def prev_def [symmetric] dr(2)
    using al nm ph idle by (simp add: c1_def header_need_def del: bindE_eq_Inr)
  moreover have "parse_chunk bs r = take_message 0 cs ?k bs r"
    using parse_basic_header [of 0 cs "?mh @ store_le32 t @ d @ rest"] cs mh
    by (simp add: parse_chunk_def bs header_need_def le32.length_enc del: bindE_eq_Inr)
  ultimately have "\<exists>r'. parse_chunk bs r = Inr (Chunk (?n + 4 + length d) r' (Some (finish header p')))"
    using te p'(3) by auto
  moreover have "drop (?n + 4 + length d) bs = rest" using dr(3) by (metis append_eq_conv_conj drop_drop add.commute)
  ultimately obtain r' where "delivers bs r (finish header p') rest r'" using delivers.complete by fastforce
  moreover have "body (finish header p') = d" "pk_timestamp (finish header p') = 0xFFFFFF"
    using p'(2) ht by (simp_all add: finish_def SetTimeStamp_def SetPacketType_def body_def)
  ultimately show ?thesis by blast
qed

section \<open>Properties\<close>

text \<open>C11: messages sent arrive: a batch of messages, on any chunk streams and of any sizes but zero, with times
  below \<open>0xFFFFFF\<close> and chunk headers that fit the 4096-byte header buffer, is put on the wire without a fault, and a receiver in agreement with
  the sender parses from these bytes exactly these messages, in order, with their types, time
  stamps, stream ids and bodies, takes nothing of the bytes behind them, and agrees with the sender
  again.\<close>

theorem chunks_roundtrip:
  assumes "\<forall>(p, t, _) \<in> set ms. sendable p \<and> t < 0xFFFFFF" "in_sync s r"
    and "out_current s + batch_room (unat (out_chunk_size s)) ms \<le> 4096"
  shows "\<exists>s' W r'. build_all ms s = Inr s' \<and> concat (sending_bufs s') = concat (sending_bufs s) @ W \<and>
    in_sync s' r' \<and> (\<forall>rest. length (W @ rest) < 2 ^ 31 \<longrightarrow> (\<exists>qs. delivers_all (W @ rest) r qs rest r' \<and>
       list_all2 (\<lambda>(p, t, _) q. same_message p t q) ms qs))"
  using assms by (rule send_batch)

definition demo_packet :: "byte \<Rightarrow> byte list \<Rightarrow> rpacket" where
  "demo_packet ty d = \<lparr>pk_type = 0, pk_size = 0, pk_index = 0, pk_timestamp = 0,
     pk_capacity = of_nat (length d), pk_data = d,
     pk_ext = Some \<lparr>h_cs_id = 400, h_timestamp = 0, h_msg_len = of_nat (length d), h_msg_type = ty,
                h_msg_sid = 1\<rparr>\<rparr>"

lemma chunks_roundtrip_witness:
  "\<exists>s' W r'. build_all [(demo_packet 9 [1, 2, 3, 4, 5], 40, False), (demo_packet 9 [6, 7, 8, 9, 10], 60, False),
      (demo_packet 8 [11], 80, True)] (RtmpContext_new True True\<lparr>out_chunk_size := 2\<rparr>) = Inr s' \<and>
    concat (sending_bufs s') = concat (sending_bufs (RtmpContext_new True True\<lparr>out_chunk_size := 2\<rparr>)) @ W \<and>
    in_sync s' r' \<and> (\<forall>rest. 2 ^ 31 \<le> length (W @ rest) \<or>
      (\<exists>qs. delivers_all (W @ rest) (RtmpContext_new True False\<lparr>in_chunk_size := 2\<rparr>) qs rest r' \<and>
       list_all2 (\<lambda>(p, t, _) q. same_message p t q)
         [(demo_packet 9 [1, 2, 3, 4, 5], 40, False), (demo_packet 9 [6, 7, 8, 9, 10], 60, False),
          (demo_packet 8 [11], 80, True)] qs))"
  unfolding disj_small [symmetric]
  by (rule chunks_roundtrip)
    (simp_all add: sendable_def demo_packet_def in_sync_def RtmpContext_new_def batch_room_def
      header_room_def payload_def)

text \<open>compression is used where it can be: a message of the same kind and length as its
  predecessor on the chunk stream, at the same distance, costs one to three bytes of header for its
  first chunk.\<close>

lemma steady_stream_is_type3:
  assumes "pk_ext p = Some h" "out_message_headers s (h_cs_id h) = Some prev"
    and "h_msg_sid h = h_msg_sid prev" "h_msg_type h = h_msg_type prev" "h_msg_len h = h_msg_len prev"
    and "h_timestamp prev \<le> t" "t - h_timestamp prev = dflt 0 (out_deltas s) (h_cs_id h)"
    and "unat (h_msg_len h) \<le> length (pk_data p)" "unat (h_msg_len h) \<le> unat (out_chunk_size s)"
    and "t < 0xFFFFFF" "out_current s + 3 \<le> 4096"
  shows "\<exists>s'. BuildChunk_move p t False s = Inr (True, s') \<and>
    sending_bufs s' = sending_bufs s @ [basic_header 3 (h_cs_id h), payload p]"
proof -
  let ?d = "t - h_timestamp prev"
  have "?d \<le> t" using assms(6) by (simp add: word_le_nat_alt unat_sub)
  then have "?d < 0xFFFFFF" using assms(10) by (rule order.strict_trans1)
  then have d: "\<not> 0xFFFFFF \<le> ?d" "?d \<noteq> 0xFFFFFF" by auto
  have cf: "choose_fmt True t h prev (dflt 0 (out_deltas s) (h_cs_id h)) = (3, ?d)"
    using assms by (simp add: choose_fmt_def)
  have mh: "message_header 3 v h = []" for v by (simp add: message_header_def)
  have bh: "\<not> 4096 < out_current s + length (basic_header 3 (h_cs_id h))"
    using assms(11) length_basic_header(2) [of 3 "h_cs_id h"] by linarith
  have cb: "chunk_body h (pk_data p) [] (unat (out_chunk_size s)) 0 pos bufs = Inr (pos, bufs @ [payload p])"
    for pos bufs
    using assms by (simp add: chunk_body.simps [of h] Let_def min_def payload_def del: bindE_eq_Inr)
  show ?thesis
    using assms(1-3,6) cf d bh cb
    by (simp add: BuildChunk_move_def emit_chunks_def Let_def mh ext_timestamp_def del: bindE_eq_Inr)
qed

lemma steady_stream_is_type3_witness:
  "\<exists>s'. BuildChunk_move (demo_packet 8 [1, 2]) 46 False
      (RtmpContext_new True True\<lparr>out_message_headers := [400 \<mapsto> \<lparr>h_cs_id = 400, h_timestamp = 23, h_msg_len = 2,
         h_msg_type = 8, h_msg_sid = 1\<rparr>], out_deltas := [400 \<mapsto> 23]\<rparr>) = Inr (True, s') \<and>
     sending_bufs s' = [] @ [basic_header 3 400, payload (demo_packet 8 [1, 2])]"
  using steady_stream_is_type3 [of "demo_packet 8 [1, 2]" "\<lparr>h_cs_id = 400, h_timestamp = 0, h_msg_len = 2,
      h_msg_type = 8, h_msg_sid = 1\<rparr>" "RtmpContext_new True True\<lparr>out_message_headers := [400 \<mapsto> \<lparr>h_cs_id = 400, h_timestamp = 23, h_msg_len = 2,
         h_msg_type = 8, h_msg_sid = 1\<rparr>], out_deltas := [400 \<mapsto> 23]\<rparr>" "\<lparr>h_cs_id = 400, h_timestamp = 23, h_msg_len = 2,
         h_msg_type = 8, h_msg_sid = 1\<rparr>" 46]
  by (simp add: demo_packet_def RtmpContext_new_def)

text \<open>the public \<open>BuildChunk (const PacketPtr &...)\<close> never compresses a header: it behaves as the
  private overload does with \<open>fmt0\<close>, except that for the first message of a chunk stream, unless
  \<open>fmt0\<close> is asked for, it dereferences the null previous header.\<close>

theorem BuildChunk_copy_never_compresses:
  assumes "pk_ext p = Some h"
  shows "BuildChunk_copy p t fmt0 c =
    (if \<not> fmt0 \<and> out_message_headers c (h_cs_id h) = None then Inl NullDeref
     else BuildChunk_move p t True c)"
  using assms by (rule BuildChunk_copy_move)

lemma BuildChunk_copy_never_compresses_witness:
  "BuildChunk_copy (demo_packet 9 [1]) 0 False (RtmpContext_new True True) = Inl NullDeref"
  using BuildChunk_copy_never_compresses [of "demo_packet 9 [1]" _ 0 False "RtmpContext_new True True"]
  by (simp add: demo_packet_def RtmpContext_new_def)

text \<open>after four and a half hours the clock stops: a message that fits one chunk and is sent with
  an absolute timestamp of \<open>0xFFFFFF\<close> milliseconds or more arrives with the timestamp \<open>0xFFFFFF\<close>; the
  receiver reads the extended timestamp and drops it.\<close>

theorem late_timestamp_lost:
  assumes "sendable p" "in_sync s r" "0xFFFFFF \<le> t" "length (payload p) \<le> unat (out_chunk_size s)"
    and "out_current s + 18 \<le> 4096"
  shows "\<exists>s' W. BuildChunk_move p t True s = Inr (True, s') \<and>
    concat (sending_bufs s') = concat (sending_bufs s) @ W \<and>
    (\<forall>rest. length (W @ rest) < 2 ^ 31 \<longrightarrow>
      (\<exists>q r'. delivers (W @ rest) r q rest r' \<and> body q = payload p \<and> pk_timestamp q = 0xFFFFFF))"
proof -
  obtain h where h: "pk_ext p = Some h" "2 \<le> h_cs_id h" "h_cs_id h < 65600" "0 < h_msg_len h"
    "h_msg_len h < 2 ^ 24" "unat (h_msg_len h) \<le> length (pk_data p)"
    using assms(1) by (auto simp: sendable_def)
  have d: "take (unat (h_msg_len h)) (pk_data p) = payload p" "length (payload p) = unat (h_msg_len h)"
    "payload p \<noteq> []"
    using h by (auto simp: payload_def word_less_nat_alt)
  have k: "unat (in_chunk_size r) < 2 ^ 31" "length (payload p) \<le> unat (in_chunk_size r)"
    and idle: "in_packets r (h_cs_id h) = None"
    using assms(2,4) by (auto simp: in_sync_def)
  obtain s1 where s1: "emit_chunks h p t False s = Inr s1" "sending_bufs s1 = sending_bufs s @
    [basic_header 0 (h_cs_id h) @ message_header 0 0xFFFFFF h @ store_le32 t, payload p]"
    using emit_late [OF h(6) _ assms(3,5)] assms(4) d by auto
  let ?s = "s1\<lparr>out_sending_packets := out_sending_packets s1 @ [p]\<rparr>"
  let ?W = "(basic_header 0 (h_cs_id h) @ message_header 0 0xFFFFFF h @ store_le32 t) @ payload p"
  have "BuildChunk_move p t True s = Inr (True, ?s)"
    using h(1) s1(1) by (simp add: BuildChunk_move_def del: bindE_eq_Inr)
  moreover have "concat (sending_bufs ?s) = concat (sending_bufs s) @ ?W" using s1(2) by simp
  moreover have "\<exists>q r'. delivers (?W @ rest) r q rest r' \<and> body q = payload p \<and> pk_timestamp q = 0xFFFFFF"
    if "length (?W @ rest) < 2 ^ 31" for rest
    by (rule parse_late [OF h(2,3) k idle h(5) d(2) [symmetric] d(3) _ that]) simp
  ultimately show ?thesis by blast
qed

lemma late_timestamp_lost_witness:
  "\<exists>s' W. BuildChunk_move (demo_packet 9 [1, 2, 3]) 20000000 True (RtmpContext_new True True) = Inr (True, s') \<and>
    concat (sending_bufs s') = concat (sending_bufs (RtmpContext_new True True)) @ W \<and>
    (\<forall>rest. 2 ^ 31 \<le> length (W @ rest) \<or>
      (\<exists>q r'. delivers (W @ rest) (RtmpContext_new True False\<lparr>in_chunk_size := 4096\<rparr>) q rest r' \<and>
        body q = payload (demo_packet 9 [1, 2, 3]) \<and> pk_timestamp q = 0xFFFFFF))"
  unfolding disj_small [symmetric]
  by (rule late_timestamp_lost)
    (simp_all add: sendable_def demo_packet_def in_sync_def RtmpContext_new_def payload_def)

end
