(* ===== verification/RtmpContext.thy ===== *)
theory RtmpContext
  imports RtmpWire StrUtils
begin

text \<open>
  Commands and control messages: the rest of \<open>src/mmedia/rtmp/RtmpContext.cpp\<close>. Every \<open>Send...\<close>
  builds a packet and queues it with \<open>PushOutQueue\<close>; every \<open>Handle...\<close> reacts to a received
  message. A double is its bit pattern. A null pointer that the code dereferences (a property that
  is not there, a missing handler) is the fault \<open>NullDeref\<close>.
\<close>

section \<open>Constants\<close>

abbreviation kRtmpEventTypeStreamBegin :: u16 where "kRtmpEventTypeStreamBegin \<equiv> 0"
abbreviation kRtmpEventTypeSetBufferLength :: u16 where "kRtmpEventTypeSetBufferLength \<equiv> 3"
abbreviation kRtmpEventTypePingRequest :: u16 where "kRtmpEventTypePingRequest \<equiv> 5"
abbreviation kRtmpEventTypePingResponse :: u16 where "kRtmpEventTypePingResponse \<equiv> 6"

definition dbl0 :: dbl where "dbl0 = 0"
definition dbl1 :: dbl where "dbl1 = 0x3FF0000000000000"
definition dbl3 :: dbl where "dbl3 = 0x4008000000000000"
definition dbl4 :: dbl where "dbl4 = 0x4010000000000000"
definition dbl5 :: dbl where "dbl5 = 0x4014000000000000"
definition dbl31 :: dbl where "dbl31 = 0x403F000000000000"
definition dbl252 :: dbl where "dbl252 = 0x406F800000000000"
definition dbl1639 :: dbl where "dbl1639 = 0x40999C0000000000"
definition dbl_m1000 :: dbl where "dbl_m1000 = 0xC08F400000000000"

lemmas dbl_defs = dbl0_def dbl1_def dbl3_def dbl4_def dbl5_def dbl31_def dbl252_def dbl1639_def dbl_m1000_def

section \<open>Control messages\<close>

text \<open>What every sender does: a packet of the given capacity, its header, its body written through a
  pointer into the data, the length set in both, and into the queue.\<close>

definition push_message :: "nat \<Rightarrow> u32 \<Rightarrow> byte \<Rightarrow> u32 \<Rightarrow> byte list \<Rightarrow> rtmp_ctx \<Rightarrow> rtmp_ctx res" where
  "push_message capacity csid type sid content c =
     bindE (NewPacket (int capacity)) (\<lambda>packet.
     bindE (write_data 0 content packet) (\<lambda>packet.
       PushOutQueue (SetPacketSize (length content)
         (SetExt \<lparr>h_cs_id = csid, h_timestamp = 0, h_msg_len = of_nat (length content),
                  h_msg_type = type, h_msg_sid = sid\<rparr> packet)) c))"

definition SendSetChunkSize :: "rtmp_ctx \<Rightarrow> rtmp_ctx res" where
  "SendSetChunkSize c =
     push_message 64 kRtmpCSIDCommand kRtmpMsgTypeChunkSize 0 (WriteUint32T (out_chunk_size c)) c"

definition SendAckWindowSize :: "rtmp_ctx \<Rightarrow> rtmp_ctx res" where
  "SendAckWindowSize c =
     push_message 64 kRtmpCSIDCommand kRtmpMsgTypeWindowACKSize 0 (WriteUint32T (ack_size c)) c"

definition SendSetPeerBandwidth :: "rtmp_ctx \<Rightarrow> rtmp_ctx res" where
  "SendSetPeerBandwidth c =
     push_message 64 kRtmpCSIDCommand kRtmpMsgTypeSetPeerBW 0 (WriteUint32T (ack_size c) @ [2]) c"

definition SendBytesRecv :: "rtmp_ctx \<Rightarrow> rtmp_ctx res" where
  "SendBytesRecv c =
     (if sint (ack_size c) \<le> sint (in_bytes c) then
        bindE (push_message 64 kRtmpCSIDCommand kRtmpMsgTypeBytesRead 0 (WriteUint32T (in_bytes c)) c) (\<lambda>c.
          Inr (c\<lparr>in_bytes := 0\<rparr>))
      else Inr c)"

text \<open>\<open>SendUserCtrlMessage\<close> writes every field at \<open>body\<close>, not at the advancing \<open>p\<close>: a later field
  overwrites the earlier ones, and the length counts bytes that were never written (zeros of the
  fresh packet).\<close>

definition user_ctrl_body :: "u16 \<Rightarrow> u32 \<Rightarrow> u32 \<Rightarrow> byte list" where
  "user_ctrl_body type value1 value2 =
     (let content = replicate 64 0;
          content = overwrite 0 (WriteUint16T type) content;
          content = overwrite 0 (WriteUint32T value1) content;
          content = (if type = kRtmpEventTypeSetBufferLength
                     then overwrite 0 (WriteUint32T value2) content else content)
      in take (if type = kRtmpEventTypeSetBufferLength then 10 else 6) content)"

definition SendUserCtrlMessage :: "u16 \<Rightarrow> u32 \<Rightarrow> u32 \<Rightarrow> rtmp_ctx \<Rightarrow> rtmp_ctx res" where
  "SendUserCtrlMessage type value1 value2 c =
     push_message 64 kRtmpCSIDCommand kRtmpMsgTypeUserControl 0 (user_ctrl_body type value1 value2) c"

definition HandleChunkSize :: "rpacket \<Rightarrow> rtmp_ctx \<Rightarrow> rtmp_ctx res" where
  "HandleChunkSize packet c =
     (if 4 \<le> PacketSize packet then
        bindE (ReadUint32T (pk_data packet)) (\<lambda>sz. Inr (c\<lparr>in_chunk_size := sz\<rparr>))
      else Inr c)"

definition HandleAckWindowSize :: "rpacket \<Rightarrow> rtmp_ctx \<Rightarrow> rtmp_ctx res" where
  "HandleAckWindowSize packet c =
     (if 4 \<le> PacketSize packet then
        bindE (ReadUint32T (pk_data packet)) (\<lambda>sz. Inr (c\<lparr>ack_size := sz\<rparr>))
      else Inr c)"

text \<open>Of the user control events only a ping request has an effect.\<close>

definition HandleUserMessage :: "rpacket \<Rightarrow> rtmp_ctx \<Rightarrow> rtmp_ctx res" where
  "HandleUserMessage packet c =
     (if PacketSize packet < 6 then Inr c
      else bindE (ReadUint16T (pk_data packet)) (\<lambda>type.
           bindE (ReadUint32T (drop 2 (pk_data packet))) (\<lambda>val.
             if type = kRtmpEventTypePingRequest
             then SendUserCtrlMessage kRtmpEventTypePingResponse val 0 c
             else Inr c)))"

section \<open>Commands\<close>

text \<open>A property that must be there: \<open>obj.Property (...)->...\<close>.\<close>

definition the_prop :: "amf_any option \<Rightarrow> amf_any res" where
  "the_prop p = (case p of None \<Rightarrow> Inl NullDeref | Some v \<Rightarrow> Inr v)"

definition connect_body :: "str \<Rightarrow> str \<Rightarrow> byte list" where
  "connect_body app_name url =
     EncodeString (lit ''connect'') @ EncodeNumber dbl1 @ [kAMFObject] @
     EncodeNamedString (lit ''app'') app_name @ EncodeNamedString (lit ''tcUrl'') url @
     EncodeNamedBoolean (lit ''fpad'') False @ EncodeNamedNumber (lit ''capabilities'') dbl31 @
     EncodeNamedNumber (lit ''audioCodecs'') dbl1639 @ EncodeNamedNumber (lit ''videoCodecs'') dbl252 @
     EncodeNamedNumber (lit ''videoFunction'') dbl1 @ [0, 0, 9]"

definition SendConnect :: "rtmp_ctx \<Rightarrow> rtmp_ctx res" where
  "SendConnect c =
     bindE (SendSetChunkSize c) (\<lambda>c.
       push_message 1024 kRtmpCSIDAMFIni kRtmpMsgTypeAMFMessage 0 (connect_body (app c) (tc_url c)) c)"

definition connect_result_body :: "bool \<Rightarrow> byte list" where
  "connect_result_body amf3 =
     EncodeString (lit ''_result'') @ EncodeNumber dbl1 @ [kAMFObject] @
     EncodeNamedString (lit ''fmsVer'') (lit ''FMS/3,0,1,123'') @
     EncodeNamedNumber (lit ''capabilities'') dbl31 @ [0, 0, 9] @ [kAMFObject] @
     EncodeNamedString (lit ''level'') (lit ''status'') @
     EncodeNamedString (lit ''code'') (lit ''NetConnection.Connect.Success'') @
     EncodeNamedString (lit ''description'') (lit ''Connection succeeded.'') @
     EncodeNamedNumber (lit ''objectEncoding'') (if amf3 then dbl3 else dbl0) @ [0, 0, 9]"

definition HandleConnect :: "amf_any list \<Rightarrow> rtmp_ctx \<Rightarrow> rtmp_ctx res" where
  "HandleConnect obj c =
     bindE (the_prop (Property (lit ''tcUrl'') obj)) (\<lambda>url.
     let c = c\<lparr>tc_url := String url\<rparr> in
     bindE (the_prop (PropertyAt 2 obj)) (\<lambda>sub.
     bindE (case Object sub of
         None \<Rightarrow> Inr (False, c)
       | Some sub_obj \<Rightarrow>
           bindE (the_prop (Property (lit ''app'') sub_obj)) (\<lambda>v.
             Inr (case Property (lit ''objectEncoding'') sub_obj of
                    None \<Rightarrow> False | Some n \<Rightarrow> Number n = dbl3, c\<lparr>app := String v\<rparr>))) (\<lambda>(amf3, c).
     bindE (SendAckWindowSize c) (\<lambda>c.
     bindE (SendSetPeerBandwidth c) (\<lambda>c.
     bindE (SendSetChunkSize c) (\<lambda>c.
       push_message 1024 kRtmpCSIDAMFIni kRtmpMsgTypeAMFMessage 0 (connect_result_body amf3) c))))))"

definition create_stream_body :: "byte list" where
  "create_stream_body = EncodeString (lit ''createStream'') @ EncodeNumber dbl4 @ [kAMFNull]"

definition SendCreateStream :: "rtmp_ctx \<Rightarrow> rtmp_ctx res" where
  "SendCreateStream c =
     push_message 1024 kRtmpCSIDAMFIni kRtmpMsgTypeAMFMessage 0 create_stream_body c"

definition create_stream_result_body :: "dbl \<Rightarrow> byte list" where
  "create_stream_result_body tran_id =
     EncodeString (lit ''_result'') @ EncodeNumber tran_id @ [kAMFNull] @ EncodeNumber dbl1"

definition HandleCreateStream :: "amf_any list \<Rightarrow> rtmp_ctx \<Rightarrow> rtmp_ctx res" where
  "HandleCreateStream obj c =
     bindE (the_prop (PropertyAt 1 obj)) (\<lambda>v.
       push_message 1024 kRtmpCSIDAMFIni kRtmpMsgTypeAMFMessage 0 (create_stream_result_body (Number v)) c)"

definition status_body :: "str \<Rightarrow> str \<Rightarrow> str \<Rightarrow> byte list" where
  "status_body level code description =
     EncodeString (lit ''onStatus'') @ EncodeNumber dbl0 @ [kAMFNull] @ [kAMFObject] @
     EncodeNamedString (lit ''level'') level @ EncodeNamedString (lit ''code'') code @
     EncodeNamedString (lit ''description'') description @ [0, 0, 9]"

definition SendStatus :: "str \<Rightarrow> str \<Rightarrow> str \<Rightarrow> rtmp_ctx \<Rightarrow> rtmp_ctx res" where
  "SendStatus level code description c =
     push_message 1024 kRtmpCSIDAMFIni kRtmpMsgTypeAMFMessage 1 (status_body level code description) c"

definition play_body :: "str \<Rightarrow> byte list" where
  "play_body stream =
     EncodeString (lit ''play'') @ EncodeNumber dbl0 @ [kAMFNull] @ EncodeString stream @
     EncodeNumber dbl_m1000"

definition SendPlay :: "rtmp_ctx \<Rightarrow> rtmp_ctx res" where
  "SendPlay c = push_message 1024 kRtmpCSIDAMFIni kRtmpMsgTypeAMFMessage 1 (play_body (name c)) c"

definition publish_body :: "str \<Rightarrow> byte list" where
  "publish_body stream =
     EncodeString (lit ''publish'') @ EncodeNumber dbl5 @ [kAMFNull] @ EncodeString stream @
     EncodeString (lit ''live'')"

definition SendPublish :: "rtmp_ctx \<Rightarrow> rtmp_ctx res" where
  "SendPublish c = push_message 1024 kRtmpCSIDAMFIni kRtmpMsgTypeAMFMessage 1 (publish_body (name c)) c"

text \<open>The session name \<open>domain/app/stream\<close> of a URL and a stream name. The first part cuts
  a path in front of the application name and the parameters off the stream name; the second takes
  domain, application and stream from the pieces of the URL, by their number; the port goes.\<close>

definition cut_param :: "rtmp_ctx \<Rightarrow> rtmp_ctx" where
  "cut_param c =
     (let c = (case find_first (\<lambda>x. x = 47) (app c) of
                 Some pos \<Rightarrow> c\<lparr>app := drop (pos + 1) (app c)\<rparr> | None \<Rightarrow> c);
          c = c\<lparr>param := []\<rparr>
      in case find_first (\<lambda>x. x = 63) (name c) of
           Some pos \<Rightarrow> c\<lparr>param := drop (pos + 1) (name c), name := take pos (name c)\<rparr>
         | None \<Rightarrow> c)"

definition url_parts :: "rtmp_ctx \<Rightarrow> str \<times> rtmp_ctx" where
  "url_parts c =
     (let list = SplitString (tc_url c) (lit ''/'')
      in if length list = 6 then (list ! 3, c\<lparr>app := list ! 4, name := list ! 5\<rparr>)
         else if length list = 5 then (list ! 3, c\<lparr>app := list ! 4\<rparr>)
         else if length list = 4 then (list ! 2, c\<lparr>app := list ! 3\<rparr>)
         else ([], c))"

definition ParseNameAndTcUrl :: "rtmp_ctx \<Rightarrow> rtmp_ctx" where
  "ParseNameAndTcUrl c =
     (let (domain, c) = url_parts (cut_param c);
          domain = (case find_first (\<lambda>x. x = 58) domain of Some p \<Rightarrow> take p domain | None \<Rightarrow> domain)
      in c\<lparr>session_name := domain @ lit ''/'' @ app c @ lit ''/'' @ name c\<rparr>)"

text \<open>A handler call the code guards with \<open>if(rtmp_handler_)\<close>.\<close>

definition notify :: "rtmp_event \<Rightarrow> rtmp_ctx \<Rightarrow> rtmp_ctx" where
  "notify e c = (if has_handler c then log_event e c else c)"

definition HandlePlay :: "amf_any list \<Rightarrow> rtmp_ctx \<Rightarrow> rtmp_ctx res" where
  "HandlePlay obj c =
     bindE (the_prop (PropertyAt 1 obj)) (\<lambda>tran_id.
     bindE (the_prop (PropertyAt 3 obj)) (\<lambda>v.
     let c = (ParseNameAndTcUrl (c\<lparr>name := String v\<rparr>))\<lparr>is_player := True\<rparr> in
     bindE (SendUserCtrlMessage kRtmpEventTypeStreamBegin 1 0 c) (\<lambda>c.
     bindE (SendStatus (lit ''status'') (lit ''NetStream.Play.Start'') (lit ''Start Playing'') c) (\<lambda>c.
       Inr (notify (EvPlay (session_name c) (param c)) c)))))"

definition HandlePublish :: "amf_any list \<Rightarrow> rtmp_ctx \<Rightarrow> rtmp_ctx res" where
  "HandlePublish obj c =
     bindE (the_prop (PropertyAt 1 obj)) (\<lambda>tran_id.
     bindE (the_prop (PropertyAt 3 obj)) (\<lambda>v.
     let c = (ParseNameAndTcUrl (c\<lparr>name := String v\<rparr>))\<lparr>is_player := False\<rparr> in
     bindE (SendStatus (lit ''status'') (lit ''NetStream.Publish.Start'') (lit ''Start Publishing'') c) (\<lambda>c.
       Inr (notify (EvPublish (session_name c) (param c)) c))))"

definition HandleResult :: "amf_any list \<Rightarrow> rtmp_ctx \<Rightarrow> rtmp_ctx res" where
  "HandleResult obj c =
     bindE (the_prop (PropertyAt 1 obj)) (\<lambda>v.
       let id = Number v
       in if id = dbl1 then SendCreateStream c
          else if id = dbl4 then (if is_player c then SendPlay c else SendPublish c)
          else if id = dbl5 then Inr (notify EvPublishPrepare c)
          else Inr c)"

text \<open>\<open>obj.Property (3)->Object ()->Property (key)->String ()\<close>\<close>

definition info_string :: "amf_any list \<Rightarrow> str \<Rightarrow> str res" where
  "info_string obj key =
     bindE (the_prop (PropertyAt 3 obj)) (\<lambda>v.
     case Object v of
       None \<Rightarrow> Inl NullDeref
     | Some info \<Rightarrow> bindE (the_prop (Property key info)) (\<lambda>p. Inr (String p)))"

definition HandleError :: "amf_any list \<Rightarrow> rtmp_ctx \<Rightarrow> rtmp_ctx res" where
  "HandleError obj c =
     bindE (info_string obj (lit ''description'')) (\<lambda>description. Inr (log_event EvForceClose c))"

definition HandleStatus :: "amf_any list \<Rightarrow> rtmp_ctx \<Rightarrow> rtmp_ctx res" where
  "HandleStatus obj c =
     bindE (info_string obj (lit ''code'')) (\<lambda>code.
     bindE (info_string obj (lit ''level'')) (\<lambda>level.
       if code = lit ''NetStream.Publish.Start'' then
         (if has_handler c then Inr (log_event (EvPublish (session_name c) (param c)) c) else Inl NullDeref)
       else if code = lit ''NetStream.Play.Start'' then
         (if has_handler c then Inr (log_event (EvPlay (session_name c) (param c)) c) else Inl NullDeref)
       else Inr c))"

text \<open>The map \<open>commands_\<close>: the handler of a method, if it has one.\<close>

definition commands :: "str \<Rightarrow> (amf_any list \<Rightarrow> rtmp_ctx \<Rightarrow> rtmp_ctx res) option" where
  "commands method =
     (if method = lit ''connect'' then Some HandleConnect
      else if method = lit ''createStream'' then Some HandleCreateStream
      else if method = lit ''_result'' then Some HandleResult
      else if method = lit ''_error'' then Some HandleError
      else if method = lit ''onStatus'' then Some HandleStatus
      else if method = lit ''play'' then Some HandlePlay
      else if method = lit ''publish'' then Some HandlePublish
      else None)"

definition HandleAmfCommand :: "rpacket \<Rightarrow> bool \<Rightarrow> rtmp_ctx \<Rightarrow> rtmp_ctx res" where
  "HandleAmfCommand packet amf3 c =
     (let content = (if amf3 then drop 1 (pk_data packet) else pk_data packet);
          msg_len = (if amf3 then PacketSize packet - 1 else PacketSize packet)
      in bindE (Decode content msg_len False 0 []) (\<lambda>(r, obj).
           if r < 0 then Inr c
           else bindE (the_prop (PropertyAt 0 obj)) (\<lambda>v.
             case commands (String v) of None \<Rightarrow> Inr c | Some handler \<Rightarrow> handler obj c)))"

definition Play :: "str \<Rightarrow> rtmp_ctx \<Rightarrow> rtmp_ctx" where
  "Play url c = ParseNameAndTcUrl (c\<lparr>is_client := True, is_player := True, tc_url := url\<rparr>)"

definition Publish :: "str \<Rightarrow> rtmp_ctx \<Rightarrow> rtmp_ctx" where
  "Publish url c = ParseNameAndTcUrl (c\<lparr>is_client := True, is_player := False, tc_url := url\<rparr>)"

section \<open>Completed messages\<close>

text \<open>The packet type, from the message type.\<close>

definition media_type :: "rpacket \<Rightarrow> rpacket" where
  "media_type packet =
     (let t = pk_type packet
      in if t = ucast kRtmpMsgTypeAudio then SetPacketType kPacketTypeAudio packet
         else if t = ucast kRtmpMsgTypeVideo then SetPacketType kPacketTypeVideo packet
         else if t = ucast kRtmpMsgTypeAMFMeta then SetPacketType kPacketTypeMeta packet
         else if t = ucast kRtmpMsgTypeAMF3Meta then SetPacketType kPacketTypeMeta3 packet
         else packet)"

definition MessageComplete :: "rpacket \<Rightarrow> rtmp_ctx \<Rightarrow> rtmp_ctx res" where
  "MessageComplete packet c =
     (let t = pk_type packet
      in if t = ucast kRtmpMsgTypeChunkSize then HandleChunkSize packet c
         else if t = ucast kRtmpMsgTypeBytesRead then Inr c
         else if t = ucast kRtmpMsgTypeUserControl then HandleUserMessage packet c
         else if t = ucast kRtmpMsgTypeWindowACKSize then HandleAckWindowSize packet c
         else if t = ucast kRtmpMsgTypeAMF3Message then HandleAmfCommand packet True c
         else if t = ucast kRtmpMsgTypeAMFMessage then HandleAmfCommand packet False c
         else if t = ucast kRtmpMsgTypeAMFMeta \<or> t = ucast kRtmpMsgTypeAMF3Meta
              \<or> t = ucast kRtmpMsgTypeAudio \<or> t = ucast kRtmpMsgTypeVideo
         then Inr (notify (EvRecv (media_type packet)) c)
         else Inr c)"

text \<open>A chunk takes at least its basic header, from any state.\<close>

lemma take_body_progress:
  "take_body bs parsed csid packet header c = Inr (Chunk n c' m) \<Longrightarrow> parsed \<le> n"
  by (auto simp: take_body_def Let_def split: if_splits)

lemma take_ext_progress:
  "take_ext bs parsed fmt csid ts header delta packet prev c = Inr (Chunk n c' m) \<Longrightarrow> parsed \<le> n"
  by (auto simp: take_ext_def Let_def apply_ext_def split: if_splits dest!: take_body_progress)

lemma parse_basic_pos: "parse_basic bs = Inr (Some (fmt, csid, k)) \<Longrightarrow> 1 \<le> k"
  by (auto simp: parse_basic_def Let_def split: if_splits)

lemma parse_chunk_progress:
  assumes "parse_chunk bs c = Inr (Chunk n c' m)"
  shows "1 \<le> n"
proof -
  from assms obtain r where r: "parse_basic bs = Inr (Some r)"
    by (auto simp: parse_chunk_def split: option.splits)
  obtain fmt csid k where "r = (fmt, csid, k)" by (cases r)
  with r assms have "parse_basic bs = Inr (Some (fmt, csid, k))"
    "take_message fmt csid k bs c = Inr (Chunk n c' m)"
    by (simp_all add: parse_chunk_def split: if_splits)
  moreover from this(2) have "k \<le> n"
    unfolding take_message_def Let_def
    by (elim bindE_InrE) (auto split: prod.splits dest!: take_ext_progress)
  ultimately show ?thesis using parse_basic_pos by fastforce
qed

text \<open>The loop of \<open>ParseMessage\<close>: the bytes left, and the state.\<close>

function parse_loop :: "byte list \<Rightarrow> rtmp_ctx \<Rightarrow> (byte list \<times> rtmp_ctx) res" where
  "parse_loop bs c =
     (if 1 < length bs then
        bindE (parse_chunk bs c) (\<lambda>r. case r of
          NeedMore c \<Rightarrow> Inr (bs, c)
        | Chunk n c m \<Rightarrow>
            bindE (case m of None \<Rightarrow> Inr c | Some packet \<Rightarrow> MessageComplete packet c) (\<lambda>c.
              parse_loop (drop n bs) c))
      else Inr (bs, c))"
  by pat_completeness auto
termination
  by (relation "measure (\<lambda>(bs, c). length bs)") (auto dest: parse_chunk_progress)

declare parse_loop.simps [simp del]

definition ParseMessage :: "byte list \<Rightarrow> rtmp_ctx \<Rightarrow> (byte list \<times> rtmp_ctx) res" where
  "ParseMessage bs c =
     bindE (SendBytesRecv (c\<lparr>in_bytes := in_bytes c + (of_nat (length bs) - last_left c)\<rparr>)) (\<lambda>c.
       parse_loop bs c)"

text \<open>\<open>RtmpContext::Parse\<close> in the state \<open>kRtmpMessage\<close>.\<close>

definition Parse :: "byte list \<Rightarrow> rtmp_ctx \<Rightarrow> (byte list \<times> rtmp_ctx) res" where
  "Parse bs c = bindE (ParseMessage bs c) (\<lambda>(left, c). Inr (left, c\<lparr>last_left := of_nat (length left)\<rparr>))"

section \<open>The loop\<close>

lemma take_body_within:
  "take_body bs parsed csid packet header c = Inr (Chunk n c' m) \<Longrightarrow> parsed \<le> length bs \<Longrightarrow> n \<le> length bs"
  by (auto simp: take_body_def Let_def mem_read_eq_Inr le_diff_conv2 add.commute split: if_splits)

lemma take_ext_within:
  assumes "take_ext bs parsed fmt csid ts header delta packet prev c = Inr (Chunk n c' m)" "parsed \<le> length bs"
  shows "n \<le> length bs"
  using assms
  by (auto simp: take_ext_def Let_def apply_ext_def split: if_splits dest!: take_body_within)

lemma parse_chunk_within:
  assumes "parse_chunk bs c = Inr (Chunk n c' m)"
  shows "n \<le> length bs \<and> 1 < length bs"
proof -
  from assms obtain r where r: "parse_basic bs = Inr (Some r)"
    by (auto simp: parse_chunk_def split: option.splits)
  obtain fmt csid k where "r = (fmt, csid, k)" by (cases r)
  with r assms have k: "1 \<le> k" "k < length bs" "header_need fmt \<le> length bs - k"
    and t: "take_message fmt csid k bs c = Inr (Chunk n c' m)"
    by (auto simp: parse_chunk_def split: if_splits dest: parse_basic_pos)
  from t obtain packet header prev delta h2 d2 ts k2 c1
    where ph: "parse_header fmt (drop k bs) prev delta header = Inr (ts, h2, d2, k2)"
    and te: "take_ext bs (k + k2) fmt csid ts h2 d2 packet prev c1 = Inr (Chunk n c' m)"
    unfolding take_message_def Let_def by (elim bindE_InrE) (auto split: prod.splits)
  have "k2 = header_need fmt" using parse_header_total [of fmt "drop k bs" prev delta header] k(3) ph by auto
  then show ?thesis using take_ext_within [OF te] k by auto
qed

text \<open>One round of the loop.\<close>

lemma parse_loop_Chunk:
  assumes "parse_chunk bs c = Inr (Chunk n c1 m)"
  shows "parse_loop bs c = bindE (case m of None \<Rightarrow> Inr c1 | Some packet \<Rightarrow> MessageComplete packet c1)
    (\<lambda>c. parse_loop (drop n bs) c)"
  using assms parse_chunk_within [OF assms] by (simp add: parse_loop.simps [of bs c] del: bindE_eq_Inr)

lemma parse_loop_delivers:
  "delivers bs c m rest c' \<Longrightarrow> parse_loop bs c = bindE (MessageComplete m c') (\<lambda>c. parse_loop rest c)"
  by (induction rule: delivers.induct) (simp_all add: parse_loop_Chunk)

lemma parse_loop_append:
  assumes "parse_loop bs c = Inr (left, c')" "length (bs @ rest) < 2 ^ 31"
  shows "parse_loop (bs @ rest) c = parse_loop (left @ rest) c'"
  using assms
proof (induction bs c arbitrary: left c' rule: parse_loop.induct)
  case (1 bs c)
  show ?case
  proof (cases "1 < length bs")
    case False
    with 1(2) show ?thesis by (simp add: parse_loop.simps [of bs c])
  next
    case True
    then have ne: "bs \<noteq> []" by auto
    note inc = parse_chunk_incremental [OF ne 1(3), of c]
    from 1(2) True obtain r where r: "parse_chunk bs c = Inr r" by (auto simp: parse_loop.simps [of bs c])
    show ?thesis
    proof (cases r)
      case (NeedMore c1)
      with 1(2) True r have "left = bs" "c' = c1" by (auto simp: parse_loop.simps [of bs c])
      moreover have "parse_chunk (bs @ rest) c1 = parse_chunk (bs @ rest) c" using inc r NeedMore by simp
      ultimately show ?thesis using True
        by (simp add: parse_loop.simps [of "bs @ rest"] del: bindE_eq_Inr)
    next
      case (Chunk n c1 m)
      let ?mc = "case m of None \<Rightarrow> Inr c1 | Some packet \<Rightarrow> MessageComplete packet c1"
      have pc: "parse_chunk bs c = Inr (Chunk n c1 m)" using r Chunk by simp
      then have pc': "parse_chunk (bs @ rest) c = Inr (Chunk n c1 m)" using inc by simp
      have n: "n \<le> length bs" using parse_chunk_within [OF pc] by simp
      from 1(2) obtain c2 where c2: "?mc = Inr c2" "parse_loop (drop n bs) c2 = Inr (left, c')"
        unfolding parse_loop_Chunk [OF pc] by (elim bindE_InrE)
      have "parse_loop (drop n bs @ rest) c2 = parse_loop (left @ rest) c'"
        by (rule 1(1) [OF True r Chunk c2]) (use 1(3) in simp)
      then show ?thesis using c2(1) n unfolding parse_loop_Chunk [OF pc'] by simp
    qed
  qed
qed

section \<open>Media end to end\<close>

definition media :: "rpacket \<Rightarrow> bool" where
  "media p \<longleftrightarrow> (\<exists>h. pk_ext p = Some h \<and> h_msg_type h \<in> {kRtmpMsgTypeAudio, kRtmpMsgTypeVideo,
     kRtmpMsgTypeAMFMeta, kRtmpMsgTypeAMF3Meta})"

text \<open>The handler is called with the message \<open>p\<close>, stamped \<open>t\<close>.\<close>

definition received :: "rpacket \<Rightarrow> u32 \<Rightarrow> rtmp_event \<Rightarrow> bool" where
  "received p t e \<longleftrightarrow> (\<exists>q. same_message p t q \<and> e = EvRecv (media_type q))"

lemma in_sync_notify: "in_sync s (notify e r) = in_sync s r"
  by (simp add: in_sync_def notify_def log_event_def cong: option.case_cong)

lemma MessageComplete_media:
  assumes "media p" "same_message p t q"
  shows "MessageComplete q c = Inr (notify (EvRecv (media_type q)) c)"
  using assms by (auto simp: MessageComplete_def media_def same_message_def)

text \<open>Parsing a chunk touches only the receiver's tables.\<close>

definition same_rest :: "rtmp_ctx \<Rightarrow> rtmp_ctx \<Rightarrow> bool" where
  "same_rest c c' \<longleftrightarrow> has_handler c' = has_handler c \<and> events c' = events c \<and>
     in_chunk_size c' = in_chunk_size c"

lemma take_body_frame:
  "take_body bs parsed csid packet header c = Inr (Chunk n c' m) \<Longrightarrow> same_rest c c'"
  by (auto simp: take_body_def Let_def same_rest_def split: if_splits)

lemma take_ext_frame:
  "take_ext bs parsed fmt csid ts header delta packet prev c = Inr (Chunk n c' m) \<Longrightarrow> same_rest c c'"
  by (auto simp: take_ext_def Let_def apply_ext_def split: if_splits dest!: take_body_frame)
    (auto simp: same_rest_def)

lemma parse_chunk_frame:
  assumes "parse_chunk bs c = Inr (Chunk n c' m)"
  shows "same_rest c c'"
proof -
  from assms obtain r where r: "parse_basic bs = Inr (Some r)"
    by (auto simp: parse_chunk_def split: option.splits)
  obtain fmt csid k where "r = (fmt, csid, k)" by (cases r)
  with r assms have t: "take_message fmt csid k bs c = Inr (Chunk n c' m)"
    by (auto simp: parse_chunk_def split: if_splits)
  then obtain p ts h d k2 packet prev where
    "take_ext bs p fmt csid ts h d packet prev (c\<lparr>in_message_headers := (in_message_headers c)(csid \<mapsto> prev)\<rparr>)
      = Inr (Chunk n c' m)"
    unfolding take_message_def Let_def by (elim bindE_InrE) (auto split: prod.splits)
  from take_ext_frame [OF this] show ?thesis by (simp add: same_rest_def)
qed

lemma delivers_frame:
  "delivers bs c m rest c' \<Longrightarrow> has_handler c' = has_handler c \<and> events c' = events c"
  by (induction rule: delivers.induct) (auto dest!: parse_chunk_frame simp: same_rest_def)

lemma media_stream:
  assumes "\<forall>(p, t, _) \<in> set ms. sendable p \<and> media p \<and> t < 0xFFFFFF" "in_sync s r" "has_handler r"
    and "out_current s + batch_room (unat (out_chunk_size s)) ms \<le> 4096"
  shows "\<exists>s' W. build_all ms s = Inr s' \<and> concat (sending_bufs s') = concat (sending_bufs s) @ W \<and>
    (\<forall>rest. length (W @ rest) < 2 ^ 31 \<longrightarrow> (\<exists>evs r'. parse_loop (W @ rest) r = parse_loop rest r' \<and>
       events r' = events r @ evs \<and> list_all2 (\<lambda>(p, t, _) e. received p t e) ms evs \<and> in_sync s' r' \<and> has_handler r'))"
  using assms
proof (induction ms arbitrary: s r)
  case Nil
  then show ?case by (intro exI [of _ s] exI [of _ "[]"]) auto
next
  case (Cons m ms)
  obtain p t fmt0 where m: "m = (p, t, fmt0)" by (cases m)
  let ?k = "unat (out_chunk_size s)"
  have room: "out_current s + header_room ?k (length (payload p)) + batch_room ?k ms \<le> 4096"
    using Cons.prems(4) by (simp add: batch_room_def m)
  then have r1: "out_current s + header_room ?k (length (payload p)) \<le> 4096" by simp
  have p: "sendable p" "t < 0xFFFFFF" "media p" using Cons.prems(1) m by auto
  from send_one [OF p(1) Cons.prems(2) p(2) r1, of fmt0]
  obtain s1 W1 r1 where b: "BuildChunk_move p t fmt0 s = Inr (True, s1)" "in_sync s1 r1"
    "concat (sending_bufs s1) = concat (sending_bufs s) @ W1"
    "out_current s1 \<le> out_current s + header_room ?k (length (payload p))"
    "out_chunk_size s1 = out_chunk_size s"
    and d1: "\<And>rest. length (W1 @ rest) < 2 ^ 31 \<Longrightarrow>
       \<exists>q. delivers (W1 @ rest) r q rest r1 \<and> same_message p t q" by blast
  have room1: "out_current s1 + batch_room (unat (out_chunk_size s1)) ms \<le> 4096" using room b by simp
  have all: "\<forall>(p, t, _) \<in> set ms. sendable p \<and> media p \<and> t < 0xFFFFFF" using Cons.prems(1) by simp
  have r1s: "in_sync s1 (r1\<lparr>has_handler := True, events := e\<rparr>)" for e
    using b(2) by (auto simp: in_sync_def cong: option.case_cong)
  from Cons.IH [OF all r1s _ room1] obtain s' W where i: "build_all ms s1 = Inr s'"
    "concat (sending_bufs s') = concat (sending_bufs s1) @ W" by fastforce
  have step: "\<exists>evs r'. parse_loop (W @ rest) c = parse_loop rest r' \<and> events r' = events c @ evs \<and>
      list_all2 (\<lambda>(p, t, _) e. received p t e) ms evs \<and> in_sync s' r' \<and> has_handler r'"
    if "length (W @ rest) < 2 ^ 31" "in_sync s1 c" "has_handler c" for c rest
    using Cons.IH [OF all that(2,3) room1] i that(1) by auto
  have "\<exists>evs r'. parse_loop ((W1 @ W) @ rest) r = parse_loop rest r' \<and> events r' = events r @ evs \<and>
      list_all2 (\<lambda>(p, t, _) e. received p t e) (m # ms) evs \<and> in_sync s' r' \<and> has_handler r'"
    if l: "length ((W1 @ W) @ rest) < 2 ^ 31" for rest
  proof -
    from d1 [of "W @ rest"] l obtain q where q: "delivers (W1 @ W @ rest) r q (W @ rest) r1" "same_message p t q"
      by auto
    note fr = delivers_frame [OF q(1)]
    let ?c = "notify (EvRecv (media_type q)) r1"
    have "parse_loop (W1 @ W @ rest) r = parse_loop (W @ rest) ?c"
      using parse_loop_delivers [OF q(1)] MessageComplete_media [OF p(3) q(2)] by simp
    moreover have "events ?c = events r @ [EvRecv (media_type q)]" "has_handler ?c"
      using fr Cons.prems(3) by (simp_all add: notify_def log_event_def)
    moreover from step [of rest ?c] l b(2) this(2) obtain evs r' where
      "parse_loop (W @ rest) ?c = parse_loop rest r'" "events r' = events ?c @ evs"
      "list_all2 (\<lambda>(p, t, _) e. received p t e) ms evs" "in_sync s' r'" "has_handler r'"
      by (auto simp: in_sync_notify)
    ultimately show ?thesis using m q(2)
      by (intro exI [of _ "EvRecv (media_type q) # evs"] exI [of _ r']) (auto simp: received_def)
  qed
  then show ?case using b i m by (intro exI [of _ s'] exI [of _ "W1 @ W"]) simp
qed

section \<open>Commands on the wire\<close>

text \<open>The received message \<open>p\<close> has exactly the body \<open>content\<close>.\<close>

definition carries :: "rpacket \<Rightarrow> byte list \<Rightarrow> bool" where
  "carries p content \<longleftrightarrow> PacketSize p = int (length content) \<and> take (length content) (pk_data p) = content"

lemma carries_data: "carries p content \<Longrightarrow> pk_data p = content @ drop (length content) (pk_data p)"
  by (metis append_take_drop_id carries_def)

lemma dbl_values:
  "dbl0 = u64_to_dbl 0" "dbl1 = u64_to_dbl 1" "dbl3 = u64_to_dbl 3" "dbl4 = u64_to_dbl 4"
  "dbl5 = u64_to_dbl 5" "dbl31 = u64_to_dbl 31" "dbl252 = u64_to_dbl 252" "dbl1639 = u64_to_dbl 1639"
  by (simp_all add: dbl_defs u64_to_dbl_def ilog2.simps)

lemma dbl_consts [simp]:
  "dbl_exact dbl0" "dbl_exact dbl1" "dbl_exact dbl3" "dbl_exact dbl4" "dbl_exact dbl5" "dbl_exact dbl31"
  "dbl_exact dbl252" "dbl_exact dbl1639"
  unfolding dbl_values by (rule dbl_exact_of_u64; simp)+

lemma lit_length [simp]: "length (lit s) = length s"
  by (simp add: lit_def)

text \<open>The properties of the connect command's object.\<close>

definition connect_props :: "str \<Rightarrow> str \<Rightarrow> amf_any list" where
  "connect_props a u = [AMFString (lit ''app'') a, AMFString (lit ''tcUrl'') u,
     AMFBoolean (lit ''fpad'') False, AMFNumber (lit ''capabilities'') dbl31,
     AMFNumber (lit ''audioCodecs'') dbl1639, AMFNumber (lit ''videoCodecs'') dbl252,
     AMFNumber (lit ''videoFunction'') dbl1]"

lemma connect_body_eq:
  "connect_body a u = EncodeString (lit ''connect'') @ EncodeNumber dbl1 @
     (kAMFObject # concat (map enc_prop (connect_props a u)) @ object_end)"
  by (simp add: connect_body_def connect_props_def object_end_def)

lemma length_Encode [simp]:
  "length (EncodeString s) = length s + 3" "length (EncodeNumber d) = 9" "length object_end = 3"
  by (simp_all add: EncodeString_def EncodeNumber_def store_be64_def object_end_def WriteUint16T_def)

lemma Decode_connect:
  assumes "length a < 2 ^ 16" "length u < 2 ^ 16"
  shows "Decode (connect_body a u @ rest) (int (length (connect_body a u))) False 0 [] =
    Inr (int (length (connect_body a u)),
      [AMFString [] (lit ''connect''), AMFNumber [] dbl1, AMFObject [] (connect_props a u)])"
proof -
  have wf: "list_all wf_prop (connect_props a u)" using assms by (simp add: connect_props_def lit_def)
  let ?o = "concat (map enc_prop (connect_props a u))"
  have len: "int (length (connect_body a u)) = 10 + 9 + (int (length ?o) + 4)"
    by (simp add: connect_body_eq)
  show ?thesis
    unfolding len unfolding connect_body_eq append_assoc append_Cons
    using wf
    by (simp add: Decode_plain_string Decode_plain_number Decode_plain_object Decode_stop
        del: bindE_eq_Inr)
qed

lemma HandleAmf_carries:
  assumes "carries p content" "0 \<le> n"
    and "\<And>rest. Decode (content @ rest) (int (length content)) False 0 [] = Inr (n, AMFString [] method # ps)"
  shows "HandleAmfCommand p False c =
    (case commands method of None \<Rightarrow> Inr c | Some handler \<Rightarrow> handler (AMFString [] method # ps) c)"
proof -
  have "Decode (pk_data p) (PacketSize p) False 0 [] = Inr (n, AMFString [] method # ps)"
    using assms(3) [of "drop (length content) (pk_data p)"] assms(1) carries_data [OF assms(1)]
    by (simp add: carries_def)
  then show ?thesis using assms(2)
    by (simp add: HandleAmfCommand_def PropertyAt_def the_prop_def del: bindE_eq_Inr)
qed

lemma commands_simps [simp]:
  "commands (lit ''connect'') = Some HandleConnect"
  "commands (lit ''createStream'') = Some HandleCreateStream"
  "commands (lit ''_result'') = Some HandleResult"
  "commands (lit ''_error'') = Some HandleError"
  "commands (lit ''onStatus'') = Some HandleStatus"
  "commands (lit ''play'') = Some HandlePlay"
  "commands (lit ''publish'') = Some HandlePublish"
  by (simp_all add: commands_def lit_def)

lemma connect_lookup:
  "Property (lit ''tcUrl'') [AMFString [] m, AMFNumber [] d, AMFObject [] (connect_props a u)] =
     Some (AMFString (lit ''tcUrl'') u)"
  "Property (lit ''app'') (connect_props a u) = Some (AMFString (lit ''app'') a)"
  "Property (lit ''objectEncoding'') (connect_props a u) = None"
  by (simp_all add: connect_props_def lit_def)

lemma connect_understood_lemma:
  assumes "length a < 2 ^ 16" "length u < 2 ^ 16" "carries p (connect_body a u)"
  shows "HandleAmfCommand p False c =
    bindE (SendAckWindowSize (c\<lparr>tc_url := u, app := a\<rparr>)) (\<lambda>c.
    bindE (SendSetPeerBandwidth c) (\<lambda>c.
    bindE (SendSetChunkSize c) (\<lambda>c.
      push_message 1024 kRtmpCSIDAMFIni kRtmpMsgTypeAMFMessage 0 (connect_result_body False) c)))"
proof -
  have "HandleAmfCommand p False c = HandleConnect [AMFString [] (lit ''connect''), AMFNumber [] dbl1,
      AMFObject [] (connect_props a u)] c"
    using HandleAmf_carries [OF assms(3) _ Decode_connect [OF assms(1,2)]] by simp
  then show ?thesis unfolding HandleConnect_def connect_lookup
    by (simp add: connect_lookup the_prop_def PropertyAt_def Let_def del: bindE_eq_Inr Property.simps)
qed

lemma Decode_number_end:
  assumes "dbl_exact d" "sz < parsed + 12" "parsed + 9 \<le> sz"
  shows "Decode (EncodeNumber d @ rest) sz False parsed props = Inr (parsed + 9, props @ [AMFNumber [] d])"
  using assms by (simp add: Decode_plain_number Decode_stop)

lemma Decode_create_stream:
  "Decode (create_stream_body @ rest) (int (length create_stream_body)) False 0 [] =
     Inr (24, [AMFString [] (lit ''createStream''), AMFNumber [] dbl4])"
  by (simp add: create_stream_body_def Decode_plain_string Decode_plain_number Decode_stop del: bindE_eq_Inr)

lemma Decode_create_stream_result:
  assumes "dbl_exact d"
  shows "Decode (create_stream_result_body d @ rest) (int (length (create_stream_result_body d))) False 0 [] =
     Inr (29, [AMFString [] (lit ''_result''), AMFNumber [] d, AMFNull [], AMFNumber [] dbl1])"
  using assms
  by (simp add: create_stream_result_body_def Decode_plain_string Decode_plain_number Decode_plain_null
      Decode_stop del: bindE_eq_Inr)

lemma Decode_publish:
  assumes "length n < 2 ^ 16"
  shows "Decode (publish_body n @ rest) (int (length (publish_body n))) False 0 [] =
     Inr (int (length (publish_body n)), [AMFString [] (lit ''publish''), AMFNumber [] dbl5, AMFNull [],
       AMFString [] n, AMFString [] (lit ''live'')])"
  using assms
  by (simp add: publish_body_def Decode_plain_string Decode_plain_number Decode_plain_null
      Decode_stop del: bindE_eq_Inr)

definition status_props :: "str \<Rightarrow> str \<Rightarrow> str \<Rightarrow> amf_any list" where
  "status_props level code description = [AMFString (lit ''level'') level, AMFString (lit ''code'') code,
     AMFString (lit ''description'') description]"

lemma Decode_status:
  assumes "length l < 2 ^ 16" "length k < 2 ^ 16" "length d < 2 ^ 16"
  shows "Decode (status_body l k d @ rest) (int (length (status_body l k d))) False 0 [] =
     Inr (int (length (status_body l k d)), [AMFString [] (lit ''onStatus''), AMFNumber [] dbl0, AMFNull [],
       AMFObject [] (status_props l k d)])"
proof -
  have wf: "list_all wf_prop (status_props l k d)" using assms by (simp add: status_props_def lit_def)
  let ?o = "concat (map enc_prop (status_props l k d))"
  have eq: "status_body l k d = EncodeString (lit ''onStatus'') @ EncodeNumber dbl0 @ kAMFNull #
      (kAMFObject # ?o @ object_end)"
    by (simp add: status_body_def status_props_def object_end_def)
  have len: "int (length (status_body l k d)) = 11 + 9 + 1 + (int (length ?o) + 4)" by (simp add: eq)
  show ?thesis
    unfolding len unfolding eq append_assoc append_Cons using wf
    by (simp add: Decode_plain_string Decode_plain_number Decode_plain_null Decode_plain_object Decode_stop
        del: bindE_eq_Inr)
qed

definition connect_result_props :: "bool \<Rightarrow> amf_any list" where
  "connect_result_props amf3 = [AMFString (lit ''level'') (lit ''status''),
     AMFString (lit ''code'') (lit ''NetConnection.Connect.Success''),
     AMFString (lit ''description'') (lit ''Connection succeeded.''),
     AMFNumber (lit ''objectEncoding'') (if amf3 then dbl3 else dbl0)]"

definition fms_props :: "amf_any list" where
  "fms_props = [AMFString (lit ''fmsVer'') (lit ''FMS/3,0,1,123''), AMFNumber (lit ''capabilities'') dbl31]"

lemma Decode_connect_result:
  "Decode (connect_result_body b @ rest) (int (length (connect_result_body b))) False 0 [] =
    Inr (int (length (connect_result_body b)), [AMFString [] (lit ''_result''), AMFNumber [] dbl1,
      AMFObject [] fms_props, AMFObject [] (connect_result_props b)])"
proof -
  have wf: "list_all wf_prop fms_props" "list_all wf_prop (connect_result_props b)"
    by (simp_all add: fms_props_def connect_result_props_def lit_def)
  let ?f = "concat (map enc_prop fms_props)" and ?o = "concat (map enc_prop (connect_result_props b))"
  have eq: "connect_result_body b = EncodeString (lit ''_result'') @ EncodeNumber dbl1 @
      (kAMFObject # ?f @ object_end) @ (kAMFObject # ?o @ object_end)"
    by (simp add: connect_result_body_def connect_result_props_def fms_props_def object_end_def)
  have len: "int (length (connect_result_body b)) = 10 + 9 + (int (length ?f) + 4) + (int (length ?o) + 4)"
    by (simp add: eq)
  show ?thesis
    unfolding len unfolding eq append_assoc append_Cons using wf
    by (simp add: Decode_plain_string Decode_plain_number Decode_plain_object Decode_stop del: bindE_eq_Inr)
qed

lemma HandleResult_simps:
  "HandleResult [m, AMFNumber n dbl1] c = SendCreateStream c"
  "HandleResult (m # AMFNumber n dbl1 # ps) c = SendCreateStream c"
  "HandleResult (m # AMFNumber n dbl4 # ps) c = (if is_player c then SendPlay c else SendPublish c)"
  "HandleResult (m # AMFNumber n dbl5 # ps) c = Inr (notify EvPublishPrepare c)"
  by (simp_all add: HandleResult_def PropertyAt_def the_prop_def dbl_defs)

lemma Decode_play:
  assumes "length n < 2 ^ 16"
  shows "Decode (play_body n @ rest) (int (length (play_body n))) False 0 [] = Inl BadConversion"
proof -
  have bad: "Decode (EncodeNumber dbl_m1000 @ r) sz False parsed props = Inl BadConversion"
    if "parsed + 9 \<le> sz" for r sz parsed props
    using that by (intro Decode_bad_number) (simp_all add: dbl_m1000_def)
  show ?thesis using assms
    by (simp add: play_body_def Decode_plain_string Decode_plain_number Decode_plain_null bad
        del: bindE_eq_Inl)
qed

lemma url_session:
  assumes "47 \<notin> set host" "47 \<notin> set a" "a \<noteq> []" "tc_url c = lit ''rtmp://'' @ host @ lit ''/'' @ a"
  shows "url_parts (cut_param c) = (host, (cut_param c)\<lparr>app := a\<rparr>)"
proof -
  have t: "tc_url (cut_param c) = lit ''rtmp:'' @ 47 # ([] @ 47 # (host @ 47 # a))"
    using assms(4) by (simp add: cut_param_def Let_def lit_def split: option.splits)
  have s: "lit ''/'' = [47]" "47 \<notin> set (lit ''rtmp:'')" by (simp_all add: lit_def)
  have "SplitString (tc_url (cut_param c)) (lit ''/'') = [lit ''rtmp:'', [], host, a]"
    unfolding t s(1) using assms(1-3) s(2) split_piece [of 47 "[]"]
    by (simp only: split_piece split_last list.set empty_iff not_False_eq_True append_Nil)
  then show ?thesis by (simp add: url_parts_def)
qed

lemma in_sync_cong:
  assumes "out_chunk_size s' = out_chunk_size s" "out_message_headers s' = out_message_headers s"
    "out_deltas s' = out_deltas s"
  shows "in_sync s' r = in_sync s r"
  using assms by (simp add: in_sync_def cong: option.case_cong)

lemma BuildChunk_move_frame:
  assumes "BuildChunk_move p t fmt0 c = Inr (b, c')"
  shows "out_waiting_queue c' = out_waiting_queue c \<and> events c' = events c \<and> sending c' = sending c"
  using assms
  by (auto simp: BuildChunk_move_def emit_chunks_def Let_def split: option.splits if_splits prod.splits)

text \<open>A queued control message or command is received as it was written.\<close>

lemma push_message_wire:
  assumes "\<not> sending c" "out_waiting_queue c = []" "sending_bufs c = []" "in_sync c r"
    and "0 < length content" "length content < 2 ^ 24" "length content \<le> capacity" "capacity < 2 ^ 31"
    and "2 \<le> csid" "csid < 65600"
    and "out_current c + header_room (unat (out_chunk_size c)) (length content) \<le> 4096"
  shows "\<exists>c' r' bufs. push_message capacity csid type sid content c = Inr c' \<and>
    events c' = events c @ [EvSend bufs] \<and> sending c' \<and> in_sync c' r' \<and>
    (\<forall>rest. length (concat bufs @ rest) < 2 ^ 31 \<longrightarrow>
      (\<exists>q. delivers (concat bufs @ rest) r q rest r' \<and> carries q content \<and> pk_type q = ucast type))"
proof -
  obtain p0 :: rpacket where n0: "NewPacket (int capacity) = Inr p0" "packet_ok p0"
    "unat (pk_capacity p0) = capacity"
    using NewPacket_ok [of "int capacity"] assms(8) by auto
  then have p0: "NewPacket (int capacity) = Inr p0" "length (pk_data p0) = capacity"
    by (simp_all add: packet_ok_def)
  define p where "p = SetPacketSize (length content) (SetExt \<lparr>h_cs_id = csid, h_timestamp = 0,
      h_msg_len = of_nat (length content), h_msg_type = type, h_msg_sid = sid\<rparr>
      (p0\<lparr>pk_data := overwrite 0 content (pk_data p0)\<rparr>))"
  have len: "unat (of_nat (length content) :: u32) = length content"
    using assms(6) by (simp add: unat_of_nat)
  have pay: "payload p = content"
    using assms(7) p0(2) len by (simp add: p_def payload_def SetPacketSize_def SetExt_def overwrite_def)
  have "sendable p"
    using assms p0(2) len
    by (auto simp: p_def sendable_def SetPacketSize_def SetExt_def word_less_nat_alt)
  moreover define s where "s = c\<lparr>sending := True\<rparr>"
  moreover have "in_sync s r" using assms(4) in_sync_cong [of s c r] by (simp add: s_def)
  moreover have "out_current s + header_room (unat (out_chunk_size s)) (length (payload p)) \<le> 4096"
    using assms(11) pay by (simp add: s_def)
  ultimately obtain s1 W r' where b: "BuildChunk_move p 0 False s = Inr (True, s1)" "in_sync s1 r'"
    "concat (sending_bufs s1) = concat (sending_bufs s) @ W"
    and d: "\<And>rest. length (W @ rest) < 2 ^ 31 \<Longrightarrow> \<exists>q. delivers (W @ rest) r q rest r' \<and> same_message p 0 q"
    using send_one [of p s r 0 False] by auto
  note fr = BuildChunk_move_frame [OF b(1)]
  have W: "concat (sending_bufs s1) = W" using b(3) assms(3) by (simp add: s_def)
  let ?c = "c\<lparr>out_waiting_queue := out_waiting_queue c @ [p]\<rparr>\<lparr>sending := True\<rparr>"
  have q: "?c\<lparr>out_waiting_queue := []\<rparr> = s" using assms(2) by (simp add: s_def)
  have "send_some 10 ?c = send_some 9 s1"
    using b(1) q assms(2) send_some.simps(2) [of 9 ?c] by (simp del: bindE_eq_Inr)
  moreover have "send_some 9 s1 = Inr s1"
    using fr assms(2) send_some.simps(2) [of 8 s1] by (simp add: s_def del: bindE_eq_Inr)
  ultimately have "push_message capacity csid type sid content c = Inr (log_event (EvSend (sending_bufs s1)) s1)"
    using p0 assms(1,7)
    by (simp add: push_message_def write_data_def PushOutQueue_def Send_def p_def [symmetric] del: bindE_eq_Inr)
  moreover have "in_sync (log_event e s1) r'" for e
    using b(2) in_sync_cong [of "log_event e s1" s1 r'] by (simp add: log_event_def)
  moreover have "\<exists>q. delivers (concat (sending_bufs s1) @ rest) r q rest r' \<and> carries q content \<and> pk_type q = ucast type"
    if "length (concat (sending_bufs s1) @ rest) < 2 ^ 31" for rest
  proof -
    from d [of rest] that W obtain q where q: "delivers (W @ rest) r q rest r'" "same_message p 0 q" by auto
    then have "packet_ok q" "body q = content" "unat (pk_size q) = length content" "pk_type q = ucast type"
      using pay by (auto simp: same_message_def p_def SetPacketSize_def SetExt_def)
    then have "carries q content" using PacketSize_ok [of q] by (simp add: carries_def body_def)
    with q W \<open>pk_type q = ucast type\<close> show ?thesis by auto
  qed
  ultimately show ?thesis using fr
    by (intro exI [of _ "log_event (EvSend (sending_bufs s1)) s1"] exI [of _ r'] exI [of _ "sending_bufs s1"])
      (simp add: log_event_def s_def)
qed

section \<open>Properties\<close>

text \<open>C3: media end to end: audio, video and metadata messages given to \<open>BuildChunk\<close> (the overload that takes packets over) in one batch reach
  the peer's \<open>OnRecv\<close>, through \<open>ParseMessage\<close>, exactly once each, in order, with their bodies,
  headers and timestamps, whatever bytes follow; and both sides agree again. The messages must not be empty, their
  times must be below \<open>0xFFFFFF\<close> (a later one arrives as \<open>0xFFFFFF\<close>), and the chunk headers
  of the batch must have room in the 4096-byte header buffer.\<close>

theorem media_stream_delivered:
  assumes "\<forall>(p, t, _) \<in> set ms. sendable p \<and> media p \<and> t < 0xFFFFFF" "in_sync s r" "has_handler r"
    and "out_current s + batch_room (unat (out_chunk_size s)) ms \<le> 4096"
  shows "\<exists>s' W. build_all ms s = Inr s' \<and> concat (sending_bufs s') = concat (sending_bufs s) @ W \<and>
    (\<forall>rest. length (W @ rest) < 2 ^ 31 \<longrightarrow> (\<exists>evs r'. parse_loop (W @ rest) r = parse_loop rest r' \<and>
       events r' = events r @ evs \<and> list_all2 (\<lambda>(p, t, _) e. received p t e) ms evs \<and> in_sync s' r'))"
  using media_stream [OF assms] by meson

lemma media_stream_delivered_witness:
  "\<exists>s' W. build_all [(demo_packet 9 [1, 2, 3, 4, 5], 40, False), (demo_packet 8 [11], 80, True)]
      (RtmpContext_new True True\<lparr>out_chunk_size := 2\<rparr>) = Inr s' \<and>
    concat (sending_bufs s') = concat (sending_bufs (RtmpContext_new True True\<lparr>out_chunk_size := 2\<rparr>)) @ W \<and>
    (\<forall>rest. 2 ^ 31 \<le> length (W @ rest) \<or> (\<exists>evs r'.
      parse_loop (W @ rest) (RtmpContext_new True False\<lparr>in_chunk_size := 2\<rparr>) = parse_loop rest r' \<and>
      events r' = events (RtmpContext_new True False\<lparr>in_chunk_size := 2\<rparr>) @ evs \<and>
      list_all2 (\<lambda>(p, t, _) e. received p t e)
        [(demo_packet 9 [1, 2, 3, 4, 5], 40, False), (demo_packet 8 [11], 80, True)] evs \<and> in_sync s' r'))"
  unfolding disj_small [symmetric]
  by (rule media_stream_delivered)
    (simp_all add: sendable_def media_def demo_packet_def in_sync_def RtmpContext_new_def batch_room_def
      header_room_def payload_def)

text \<open>C17: the pieces TCP delivers do not matter: parsing what has arrived and then the rest is parsing
  everything at once, with the same messages handled in the same order and the same state.\<close>

theorem parse_loop_incremental:
  assumes "parse_loop bs c = Inr (left, c')" "length (bs @ rest) < 2 ^ 31"
  shows "parse_loop (bs @ rest) c = parse_loop (left @ rest) c'"
  using assms by (rule parse_loop_append)

lemma parse_loop_incremental_witness:
  "\<exists>c'. parse_loop [4, 0, 0, 0, 0, 0, 1, 8, 0, 0, 0, 0, 7, 3] (RtmpContext_new True False) = Inr ([3], c') \<and>
     parse_loop ([4, 0, 0, 0, 0, 0, 1, 8, 0, 0, 0, 0, 7, 3] @ [0, 0, 0]) (RtmpContext_new True False) =
     parse_loop ([3] @ [0, 0, 0]) c'"
proof -
  have "\<exists>c'. parse_loop [4, 0, 0, 0, 0, 0, 1, 8, 0, 0, 0, 0, 7, 3] (RtmpContext_new True False) = Inr ([3], c')"
    by (simp add: parse_loop.simps parse_chunk_def parse_basic_def ReadUint8T_def Let_def header_need_def
        take_message_def alloc_len_def ReadUint24T_def RtmpContext_new_def new_message_def NewPacket_def
        parse_header_def load_le32_def take_ext_def ext_present_def take_body_def Space_def SetExt_def
        RtmpMsgHeader0_def write_data_def UpdatePacketSize_def SetTimeStamp_def SetPacketType_def
        MessageComplete_def notify_def del: bindE_eq_Inr)
  then obtain c' where "parse_loop [4, 0, 0, 0, 0, 0, 1, 8, 0, 0, 0, 0, 7, 3] (RtmpContext_new True False) = Inr ([3], c')"
    by blast
  from this parse_loop_incremental [OF this, of "[0, 0, 0]"] show ?thesis by simp
qed

text \<open>C27: a connect command is understood: a server that receives what \<open>SendConnect\<close> writes takes the
  URL and the application name from it, and answers with its acknowledgement window, the peer
  bandwidth, its chunk size and the result, in this order.\<close>

theorem connect_understood:
  assumes "length a < 2 ^ 16" "length u < 2 ^ 16" "carries p (connect_body a u)"
  shows "HandleAmfCommand p False c =
    bindE (SendAckWindowSize (c\<lparr>tc_url := u, app := a\<rparr>)) (\<lambda>c.
    bindE (SendSetPeerBandwidth c) (\<lambda>c.
    bindE (SendSetChunkSize c) (\<lambda>c.
      push_message 1024 kRtmpCSIDAMFIni kRtmpMsgTypeAMFMessage 0 (connect_result_body False) c)))"
  using assms by (rule connect_understood_lemma)

definition body_packet :: "byte list \<Rightarrow> rpacket" where
  "body_packet d = \<lparr>pk_type = 20, pk_size = of_nat (length d), pk_index = -1, pk_timestamp = 0,
     pk_capacity = of_nat (length d), pk_data = d, pk_ext = None\<rparr>"

lemma carries_body_packet: "length d < 2 ^ 31 \<Longrightarrow> carries (body_packet d) d"
  unfolding carries_def body_packet_def PacketSize_def packet.simps
  by (subst sint_unat_small) (simp_all add: unat_of_nat)

lemma connect_understood_witness:
  "HandleAmfCommand (body_packet (connect_body (lit ''live'') (lit ''rtmp://h/live''))) False (RtmpContext_new True False) =
    bindE (SendAckWindowSize (RtmpContext_new True False\<lparr>tc_url := lit ''rtmp://h/live'', app := lit ''live''\<rparr>)) (\<lambda>c.
    bindE (SendSetPeerBandwidth c) (\<lambda>c.
    bindE (SendSetChunkSize c) (\<lambda>c.
      push_message 1024 kRtmpCSIDAMFIni kRtmpMsgTypeAMFMessage 0 (connect_result_body False) c)))"
  by (rule connect_understood)
    (simp_all add: carries_body_packet connect_body_eq connect_props_def EncodeNamedString_def
      EncodeNamedNumber_def EncodeNamedBoolean_def EncodeBoolean_def)

text \<open>C26: the publishing dialogue: the client answers the connect result with createStream, the server
  that with the stream's id under the same transaction number 4, the client that with publish (or
  play, for a player), and the server publish with a status and the handler call for the session
  named by the URL and the published name. Each side reads exactly what the other writes.\<close>

theorem publish_dialogue:
  assumes "carries p1 (connect_result_body b)" "carries p2 create_stream_body"
    "carries p3 (create_stream_result_body dbl4)" "length n < 2 ^ 16" "carries p4 (publish_body n)"
  shows "HandleAmfCommand p1 False c = SendCreateStream c \<and>
    HandleAmfCommand p2 False s =
      push_message 1024 kRtmpCSIDAMFIni kRtmpMsgTypeAMFMessage 0 (create_stream_result_body dbl4) s \<and>
    HandleAmfCommand p3 False c = (if is_player c then SendPlay c else SendPublish c) \<and>
    HandleAmfCommand p4 False s =
      bindE (SendStatus (lit ''status'') (lit ''NetStream.Publish.Start'') (lit ''Start Publishing'')
        ((ParseNameAndTcUrl (s\<lparr>name := n\<rparr>))\<lparr>is_player := False\<rparr>)) (\<lambda>s.
          Inr (notify (EvPublish (session_name s) (param s)) s))"
proof (intro conjI)
  show "HandleAmfCommand p1 False c = SendCreateStream c"
    using HandleAmf_carries [OF assms(1) _ Decode_connect_result] by (simp add: HandleResult_simps)
  show "HandleAmfCommand p2 False s =
      push_message 1024 kRtmpCSIDAMFIni kRtmpMsgTypeAMFMessage 0 (create_stream_result_body dbl4) s"
    using HandleAmf_carries [OF assms(2) _ Decode_create_stream]
    by (simp add: HandleCreateStream_def PropertyAt_def the_prop_def del: bindE_eq_Inr)
  show "HandleAmfCommand p3 False c = (if is_player c then SendPlay c else SendPublish c)"
    using HandleAmf_carries [OF assms(3) _ Decode_create_stream_result] by (simp add: HandleResult_simps)
  show "HandleAmfCommand p4 False s =
      bindE (SendStatus (lit ''status'') (lit ''NetStream.Publish.Start'') (lit ''Start Publishing'')
        ((ParseNameAndTcUrl (s\<lparr>name := n\<rparr>))\<lparr>is_player := False\<rparr>)) (\<lambda>s.
          Inr (notify (EvPublish (session_name s) (param s)) s))"
    using HandleAmf_carries [OF assms(5) _ Decode_publish [OF assms(4)]]
    by (simp add: HandlePublish_def PropertyAt_def the_prop_def Let_def del: bindE_eq_Inr)
qed

lemma bodies_short: "length create_stream_body = 25" "length (create_stream_result_body d) = 29"
  "length (connect_result_body b) = 190" "length (publish_body n) = length n + 30"
  "length (play_body n) = length n + 29"
  by (simp_all add: create_stream_body_def create_stream_result_body_def connect_result_body_def
      publish_body_def play_body_def EncodeNamedString_def EncodeNamedNumber_def)

lemma publish_dialogue_witness:
  "HandleAmfCommand (body_packet (connect_result_body False)) False (RtmpContext_new True True) =
      SendCreateStream (RtmpContext_new True True) \<and>
    HandleAmfCommand (body_packet create_stream_body) False (RtmpContext_new True False) =
      push_message 1024 kRtmpCSIDAMFIni kRtmpMsgTypeAMFMessage 0 (create_stream_result_body dbl4)
        (RtmpContext_new True False) \<and>
    HandleAmfCommand (body_packet (create_stream_result_body dbl4)) False (RtmpContext_new True True) =
      (if is_player (RtmpContext_new True True) then SendPlay (RtmpContext_new True True)
       else SendPublish (RtmpContext_new True True)) \<and>
    HandleAmfCommand (body_packet (publish_body (lit ''cam''))) False (RtmpContext_new True False) =
      bindE (SendStatus (lit ''status'') (lit ''NetStream.Publish.Start'') (lit ''Start Publishing'')
        ((ParseNameAndTcUrl (RtmpContext_new True False\<lparr>name := lit ''cam''\<rparr>))\<lparr>is_player := False\<rparr>)) (\<lambda>s.
          Inr (notify (EvPublish (session_name s) (param s)) s))"
  by (rule publish_dialogue [where b = False]) (simp_all add: carries_body_packet bodies_short)

text \<open>a server cannot read the client's own play command: it ends with the start position -1000,
  which the decoder converts to an unsigned integer, with no defined result.\<close>

theorem play_command_undefined:
  assumes "carries p (play_body n)" "length n < 2 ^ 16"
  shows "HandleAmfCommand p False c = Inl BadConversion"
proof -
  have "Decode (pk_data p) (PacketSize p) False 0 [] = Inl BadConversion"
    using Decode_play [OF assms(2), of "drop (length (play_body n)) (pk_data p)"] assms(1) carries_data [OF assms(1)]
    by (simp add: carries_def)
  then show ?thesis by (simp add: HandleAmfCommand_def del: bindE_eq_Inl)
qed

lemma play_command_undefined_witness:
  "HandleAmfCommand (body_packet (play_body (lit ''cam''))) False (RtmpContext_new True False) = Inl BadConversion"
  by (rule play_command_undefined [of _ "lit ''cam''"]) (simp_all add: carries_body_packet bodies_short)

text \<open>a control message or command, queued on an idle connection, is handed to the connection at
  once, in one \<open>Send\<close>, and the bytes handed over are a message of the same type with the same body for
  the peer.\<close>

theorem push_message_received:
  assumes "\<not> sending c" "out_waiting_queue c = []" "sending_bufs c = []" "in_sync c r"
    and "0 < length content" "length content < 2 ^ 24" "length content \<le> capacity" "capacity < 2 ^ 31"
    and "2 \<le> csid" "csid < 65600"
    and "out_current c + header_room (unat (out_chunk_size c)) (length content) \<le> 4096"
  shows "\<exists>c' r' bufs. push_message capacity csid type sid content c = Inr c' \<and>
    events c' = events c @ [EvSend bufs] \<and> sending c' \<and> in_sync c' r' \<and>
    (\<forall>rest. length (concat bufs @ rest) < 2 ^ 31 \<longrightarrow>
      (\<exists>q. delivers (concat bufs @ rest) r q rest r' \<and> carries q content \<and> pk_type q = ucast type))"
  using assms by (rule push_message_wire)

lemma push_message_received_witness:
  "\<exists>c' r' bufs. push_message 1024 3 20 0 create_stream_body (RtmpContext_new True True) = Inr c' \<and>
    events c' = events (RtmpContext_new True True) @ [EvSend bufs] \<and> sending c' \<and> in_sync c' r' \<and>
    (\<forall>rest. 2 ^ 31 \<le> length (concat bufs @ rest) \<or>
      (\<exists>q. delivers (concat bufs @ rest) (RtmpContext_new True False\<lparr>in_chunk_size := 4096\<rparr>) q rest r' \<and>
        carries q create_stream_body \<and> pk_type q = ucast (20 :: byte)))"
  unfolding disj_small [symmetric]
  by (rule push_message_received)
    (simp_all add: RtmpContext_new_def in_sync_def bodies_short header_room_def)

text \<open>the chunk size the peer announces is the one it cuts its chunks by: whoever receives what
  \<open>SendSetChunkSize\<close> wrote splits at the sender's size from then on.\<close>

theorem chunk_size_agreed:
  assumes "carries p (WriteUint32T (out_chunk_size s))"
  shows "HandleChunkSize p r = Inr (r\<lparr>in_chunk_size := out_chunk_size s\<rparr>)"
proof -
  have "ReadUint32T (pk_data p) = Inr (out_chunk_size s)"
    using carries_data [OF assms] u32.dec_enc by metis
  moreover have "PacketSize p = 4" using assms by (simp add: carries_def u32.length_enc)
  ultimately show ?thesis by (simp add: HandleChunkSize_def)
qed

lemma chunk_size_agreed_witness:
  "HandleChunkSize (body_packet (WriteUint32T (out_chunk_size (RtmpContext_new True True)))) (RtmpContext_new True False)
    = Inr (RtmpContext_new True False\<lparr>in_chunk_size := out_chunk_size (RtmpContext_new True True)\<rparr>)"
  by (rule chunk_size_agreed) (simp add: carries_body_packet u32.length_enc)

lemma length_user_ctrl_body:
  "length (user_ctrl_body t a b) = (if t = kRtmpEventTypeSetBufferLength then 10 else 6)"
  by (simp add: user_ctrl_body_def Let_def u16.length_enc u32.length_enc)

text \<open>user control messages lose their event type: the value is written over it, so the peer reads
  the upper half of the value as the event type, and the lower half, shifted, as the value. A ping
  response echoing a small value reads as the event stream begin, whatever was sent.\<close>

lemma user_ctrl_type_lost:
  assumes "carries p (user_ctrl_body type value1 value2)" "type \<noteq> kRtmpEventTypeSetBufferLength"
  shows "ReadUint16T (pk_data p) = Inr (ucast (drop_bit 16 value1)) \<and>
    ReadUint32T (drop 2 (pk_data p)) = Inr (push_bit 16 value1)"
proof -
  have b: "user_ctrl_body type value1 value2 = WriteUint32T value1 @ [0, 0]"
    using assms(2) by (simp add: user_ctrl_body_def overwrite_def WriteUint32T_def WriteUint16T_def numeral_2_eq_2)
  have d: "pk_data p = (WriteUint32T value1 @ [0, 0]) @ drop 6 (pk_data p)"
    using carries_data [OF assms(1)] by (simp add: b u32.length_enc)
  have w: "WriteUint32T value1 = WriteUint16T (ucast (drop_bit 16 value1)) @ WriteUint16T (ucast value1)"
    by (simp add: WriteUint32T_def WriteUint16T_def) (auto intro!: bit_word_eqI simp: bit_simps)
  have h: "WriteUint16T (ucast value1) @ [0, 0] = WriteUint32T (push_bit 16 value1)"
    by (simp add: WriteUint32T_def WriteUint16T_def) (auto intro!: bit_word_eqI simp: bit_simps)
  have "pk_data p = WriteUint16T (ucast (drop_bit 16 value1)) @ WriteUint16T (ucast value1) @ [0, 0] @ drop 6 (pk_data p)"
    using d unfolding w by simp
  moreover have "drop 2 \<dots> = WriteUint32T (push_bit 16 value1) @ drop 6 (pk_data p)"
    unfolding h [symmetric] by (simp add: WriteUint16T_def)
  ultimately show ?thesis using u16.dec_enc u32.dec_enc by metis
qed

text \<open>a command with too few values makes the handler dereference a null pointer: \<open>connect\<close> without a
  \<open>tcUrl\<close>, \<open>createStream\<close> and \<open>_result\<close> without a transaction number, \<open>play\<close> and \<open>publish\<close> without a
  stream name, \<open>_error\<close> and \<open>onStatus\<close> without an information object; and a status of success on a
  connection without a handler.\<close>

theorem short_commands_crash:
  "(Property (lit ''tcUrl'') obj = None \<longrightarrow> HandleConnect obj c = Inl NullDeref) \<and>
   (length obj \<le> 1 \<longrightarrow> HandleCreateStream obj c = Inl NullDeref \<and> HandleResult obj c = Inl NullDeref) \<and>
   (length obj \<le> 3 \<longrightarrow> HandlePlay obj c = Inl NullDeref \<and> HandlePublish obj c = Inl NullDeref \<and>
     HandleError obj c = Inl NullDeref \<and> HandleStatus obj c = Inl NullDeref) \<and>
   (info_string obj (lit ''code'') = Inr (lit ''NetStream.Play.Start'') \<longrightarrow>
     info_string obj (lit ''level'') = Inr l \<longrightarrow> \<not> has_handler c \<longrightarrow> HandleStatus obj c = Inl NullDeref)"
proof (intro conjI impI)
  have p: "PropertyAt i obj = None" if "int (length obj) \<le> i" for i
    using that by (simp add: PropertyAt_def)
  show "HandleConnect obj c = Inl NullDeref" if "Property (lit ''tcUrl'') obj = None"
    using that by (simp add: HandleConnect_def the_prop_def)
  show "HandleCreateStream obj c = Inl NullDeref" "HandleResult obj c = Inl NullDeref" if "length obj \<le> 1"
    using that by (simp_all add: HandleCreateStream_def HandleResult_def the_prop_def p)
  show "HandlePlay obj c = Inl NullDeref" "HandlePublish obj c = Inl NullDeref" if "length obj \<le> 3"
    using p [of 3] that
    by (auto simp: HandlePlay_def HandlePublish_def the_prop_def split: option.splits
        simp del: bindE_eq_Inl)
  show "HandleError obj c = Inl NullDeref" "HandleStatus obj c = Inl NullDeref" if "length obj \<le> 3"
    using p [of 3] that by (simp_all add: HandleError_def HandleStatus_def info_string_def the_prop_def)
  show "HandleStatus obj c = Inl NullDeref" if "info_string obj (lit ''code'') = Inr (lit ''NetStream.Play.Start'')"
    "info_string obj (lit ''level'') = Inr l" "\<not> has_handler c"
    using that by (simp add: HandleStatus_def lit_def del: bindE_eq_Inl)
qed

lemma short_commands_crash_witness:
  "HandleConnect [] (RtmpContext_new True False) = Inl NullDeref \<and>
   HandleResult [AMFString [] (lit ''_result'')] (RtmpContext_new True True) = Inl NullDeref \<and>
   HandlePlay [AMFString [] (lit ''play'')] (RtmpContext_new True False) = Inl NullDeref \<and>
   HandleStatus [AMFString [] (lit ''onStatus''), AMFNumber [] 0, AMFNull [],
       AMFObject [] (status_props (lit ''status'') (lit ''NetStream.Play.Start'') [])]
     (RtmpContext_new False True) = Inl NullDeref"
proof -
  let ?obj = "[AMFString [] (lit ''onStatus''), AMFNumber [] 0, AMFNull [],
       AMFObject [] (status_props (lit ''status'') (lit ''NetStream.Play.Start'') [])]"
  have "info_string ?obj (lit ''code'') = Inr (lit ''NetStream.Play.Start'')"
    "info_string ?obj (lit ''level'') = Inr (lit ''status'')"
    by (simp_all add: info_string_def PropertyAt_def the_prop_def status_props_def lit_def)
  then show ?thesis
    using short_commands_crash [of "[]" "RtmpContext_new True False" "[]"]
      short_commands_crash [of "[AMFString [] (lit ''_result'')]" "RtmpContext_new True True" "[]"]
      short_commands_crash [of "[AMFString [] (lit ''play'')]" "RtmpContext_new True False" "[]"]
      short_commands_crash [of ?obj "RtmpContext_new False True" "lit ''status''"]
    by (simp add: RtmpContext_new_def)
qed

text \<open>the session a stream is registered under is the URL's host without its port, the application and
  the published name without its parameters, which are kept apart.\<close>

theorem session_of_url:
  assumes "47 \<notin> set host" "47 \<notin> set a" "a \<noteq> []" "tc_url c = lit ''rtmp://'' @ host @ lit ''/'' @ a"
  shows "session_name (ParseNameAndTcUrl c) =
      takeWhile (\<lambda>x. x \<noteq> 58) host @ lit ''/'' @ a @ lit ''/'' @ takeWhile (\<lambda>x. x \<noteq> 63) (name c) \<and>
    param (ParseNameAndTcUrl c) = drop 1 (dropWhile (\<lambda>x. x \<noteq> 63) (name c)) \<and>
    app (ParseNameAndTcUrl c) = a"
proof -
  have n: "name (cut_param c) = takeWhile (\<lambda>x. x \<noteq> 63) (name c)"
    using find_first_takeWhile [where P = "\<lambda>x. x = 63" and s = "name c"]
    by (simp add: cut_param_def Let_def split: option.splits)
  have p: "param (cut_param c) = drop 1 (dropWhile (\<lambda>x. x \<noteq> 63) (name c))"
    using find_first_dropWhile [where P = "\<lambda>x. x = 63" and s = "name c"]
    by (simp add: cut_param_def Let_def split: option.splits)
  show ?thesis
    using find_first_takeWhile [where P = "\<lambda>x. x = 58" and s = host]
    by (simp add: ParseNameAndTcUrl_def url_session [OF assms] n p Let_def)
qed

lemma session_of_url_witness:
  "session_name (ParseNameAndTcUrl (RtmpContext_new True False\<lparr>tc_url := lit ''rtmp://'' @ lit ''h.com:1935'' @ lit ''/'' @ lit ''live'',
      name := lit ''cam?k=1''\<rparr>)) =
      takeWhile (\<lambda>x. x \<noteq> 58) (lit ''h.com:1935'') @ lit ''/'' @ lit ''live'' @ lit ''/'' @
      takeWhile (\<lambda>x. x \<noteq> 63) (name (RtmpContext_new True False\<lparr>tc_url := lit ''rtmp://'' @ lit ''h.com:1935'' @ lit ''/'' @ lit ''live'',
      name := lit ''cam?k=1''\<rparr>)) \<and>
    param (ParseNameAndTcUrl (RtmpContext_new True False\<lparr>tc_url := lit ''rtmp://'' @ lit ''h.com:1935'' @ lit ''/'' @ lit ''live'',
      name := lit ''cam?k=1''\<rparr>)) = drop 1 (dropWhile (\<lambda>x. x \<noteq> 63) (name (RtmpContext_new True False\<lparr>tc_url := lit ''rtmp://'' @ lit ''h.com:1935'' @ lit ''/'' @ lit ''live'',
      name := lit ''cam?k=1''\<rparr>))) \<and>
    app (ParseNameAndTcUrl (RtmpContext_new True False\<lparr>tc_url := lit ''rtmp://'' @ lit ''h.com:1935'' @ lit ''/'' @ lit ''live'',
      name := lit ''cam?k=1''\<rparr>)) = lit ''live''"
  by (rule session_of_url) (simp_all add: lit_def)

end
