(* ===== verification/Players.thy ===== *)
theory Players
  imports Stream Flv RtmpContext
begin

text \<open>
  The players over HTTP and RTMP: \<open>src/live/user/FlvPlayerUser.cpp\<close> and \<open>RtmpPlayerUser.cpp\<close>. Both fetch
  from the stream and push what they have been handed, headers first, into the context of their
  connection whenever it is ready. The text of the two is the same but for the context they use, so
  it is one set of definitions over the operations of a context. Then what a viewer at the other end
  reads: FLV through a reader of the format, RTMP through the receiver of the library itself.
\<close>

section \<open>The operations a player needs of its context\<close>

record ('e, 'c) sink =
  sink_ready :: "'c \<Rightarrow> bool"
  sink_build :: "'e packet \<Rightarrow> u32 \<Rightarrow> bool \<Rightarrow> 'c \<Rightarrow> 'c res"
  sink_send :: "'c \<Rightarrow> 'c res"

definition flv_sink :: "('e, 'e flv_ctx) sink" where
  "flv_sink = \<lparr>sink_ready = Flv_Ready, sink_build = (\<lambda>p t is_header c. BuildFlvFrame p t c),
     sink_send = (\<lambda>c. Inr (Flv_Send c))\<rparr>"

definition rtmp_sink :: "(rtmp_hdr, rtmp_ctx) sink" where
  "rtmp_sink = \<lparr>sink_ready = Ready,
     sink_build = (\<lambda>p t is_header c. bindE (BuildChunk_copy p t is_header c) (\<lambda>(_, c). Inr c)), sink_send = Send\<rparr>"

text \<open>A player: what the stream keeps of it, the context of its connection, whether the connection is
  active, and, for HTTP, whether the header is out.\<close>

record ('e, 'c) player =
  pl_user :: "'e player_user"
  pl_sink :: "'c option"
  pl_active :: bool
  http_header_sent :: bool

definition Deactive :: "('e, 'c) player \<Rightarrow> ('e, 'c) player" where
  "Deactive x = x\<lparr>pl_active := False\<rparr>"

definition PushFrame :: "('e, 'c) sink \<Rightarrow> 'e packet \<Rightarrow> bool \<Rightarrow> ('e, 'c) player \<Rightarrow> (bool \<times> ('e, 'c) player) res" where
  "PushFrame k packet is_header x =
     (case pl_sink x of
        None \<Rightarrow> Inr (False, x)
      | Some c \<Rightarrow>
          if \<not> sink_ready k c then Inr (False, x)
          else bindE (if is_header then Inr (0, pu_corrector (pl_user x))
                      else CorrectTimestamp packet (pu_corrector (pl_user x))) (\<lambda>(ts, tc).
               bindE (sink_build k packet ts is_header c) (\<lambda>c.
               bindE (sink_send k c) (\<lambda>c.
                 Inr (True, x\<lparr>pl_sink := Some c, pl_user := (pl_user x)\<lparr>pu_corrector := tc\<rparr>\<rparr>)))))"

fun build_frames :: "('e, 'c) sink \<Rightarrow> 'e packet list \<Rightarrow> time_corrector \<Rightarrow> 'c \<Rightarrow> (time_corrector \<times> 'c) res" where
  "build_frames k [] tc c = Inr (tc, c)"
| "build_frames k (packet # ps) tc c =
     bindE (CorrectTimestamp packet tc) (\<lambda>(ts, tc).
     bindE (sink_build k packet ts False c) (\<lambda>c. build_frames k ps tc c))"

definition PushFrames :: "('e, 'c) sink \<Rightarrow> 'e packet list \<Rightarrow> ('e, 'c) player \<Rightarrow> (bool \<times> ('e, 'c) player) res" where
  "PushFrames k ps x =
     (case pl_sink x of
        None \<Rightarrow> Inr (False, x)
      | Some c \<Rightarrow>
          if \<not> sink_ready k c then Inr (False, x)
          else bindE (build_frames k ps (pu_corrector (pl_user x)) c) (\<lambda>(tc, c).
               bindE (sink_send k c) (\<lambda>c.
                 Inr (True, x\<lparr>pl_sink := Some c, pl_user := (pl_user x)\<lparr>pu_corrector := tc\<rparr>\<rparr>))))"

text \<open>What both \<open>PostFrames\<close> do after fetching.\<close>

definition post_next :: "('e, 'c) sink \<Rightarrow> ('e, 'c) player \<Rightarrow> ('e, 'c) player res" where
  "post_next k x =
     (case pu_meta (pl_user x) of
        Some p \<Rightarrow> bindE (PushFrame k p True x) (\<lambda>(ret, x).
          Inr (if ret then x\<lparr>pl_user := (pl_user x)\<lparr>pu_meta := None\<rparr>\<rparr> else x))
      | None \<Rightarrow>
     (case pu_audio_header (pl_user x) of
        Some p \<Rightarrow> bindE (PushFrame k p True x) (\<lambda>(ret, x).
          Inr (if ret then x\<lparr>pl_user := (pl_user x)\<lparr>pu_audio_header := None\<rparr>\<rparr> else x))
      | None \<Rightarrow>
     (case pu_video_header (pl_user x) of
        Some p \<Rightarrow> bindE (PushFrame k p True x) (\<lambda>(ret, x).
          Inr (if ret then x\<lparr>pl_user := (pl_user x)\<lparr>pu_video_header := None\<rparr>\<rparr> else x))
      | None \<Rightarrow>
          if out_frames (pl_user x) \<noteq> []
          then bindE (PushFrames k (out_frames (pl_user x)) x) (\<lambda>(ret, x).
                 Inr (if ret then x\<lparr>pl_user := (pl_user x)\<lparr>out_frames := []\<rparr>\<rparr> else x))
          else Inr (Deactive x))))"

definition RtmpPlayerUser_PostFrames ::
    "app_info \<Rightarrow> int \<Rightarrow> rtmp_hdr stream \<Rightarrow> (rtmp_hdr, rtmp_ctx) player \<Rightarrow> (bool \<times> (rtmp_hdr, rtmp_ctx) player) res" where
  "RtmpPlayerUser_PostFrames info now s x =
     (if \<not> ready s \<or> \<not> HasMedia s then Inr (False, Deactive x)
      else bindE (GetFrames info now s (pl_user x)) (\<lambda>u.
           bindE (post_next rtmp_sink (x\<lparr>pl_user := u\<rparr>)) (\<lambda>x. Inr (True, x))))"

definition PushFlvHttpHeader :: "'e stream \<Rightarrow> ('e, 'e flv_ctx) player \<Rightarrow> ('e, 'e flv_ctx) player res" where
  "PushFlvHttpHeader s x =
     (case pl_sink x of
        None \<Rightarrow> Inr x
      | Some c \<Rightarrow> bindE (SendFlvHttpHeader (has_video s) (has_audio s) c) (\<lambda>c.
          Inr (x\<lparr>pl_sink := Some c, http_header_sent := True\<rparr>)))"

definition FlvPlayerUser_PostFrames ::
    "app_info \<Rightarrow> int \<Rightarrow> 'e stream \<Rightarrow> ('e, 'e flv_ctx) player \<Rightarrow> (bool \<times> ('e, 'e flv_ctx) player) res" where
  "FlvPlayerUser_PostFrames info now s x =
     (if \<not> ready s \<or> \<not> HasMedia s then Inr (False, Deactive x)
      else if \<not> http_header_sent x then bindE (PushFlvHttpHeader s x) (\<lambda>x. Inr (False, x))
      else bindE (GetFrames info now s (pl_user x)) (\<lambda>u.
           bindE (post_next flv_sink (x\<lparr>pl_user := u\<rparr>)) (\<lambda>x. Inr (True, x))))"

definition Player_new :: "int \<Rightarrow> 'c option \<Rightarrow> ('e, 'c) player" where
  "Player_new now c = \<lparr>pl_user = PlayerUser_new now, pl_sink = c, pl_active = False, http_header_sent = False\<rparr>"

section \<open>What a player owes its viewer\<close>

text \<open>The packets the next push sends, each with whether it is a header; and the player once they are sent.\<close>

definition due :: "'e player_user \<Rightarrow> ('e packet \<times> bool) list" where
  "due u = (case pu_meta u of Some p \<Rightarrow> [(p, True)] | None \<Rightarrow>
     (case pu_audio_header u of Some p \<Rightarrow> [(p, True)] | None \<Rightarrow>
     (case pu_video_header u of Some p \<Rightarrow> [(p, True)] | None \<Rightarrow> map (\<lambda>p. (p, False)) (out_frames u))))"

definition paid :: "time_corrector \<Rightarrow> 'e player_user \<Rightarrow> 'e player_user" where
  "paid tc u = (if pu_meta u \<noteq> None then u\<lparr>pu_meta := None\<rparr>
     else if pu_audio_header u \<noteq> None then u\<lparr>pu_audio_header := None\<rparr>
     else if pu_video_header u \<noteq> None then u\<lparr>pu_video_header := None\<rparr>
     else u\<lparr>pu_corrector := tc, out_frames := []\<rparr>)"

text \<open>Its data is as long as its size says.\<close>

definition readable :: "'e packet \<Rightarrow> bool" where
  "readable p \<longleftrightarrow> unat (pk_size p) \<le> length (pk_data p) \<and> unat (pk_size p) < 2 ^ 31"

lemma CorrectTimestamp_readable:
  assumes "readable p"
  shows "\<exists>t tc'. CorrectTimestamp p tc = Inr (t, tc')"
proof -
  have "PacketSize p = int (unat (pk_size p))"
    using assms by (simp add: PacketSize_def readable_def sint_unat_small)
  then have "1 < PacketSize p \<longrightarrow> 1 < length (pk_data p)" using assms unfolding readable_def by linarith
  then have "\<exists>b. IsCodecHeader p = Inr b" by (auto simp: IsCodecHeader_def data_at_def)
  then obtain b where "IsCodecHeader p = Inr b" ..
  then have "CorrectTimestamp p tc \<noteq> Inl e" for e by (simp add: CorrectTimestamp_def Let_def)
  then show ?thesis by (cases "CorrectTimestamp p tc") auto
qed

text \<open>The corrected times of the frames that are due; a header has time 0.\<close>

fun stamps :: "time_corrector \<Rightarrow> 'e packet list \<Rightarrow> u32 list" where
  "stamps tc [] = []"
| "stamps tc (p # ps) = (case CorrectTimestamp p tc of Inl e \<Rightarrow> [] | Inr (t, tc') \<Rightarrow> t # stamps tc' ps)"

fun after_stamps :: "time_corrector \<Rightarrow> 'e packet list \<Rightarrow> time_corrector" where
  "after_stamps tc [] = tc"
| "after_stamps tc (p # ps) = (case CorrectTimestamp p tc of Inl e \<Rightarrow> tc | Inr (t, tc') \<Rightarrow> after_stamps tc' ps)"

lemma stamps_append:
  "list_all readable ps \<Longrightarrow> stamps tc (ps @ qs) = stamps tc ps @ stamps (after_stamps tc ps) qs \<and>
     after_stamps tc (ps @ qs) = after_stamps (after_stamps tc ps) qs"
proof (induction ps arbitrary: tc)
  case (Cons p ps)
  then obtain t tc' where "CorrectTimestamp p tc = Inr (t, tc')" using CorrectTimestamp_readable [of p tc] by auto
  then show ?case using Cons by simp
qed simp

definition due_times :: "'e player_user \<Rightarrow> u32 list" where
  "due_times u = (if pu_meta u \<noteq> None \<or> pu_audio_header u \<noteq> None \<or> pu_video_header u \<noteq> None then [0]
     else stamps (pu_corrector u) (out_frames u))"

text \<open>A context: \<open>fits ms c\<close> says that \<open>c\<close> can take the packets \<open>ms\<close> and \<open>wrote fs c\<close> that the other end
  reads \<open>fs\<close>, a list of packets and times; it need only work for times that are \<open>timely\<close>.\<close>

locale frame_sink =
  fixes k :: "('e, 'c) sink"
    and fits :: "('e packet \<times> bool) list \<Rightarrow> 'c \<Rightarrow> bool"
    and wrote :: "('e packet \<times> u32) list \<Rightarrow> 'c \<Rightarrow> bool"
    and timely :: "u32 \<Rightarrow> bool"
  assumes build: "fits ((p, h) # ms) c \<Longrightarrow> timely t \<Longrightarrow> \<exists>c'. sink_build k p t h c = Inr c' \<and> fits ms c' \<and>
      (\<forall>fs. wrote fs c \<longrightarrow> wrote (fs @ [(p, t)]) c')"
    and send: "fits [] c \<Longrightarrow> \<exists>c'. sink_send k c = Inr c' \<and> \<not> sink_ready k c' \<and> (\<forall>fs. wrote fs c \<longrightarrow> wrote fs c')"
    and data: "fits ((p, h) # ms) c \<Longrightarrow> readable p"
    and start: "timely 0"
begin

text \<open>\<open>c'\<close> has sent what \<open>c\<close> had, then the packets \<open>ms\<close> with the times \<open>ts\<close>.\<close>

definition went :: "('e packet \<times> bool) list \<Rightarrow> u32 list \<Rightarrow> 'c \<Rightarrow> 'c \<Rightarrow> bool" where
  "went ms ts c c' \<longleftrightarrow> length ts = length ms \<and> (\<forall>fs. wrote fs c \<longrightarrow> wrote (fs @ zip (map fst ms) ts) c')"

lemma went_Cons:
  assumes "\<forall>fs. wrote fs c \<longrightarrow> wrote (fs @ [(p, t)]) c1" "went ms ts c1 c'"
  shows "went ((p, h) # ms) (t # ts) c c'"
  using assms unfolding went_def by fastforce

lemma build_frames_fits:
  "fits (map (\<lambda>p. (p, False)) ps @ ms) c \<Longrightarrow> list_all timely (stamps tc ps) \<Longrightarrow>
   \<exists>c'. build_frames k ps tc c = Inr (after_stamps tc ps, c') \<and> fits ms c' \<and> went (map (\<lambda>p. (p, False)) ps) (stamps tc ps) c c'"
proof (induction ps arbitrary: tc c)
  case Nil
  then show ?case by (simp add: went_def)
next
  case (Cons p ps)
  then have f: "fits ((p, False) # map (\<lambda>p. (p, False)) ps @ ms) c" by simp
  obtain t tc1 where t: "CorrectTimestamp p tc = Inr (t, tc1)" using CorrectTimestamp_readable [OF data [OF f]] by blast
  then have timely: "timely t" "list_all timely (stamps tc1 ps)" using Cons.prems(2) by simp_all
  obtain c1 where c1: "sink_build k p t False c = Inr c1" "fits (map (\<lambda>p. (p, False)) ps @ ms) c1"
      "\<forall>fs. wrote fs c \<longrightarrow> wrote (fs @ [(p, t)]) c1"
    using build [OF f timely(1)] by blast
  obtain c' where "build_frames k ps tc1 c1 = Inr (after_stamps tc1 ps, c')" "fits ms c'"
      "went (map (\<lambda>p. (p, False)) ps) (stamps tc1 ps) c1 c'"
    using Cons.IH [OF c1(2) timely(2)] by blast
  then show ?case using went_Cons [OF c1(3), of _ _ c' False] t c1(1) by simp
qed

lemma PushFrame_fits:
  assumes "pl_sink x = Some c" "sink_ready k c" "fits [(p, True)] c"
  shows "\<exists>c'. PushFrame k p True x = Inr (True, x\<lparr>pl_sink := Some c'\<rparr>) \<and> \<not> sink_ready k c' \<and> went [(p, True)] [0] c c'"
proof -
  obtain c1 where c1: "sink_build k p 0 True c = Inr c1" "fits [] c1" "\<forall>fs. wrote fs c \<longrightarrow> wrote (fs @ [(p, 0)]) c1"
    using build [OF assms(3) start] by blast
  obtain c' where c': "sink_send k c1 = Inr c'" "\<not> sink_ready k c'" "\<forall>fs. wrote fs c1 \<longrightarrow> wrote fs c'"
    using send [OF c1(2)] by blast
  have "went [] [] c1 c'" using c'(3) by (simp add: went_def)
  then show ?thesis using assms c1(1) c'(1,2) went_Cons [OF c1(3), of "[]" "[]" c' True]
    by (intro exI [of _ c']) (simp add: PushFrame_def)
qed

lemma PushFrames_fits:
  assumes "pl_sink x = Some c" "sink_ready k c" "fits (map (\<lambda>p. (p, False)) ps) c"
    and "list_all timely (stamps (pu_corrector (pl_user x)) ps)"
  shows "\<exists>c'. PushFrames k ps x = Inr (True, x\<lparr>pl_sink := Some c',
      pl_user := (pl_user x)\<lparr>pu_corrector := after_stamps (pu_corrector (pl_user x)) ps\<rparr>\<rparr>) \<and>
    \<not> sink_ready k c' \<and> went (map (\<lambda>p. (p, False)) ps) (stamps (pu_corrector (pl_user x)) ps) c c'"
proof -
  obtain c1 where c1: "build_frames k ps (pu_corrector (pl_user x)) c = Inr (after_stamps (pu_corrector (pl_user x)) ps, c1)" "fits [] c1"
      "went (map (\<lambda>p. (p, False)) ps) (stamps (pu_corrector (pl_user x)) ps) c c1"
    using build_frames_fits [of ps "[]" c] assms(3,4) by fastforce
  obtain c' where c': "sink_send k c1 = Inr c'" "\<not> sink_ready k c'" "\<forall>fs. wrote fs c1 \<longrightarrow> wrote fs c'"
    using send [OF c1(2)] by blast
  have "went (map (\<lambda>p. (p, False)) ps) (stamps (pu_corrector (pl_user x)) ps) c c'" using c1(3) c'(3) by (simp add: went_def)
  then show ?thesis using assms(1,2) c1(1) c'(1,2)
    by (intro exI [of _ c']) (simp add: PushFrames_def)
qed

text \<open>A push sends what is due, all of it or nothing.\<close>

lemma post_next_ready:
  assumes "pl_sink x = Some c" "sink_ready k c" "fits (due (pl_user x)) c" "due (pl_user x) \<noteq> []"
    and "list_all timely (due_times (pl_user x))"
  shows "\<exists>c'. post_next k x = Inr (x\<lparr>pl_sink := Some c',
      pl_user := paid (after_stamps (pu_corrector (pl_user x)) (out_frames (pl_user x))) (pl_user x)\<rparr>) \<and>
    \<not> sink_ready k c' \<and> went (due (pl_user x)) (due_times (pl_user x)) c c'"
proof -
  let ?u = "pl_user x"
  consider (hdr) p where "due ?u = [(p, True)]" "pu_meta ?u = Some p \<or>
        pu_meta ?u = None \<and> (pu_audio_header ?u = Some p \<or> pu_audio_header ?u = None \<and> pu_video_header ?u = Some p)"
    | (frames) "due ?u = map (\<lambda>p. (p, False)) (out_frames ?u)" "pu_meta ?u = None" "pu_audio_header ?u = None"
        "pu_video_header ?u = None" "out_frames ?u \<noteq> []"
    using assms(4) by (auto simp: due_def split: option.splits)
  then show ?thesis
  proof cases
    case hdr
    then have "fits [(p, True)] c" using assms(3) by simp
    from PushFrame_fits [OF assms(1,2) this] obtain c' where
      "PushFrame k p True x = Inr (True, x\<lparr>pl_sink := Some c'\<rparr>)" "\<not> sink_ready k c'" "went [(p, True)] [0] c c'" by blast
    then show ?thesis using hdr by (auto simp: post_next_def paid_def due_times_def)
  next
    case frames
    from PushFrames_fits [OF assms(1,2), of "out_frames ?u"] assms(3,5) frames(1-4) obtain c' where
      "PushFrames k (out_frames ?u) x = Inr (True, x\<lparr>pl_sink := Some c',
         pl_user := ?u\<lparr>pu_corrector := after_stamps (pu_corrector ?u) (out_frames ?u)\<rparr>\<rparr>)"
      "\<not> sink_ready k c'" "went (map (\<lambda>p. (p, False)) (out_frames ?u)) (due_times ?u) c c'" by (auto simp: due_times_def)
    then show ?thesis using frames by (intro exI [of _ c']) (simp add: post_next_def paid_def)
  qed
qed

end

text \<open>A busy context takes nothing, and with nothing due the player goes to sleep.\<close>

lemma post_next_busy:
  assumes "pl_sink x = Some c" "\<not> sink_ready k c \<or> due (pl_user x) = []"
  shows "post_next k x = Inr (if due (pl_user x) = [] then Deactive x else x)"
  using assms by (auto simp: post_next_def due_def PushFrame_def PushFrames_def split: option.splits)

section \<open>A viewer over HTTP\<close>

definition flv_reads :: "('e packet \<times> u32) list \<Rightarrow> 'e flv_ctx \<Rightarrow> bool" where
  "flv_reads fs c \<longleftrightarrow> (\<exists>flags. flv_wrote flags fs c)"

definition flv_fits :: "('e packet \<times> bool) list \<Rightarrow> 'e flv_ctx \<Rightarrow> bool" where
  "flv_fits ms c \<longleftrightarrow> list_all (\<lambda>(p, _). flv_ok p) ms \<and> fc_current c + 15 * length ms \<le> 512 \<and> \<not> fc_sending c"

interpretation flv: frame_sink flv_sink flv_fits flv_reads "\<lambda>_. True"
proof
  fix p h ms c t
  assume f: "flv_fits ((p, h) # ms) c"
  then have p: "flv_ok p" "fc_current c + 15 \<le> 512" "\<not> fc_sending c" by (auto simp: flv_fits_def)
  obtain c' where c': "BuildFlvFrame p t c = Inr c'" "\<not> fc_sending c'" "fc_current c' = fc_current c + 15"
    using BuildFlvFrame_wrote [OF p] by blast
  then have "flv_wrote flags fs c \<longrightarrow> flv_wrote flags (fs @ [(p, t)]) c'" for flags fs
    using BuildFlvFrame_wrote [OF p, of t flags fs] by auto
  then show "\<exists>c'. sink_build flv_sink p t h c = Inr c' \<and> flv_fits ms c' \<and>
      (\<forall>fs. flv_reads fs c \<longrightarrow> flv_reads (fs @ [(p, t)]) c')"
    using f c' by (intro exI [of _ c']) (auto simp: flv_sink_def flv_fits_def flv_reads_def)
  show "readable p" using p(1) by (simp add: readable_def flv_ok_def)
next
  fix c :: "'a flv_ctx"
  show "\<exists>c'. sink_send flv_sink c = Inr c' \<and> \<not> sink_ready flv_sink c' \<and> (\<forall>fs. flv_reads fs c \<longrightarrow> flv_reads fs c')"
    using Flv_Send_wrote by (fastforce simp: flv_sink_def Flv_Ready_def flv_reads_def)
qed simp

text \<open>The codec headers of a stream are packets of the stream, and so are those a player is handed.\<close>

definition header_set :: "'e codec_header \<Rightarrow> 'e packet set" where
  "header_set c = set (meta_packets c) \<union> set (audio_header_packets c) \<union> set (video_header_packets c) \<union>
     set_option (ch_meta c) \<union> set_option (ch_audio c) \<union> set_option (ch_video c)"

definition user_headers :: "'e player_user \<Rightarrow> 'e packet set" where
  "user_headers u = set_option (pu_meta u) \<union> set_option (pu_audio_header u) \<union> set_option (pu_video_header u)"

lemma header_search_mem: "header_search idx qs newest = Some p \<Longrightarrow> p \<in> set qs \<or> newest = Some p"
  by (induction qs) (auto split: if_splits)

lemma header_mem:
  "Meta idx c = Some p \<Longrightarrow> p \<in> header_set c" "AudioHeader idx c = Some p \<Longrightarrow> p \<in> header_set c"
  "VideoHeader idx c = Some p \<Longrightarrow> p \<in> header_set c"
  by (auto simp: Meta_def AudioHeader_def VideoHeader_def header_set_def split: if_splits dest: header_search_mem)

lemma keep_header_set:
  assumes "keep_header q s = Inr s'"
  shows "header_set (codec_headers s') \<subseteq> insert q (header_set (codec_headers s))"
  using assms
  by (auto simp: keep_header_def ParseCodecHeader_def SaveMeta_def SaveAudioHeader_def SaveVideoHeader_def header_set_def
      Let_def elim!: bindE_InrE split: if_splits)

lemma AddPacket_header_set:
  assumes "AddPacket info now p s = Inr (b, s')" "holds h s" "packet_buffer s' ! (length h mod packet_buffer_size) = Some q"
  shows "header_set (codec_headers s') \<subseteq> insert q (header_set (codec_headers s))"
proof -
  have n: "frame_index s + 1 = int (length h)" using assms(2) by (simp add: holds_def)
  obtain t c q' s1 s2 s3 where
      1: "mark_key now (SetIndex (word_of_int (int (length h))) (SetTimeStamp (ucast (t :: u32)) p))
        (s\<lparr>st_corrector := c, frame_index := int (length h)\<rparr>) = Inr (q', s1)"
    and 2: "keep_header q' s1 = Inr s2" and 3: "ProcessHls info now q' (s2\<lparr>st_gops := AddFrame q' (st_gops s2)\<rparr>) = Inr s3"
    and s': "s' = store_packet now q' s3"
    by (rule AddPacket_steps [OF assms(1) n])
  note m = mark_key_same [OF 1] and k = keep_header_same [OF 2] and hl = ProcessHls_same [OF 3]
  have "packet_buffer s3 = packet_buffer s" "frame_index s3 = int (length h)" using m k hl by simp_all
  moreover have "length (packet_buffer s) = packet_buffer_size" using assms(2) by (simp add: holds_def)
  ultimately have "q = q'" using assms(3) ring_size(2) by (simp add: s' store_packet_same)
  moreover have "codec_headers s' = codec_headers s2" using hl by (simp add: s' store_packet_def Let_def)
  moreover have "codec_headers s1 = codec_headers s" using m by simp
  ultimately show ?thesis using keep_header_set [OF 2] by simp
qed

lemma next_frames_user:
  assumes "length (packet_buffer s) = packet_buffer_size"
  shows "\<exists>u'. next_frames n i s u = Inr u' \<and> user_headers u' = user_headers u \<and>
    length (out_frames u') \<le> length (out_frames u) + n"
proof (induction n arbitrary: i u)
  case (Suc n)
  let ?j = "unat (word_of_int i :: u32) mod packet_buffer_size"
  show ?case
  proof (cases "frame_index s < i \<or> packet_buffer s ! ?j = None")
    case True
    then show ?thesis using assms ring_size(2) by (auto simp: element_def)
  next
    case False
    then obtain q where q: "packet_buffer s ! ?j = Some q" by auto
    obtain u' where u': "next_frames n (Index q + 1) s (u\<lparr>out_frames := out_frames u @ [q], out_index := Index q,
        out_frame_timestamp := to_int32 (sint (pk_timestamp q))\<rparr>) = Inr u'"
        "user_headers u' = user_headers u" "length (out_frames u') \<le> length (out_frames u) + 1 + n"
      using Suc.IH [of "Index q + 1" "u\<lparr>out_frames := out_frames u @ [q], out_index := Index q,
        out_frame_timestamp := to_int32 (sint (pk_timestamp q))\<rparr>"] by (auto simp: user_headers_def)
    then show ?thesis using False q assms ring_size(2) by (simp add: element_def)
  qed
qed simp

lemma wait_for_user:
  "out_frames (wait_for_meta i s u) = out_frames u" "out_frames (wait_for_audio i s u) = out_frames u"
  "out_frames (wait_for_video i s u) = out_frames u"
  "user_headers (wait_for_meta i s u) \<subseteq> user_headers u \<union> header_set (codec_headers s)"
  "user_headers (wait_for_audio i s u) \<subseteq> user_headers u \<union> header_set (codec_headers s)"
  "user_headers (wait_for_video i s u) \<subseteq> user_headers u \<union> header_set (codec_headers s)"
  by (auto simp: wait_for_meta_def wait_for_audio_def wait_for_video_def user_headers_def Let_def header_mem
      split: option.splits)

lemma LocateGop_user:
  "out_frames (snd (LocateGop info now s u)) = out_frames u \<and>
   user_headers (snd (LocateGop info now s u)) \<subseteq> user_headers u \<union> header_set (codec_headers s)"
proof -
  obtain i l where g: "GetGopByLatency (sint (content_latency info)) (st_gops s) = (i, l)" by fastforce
  define m where "m = wait_for_meta i s (u\<lparr>out_index := i - 1\<rparr>)"
  define a where "a = wait_for_audio i s m"
  define w where "w = wait_for_video i s a"
  have "user_headers (u\<lparr>out_index := i - 1\<rparr>) = user_headers u" by (simp add: user_headers_def)
  then have "user_headers w \<subseteq> user_headers u \<union> header_set (codec_headers s)"
    using wait_for_user(4) [of i s "u\<lparr>out_index := i - 1\<rparr>"] wait_for_user(5) [of i s m] wait_for_user(6) [of i s a]
    unfolding m_def a_def w_def by blast
  moreover have "out_frames w = out_frames u" by (simp add: w_def a_def m_def wait_for_user)
  ultimately have w: "out_frames w = out_frames u" "user_headers w \<subseteq> user_headers u \<union> header_set (codec_headers s)"
    by simp_all
  have n: "out_frames (note_timeout now v) = out_frames v" "user_headers (note_timeout now v) = user_headers v" for v :: "'a player_user"
    by (simp_all add: note_timeout_def user_headers_def)
  have "snd (LocateGop info now s u) \<in> {note_timeout now u, note_timeout now w,
      w\<lparr>wait_meta := True, wait_audio := True, wait_video := True, out_version := stream_version s\<rparr>}"
    by (simp add: LocateGop_def g w_def a_def m_def Let_def)
  moreover have "user_headers (w\<lparr>wait_meta := True, wait_audio := True, wait_video := True, out_version := v\<rparr>) =
      user_headers w" for v by (simp add: user_headers_def)
  ultimately show ?thesis using w n by auto
qed

lemma SkipFrame_user: "user_headers (SkipFrame info s u) \<subseteq> user_headers u \<union> header_set (codec_headers s)"
  by (auto simp: SkipFrame_def skip_to_def user_headers_def Let_def header_mem split: prod.splits option.splits if_splits)

text \<open>Fetching never faults, hands out at most ten packets and only headers of the stream.\<close>

lemma GetFrames_user:
  assumes "length (packet_buffer s) = packet_buffer_size" "length (out_frames u) \<le> 10"
  shows "\<exists>u'. GetFrames info now s u = Inr u' \<and> length (out_frames u') \<le> 10 \<and>
    user_headers u' \<subseteq> user_headers u \<union> header_set (codec_headers s)"
proof -
  have next10: "\<exists>u'. GetNextFrame s v = Inr u' \<and> length (out_frames u') \<le> 10 \<and>
      user_headers u' \<subseteq> user_headers u \<union> header_set (codec_headers s)"
    if "out_frames v = []" "user_headers v \<subseteq> user_headers u \<union> header_set (codec_headers s)" for v
    using next_frames_user [OF assms(1), of 10 "out_index v + 1" v] that by (auto simp: GetNextFrame_def)
  show ?thesis
  proof (cases "\<not> HasMedia s \<or> pu_meta u \<noteq> None \<or> pu_audio_header u \<noteq> None \<or> pu_video_header u \<noteq> None \<or> out_frames u \<noteq> []")
    case True
    then show ?thesis using assms(2) by (auto simp: GetFrames_def)
  next
    case False
    let ?v = "if must_skip info s u then SkipFrame info s u else u" and ?l = "LocateGop info now s u"
    have v: "out_frames ?v = []" "user_headers ?v \<subseteq> user_headers u \<union> header_set (codec_headers s)"
      using False SkipFrame_user [of info s u] SkipFrame_later [of info s u] by auto
    have l: "out_frames (snd ?l) = []" "user_headers (snd ?l) \<subseteq> user_headers u \<union> header_set (codec_headers s)"
      using False LocateGop_user [of info now s u] by auto
    have "GetFrames info now s u = (if 0 \<le> out_index u then GetNextFrame s ?v
        else if fst ?l then GetNextFrame s (snd ?l) else Inr (snd ?l))"
      using False by (simp add: GetFrames_def split: prod.split)
    then show ?thesis using next10 [OF v] next10 [OF l] l by auto
  qed
qed

lemma session_run_paid:
  assumes "session_run info ps h s u out"
  shows "session_run info ps h s (paid tc u) (out @ map fst (filter (\<lambda>m. \<not> snd m) (due u)))"
proof -
  have frames: "map fst (filter (\<lambda>m. \<not> snd m) (map (\<lambda>p. (p, False)) fs)) = fs" for fs :: "'a packet list"
    by (induction fs) simp_all
  have swap: "u\<lparr>pu_corrector := tc, out_frames := []\<rparr> = u\<lparr>out_frames := [], pu_corrector := tc\<rparr>" by simp
  show ?thesis
    using session_run.meta_sent [OF assms] session_run.audio_sent [OF assms] session_run.video_sent [OF assms]
      session_run.sent [OF assms, of tc]
    by (auto simp: paid_def due_def swap frames comp_def split: option.splits)
qed

lemma paid_user: "user_headers (paid tc u) \<subseteq> user_headers u" "length (out_frames (paid tc u)) \<le> length (out_frames u)"
  by (auto simp: paid_def user_headers_def)

lemma due_from: "fst ` set (due u) \<subseteq> user_headers u \<union> set (out_frames u)"
  by (auto simp: due_def user_headers_def split: option.splits)

lemma length_due: "length (out_frames u) \<le> 10 \<Longrightarrow> length (due u) \<le> 10"
  by (auto simp: due_def split: option.splits)

text \<open>The headers of each kind, those sent and the one that is due, are codec headers of the kind, in the order of the
  stream and each once; \<open>idx\<close> is the index of the newest.\<close>

definition coded :: "'e packet \<Rightarrow> bool" where
  "coded p \<longleftrightarrow> IsCodecHeader p = Inr True"

definition kept_headers :: "'e codec_header \<Rightarrow> bool" where
  "kept_headers c \<longleftrightarrow> (\<forall>p \<in> set (meta_packets c) \<union> set_option (ch_meta c). IsMeta p \<and> coded p) \<and>
     (\<forall>p \<in> set (audio_header_packets c) \<union> set_option (ch_audio c). IsAudio p \<and> coded p) \<and>
     (\<forall>p \<in> set (video_header_packets c) \<union> set_option (ch_video c). IsVideo p \<and> coded p)"

definition kind_once :: "('e packet \<Rightarrow> bool) \<Rightarrow> 'e packet option \<Rightarrow> int \<Rightarrow> 'e packet list \<Rightarrow> bool" where
  "kind_once K next idx hs \<longleftrightarrow> set_option next \<subseteq> {p. K p \<and> coded p} \<and>
     sorted_wrt (\<lambda>p q. Index p < Index q) (filter K hs @ (case next of None \<Rightarrow> [] | Some p \<Rightarrow> [p])) \<and>
     list_all (\<lambda>p. Index p \<le> idx) (filter K hs @ (case next of None \<Rightarrow> [] | Some p \<Rightarrow> [p]))"

definition headers_once :: "'e player_user \<Rightarrow> 'e packet list \<Rightarrow> bool" where
  "headers_once u hs \<longleftrightarrow> kind_once IsMeta (pu_meta u) (meta_index u) hs \<and>
     kind_once IsAudio (pu_audio_header u) (audio_header_index u) hs \<and>
     kind_once IsVideo (pu_video_header u) (video_header_index u) hs \<and> list_all coded hs \<and>
     (out_index u < 0 \<longrightarrow> hs = [] \<and> pu_meta u = None \<and> pu_audio_header u = None \<and> pu_video_header u = None)"

lemma kind_once_next: "kind_once K None idx hs \<Longrightarrow> K p \<Longrightarrow> coded p \<Longrightarrow> idx < Index p \<Longrightarrow> kind_once K (Some p) (Index p) hs"
  by (fastforce simp: kind_once_def sorted_wrt_append list_all_iff)

lemma kind_once_first: "K p \<Longrightarrow> coded p \<Longrightarrow> kind_once K (Some p) (Index p) []"
  by (simp add: kind_once_def)

lemma kind_once_sent: "kind_once K (Some p) idx hs \<Longrightarrow> kind_once K None idx (hs @ [p])"
  by (simp add: kind_once_def)

lemma kind_once_other: "kind_once K next idx hs \<Longrightarrow> \<not> K p \<Longrightarrow> kind_once K next idx (hs @ [p])"
  by (simp add: kind_once_def)

lemma kept_search:
  assumes "kept_headers c"
  shows "Meta idx c = Some p \<Longrightarrow> IsMeta p \<and> coded p" "AudioHeader idx c = Some p \<Longrightarrow> IsAudio p \<and> coded p"
    "VideoHeader idx c = Some p \<Longrightarrow> IsVideo p \<and> coded p"
  using assms by (auto simp: kept_headers_def Meta_def AudioHeader_def VideoHeader_def split: if_splits dest: header_search_mem)

lemma keep_header_kept:
  assumes "keep_header q s = Inr s'" "kept_headers (codec_headers s)"
  shows "kept_headers (codec_headers s')"
proof -
  obtain b where b: "IsCodecHeader q = Inr b" using assms(1) by (auto simp: keep_header_def elim!: bindE_InrE)
  show ?thesis
  proof (cases b)
    case True
    then have "coded q" using b by (simp add: coded_def)
    then show ?thesis using assms b
      by (auto simp: keep_header_def ParseCodecHeader_def SaveMeta_def SaveAudioHeader_def SaveVideoHeader_def kept_headers_def
          Let_def elim!: bindE_InrE split: if_splits)
  next
    case False
    then show ?thesis using assms b by (simp add: keep_header_def)
  qed
qed

lemma AddPacket_kept:
  assumes "AddPacket info now p s = Inr (b, s')" "kept_headers (codec_headers s)"
  shows "kept_headers (codec_headers s')"
proof -
  obtain t c q s1 s2 s3 where
      1: "mark_key now (SetIndex (word_of_int (frame_index s + 1)) (SetTimeStamp (ucast (t :: u32)) p))
        (s\<lparr>st_corrector := c, frame_index := frame_index s + 1\<rparr>) = Inr (q, s1)"
    and 2: "keep_header q s1 = Inr s2" and 3: "ProcessHls info now q (s2\<lparr>st_gops := AddFrame q (st_gops s2)\<rparr>) = Inr s3"
    and s': "s' = store_packet now q s3"
    by (rule AddPacket_steps [OF assms(1) refl])
  have "codec_headers s1 = codec_headers s" using mark_key_same [OF 1] by simp
  then show ?thesis using keep_header_kept [OF 2] assms(2) ProcessHls_same [OF 3] by (simp add: s' store_packet_def Let_def)
qed

lemma skip_to_once:
  assumes "headers_once u hs" "kept_headers (codec_headers s)" "pu_meta u = None" "pu_audio_header u = None" "pu_video_header u = None"
    and "0 \<le> out_index u" "out_index u < idx"
  shows "headers_once (skip_to idx s u) hs"
proof -
  have k: "kind_once IsMeta None (meta_index u) hs" "kind_once IsAudio None (audio_header_index u) hs"
      "kind_once IsVideo None (video_header_index u) hs" "list_all coded hs"
    using assms(1,3-5) by (simp_all add: headers_once_def)
  have out: "out_index (skip_to idx s u) = idx - 1" by (simp add: skip_to_def Let_def)
  have "kind_once IsMeta (pu_meta (skip_to idx s u)) (meta_index (skip_to idx s u)) hs"
    using k(1) assms(3) kept_search(1) [OF assms(2)] kind_once_next [OF k(1)]
    by (auto simp: skip_to_def Let_def split: option.splits)
  moreover have "kind_once IsAudio (pu_audio_header (skip_to idx s u)) (audio_header_index (skip_to idx s u)) hs"
    using k(2) assms(4) kept_search(2) [OF assms(2)] kind_once_next [OF k(2)]
    by (auto simp: skip_to_def Let_def split: option.splits)
  moreover have "kind_once IsVideo (pu_video_header (skip_to idx s u)) (video_header_index (skip_to idx s u)) hs"
    using k(3) assms(5) kept_search(3) [OF assms(2)] kind_once_next [OF k(3)]
    by (auto simp: skip_to_def Let_def split: option.splits)
  ultimately show ?thesis using k(4) out assms(6,7) by (simp add: headers_once_def)
qed

lemma SkipFrame_once:
  assumes "headers_once u hs" "kept_headers (codec_headers s)" "pu_meta u = None" "pu_audio_header u = None" "pu_video_header u = None"
    and "0 \<le> out_index u"
  shows "headers_once (SkipFrame info s u) hs"
  using skip_to_once [OF assms] assms(1) by (auto simp: SkipFrame_def split: prod.split)

text \<open>At its first group a player gets one header of each kind.\<close>

lemma wait_for_kinds:
  assumes "kept_headers (codec_headers s)"
  shows "kind_once IsMeta (pu_meta u) (meta_index u) [] \<Longrightarrow>
      kind_once IsMeta (pu_meta (wait_for_meta i s u)) (meta_index (wait_for_meta i s u)) []"
    "kind_once IsAudio (pu_audio_header u) (audio_header_index u) [] \<Longrightarrow>
      kind_once IsAudio (pu_audio_header (wait_for_audio i s u)) (audio_header_index (wait_for_audio i s u)) []"
    "kind_once IsVideo (pu_video_header u) (video_header_index u) [] \<Longrightarrow>
      kind_once IsVideo (pu_video_header (wait_for_video i s u)) (video_header_index (wait_for_video i s u)) []"
  using kept_search [OF assms] by (auto simp: wait_for_meta_def wait_for_audio_def wait_for_video_def Let_def kind_once_first
      split: option.splits)

lemma wait_for_others:
  "pu_audio_header (wait_for_meta i s u) = pu_audio_header u" "audio_header_index (wait_for_meta i s u) = audio_header_index u"
  "pu_video_header (wait_for_meta i s u) = pu_video_header u" "video_header_index (wait_for_meta i s u) = video_header_index u"
  "pu_meta (wait_for_audio i s u) = pu_meta u" "meta_index (wait_for_audio i s u) = meta_index u"
  "pu_video_header (wait_for_audio i s u) = pu_video_header u" "video_header_index (wait_for_audio i s u) = video_header_index u"
  "pu_meta (wait_for_video i s u) = pu_meta u" "meta_index (wait_for_video i s u) = meta_index u"
  "pu_audio_header (wait_for_video i s u) = pu_audio_header u" "audio_header_index (wait_for_video i s u) = audio_header_index u"
  by (auto simp: wait_for_meta_def wait_for_audio_def wait_for_video_def Let_def split: option.splits)

lemma LocateGop_once:
  assumes "headers_once u []" "kept_headers (codec_headers s)" "LocateGop info now s u = (True, v)"
  shows "headers_once (v\<lparr>out_index := max 0 i\<rparr>) []"
proof -
  obtain idx l where g: "GetGopByLatency (sint (content_latency info)) (st_gops s) = (idx, l)" by fastforce
  let ?w = "wait_for_video idx s (wait_for_audio idx s (wait_for_meta idx s (u\<lparr>out_index := idx - 1\<rparr>)))"
  have v: "v = ?w\<lparr>wait_meta := True, wait_audio := True, wait_video := True, out_version := stream_version s\<rparr>"
    using assms(3) g by (auto simp: LocateGop_def Let_def split: if_splits)
  have "kind_once IsMeta (pu_meta ?w) (meta_index ?w) []" "kind_once IsAudio (pu_audio_header ?w) (audio_header_index ?w) []"
      "kind_once IsVideo (pu_video_header ?w) (video_header_index ?w) []"
    using assms(1) wait_for_kinds [OF assms(2)] by (simp_all add: headers_once_def wait_for_others)
  then show ?thesis by (simp add: v headers_once_def)
qed

lemma headers_once_cong:
  assumes "headers_once u hs" "pu_meta u' = pu_meta u" "pu_audio_header u' = pu_audio_header u" "pu_video_header u' = pu_video_header u"
    and "meta_index u' = meta_index u" "audio_header_index u' = audio_header_index u" "video_header_index u' = video_header_index u"
    and "0 \<le> out_index u' \<or> out_index u' = out_index u"
  shows "headers_once u' hs"
  using assms by (auto simp: headers_once_def)

lemma next_frames_once:
  assumes "holds h s" "next_frames n (int i) s u = Inr u'" "headers_once u hs" "0 \<le> out_index u"
  shows "headers_once u' hs"
proof -
  obtain ks where ks: "u' = took (map ((!) h) ks) u" "list_all (\<lambda>k. i \<le> k \<and> k < length h) ks"
    using next_frames_later [OF assms(1,2)] by blast
  then have "0 \<le> out_index u'" using assms(1,4)
    by (cases ks rule: rev_cases) (auto simp: took_def holds_def indexed_def list_all_iff)
  then show ?thesis by (intro headers_once_cong [OF assms(3)]) (simp_all add: ks(1) took_def)
qed

lemma GetFrames_once:
  assumes "GetFrames info now s u = Inr u'" "stream_inv h s" "player_inv h u out" "headers_once u hs" "kept_headers (codec_headers s)"
  shows "headers_once u' hs"
proof -
  have st: "holds h s" "headers_there s" "gops_ok h (gops (st_gops s))" using assms(2) by (auto simp: stream_inv_def)
  have w: "wait_meta u" "wait_audio u" "wait_video u" using assms(3) by (auto simp: player_inv_def)
  let ?idx = "fst (GetGopByLatency (sint (content_latency info)) (st_gops s))"
  consider "u' = u" | "0 \<le> out_index u" "GetNextFrame s (if must_skip info s u then SkipFrame info s u else u) = Inr u'"
      "pu_meta u = None" "pu_audio_header u = None" "pu_video_header u = None"
    | v where "out_index u < 0" "LocateGop info now s u = (True, v)" "GetNextFrame s v = Inr u'"
    | "LocateGop info now s u = (False, u')"
    using assms(1) by (auto simp: GetFrames_def split: if_splits prod.splits)
  then show ?thesis
  proof cases
    case 2
    let ?v = "if must_skip info s u then SkipFrame info s u else u"
    have v: "headers_once ?v hs" "0 \<le> out_index ?v"
      using SkipFrame_once [OF assms(4,5) 2(3-5,1)] SkipFrame_later [of info s u] 2(1) assms(4) by auto
    then obtain i where "out_index ?v + 1 = int i" using nonneg_int_cases [of "out_index ?v + 1"] by auto
    then show ?thesis using next_frames_once [OF st(1) _ v] 2(2) by (simp add: GetNextFrame_def)
  next
    case 3
    have "?idx \<noteq> -1" using 3(2) LocateGop_none [of info s now u] by auto
    then have v: "at_gop ?idx s u v" using LocateGop_found [OF st(2) w refl, of info now] 3(2) by auto
    have "0 \<le> ?idx \<and> ?idx < int (length h)"
      using GetGopByLatency_mem [of "sint (content_latency info)" "st_gops s"] \<open>?idx \<noteq> -1\<close> st(3)
      by (auto simp: gops_ok_def list_all_iff)
    then have k: "?idx = int (nat ?idx)" "nat ?idx < length h" by linarith+
    define k where "k = nat ?idx"
    note k = k [folded k_def]
    have hs: "hs = []" using assms(4) 3(1) by (simp add: headers_once_def)
    let ?p = "h ! latest (length h) (k mod packet_buffer_size)"
    have p: "Index ?p = int (latest (length h) (k mod packet_buffer_size))"
      using st(1) latest_less [of "k mod packet_buffer_size" "length h"] k(2) mod_less_eq_dividend [of k packet_buffer_size]
      by (auto simp: holds_def indexed_def list_all_iff)
    have "GetNextFrame s v = next_frames 9 (Index ?p + 1) s (took [?p] v)"
      using next_frames_slot [OF st(1) k(2), of 9 v] v k(1) by (simp add: GetNextFrame_def at_gop_def)
    then have n: "next_frames 9 (int (Suc (latest (length h) (k mod packet_buffer_size)))) s (took [?p] v) = Inr u'"
      using 3(3) by (simp only: p) (simp add: add.commute)
    have "headers_once (took [?p] v) []"
      by (rule headers_once_cong [OF LocateGop_once [OF _ assms(5) 3(2), of 0]]) (use assms(4) hs p in \<open>simp_all add: took_def\<close>)
    from next_frames_once [OF st(1) n this] show ?thesis using p hs by (simp add: took_def)
  next
    case 4
    have "?idx = -1"
    proof (rule ccontr)
      assume "?idx \<noteq> -1"
      then obtain v where "LocateGop info now s u = (True, v)" using LocateGop_found [OF st(2) w refl] by blast
      then show False using 4 by simp
    qed
    then have "u' = note_timeout now u" using 4 LocateGop_none [of info s now u] by simp
    then show ?thesis by (intro headers_once_cong [OF assms(4)]) (simp_all add: note_timeout_def)
  qed (use assms(4) in simp)
qed

text \<open>What is due is sent.\<close>

lemma paid_once:
  assumes "headers_once u hs"
  shows "headers_once (paid tc u) (hs @ map fst (filter snd (due u)))"
proof -
  have frames: "filter snd (map (\<lambda>p. (p, False)) fs) = []" for fs :: "'a packet list" by (induction fs) simp_all
  have k: "kind_once IsMeta (pu_meta u) (meta_index u) hs" "kind_once IsAudio (pu_audio_header u) (audio_header_index u) hs"
      "kind_once IsVideo (pu_video_header u) (video_header_index u) hs" "list_all coded hs"
      "out_index u < 0 \<longrightarrow> hs = [] \<and> pu_meta u = None \<and> pu_audio_header u = None \<and> pu_video_header u = None"
    using assms by (simp_all add: headers_once_def)
  have own: "set_option (pu_meta u) \<subseteq> {p. IsMeta p \<and> coded p}" "set_option (pu_audio_header u) \<subseteq> {p. IsAudio p \<and> coded p}"
      "set_option (pu_video_header u) \<subseteq> {p. IsVideo p \<and> coded p}"
    using k(1-3) by (simp_all add: kind_once_def)
  consider (m) p where "pu_meta u = Some p" | (a) p where "pu_meta u = None" "pu_audio_header u = Some p"
    | (v) p where "pu_meta u = None" "pu_audio_header u = None" "pu_video_header u = Some p"
    | (none) "pu_meta u = None" "pu_audio_header u = None" "pu_video_header u = None" by fastforce
  then show ?thesis
  proof cases
    case m
    then have "\<not> IsAudio p" "\<not> IsVideo p" using own(1) types_apart [of p] by auto
    then show ?thesis using m own k kind_once_sent [of IsMeta p] kind_once_other
      by (auto simp: headers_once_def due_def paid_def)
  next
    case a
    then have "\<not> IsMeta p" "\<not> IsVideo p" using own(2) types_apart [of p] by auto
    then show ?thesis using a own k kind_once_sent [of IsAudio p] kind_once_other
      by (auto simp: headers_once_def due_def paid_def)
  next
    case v
    then have "\<not> IsMeta p" "\<not> IsAudio p" using own(3) types_apart [of p] by auto
    then show ?thesis using v own k kind_once_sent [of IsVideo p] kind_once_other
      by (auto simp: headers_once_def due_def paid_def)
  next
    case none
    then show ?thesis using assms by (simp add: headers_once_def due_def paid_def frames)
  qed
qed

text \<open>What is sent carries its label and its time: a header 0, a frame what the corrector says.\<close>

abbreviation frames_in :: "('e packet \<times> u32 \<times> bool) list \<Rightarrow> 'e packet list" where
  "frames_in fs \<equiv> map fst (filter (\<lambda>(_, _, hdr). \<not> hdr) fs)"

abbreviation headers_in :: "('e packet \<times> u32 \<times> bool) list \<Rightarrow> 'e packet list" where
  "headers_in fs \<equiv> map fst (filter (\<lambda>(_, _, hdr). hdr) fs)"

definition timed :: "time_corrector \<Rightarrow> ('e packet \<times> u32 \<times> bool) list \<Rightarrow> bool" where
  "timed tc fs \<longleftrightarrow> map (\<lambda>(_, t, _). t) (filter (\<lambda>(_, _, hdr). \<not> hdr) fs) = stamps tc (frames_in fs) \<and>
     list_all (\<lambda>(_, t, hdr). hdr \<longrightarrow> t = 0) fs"

definition labelled :: "'e player_user \<Rightarrow> ('e packet \<times> u32 \<times> bool) list" where
  "labelled u = map2 (\<lambda>(p, hdr) t. (p, t, hdr)) (due u) (due_times u)"

lemma labelled_due:
  assumes "length (due_times u) = length (due u)"
  shows "map (\<lambda>(p, t, _). (p, t)) (labelled u) = zip (map fst (due u)) (due_times u)"
    "frames_in (labelled u) = map fst (filter (\<lambda>m. \<not> snd m) (due u))" "headers_in (labelled u) = map fst (filter snd (due u))"
    "fst ` set (labelled u) = fst ` set (due u)"
proof -
  have z: "map (\<lambda>(p, t, _). (p, t)) (map2 (\<lambda>(p, hdr) t. (p, t, hdr)) ms us) = zip (map fst ms) us \<and>
      frames_in (map2 (\<lambda>(p, hdr) t. (p, t, hdr)) ms us) = map fst (filter (\<lambda>m. \<not> snd m) ms) \<and>
      headers_in (map2 (\<lambda>(p, hdr) t. (p, t, hdr)) ms us) = map fst (filter snd ms) \<and>
      fst ` set (map2 (\<lambda>(p, hdr) t. (p, t, hdr)) ms us) = fst ` set ms"
    if "length us = length ms" for ms :: "('a packet \<times> bool) list" and us :: "u32 list"
    using that by (induction us ms rule: list_induct2) auto
  show "map (\<lambda>(p, t, _). (p, t)) (labelled u) = zip (map fst (due u)) (due_times u)"
    "frames_in (labelled u) = map fst (filter (\<lambda>m. \<not> snd m) (due u))" "headers_in (labelled u) = map fst (filter snd (due u))"
    "fst ` set (labelled u) = fst ` set (due u)"
    using z [OF assms] unfolding labelled_def by simp_all
qed

lemma labelled_timed:
  assumes "length (due_times u) = length (due u)"
  shows "timed (pu_corrector u) (labelled u)"
    "pu_corrector (paid (after_stamps (pu_corrector u) (out_frames u)) u) = after_stamps (pu_corrector u) (frames_in (labelled u))"
proof -
  have z: "map (\<lambda>(_, t, _). t) (filter (\<lambda>(_, _, hdr). \<not> hdr) (map2 (\<lambda>(p, hdr) t. (p, t, hdr)) (map (\<lambda>p. (p, False)) ps) ts)) = ts \<and>
      frames_in (map2 (\<lambda>(p, hdr) t. (p, t, hdr)) (map (\<lambda>p. (p, False)) ps) ts) = ps \<and>
      list_all (\<lambda>(_, t, hdr). hdr \<longrightarrow> t = 0) (map2 (\<lambda>(p, hdr) t. (p, t, hdr)) (map (\<lambda>p. (p, False)) ps) ts)"
    if "length ts = length ps" for ps :: "'a packet list" and ts :: "u32 list"
    using that by (induction ts ps rule: list_induct2) auto
  consider p where "due u = [(p, True)]" "pu_meta u \<noteq> None \<or> pu_audio_header u \<noteq> None \<or> pu_video_header u \<noteq> None"
    | "due u = map (\<lambda>p. (p, False)) (out_frames u)" "pu_meta u = None" "pu_audio_header u = None" "pu_video_header u = None"
    by (cases "pu_meta u"; cases "pu_audio_header u"; cases "pu_video_header u") (simp_all add: due_def)
  then show "timed (pu_corrector u) (labelled u)"
    "pu_corrector (paid (after_stamps (pu_corrector u) (out_frames u)) u) = after_stamps (pu_corrector u) (frames_in (labelled u))"
  proof (atomize (full), cases)
    case 1
    then show "timed (pu_corrector u) (labelled u) \<and> pu_corrector (paid (after_stamps (pu_corrector u) (out_frames u)) u) =
        after_stamps (pu_corrector u) (frames_in (labelled u))"
      by (auto simp: timed_def labelled_def due_times_def paid_def)
  next
    case 2
    then have "length (stamps (pu_corrector u) (out_frames u)) = length (out_frames u)" using assms by (simp add: due_times_def)
    note z = z [OF this]
    show "timed (pu_corrector u) (labelled u) \<and> pu_corrector (paid (after_stamps (pu_corrector u) (out_frames u)) u) =
        after_stamps (pu_corrector u) (frames_in (labelled u))"
      unfolding timed_def labelled_def using 2 z by (simp add: due_times_def paid_def)
  qed
qed

lemma timed_append:
  assumes "timed tc fs" "timed (after_stamps tc (frames_in fs)) gs" "list_all readable (frames_in fs)"
  shows "timed tc (fs @ gs)"
  using assms(1,2) stamps_append [OF assms(3), of tc "frames_in gs"] by (simp add: timed_def)

lemma GetFrames_corrector:
  assumes "GetFrames info now s u = Inr u'"
  shows "pu_corrector u' = pu_corrector u"
proof -
  have n: "next_frames n i s v = Inr v' \<Longrightarrow> pu_corrector v' = pu_corrector v" for n i v v'
  proof (induction n arbitrary: i v)
    case (Suc n)
    then show ?case by (auto split: if_splits option.splits elim!: bindE_InrE)
  qed simp
  have k: "pu_corrector (SkipFrame info s u) = pu_corrector u"
    by (auto simp: SkipFrame_def skip_to_def Let_def split: prod.split option.split)
  have w: "pu_corrector (wait_for_meta i s v) = pu_corrector v" "pu_corrector (wait_for_audio i s v) = pu_corrector v"
      "pu_corrector (wait_for_video i s v) = pu_corrector v" for i v
    by (auto simp: wait_for_meta_def wait_for_audio_def wait_for_video_def Let_def split: option.split)
  have l: "pu_corrector (snd (LocateGop info now s u)) = pu_corrector u"
    by (auto simp: LocateGop_def note_timeout_def Let_def w split: prod.split)
  show ?thesis using assms k l n
    by (auto simp: GetFrames_def GetNextFrame_def split: if_splits prod.splits)
qed

text \<open>A stream and a viewer over HTTP: packets are published, \<open>PostFrames\<close> runs (woken by the stream or by
  the completion of a send, or for nothing), and the connection reports the end of a send.\<close>

inductive flv_run ::
    "app_info \<Rightarrow> 'e packet list \<Rightarrow> 'e packet list \<Rightarrow> 'e stream \<Rightarrow> ('e, 'e flv_ctx) player \<Rightarrow> bool" for info :: app_info where
  start: "flv_run info [] [] (Stream_new now session g tbl) (Player_new now' (Some (FlvContext_new handler)))"
| publish: "flv_run info ps h s x \<Longrightarrow> AddPacket info now p s = Inr (b, s') \<Longrightarrow>
    packet_buffer s' ! (length h mod packet_buffer_size) = Some q \<Longrightarrow> flv_run info (ps @ [p]) (h @ [q]) s' x"
| post: "flv_run info ps h s x \<Longrightarrow> FlvPlayerUser_PostFrames info now s x = Inr (b, x') \<Longrightarrow> flv_run info ps h s x'"
| complete: "flv_run info ps h s x \<Longrightarrow> pl_sink x = Some c \<Longrightarrow> fc_sending c \<Longrightarrow>
    flv_run info ps h s (x\<lparr>pl_sink := Some (Flv_WriteComplete c)\<rparr>)"

text \<open>The frames sent, each with its time and whether it is a header, are \<open>fs\<close>.\<close>

definition viewer_inv ::
    "app_info \<Rightarrow> 'e packet list \<Rightarrow> 'e packet list \<Rightarrow> 'e stream \<Rightarrow> ('e, 'e flv_ctx) player \<Rightarrow> ('e packet \<times> u32 \<times> bool) list \<Rightarrow>
      'e flv_ctx \<Rightarrow> bool" where
  "viewer_inv info ps h s x fs c \<longleftrightarrow> pl_sink x = Some c \<and> flv_idle c \<and>
     session_run info ps h s (pl_user x) (frames_in fs) \<and>
     kept_headers (codec_headers s) \<and> headers_once (pl_user x) (headers_in fs) \<and> timed TimeCorrector_new fs \<and>
     pu_corrector (pl_user x) = after_stamps TimeCorrector_new (frames_in fs) \<and>
     header_set (codec_headers s) \<subseteq> set h \<and> user_headers (pl_user x) \<subseteq> set h \<and> fst ` set fs \<subseteq> set h \<and>
     length (out_frames (pl_user x)) \<le> 10 \<and>
     (if http_header_sent x then flv_reads (map (\<lambda>(p, t, _). (p, t)) fs) c
      else fs = [] \<and> (\<exists>handler. c = FlvContext_new handler))"

lemma viewer_stored:
  assumes "viewer_inv info ps h s x fs c" "list_all flv_ok ps" "length ps < 2 ^ 31"
  shows "list_all flv_ok h" "holds h s" "set (out_frames (pl_user x)) \<subseteq> set h" "length (packet_buffer s) = packet_buffer_size"
    "length h = length ps"
proof -
  have i: "stream_inv h s \<and> player_inv h (pl_user x) (frames_in fs) \<and> list_all2 same_frame ps h"
    using session_run_inv [OF _ assms(3)] assms(1) by (auto simp: viewer_inv_def)
  have "flv_ok q" if "flv_ok p" "same_frame p q" for p q :: "'a packet"
    using that by (auto simp: flv_ok_def same_frame_def)
  then show "list_all flv_ok h" using i assms(2) by (auto simp: list_all2_conv_all_nth list_all_length)
  show "holds h s" using i by (simp add: stream_inv_def)
  then show "length (packet_buffer s) = packet_buffer_size" by (simp add: holds_def)
  show "set (out_frames (pl_user x)) \<subseteq> set h"
    using i unfolding player_inv_def handed_def
    by (metis (no_types, lifting) Ball_set image_subsetI list.set_map nth_mem set_append sup.bounded_iff)
  show "length h = length ps" using i by (auto dest: list_all2_lengthD)
qed

text \<open>One push, from a context that is ready.\<close>

lemma post_next_viewer:
  assumes "viewer_inv info ps h s x fs c" "list_all flv_ok ps" "length ps < 2 ^ 31" "http_header_sent x"
  shows "\<exists>x' fs' c'. post_next flv_sink x = Inr x' \<and> http_header_sent x' \<and> viewer_inv info ps h s x' fs' c'"
proof (cases "\<not> sink_ready flv_sink c \<or> due (pl_user x) = []")
  case True
  have "pl_sink x = Some c" using assms(1) by (simp add: viewer_inv_def)
  from post_next_busy [OF this True] assms(1,4) show ?thesis
    by (intro exI [of _ "if due (pl_user x) = [] then Deactive x else x"] exI [of _ fs] exI [of _ c])
      (simp add: viewer_inv_def Deactive_def)
next
  case False
  let ?u = "pl_user x"
  have c: "pl_sink x = Some c" "\<not> fc_sending c" "fc_current c = 0" "sink_ready flv_sink c" "due ?u \<noteq> []"
    using assms(1) False by (auto simp: viewer_inv_def flv_idle_def flv_sink_def Flv_Ready_def)
  have d: "fst ` set (due ?u) \<subseteq> set h" "length (due ?u) \<le> 10"
    using due_from [of ?u] length_due [of ?u] viewer_stored(3) [OF assms(1-3)] assms(1) by (auto simp: viewer_inv_def)
  have "list_all (\<lambda>(p, _). flv_ok p) (due ?u)"
    using d(1) viewer_stored(1) [OF assms(1-3)] by (force simp: list_all_iff)
  then have "flv_fits (due ?u) c" using c d(2) by (simp add: flv_fits_def)
  moreover have "list_all (\<lambda>_. True) (due_times ?u)" by (simp add: list_all_iff)
  ultimately obtain c' where
    x': "post_next flv_sink x = Inr (x\<lparr>pl_sink := Some c', pl_user := paid (after_stamps (pu_corrector ?u) (out_frames ?u)) ?u\<rparr>)"
      "\<not> sink_ready flv_sink c'" "length (due_times ?u) = length (due ?u)"
      "\<forall>fs. flv_reads fs c \<longrightarrow> flv_reads (fs @ zip (map fst (due ?u)) (due_times ?u)) c'"
    using flv.post_next_ready [OF c(1,4) _ c(5)] by (auto simp: flv.went_def)
  let ?tc = "after_stamps (pu_corrector ?u) (out_frames ?u)" and ?fs = "fs @ labelled ?u"
  let ?x = "x\<lparr>pl_sink := Some c', pl_user := paid ?tc ?u\<rparr>"
  note lab = labelled_due [OF x'(3)] and tim = labelled_timed [OF x'(3)]
  have "list_all readable (frames_in fs)"
    using viewer_stored(1) [OF assms(1-3)] assms(1) by (force simp: viewer_inv_def list_all_iff readable_def flv_ok_def)
  then have "timed TimeCorrector_new ?fs" "pu_corrector (paid ?tc ?u) = after_stamps TimeCorrector_new (frames_in ?fs)"
    using timed_append [of TimeCorrector_new fs "labelled ?u"] stamps_append [of "frames_in fs" TimeCorrector_new "frames_in (labelled ?u)"]
      tim assms(1) by (simp_all add: viewer_inv_def)
  moreover have "headers_once (paid ?tc ?u) (headers_in ?fs)"
    using paid_once [of ?u "headers_in fs" ?tc] assms(1) lab(3) by (simp add: viewer_inv_def)
  moreover have "session_run info ps h s (paid ?tc ?u) (frames_in ?fs)"
    using session_run_paid [of info ps h s ?u _ ?tc] assms(1) lab(2) by (simp add: viewer_inv_def)
  moreover have "flv_reads (map (\<lambda>(p, t, _). (p, t)) ?fs) c'"
    using x'(4) assms(1,4) lab(1) by (simp add: viewer_inv_def)
  moreover have "fst ` set ?fs \<subseteq> set h" using lab(4) d(1) assms(1) by (simp add: viewer_inv_def image_Un)
  moreover have "user_headers (paid ?tc ?u) \<subseteq> set h" "length (out_frames (paid ?tc ?u)) \<le> 10"
    using paid_user [of ?tc ?u] assms(1) by (auto simp: viewer_inv_def)
  moreover have "flv_idle c'" using x'(2) by (simp add: flv_idle_def flv_sink_def Flv_Ready_def)
  ultimately have "viewer_inv info ps h s ?x ?fs c'" using assms(1,4) by (simp add: viewer_inv_def)
  then show ?thesis using x'(1) assms(4) by (intro exI [of _ ?x] exI [of _ ?fs] exI [of _ c']) simp
qed

lemma PostFrames_viewer:
  assumes "viewer_inv info ps h s x fs c" "list_all flv_ok ps" "length ps < 2 ^ 31"
  shows "\<exists>b x' fs' c'. FlvPlayerUser_PostFrames info now s x = Inr (b, x') \<and> viewer_inv info ps h s x' fs' c'"
proof -
  consider "\<not> ready s \<or> \<not> HasMedia s" | "ready s" "HasMedia s" "\<not> http_header_sent x" | "ready s" "HasMedia s" "http_header_sent x"
    by blast
  then show ?thesis
  proof cases
    case 1
    then show ?thesis using assms(1)
      by (intro exI [of _ False] exI [of _ "Deactive x"] exI [of _ fs] exI [of _ c])
        (auto simp: FlvPlayerUser_PostFrames_def viewer_inv_def Deactive_def)
  next
    case 2
    obtain handler where c: "c = FlvContext_new handler" "fs = []" "pl_sink x = Some c"
      using assms(1) 2(3) by (auto simp: viewer_inv_def)
    obtain c' where c': "SendFlvHttpHeader (has_video s) (has_audio s) c = Inr c'" "fc_sending c'" "flv_reads [] c'"
      using SendFlvHttpHeader_wrote [of "has_video s" "has_audio s" handler] unfolding c(1) flv_reads_def by auto
    let ?x = "x\<lparr>pl_sink := Some c', http_header_sent := True\<rparr>"
    have "viewer_inv info ps h s ?x [] c'" using assms(1) c(2) c'(2,3) by (simp add: viewer_inv_def flv_idle_def)
    moreover have "FlvPlayerUser_PostFrames info now s x = Inr (False, ?x)"
      using 2 c(3) c'(1) by (simp add: FlvPlayerUser_PostFrames_def PushFlvHttpHeader_def)
    ultimately show ?thesis by blast
  next
    case 3
    note st = viewer_stored [OF assms]
    have ten: "length (out_frames (pl_user x)) \<le> 10" using assms(1) by (simp add: viewer_inv_def)
    obtain u where u: "GetFrames info now s (pl_user x) = Inr u" "length (out_frames u) \<le> 10"
        "user_headers u \<subseteq> user_headers (pl_user x) \<union> header_set (codec_headers s)"
      using GetFrames_user [OF st(4) ten] by blast
    have old: "session_run info ps h s (pl_user x) (frames_in fs)" "headers_once (pl_user x) (headers_in fs)"
        "kept_headers (codec_headers s)"
      using assms(1) by (simp_all add: viewer_inv_def)
    have "stream_inv h s" "player_inv h (pl_user x) (frames_in fs)" using session_run_inv [OF old(1) assms(3)] by blast+
    then have "headers_once u (headers_in fs)" by (rule GetFrames_once [OF u(1) _ _ old(2,3)])
    moreover note session_run.fetch [OF old(1) u(1)] GetFrames_corrector [OF u(1)]
    moreover have "user_headers u \<subseteq> set h" using assms(1) u(3) unfolding viewer_inv_def by blast
    ultimately have "viewer_inv info ps h s (x\<lparr>pl_user := u\<rparr>) fs c" using assms(1) u(2) by (simp add: viewer_inv_def)
    from post_next_viewer [OF this assms(2,3)] 3(3) obtain x' fs' c' where
      "post_next flv_sink (x\<lparr>pl_user := u\<rparr>) = Inr x'" "viewer_inv info ps h s x' fs' c'" by auto
    then show ?thesis using 3 u(1) by (intro exI [of _ True] exI [of _ x'] exI [of _ fs'] exI [of _ c'])
      (simp add: FlvPlayerUser_PostFrames_def)
  qed
qed

lemma new_headers:
  "codec_headers (Stream_new now session g tbl) = CodecHeader_new" "headers_once (PlayerUser_new now') []"
  "user_headers (PlayerUser_new now') = {}" "kept_headers CodecHeader_new" "header_set CodecHeader_new = {}"
  "pu_corrector (PlayerUser_new now') = TimeCorrector_new" "out_frames (PlayerUser_new now') = []" "flv_idle (FlvContext_new handler)"
  by (simp_all add: Stream_new_def headers_once_def kind_once_def PlayerUser_new_def user_headers_def kept_headers_def header_set_def
      CodecHeader_new_def flv_idle_def FlvContext_new_def)

lemma Player_new_viewer:
  "viewer_inv info [] [] (Stream_new now session g tbl) (Player_new now' (Some (FlvContext_new handler))) []
     (FlvContext_new handler)"
  using session_run.start [of info now session g tbl now'] by (auto simp: viewer_inv_def Player_new_def timed_def new_headers)

lemma flv_run_viewer:
  assumes "flv_run info ps h s x" "list_all flv_ok ps" "length ps < 2 ^ 31"
  shows "\<exists>fs c. viewer_inv info ps h s x fs c"
  using assms
proof (induction rule: flv_run.induct)
  case (start now session g tbl now' handler)
  then show ?case using Player_new_viewer by blast
next
  case (publish ps h s x now p b s' q)
  then obtain fs c where i: "viewer_inv info ps h s x fs c" by auto
  have ps: "list_all flv_ok ps" "length ps < 2 ^ 31" using publish.prems by simp_all
  have "session_run info ps h s (pl_user x) (frames_in fs)"
    using i by (simp add: viewer_inv_def)
  from session_run.publish [OF this publish.hyps(2,3)]
  have "session_run info (ps @ [p]) (h @ [q]) s' (pl_user x) (frames_in fs)" .
  moreover have "header_set (codec_headers s') \<subseteq> insert q (header_set (codec_headers s))"
    by (rule AddPacket_header_set [OF publish.hyps(2) viewer_stored(2) [OF i ps] publish.hyps(3)])
  moreover have "kept_headers (codec_headers s')" using AddPacket_kept [OF publish.hyps(2)] i by (simp add: viewer_inv_def)
  ultimately have "viewer_inv info (ps @ [p]) (h @ [q]) s' x fs c" using i unfolding viewer_inv_def by auto
  then show ?case by blast
next
  case (post ps h s x now b x')
  then obtain fs c where "viewer_inv info ps h s x fs c" by auto
  from PostFrames_viewer [OF this post.prems, of now] post.hyps(2) show ?case by auto
next
  case (complete ps h s x c)
  then obtain fs where "viewer_inv info ps h s x fs c" by (auto simp: viewer_inv_def)
  moreover from this complete.hyps(3) have "http_header_sent x" by (auto simp: viewer_inv_def FlvContext_new_def split: if_splits)
  ultimately have "viewer_inv info ps h s (x\<lparr>pl_sink := Some (Flv_WriteComplete c)\<rparr>) fs (Flv_WriteComplete c)"
    using Flv_WriteComplete_wrote [OF complete.hyps(3)] by (auto simp: viewer_inv_def flv_reads_def)
  then show ?case by blast
qed

lemma keep_header_ready: "keep_header q s = Inr s' \<Longrightarrow> ready s' = ready s"
  by (auto simp: keep_header_def ParseCodecHeader_def Let_def elim!: bindE_InrE split: if_splits)

lemma AddPacket_audio_ready:
  assumes "AddPacket info now p s = Inr (b, s')" "\<not> IsVideo p"
  shows "ready s' = ready s"
proof -
  obtain t c q s1 s2 s3 where
      1: "mark_key now (SetIndex (word_of_int (frame_index s + 1)) (SetTimeStamp (ucast (t :: u32)) p))
        (s\<lparr>st_corrector := c, frame_index := frame_index s + 1\<rparr>) = Inr (q, s1)"
    and 2: "keep_header q s1 = Inr s2" and 3: "ProcessHls info now q (s2\<lparr>st_gops := AddFrame q (st_gops s2)\<rparr>) = Inr s3"
    and s': "s' = store_packet now q s3"
    by (rule AddPacket_steps [OF assms(1) refl])
  have "ready s1 = ready s" using 1 assms(2) by (auto simp: mark_key_def IsVideo_def SetIndex_def SetTimeStamp_def)
  moreover have "ready s3 = ready s2" using 3 by (auto simp: ProcessHls_def split: if_splits)
  ultimately show ?thesis using keep_header_ready [OF 2] by (simp add: s' store_packet_def Let_def)
qed

section \<open>A viewer over RTMP\<close>

text \<open>Audio, video and metadata with the chunk stream of each; a frame needs a header sent before it on
  its chunk stream, and the chunk headers of all of them room in the buffer of the context.\<close>

definition rtmp_fits :: "(rpacket \<times> bool) list \<Rightarrow> rtmp_ctx \<Rightarrow> bool" where
  "rtmp_fits ms c \<longleftrightarrow> \<not> sending c \<and> out_waiting_queue c = [] \<and>
     0 < unat (out_chunk_size c) \<and> unat (out_chunk_size c) < 2 ^ 31 \<and>
     list_all (\<lambda>(p, hdr). sendable p \<and> media p \<and> readable p \<and>
       (hdr \<or> (\<exists>h. pk_ext p = Some h \<and> h_cs_id h \<in> dom (out_message_headers c)))) ms \<and>
     out_current c + sum_list (map (\<lambda>(p, _). header_room (unat (out_chunk_size c)) (length (payload p))) ms) \<le> 4096"

fun rtmp_sent :: "rtmp_event list \<Rightarrow> byte list" where
  "rtmp_sent [] = []"
| "rtmp_sent (EvSend bs # es) = concat bs @ rtmp_sent es"
| "rtmp_sent (e # es) = rtmp_sent es"

definition rtmp_bytes :: "rtmp_ctx \<Rightarrow> byte list" where
  "rtmp_bytes c = rtmp_sent (events c) @ (if sending c then [] else concat (sending_bufs c))"

text \<open>The viewer, who starts as \<open>r0\<close>, parses what was sent as the messages \<open>fs\<close>, and agrees with the sender again.\<close>

definition rtmp_reads :: "rtmp_ctx \<Rightarrow> (rpacket \<times> u32) list \<Rightarrow> rtmp_ctx \<Rightarrow> bool" where
  "rtmp_reads r0 fs c \<longleftrightarrow> out_waiting_queue c = [] \<and> (\<forall>rest. length (rtmp_bytes c @ rest) < 2 ^ 31 \<longrightarrow>
     (\<exists>evs r. parse_loop (rtmp_bytes c @ rest) r0 = parse_loop rest r \<and> events r = events r0 @ evs \<and>
        list_all2 (\<lambda>(p, t) e. received p t e) fs evs \<and> in_sync c r \<and> has_handler r))"

lemma rtmp_sent_append: "rtmp_sent (es @ fs) = rtmp_sent es @ rtmp_sent fs"
  by (induction es rule: rtmp_sent.induct) simp_all

lemma BuildChunk_move_headers:
  assumes "BuildChunk_move p t fmt0 c = Inr (b, c')"
  shows "dom (out_message_headers c) \<subseteq> dom (out_message_headers c')"
  using assms by (auto simp: BuildChunk_move_def emit_chunks_def Let_def split: option.splits if_splits prod.splits)

text \<open>A receiver that agrees with a sender.\<close>

definition peer_of :: "rtmp_ctx \<Rightarrow> rtmp_ctx" where
  "peer_of c = RtmpContext_new True False\<lparr>in_chunk_size := out_chunk_size c, in_message_headers := out_message_headers c,
     in_deltas := out_deltas c\<rparr>"

lemma in_sync_peer:
  "0 < unat (out_chunk_size c) \<Longrightarrow> unat (out_chunk_size c) < 2 ^ 31 \<Longrightarrow> in_sync c (peer_of c) \<and> has_handler (peer_of c)"
  by (simp add: in_sync_def peer_of_def RtmpContext_new_def split: option.split)

text \<open>One more message: the viewer reads it after the others.\<close>

lemma rtmp_reads_more:
  assumes "BuildChunk_move p t True c = Inr (True, c')" "sendable p" "media p" "t < 0xFFFFFF" "\<not> sending c"
    and "0 < unat (out_chunk_size c)" "unat (out_chunk_size c) < 2 ^ 31"
    and "out_current c + header_room (unat (out_chunk_size c)) (length (payload p)) \<le> 4096"
    and "rtmp_reads r0 fs c"
  shows "rtmp_reads r0 (fs @ [(p, t)]) c'"
proof -
  note fr = BuildChunk_move_frame [OF assms(1)]
  have room: "out_current c + batch_room (unat (out_chunk_size c)) [(p, t, True)] \<le> 4096"
    using assms(8) by (simp add: batch_room_def)
  have ms: "\<forall>(p, t, _) \<in> set [(p, t, True)]. sendable p \<and> media p \<and> t < 0xFFFFFF" using assms(2-4) by simp
  have more: "\<exists>W. concat (sending_bufs c') = concat (sending_bufs c) @ W \<and> (\<forall>rest. length (W @ rest) < 2 ^ 31 \<longrightarrow>
      (\<exists>e r'. parse_loop (W @ rest) r = parse_loop rest r' \<and> events r' = events r @ [e] \<and> received p t e \<and>
        in_sync c' r' \<and> has_handler r'))"
    if r: "in_sync c r" "has_handler r" for r
  proof -
    obtain W where W: "concat (sending_bufs c') = concat (sending_bufs c) @ W" "\<forall>rest. length (W @ rest) < 2 ^ 31 \<longrightarrow>
        (\<exists>evs r'. parse_loop (W @ rest) r = parse_loop rest r' \<and> events r' = events r @ evs \<and>
          list_all2 (\<lambda>(p, t, _) e. received p t e) [(p, t, True)] evs \<and> in_sync c' r' \<and> has_handler r')"
      using media_stream [OF ms r room] assms(1) by auto
    show ?thesis
    proof (intro exI [of _ W] conjI allI impI)
      fix rest
      assume "length (W @ rest) < 2 ^ 31"
      with W(2) obtain evs r' where e: "parse_loop (W @ rest) r = parse_loop rest r'" "events r' = events r @ evs"
          "list_all2 (\<lambda>(p, t, _) e. received p t e) [(p, t, True)] evs" "in_sync c' r'" "has_handler r'" by blast
      then obtain e where "evs = [e]" "received p t e" by (auto simp: list_all2_Cons1)
      with e show "\<exists>e r'. parse_loop (W @ rest) r = parse_loop rest r' \<and> events r' = events r @ [e] \<and> received p t e \<and>
          in_sync c' r' \<and> has_handler r'" by blast
    qed (rule W(1))
  qed
  obtain W where W: "concat (sending_bufs c') = concat (sending_bufs c) @ W"
    using more [of "peer_of c"] in_sync_peer [OF assms(6,7)] by blast
  have B: "rtmp_bytes c' = rtmp_bytes c @ W" using fr assms(5) W by (simp add: rtmp_bytes_def)
  show ?thesis
    unfolding rtmp_reads_def B append_assoc
  proof (intro conjI allI impI)
    show "out_waiting_queue c' = []" using assms(9) fr by (simp add: rtmp_reads_def)
  next
    fix rest
    assume l: "length (rtmp_bytes c @ W @ rest) < 2 ^ 31"
    with assms(9) obtain evs r where r: "parse_loop (rtmp_bytes c @ W @ rest) r0 = parse_loop (W @ rest) r"
        "events r = events r0 @ evs" "list_all2 (\<lambda>(p, t) e. received p t e) fs evs" "in_sync c r" "has_handler r"
      unfolding rtmp_reads_def by blast
    have "length (W @ rest) < 2 ^ 31" using l by simp
    with more [OF r(4,5)] W obtain e r' where "parse_loop (W @ rest) r = parse_loop rest r'" "events r' = events r @ [e]"
        "received p t e" "in_sync c' r'" "has_handler r'"
      by (metis same_append_eq)
    then show "\<exists>evs r. parse_loop (rtmp_bytes c @ W @ rest) r0 = parse_loop rest r \<and> events r = events r0 @ evs \<and>
        list_all2 (\<lambda>(p, t) e. received p t e) (fs @ [(p, t)]) evs \<and> in_sync c' r \<and> has_handler r"
      using r by (intro exI [of _ "evs @ [e]"] exI [of _ r']) (simp add: list_all2_appendI)
  qed
qed

lemma rtmp_build:
  assumes "rtmp_fits ((p, hdr) # ms) c" "t < 0xFFFFFF"
  shows "\<exists>c'. sink_build rtmp_sink p t hdr c = Inr c' \<and> rtmp_fits ms c' \<and>
    (\<forall>fs. rtmp_reads r0 fs c \<longrightarrow> rtmp_reads r0 (fs @ [(p, t)]) c')"
proof -
  let ?k = "unat (out_chunk_size c)"
  have f: "\<not> sending c" "out_waiting_queue c = []" "0 < ?k" "?k < 2 ^ 31" "sendable p" "media p"
      "hdr \<or> (\<exists>h. pk_ext p = Some h \<and> h_cs_id h \<in> dom (out_message_headers c))"
      "out_current c + header_room ?k (length (payload p)) +
         sum_list (map (\<lambda>(p, _). header_room ?k (length (payload p))) ms) \<le> 4096"
      "list_all (\<lambda>(p, hdr). sendable p \<and> media p \<and> readable p \<and>
         (hdr \<or> (\<exists>h. pk_ext p = Some h \<and> h_cs_id h \<in> dom (out_message_headers c)))) ms"
    using assms(1) by (simp_all add: rtmp_fits_def)
  then have room: "out_current c + header_room ?k (length (payload p)) \<le> 4096" by linarith
  have sync: "in_sync c (peer_of c)" using in_sync_peer [OF f(3,4)] by simp
  from send_one [OF f(5) sync assms(2) room, of True] obtain c' where
    c': "BuildChunk_move p t True c = Inr (True, c')" "out_chunk_size c' = out_chunk_size c"
      "out_current c' \<le> out_current c + header_room ?k (length (payload p))" by blast
  obtain h where "pk_ext p = Some h" using f(5) by (auto simp: sendable_def)
  then have "sink_build rtmp_sink p t hdr c = Inr c'"
    using BuildChunk_copy_move [of p h t hdr c] f(7) c'(1) by (auto simp: rtmp_sink_def)
  moreover have "rtmp_fits ms c'"
  proof -
    have "list_all (\<lambda>(p, hdr). sendable p \<and> media p \<and> readable p \<and>
         (hdr \<or> (\<exists>h. pk_ext p = Some h \<and> h_cs_id h \<in> dom (out_message_headers c')))) ms"
      using f(9) BuildChunk_move_headers [OF c'(1)] unfolding list_all_iff by blast
    then show ?thesis using BuildChunk_move_frame [OF c'(1)] f(1-4,8) c'(2,3) by (simp add: rtmp_fits_def)
  qed
  ultimately show ?thesis
    using rtmp_reads_more [OF c'(1) f(5,6) assms(2) f(1,3,4) room, of r0] by blast
qed

lemma rtmp_send:
  assumes "rtmp_fits [] c"
  shows "\<exists>c'. sink_send rtmp_sink c = Inr c' \<and> \<not> sink_ready rtmp_sink c' \<and> (\<forall>fs. rtmp_reads r0 fs c \<longrightarrow> rtmp_reads r0 fs c')"
proof -
  let ?c = "c\<lparr>sending := True, events := events c @ [EvSend (sending_bufs c)]\<rparr>"
  have f: "\<not> sending c" "out_waiting_queue c = []" using assms by (simp_all add: rtmp_fits_def)
  have "send_some 10 (c\<lparr>sending := True\<rparr>) = Inr (c\<lparr>sending := True\<rparr>)"
    using f(2) send_some.simps(2) [of 9 "c\<lparr>sending := True\<rparr>"] by (simp del: bindE_eq_Inr)
  then have "Send c = Inr ?c" using f(1) by (simp add: Send_def log_event_def del: bindE_eq_Inr)
  moreover have "in_sync ?c r = in_sync c r" for r by (rule in_sync_cong) simp_all
  moreover have "rtmp_bytes ?c = rtmp_bytes c" using f(1) by (simp add: rtmp_bytes_def rtmp_sent_append)
  ultimately show ?thesis by (intro exI [of _ ?c]) (simp add: rtmp_sink_def Ready_def rtmp_reads_def)
qed

interpretation rtmp: frame_sink rtmp_sink rtmp_fits "rtmp_reads r0" "\<lambda>t. t < 0xFFFFFF" for r0
proof
  show "readable p" if "rtmp_fits ((p, h) # ms) c" for p h ms c using that by (simp add: rtmp_fits_def)
qed (rule rtmp_build, assumption+, erule rtmp_send, simp)

text \<open>The completion of a send changes nothing for the viewer.\<close>

lemma CheckAndSend_reads:
  assumes "sending c" "rtmp_reads r0 fs c"
  shows "\<exists>c'. CheckAndSend c = Inr c' \<and> Ready c' \<and> out_current c' = 0 \<and> rtmp_reads r0 fs c'"
proof -
  let ?c = "c\<lparr>sending := False, out_current := 0, sending_bufs := [], out_sending_packets := []\<rparr>"
  let ?d = "if has_handler c then log_event EvActive ?c else ?c"
  have "in_sync ?d r = in_sync c r" for r by (rule in_sync_cong) (simp_all add: log_event_def)
  moreover have "rtmp_bytes ?d = rtmp_bytes c" using assms(1) by (simp add: rtmp_bytes_def log_event_def rtmp_sent_append)
  ultimately show ?thesis using assms by (intro exI [of _ ?d]) (simp add: CheckAndSend_def Ready_def rtmp_reads_def log_event_def)
qed

section \<open>Properties\<close>


text \<open>C8: Posting frames to a viewer over HTTP never faults: whatever has happened before, fetching and
  pushing stay inside the ring of the stream, the data of the packets and the 512 bytes in which the
  tag headers of a batch are built.\<close>

theorem flv_post_never_faults:
  assumes "flv_run info ps h s x" "list_all flv_ok ps" "length ps < 2 ^ 31"
  shows "\<exists>b x'. FlvPlayerUser_PostFrames info now s x = Inr (b, x')"
  using flv_run_viewer [OF assms(1-3)] PostFrames_viewer [OF _ assms(2,3)] by blast

text \<open>C2: From the packets handed to a player to the viewer over RTMP. When the context of the player is
  ready, \<open>PostFrames\<close> sends what is due, all of it: the viewer, who has parsed what was sent before as
  the messages \<open>fs\<close>, parses the bytes that are sent now as just the packets that are due, in their
  order, with their data and their corrected times; and once the send is complete the context is
  ready again and both sides agree. The times must be below \<open>0xFFFFFF\<close> (the first 4.66 hours), the messages not
  empty and behind a codec header on each chunk stream, and the chunk headers must fit the 4096-byte buffer.\<close>

theorem rtmp_viewer_reads_due:
  assumes "ready s" "HasMedia s" "pl_sink x = Some c" "due (pl_user x) \<noteq> []" "rtmp_fits (due (pl_user x)) c"
    and "list_all (\<lambda>t. t < 0xFFFFFF) (due_times (pl_user x))" "rtmp_reads r0 fs c"
  shows "\<exists>tc c' d. RtmpPlayerUser_PostFrames info now s x = Inr (True, x\<lparr>pl_sink := Some c', pl_user := paid tc (pl_user x)\<rparr>) \<and>
    rtmp_reads r0 (fs @ zip (map fst (due (pl_user x))) (due_times (pl_user x))) c' \<and>
    length (due_times (pl_user x)) = length (due (pl_user x)) \<and>
    CheckAndSend c' = Inr d \<and> Ready d \<and> rtmp_reads r0 (fs @ zip (map fst (due (pl_user x))) (due_times (pl_user x))) d"
proof -
  have ready: "sink_ready rtmp_sink c" using assms(5) by (simp add: rtmp_fits_def rtmp_sink_def Ready_def)
  obtain tc c' where c': "post_next rtmp_sink x = Inr (x\<lparr>pl_sink := Some c', pl_user := paid tc (pl_user x)\<rparr>)"
      "\<not> sink_ready rtmp_sink c'" "rtmp.went r0 (due (pl_user x)) (due_times (pl_user x)) c c'"
    using rtmp.post_next_ready [OF assms(3) ready assms(5,4,6)] by blast
  have r: "rtmp_reads r0 (fs @ zip (map fst (due (pl_user x))) (due_times (pl_user x))) c'"
      "length (due_times (pl_user x)) = length (due (pl_user x))"
    using c'(3) assms(7) by (simp_all add: rtmp.went_def)
  have "sending c'" using c'(2) by (simp add: rtmp_sink_def Ready_def)
  from CheckAndSend_reads [OF this r(1)] obtain d where d: "CheckAndSend c' = Inr d" "Ready d"
      "rtmp_reads r0 (fs @ zip (map fst (due (pl_user x))) (due_times (pl_user x))) d" by blast
  have "pu_meta (pl_user x) \<noteq> None \<or> pu_audio_header (pl_user x) \<noteq> None \<or> pu_video_header (pl_user x) \<noteq> None \<or>
      out_frames (pl_user x) \<noteq> []"
    using assms(4) by (auto simp: due_def)
  then have "GetFrames info now s (pl_user x) = Inr (pl_user x)" using assms(2) by (simp add: GetFrames_def)
  then have "RtmpPlayerUser_PostFrames info now s x = Inr (True, x\<lparr>pl_sink := Some c', pl_user := paid tc (pl_user x)\<rparr>)"
    using assms(1,2) c'(1) by (simp add: RtmpPlayerUser_PostFrames_def)
  with r d show ?thesis by blast
qed

text \<open>C33: A stream without video is never played: as long as no video packet has been published the
  stream is not ready, whatever audio and headers it has, and a viewer over HTTP is sent nothing, not
  even the header of the response.\<close>

theorem audio_only_never_plays:
  assumes "flv_run info ps h s x" "list_all (\<lambda>p. \<not> IsVideo p) ps" "pl_sink x = Some c"
  shows "FlvPlayerUser_PostFrames info now s x = Inr (False, Deactive x) \<and> flv_bytes c = []"
proof -
  have "\<not> ready s \<and> (\<exists>handler. pl_sink x = Some (FlvContext_new handler))"
    using assms(1,2)
  proof (induction rule: flv_run.induct)
    case (start now session g tbl now' handler)
    then show ?case by (auto simp: Stream_new_def Player_new_def)
  next
    case (publish ps h s x now p b s' q)
    then show ?case using AddPacket_audio_ready [OF publish.hyps(2)] by simp
  next
    case (post ps h s x now b x')
    then show ?case by (auto simp: FlvPlayerUser_PostFrames_def Deactive_def)
  next
    case (complete ps h s x c)
    then show ?case by (auto simp: FlvContext_new_def)
  qed
  then show ?thesis using assms(3) by (auto simp: FlvPlayerUser_PostFrames_def FlvContext_new_def flv_bytes_def)
qed

text \<open>A run: a configuration is published, and the viewer is sent its header.\<close>

lemma demo_ready:
  assumes "AddPacket AppInfo_new 1 (demo_tag 0) demo_stream = Inr (b, s)"
  shows "ready s"
proof -
  have n: "frame_index demo_stream + 1 = 0" by (simp add: Stream_new_def)
  obtain t c q s1 s2 s3 where
      1: "mark_key 1 (SetIndex (word_of_int 0) (SetTimeStamp (ucast (t :: u32)) (demo_tag 0)))
        (demo_stream\<lparr>st_corrector := c, frame_index := 0\<rparr>) = Inr (q, s1)"
    and 2: "keep_header q s1 = Inr s2" and 3: "ProcessHls AppInfo_new 1 q (s2\<lparr>st_gops := AddFrame q (st_gops s2)\<rparr>) = Inr s3"
    and s: "s = store_packet 1 q s3"
    by (rule AddPacket_steps [OF assms n])
  have "ready s1" using 1
    by (auto simp: mark_key_def demo_tag_def IsVideo_def codec_IsKeyFrame_def PacketSize_def data_at_def
        SetIndex_def SetTimeStamp_def SetReady_def)
  then have "ready s2" using keep_header_ready [OF 2] by simp
  then show ?thesis using 3 by (auto simp: s ProcessHls_def AppInfo_new_def store_packet_def Let_def)
qed

lemma demo_tag_ok: "list_all flv_ok [demo_tag 0]"
  by (simp add: demo_tag_def flv_ok_def)

text \<open>A push of a header leaves the frames for the next one.\<close>

lemma post_next_header:
  assumes "post_next k x = Inr x'" "pu_meta (pl_user x) \<noteq> None \<or> pu_audio_header (pl_user x) \<noteq> None \<or> pu_video_header (pl_user x) \<noteq> None"
  shows "out_frames (pl_user x') = out_frames (pl_user x) \<and> http_header_sent x' = http_header_sent x"
  using assms by (auto simp: post_next_def PushFrame_def elim!: bindE_InrE split: option.splits if_splits)

lemma demo_viewer:
  "\<exists>h s x c. flv_run AppInfo_new [demo_tag 0] [h] s x \<and> pl_sink x = Some c \<and> http_header_sent x \<and> out_frames (pl_user x) = [h]"
proof -
  obtain s h where s: "AddPacket AppInfo_new 1 (demo_tag 0) demo_stream = Inr (True, s)" "packet_buffer s ! 0 = Some h" "HasMedia s"
      "GetGopByLatency 3000 (st_gops s) = (0, 0)"
    using demo_published by blast
  have rdy: "ready s" by (rule demo_ready [OF s(1)])
  let ?x = "Player_new 0 (Some (FlvContext_new True)) :: (unit, unit flv_ctx) player"
  have "flv_run AppInfo_new [] [] demo_stream ?x" by (rule flv_run.start)
  from flv_run.publish [OF this s(1), of h] s(2) have r: "flv_run AppInfo_new [demo_tag 0] [h] s ?x" by simp
  obtain c where c: "SendFlvHttpHeader (has_video s) (has_audio s) (FlvContext_new True :: unit flv_ctx) = Inr c" "fc_sending c"
    using SendFlvHttpHeader_wrote by blast
  let ?x1 = "?x\<lparr>pl_sink := Some c, http_header_sent := True\<rparr>" and ?x2 = "?x\<lparr>http_header_sent := True, pl_sink := Some (Flv_WriteComplete c)\<rparr>"
  have "FlvPlayerUser_PostFrames AppInfo_new 2 s ?x = Inr (False, ?x1)"
  proof -
    have "PushFlvHttpHeader s ?x = Inr ?x1"
      unfolding PushFlvHttpHeader_def Player_new_def player.simps option.case c(1) bindE.simps ..
    moreover have "\<not> http_header_sent ?x" by (simp add: Player_new_def)
    ultimately show ?thesis using rdy s(3) by (simp only: FlvPlayerUser_PostFrames_def bindE.simps not_True_eq_False
        not_False_eq_True if_True if_False simp_thms)
  qed
  from flv_run.complete [OF flv_run.post [OF r this] _ c(2)] have r2: "flv_run AppInfo_new [demo_tag 0] [h] s ?x2" by simp
  have len: "length [demo_tag 0] < 2 ^ 31" by simp
  have "session_run AppInfo_new [] [] demo_stream (PlayerUser_new 0) []" by (rule session_run.start)
  from session_run.publish [OF this s(1), of h] have r1: "session_run AppInfo_new [demo_tag 0] [h] s (PlayerUser_new 0) []"
    using s(2) by simp
  have lat: "sint (content_latency AppInfo_new) = 3000" by (simp add: AppInfo_new_def)
  obtain k v where v: "GetFrames AppInfo_new 3 s (PlayerUser_new 0) = Inr (took (take 10 (drop k [h])) v)" "k < 1"
      "at_gop (int k) s (PlayerUser_new 0) v" "headers_there s"
    using fetch_at_key [OF r1, of 3] s(3,4) unfolding lat by (auto simp: PlayerUser_new_def)
  let ?u = "took [h] v"
  have u: "GetFrames AppInfo_new 3 s (PlayerUser_new 0) = Inr ?u" "out_frames ?u = [h]" "pu_meta ?u \<noteq> None \<or> pu_audio_header ?u \<noteq> None \<or> pu_video_header ?u \<noteq> None"
    using v headers_found [OF v(4), of "int k"] s(3) by (auto simp: at_gop_def took_def PlayerUser_new_def HasMedia_def)
  obtain fs d where "viewer_inv AppInfo_new [demo_tag 0] [h] s ?x2 fs d" using flv_run_viewer [OF r2 demo_tag_ok len] by blast
  from PostFrames_viewer [OF this demo_tag_ok len, of 3] obtain b x' fs' d' where
    x': "FlvPlayerUser_PostFrames AppInfo_new 3 s ?x2 = Inr (b, x')" "viewer_inv AppInfo_new [demo_tag 0] [h] s x' fs' d'" by blast
  have "pl_user ?x2 = PlayerUser_new 0" by (simp add: Player_new_def)
  with x'(1) rdy s(3) u(1) have "post_next flv_sink (?x2\<lparr>pl_user := ?u\<rparr>) = Inr x'"
    by (auto simp: FlvPlayerUser_PostFrames_def elim!: bindE_InrE)
  from post_next_header [OF this] u(2,3) have "out_frames (pl_user x') = [h]" "http_header_sent x'" by simp_all
  then show ?thesis using flv_run.post [OF r2 x'(1)] x'(2) by (auto simp: viewer_inv_def)
qed


lemma flv_post_never_faults_witness:
  "\<exists>h s x b x'. flv_run AppInfo_new [demo_tag 0] [h] s x \<and> http_header_sent x \<and>
     FlvPlayerUser_PostFrames AppInfo_new 7 s x = Inr (b, x')"
proof -
  obtain h s x c where r: "flv_run AppInfo_new [demo_tag 0] [h] s x" "pl_sink x = Some c" "http_header_sent x"
    using demo_viewer by blast
  have "length [demo_tag 0] < 2 ^ 31" by simp
  from flv_post_never_faults [OF r(1) demo_tag_ok this, of 7]
  obtain b x' where "FlvPlayerUser_PostFrames AppInfo_new 7 s x = Inr (b, x')" by (elim exE)
  then show ?thesis using r(1,3) by (intro exI conjI)
qed

text \<open>A codec header that is due on a fresh connection.\<close>

definition demo_rtmp_player :: "(rtmp_hdr, rtmp_ctx) player" where
  "demo_rtmp_player = Player_new 0 (Some (RtmpContext_new True False))
     \<lparr>pl_user := (PlayerUser_new 0)\<lparr>pu_video_header := Some (demo_packet 9 [0x17, 0, 1])\<rparr>\<rparr>"

definition demo_ready_stream :: "rtmp_hdr stream" where
  "demo_ready_stream = Stream_new 0 [] 0 None\<lparr>ready := True, has_video := True\<rparr>"

lemma demo_due:
  "due (pl_user demo_rtmp_player) = [(demo_packet 9 [0x17, 0, 1], True)]" "due_times (pl_user demo_rtmp_player) = [0]"
  "pl_sink demo_rtmp_player = Some (RtmpContext_new True False)" "ready demo_ready_stream" "HasMedia demo_ready_stream"
  by (simp_all add: demo_rtmp_player_def PlayerUser_new_def due_def due_times_def Player_new_def demo_ready_stream_def
      HasMedia_def)

lemma rtmp_viewer_reads_due_witness:
  "\<exists>x' c' d. RtmpPlayerUser_PostFrames AppInfo_new 0 demo_ready_stream demo_rtmp_player = Inr (True, x') \<and>
    pl_sink x' = Some c' \<and> CheckAndSend c' = Inr d \<and>
    rtmp_reads (peer_of (RtmpContext_new True False)) [(demo_packet 9 [0x17, 0, 1], 0)] d"
proof -
  let ?c = "RtmpContext_new True False" and ?u = "pl_user demo_rtmp_player"
  have fits: "rtmp_fits (due ?u) ?c"
    unfolding demo_due by (simp add: rtmp_fits_def RtmpContext_new_def sendable_def media_def demo_packet_def readable_def
        header_room_def payload_def)
  have times: "list_all (\<lambda>t. t < 0xFFFFFF) (due_times ?u)" unfolding demo_due by simp
  have due: "due ?u \<noteq> []" unfolding demo_due by simp
  have "in_sync ?c (peer_of ?c) \<and> has_handler (peer_of ?c)" by (rule in_sync_peer) (simp_all add: RtmpContext_new_def)
  moreover have "rtmp_bytes ?c = []" "out_waiting_queue ?c = []" by (simp_all add: rtmp_bytes_def RtmpContext_new_def)
  ultimately have "rtmp_reads (peer_of ?c) [] ?c" unfolding rtmp_reads_def by auto
  from rtmp_viewer_reads_due [OF demo_due(4,5,3) due fits times this, of AppInfo_new 0]
  obtain tc c' d where "RtmpPlayerUser_PostFrames AppInfo_new 0 demo_ready_stream demo_rtmp_player =
        Inr (True, demo_rtmp_player\<lparr>pl_sink := Some c', pl_user := paid tc ?u\<rparr>)"
      "CheckAndSend c' = Inr d" "rtmp_reads (peer_of ?c) ([] @ zip (map fst (due ?u)) (due_times ?u)) d" by blast
  then show ?thesis unfolding demo_due
    by (intro exI [of _ "demo_rtmp_player\<lparr>pl_sink := Some c', pl_user := paid tc ?u\<rparr>"] exI [of _ c'] exI [of _ d]) simp
qed

text \<open>One audio packet is published.\<close>

definition demo_audio :: "unit packet" where
  "demo_audio = \<lparr>pk_type = kPacketTypeAudio, pk_size = 2, pk_index = 0, pk_timestamp = 0, pk_capacity = 2,
     pk_data = [0xAF, 1], pk_ext = None\<rparr>"

lemma audio_only_never_plays_witness:
  "\<exists>h s x c. flv_run AppInfo_new [demo_audio] [h] s x \<and> pl_sink x = Some c \<and>
     FlvPlayerUser_PostFrames AppInfo_new 7 s x = Inr (False, Deactive x) \<and> flv_bytes c = []"
proof -
  let ?x = "Player_new 0 (Some (FlvContext_new True)) :: (unit, unit flv_ctx) player"
  have t: "\<exists>t c. CorrectTimestamp demo_audio TimeCorrector_new = Inr (t, c)"
    by (rule CorrectTimestamp_readable) (simp add: demo_audio_def readable_def)
  then obtain t c where t: "CorrectTimestamp demo_audio TimeCorrector_new = Inr (t, c)" by blast
  define q where "q = SetIndex (word_of_int 0) (SetTimeStamp (ucast t) demo_audio)"
  have q: "\<not> IsVideo q" "IsCodecHeader q = Inr False"
    by (simp_all add: q_def demo_audio_def IsVideo_def IsCodecHeader_def PacketSize_def data_at_def SetIndex_def SetTimeStamp_def)
  define s where "s = demo_stream\<lparr>st_corrector := c, frame_index := 0, st_gops := AddFrame q (st_gops demo_stream)\<rparr>"
  have new: "st_corrector demo_stream = TimeCorrector_new" "frame_index demo_stream + 1 = 0"
      "packet_buffer demo_stream = replicate packet_buffer_size None" by (simp_all add: Stream_new_def)
  have "\<exists>b. AddPacket AppInfo_new 1 demo_audio demo_stream = Inr (b, store_packet 1 q s)"
    unfolding AddPacket_def new t bindE.simps prod.case Let_def q_def [symmetric]
    using q by (simp add: mark_key_def keep_header_def ProcessHls_def AppInfo_new_def s_def del: bindE_eq_Inr)
  then obtain b where add: "AddPacket AppInfo_new 1 demo_audio demo_stream = Inr (b, store_packet 1 q s)" by blast
  have "packet_buffer (store_packet 1 q s) ! (length ([] :: unit packet list) mod packet_buffer_size) = Some q"
    using ring_size(2) by (simp add: store_packet_same s_def new)
  from flv_run.publish [OF flv_run.start add this, of 0 True]
  have r: "flv_run AppInfo_new [demo_audio] [q] (store_packet 1 q s) ?x" by simp
  have a: "list_all (\<lambda>p. \<not> IsVideo p) [demo_audio]" by (simp add: demo_audio_def IsVideo_def)
  have x: "pl_sink ?x = Some (FlvContext_new True)" by (simp add: Player_new_def)
  from audio_only_never_plays [OF r a x, of 7] r x show ?thesis by (intro exI conjI) (assumption | simp)+
qed

end
