(* ===== verification/Rtp.thy ===== *)
theory Rtp
  imports TsEncoder
begin

text \<open>
  RTP packets for WebRTC: \<open>src/mmedia/rtp/Rtp.cpp\<close>, \<open>RtpH264.cpp\<close> (a unit in one packet or in FU-A fragments,
  parameter sets in an aggregation packet) and \<open>RtpOpus.cpp\<close>. What is sent is taken apart
  again by a receiver written from RFC 3550 and RFC 6184. Bit fields are words of their width.
\<close>

section \<open>The packet header\<close>

record rtp =
  rtp_version :: "2 word"
  rtp_padding :: "1 word"
  rtp_extern :: "1 word"
  rtp_csrc_count :: "4 word"
  rtp_marker :: "1 word"
  rtp_payload_type :: "7 word"
  rtp_sequence :: u32
  rtp_timestamp :: u32
  rtp_ssrc :: u32
  rtp_sample :: u32

definition Rtp_new :: "int \<Rightarrow> u32 \<Rightarrow> rtp" where
  "Rtp_new pt sample = \<lparr>rtp_version = 2, rtp_padding = 0, rtp_extern = 0, rtp_csrc_count = 0, rtp_marker = 0,
     rtp_payload_type = word_of_int pt, rtp_sequence = 0, rtp_timestamp = 0, rtp_ssrc = 0, rtp_sample = sample\<rparr>"

definition RtpH264_new :: "int \<Rightarrow> rtp" where "RtpH264_new pt = Rtp_new pt 90000"
definition RtpOpus_new :: "int \<Rightarrow> rtp" where "RtpOpus_new pt = Rtp_new pt 48000"

definition Rtp_EncodeHeader :: "rtp \<Rightarrow> byte list" where
  "Rtp_EncodeHeader r =
     [push_bit 6 (ucast (rtp_version r)) OR push_bit 5 (ucast (rtp_padding r)) OR push_bit 4 (ucast (rtp_extern r)) OR
        ucast (rtp_csrc_count r),
      push_bit 7 (ucast (rtp_marker r)) OR ucast (rtp_payload_type r),
      ucast (drop_bit 8 (rtp_sequence r)), ucast (rtp_sequence r AND 0xff)] @
     WriteUint32T (rtp_timestamp r) @ WriteUint32T (rtp_ssrc r)"

definition Rtp_HeaderSize :: "rtp \<Rightarrow> nat" where
  "Rtp_HeaderSize r = (if 0 < rtp_csrc_count r then 12 + unat (rtp_csrc_count r) * 4 else 12)"

definition kRtpMaxPayloadSize :: nat where "kRtpMaxPayloadSize = 1400"

text \<open>A new packet of \<open>n\<close> bytes with the header, which is only as long as \<open>HeaderSize\<close> when there are no
  sources, and the payload behind \<open>HeaderSize\<close> bytes.\<close>

definition rtp_packet :: "u32 \<Rightarrow> nat \<Rightarrow> byte list \<Rightarrow> rtp \<Rightarrow> 'e packet res" where
  "rtp_packet type n payload r =
     bindE (NewPacket (to_int n)) (\<lambda>p.
     bindE (write_data 0 (Rtp_EncodeHeader r) p) (\<lambda>p.
     bindE (write_data (Rtp_HeaderSize r) payload p) (\<lambda>p.
       Inr (SetIndex (rtp_sequence r) (SetPacketType type (SetPacketSize n p))))))"

definition next_sequence :: "1 word \<Rightarrow> rtp \<Rightarrow> rtp" where
  "next_sequence m r = r\<lparr>rtp_sequence := rtp_sequence r + 1, rtp_marker := m\<rparr>"

section \<open>H.264\<close>

definition EncodeSingle :: "sample_buf \<Rightarrow> bool \<Rightarrow> rtp \<Rightarrow> 'e packet list \<Rightarrow> (rtp \<times> 'e packet list) res" where
  "EncodeSingle buf fin r outs =
     (let r = next_sequence (if fin then 1 else 0) r
      in bindE (mem_read (sb_size buf) (sb_addr buf)) (\<lambda>d.
         bindE (rtp_packet kPacketTypeVideo (Rtp_HeaderSize r + sb_size buf) d r) (\<lambda>p. Inr (r, outs @ [p]))))"

text \<open>The two bytes in front of a fragment.\<close>

definition fua_header :: "byte \<Rightarrow> bool \<Rightarrow> bool \<Rightarrow> byte list" where
  "fua_header type start fin =
     [(type AND 0x60) OR 28, (type AND 0x1f) OR (if start then 0x80 else if fin then 0x40 else 0)]"

definition fua_size :: "nat \<Rightarrow> nat \<Rightarrow> nat" where
  "fua_size header_size bytes = min kRtpMaxPayloadSize (header_size + 2 + bytes)"

lemma HeaderSize_bound: "12 \<le> Rtp_HeaderSize r" "Rtp_HeaderSize r \<le> 72"
  using unsigned_less [of "rtp_csrc_count r", where ?'a = nat] by (simp_all add: Rtp_HeaderSize_def)

lemma fragment_pos: "bytes \<noteq> 0 \<Longrightarrow> 0 < fua_size (Rtp_HeaderSize r) bytes - 2 - Rtp_HeaderSize r"
  using HeaderSize_bound [of r] by (simp add: fua_size_def kRtpMaxPayloadSize_def min_def)

function fua_loop :: "byte \<Rightarrow> byte list \<Rightarrow> nat \<Rightarrow> bool \<Rightarrow> rtp \<Rightarrow> 'e packet list \<Rightarrow> (rtp \<times> 'e packet list) res" where
  "fua_loop type data bytes start r outs =
     (if bytes = 0 then Inr (r, outs)
      else let packet_size = fua_size (Rtp_HeaderSize r) bytes;
               payload_size = packet_size - 2 - Rtp_HeaderSize r;
               fin = (bytes \<le> payload_size);
               r' = next_sequence (if fin then 1 else 0) r
           in bindE (mem_read payload_size data) (\<lambda>d.
              bindE (rtp_packet kPacketTypeVideo packet_size (fua_header type start fin @ d) r') (\<lambda>p.
                fua_loop type (drop payload_size data) (bytes - payload_size) False r' (outs @ [p]))))"
  by pat_completeness auto
termination
  by (relation "measure (\<lambda>(_, _, bytes, _). bytes)") (auto simp only: in_measure prod.case wf_measure intro!: diff_less fragment_pos)

declare fua_loop.simps [simp del]

definition EncodeFua :: "sample_buf \<Rightarrow> rtp \<Rightarrow> 'e packet list \<Rightarrow> (rtp \<times> 'e packet list) res" where
  "EncodeFua buf r outs =
     bindE (element 0 (sb_addr buf)) (\<lambda>type.
       fua_loop type (drop 1 (sb_addr buf)) (nat (to_int (sb_size buf - 1))) True r outs)"

fun encode_units :: "sample_buf list \<Rightarrow> rtp \<Rightarrow> 'e packet list \<Rightarrow> (rtp \<times> 'e packet list) res" where
  "encode_units [] r outs = Inr (r, outs)"
| "encode_units (b # bs) r outs =
     bindE (if kRtpMaxPayloadSize < Rtp_HeaderSize r + sb_size b then EncodeFua b r outs
            else EncodeSingle b (bs = []) r outs) (\<lambda>(r, outs). encode_units bs r outs)"

text \<open>The timestamp is computed as a double, exactly for these values, and converted.\<close>

definition rtp_clock :: "u32 \<Rightarrow> u32 res" where
  "rtp_clock ts = (if unat ts * 90 < 2 ^ 32 then Inr (ts * 90) else Inl BadConversion)"

definition RtpH264_Encode :: "sample_buf list \<Rightarrow> u32 \<Rightarrow> rtp \<Rightarrow> 'e packet list \<Rightarrow> (rtp \<times> 'e packet list) res" where
  "RtpH264_Encode ins ts r outs =
     bindE (rtp_clock ts) (\<lambda>t. encode_units ins (r\<lparr>rtp_timestamp := t, rtp_marker := 0\<rparr>) outs)"

definition EncodeSpsPps :: "byte list \<Rightarrow> byte list \<Rightarrow> rtp \<Rightarrow> 'e packet list \<Rightarrow> (bool \<times> rtp \<times> 'e packet list) res" where
  "EncodeSpsPps sps pps r outs =
     (if sps = [] \<and> pps = [] then Inr (False, r, outs)
      else let r = next_sequence 0 r;
               type = (if sps = [] then 0 else hd sps)
           in bindE (rtp_packet kPacketTypeVideo (Rtp_HeaderSize r + 5 + length sps + length pps)
                ([(type AND NOT 0x1f) OR 24] @ WriteUint16T (of_nat (length sps)) @ sps @
                  WriteUint16T (of_nat (length pps)) @ pps) r) (\<lambda>p.
              Inr (True, r, outs @ [p])))"

section \<open>Opus\<close>

fun RtpOpus_Encode :: "byte list list \<Rightarrow> rtp \<Rightarrow> 'e packet list \<Rightarrow> (rtp \<times> 'e packet list) res" where
  "RtpOpus_Encode [] r outs = Inr (r, outs)"
| "RtpOpus_Encode (s # ss) r outs =
     (if 2 ^ 32 \<le> unat (rtp_timestamp r) + 480 then Inl BadConversion
      else let r = next_sequence 1 (r\<lparr>rtp_timestamp := rtp_timestamp r + 480\<rparr>)
           in bindE (rtp_packet kPacketTypeAudio (Rtp_HeaderSize r + length s) s r) (\<lambda>p. RtpOpus_Encode ss r (outs @ [p])))"

section \<open>A receiver\<close>

text \<open>A packet without sources and extension: payload type, marker, sequence number, timestamp, source and
  payload.\<close>

definition rtp_parse :: "byte list \<Rightarrow> (7 word \<times> bool \<times> u16 \<times> u32 \<times> u32 \<times> byte list) option" where
  "rtp_parse bs =
     (case (bs, ReadUint16T (drop 2 bs), ReadUint32T (drop 4 bs), ReadUint32T (drop 8 bs)) of
        (b0 # b1 # _, Inr seq, Inr ts, Inr ssrc) \<Rightarrow>
          if b0 = 0x80 then Some (ucast b1, bit b1 7, seq, ts, ssrc, drop 12 bs) else None
      | _ \<Rightarrow> None)"

text \<open>Packets of one source with consecutive numbers, \<open>step\<close> between their timestamps: markers and payloads.\<close>

fun rtp_stream :: "7 word \<Rightarrow> u16 \<Rightarrow> u32 \<Rightarrow> u32 \<Rightarrow> u32 \<Rightarrow> byte list list \<Rightarrow> (bool \<times> byte list) list option" where
  "rtp_stream pt seq ts step ssrc [] = Some []"
| "rtp_stream pt seq ts step ssrc (b # bs) =
     (case rtp_parse b of
        None \<Rightarrow> None
      | Some (pt', m, seq', ts', ssrc', d) \<Rightarrow>
          if pt' = pt \<and> seq' = seq \<and> ts' = ts \<and> ssrc' = ssrc
          then map_option (Cons (m, d)) (rtp_stream pt (seq + 1) (ts + step) step ssrc bs) else None)"

text \<open>The units of an aggregation packet, each with its length in two bytes.\<close>

fun stap_units :: "nat \<Rightarrow> byte list \<Rightarrow> byte list list option" where
  "stap_units 0 bs = None"
| "stap_units (Suc n) bs =
     (if bs = [] then Some []
      else case ReadUint16T bs of
        Inl _ \<Rightarrow> None
      | Inr k \<Rightarrow> if unat k \<le> length bs - 2 then map_option (Cons (take (unat k) (drop 2 bs))) (stap_units n (drop (2 + unat k) bs))
                 else None)"

text \<open>The payloads, with the fragments of the unit that is under way.\<close>

fun depay :: "byte list option \<Rightarrow> byte list list \<Rightarrow> byte list list option" where
  "depay buf [] = (if buf = None then Some [] else None)"
| "depay buf (p # ps) =
     (case p of
        [] \<Rightarrow> None
      | h # t \<Rightarrow>
          if h AND 0x1f = 28 then
            (case t of
               [] \<Rightarrow> None
             | f # d \<Rightarrow>
                 (case buf of
                    None \<Rightarrow> if bit f 7 \<and> \<not> bit f 6 then depay (Some (((h AND 0xe0) OR (f AND 0x1f)) # d)) ps else None
                  | Some b \<Rightarrow> if bit f 7 then None
                              else if bit f 6 then map_option (Cons (b @ d)) (depay None ps)
                              else depay (Some (b @ d)) ps))
          else if buf \<noteq> None then None
          else if h AND 0x1f = 24 then
            (case stap_units (length t + 1) t of None \<Rightarrow> None | Some us \<Rightarrow> map_option ((@) us) (depay None ps))
          else if 1 \<le> h AND 0x1f \<and> h AND 0x1f \<le> 23 then map_option (Cons p) (depay None ps)
          else None)"

section \<open>Packets\<close>

definition plain_rtp :: "rtp \<Rightarrow> bool" where
  "plain_rtp r \<longleftrightarrow> rtp_version r = 2 \<and> rtp_padding r = 0 \<and> rtp_extern r = 0 \<and> rtp_csrc_count r = 0"

lemma plain_rtp_next [simp]: "plain_rtp (next_sequence m r) = plain_rtp r"
  by (simp add: plain_rtp_def next_sequence_def)

lemma plain_HeaderSize [simp]: "plain_rtp r \<Longrightarrow> Rtp_HeaderSize r = 12"
  by (simp add: plain_rtp_def Rtp_HeaderSize_def)

lemma length_Rtp_EncodeHeader [simp]: "length (Rtp_EncodeHeader r) = 12"
  by (simp add: Rtp_EncodeHeader_def WriteUint32T_def)

lemma rtp_parse_header:
  assumes "plain_rtp r"
  shows "rtp_parse (Rtp_EncodeHeader r @ p) =
    Some (rtp_payload_type r, rtp_marker r = 1, ucast (rtp_sequence r), rtp_timestamp r, rtp_ssrc r, p)"
proof -
  let ?b0 = "push_bit 6 (ucast (rtp_version r)) OR push_bit 5 (ucast (rtp_padding r)) OR push_bit 4 (ucast (rtp_extern r)) OR
      ucast (rtp_csrc_count r) :: byte"
  let ?b1 = "push_bit 7 (ucast (rtp_marker r)) OR ucast (rtp_payload_type r) :: byte"
  let ?s = "[ucast (drop_bit 8 (rtp_sequence r)), ucast (rtp_sequence r AND 0xff)]"
  let ?bs = "?b0 # ?b1 # ?s @ WriteUint32T (rtp_timestamp r) @ WriteUint32T (rtp_ssrc r) @ p"
  have bs: "Rtp_EncodeHeader r @ p = ?bs" by (simp add: Rtp_EncodeHeader_def)
  have ff: "(0xff :: u32) = mask 8" by (simp add: mask_eq_exp_minus_1)
  have "?s = WriteUint16T (ucast (rtp_sequence r))"
    unfolding WriteUint16T_def by (auto intro!: bit_word_eqI simp: bit_simps ff)
  then have seq: "ReadUint16T (drop 2 ?bs) = Inr (ucast (rtp_sequence r))" using u16.dec_enc by simp
  have len: "length (WriteUint32T v) = 4" for v by (simp add: WriteUint32T_def)
  have f: "ReadUint32T (drop 4 ?bs) = Inr (rtp_timestamp r)" "ReadUint32T (drop 8 ?bs) = Inr (rtp_ssrc r)" "drop 12 ?bs = p"
    by (simp_all add: len u32.dec_enc)
  have b0: "?b0 = 0x80" using assms by (simp add: plain_rtp_def)
  have m: "(rtp_marker r = 1) = bit (rtp_marker r) 0" by (auto intro!: bit_word_eqI simp: bit_1_iff)
  have b1: "ucast ?b1 = rtp_payload_type r" "bit ?b1 7 = (rtp_marker r = 1)"
    unfolding m by (rule bit_word_eqI) (auto simp: bit_simps dest: bit_imp_le_length)
  show ?thesis unfolding bs rtp_parse_def seq f b1 by (simp add: b0 b1)
qed

definition numbered :: "'e packet \<Rightarrow> u32 \<times> byte list" where
  "numbered p = (pk_index p, body p)"

lemma rtp_packet_ok:
  assumes "plain_rtp r" "n = 12 + length payload" "n < 2 ^ 31"
  shows "\<exists>p. rtp_packet type n payload r = Inr p \<and> packet_ok p \<and> body p = Rtp_EncodeHeader r @ payload \<and>
    pk_index p = rtp_sequence r \<and> pk_type p = type"
proof -
  obtain p0 :: "'a packet" where p0: "NewPacket (int n) = Inr p0" "packet_ok p0" "unat (pk_capacity p0) = n"
    using NewPacket_ok [of "int n"] assms(3) by auto
  have len: "length (pk_data p0) = 12 + length payload" using p0(2,3) assms(2) by (simp add: packet_ok_def)
  let ?h = "Rtp_EncodeHeader r"
  have data: "overwrite 12 payload (overwrite 0 ?h (pk_data p0)) = ?h @ payload"
    using len by (simp add: overwrite_def)
  have w: "write_data 0 ?h p0 = Inr (p0\<lparr>pk_data := overwrite 0 ?h (pk_data p0)\<rparr>)"
      "write_data 12 payload (p0\<lparr>pk_data := overwrite 0 ?h (pk_data p0)\<rparr>) = Inr (p0\<lparr>pk_data := ?h @ payload\<rparr>)"
    using len data by (simp_all add: write_data_def overwrite_def)
  have "rtp_packet type n payload r =
      Inr (SetIndex (rtp_sequence r) (SetPacketType type (SetPacketSize n (p0\<lparr>pk_data := ?h @ payload\<rparr>))))"
    using p0(1) w assms(1,3) by (simp add: rtp_packet_def del: bindE_eq_Inr)
  moreover have "unat (of_nat n :: u32) = n" using assms(3) by (simp add: unat_of_nat take_bit_nat_eq_self)
  ultimately show ?thesis using p0(3) len assms(2,3)
    by (simp add: packet_ok_def body_def SetIndex_def SetPacketType_def SetPacketSize_def word_le_nat_alt)
qed

text \<open>Numbers and bytes of packets with the payloads \<open>ms\<close>, each with its marker; the sender behind them.\<close>

fun headed :: "rtp \<Rightarrow> (1 word \<times> byte list) list \<Rightarrow> (u32 \<times> byte list) list" where
  "headed r [] = []"
| "headed r ((m, p) # ms) =
     (let r = next_sequence m r in (rtp_sequence r, Rtp_EncodeHeader r @ p) # headed r ms)"

fun behind :: "rtp \<Rightarrow> (1 word \<times> byte list) list \<Rightarrow> rtp" where
  "behind r [] = r"
| "behind r ((m, p) # ms) = behind (next_sequence m r) ms"

lemma headed_append: "headed r (ms @ ns) = headed r ms @ headed (behind r ms) ns"
  by (induction r ms rule: headed.induct) (simp_all add: Let_def)

lemma behind_append: "behind r (ms @ ns) = behind (behind r ms) ns"
  by (induction r ms rule: behind.induct) simp_all

lemma behind_plain [simp]: "plain_rtp (behind r ms) = plain_rtp r"
  by (induction r ms rule: behind.induct) simp_all

lemma behind_fields [simp]:
  "rtp_timestamp (behind r ms) = rtp_timestamp r" "rtp_ssrc (behind r ms) = rtp_ssrc r"
  "rtp_payload_type (behind r ms) = rtp_payload_type r" "rtp_sequence (behind r ms) = rtp_sequence r + of_nat (length ms)"
  by (induction r ms rule: behind.induct) (simp_all add: next_sequence_def)

lemma behind_eq: "behind r ms = r\<lparr>rtp_sequence := rtp_sequence r + of_nat (length ms), rtp_marker := rtp_marker (behind r ms)\<rparr>"
  by (induction r ms rule: behind.induct) (auto simp: next_sequence_def ac_simps)

lemma length_headed [simp]: "length (headed r ms) = length ms"
  by (induction r ms rule: headed.induct) (simp_all add: Let_def)

lemma ucast_next: "(ucast (x + 1 :: u32) :: u16) = ucast x + 1"
proof -
  have "take_bit 16 (take_bit 32 y + 1) = take_bit 16 (y + 1)" for y :: int
    by (subst (1 2) take_bit_add [symmetric]) simp
  then show ?thesis by transfer simp
qed

lemma headed_stream:
  "plain_rtp r \<Longrightarrow> rtp_stream (rtp_payload_type r) (ucast (rtp_sequence r) + 1) (rtp_timestamp r) 0 (rtp_ssrc r)
     (map snd (headed r ms)) = Some (map (map_prod (\<lambda>m. m = 1) id) ms)"
proof (induction r ms rule: headed.induct)
  case (2 r m p ms)
  have r: "rtp_payload_type (next_sequence m r) = rtp_payload_type r" "rtp_timestamp (next_sequence m r) = rtp_timestamp r"
      "rtp_ssrc (next_sequence m r) = rtp_ssrc r" "rtp_marker (next_sequence m r) = m"
      "(ucast (rtp_sequence (next_sequence m r)) :: u16) = ucast (rtp_sequence r) + 1"
    by (simp_all add: next_sequence_def ucast_next)
  show ?case using "2.IH" [OF refl] "2.prems" by (simp add: Let_def rtp_parse_header r)
qed simp

lemma headed_numbers: "map fst (headed r ms) = map (\<lambda>i. rtp_sequence r + 1 + of_nat i) [0..<length ms]"
proof (induction r ms rule: headed.induct)
  case (2 r m p ms)
  have "[0..<length ((m, p) # ms)] = 0 # map Suc [0..<length ms]" by (simp add: upt_conv_Cons map_Suc_upt del: upt_Suc)
  then show ?case using "2.IH" [OF refl] by (simp add: Let_def next_sequence_def del: upt_Suc)
qed simp

section \<open>Fragments\<close>

text \<open>The payloads of the fragments of a unit of kind \<open>type\<close>, each with the marker of its packet.\<close>

function fragments :: "byte \<Rightarrow> byte list \<Rightarrow> bool \<Rightarrow> (1 word \<times> byte list) list" where
  "fragments type d start =
     (if d = [] then []
      else (if length d \<le> 1386 then 1 else 0, fua_header type start (length d \<le> 1386) @ take 1386 d) #
             fragments type (drop 1386 d) False)"
  by pat_completeness auto
termination by (relation "measure (length o fst o snd)") auto

declare fragments.simps [simp del]

lemma fua_loop_fragments:
  assumes "plain_rtp r" "bytes \<le> length d"
  shows "\<exists>new. fua_loop type d bytes start r outs = Inr (behind r (fragments type (take bytes d) start), outs @ new) \<and>
    list_all packet_ok new \<and> map numbered new = headed r (fragments type (take bytes d) start) \<and>
    list_all (\<lambda>p. pk_type p = kPacketTypeVideo) new"
  using assms
proof (induction bytes arbitrary: d start r outs rule: less_induct)
  case (less bytes)
  show ?case
  proof (cases "bytes = 0")
    case True
    then show ?thesis by (simp add: fua_loop.simps fragments.simps)
  next
    case False
    let ?k = "min bytes 1386" and ?fin = "bytes \<le> 1386"
    let ?m = "if ?fin then 1 else 0 :: 1 word"
    let ?r = "next_sequence ?m r"
    have size: "fua_size 12 bytes = 14 + ?k" "fua_size 12 bytes - 2 - 12 = ?k" "bytes \<le> ?k \<longleftrightarrow> ?fin"
      by (auto simp: fua_size_def kRtpMaxPayloadSize_def)
    have hd2: "length (fua_header type start ?fin) = 2" by (simp add: fua_header_def)
    have k: "?k \<le> length d" "0 < ?k" using less.prems(2) False by simp_all
    have r1: "plain_rtp ?r" using less.prems(1) by simp
    have len: "14 + ?k = 12 + length (fua_header type start ?fin @ take ?k d)" using hd2 k(1) by simp
    have "?k \<le> 1386" by (rule min.cobounded2)
    then have n: "14 + ?k < 2 ^ 31" by simp
    obtain p :: "'a packet" where p: "rtp_packet kPacketTypeVideo (14 + ?k) (fua_header type start ?fin @ take ?k d) ?r = Inr p"
        "packet_ok p" "numbered p = (rtp_sequence ?r, Rtp_EncodeHeader ?r @ fua_header type start ?fin @ take ?k d)" "pk_type p = kPacketTypeVideo"
      using rtp_packet_ok [OF r1 len n] by (auto simp: numbered_def)
    have step: "fua_loop type d bytes start r outs = fua_loop type (drop ?k d) (bytes - ?k) False ?r (outs @ [p])"
      using False k(1) p(1) less.prems(1) by (subst fua_loop.simps) (simp add: size Let_def del: bindE_eq_Inr)
    have "bytes - ?k < bytes" "bytes - ?k \<le> length (drop ?k d)" "plain_rtp ?r" using k less.prems by simp_all
    from less.IH [OF this(1,3,2), of False "outs @ [p]"] obtain new where new:
      "fua_loop type (drop ?k d) (bytes - ?k) False ?r (outs @ [p]) =
         Inr (behind ?r (fragments type (take (bytes - ?k) (drop ?k d)) False), (outs @ [p]) @ new)"
      "list_all packet_ok new" "map numbered new = headed ?r (fragments type (take (bytes - ?k) (drop ?k d)) False)"
      "list_all (\<lambda>p. pk_type p = kPacketTypeVideo) new" by blast
    have ne: "take bytes d \<noteq> []" "length (take bytes d) = bytes" using False less.prems(2) by auto
    have "drop 1386 (take bytes d) = take (bytes - ?k) (drop ?k d)" by (cases ?fin) (simp_all add: drop_take)
    moreover have "take 1386 (take bytes d) = take ?k d" by (simp add: min.commute)
    ultimately have fr: "fragments type (take bytes d) start =
        (?m, fua_header type start ?fin @ take ?k d) # fragments type (take (bytes - ?k) (drop ?k d)) False"
      using ne by (subst fragments.simps) simp
    show ?thesis unfolding fr using step new p by (intro exI [of _ "p # new"]) (simp add: Let_def)
  qed
qed

section \<open>Units\<close>

text \<open>A unit that can be sent: the first byte has a kind from 1 to 23 and no forbidden bit.\<close>

definition rtp_unit :: "byte list \<Rightarrow> bool" where
  "rtp_unit u \<longleftrightarrow> u \<noteq> [] \<and> 1 \<le> hd u AND 0x1f \<and> hd u AND 0x1f \<le> 23 \<and> \<not> bit (hd u) 7 \<and> length u < 2 ^ 31 - 12"

lemma fua_bits:
  "((t AND 0x60) OR 28) AND 0x1f = (28 :: byte)"
  "bit ((t AND 0x1f) OR 0x80 :: byte) 7" "\<not> bit ((t AND 0x1f) OR 0x80 :: byte) 6"
  "\<not> bit ((t AND 0x1f) OR 0x40 :: byte) 7" "bit ((t AND 0x1f) OR 0x40 :: byte) 6"
  "\<not> bit ((t AND 0x1f) :: byte) 7" "\<not> bit ((t AND 0x1f) :: byte) 6"
  by (simp_all add: bit.conj_disj_distrib2 and.assoc bit_simps)

lemma fua_kind:
  assumes "\<not> bit (t :: byte) 7"
  shows "(((t AND 0x60) OR 28) AND 0xe0) OR (((t AND 0x1f) OR 0x80) AND 0x1f) = t"
proof -
  have "(((t AND 0x60) OR 28) AND 0xe0) OR (((t AND 0x1f) OR 0x80) AND 0x1f) = t AND 0x7f"
    by (simp add: bit.conj_disj_distrib2 bit.conj_disj_distrib and.assoc flip: bit.conj_disj_distrib)
  moreover have "t AND mask 7 = t"
  proof (rule bit_word_eqI)
    fix n assume "n < LENGTH(8)"
    then have "n < 7 \<or> n = 7" by auto
    then show "bit (t AND mask 7) n = bit t n" using assms by (auto simp: bit_simps)
  qed
  ultimately show ?thesis by (simp add: mask_eq_exp_minus_1)
qed

lemma depay_rest:
  "d \<noteq> [] \<Longrightarrow> depay (Some b) (map snd (fragments t d False) @ ps) = map_option (Cons (b @ d)) (depay None ps)"
proof (induction t d "False" arbitrary: b rule: fragments.induct)
  case (1 t d)
  show ?case
  proof (cases "length d \<le> 1386")
    case True
    then show ?thesis using 1(2) by (subst fragments.simps) (simp add: fua_header_def fua_bits fragments.simps [of t "[]"])
  next
    case False
    then have "drop 1386 d \<noteq> []" by simp
    then show ?thesis using 1 False
      by (subst fragments.simps) (simp add: fua_header_def fua_bits)
  qed
qed

lemma depay_fragments:
  assumes "\<not> bit t 7" "1386 < length d"
  shows "depay None (map snd (fragments t d True) @ ps) = map_option (Cons (t # d)) (depay None ps)"
proof -
  have d: "d \<noteq> []" "drop 1386 d \<noteq> []" "\<not> length d \<le> 1386" using assms(2) by auto
  show ?thesis
    using d(1,3) depay_rest [OF d(2), of "t # take 1386 d" t ps] fua_kind [OF assms(1)]
    by (subst fragments.simps) (simp add: fua_header_def fua_bits)
qed

lemma fragments_marks:
  "d \<noteq> [] \<Longrightarrow> fragments t d start \<noteq> [] \<and> fst (last (fragments t d start)) = 1"
proof (induction t d start rule: fragments.induct)
  case (1 t d start)
  show ?case
  proof (cases "length d \<le> 1386")
    case True
    then show ?thesis using 1(2) by (subst (1 2) fragments.simps) (simp add: fragments.simps [of t "[]"])
  next
    case False
    then have "drop 1386 d \<noteq> []" by simp
    then show ?thesis using 1 False by (subst (1 2) fragments.simps) simp
  qed
qed

lemma fragments_size: "list_all (\<lambda>(m, p). length p \<le> 1388) (fragments t d start)"
  by (induction t d start rule: fragments.induct) (subst fragments.simps, simp add: fua_header_def)

fun unit_payloads :: "byte list list \<Rightarrow> (1 word \<times> byte list) list" where
  "unit_payloads [] = []"
| "unit_payloads (u # us) =
     (if 1388 < length u then fragments (hd u) (tl u) True else [(if us = [] then 1 else 0, u)]) @ unit_payloads us"

lemma unit_payloads_size: "list_all (\<lambda>(m, p). length p \<le> 1388) (unit_payloads us)"
  by (induction us) (simp_all add: fragments_size)

lemma unit_payloads_marked: "us \<noteq> [] \<Longrightarrow> unit_payloads us \<noteq> [] \<and> fst (last (unit_payloads us)) = 1"
proof (induction us)
  case (Cons u us)
  have "1388 < length u \<Longrightarrow> tl u \<noteq> []" by (cases u) auto
  then show ?case using Cons.IH fragments_marks [of "tl u" "hd u" True] by (cases us) auto
qed simp

lemma depay_units:
  "list_all rtp_unit us \<Longrightarrow> depay None (map snd (unit_payloads us) @ ps) = map_option ((@) us) (depay None ps)"
proof (induction us)
  case Nil
  then show ?case by (cases "depay None ps") simp_all
next
  case (Cons u us)
  obtain t d where u: "u = t # d" "1 \<le> t AND 0x1f" "t AND 0x1f \<le> 23" "\<not> bit t 7"
    using Cons.prems by (cases u) (auto simp: rtp_unit_def)
  then have k: "t AND 0x1f \<noteq> 28" "t AND 0x1f \<noteq> 24" by (auto simp: word_le_nat_alt)
  have c: "map_option ((#) u \<circ> (@) us) x = map_option ((@) (u # us)) x" for x by (cases x) simp_all
  show ?case
    using Cons.IH Cons.prems depay_fragments [OF u(4), of d] u(2,3) k
    by (cases "1388 < length u") (auto simp: u(1) option.map_comp c [unfolded u(1)] map_option_case split: option.splits)
qed

section \<open>H.264 arrives\<close>

definition sendable :: "sample_buf \<Rightarrow> bool" where
  "sendable b \<longleftrightarrow> sb_size b \<le> length (sb_addr b) \<and> 0 < sb_size b \<and> sb_size b < 2 ^ 31 - 12"

definition rtp_packets :: "'e packet list \<Rightarrow> u32 \<Rightarrow> bool" where
  "rtp_packets new type \<longleftrightarrow> list_all packet_ok new \<and> list_all (\<lambda>p. pk_type p = type) new"

lemma rtp_packets_simps [simp]:
  "rtp_packets [] type" "rtp_packets (p # ps) type \<longleftrightarrow> packet_ok p \<and> pk_type p = type \<and> rtp_packets ps type"
  "rtp_packets (ps @ qs) type \<longleftrightarrow> rtp_packets ps type \<and> rtp_packets qs type"
  by (auto simp: rtp_packets_def)

lemma EncodeSingle_ok:
  assumes "plain_rtp r" "sendable b"
  shows "\<exists>p. EncodeSingle b fin r outs = Inr (next_sequence (if fin then 1 else 0) r, outs @ [p]) \<and>
    rtp_packets [p] kPacketTypeVideo \<and>
    numbered p = (rtp_sequence (next_sequence (if fin then 1 else 0) r),
                  Rtp_EncodeHeader (next_sequence (if fin then 1 else 0) r) @ sample_bytes b)"
proof -
  let ?r = "next_sequence (if fin then 1 else 0) r"
  have b: "sb_size b \<le> length (sb_addr b)" "12 + sb_size b = 12 + length (sample_bytes b)" "12 + sb_size b < 2 ^ 31"
      "take (sb_size b) (sb_addr b) = sample_bytes b"
    using assms(2) by (auto simp: sendable_def sample_bytes_def)
  obtain p :: "'a packet" where "rtp_packet kPacketTypeVideo (12 + sb_size b) (sample_bytes b) ?r = Inr p" "packet_ok p"
      "body p = Rtp_EncodeHeader ?r @ sample_bytes b" "pk_index p = rtp_sequence ?r" "pk_type p = kPacketTypeVideo"
    using rtp_packet_ok [of ?r, OF _ b(2,3)] assms(1) by auto
  then show ?thesis using assms(1) b(1,4)
    by (intro exI [of _ p]) (simp add: EncodeSingle_def numbered_def del: bindE_eq_Inr)
qed

lemma EncodeFua_ok:
  assumes "plain_rtp r" "sendable b" "1388 < sb_size b" "sample_bytes b = t # d"
  shows "\<exists>new. EncodeFua b r outs = Inr (behind r (fragments t d True), outs @ new) \<and>
    rtp_packets new kPacketTypeVideo \<and> map numbered new = headed r (fragments t d True)"
proof -
  obtain rest where addr: "sb_addr b = t # d @ rest" "length d = sb_size b - 1"
    using assms(2,4) append_take_drop_id [of "sb_size b" "sb_addr b"]
    by (metis Cons_eq_appendI One_nat_def diff_Suc_1 length_Cons length_take min.absorb2 sample_bytes_def sendable_def)
  then have len: "sb_size b - 1 \<le> length (drop 1 (sb_addr b))" "take (sb_size b - 1) (drop 1 (sb_addr b)) = d"
    by simp_all
  have "sb_size b - 1 < 2 ^ 31" using assms(2) unfolding sendable_def by linarith
  then have "nat (to_int (sb_size b - 1)) = sb_size b - 1" by (simp only: to_int_small nat_int)
  then show ?thesis
    using fua_loop_fragments [OF assms(1) len(1), of t True outs] addr(1) len(2)
    by (auto simp: EncodeFua_def rtp_packets_def element_def)
qed

lemma encode_units_ok:
  assumes "plain_rtp r" "list_all sendable bs"
  shows "\<exists>new. encode_units bs r outs = Inr (behind r (unit_payloads (map sample_bytes bs)), outs @ new) \<and>
    rtp_packets new kPacketTypeVideo \<and> map numbered new = headed r (unit_payloads (map sample_bytes bs))"
  using assms
proof (induction bs arbitrary: r outs)
  case (Cons b bs)
  let ?u = "sample_bytes b" and ?fin = "bs = []"
  have b: "sendable b" "length ?u = sb_size b" using Cons.prems(2) by (auto simp: sendable_def sample_bytes_def)
  define ms where "ms = (if 1388 < sb_size b then fragments (hd ?u) (tl ?u) True else [(if ?fin then 1 else 0, ?u)])"
  have "\<exists>new. (if kRtpMaxPayloadSize < Rtp_HeaderSize r + sb_size b then EncodeFua b r outs else EncodeSingle b ?fin r outs) =
      Inr (behind r ms, outs @ new) \<and> rtp_packets new kPacketTypeVideo \<and> map numbered new = headed r ms"
  proof (cases "1388 < sb_size b")
    case True
    then have "?u = hd ?u # tl ?u" using b(2) by (cases ?u) auto
    then show ?thesis using EncodeFua_ok [OF Cons.prems(1) b(1) True] True Cons.prems(1)
      by (simp add: kRtpMaxPayloadSize_def ms_def)
  next
    case False
    then show ?thesis using EncodeSingle_ok [OF Cons.prems(1) b(1), of ?fin outs] Cons.prems(1)
      by (auto simp: kRtpMaxPayloadSize_def ms_def Let_def)
  qed
  then obtain new where new: "(if kRtpMaxPayloadSize < Rtp_HeaderSize r + sb_size b then EncodeFua b r outs else EncodeSingle b ?fin r outs) =
      Inr (behind r ms, outs @ new)" "rtp_packets new kPacketTypeVideo" "map numbered new = headed r ms" by blast
  obtain more where more: "encode_units bs (behind r ms) (outs @ new) =
      Inr (behind (behind r ms) (unit_payloads (map sample_bytes bs)), (outs @ new) @ more)"
      "rtp_packets more kPacketTypeVideo" "map numbered more = headed (behind r ms) (unit_payloads (map sample_bytes bs))"
    using Cons.IH [of "behind r ms" "outs @ new"] Cons.prems by auto
  have "unit_payloads (map sample_bytes (b # bs)) = ms @ unit_payloads (map sample_bytes bs)"
    by (simp add: ms_def b(2))
  then show ?case using new more
    by (intro exI [of _ "new @ more"]) (simp add: behind_append headed_append del: bindE_eq_Inr)
qed simp

definition stap_packet :: "byte list \<Rightarrow> byte list \<Rightarrow> byte list" where
  "stap_packet sps pps = ((hd sps AND NOT 0x1f) OR 24) #
     WriteUint16T (of_nat (length sps)) @ sps @ WriteUint16T (of_nat (length pps)) @ pps"

lemma EncodeSpsPps_ok:
  assumes "plain_rtp r" "sps \<noteq> []" "length sps + length pps < 2 ^ 31 - 17"
  shows "\<exists>p. EncodeSpsPps sps pps r outs = Inr (True, next_sequence 0 r, outs @ [p]) \<and> rtp_packets [p] kPacketTypeVideo \<and>
    numbered p = (rtp_sequence (next_sequence 0 r), Rtp_EncodeHeader (next_sequence 0 r) @ stap_packet sps pps)"
proof -
  let ?r = "next_sequence 0 r"
  have len: "12 + 5 + length sps + length pps = 12 + length (stap_packet sps pps)" "12 + 5 + length sps + length pps < 2 ^ 31"
    using assms(3) by (simp_all add: stap_packet_def WriteUint16T_def)
  obtain p :: "'a packet" where "rtp_packet kPacketTypeVideo (12 + 5 + length sps + length pps) (stap_packet sps pps) ?r = Inr p"
      "packet_ok p" "body p = Rtp_EncodeHeader ?r @ stap_packet sps pps" "pk_index p = rtp_sequence ?r"
      "pk_type p = kPacketTypeVideo"
    using rtp_packet_ok [of ?r, OF _ len] assms(1) by auto
  then show ?thesis using assms(1,2)
    by (intro exI [of _ p]) (simp add: EncodeSpsPps_def numbered_def stap_packet_def Let_def del: bindE_eq_Inr)
qed

lemma stap_units_step:
  assumes "length a < 2 ^ 16"
  shows "stap_units (Suc n) (WriteUint16T (of_nat (length a)) @ a @ bs) = map_option (Cons a) (stap_units n bs)"
proof -
  define w where "w = WriteUint16T (of_nat (length a))"
  have w: "length w = 2" "w \<noteq> []" by (simp_all add: w_def WriteUint16T_def)
  have "ReadUint16T (w @ a @ bs) = Inr (of_nat (length a))" by (simp add: w_def u16.dec_enc)
  moreover have "unat (of_nat (length a) :: u16) = length a" using assms by (simp add: unat_of_nat take_bit_nat_eq_self)
  ultimately show ?thesis unfolding w_def [symmetric] using w by simp
qed

lemma stap_units_two:
  assumes "length a < 2 ^ 16" "length b < 2 ^ 16" "2 < n"
  shows "stap_units n (WriteUint16T (of_nat (length a)) @ a @ WriteUint16T (of_nat (length b)) @ b) = Some [a, b]"
proof -
  obtain m where n: "n = Suc (Suc (Suc m))" by (rule that [of "n - 3"]) (use assms(3) in arith)
  have "stap_units (Suc m) [] = Some []" by simp
  then show ?thesis
    unfolding n stap_units_step [OF assms(1)] stap_units_step [OF assms(2), of _ "[]", unfolded append_Nil2]
    by (simp del: stap_units.simps)
qed

lemma depay_stap:
  assumes "sps \<noteq> []" "length sps < 2 ^ 16" "length pps < 2 ^ 16"
  shows "depay None (stap_packet sps pps # ps) = map_option ((@) [sps, pps]) (depay None ps)"
proof -
  let ?t = "WriteUint16T (of_nat (length sps)) @ sps @ WriteUint16T (of_nat (length pps)) @ pps"
  have "((hd sps AND NOT 0x1f) OR 24) AND 0x1f = (24 :: byte)" by (simp add: bit.conj_disj_distrib2 and.assoc)
  moreover have "stap_units (length ?t + 1) ?t = Some [sps, pps]"
    by (rule stap_units_two [OF assms(2,3)]) (simp add: WriteUint16T_def)
  ultimately show ?thesis unfolding stap_packet_def by (simp del: stap_units.simps)
qed

text \<open>What a sender in state \<open>r\<close> has sent, as a receiver sees it.\<close>

definition rtp_sent :: "rtp \<Rightarrow> u32 \<Rightarrow> 'e packet list \<Rightarrow> (bool \<times> byte list) list \<Rightarrow> bool" where
  "rtp_sent r ts new ms \<longleftrightarrow>
     rtp_stream (rtp_payload_type r) (ucast (rtp_sequence r) + 1) ts 0 (rtp_ssrc r) (map body new) = Some ms \<and>
     map pk_index new = map (\<lambda>i. rtp_sequence r + 1 + of_nat i) [0..<length new]"

lemma headed_sent:
  assumes "plain_rtp r" "map numbered new = headed r ms"
  shows "rtp_sent r (rtp_timestamp r) new (map (map_prod (\<lambda>m. m = 1) id) ms)"
proof -
  have n: "length new = length ms" using arg_cong [OF assms(2), of length] by simp
  have "map pk_index new = map fst (headed r ms)" "map body new = map snd (headed r ms)"
    unfolding assms(2) [symmetric] by (simp_all add: numbered_def)
  then show ?thesis using headed_stream [OF assms(1), of ms] headed_numbers [of r ms] n by (simp add: rtp_sent_def)
qed

lemma h264_sent:
  assumes "plain_rtp r" "list_all sendable bs" "map sample_bytes bs = us" "unat ts * 90 < 2 ^ 32"
  shows "\<exists>r' new. RtpH264_Encode bs ts r outs = Inr (r', outs @ new) \<and> rtp_packets new kPacketTypeVideo \<and>
    rtp_sent r (ts * 90) new (map (map_prod (\<lambda>m. m = 1) id) (unit_payloads us)) \<and> list_all (\<lambda>p. length (body p) \<le> 1400) new \<and>
    r' = r\<lparr>rtp_timestamp := ts * 90, rtp_sequence := rtp_sequence r + of_nat (length new), rtp_marker := rtp_marker r'\<rparr>"
proof -
  let ?r = "r\<lparr>rtp_timestamp := ts * 90, rtp_marker := 0\<rparr>" and ?ms = "unit_payloads us"
  have r: "plain_rtp ?r" using assms(1) by (simp add: plain_rtp_def)
  obtain new where new: "encode_units bs ?r outs = Inr (behind ?r ?ms, outs @ new)" "rtp_packets new kPacketTypeVideo"
      "map numbered new = headed ?r ?ms"
    using encode_units_ok [OF r assms(2)] assms(3) by blast
  have enc: "RtpH264_Encode bs ts r outs = Inr (behind ?r ?ms, outs @ new)"
    using new(1) assms(4) by (simp add: RtpH264_Encode_def rtp_clock_def)
  have n: "length new = length ?ms" using arg_cong [OF new(3), of length] by simp
  have sent: "rtp_sent r (ts * 90) new (map (map_prod (\<lambda>m. m = 1) id) ?ms)"
    using headed_sent [OF r new(3)] by (simp add: rtp_sent_def)
  have "list_all (\<lambda>p. length (snd p) \<le> 1400) (headed r ms)" if "list_all (\<lambda>(m, p). length p \<le> 1388) ms" for r ms
    using that by (induction r ms rule: headed.induct) (simp_all add: Let_def)
  from this [OF unit_payloads_size, of ?r us] have size: "list_all (\<lambda>p. length (body p) \<le> 1400) new"
    unfolding new(3) [symmetric] by (simp add: list.pred_map numbered_def comp_def)
  have "behind ?r ?ms = r\<lparr>rtp_timestamp := ts * 90, rtp_sequence := rtp_sequence r + of_nat (length new),
      rtp_marker := rtp_marker (behind ?r ?ms)\<rparr>"
    unfolding n by (subst behind_eq) simp
  then show ?thesis using enc new(2) sent size
    by (intro exI [of _ "behind ?r ?ms"] exI [of _ new] conjI)
qed

lemma marked_last: "us \<noteq> [] \<Longrightarrow> fst (last (map (map_prod (\<lambda>m. m = 1) id) (unit_payloads us)))"
  using unit_payloads_marked [of us] by (simp add: last_map)

lemma depay_marked: "list_all rtp_unit us \<Longrightarrow> depay None (map snd (map (map_prod f id) (unit_payloads us))) = Some us"
  using depay_units [of us "[]"] by (simp add: comp_def)

text \<open>A frame of H.264 arrives. The units of a frame, whatever their sizes, are sent in packets of at most
  1400 bytes with consecutive numbers, all with the timestamp \<open>ts * 90\<close>, the last one marked; a
  receiver that puts the fragments of FU-A together gets the units back, in order. The index of
  each packet is the number of which its header has the low 16 bits.\<close>

theorem h264_units_received:
  assumes "plain_rtp r" "list_all sendable bs" "map sample_bytes bs = us" "list_all rtp_unit us" "us \<noteq> []"
    and "unat ts * 90 < 2 ^ 32"
  shows "\<exists>r' new ms. RtpH264_Encode bs ts r outs = Inr (r', outs @ new) \<and> rtp_packets new kPacketTypeVideo \<and>
    list_all (\<lambda>p. length (body p) \<le> 1400) new \<and> rtp_sent r (ts * 90) new ms \<and> fst (last ms) \<and>
    depay None (map snd ms) = Some us"
  using h264_sent [OF assms(1-3,6), of outs] marked_last [OF assms(5)] depay_marked [OF assms(4)] by blast

lemma h264_units_received_witness:
  "\<exists>r' new ms. RtpH264_Encode [SampleBuf (0x65 # replicate 1500 7) 1501, SampleBuf [1, 2, 3] 2] 40 (RtpH264_new 96) [] =
      Inr (r', [] @ new) \<and> rtp_packets (new :: unit packet list) kPacketTypeVideo \<and>
    list_all (\<lambda>p. length (body p) \<le> 1400) new \<and> rtp_sent (RtpH264_new 96) 3600 new ms \<and> fst (last ms) \<and>
    depay None (map snd ms) = Some [0x65 # replicate 1500 7, [1, 2]]"
proof -
  have "plain_rtp (RtpH264_new 96)" by (simp add: RtpH264_new_def Rtp_new_def plain_rtp_def)
  moreover have "list_all sendable [SampleBuf (0x65 # replicate 1500 7) 1501, SampleBuf [1, 2, 3] 2]"
    by (simp add: sendable_def SampleBuf_def)
  moreover have "map sample_bytes [SampleBuf (0x65 # replicate 1500 7) 1501, SampleBuf [1, 2, 3] 2] = [0x65 # replicate 1500 7, [1, 2]]"
    by (simp add: sample_bytes_def SampleBuf_def)
  moreover have "list_all rtp_unit [0x65 # replicate 1500 7, [1, 2]]" by (simp add: rtp_unit_def bit_simps)
  ultimately show ?thesis
    using h264_units_received [of "RtpH264_new 96" "[SampleBuf (0x65 # replicate 1500 7) 1501, SampleBuf [1, 2, 3] 2]"
        "[0x65 # replicate 1500 7, [1, 2]]" 40 "[]"] by simp
qed

text \<open>A unit in fragments is marked at its end even when it is not the last of the frame, so a receiver that
  goes by the marker takes the frame for complete before its last unit.\<close>

lemma marked_too_early:
  assumes "1388 < length u" "length v \<le> 1388"
  shows "\<exists>ms p. unit_payloads [u, v] = ms @ [(1, p), (1, v)]"
proof -
  have "tl u \<noteq> []" using assms(1) by (cases u) auto
  then obtain ms p where "fragments (hd u) (tl u) True = ms @ [(1, p)]"
    using fragments_marks [of "tl u" "hd u" True] append_butlast_last_id by (metis prod.collapse)
  then show ?thesis using assms by (intro exI [of _ ms] exI [of _ p]) simp
qed

text \<open>The clock of video runs out: from a timestamp of 47721859 milliseconds (about 13 hours and a quarter)
  on, 90 times the timestamp does not fit the 32 bits it is converted to from a double, which C++
  leaves undefined. No wrap-around is written.\<close>

theorem h264_clock_breaks:
  assumes "47721859 \<le> unat ts"
  shows "RtpH264_Encode bs ts r outs = Inl BadConversion"
  using assms by (simp add: RtpH264_Encode_def rtp_clock_def)

lemma h264_clock_breaks_witness: "RtpH264_Encode [] 47721859 (RtpH264_new 96) ([] :: unit packet list) = Inl BadConversion"
  by (rule h264_clock_breaks) simp

section \<open>Opus arrives\<close>

text \<open>Encoded audio arrives. Each Opus packet is sent in one RTP packet of its own, marked, with the
  next number and a timestamp 480 (ten milliseconds at 48 kHz) after the one before, whatever the
  timestamp of the frame it was made from; the receiver gets the packets back in order. When the
  timestamp leaves 32 bits (after a day at that rate) the conversion is undefined.\<close>

lemma opus_packets_received:
  assumes "plain_rtp r" "list_all (\<lambda>s. length s < 2 ^ 31 - 12) ss"
  shows "if unat (rtp_timestamp r) + 480 * length ss < 2 ^ 32
    then \<exists>r' new. RtpOpus_Encode ss r outs = Inr (r', outs @ new) \<and> rtp_packets new kPacketTypeAudio \<and>
      rtp_stream (rtp_payload_type r) (ucast (rtp_sequence r) + 1) (rtp_timestamp r + 480) 480 (rtp_ssrc r) (map body new) =
        Some (map (Pair True) ss)
    else RtpOpus_Encode ss r outs = Inl BadConversion"
  using assms
proof (induction ss arbitrary: r outs)
  case Nil
  have "unat (rtp_timestamp r) < 2 ^ 32" using unsigned_less [of "rtp_timestamp r", where ?'a = nat] by simp
  then show ?case by simp
next
  case (Cons s ss)
  let ?r = "next_sequence 1 (r\<lparr>rtp_timestamp := rtp_timestamp r + 480\<rparr>)"
  have r: "plain_rtp ?r" using Cons.prems(1) by (simp add: plain_rtp_def next_sequence_def)
  have f: "rtp_timestamp ?r = rtp_timestamp r + 480" "rtp_ssrc ?r = rtp_ssrc r" "rtp_payload_type ?r = rtp_payload_type r"
      "(ucast (rtp_sequence ?r) :: u16) = ucast (rtp_sequence r) + 1" "rtp_marker ?r = 1"
    by (simp_all add: next_sequence_def ucast_next)
  show ?case
  proof (cases "unat (rtp_timestamp r) + 480 < 2 ^ 32")
    case True
    then have t: "unat (rtp_timestamp ?r) = unat (rtp_timestamp r) + 480" unfolding f by (simp add: unat_word_ariths)
    have "12 + length s < 2 ^ 31" using Cons.prems(2) by simp
    then obtain p :: "'a packet" where p: "rtp_packet kPacketTypeAudio (12 + length s) s ?r = Inr p" "packet_ok p"
        "body p = Rtp_EncodeHeader ?r @ s" "pk_type p = kPacketTypeAudio"
      using rtp_packet_ok [OF r refl] by blast
    have step: "RtpOpus_Encode (s # ss) r outs = RtpOpus_Encode ss ?r (outs @ [p])"
      using True p(1) r by (simp add: Let_def del: bindE_eq_Inr)
    have "list_all (\<lambda>s. length s < 2 ^ 31 - 12) ss" using Cons.prems(2) by simp
    note IH = Cons.IH [OF r this, of "outs @ [p]", unfolded t]
    show ?thesis
    proof (cases "unat (rtp_timestamp r) + 480 * length (s # ss) < 2 ^ 32")
      case small: True
      then obtain r' new where "RtpOpus_Encode ss ?r (outs @ [p]) = Inr (r', (outs @ [p]) @ new)" "rtp_packets new kPacketTypeAudio"
          "rtp_stream (rtp_payload_type r) (ucast (rtp_sequence r) + 1 + 1) (rtp_timestamp r + 480 + 480) 480 (rtp_ssrc r)
            (map body new) = Some (map (Pair True) ss)"
        using IH unfolding f by (auto split: if_splits)
      then show ?thesis unfolding if_P [OF small] step
        using p rtp_parse_header [OF r, of s] by (intro exI [of _ r'] exI [of _ "p # new"]) (simp add: f)
    next
      case False
      then show ?thesis unfolding if_not_P [OF False] step using IH by (auto split: if_splits)
    qed
  next
    case False
    then show ?thesis by simp
  qed
qed

end
