(* ===== verification/RtpMux.thy ===== *)
theory RtpMux
  imports Rtp
begin

text \<open>
  The muxer for WebRTC, \<open>src/mmedia/rtp/RtpMuxer.cpp\<close>: a tag of H.264 goes into RTP packets, a tag of AAC
  through \<open>AACDecoder.cpp\<close> and \<open>TOpusEncoder.cpp\<close>, whose libraries are parameters, into packets of Opus.
\<close>

text \<open>The functions of FAAD2 and libopus are parameters. \<open>faad_frame\<close> is what \<open>NeAACDecDecode\<close> returns: a pointer
  to samples or null, and the numbers of its \<open>NeAACDecFrameInfo\<close>. \<open>opus_encode\<close> gets the bytes of one frame;
  an empty result stands for one that is not positive.\<close>

record faad_frame =
  fa_data :: "byte list option"
  fa_samples :: nat
  fa_channels :: byte
  fa_error :: byte

record ('a, 'o) codecs =
  NeAACDecInit2 :: "byte list \<Rightarrow> 'a"
  NeAACDecDecode :: "byte list \<Rightarrow> 'a \<Rightarrow> faad_frame \<times> 'a"
  opus_encoder_create :: "nat \<Rightarrow> byte \<Rightarrow> 'o option"
  opus_encode :: "byte list \<Rightarrow> 'o \<Rightarrow> byte list \<times> 'o"

section \<open>Samples\<close>

definition AACDecoder_Decode :: "('a, 'o) codecs \<Rightarrow> byte list \<Rightarrow> 'a \<Rightarrow> sample_buf \<times> 'a" where
  "AACDecoder_Decode cd aac a =
     (case NeAACDecDecode cd aac a of (f, a) \<Rightarrow>
        ((case fa_data f of
            Some p \<Rightarrow> if 0 < fa_samples f \<and> fa_error f = 0
                      then SampleBuf p (unat (scast (of_nat (fa_samples f * unat (fa_channels f)) :: u32) :: u64))
                      else SampleBuf [] 0
          | None \<Rightarrow> SampleBuf [] 0), a))"

text \<open>The encoder and the bytes that wait in \<open>pcm_buf_\<close>. \<open>frame_bytes_\<close> is set when the encoder has been created, for
  the two channels of \<open>channels_\<close>, which nothing sets.\<close>

record 'o opus_encoder =
  oe_encoder :: "'o option"
  oe_pcm :: "byte list"

definition kOpusMaxSize :: nat where "kOpusMaxSize = 32 * 1024"

definition frame_bytes :: nat where "frame_bytes = 480 * 2 * 2"

definition TOpusEncoder_Init :: "('a, 'o) codecs \<Rightarrow> nat \<Rightarrow> byte \<Rightarrow> 'o opus_encoder" where
  "TOpusEncoder_Init cd rate channels = \<lparr>oe_encoder = opus_encoder_create cd rate channels, oe_pcm = []\<rparr>"

function opus_loop :: "('a, 'o) codecs \<Rightarrow> 'o \<Rightarrow> byte list \<Rightarrow> byte list list \<Rightarrow> byte list list \<times> 'o \<times> byte list" where
  "opus_loop cd ops pcm outs =
     (if frame_bytes \<le> length pcm
      then case opus_encode cd (take frame_bytes pcm) ops of (bs, ops) \<Rightarrow>
             opus_loop cd ops (drop frame_bytes pcm) (if bs = [] then outs else outs @ [bs])
      else (outs, ops, pcm))"
  by pat_completeness auto
termination by (relation "measure (\<lambda>(_, _, pcm, _). length pcm)") (auto simp: frame_bytes_def)

declare opus_loop.simps [simp del]

text \<open>An encoder that could not be created has \<open>frame_bytes_\<close> 0, and the loop calls the library with null at once.\<close>

definition TOpusEncoder_Encode ::
    "('a, 'o) codecs \<Rightarrow> sample_buf \<Rightarrow> 'o opus_encoder \<Rightarrow> (byte list list \<times> 'o opus_encoder) res" where
  "TOpusEncoder_Encode cd pcm e =
     bindE (mem_read (sb_size pcm) (sb_addr pcm)) (\<lambda>d.
       if kOpusMaxSize < length (oe_pcm e) + length d then Inl BufferOverflow
       else case oe_encoder e of
              None \<Rightarrow> Inl NullDeref
            | Some ops \<Rightarrow> (case opus_loop cd ops (oe_pcm e @ d) [] of (outs, ops, pcm) \<Rightarrow>
                            Inr (outs, \<lparr>oe_encoder = Some ops, oe_pcm = pcm\<rparr>)))"

section \<open>The muxer\<close>

record ('a, 'o) rtp_muxer =
  rm_video :: rtp
  rm_audio :: rtp
  rm_vdemux :: video_demux
  rm_ademux :: audio_demux
  rm_aac :: "'a option"
  rm_opus :: "'o opus_encoder option"
  sent_sps_pps :: bool

definition RtpMuxer_Init :: "int \<Rightarrow> int \<Rightarrow> u32 \<Rightarrow> u32 \<Rightarrow> byte \<Rightarrow> u32 \<Rightarrow> ('a, 'o) rtp_muxer" where
  "RtpMuxer_Init vpt apt vssrc assrc g g' = \<lparr>rm_video = (RtpH264_new vpt)\<lparr>rtp_ssrc := vssrc\<rparr>,
     rm_audio = (RtpOpus_new apt)\<lparr>rtp_ssrc := assrc\<rparr>, rm_vdemux = VideoDemux_new g, rm_ademux = AudioDemux_new g',
     rm_aac = None, rm_opus = None, sent_sps_pps = False\<rparr>"

definition RtpMuxer_EncodeVideo ::
    "'e packet \<Rightarrow> 'e packet list \<Rightarrow> u32 \<Rightarrow> ('a, 'o) rtp_muxer \<Rightarrow> (int \<times> 'e packet list \<times> ('a, 'o) rtp_muxer) res" where
  "RtpMuxer_EncodeVideo pkt outs ts x =
     bindE (VideoDemux_OnDemux (pk_data pkt) (unat (scast (pk_size pkt) :: u64)) (VideoDemux_Reset (rm_vdemux x)) []) (\<lambda>(ret, d, list).
       let x = x\<lparr>rm_vdemux := d\<rparr>
       in if ret = -1 then Inr (-1, outs, x)
          else bindE (Ts_IsCodecHeader pkt) (\<lambda>hdr.
            if hdr then Inr (0, outs, x)
            else if has_bframe d then Inr (0, outs, x)
            else bindE (if \<not> sent_sps_pps x \<and> has_idr d \<and> \<not> has_sps_pps d
                        then bindE (EncodeSpsPps (vd_sps d) (vd_pps d) (rm_video x) outs) (\<lambda>(_, r, outs).
                               Inr (outs, x\<lparr>rm_video := r, sent_sps_pps := True\<rparr>))
                        else Inr (outs, x)) (\<lambda>(outs, x).
                   let x = (if has_sps_pps d then x\<lparr>sent_sps_pps := True\<rparr> else x)
                   in bindE (RtpH264_Encode list ts (rm_video x) outs) (\<lambda>(r, outs). Inr (0, outs, x\<lparr>rm_video := r\<rparr>)))))"

fun encode_pcm ::
    "('a, 'o) codecs \<Rightarrow> sample_buf list \<Rightarrow> 'a \<Rightarrow> 'o opus_encoder \<Rightarrow> rtp \<Rightarrow> 'e packet list \<Rightarrow>
     ('a \<times> 'o opus_encoder \<times> rtp \<times> 'e packet list) res" where
  "encode_pcm cd [] a oe r outs = Inr (a, oe, r, outs)"
| "encode_pcm cd (l # ls) a oe r outs =
     bindE (mem_read (sb_size l) (sb_addr l)) (\<lambda>d.
       case AACDecoder_Decode cd d a of (pcm, a) \<Rightarrow>
         if 0 < sb_size pcm
         then bindE (TOpusEncoder_Encode cd pcm oe) (\<lambda>(pkts, oe).
                if pkts \<noteq> [] then bindE (RtpOpus_Encode pkts r outs) (\<lambda>(r, outs). encode_pcm cd ls a oe r outs)
                else encode_pcm cd ls a oe r outs)
         else encode_pcm cd ls a oe r outs)"

definition RtpMuxer_EncodeAudio ::
    "('a, 'o) codecs \<Rightarrow> 'e packet \<Rightarrow> 'e packet list \<Rightarrow> ('a, 'o) rtp_muxer \<Rightarrow> (int \<times> 'e packet list \<times> ('a, 'o) rtp_muxer) res" where
  "RtpMuxer_EncodeAudio cd pkt outs x =
     bindE (AudioDemux_OnDemux (pk_data pkt) (unat (scast (pk_size pkt) :: u64)) (rm_ademux x) []) (\<lambda>(ret, d, list).
       let x = x\<lparr>rm_ademux := d\<rparr>
       in if ret = -1 then Inr (-1, outs, x)
          else if aac_seq_header d = [] then Inr (0, outs, x)
          else let a = (case rm_aac x of None \<Rightarrow> NeAACDecInit2 cd (aac_seq_header d) | Some a \<Rightarrow> a)
               in bindE (case rm_opus x of
                           None \<Rightarrow> bindE (GetSampleRate d) (\<lambda>rate. Inr (TOpusEncoder_Init cd rate (aac_channel d)))
                         | Some oe \<Rightarrow> Inr oe) (\<lambda>oe.
                  bindE (encode_pcm cd list a oe (rm_audio x) outs) (\<lambda>(a, oe, r, outs).
                    Inr (0, outs, x\<lparr>rm_aac := Some a, rm_opus := Some oe, rm_audio := r\<rparr>))))"

section \<open>From a tag to the receiver\<close>

text \<open>The packets with the parameter sets that go in front of a frame.\<close>

lemma sets_sent:
  assumes "plain_rtp r" "sps \<noteq> []" "length sps < 2 ^ 16" "length pps < 2 ^ 16"
  shows "\<exists>p. EncodeSpsPps sps pps r outs = Inr (True, next_sequence 0 r, outs @ [p]) \<and> rtp_packets [p] kPacketTypeVideo \<and>
    rtp_sent r (rtp_timestamp r) [p] [(False, stap_packet sps pps)] \<and> length (body p) = 17 + length sps + length pps"
proof -
  have "length sps + length pps < 2 ^ 31 - 17" using assms(3,4) by simp
  from EncodeSpsPps_ok [OF assms(1,2) this, of outs] obtain p where
    p: "EncodeSpsPps sps pps r outs = Inr (True, next_sequence 0 r, outs @ [p])" "rtp_packets [p] kPacketTypeVideo"
      "map numbered [p] = headed r [(0, stap_packet sps pps)]"
    by (auto simp: Let_def)
  have "length (body p) = 17 + length sps + length pps"
    using p(3) by (simp add: Let_def numbered_def stap_packet_def WriteUint16T_def)
  then show ?thesis using p headed_sent [OF assms(1) p(3)] by (intro exI [of _ p]) simp
qed

lemma samples_sendable:
  "list_all nal_ok us \<Longrightarrow> list_all rtp_unit us \<Longrightarrow> list_all sendable (avcc_samples unit us rest)"
  by (induction us) (auto simp: sendable_def SampleBuf_def rtp_unit_def)

lemma sets_in_front:
  assumes "plain_rtp r" "sps \<noteq> []" "length sps < 2 ^ 16" "length pps < 2 ^ 16"
  shows "\<exists>front ms r'. (if sets then bindE (EncodeSpsPps sps pps r outs) (\<lambda>(_, r, outs). Inr (outs, r)) else Inr (outs, r)) =
      Inr (outs @ front, r') \<and> plain_rtp r' \<and>
    r' = r\<lparr>rtp_sequence := rtp_sequence r + of_nat (length front), rtp_marker := rtp_marker r'\<rparr> \<and>
    rtp_packets front kPacketTypeVideo \<and> length front = (if sets then 1 else 0) \<and>
    rtp_sent r (rtp_timestamp r) front ms \<and> list_all (\<lambda>p. length (body p) \<le> 17 + length sps + length pps) front \<and>
    (\<forall>ps. depay None (map snd ms @ ps) = map_option ((@) (if sets then [sps, pps] else [])) (depay None ps))"
proof (cases sets)
  case True
  obtain p where "EncodeSpsPps sps pps r outs = Inr (True, next_sequence 0 r, outs @ [p])" "rtp_packets [p] kPacketTypeVideo"
      "rtp_sent r (rtp_timestamp r) [p] [(False, stap_packet sps pps)]" "length (body p) = 17 + length sps + length pps"
    using sets_sent [OF assms, of outs] by blast
  then show ?thesis using True assms(1) depay_stap [OF assms(2-4)]
    by (intro exI [of _ "[p]"] exI [of _ "[(False, stap_packet sps pps)]"] exI [of _ "next_sequence 0 r"])
      (simp add: next_sequence_def [of 0 r] plain_rtp_def del: bindE_eq_Inr depay.simps)
next
  case False
  have "map_option ((@) []) z = z" for z :: "byte list list option" by (cases z) simp_all
  then show ?thesis using False assms(1) by (intro exI [of _ "[]"] exI [of _ r]) (simp add: rtp_sent_def)
qed

lemma EncodeVideo_steps:
  assumes "VideoDemux_OnDemux (pk_data pkt) (unat (scast (pk_size pkt) :: u64)) (VideoDemux_Reset (rm_vdemux x)) [] = Inr (0, d, ls)"
    and "Ts_IsCodecHeader pkt = Inr False" "\<not> has_bframe d" "has_sps_pps d = own"
    and "sets = (\<not> sent_sps_pps x \<and> has_idr d \<and> \<not> own)"
    and "(if sets then bindE (EncodeSpsPps (vd_sps d) (vd_pps d) (rm_video x) outs) (\<lambda>(_, r, outs). Inr (outs, r))
          else Inr (outs, rm_video x)) = Inr (mid, r)"
    and "RtpH264_Encode ls ts r mid = Inr (r', fin_outs)"
  shows "RtpMuxer_EncodeVideo pkt outs ts x =
    Inr (0, fin_outs, x\<lparr>rm_vdemux := d, rm_video := r', sent_sps_pps := sent_sps_pps x \<or> sets \<or> own\<rparr>)"
proof (cases sets)
  case True
  then obtain b where "EncodeSpsPps (vd_sps d) (vd_pps d) (rm_video x) outs = Inr (b, r, mid)"
    using assms(6) by (auto elim!: bindE_InrE)
  then show ?thesis using True assms(1-5,7) by (simp add: RtpMuxer_EncodeVideo_def Let_def del: bindE_eq_Inr)
next
  case False
  then have r: "mid = outs" "r = rm_video x" using assms(6) by auto
  have s: "\<not> (\<not> sent_sps_pps x \<and> has_idr d \<and> \<not> own)" using False assms(5) by simp
  show ?thesis using s False assms(1-4,7) unfolding r
    by (cases own) (auto simp: RtpMuxer_EncodeVideo_def Let_def simp del: bindE_eq_Inr)
qed

lemma frame_goes_out:
  assumes "pk_data data = avc_tag h 1 cst (units @ rest)" "pk_size data = of_nat (5 + length units)" "5 + length units < 2 ^ 31"
    and "avc_frame h" "cst < 2 ^ 24" "payload_format (rm_vdemux x) \<noteq> kPayloadFormatAnnexB" "us \<noteq> []"
    and "list_all (\<lambda>u. nal_ok u \<and> rtp_unit u \<and> \<not> b_slice u \<and> unit_fits (nalu_unit_length (rm_vdemux x)) u) us"
    and "units = concat (map (avcc_unit (nalu_unit_length (rm_vdemux x))) us)"
    and "vd_sps (rm_vdemux x) = sps" "vd_pps (rm_vdemux x) = pps" "sps \<noteq> []" "length sps < 2 ^ 16" "length pps < 2 ^ 16"
    and "plain_rtp (rm_video x)" "unat ts * 90 < 2 ^ 32"
    and "own = list_ex (\<lambda>u. nal_type u = 7 \<or> nal_type u = 8) us"
    and "sets = (\<not> sent_sps_pps x \<and> list_ex (\<lambda>u. nal_type u = 5) us \<and> \<not> own)"
  shows "\<exists>x' front frame ms ms'. RtpMuxer_EncodeVideo data outs ts x = Inr (0, outs @ front @ frame, x') \<and>
    rtp_packets (front @ frame) kPacketTypeVideo \<and> length front = (if sets then 1 else 0) \<and>
    rtp_sent (rm_video x) (rtp_timestamp (rm_video x)) front ms \<and>
    rtp_sent ((rm_video x)\<lparr>rtp_sequence := rtp_sequence (rm_video x) + (if sets then 1 else 0)\<rparr>) (ts * 90) frame ms' \<and>
    depay None (map snd (ms @ ms')) = Some ((if sets then [sps, pps] else []) @ us) \<and> fst (last ms') \<and>
    sent_sps_pps x' = (sent_sps_pps x \<or> sets \<or> own) \<and> plain_rtp (rm_video x') \<and>
    list_all (\<lambda>p. length (body p) \<le> 1400 + length sps + length pps) (front @ frame) \<and>
    ms' = map (map_prod (\<lambda>m. m = 1) id) (unit_payloads us)"
proof -
  let ?d = "(mark us (VideoDemux_Reset (rm_vdemux x)))\<lparr>vd_codec_id := kVideoCodecIDAVC, composition_time := cst,
      payload_format := kPayloadFormatAvcc\<rparr>"
  let ?ls = "avcc_samples (nalu_unit_length (rm_vdemux x)) us rest"
  have us: "list_all nal_ok us" "list_all rtp_unit us" "\<not> list_ex b_slice us"
      "list_all (unit_fits (nalu_unit_length (rm_vdemux x))) us"
    using assms(8) by (auto simp: list_all_iff list_ex_iff)
  have reset: "nalu_unit_length (VideoDemux_Reset d) = nalu_unit_length d" "payload_format (VideoDemux_Reset d) = payload_format d" for d
    by (simp_all add: VideoDemux_Reset_def)
  have demux: "VideoDemux_OnDemux (pk_data data) (unat (scast (pk_size data) :: u64)) (VideoDemux_Reset (rm_vdemux x)) [] = Inr (0, ?d, ?ls)"
    unfolding assms(1) packet_size_small(2) [OF assms(2,3)]
    using avc_tag_samples [OF assms(4,5), of "VideoDemux_Reset (rm_vdemux x)" us units rest "[]"] us(1,4) assms(6,9)
    by (simp add: reset)
  have d: "has_bframe ?d = False" "has_idr ?d = list_ex (\<lambda>u. nal_type u = 5) us" "has_sps_pps ?d = own"
      "vd_sps ?d = sps" "vd_pps ?d = pps"
    using us(3) assms(10,11,17) by (simp_all add: mark_def VideoDemux_Reset_def)
  have hdr: "Ts_IsCodecHeader data = Inr False"
    by (rule not_codec_header [OF _ assms(2,3)]) (simp add: assms(1) avc_tag_def)
  have ls: "list_all sendable ?ls" "map sample_bytes ?ls = us"
    using samples_sendable [OF us(1,2)] avcc_samples_bytes by auto
  obtain front ms and r :: rtp where front: "(if sets then bindE (EncodeSpsPps sps pps (rm_video x) outs) (\<lambda>(_, r, outs). Inr (outs, r))
        else Inr (outs, rm_video x)) = Inr (outs @ front, r)" "plain_rtp r"
      "r = (rm_video x)\<lparr>rtp_sequence := rtp_sequence (rm_video x) + of_nat (length front), rtp_marker := rtp_marker r\<rparr>"
      "rtp_packets front kPacketTypeVideo" "length front = (if sets then 1 else 0)"
      "rtp_sent (rm_video x) (rtp_timestamp (rm_video x)) front ms" "list_all (\<lambda>p. length (body p) \<le> 17 + length sps + length pps) front"
      "depay None (map snd ms @ ps) = map_option ((@) (if sets then [sps, pps] else [])) (depay None ps)" for ps
    using sets_in_front [OF assms(15,12-14), of sets outs] by blast
  obtain r' frame where frame: "RtpH264_Encode ?ls ts r (outs @ front) = Inr (r', (outs @ front) @ frame)"
      "rtp_packets frame kPacketTypeVideo" "rtp_sent r (ts * 90) frame (map (map_prod (\<lambda>m. m = 1) id) (unit_payloads us))"
      "r' = r\<lparr>rtp_timestamp := ts * 90, rtp_sequence := rtp_sequence r + of_nat (length frame), rtp_marker := rtp_marker r'\<rparr>" "list_all (\<lambda>p. length (body p) \<le> 1400) frame"
    using h264_sent [OF front(2) ls assms(16), of "outs @ front"] by blast
  let ?x = "x\<lparr>rm_vdemux := ?d, rm_video := r', sent_sps_pps := sent_sps_pps x \<or> sets \<or> own\<rparr>"
  have run: "RtpMuxer_EncodeVideo data outs ts x = Inr (0, outs @ front @ frame, ?x)"
  proof (rule EncodeVideo_steps [where mid = "outs @ front" and r = r, OF demux hdr])
    show "\<not> has_bframe ?d" using d(1) by simp
    show "has_sps_pps ?d = own" by (rule d(3))
    show "sets = (\<not> sent_sps_pps x \<and> has_idr ?d \<and> \<not> own)" unfolding d(2) by (rule assms(18))
    show "(if sets then bindE (EncodeSpsPps (vd_sps ?d) (vd_pps ?d) (rm_video x) outs) (\<lambda>(_, r, outs). Inr (outs, r))
        else Inr (outs, rm_video x)) = Inr (outs @ front, r)" unfolding d(4,5) by (rule front(1))
    show "RtpH264_Encode ?ls ts r (outs @ front) = Inr (r', outs @ front @ frame)" using frame(1) by simp
  qed
  have sizes: "list_all (\<lambda>p. length (body p) \<le> 1400 + length sps + length pps) (front @ frame)"
    using front(7) frame(5) by (auto simp: list_all_iff)
  have r': "plain_rtp r'" using front(2) by (subst frame(4)) (simp add: plain_rtp_def)
  have "rtp_sent ((rm_video x)\<lparr>rtp_sequence := rtp_sequence (rm_video x) + (if sets then 1 else 0)\<rparr>) (ts * 90) frame
      (map (map_prod (\<lambda>m. m = 1) id) (unit_payloads us))"
    using frame(3) by (subst (asm) front(3)) (cases sets, simp_all add: rtp_sent_def front(5))
  then show ?thesis
    using run r' sizes front(4-6) front(8) [of "map snd (map (map_prod (\<lambda>m. m = 1) id) (unit_payloads us))"] frame(2)
      depay_marked [OF us(2)] marked_last [OF assms(7)]
    by (intro exI [of _ ?x] exI [of _ front] exI [of _ frame] exI [of _ ms]
        exI [of _ "map (map_prod (\<lambda>m. m = 1) id) (unit_payloads us)"] conjI) simp_all
qed

text \<open>C4: The way of a frame from a publisher to a WebRTC viewer. A tag of H.264 without B slices (one with B slices is dropped), with
  units of the types 1 to 23 behind lengths (no Annex B), and with a time that 90 times fits 32 bits, goes out as: once, in front of the first IDR frame that brings no parameter sets of its own, the two sets of the stream in
  an aggregation packet, then the units in packets numbered on from it; what the receiver takes out
  is the sets and the units of the tag, in order, and the last packet is marked. The packet with the
  sets still has the timestamp of the frame before. No packet is longer
  than 1400 bytes and the sets. The muxer remembers whether sets have been sent.\<close>

theorem webrtc_frame:
  assumes "pk_data data = avc_tag h 1 cst (units @ rest)" "pk_size data = of_nat (5 + length units)" "5 + length units < 2 ^ 31"
    and "avc_frame h" "cst < 2 ^ 24" "payload_format (rm_vdemux x) \<noteq> kPayloadFormatAnnexB" "us \<noteq> []"
    and "list_all (\<lambda>u. nal_ok u \<and> rtp_unit u \<and> \<not> b_slice u \<and> unit_fits (nalu_unit_length (rm_vdemux x)) u) us"
    and "units = concat (map (avcc_unit (nalu_unit_length (rm_vdemux x))) us)"
    and "vd_sps (rm_vdemux x) = sps" "vd_pps (rm_vdemux x) = pps" "sps \<noteq> []" "length sps < 2 ^ 16" "length pps < 2 ^ 16"
    and "plain_rtp (rm_video x)" "unat ts * 90 < 2 ^ 32"
    and "own = list_ex (\<lambda>u. nal_type u = 7 \<or> nal_type u = 8) us"
    and "sets = (\<not> sent_sps_pps x \<and> list_ex (\<lambda>u. nal_type u = 5) us \<and> \<not> own)"
  shows "\<exists>x' front frame ms ms'. RtpMuxer_EncodeVideo data outs ts x = Inr (0, outs @ front @ frame, x') \<and>
    rtp_packets (front @ frame) kPacketTypeVideo \<and> length front = (if sets then 1 else 0) \<and>
    rtp_sent (rm_video x) (rtp_timestamp (rm_video x)) front ms \<and>
    rtp_sent ((rm_video x)\<lparr>rtp_sequence := rtp_sequence (rm_video x) + (if sets then 1 else 0)\<rparr>) (ts * 90) frame ms' \<and>
    depay None (map snd (ms @ ms')) = Some ((if sets then [sps, pps] else []) @ us) \<and> fst (last ms') \<and>
    sent_sps_pps x' = (sent_sps_pps x \<or> sets \<or> own) \<and> plain_rtp (rm_video x') \<and>
    list_all (\<lambda>p. length (body p) \<le> 1400 + length sps + length pps) (front @ frame)"
  using frame_goes_out [OF assms, of outs] by blast

lemma webrtc_frame_witness:
  "\<exists>x' front frame ms ms'. RtpMuxer_EncodeVideo
        \<lparr>pk_type = 17, pk_size = of_nat (5 + length [0, 0, 0, 4, 0x65, 0x88, 0x84, 0xff :: byte]), pk_index = 0, pk_timestamp = 40,
          pk_capacity = 13, pk_data = avc_tag 0x17 1 80 ([0, 0, 0, 4, 0x65, 0x88, 0x84, 0xff] @ []), pk_ext = None :: unit option\<rparr>
        [] 40 ((RtpMuxer_Init 96 111 1 2 0 0 :: (unit, unit) rtp_muxer)
          \<lparr>rm_vdemux := (VideoDemux_new 0)\<lparr>nalu_unit_length := 3, vd_sps := [0x67, 0x64], vd_pps := [0x68]\<rparr>\<rparr>) =
      Inr (0, [] @ front @ frame, x') \<and>
    rtp_packets (front @ frame) kPacketTypeVideo \<and> length front = 1 \<and>
    rtp_sent (rm_video (RtpMuxer_Init 96 111 1 2 0 0 :: (unit, unit) rtp_muxer)) 0 front ms \<and>
    rtp_sent ((rm_video (RtpMuxer_Init 96 111 1 2 0 0 :: (unit, unit) rtp_muxer))\<lparr>rtp_sequence := 1\<rparr>) 3600 frame ms' \<and>
    depay None (map snd (ms @ ms')) = Some [[0x67, 0x64], [0x68], [0x65, 0x88, 0x84, 0xff]] \<and> fst (last ms') \<and>
    sent_sps_pps x' \<and> plain_rtp (rm_video x') \<and> list_all (\<lambda>p. length (body p) \<le> 1403) (front @ frame)"
proof -
  let ?d = "(VideoDemux_new 0)\<lparr>nalu_unit_length := 3, vd_sps := [0x67, 0x64], vd_pps := [0x68]\<rparr>"
  let ?x = "(RtpMuxer_Init 96 111 1 2 0 0 :: (unit, unit) rtp_muxer)\<lparr>rm_vdemux := ?d\<rparr>"
  let ?us = "[[0x65, 0x88, 0x84, 0xff]] :: byte list list"
  let ?p = "\<lparr>pk_type = 17, pk_size = of_nat (5 + length [0, 0, 0, 4, 0x65, 0x88, 0x84, 0xff :: byte]), pk_index = 0, pk_timestamp = 40,
          pk_capacity = 13, pk_data = avc_tag 0x17 1 80 ([0, 0, 0, 4, 0x65, 0x88, 0x84, 0xff] @ []), pk_ext = None :: unit option\<rparr>"
  have slice: "closed_end 1 1 [0x88, 0x84, 0xff] \<and> slice_type [0x65, 0x88, 0x84, 0xff] = Some 7" by code_simp
  have t: "nal_type [0x65, 0x88, 0x84, 0xff] = 5" by (simp add: nal_type_def)
  have x: "rm_vdemux ?x = ?d" "rm_video ?x = rm_video (RtpMuxer_Init 96 111 1 2 0 0 :: (unit, unit) rtp_muxer)"
      "\<not> sent_sps_pps ?x" "rtp_timestamp (rm_video ?x) = 0" "rtp_sequence (rm_video ?x) = 0" "plain_rtp (rm_video ?x)"
    by (simp_all add: RtpMuxer_Init_def RtpH264_new_def Rtp_new_def plain_rtp_def)
  have L: "nalu_unit_length ?d = 3" "payload_format ?d \<noteq> kPayloadFormatAnnexB" by (simp_all add: VideoDemux_new_def)
  have us: "list_all (\<lambda>u. nal_ok u \<and> rtp_unit u \<and> \<not> b_slice u \<and> unit_fits (nalu_unit_length (rm_vdemux ?x)) u) ?us"
      "[0, 0, 0, 4, 0x65, 0x88, 0x84, 0xff] = concat (map (avcc_unit (nalu_unit_length (rm_vdemux ?x))) ?us)"
    using slice by (simp_all add: x L nal_ok_def rtp_unit_def b_slice_def bit_simps unit_fits_def avcc_unit_def WriteUint32T_def)
  have ex: "list_ex (\<lambda>u. nal_type u = 5) ?us" "\<not> list_ex (\<lambda>u. nal_type u = 7 \<or> nal_type u = 8) ?us" using t by simp_all
  show ?thesis
    using webrtc_frame [where data = ?p and h = "0x17" and cst = 80 and units = "[0, 0, 0, 4, 0x65, 0x88, 0x84, 0xff]" and rest = "[]"
        and x = ?x and us = ?us and sps = "[0x67, 0x64]" and pps = "[0x68]" and ts = 40 and own = False and sets = True
        and outs = "[]", OF _ _ _ _ _ _ _ us] x L ex
    by (simp add: avc_frame_def)
qed

section \<open>Sound\<close>











definition pcm_fits :: "sample_buf \<Rightarrow> bool" where
  "pcm_fits b \<longleftrightarrow> sb_size b \<le> length (sb_addr b) \<and> sb_size b \<le> kOpusMaxSize - frame_bytes"





lemma aac_raw_tag:
  assumes "pk_data (data :: 'e packet) = h # 1 # raw @ rest" "pk_size data = of_nat (2 + length raw)" "2 + length raw < 2 ^ 31"
    and "drop_bit 4 h AND 0x0f = 10" "aac_ok d"
  shows "\<exists>d'. AudioDemux_OnDemux (pk_data data) (unat (scast (pk_size data) :: u64)) d [] =
      Inr (0, d', [SampleBuf (raw @ rest) (length raw)]) \<and> aac_seq_header d' = aac_seq_header d \<and>
    aac_sample_rate d' = aac_sample_rate d \<and> aac_channel d' = aac_channel d \<and> aac_ok d'"
proof -
  have "drop 2 (h # 1 # raw @ rest) = raw @ rest" by simp
  then show ?thesis using assms(1,4,5) packet_size_small(2) [OF assms(2,3)]
    by (simp add: AudioDemux_OnDemux_def DemuxAAC_def del: bindE_eq_Inr)
qed


text \<open>A stream whose sampling rate Opus does not have (44.1 kHz among them) crashes the muxer: no encoder is
  created, nobody looks at the result, and the first samples are encoded with a null pointer.\<close>

theorem unsupported_rate_crashes:
  assumes "pk_data data = h # 1 # raw @ rest" "pk_size data = of_nat (2 + length raw)" "2 + length raw < 2 ^ 31"
    and "drop_bit 4 h AND 0x0f = 10" "aac_ok (rm_ademux x)" "aac_seq_header (rm_ademux x) \<noteq> []" "rm_opus x = None"
    and "GetSampleRate (rm_ademux x) = Inr rate" "opus_encoder_create cd rate (aac_channel (rm_ademux x)) = None"
    and "rm_aac x = Some a" "AACDecoder_Decode cd raw a = (pcm, a')" "0 < sb_size pcm" "pcm_fits pcm"
  shows "RtpMuxer_EncodeAudio cd data outs x = Inl NullDeref"
proof -
  obtain d where d: "AudioDemux_OnDemux (pk_data data) (unat (scast (pk_size data) :: u64)) (rm_ademux x) [] =
      Inr (0, d, [SampleBuf (raw @ rest) (length raw)])" "aac_seq_header d \<noteq> []"
      "aac_sample_rate d = aac_sample_rate (rm_ademux x)" "aac_channel d = aac_channel (rm_ademux x)"
    using aac_raw_tag [OF assms(1-5)] assms(6) by auto
  have rate: "GetSampleRate d = Inr rate" using assms(8) d(3) by (simp add: GetSampleRate_def)
  have init: "TOpusEncoder_Init cd rate (aac_channel d) = \<lparr>oe_encoder = None, oe_pcm = []\<rparr>"
    using assms(9) d(4) by (simp add: TOpusEncoder_Init_def)
  have "TOpusEncoder_Encode cd pcm \<lparr>oe_encoder = None, oe_pcm = []\<rparr> = Inl NullDeref"
    using assms(13) by (simp add: TOpusEncoder_Encode_def pcm_fits_def kOpusMaxSize_def frame_bytes_def del: bindE_eq_Inr)
  then have "encode_pcm cd [SampleBuf (raw @ rest) (length raw)] a \<lparr>oe_encoder = None, oe_pcm = []\<rparr> (rm_audio x) outs = Inl NullDeref"
    using assms(11,12) by (simp add: SampleBuf_def del: bindE_eq_Inr)
  then show ?thesis
    unfolding RtpMuxer_EncodeAudio_def d(1) using d(2) assms(7,10) rate init
    by (simp add: Let_def del: bindE_eq_Inr encode_pcm.simps)
qed

text \<open>Libraries for the witnesses: a decoder that makes 4096 bytes of a frame, an encoder that keeps the first byte of a
  frame and counts, for the rates of Opus.\<close>

definition sample_codecs :: "(unit, nat) codecs" where
  "sample_codecs = \<lparr>NeAACDecInit2 = \<lambda>_. (),
     NeAACDecDecode = \<lambda>aac a. (\<lparr>fa_data = Some (replicate 4096 (hd aac)), fa_samples = 2048, fa_channels = 2, fa_error = 0\<rparr>, a),
     opus_encoder_create = \<lambda>rate _. if rate \<in> {8000, 12000, 16000, 24000, 48000} then Some 0 else None,
     opus_encode = \<lambda>b n. ([hd b, of_nat n], Suc n)\<rparr>"

definition sample_muxer :: "u32 \<Rightarrow> (unit, nat) rtp_muxer" where
  "sample_muxer rate = (RtpMuxer_Init 96 111 1 2 0 0)\<lparr>rm_ademux := (AudioDemux_new 0)\<lparr>aac_ok := True, aac_seq_header := [0x12, 0x10],
     aac_sample_rate := rate, aac_channel := 2\<rparr>, rm_aac := Some ()\<rparr>"

definition sample_tag :: "unit packet" where
  "sample_tag = \<lparr>pk_type = 2, pk_size = 4, pk_index = 0, pk_timestamp = 40, pk_capacity = 4, pk_data = [0xaf, 1, 7, 8], pk_ext = None\<rparr>"

lemma sample_decoded:
  "AACDecoder_Decode sample_codecs [7, 8] a = (SampleBuf (replicate 4096 7) 4096, a)"
  "pcm_fits (SampleBuf (replicate 4096 7) 4096)" "sample_bytes (SampleBuf (replicate 4096 7) 4096) = replicate 4096 7"
  by (simp_all add: AACDecoder_Decode_def sample_codecs_def pcm_fits_def sample_bytes_def SampleBuf_def kOpusMaxSize_def frame_bytes_def)



lemma unsupported_rate_crashes_witness:
  "RtpMuxer_EncodeAudio sample_codecs sample_tag [] (sample_muxer 4) = Inl NullDeref"
proof -
  have x: "aac_ok (rm_ademux (sample_muxer 4))" "aac_seq_header (rm_ademux (sample_muxer 4)) \<noteq> []" "rm_aac (sample_muxer 4) = Some ()"
      "rm_opus (sample_muxer 4) = None" "GetSampleRate (rm_ademux (sample_muxer 4)) = Inr 44100"
    by (simp_all add: sample_muxer_def RtpMuxer_Init_def GetSampleRate_def)
  have "opus_encoder_create sample_codecs 44100 (aac_channel (rm_ademux (sample_muxer 4))) = None" by (simp add: sample_codecs_def)
  note x this
  have tag: "pk_data sample_tag = 0xaf # 1 # [7, 8] @ []" "pk_size sample_tag = of_nat (2 + length [7, 8 :: byte])"
    by (simp_all add: sample_tag_def)
  show ?thesis
    by (rule unsupported_rate_crashes [OF tag _ _ x(1,2,4,5) _ x(3) sample_decoded(1) _ sample_decoded(2)])
      (simp_all add: sample_codecs_def SampleBuf_def)
qed

end
