(* ===== verification/Rtcp.thy ===== *)
theory Rtcp
  imports Packet
begin

text \<open>
  Control packets of WebRTC: \<open>src/mmedia/rtp/Rtcp.cpp\<close> (the header), \<open>SenderReport.cpp\<close> and \<open>Rtpfb.cpp\<close> (negative
  acknowledgements).
\<close>

section \<open>The header\<close>

record rtcp =
  rtcp_version :: "2 word"
  rtcp_padding :: "1 word"
  rtcp_rc :: "5 word"
  rtcp_payload_type :: byte
  rtcp_pl_len :: u16

definition kRtcpPtSR :: byte where "kRtcpPtSR = 200"
definition kRtcpPtRR :: byte where "kRtcpPtRR = 201"
definition kRtcpPtRtpfb :: byte where "kRtcpPtRtpfb = 205"
definition kRtcpPtPsfb :: byte where "kRtcpPtPsfb = 206"

definition Rtcp_new :: "byte \<Rightarrow> rtcp" where
  "Rtcp_new pt = \<lparr>rtcp_version = 2, rtcp_padding = 0, rtcp_rc = 0, rtcp_payload_type = pt, rtcp_pl_len = 0\<rparr>"

definition Rtcp_DecodeHeader :: "byte list \<Rightarrow> nat \<Rightarrow> rtcp \<Rightarrow> (nat \<times> rtcp) res" where
  "Rtcp_DecodeHeader data n r =
     (if n < 4 then Inr (0, r)
      else bindE (element 0 data) (\<lambda>b0. bindE (element 1 data) (\<lambda>b1. bindE (ReadUint16T (drop 2 data)) (\<lambda>l.
        Inr (4, r\<lparr>rtcp_version := ucast (drop_bit 6 b0), rtcp_padding := ucast (drop_bit 5 b0 AND 0x01),
                 rtcp_rc := ucast (b0 AND 0x1F), rtcp_payload_type := b1, rtcp_pl_len := l\<rparr>)))))"

definition Rtcp_EncodeHeader :: "rtcp \<Rightarrow> byte list" where
  "Rtcp_EncodeHeader r =
     [push_bit 6 (ucast (rtcp_version r)) OR push_bit 5 (ucast (rtcp_padding r)) OR ucast (rtcp_rc r), rtcp_payload_type r] @
     WriteUint16T (rtcp_pl_len r)"

definition SetPayloadLength :: "u32 \<Rightarrow> rtcp \<Rightarrow> rtcp" where
  "SetPayloadLength n r = r\<lparr>rtcp_pl_len := ucast (n div 4)\<rparr>"

section \<open>Sender reports\<close>

record sender_report =
  sr_rtcp :: rtcp
  sr_ssrc :: u32
  sr_ntp_mword :: u32
  sr_ntp_lword :: u32
  sr_rtp_timestamp :: u32
  sr_sent_pkt_cnt :: u32
  sr_sent_bytes :: u32

definition SenderReport_new :: sender_report where
  "SenderReport_new = \<lparr>sr_rtcp = Rtcp_new kRtcpPtSR, sr_ssrc = 0, sr_ntp_mword = 0, sr_ntp_lword = 0, sr_rtp_timestamp = 0,
     sr_sent_pkt_cnt = 0, sr_sent_bytes = 0\<rparr>"

definition SetNtpTimestamp :: "u64 \<Rightarrow> sender_report \<Rightarrow> sender_report" where
  "SetNtpTimestamp t s = s\<lparr>sr_ntp_mword := ucast (drop_bit 32 t), sr_ntp_lword := ucast (t AND 0xffffffff)\<rparr>"

definition SenderReport_Encode :: "sender_report \<Rightarrow> 'e packet res" where
  "SenderReport_Encode s =
     bindE (NewPacket 28) (\<lambda>p.
     bindE (write_data 0 (Rtcp_EncodeHeader (SetPayloadLength 24 (sr_rtcp s)) @ WriteUint32T (sr_ssrc s) @
         WriteUint32T (sr_ntp_mword s) @ WriteUint32T (sr_ntp_lword s) @ WriteUint32T (sr_rtp_timestamp s) @
         WriteUint32T (sr_sent_pkt_cnt s) @ WriteUint32T (sr_sent_bytes s)) (SetPacketSize 28 p)) (\<lambda>p. Inr p))"

section \<open>Negative acknowledgements\<close>

text \<open>\<open>SeqCmp\<close>: the second number is newer than the first.\<close>

definition SeqCmp :: "u16 \<Rightarrow> u16 \<Rightarrow> bool" where
  "SeqCmp prev cur \<longleftrightarrow> 0 < sint (cur - prev)"

text \<open>A \<open>std::set\<close> ordered by \<open>SeqCmp\<close> is the list of its elements in that order. (The comparison orders the numbers of
  one half of the circle; beyond that what a \<open>std::set\<close> does is not defined.)\<close>

fun seq_insert :: "u16 \<Rightarrow> u16 list \<Rightarrow> u16 list" where
  "seq_insert x [] = [x]"
| "seq_insert x (y # ys) = (if SeqCmp x y then x # y # ys else if SeqCmp y x then y # seq_insert x ys else y # ys)"

record rtpfb =
  fb_rtcp :: rtcp
  fb_ssrc :: u32
  fb_media_ssrc :: u32
  fb_lost_seqs :: "u16 list"

definition Rtpfb_new :: rtpfb where
  "Rtpfb_new = \<lparr>fb_rtcp = Rtcp_new kRtcpPtRtpfb, fb_ssrc = 0, fb_media_ssrc = 0, fb_lost_seqs = []\<rparr>"

fun insert_blp :: "nat list \<Rightarrow> u16 \<Rightarrow> u16 \<Rightarrow> u16 list \<Rightarrow> u16 list" where
  "insert_blp [] p blp xs = xs"
| "insert_blp (i # is) p blp xs =
     insert_blp is p blp (if drop_bit i blp AND 0x0001 \<noteq> 0 then seq_insert (p + of_nat i + 1) xs else xs)"

function nack_loop :: "byte list \<Rightarrow> nat \<Rightarrow> u16 list \<Rightarrow> u16 list res" where
  "nack_loop data n xs =
     (if 4 \<le> n
      then bindE (ReadUint16T data) (\<lambda>p. bindE (ReadUint16T (drop 2 data)) (\<lambda>blp.
             nack_loop (drop 4 data) (n - 4) (insert_blp [0..<16] p blp (seq_insert p xs))))
      else Inr xs)"
  by pat_completeness auto
termination by (relation "measure (\<lambda>(_, n, _). n)") auto

declare nack_loop.simps [simp del]

definition DecodeNack :: "byte list \<Rightarrow> nat \<Rightarrow> rtpfb \<Rightarrow> rtpfb res" where
  "DecodeNack data n f = bindE (nack_loop data n []) (\<lambda>xs. Inr (f\<lparr>fb_lost_seqs := xs\<rparr>))"

definition Rtpfb_Decode :: "byte list \<Rightarrow> nat \<Rightarrow> rtpfb \<Rightarrow> rtpfb res" where
  "Rtpfb_Decode data n f =
     bindE (Rtcp_DecodeHeader data n (fb_rtcp f)) (\<lambda>(parsed, r).
       let f = f\<lparr>fb_rtcp := r\<rparr>; data = drop parsed data; n = n - parsed
       in if parsed = 0 then Inr f
          else if n < 8 then Inr f
          else bindE (ReadUint32T data) (\<lambda>a. bindE (ReadUint32T (drop 4 data)) (\<lambda>b.
            let f = f\<lparr>fb_ssrc := a, fb_media_ssrc := b\<rparr>
            in if rtcp_rc r = 1 then DecodeNack (drop 8 data) (n - 8) f else Inr f)))"

section \<open>Reports read back\<close>

text \<open>A sender report as a receiver reads it (RFC 3550): source, NTP time, RTP time, packets and bytes sent.\<close>

definition read_sr :: "byte list \<Rightarrow> (u32 \<times> u64 \<times> u32 \<times> u32 \<times> u32) option" where
  "read_sr bs =
     (case (bs, ReadUint16T (drop 2 bs), map (\<lambda>i. ReadUint32T (drop (4 * i) bs)) [1..<7]) of
        (b0 # b1 # _, Inr len, [Inr src, Inr m, Inr l, Inr rt, Inr pkts, Inr bytes]) \<Rightarrow>
          if drop_bit 6 b0 = 2 \<and> b1 = 200 \<and> 4 * (unat len + 1) = length bs
          then Some (src, push_bit 32 (ucast m) OR ucast l, rt, pkts, bytes) else None
      | _ \<Rightarrow> None)"

lemma length_WriteUint32T [simp]: "length (WriteUint32T v) = 4" by (simp add: WriteUint32T_def)

definition report_bytes :: "sender_report \<Rightarrow> byte list" where
  "report_bytes s = Rtcp_EncodeHeader (SetPayloadLength 24 (sr_rtcp s)) @ WriteUint32T (sr_ssrc s) @
     WriteUint32T (sr_ntp_mword s) @ WriteUint32T (sr_ntp_lword s) @ WriteUint32T (sr_rtp_timestamp s) @
     WriteUint32T (sr_sent_pkt_cnt s) @ WriteUint32T (sr_sent_bytes s)"

lemma report_packet:
  "\<exists>p. SenderReport_Encode s = Inr p \<and> packet_ok p \<and> body p = report_bytes s \<and> length (body p) = 28"
proof -
  obtain p0 :: "'a packet" where p0: "NewPacket 28 = Inr p0" "packet_ok p0" "unat (pk_capacity p0) = 28"
    using NewPacket_ok [of 28] by auto
  have len: "length (report_bytes s) = 28" "length (pk_data p0) = 28"
    using p0(2,3) by (simp_all add: packet_ok_def report_bytes_def Rtcp_EncodeHeader_def WriteUint16T_def)
  then have "overwrite 0 (report_bytes s) (pk_data p0) = report_bytes s" by (simp add: overwrite_def)
  then have "SenderReport_Encode s = Inr ((SetPacketSize 28 p0)\<lparr>pk_data := report_bytes s\<rparr>)"
    unfolding SenderReport_Encode_def report_bytes_def [symmetric] using p0(1) len
    by (simp add: write_data_def SetPacketSize_def del: bindE_eq_Inr)
  then show ?thesis using len p0(3)
    by (intro exI [of _ "(SetPacketSize 28 p0)\<lparr>pk_data := report_bytes s\<rparr>"]) (simp add: packet_ok_def body_def SetPacketSize_def word_le_nat_alt)
qed

text \<open>A sender report says what it was given: the packet has 28 bytes, and a receiver reads from it the source, the 64 bits
  of the time, the RTP time and the numbers of packets and bytes.\<close>

theorem report_read_back:
  "\<exists>p. SenderReport_Encode (SetNtpTimestamp t (SenderReport_new\<lparr>sr_ssrc := s, sr_rtp_timestamp := rt, sr_sent_pkt_cnt := n,
      sr_sent_bytes := b\<rparr>)) = Inr p \<and> packet_ok p \<and> length (body p) = 28 \<and> read_sr (body p) = Some (s, t, rt, n, b)"
proof -
  let ?s = "SetNtpTimestamp t (SenderReport_new\<lparr>sr_ssrc := s, sr_rtp_timestamp := rt, sr_sent_pkt_cnt := n, sr_sent_bytes := b\<rparr>)"
  let ?m = "ucast (drop_bit 32 t) :: u32" and ?l = "ucast (t AND 0xffffffff) :: u32"
  let ?w = "[0x80, 200, 0, 6] @ WriteUint32T s @ WriteUint32T ?m @ WriteUint32T ?l @ WriteUint32T rt @ WriteUint32T n @ WriteUint32T b"
  have bytes: "report_bytes ?s = ?w"
    by (simp add: report_bytes_def Rtcp_EncodeHeader_def SetPayloadLength_def SetNtpTimestamp_def SenderReport_new_def Rtcp_new_def
        kRtcpPtSR_def WriteUint16T_def)
  have f: "(0xffffffff :: u64) = mask 32" by (simp add: mask_eq_exp_minus_1)
  have t: "push_bit 32 (ucast ?m) OR ucast ?l = t"
    unfolding f by (rule bit_word_eqI) (auto simp: bit_simps)
  have i: "[1..<7] = [1, 2, 3, 4, 5, 6 :: nat]" by (simp add: upt_rec)
  have "read_sr ?w = Some (s, t, rt, n, b)"
    unfolding read_sr_def i using u32.dec_enc [of b "[]"] by (simp add: t u32.dec_enc ReadUint16T_def)
  then show ?thesis using report_packet [of ?s] unfolding bytes by auto
qed

section \<open>Acknowledgements understood\<close>

text \<open>The half of the circle of sequence numbers that starts at \<open>b\<close>.\<close>

definition in_half :: "u16 \<Rightarrow> u16 \<Rightarrow> bool" where
  "in_half b x \<longleftrightarrow> unat (x - b) < 2 ^ 15"

lemma SeqCmp_half:
  assumes "in_half b x" "in_half b y"
  shows "SeqCmp x y \<longleftrightarrow> unat (x - b) < unat (y - b)"
proof -
  let ?x = "uint (x - b)" and ?y = "uint (y - b)"
  have "uint w < 2 ^ 15" if "unat w < 2 ^ 15" for w :: u16
  proof -
    from that have "int (unat w) < int (2 ^ 15)" by (simp only: of_nat_less_iff)
    then show ?thesis by (simp only: uint_nat of_nat_power of_nat_numeral)
  qed
  then have bnd: "0 \<le> ?x" "?x < 2 ^ 15" "0 \<le> ?y" "?y < 2 ^ 15" using assms by (auto simp only: in_half_def uint_ge_0)
  have "y - x = (y - b) - (x - b)" by simp
  moreover have "(y - b) - (x - b) = word_of_int (?y - ?x)" by (simp only: of_int_diff of_int_uint ucast_id)
  ultimately have "y - x = word_of_int (?y - ?x)" by (rule trans)
  then have "sint (y - x) = signed_take_bit 15 (?y - ?x)" by (simp only: signed_of_int) simp
  also have "\<dots> = ?y - ?x" by (rule signed_take_bit_int_eq_self) (use bnd in linarith)+
  finally have "SeqCmp x y \<longleftrightarrow> ?x < ?y" by (simp add: SeqCmp_def)
  then show ?thesis by (simp only: uint_nat of_nat_less_iff)
qed

text \<open>In one half nothing is lost, and the numbers are kept from the oldest to the newest.\<close>

lemma seq_insert_half:
  assumes "list_all (in_half b) (x # xs)" "sorted_wrt SeqCmp xs"
  shows "set (seq_insert x xs) = insert x (set xs) \<and> sorted_wrt SeqCmp (seq_insert x xs)"
  using assms
proof (induction xs)
  case (Cons y ys)
  have h: "in_half b x" "in_half b y" "list_all (in_half b) (x # ys)" "list_all (in_half b) ys" using Cons.prems(1) by auto
  note IH = Cons.IH [OF h(3)]
  have tr: "SeqCmp u w" if "SeqCmp u v" "SeqCmp v w" "in_half b u" "in_half b v" "in_half b w" for u v w
    using that SeqCmp_half [of b] by auto
  consider "SeqCmp x y" | "\<not> SeqCmp x y" "SeqCmp y x" | "\<not> SeqCmp x y" "\<not> SeqCmp y x" by blast
  then show ?case
  proof cases
    case 1
    then show ?thesis using Cons.prems tr [OF 1] h by (auto simp: list_all_iff)
  next
    case 2
    then show ?thesis using IH Cons.prems by auto
  next
    case 3
    then have "unat (x - b) = unat (y - b)" using SeqCmp_half [OF h(1,2)] SeqCmp_half [OF h(2,1)] by simp
    then have "x = y" by (simp add: word_unat_eq_iff [symmetric])
    then show ?thesis using 3 Cons.prems(2) by auto
  qed
qed simp

text \<open>An entry of a negative acknowledgement names a packet and, bit by bit, the sixteen behind it.\<close>

definition nack_seqs :: "u16 \<times> u16 \<Rightarrow> u16 list" where
  "nack_seqs e = fst e # map (\<lambda>i. fst e + of_nat i + 1) (filter (bit (snd e)) [0..<16])"

lemma blp_bit: "(drop_bit i (blp :: u16) AND 0x0001 \<noteq> 0) = bit blp i"
  by (simp add: and_one_eq bit_iff_odd_drop_bit mod_2_eq_odd)

lemma insert_blp_half:
  assumes "list_all (in_half b) (map (\<lambda>i. p + of_nat i + 1) (filter (bit blp) is) @ xs)" "sorted_wrt SeqCmp xs"
  shows "set (insert_blp is p blp xs) = set (map (\<lambda>i. p + of_nat i + 1) (filter (bit blp) is)) \<union> set xs \<and>
    sorted_wrt SeqCmp (insert_blp is p blp xs)"
  using assms
proof (induction "is" arbitrary: xs)
  case (Cons i "is")
  show ?case
  proof (cases "bit blp i")
    case True
    let ?x = "p + of_nat i + 1"
    have x: "list_all (in_half b) (?x # xs)" using True Cons.prems(1) by simp
    note ins = seq_insert_half [OF x Cons.prems(2)]
    have "list_all (in_half b) (map (\<lambda>i. p + of_nat i + 1) (filter (bit blp) is) @ seq_insert ?x xs)"
      using Cons.prems(1) True ins by (auto simp: list_all_iff)
    from Cons.IH [OF this] ins show ?thesis using True by (auto simp: blp_bit)
  next
    case False
    then show ?thesis using Cons by (simp add: blp_bit)
  qed
qed simp

definition nack_bytes :: "(u16 \<times> u16) list \<Rightarrow> byte list" where
  "nack_bytes es = concat (map (\<lambda>e. WriteUint16T (fst e) @ WriteUint16T (snd e)) es)"

lemma nack_loop_entries:
  assumes "list_all (in_half b) (concat (map nack_seqs es) @ xs)" "sorted_wrt SeqCmp xs"
  shows "\<exists>ys. nack_loop (nack_bytes es) (length (nack_bytes es)) xs = Inr ys \<and>
    set ys = set (concat (map nack_seqs es)) \<union> set xs \<and> sorted_wrt SeqCmp ys"
  using assms
proof (induction es arbitrary: xs)
  case Nil
  then show ?case by (subst nack_loop.simps) (simp add: nack_bytes_def)
next
  case (Cons e es)
  obtain p blp where e: "e = (p, blp)" by (cases e)
  let ?rest = "nack_bytes es" and ?x1 = "seq_insert p xs"
  let ?x2 = "insert_blp [0..<16] p blp ?x1"
  have w: "length (WriteUint16T v) = 2" for v by (simp add: WriteUint16T_def)
  have bytes: "nack_bytes (e # es) = WriteUint16T p @ WriteUint16T blp @ ?rest" by (simp add: nack_bytes_def e)
  have h: "list_all (in_half b) (p # xs)" using Cons.prems(1) by (simp add: nack_seqs_def e)
  note ins = seq_insert_half [OF h Cons.prems(2)]
  have "list_all (in_half b) (map (\<lambda>i. p + of_nat i + 1) (filter (bit blp) [0..<16]) @ ?x1)"
    using Cons.prems(1) ins by (auto simp: list_all_iff nack_seqs_def e)
  note blp = insert_blp_half [OF this conjunct2 [OF ins]]
  have all: "set ?x2 = set (nack_seqs e) \<union> set xs" using blp ins by (auto simp: nack_seqs_def e)
  then have "list_all (in_half b) (concat (map nack_seqs es) @ ?x2)" using Cons.prems(1) by (auto simp: list_all_iff)
  from Cons.IH [OF this conjunct2 [OF blp]] obtain ys where ys: "nack_loop ?rest (length ?rest) ?x2 = Inr ys"
      "set ys = set (concat (map nack_seqs es)) \<union> set ?x2" "sorted_wrt SeqCmp ys" by blast
  have d: "drop 2 (nack_bytes (e # es)) = WriteUint16T blp @ ?rest" "drop 4 (nack_bytes (e # es)) = ?rest"
      "length (nack_bytes (e # es)) = 4 + length ?rest"
    unfolding bytes by (simp_all add: w)
  have r: "ReadUint16T (nack_bytes (e # es)) = Inr p" "ReadUint16T (WriteUint16T blp @ ?rest) = Inr blp"
    unfolding bytes by (rule u16.dec_enc, simp)+
  have "nack_loop (nack_bytes (e # es)) (length (nack_bytes (e # es))) xs = nack_loop ?rest (length ?rest) ?x2"
    by (subst nack_loop.simps) (simp add: d r del: bindE_eq_Inr)
  then show ?case using ys all by (intro exI [of _ ys]) auto
qed

text \<open>The message of a receiver that \<open>src\<close> lost packets of \<open>media\<close> (RFC 4585).\<close>

definition nack_message :: "u32 \<Rightarrow> u32 \<Rightarrow> (u16 \<times> u16) list \<Rightarrow> byte list" where
  "nack_message src media es =
     [0x81, 205] @ WriteUint16T (of_nat (2 + length es)) @ WriteUint32T src @ WriteUint32T media @ nack_bytes es"

lemma nack_decoded:
  assumes "list_all (in_half b) (concat (map nack_seqs es))"
  shows "\<exists>f. Rtpfb_Decode (nack_message src media es) (length (nack_message src media es)) Rtpfb_new = Inr f \<and>
    fb_ssrc f = src \<and> fb_media_ssrc f = media \<and> set (fb_lost_seqs f) = set (concat (map nack_seqs es)) \<and>
    sorted_wrt SeqCmp (fb_lost_seqs f)"
proof -
  let ?m = "nack_message src media es" and ?n = "nack_bytes es"
  obtain ys where ys: "nack_loop ?n (length ?n) [] = Inr ys" "set ys = set (concat (map nack_seqs es))" "sorted_wrt SeqCmp ys"
    using nack_loop_entries [of b es "[]"] assms by auto
  have d: "drop 2 ?m = WriteUint16T (of_nat (2 + length es)) @ WriteUint32T src @ WriteUint32T media @ ?n"
      "drop 4 ?m = WriteUint32T src @ WriteUint32T media @ ?n" "drop 12 ?m = ?n" "length ?m = 12 + length ?n"
      "drop 8 ?m = WriteUint32T media @ ?n"
    by (simp_all add: nack_message_def WriteUint16T_def)
  have e: "element 0 ?m = Inr 0x81" "element 1 ?m = Inr 205" by (simp_all add: nack_message_def)
  have head: "Rtcp_DecodeHeader ?m (length ?m) (fb_rtcp Rtpfb_new) = Inr (4, \<lparr>rtcp_version = 2, rtcp_padding = 0, rtcp_rc = 1,
      rtcp_payload_type = 205, rtcp_pl_len = of_nat (2 + length es)\<rparr>)"
    unfolding Rtcp_DecodeHeader_def e d(1)
    by (simp add: u16.dec_enc d(4) Rtpfb_new_def Rtcp_new_def kRtcpPtRtpfb_def del: bindE_eq_Inr of_nat_add)
  show ?thesis
    unfolding Rtpfb_Decode_def head
    using ys by (simp add: d u32.dec_enc DecodeNack_def Let_def del: bindE_eq_Inr)
qed

text \<open>A negative acknowledgement is understood. When all the numbers in it lie in one half of the circle of
  sequence numbers, the packets that are taken to be lost are exactly those named by its entries, also across
  the wrap-around, in the order in which they were sent.\<close>

theorem nack_understood:
  assumes "list_all (in_half b) (concat (map nack_seqs es))"
  shows "\<exists>f. Rtpfb_Decode (nack_message src media es) (length (nack_message src media es)) Rtpfb_new = Inr f \<and>
    fb_ssrc f = src \<and> fb_media_ssrc f = media \<and> set (fb_lost_seqs f) = set (concat (map nack_seqs es)) \<and>
    sorted_wrt SeqCmp (fb_lost_seqs f)"
  using assms by (rule nack_decoded)

lemma nack_understood_witness:
  "\<exists>f. Rtpfb_Decode (nack_message 1 2 [(0xfffe, 0x0003)]) (length (nack_message 1 2 [(0xfffe, 0x0003)])) Rtpfb_new = Inr f \<and>
    fb_ssrc f = 1 \<and> fb_media_ssrc f = 2 \<and> set (fb_lost_seqs f) = {0xfffe, 0xffff, 0} \<and> sorted_wrt SeqCmp (fb_lost_seqs f)"
proof -
  have f: "filter (bit (0x0003 :: u16)) [0..<16] = [0, 1]" by (simp add: upt_rec bit_numeral_rec numeral_eq_Suc)
  have n: "concat (map nack_seqs [(0xfffe, 0x0003)]) = [0xfffe, 0xffff, 0]" by (simp add: nack_seqs_def f)
  show ?thesis using nack_understood [of "0xfff0" "[(0xfffe, 0x0003)]" 1 2] unfolding n by (simp add: in_half_def)
qed

end
