(* ===== verification/WebrtcPlayer.thy ===== *)
theory WebrtcPlayer
  imports RtpMux Rtcp Stream
begin

text \<open>
  The player over WebRTC: \<open>src/live/user/WebrtcPlayerUser.cpp\<close> and \<open>src/mmedia/webrtc/Srtp.cpp\<close>. Frames go through the
  RTP muxer, every packet is kept in a ring for retransmission, protected and sent; negative
  acknowledgements are answered from the ring. libsrtp, FAAD2 and libopus are parameters, the clocks are
  arguments.
\<close>

section \<open>Protection\<close>

text \<open>The functions of libsrtp: \<open>None\<close> stands for a status other than ok. \<open>srtp_trailer\<close> is \<open>SRTP_MAX_TRAILER_LEN\<close>.\<close>

record 's srtp_lib =
  srtp_trailer :: int
  srtp_protect :: "byte list \<Rightarrow> 's \<Rightarrow> byte list option \<times> 's"
  srtp_protect_rtcp :: "byte list \<Rightarrow> 's \<Rightarrow> byte list option \<times> 's"
  srtp_unprotect_rtcp :: "byte list \<Rightarrow> 's \<Rightarrow> byte list option \<times> 's"

definition kSrtpMaxBufferSize :: int where "kSrtpMaxBufferSize = 65535"

text \<open>A new packet with the bytes.\<close>

definition fresh_packet :: "byte list \<Rightarrow> 'e packet res" where
  "fresh_packet bs = bindE (NewPacket (int (length bs))) (\<lambda>p. bindE (write_data 0 bs p) (\<lambda>p. Inr (SetPacketSize (length bs) p)))"

definition protect_with ::
    "(byte list \<Rightarrow> 's \<Rightarrow> byte list option \<times> 's) \<Rightarrow> int \<Rightarrow> 'e packet \<Rightarrow> 's \<Rightarrow> ('e packet option \<times> 's) res" where
  "protect_with f trailer pkt s =
     (if kSrtpMaxBufferSize \<le> PacketSize pkt + trailer then Inr (None, s)
      else bindE (mem_read (nat (PacketSize pkt)) (pk_data pkt)) (\<lambda>d.
        case f d s of
          (None, s) \<Rightarrow> Inr (None, s)
        | (Some bs, s) \<Rightarrow> bindE (fresh_packet bs) (\<lambda>p. Inr (Some p, s))))"

definition RtpProtect :: "'s srtp_lib \<Rightarrow> 'e packet \<Rightarrow> 's \<Rightarrow> ('e packet option \<times> 's) res" where
  "RtpProtect lib = protect_with (srtp_protect lib) (srtp_trailer lib)"

definition RtcpProtect :: "'s srtp_lib \<Rightarrow> 'e packet \<Rightarrow> 's \<Rightarrow> ('e packet option \<times> 's) res" where
  "RtcpProtect lib = protect_with (srtp_protect_rtcp lib) (srtp_trailer lib)"

definition SrtcpUnprotect :: "'s srtp_lib \<Rightarrow> byte list \<Rightarrow> 's \<Rightarrow> ('e packet option \<times> 's) res" where
  "SrtcpUnprotect lib buf s =
     (if kSrtpMaxBufferSize \<le> to_int (length buf) then Inr (None, s)
      else if kSrtpMaxBufferSize < int (length buf) then Inl BufferOverflow
      else case srtp_unprotect_rtcp lib buf s of
             (None, s) \<Rightarrow> Inr (None, s)
           | (Some bs, s) \<Rightarrow> bindE (fresh_packet bs) (\<lambda>p. Inr (Some p, s)))"

section \<open>The player\<close>

text \<open>\<open>wu_sent\<close> collects what is given to the server, with the address as extension.\<close>

record ('a, 'o, 's, 'e) webrtc_user =
  wu_user :: "'e player_user"
  wu_active :: bool
  wu_addr :: "'e option"
  dtls_done :: bool
  wu_srtp :: 's
  wu_muxer :: "('a, 'o) rtp_muxer"
  got_key_frame :: bool
  video_out_bytes :: u32
  audio_out_bytes :: u32
  video_out_pkts_count :: u32
  audio_out_pkts_count :: u32
  video_sr_timestamp :: u64
  audio_sr_timestamp :: u64
  video_queue :: "'e packet option list"
  audio_queue :: "'e packet option list"
  wu_sent :: "'e packet list"

definition queue_size :: nat where "queue_size = 500"

text \<open>\<open>pkt->Index () % size\<close>: the \<open>int\<close> is converted to 64 bits.\<close>

definition queue_slot :: "u32 \<Rightarrow> nat" where
  "queue_slot i = unat (scast i :: u64) mod queue_size"

definition ring_add :: "'e packet \<Rightarrow> 'e packet option list \<Rightarrow> 'e packet option list" where
  "ring_add p q = q[queue_slot (pk_index p) := Some p]"

definition ring_get :: "u16 \<Rightarrow> 'e packet option list \<Rightarrow> 'e packet option" where
  "ring_get i q =
     (case q ! (unat i mod queue_size) of
        Some p \<Rightarrow> if Index p = int (unat i) then Some p else None
      | None \<Rightarrow> None)"

definition AddVideo :: "'e packet \<Rightarrow> ('a, 'o, 's, 'e) webrtc_user \<Rightarrow> ('a, 'o, 's, 'e) webrtc_user" where
  "AddVideo p u = u\<lparr>video_queue := ring_add p (video_queue u)\<rparr>"

definition AddAudio :: "'e packet \<Rightarrow> ('a, 'o, 's, 'e) webrtc_user \<Rightarrow> ('a, 'o, 's, 'e) webrtc_user" where
  "AddAudio p u = u\<lparr>audio_queue := ring_add p (audio_queue u)\<rparr>"

definition GetVideo :: "u16 \<Rightarrow> ('a, 'o, 's, 'e) webrtc_user \<Rightarrow> 'e packet option" where
  "GetVideo i u = ring_get i (video_queue u)"

definition GetAudio :: "u16 \<Rightarrow> ('a, 'o, 's, 'e) webrtc_user \<Rightarrow> 'e packet option" where
  "GetAudio i u = ring_get i (audio_queue u)"

definition WebrtcPlayerUser_new :: "'e player_user \<Rightarrow> 'e option \<Rightarrow> 's \<Rightarrow> ('a, 'o) rtp_muxer \<Rightarrow> ('a, 'o, 's, 'e) webrtc_user" where
  "WebrtcPlayerUser_new v addr s x = \<lparr>wu_user = v, wu_active = False, wu_addr = addr, dtls_done = False, wu_srtp = s, wu_muxer = x,
     got_key_frame = False, video_out_bytes = 0, audio_out_bytes = 0, video_out_pkts_count = 0, audio_out_pkts_count = 0,
     video_sr_timestamp = 0, audio_sr_timestamp = 0, video_queue = replicate queue_size None,
     audio_queue = replicate queue_size None, wu_sent = []\<rparr>"

definition OnDtlsHandshakeDone :: "'s \<Rightarrow> int \<Rightarrow> int \<Rightarrow> u32 \<Rightarrow> u32 \<Rightarrow> byte \<Rightarrow> u32 \<Rightarrow> ('a, 'o, 's, 'e) webrtc_user \<Rightarrow> ('a, 'o, 's, 'e) webrtc_user" where
  "OnDtlsHandshakeDone s vpt apt vssrc assrc g g' u =
     u\<lparr>dtls_done := True, wu_srtp := s,
       wu_muxer := (RtpMuxer_Init vpt apt vssrc assrc g g')\<lparr>rm_aac := rm_aac (wu_muxer u), rm_opus := rm_opus (wu_muxer u),
                     sent_sps_pps := sent_sps_pps (wu_muxer u)\<rparr>\<rparr>"

section \<open>Sending\<close>

text \<open>The frames of \<open>out_frames_\<close>: nothing before the first key frame.\<close>

fun encode_frames_of ::
    "('a, 'o) codecs \<Rightarrow> 'e packet list \<Rightarrow> bool \<Rightarrow> ('a, 'o) rtp_muxer \<Rightarrow> 'e packet list \<Rightarrow>
     (bool \<times> ('a, 'o) rtp_muxer \<times> 'e packet list) res" where
  "encode_frames_of cd [] got x outs = Inr (got, x, outs)"
| "encode_frames_of cd (p # ps) got x outs =
     (let got = (got \<or> IsVideo p \<and> IsKeyFrame p)
      in if \<not> got then encode_frames_of cd ps got x outs
         else if IsAudio p then bindE (RtpMuxer_EncodeAudio cd p outs x) (\<lambda>(_, outs, x). encode_frames_of cd ps got x outs)
         else if IsVideo p then bindE (RtpMuxer_EncodeVideo p outs (ucast (pk_timestamp p)) x) (\<lambda>(_, outs, x). encode_frames_of cd ps got x outs)
         else encode_frames_of cd ps got x outs)"

text \<open>Every packet is kept and protected; what could be protected is counted and sent.\<close>

fun protect_all ::
    "'s srtp_lib \<Rightarrow> 'e packet list \<Rightarrow> ('a, 'o, 's, 'e) webrtc_user \<Rightarrow> 'e packet list \<Rightarrow> (('a, 'o, 's, 'e) webrtc_user \<times> 'e packet list) res" where
  "protect_all lib [] u result = Inr (u, result)"
| "protect_all lib (p # ps) u result =
     (let u = (if IsAudio p then AddAudio p u else AddVideo p u)
      in bindE (RtpProtect lib p (wu_srtp u)) (\<lambda>(np, s).
        let u = u\<lparr>wu_srtp := s\<rparr>
        in case np of
             None \<Rightarrow> protect_all lib ps u result
           | Some q \<Rightarrow>
               protect_all lib ps
                 (if IsAudio p then u\<lparr>audio_out_bytes := audio_out_bytes u + pk_size q, audio_out_pkts_count := audio_out_pkts_count u + 1\<rparr>
                  else u\<lparr>video_out_bytes := video_out_bytes u + pk_size q, video_out_pkts_count := video_out_pkts_count u + 1\<rparr>)
                 (result @ [q\<lparr>pk_ext := wu_addr u\<rparr>])))"

definition SendPackets :: "'e packet list \<Rightarrow> ('a, 'o, 's, 'e) webrtc_user \<Rightarrow> ('a, 'o, 's, 'e) webrtc_user" where
  "SendPackets ps u = u\<lparr>wu_sent := wu_sent u @ ps\<rparr>"

text \<open>The clocks: milliseconds of \<open>TTime::NowMS\<close>, microseconds of \<open>gettimeofday\<close>.\<close>

definition SendSR :: "'s srtp_lib \<Rightarrow> u64 \<Rightarrow> u64 \<Rightarrow> bool \<Rightarrow> ('a, 'o, 's, 'e) webrtc_user \<Rightarrow> ('a, 'o, 's, 'e) webrtc_user res" where
  "SendSR lib now usec is_video u =
     (if now - (if is_video then video_sr_timestamp u else audio_sr_timestamp u) < 3000 then Inr u
      else let r = (if is_video then rm_video (wu_muxer u) else rm_audio (wu_muxer u));
               sr = (SetNtpTimestamp usec SenderReport_new)\<lparr>sr_ssrc := rtp_ssrc r, sr_rtp_timestamp := rtp_timestamp r,
                 sr_sent_bytes := (if is_video then video_out_bytes u else audio_out_bytes u),
                 sr_sent_pkt_cnt := (if is_video then video_out_pkts_count u else audio_out_pkts_count u)\<rparr>
           in bindE (SenderReport_Encode sr) (\<lambda>p.
              bindE (RtcpProtect lib p (wu_srtp u)) (\<lambda>(np, s).
                let u = u\<lparr>wu_srtp := s\<rparr>;
                    u = (case np of None \<Rightarrow> u | Some q \<Rightarrow> SendPackets [q\<lparr>pk_ext := wu_addr u\<rparr>] u)
                in Inr (if is_video then u\<lparr>video_sr_timestamp := now\<rparr> else u\<lparr>audio_sr_timestamp := now\<rparr>))))"

definition CheckSR :: "'s srtp_lib \<Rightarrow> u64 \<Rightarrow> u64 \<Rightarrow> ('a, 'o, 's, 'e) webrtc_user \<Rightarrow> ('a, 'o, 's, 'e) webrtc_user res" where
  "CheckSR lib now usec u = bindE (SendSR lib now usec True u) (SendSR lib now usec False)"

definition header_packets ::
    "('a, 'o) codecs \<Rightarrow> 'e player_user \<Rightarrow> ('a, 'o) rtp_muxer \<Rightarrow> ('e packet list \<times> ('a, 'o) rtp_muxer) res" where
  "header_packets cd v x =
     bindE (case pu_audio_header v of
              None \<Rightarrow> Inr ([], x)
            | Some p \<Rightarrow> bindE (RtpMuxer_EncodeAudio cd p [] x) (\<lambda>(_, outs, x). Inr (outs, x))) (\<lambda>(outs, x).
     case pu_video_header v of
       None \<Rightarrow> Inr (outs, x)
     | Some p \<Rightarrow> bindE (RtpMuxer_EncodeVideo p outs 0 x) (\<lambda>(_, outs, x). Inr (outs, x)))"

text \<open>What \<open>PostFrames\<close> encodes: the RTP packets, and the player behind them.\<close>

definition encode_due ::
    "('a, 'o) codecs \<Rightarrow> app_info \<Rightarrow> int \<Rightarrow> 'e stream \<Rightarrow> ('a, 'o, 's, 'e) webrtc_user \<Rightarrow> ('e packet list \<times> ('a, 'o, 's, 'e) webrtc_user) res" where
  "encode_due cd info now s u =
     bindE (GetFrames info now s (wu_user u)) (\<lambda>v.
     bindE (header_packets cd v (wu_muxer u)) (\<lambda>(outs, x).
     bindE (encode_frames_of cd (out_frames v) (got_key_frame u) x outs) (\<lambda>(got, x, outs).
       Inr (outs, u\<lparr>wu_user := v\<lparr>pu_meta := None, pu_audio_header := None, pu_video_header := None, out_frames := []\<rparr>,
                    wu_muxer := x, got_key_frame := got\<rparr>))))"

definition WebrtcPlayerUser_PostFrames ::
    "('a, 'o) codecs \<Rightarrow> 's srtp_lib \<Rightarrow> app_info \<Rightarrow> int \<Rightarrow> u64 \<Rightarrow> u64 \<Rightarrow> 'e stream \<Rightarrow> ('a, 'o, 's, 'e) webrtc_user \<Rightarrow>
     (bool \<times> ('a, 'o, 's, 'e) webrtc_user) res" where
  "WebrtcPlayerUser_PostFrames cd lib info now ms usec s u =
     (if \<not> ready s \<or> \<not> HasMedia s \<or> \<not> dtls_done u then Inr (False, u\<lparr>wu_active := False\<rparr>)
      else bindE (encode_due cd info now s u) (\<lambda>(outs, u).
           if outs \<noteq> []
           then bindE (protect_all lib outs u []) (\<lambda>(u, result).
                bindE (CheckSR lib ms usec (SendPackets result u)) (\<lambda>u. Inr (True, u)))
           else Inr (True, u\<lparr>wu_active := False\<rparr>)))"

section \<open>Answering\<close>

fun protect_again ::
    "'s srtp_lib \<Rightarrow> 'e packet list \<Rightarrow> ('a, 'o, 's, 'e) webrtc_user \<Rightarrow> 'e packet list \<Rightarrow> (('a, 'o, 's, 'e) webrtc_user \<times> 'e packet list) res" where
  "protect_again lib [] u result = Inr (u, result)"
| "protect_again lib (p # ps) u result =
     bindE (RtpProtect lib p (wu_srtp u)) (\<lambda>(np, s).
       protect_again lib ps (u\<lparr>wu_srtp := s\<rparr>) (case np of None \<Rightarrow> result | Some q \<Rightarrow> result @ [q\<lparr>pk_ext := wu_addr u\<rparr>]))"

definition lost_packets :: "rtpfb \<Rightarrow> ('a, 'o, 's, 'e) webrtc_user \<Rightarrow> 'e packet list" where
  "lost_packets f u =
     (let is_video = (fb_media_ssrc f = rtp_ssrc (rm_video (wu_muxer u))); is_audio = (fb_media_ssrc f = rtp_ssrc (rm_audio (wu_muxer u)))
      in if \<not> is_audio \<and> \<not> is_video then []
         else List.map_filter (\<lambda>l. if is_audio then GetAudio l u else GetVideo l u) (fb_lost_seqs f))"

definition ProcessRtpfb :: "'s srtp_lib \<Rightarrow> byte list \<Rightarrow> nat \<Rightarrow> ('a, 'o, 's, 'e) webrtc_user \<Rightarrow> ('a, 'o, 's, 'e) webrtc_user res" where
  "ProcessRtpfb lib buf n u =
     bindE (Rtpfb_Decode buf n Rtpfb_new) (\<lambda>f.
     bindE (protect_again lib (lost_packets f u) u []) (\<lambda>(u, result).
       Inr (if result \<noteq> [] then SendPackets result u else u)))"

definition OnRtcp :: "'s srtp_lib \<Rightarrow> byte list \<Rightarrow> ('a, 'o, 's, 'e) webrtc_user \<Rightarrow> ('a, 'o, 's, 'e) webrtc_user res" where
  "OnRtcp lib buf u =
     bindE (SrtcpUnprotect lib buf (wu_srtp u)) (\<lambda>(np :: 'e packet option, s).
       let u = u\<lparr>wu_srtp := s\<rparr>
       in case np of
            None \<Rightarrow> Inr u
          | Some p \<Rightarrow> bindE (element 1 buf) (\<lambda>pt.
              if pt = kRtcpPtRtpfb then ProcessRtpfb lib (pk_data p) (unat (scast (pk_size p) :: u64)) u else Inr u))"

section \<open>The numbers of the packets\<close>

text \<open>A sender in state \<open>r\<close> has made the packets \<open>new\<close> of one kind, numbered on, and is then in state \<open>r'\<close>.\<close>

definition emits :: "u32 \<Rightarrow> rtp \<Rightarrow> 'e packet list \<Rightarrow> rtp \<Rightarrow> bool" where
  "emits kind r new r' \<longleftrightarrow>
     map pk_index new = map (\<lambda>i. rtp_sequence r + 1 + of_nat i) [0..<length new] \<and>
     rtp_sequence r' = rtp_sequence r + of_nat (length new) \<and> list_all (\<lambda>p. pk_type p = kind) new \<and>
     rtp_ssrc r' = rtp_ssrc r"

lemma emits_Nil: "rtp_sequence r' = rtp_sequence r \<Longrightarrow> rtp_ssrc r' = rtp_ssrc r \<Longrightarrow> emits kind r [] r'"
  by (simp add: emits_def)

lemma emits_append:
  assumes "emits kind r ps r1" "emits kind r1 qs r2"
  shows "emits kind r (ps @ qs) r2"
proof -
  have "[0..<m + n] = [0..<m] @ map (\<lambda>i. m + i) [0..<n]" for m n by (induction n) simp_all
  then have "[0..<length (ps @ qs)] = [0..<length ps] @ map (\<lambda>i. length ps + i) [0..<length qs]" by simp
  then show ?thesis using assms by (simp add: emits_def ac_simps)
qed

lemma emits_packet:
  assumes "rtp_packet kind n d r1 = Inr p" "rtp_sequence r1 = rtp_sequence r + 1" "rtp_ssrc r1 = rtp_ssrc r"
  shows "emits kind r [p] r1"
  using assms
  by (auto simp: emits_def rtp_packet_def SetIndex_def SetPacketType_def elim!: bindE_InrE)

lemma next_sequence_fields [simp]:
  "rtp_sequence (next_sequence m r) = rtp_sequence r + 1" "rtp_ssrc (next_sequence m r) = rtp_ssrc r"
  by (simp_all add: next_sequence_def)

lemma EncodeSingle_emits:
  "EncodeSingle b fin r outs = Inr (r', outs') \<Longrightarrow> \<exists>new. outs' = outs @ new \<and> emits kPacketTypeVideo r new r'"
  by (auto simp: EncodeSingle_def Let_def elim!: bindE_InrE intro!: emits_packet)

lemma fua_loop_emits:
  "fua_loop type data bytes start r outs = Inr (r', outs') \<Longrightarrow> \<exists>new. outs' = outs @ new \<and> emits kPacketTypeVideo r new r'"
proof (induction type data bytes start r outs rule: fua_loop.induct)
  case (1 type data bytes start r outs)
  show ?case
  proof (cases "bytes = 0")
    case True
    then show ?thesis using 1(2) by (subst (asm) fua_loop.simps) (simp add: emits_Nil)
  next
    case False
    let ?n = "fua_size (Rtp_HeaderSize r) bytes" and ?k = "fua_size (Rtp_HeaderSize r) bytes - 2 - Rtp_HeaderSize r"
    let ?r = "next_sequence (if bytes \<le> ?k then 1 else 0) r"
    obtain d p where dp: "mem_read ?k data = Inr d" "rtp_packet kPacketTypeVideo ?n (fua_header type start (bytes \<le> ?k) @ d) ?r = Inr p"
        "fua_loop type (drop ?k data) (bytes - ?k) False ?r (outs @ [p]) = Inr (r', outs')"
      using 1(2) False by (subst (asm) fua_loop.simps) (auto simp: Let_def elim!: bindE_InrE)
    obtain new where new: "outs' = (outs @ [p]) @ new" "emits kPacketTypeVideo ?r new r'"
      using "1.IH" [OF False refl refl refl refl dp(1,2,3)] by blast
    have "emits kPacketTypeVideo r [p] ?r" by (rule emits_packet [OF dp(2)]) simp_all
    from emits_append [OF this new(2)] new(1) show ?thesis by auto
  qed
qed

lemma encode_units_emits:
  "encode_units bs r outs = Inr (r', outs') \<Longrightarrow> \<exists>new. outs' = outs @ new \<and> emits kPacketTypeVideo r new r'"
proof (induction bs arbitrary: r outs)
  case Nil
  then show ?case by (simp add: emits_Nil)
next
  case (Cons b bs)
  obtain r1 outs1 where 1: "(if kRtpMaxPayloadSize < Rtp_HeaderSize r + sb_size b then EncodeFua b r outs
        else EncodeSingle b (bs = []) r outs) = Inr (r1, outs1)" "encode_units bs r1 outs1 = Inr (r', outs')"
    using Cons.prems by (auto elim!: bindE_InrE)
  have "\<exists>new. outs1 = outs @ new \<and> emits kPacketTypeVideo r new r1"
    using 1(1) EncodeSingle_emits fua_loop_emits by (fastforce simp: EncodeFua_def split: if_splits elim!: bindE_InrE)
  with Cons.IH [OF 1(2)] show ?case using emits_append by fastforce
qed

lemma RtpH264_Encode_emits:
  assumes "RtpH264_Encode bs ts r outs = Inr (r', outs')"
  shows "\<exists>new. outs' = outs @ new \<and> emits kPacketTypeVideo r new r'"
proof -
  obtain t where "encode_units bs (r\<lparr>rtp_timestamp := t, rtp_marker := 0\<rparr>) outs = Inr (r', outs')"
    using assms by (auto simp: RtpH264_Encode_def elim!: bindE_InrE)
  from encode_units_emits [OF this] show ?thesis by (simp add: emits_def)
qed

lemma EncodeSpsPps_emits:
  "EncodeSpsPps sps pps r outs = Inr (b, r', outs') \<Longrightarrow> \<exists>new. outs' = outs @ new \<and> emits kPacketTypeVideo r new r'"
  by (auto simp: EncodeSpsPps_def Let_def emits_Nil elim!: bindE_InrE intro!: emits_packet split: if_splits)

lemma RtpOpus_Encode_emits:
  "RtpOpus_Encode ss r outs = Inr (r', outs') \<Longrightarrow> \<exists>new. outs' = outs @ new \<and> emits kPacketTypeAudio r new r'"
proof (induction ss arbitrary: r outs)
  case Nil
  then show ?case by (simp add: emits_Nil)
next
  case (Cons s ss)
  let ?r = "next_sequence 1 (r\<lparr>rtp_timestamp := rtp_timestamp r + 480\<rparr>)"
  obtain p where p: "rtp_packet kPacketTypeAudio (Rtp_HeaderSize ?r + length s) s ?r = Inr p" "RtpOpus_Encode ss ?r (outs @ [p]) = Inr (r', outs')"
    using Cons.prems by (auto simp: Let_def elim!: bindE_InrE split: if_splits)
  obtain new where new: "outs' = (outs @ [p]) @ new" "emits kPacketTypeAudio ?r new r'" using Cons.IH [OF p(2)] by blast
  have "emits kPacketTypeAudio r [p] ?r" by (rule emits_packet [OF p(1)]) simp_all
  from emits_append [OF this new(2)] new(1) show ?case by auto
qed

lemma encode_pcm_emits:
  "encode_pcm cd ls a oe r outs = Inr (a', oe', r', outs') \<Longrightarrow> \<exists>new. outs' = outs @ new \<and> emits kPacketTypeAudio r new r'"
proof (induction ls arbitrary: a oe r outs)
  case Nil
  then show ?case by (simp add: emits_Nil)
next
  case (Cons l ls)
  obtain d where d: "mem_read (sb_size l) (sb_addr l) = Inr d" using Cons.prems by (auto elim!: bindE_InrE)
  obtain pcm a1 where dec: "AACDecoder_Decode cd d a = (pcm, a1)" by fastforce
  note step = Cons.prems [unfolded encode_pcm.simps d bindE.simps dec prod.case]
  have "\<exists>oe1 r1 outs1. encode_pcm cd ls a1 oe1 r1 outs1 = Inr (a', oe', r', outs') \<and>
      (outs1 = outs \<and> r1 = r \<or> (\<exists>ps. RtpOpus_Encode ps r outs = Inr (r1, outs1)))"
  proof (cases "0 < sb_size pcm")
    case True
    then obtain pkts oe1 where e: "(if pkts \<noteq> [] then bindE (RtpOpus_Encode pkts r outs) (\<lambda>(r, outs). encode_pcm cd ls a1 oe1 r outs)
        else encode_pcm cd ls a1 oe1 r outs) = Inr (a', oe', r', outs')"
      using step by (auto simp del: bindE_eq_Inr elim!: bindE_InrE)
    show ?thesis
    proof (cases "pkts = []")
      case True
      then show ?thesis using e by auto
    next
      case False
      then obtain r1 outs1 where "RtpOpus_Encode pkts r outs = Inr (r1, outs1)" "encode_pcm cd ls a1 oe1 r1 outs1 = Inr (a', oe', r', outs')"
        using e by (auto simp del: bindE_eq_Inr elim!: bindE_InrE)
      then show ?thesis by blast
    qed
  next
    case False
    then show ?thesis using step by auto
  qed
  then obtain oe1 r1 outs1 where 1: "encode_pcm cd ls a1 oe1 r1 outs1 = Inr (a', oe', r', outs')"
      "outs1 = outs \<and> r1 = r \<or> (\<exists>ps. RtpOpus_Encode ps r outs = Inr (r1, outs1))" by blast
  have "\<exists>new. outs1 = outs @ new \<and> emits kPacketTypeAudio r new r1"
    using 1(2) RtpOpus_Encode_emits by (fastforce simp: emits_Nil)
  with Cons.IH [OF 1(1)] show ?case using emits_append by fastforce
qed

text \<open>A muxer makes packets of both kinds, each numbered on by itself.\<close>

definition makes :: "('a, 'o) rtp_muxer \<Rightarrow> 'e packet list \<Rightarrow> ('a, 'o) rtp_muxer \<Rightarrow> bool" where
  "makes x new x' \<longleftrightarrow>
     emits kPacketTypeVideo (rm_video x) (filter (\<lambda>p. \<not> IsAudio p) new) (rm_video x') \<and>
     emits kPacketTypeAudio (rm_audio x) (filter IsAudio new) (rm_audio x')"

lemma makes_append: "makes x ps x1 \<Longrightarrow> makes x1 qs x2 \<Longrightarrow> makes x (ps @ qs) x2"
  by (auto simp: makes_def intro: emits_append)

lemma makes_Nil: "makes x [] x" by (simp add: makes_def emits_Nil)

lemma emits_video: "emits kPacketTypeVideo r new r' \<Longrightarrow> filter IsAudio new = [] \<and> filter (\<lambda>p. \<not> IsAudio p) new = new"
  by (auto simp: emits_def IsAudio_def list_all_iff filter_empty_conv intro!: filter_True)

lemma emits_audio: "emits kPacketTypeAudio r new r' \<Longrightarrow> filter IsAudio new = new \<and> filter (\<lambda>p. \<not> IsAudio p) new = []"
  by (auto simp: emits_def IsAudio_def list_all_iff filter_empty_conv intro!: filter_True)

lemma makes_video:
  assumes "emits kPacketTypeVideo (rm_video x) new (rm_video x')" "rm_audio x' = rm_audio x"
  shows "makes x new x'"
  using assms emits_video [OF assms(1)] by (simp add: makes_def emits_Nil)

lemma makes_audio:
  assumes "emits kPacketTypeAudio (rm_audio x) new (rm_audio x')" "rm_video x' = rm_video x"
  shows "makes x new x'"
  using assms emits_audio [OF assms(1)] by (simp add: makes_def emits_Nil)

lemma EncodeVideo_makes:
  assumes "RtpMuxer_EncodeVideo p outs ts x = Inr (ret, outs', x')"
  shows "\<exists>new. outs' = outs @ new \<and> makes x new x'"
proof -
  obtain r d ls where d: "VideoDemux_OnDemux (pk_data p) (unat (scast (pk_size p) :: u64)) (VideoDemux_Reset (rm_vdemux x)) [] = Inr (r, d, ls)"
    using assms by (auto simp: RtpMuxer_EncodeVideo_def elim!: bindE_InrE)
  let ?x = "x\<lparr>rm_vdemux := d\<rparr>"
  have quiet: ?thesis if "outs' = outs" "x' = ?x"
    using that by (intro exI [of _ "[]"]) (simp add: makes_def emits_Nil)
  show ?thesis
  proof (cases "r = -1")
    case True
    then show ?thesis using assms d quiet by (simp add: RtpMuxer_EncodeVideo_def Let_def)
  next
    case False
    obtain hdr where hdr: "Ts_IsCodecHeader p = Inr hdr"
      using assms d False by (auto simp: RtpMuxer_EncodeVideo_def Let_def elim!: bindE_InrE)
    show ?thesis
    proof (cases "hdr \<or> has_bframe d")
      case True
      then show ?thesis using assms d False hdr quiet by (auto simp: RtpMuxer_EncodeVideo_def Let_def split: if_splits)
    next
      case more: False
      let ?front = "if \<not> sent_sps_pps ?x \<and> has_idr d \<and> \<not> has_sps_pps d
          then bindE (EncodeSpsPps (vd_sps d) (vd_pps d) (rm_video ?x) outs) (\<lambda>(_, r, outs). Inr (outs, ?x\<lparr>rm_video := r, sent_sps_pps := True\<rparr>))
          else Inr (outs, ?x)"
      obtain mid y where my: "?front = Inr (mid, y)"
          "bindE (RtpH264_Encode ls ts (rm_video (if has_sps_pps d then y\<lparr>sent_sps_pps := True\<rparr> else y)) mid)
             (\<lambda>(r, outs). Inr (0, outs, (if has_sps_pps d then y\<lparr>sent_sps_pps := True\<rparr> else y)\<lparr>rm_video := r\<rparr>)) = Inr (ret, outs', x')"
        using assms d False hdr more unfolding RtpMuxer_EncodeVideo_def Let_def
        by (auto simp del: bindE_eq_Inr elim!: bindE_InrE)
      have one: "\<exists>new. mid = outs @ new \<and> makes x new y"
      proof (cases "\<not> sent_sps_pps ?x \<and> has_idr d \<and> \<not> has_sps_pps d")
        case True
        then obtain b r1 where b: "EncodeSpsPps (vd_sps d) (vd_pps d) (rm_video x) outs = Inr (b, r1, mid)"
            "y = ?x\<lparr>rm_video := r1, sent_sps_pps := True\<rparr>"
          using my(1) by (auto elim!: bindE_InrE)
        from EncodeSpsPps_emits [OF b(1)] show ?thesis using b(2) makes_video [of x _ y] by auto
      next
        case False
        then show ?thesis using my(1) by (intro exI [of _ "[]"]) (auto simp: makes_def emits_Nil)
      qed
      obtain r2 where r2: "RtpH264_Encode ls ts (rm_video y) mid = Inr (r2, outs')" "rm_video x' = r2" "rm_audio x' = rm_audio y"
        using my(2) by (auto elim!: bindE_InrE split: if_splits)
      from RtpH264_Encode_emits [OF r2(1)] obtain new where "outs' = mid @ new" "makes y new x'"
        using r2(2,3) makes_video [of y _ x'] by auto
      then show ?thesis using one makes_append by fastforce
    qed
  qed
qed

lemma EncodeAudio_makes:
  assumes "RtpMuxer_EncodeAudio cd p outs x = Inr (ret, outs', x')"
  shows "\<exists>new. outs' = outs @ new \<and> makes x new x'"
proof -
  obtain r d ls where d: "AudioDemux_OnDemux (pk_data p) (unat (scast (pk_size p) :: u64)) (rm_ademux x) [] = Inr (r, d, ls)"
    using assms by (auto simp: RtpMuxer_EncodeAudio_def elim!: bindE_InrE)
  show ?thesis
  proof (cases "r = -1 \<or> aac_seq_header d = []")
    case True
    then have "outs' = outs \<and> x' = x\<lparr>rm_ademux := d\<rparr>"
      using assms d by (auto simp: RtpMuxer_EncodeAudio_def Let_def split: if_splits)
    then show ?thesis by (intro exI [of _ "[]"]) (simp add: makes_def emits_Nil)
  next
    case False
    let ?a = "case rm_aac x of None \<Rightarrow> NeAACDecInit2 cd (aac_seq_header d) | Some a \<Rightarrow> a"
    obtain oe a' oe' r' where pcm: "encode_pcm cd ls ?a oe (rm_audio x) outs = Inr (a', oe', r', outs')"
        and x': "rm_audio x' = r'" "rm_video x' = rm_video x"
      using assms d False by (auto simp: RtpMuxer_EncodeAudio_def Let_def elim!: bindE_InrE)
    from encode_pcm_emits [OF pcm] obtain new where "outs' = outs @ new" "emits kPacketTypeAudio (rm_audio x) new (rm_audio x')"
      unfolding x'(1) by blast
    then show ?thesis using makes_audio x'(2) by blast
  qed
qed

lemma encode_frames_makes:
  "encode_frames_of cd ps got x outs = Inr (got', x', outs') \<Longrightarrow> \<exists>new. outs' = outs @ new \<and> makes x new x'"
proof (induction ps arbitrary: got x outs)
  case Nil
  then show ?case by (simp add: makes_Nil)
next
  case (Cons p ps)
  let ?got = "got \<or> IsVideo p \<and> IsKeyFrame p"
  have "\<exists>x1 outs1 new. encode_frames_of cd ps ?got x1 outs1 = Inr (got', x', outs') \<and> outs1 = outs @ new \<and> makes x new x1"
  proof (cases "?got \<and> (IsAudio p \<or> IsVideo p)")
    case True
    then obtain ret x1 outs1 where "encode_frames_of cd ps ?got x1 outs1 = Inr (got', x', outs')"
        "RtpMuxer_EncodeAudio cd p outs x = Inr (ret, outs1, x1) \<or> RtpMuxer_EncodeVideo p outs (ucast (pk_timestamp p)) x = Inr (ret, outs1, x1)"
      using Cons.prems by (auto simp: Let_def elim!: bindE_InrE split: if_splits)
    then show ?thesis using EncodeAudio_makes EncodeVideo_makes by blast
  next
    case False
    then have "encode_frames_of cd ps ?got x outs = Inr (got', x', outs')" using Cons.prems by (auto simp: Let_def split: if_splits)
    then show ?thesis using makes_Nil by (intro exI [of _ x] exI [of _ outs] exI [of _ "[]"]) simp
  qed
  then obtain x1 outs1 new where 1: "encode_frames_of cd ps ?got x1 outs1 = Inr (got', x', outs')" "outs1 = outs @ new" "makes x new x1"
    by blast
  obtain more where "outs' = outs1 @ more" "makes x1 more x'" using Cons.IH [OF 1(1)] by blast
  then show ?case using 1(2) makes_append [OF 1(3)] by auto
qed

lemma header_packets_makes:
  assumes "header_packets cd v x = Inr (outs, x')"
  shows "makes x outs x'"
proof -
  obtain outs1 x1 where 1: "(case pu_audio_header v of None \<Rightarrow> Inr ([], x)
        | Some p \<Rightarrow> bindE (RtpMuxer_EncodeAudio cd p [] x) (\<lambda>(_, outs, x). Inr (outs, x))) = Inr (outs1, x1)"
      "(case pu_video_header v of None \<Rightarrow> Inr (outs1, x1)
        | Some p \<Rightarrow> bindE (RtpMuxer_EncodeVideo p outs1 0 x1) (\<lambda>(_, outs, x). Inr (outs, x))) = Inr (outs, x')"
    using assms by (auto simp: header_packets_def simp del: bindE_eq_Inr elim!: bindE_InrE)
  have a: "makes x outs1 x1"
  proof (cases "pu_audio_header v")
    case None
    then show ?thesis using 1(1) by (simp add: makes_Nil)
  next
    case (Some p)
    then obtain ret where "RtpMuxer_EncodeAudio cd p [] x = Inr (ret, outs1, x1)" using 1(1) by (auto elim!: bindE_InrE)
    from EncodeAudio_makes [OF this] show ?thesis by simp
  qed
  show ?thesis
  proof (cases "pu_video_header v")
    case None
    then show ?thesis using 1(2) a by simp
  next
    case (Some p)
    then obtain ret where "RtpMuxer_EncodeVideo p outs1 0 x1 = Inr (ret, outs, x')" using 1(2) by (auto elim!: bindE_InrE)
    from EncodeVideo_makes [OF this] show ?thesis using makes_append [OF a] by blast
  qed
qed

section \<open>The ring\<close>

definition kept :: "'e packet list \<Rightarrow> 'e packet option list" where
  "kept ps = fold ring_add ps (replicate queue_size None)"

text \<open>The packets from the first one on, numbered from 1.\<close>

definition numbered_on :: "'e packet list \<Rightarrow> bool" where
  "numbered_on ps \<longleftrightarrow> map pk_index ps = map (\<lambda>i. 1 + of_nat i) [0..<length ps] \<and> length ps < 2 ^ 31"

lemma length_kept [simp]: "length (kept ps) = queue_size"
proof -
  have "length (fold ring_add ps q) = length q" for q by (induction ps arbitrary: q) (simp_all add: ring_add_def)
  then show ?thesis by (simp add: kept_def)
qed

lemma small_index:
  assumes "pk_index p = 1 + of_nat n" "n < 2 ^ 31 - 1"
  shows "Index p = int (n + 1)" "queue_slot (pk_index p) = (n + 1) mod queue_size"
proof -
  have u: "unat (of_nat (n + 1) :: u32) = n + 1" using assms(2) by (simp add: unat_of_nat take_bit_nat_eq_self del: of_nat_add of_nat_Suc)
  have i: "pk_index p = of_nat (n + 1)" using assms(1) by simp
  have s: "sint (of_nat (n + 1) :: u32) = int (n + 1)"
    using assms(2) u by (simp add: sint_unat_small del: of_nat_add of_nat_Suc)
  then show "Index p = int (n + 1)" unfolding Index_def i .
  have "scast (of_nat (n + 1) :: u32) = (of_nat (n + 1) :: u64)"
    using s by (metis of_int_of_nat_eq of_int_sint)
  moreover have "unat (of_nat (n + 1) :: u64) = n + 1"
    using assms(2) by (simp add: unat_of_nat take_bit_nat_eq_self del: of_nat_add of_nat_Suc)
  ultimately show "queue_slot (pk_index p) = (n + 1) mod queue_size" unfolding queue_slot_def i by simp
qed

lemma numbered_on_snoc:
  "numbered_on (ps @ [p]) \<Longrightarrow> numbered_on ps \<and> pk_index p = 1 + of_nat (length ps) \<and> length ps < 2 ^ 31 - 1"
  by (auto simp: numbered_on_def)

lemma ring_get_kept:
  "numbered_on ps \<Longrightarrow> ring_get i (kept ps) =
     (if 1 \<le> unat i \<and> unat i \<le> length ps \<and> length ps < unat i + queue_size then Some (ps ! (unat i - 1)) else None)"
proof (induction ps rule: rev_induct)
  case Nil
  have "unat i mod queue_size < queue_size" by (simp add: queue_size_def)
  then show ?case by (simp add: ring_get_def kept_def)
next
  case (snoc p ps)
  note old = numbered_on_snoc [OF snoc.prems]
  let ?n = "length ps" and ?j = "unat i"
  note idx = small_index [of p ?n, OF conjunct1 [OF conjunct2 [OF old]] conjunct2 [OF conjunct2 [OF old]]]
  have add: "kept (ps @ [p]) = (kept ps)[(?n + 1) mod queue_size := Some p]" by (simp add: kept_def ring_add_def idx(2))
  have m: "(?n + 1) mod queue_size < queue_size" "?j mod queue_size < queue_size" by (simp_all add: queue_size_def)
  show ?case
  proof (cases "?j mod queue_size = (?n + 1) mod queue_size")
    case True
    have "?j \<le> ?n + 1 \<and> ?n + 1 < ?j + queue_size \<longleftrightarrow> ?j = ?n + 1"
    proof -
      have "(?n + 1 - ?j) mod queue_size = 0" if "?j \<le> ?n + 1" using True that by (metis mod_eq_dvd_iff_nat dvd_imp_mod_0)
      then show ?thesis by (auto simp: queue_size_def)
    qed
    moreover have "ring_get i (kept (ps @ [p])) = (if ?n + 1 = ?j then Some p else None)"
    proof -
      have "ring_get i (kept (ps @ [p])) = (if Index p = int ?j then Some p else None)"
        unfolding ring_get_def add using True m by simp
      then show ?thesis by (simp only: idx(1) of_nat_eq_iff)
    qed
    ultimately show ?thesis by (auto simp: nth_append)
  next
    case False
    then have "ring_get i (kept (ps @ [p])) = ring_get i (kept ps)" unfolding ring_get_def add using m by simp
    moreover have "?j \<noteq> ?n + 1" "?n + 1 \<noteq> ?j + queue_size" using False by auto
    ultimately show ?thesis using snoc.IH old by (auto simp: nth_append)
  qed
qed

text \<open>What the ring can send again. When packets are kept as they are numbered, from 1 on, asking for a
  sequence number gives exactly the packet of that number if it is one of the last 500.\<close>

theorem ring_answers:
  assumes "numbered_on ps"
  shows "ring_get i (kept ps) =
    (if 1 \<le> unat i \<and> unat i \<le> length ps \<and> length ps < unat i + 500 then Some (ps ! (unat i - 1)) else None)"
  using ring_get_kept [OF assms] by (simp add: queue_size_def)

text \<open>Retransmission ends for good when the 16-bit sequence numbers have wrapped around: the packets are
  kept under their whole numbers, and once 66035 of them have been kept no number a receiver can ask for finds one.\<close>

theorem ring_empty_after_wrap:
  assumes "numbered_on ps" "66035 \<le> length ps"
  shows "ring_get i (kept ps) = None"
proof -
  have "unat i < 65536" using unsigned_less [of i, where ?'a = nat] by simp
  then have "unat i + queue_size \<le> length ps" using assms(2) by (simp add: queue_size_def)
  then show ?thesis using ring_get_kept [OF assms(1), of i] by simp
qed

definition kept_demo :: "nat \<Rightarrow> unit packet list" where
  "kept_demo n = map (\<lambda>k. \<lparr>pk_type = 1, pk_size = 0, pk_index = 1 + of_nat k, pk_timestamp = 0, pk_capacity = 0, pk_data = [], pk_ext = None\<rparr>) [0..<n]"

lemma kept_demo_numbered: "n < 2 ^ 31 \<Longrightarrow> numbered_on (kept_demo n)" "length (kept_demo n) = n"
  by (simp_all add: numbered_on_def kept_demo_def)

lemma ring_answers_witness:
  "ring_get 501 (kept (kept_demo 1000)) = Some (kept_demo 1000 ! 500) \<and> ring_get 500 (kept (kept_demo 1000)) = None"
  using ring_answers [OF kept_demo_numbered(1) [of 1000]] by (simp add: kept_demo_numbered(2))

lemma ring_empty_after_wrap_witness: "ring_get 34 (kept (kept_demo 66035)) = None"
  by (rule ring_empty_after_wrap) (simp_all add: kept_demo_numbered)

section \<open>A session\<close>

definition same_media :: "('a, 'o, 's, 'e) webrtc_user \<Rightarrow> ('a, 'o, 's, 'e) webrtc_user \<Rightarrow> bool" where
  "same_media u u' \<longleftrightarrow> video_queue u' = video_queue u \<and> audio_queue u' = audio_queue u \<and> wu_muxer u' = wu_muxer u \<and> dtls_done u' = dtls_done u"

lemma same_media_trans: "same_media u v \<Longrightarrow> same_media v w \<Longrightarrow> same_media u w"
  by (simp add: same_media_def)

lemma protect_all_keeps:
  "protect_all lib outs u result = Inr (u', result') \<Longrightarrow>
     video_queue u' = fold ring_add (filter (\<lambda>p. \<not> IsAudio p) outs) (video_queue u) \<and>
     audio_queue u' = fold ring_add (filter IsAudio outs) (audio_queue u) \<and> wu_muxer u' = wu_muxer u \<and> dtls_done u' = dtls_done u"
proof (induction outs arbitrary: u result)
  case (Cons p ps)
  let ?u = "if IsAudio p then AddAudio p u else AddVideo p u"
  obtain np s where np: "RtpProtect lib p (wu_srtp ?u) = Inr (np, s)" using Cons.prems by (auto simp: Let_def elim!: bindE_InrE)
  obtain u1 res where 1: "protect_all lib ps u1 res = Inr (u', result')" "same_media ?u u1"
    using Cons.prems np by (cases np) (auto simp: Let_def same_media_def split: if_splits)
  from Cons.IH [OF 1(1)] 1(2) show ?case by (auto simp: same_media_def AddAudio_def AddVideo_def split: if_splits)
qed simp

lemma SendSR_keeps: "SendSR lib now usec b u = Inr u' \<Longrightarrow> same_media u u'"
  by (auto simp: SendSR_def SendPackets_def Let_def same_media_def elim!: bindE_InrE split: if_splits option.splits)

lemma CheckSR_keeps: "CheckSR lib now usec u = Inr u' \<Longrightarrow> same_media u u'"
  using SendSR_keeps same_media_trans by (fastforce simp: CheckSR_def elim!: bindE_InrE)

lemma protect_again_keeps: "protect_again lib ps u result = Inr (u', result') \<Longrightarrow> same_media u u'"
proof (induction ps arbitrary: u result)
  case (Cons p ps)
  then obtain u1 r1 where "protect_again lib ps u1 r1 = Inr (u', result')" "same_media u u1"
    by (auto simp: same_media_def elim!: bindE_InrE)
  then show ?case using Cons.IH same_media_trans by blast
qed (simp add: same_media_def)

lemma OnRtcp_keeps:
  assumes "OnRtcp lib buf u = Inr u'"
  shows "same_media u u'"
proof -
  obtain np :: "'d packet option" and s where np: "SrtcpUnprotect lib buf (wu_srtp u) = Inr (np, s)"
    using assms by (auto simp: OnRtcp_def elim!: bindE_InrE)
  show ?thesis
  proof (cases np)
    case None
    then show ?thesis using assms np by (auto simp: OnRtcp_def same_media_def)
  next
    case (Some p)
    then have "u' = u\<lparr>wu_srtp := s\<rparr> \<or> ProcessRtpfb lib (pk_data p) (unat (scast (pk_size p) :: u64)) (u\<lparr>wu_srtp := s\<rparr>) = Inr u'"
      using assms np by (auto simp: OnRtcp_def Let_def elim!: bindE_InrE split: if_splits)
    then show ?thesis
    proof
      assume "ProcessRtpfb lib (pk_data p) (unat (scast (pk_size p) :: u64)) (u\<lparr>wu_srtp := s\<rparr>) = Inr u'"
      then obtain ps u1 result where "protect_again lib ps (u\<lparr>wu_srtp := s\<rparr>) [] = Inr (u1, result)"
          "u' = (if result \<noteq> [] then SendPackets result u1 else u1)"
        by (auto simp: ProcessRtpfb_def elim!: bindE_InrE)
      then show ?thesis using protect_again_keeps [of lib ps "u\<lparr>wu_srtp := s\<rparr>" "[]" u1 result]
        by (auto simp: same_media_def SendPackets_def)
    qed (simp add: same_media_def)
  qed
qed

text \<open>The life of a player from the end of the DTLS handshake: frames are posted and control packets arrive, in any order;
  \<open>vs\<close> and \<open>as\<close> are the packets of video and audio made so far.\<close>

inductive webrtc_run :: "('a, 'o) codecs \<Rightarrow> 's srtp_lib \<Rightarrow> 'e packet list \<Rightarrow> 'e packet list \<Rightarrow> ('a, 'o, 's, 'e) webrtc_user \<Rightarrow> bool"
  for cd lib where
  connected: "webrtc_run cd lib [] [] (OnDtlsHandshakeDone s vpt apt vssrc assrc g g' (WebrtcPlayerUser_new v addr s0 x))"
| posted: "webrtc_run cd lib vs as u \<Longrightarrow> ready s \<Longrightarrow> HasMedia s \<Longrightarrow> encode_due cd info now s u = Inr (outs, u1) \<Longrightarrow>
    WebrtcPlayerUser_PostFrames cd lib info now ms usec s u = Inr (b, u') \<Longrightarrow>
    webrtc_run cd lib (vs @ filter (\<lambda>p. \<not> IsAudio p) outs) (as @ filter IsAudio outs) u'"
| control: "webrtc_run cd lib vs as u \<Longrightarrow> OnRtcp lib buf u = Inr u' \<Longrightarrow> webrtc_run cd lib vs as u'"

definition webrtc_inv :: "'e packet list \<Rightarrow> 'e packet list \<Rightarrow> ('a, 'o, 's, 'e) webrtc_user \<Rightarrow> bool" where
  "webrtc_inv vs as u \<longleftrightarrow> dtls_done u \<and> video_queue u = kept vs \<and> audio_queue u = kept as \<and>
     map pk_index vs = map (\<lambda>i. 1 + of_nat i) [0..<length vs] \<and> rtp_sequence (rm_video (wu_muxer u)) = of_nat (length vs) \<and>
     map pk_index as = map (\<lambda>i. 1 + of_nat i) [0..<length as] \<and> rtp_sequence (rm_audio (wu_muxer u)) = of_nat (length as)"

lemma kept_more: "fold ring_add qs (kept ps) = kept (ps @ qs)" by (simp add: kept_def)

lemma emits_on:
  assumes "map pk_index ps = map (\<lambda>i. 1 + of_nat i) [0..<length ps]" "rtp_sequence r = of_nat (length ps)" "emits kind r qs r'"
  shows "map pk_index (ps @ qs) = map (\<lambda>i. 1 + of_nat i) [0..<length (ps @ qs)] \<and> rtp_sequence r' = of_nat (length (ps @ qs))"
proof -
  have "[0..<m + n] = [0..<m] @ map (\<lambda>i. m + i) [0..<n]" for m n by (induction n) simp_all
  then have "[0..<length (ps @ qs)] = [0..<length ps] @ map (\<lambda>i. length ps + i) [0..<length qs]" by simp
  then show ?thesis using assms by (simp add: emits_def ac_simps)
qed

lemma webrtc_runs: "webrtc_run cd lib vs as u \<Longrightarrow> webrtc_inv vs as u"
proof (induction rule: webrtc_run.induct)
  case (connected s vpt apt vssrc assrc g g' v addr s0 x)
  show ?case
    by (simp add: webrtc_inv_def OnDtlsHandshakeDone_def WebrtcPlayerUser_new_def kept_def RtpMuxer_Init_def RtpH264_new_def
        RtpOpus_new_def Rtp_new_def)
next
  case (posted vs as u s info now outs u1 ms usec b u')
  obtain v x1 outs1 x2 got where e: "header_packets cd v (wu_muxer u) = Inr (outs1, x1)"
      "encode_frames_of cd (out_frames v) (got_key_frame u) x1 outs1 = Inr (got, x2, outs)" "wu_muxer u1 = x2"
      "video_queue u1 = video_queue u" "audio_queue u1 = audio_queue u" "dtls_done u1 = dtls_done u"
    using posted.hyps(4) by (auto simp: encode_due_def elim!: bindE_InrE)
  have made: "makes (wu_muxer u) outs (wu_muxer u1)"
    using header_packets_makes [OF e(1)] encode_frames_makes [OF e(2)] makes_append unfolding e(3) by blast
  have inv: "webrtc_inv vs as u" by (rule posted.IH)
  have "video_queue u' = fold ring_add (filter (\<lambda>p. \<not> IsAudio p) outs) (video_queue u1) \<and>
      audio_queue u' = fold ring_add (filter IsAudio outs) (audio_queue u1) \<and> wu_muxer u' = wu_muxer u1 \<and> dtls_done u' = dtls_done u1"
  proof (cases "outs = []")
    case True
    then show ?thesis using posted.hyps inv by (auto simp: WebrtcPlayerUser_PostFrames_def webrtc_inv_def)
  next
    case False
    then obtain u2 result where 2: "protect_all lib outs u1 [] = Inr (u2, result)" "CheckSR lib ms usec (SendPackets result u2) = Inr u'"
      using posted.hyps inv by (auto simp: WebrtcPlayerUser_PostFrames_def webrtc_inv_def elim!: bindE_InrE)
    show ?thesis using protect_all_keeps [OF 2(1)] CheckSR_keeps [OF 2(2)] by (simp add: same_media_def SendPackets_def)
  qed
  note q = this
  have nv: "map pk_index vs = map (\<lambda>i. 1 + of_nat i) [0..<length vs]" "rtp_sequence (rm_video (wu_muxer u)) = of_nat (length vs)"
    and na: "map pk_index as = map (\<lambda>i. 1 + of_nat i) [0..<length as]" "rtp_sequence (rm_audio (wu_muxer u)) = of_nat (length as)"
    and qs: "video_queue u = kept vs" "audio_queue u = kept as" "dtls_done u"
    using inv unfolding webrtc_inv_def by blast+
  note v = emits_on [OF nv conjunct1 [OF made [unfolded makes_def]]]
    and a = emits_on [OF na conjunct2 [OF made [unfolded makes_def]]]
  show ?case using v a q e(4-6) qs unfolding webrtc_inv_def by (simp only: kept_more)
next
  case (control vs as u buf u')
  then show ?case using OnRtcp_keeps by (fastforce simp: webrtc_inv_def same_media_def)
qed

text \<open>A viewer can have any recent packet again. In every state a player over WebRTC can reach, asking for a
  sequence number of video or audio gives exactly the packet of that number, as it was first
  made, when it is one of the last 500 of its kind; the player never mixes up packets or kinds. (As long as fewer
  than \<open>2 ^ 31\<close> have been made.)\<close>

theorem retransmission:
  assumes "webrtc_run cd lib vs as u" "length vs < 2 ^ 31" "length as < 2 ^ 31"
  shows "GetVideo i u = (if 1 \<le> unat i \<and> unat i \<le> length vs \<and> length vs < unat i + 500 then Some (vs ! (unat i - 1)) else None) \<and>
    GetAudio i u = (if 1 \<le> unat i \<and> unat i \<le> length as \<and> length as < unat i + 500 then Some (as ! (unat i - 1)) else None)"
proof -
  have inv: "webrtc_inv vs as u" by (rule webrtc_runs [OF assms(1)])
  then have n: "numbered_on vs" "numbered_on as" and q: "video_queue u = kept vs" "audio_queue u = kept as"
    using assms(2,3) by (auto simp: webrtc_inv_def numbered_on_def)
  show ?thesis unfolding GetVideo_def GetAudio_def q
    using ring_get_kept [OF n(1), of i] ring_get_kept [OF n(2), of i] unfolding queue_size_def by (intro conjI)
qed

section \<open>What is sent\<close>

text \<open>What libsrtp makes of one packet after the other.\<close>

fun protect_run :: "(byte list \<Rightarrow> 's \<Rightarrow> byte list option \<times> 's) \<Rightarrow> byte list list \<Rightarrow> 's \<Rightarrow> byte list option list \<times> 's" where
  "protect_run f [] s = ([], s)"
| "protect_run f (b # bs) s = (case f b s of (c, s) \<Rightarrow> (case protect_run f bs s of (cs, s) \<Rightarrow> (c # cs, s)))"

text \<open>The documentation of libsrtp: a packet grows by at most the trailer.\<close>

definition srtp_bounded :: "'s srtp_lib \<Rightarrow> bool" where
  "srtp_bounded lib \<longleftrightarrow> 0 \<le> srtp_trailer lib \<and>
     (\<forall>bs s out s'. srtp_protect lib bs s = (Some out, s') \<longrightarrow> int (length out) \<le> int (length bs) + srtp_trailer lib) \<and>
     (\<forall>bs s out s'. srtp_protect_rtcp lib bs s = (Some out, s') \<longrightarrow> int (length out) \<le> int (length bs) + srtp_trailer lib)"

lemma fresh_packet_ok:
  assumes "length bs < 2 ^ 31"
  shows "\<exists>p :: 'e packet. fresh_packet bs = Inr p \<and> packet_ok p \<and> body p = bs \<and> pk_data p = bs \<and> pk_size p = of_nat (length bs)"
proof -
  obtain p0 :: "'e packet" where p0: "NewPacket (int (length bs)) = Inr p0" "packet_ok p0" "unat (pk_capacity p0) = length bs"
    using NewPacket_ok [of "int (length bs)"] assms by auto
  then have len: "length (pk_data p0) = length bs" by (simp add: packet_ok_def)
  then have "overwrite 0 bs (pk_data p0) = bs" by (simp add: overwrite_def)
  then have f: "fresh_packet bs = Inr (SetPacketSize (length bs) (p0\<lparr>pk_data := bs\<rparr>))"
    using p0(1) len by (simp add: fresh_packet_def write_data_def del: bindE_eq_Inr)
  have n: "unat (of_nat (length bs) :: u32) = length bs" using assms by (simp add: unat_of_nat take_bit_nat_eq_self)
  then show ?thesis using f p0(3) assms
    by (intro exI [of _ "SetPacketSize (length bs) (p0\<lparr>pk_data := bs\<rparr>)"])
      (simp add: packet_ok_def body_def SetPacketSize_def word_le_nat_alt)
qed

definition small_for :: "'s srtp_lib \<Rightarrow> 'e packet \<Rightarrow> bool" where
  "small_for lib p \<longleftrightarrow> packet_ok p \<and> int (length (body p)) + srtp_trailer lib < kSrtpMaxBufferSize"

lemma protect_with_ok:
  assumes "small_for lib (p :: 'e packet)" "f (body p) s = (c, s')" "\<And>out. c = Some out \<Longrightarrow> length out < 2 ^ 31"
  shows "\<exists>np :: 'e packet option. protect_with f (srtp_trailer lib) p s = Inr (np, s') \<and> map_option body np = c"
proof -
  have p: "packet_ok p" "int (length (body p)) + srtp_trailer lib < kSrtpMaxBufferSize" using assms(1) by (simp_all add: small_for_def)
  then have l: "unat (pk_size p) \<le> length (pk_data p)" by (simp add: packet_ok_def word_le_nat_alt)
  then have "length (body p) = unat (pk_size p)" by (simp add: body_def)
  then have r: "\<not> kSrtpMaxBufferSize \<le> PacketSize p + srtp_trailer lib" "mem_read (nat (PacketSize p)) (pk_data p) = Inr (body p)"
    using p PacketSize_ok [OF p(1)] l by (simp_all add: body_def)
  show ?thesis
  proof (cases c)
    case None
    then show ?thesis using r assms(2) by (simp add: protect_with_def del: bindE_eq_Inr)
  next
    case (Some out)
    obtain q :: "'e packet" where "fresh_packet out = Inr q" "body q = out" using fresh_packet_ok [OF assms(3) [OF Some]] by blast
    then show ?thesis using r assms(2) Some by (intro exI [of _ "Some q"]) (simp add: protect_with_def del: bindE_eq_Inr)
  qed
qed

lemma RtpProtect_ok:
  assumes "small_for lib (p :: 'e packet)" "srtp_bounded lib" "srtp_protect lib (body p) s = (c, s')"
  shows "\<exists>np :: 'e packet option. RtpProtect lib p s = Inr (np, s') \<and> map_option body np = c"
proof -
  have "length out < 2 ^ 31" if "c = Some out" for out
  proof -
    have "int (length out) \<le> int (length (body p)) + srtp_trailer lib" using assms(2,3) unfolding srtp_bounded_def that by blast
    then show ?thesis using assms(1) by (simp add: small_for_def kSrtpMaxBufferSize_def)
  qed
  from protect_with_ok [where f = "srtp_protect lib", OF assms(1,3) this] show ?thesis unfolding RtpProtect_def by blast
qed

lemma RtcpProtect_ok:
  assumes "small_for lib (p :: 'e packet)" "srtp_bounded lib" "srtp_protect_rtcp lib (body p) s = (c, s')"
  shows "\<exists>np :: 'e packet option. RtcpProtect lib p s = Inr (np, s') \<and> map_option body np = c"
proof -
  have "length out < 2 ^ 31" if "c = Some out" for out
  proof -
    have "int (length out) \<le> int (length (body p)) + srtp_trailer lib" using assms(2,3) unfolding srtp_bounded_def that by blast
    then show ?thesis using assms(1) by (simp add: small_for_def kSrtpMaxBufferSize_def)
  qed
  from protect_with_ok [where f = "srtp_protect_rtcp lib", OF assms(1,3) this] show ?thesis unfolding RtcpProtect_def by blast
qed

text \<open>All packets go through libsrtp in order, and what it makes of them is sent to the viewer's address.\<close>

lemma protect_all_sends:
  assumes "list_all (small_for lib) ps" "srtp_bounded lib" "protect_run (srtp_protect lib) (map body ps) (wu_srtp u) = (cs, s')"
  shows "\<exists>u' qs. protect_all lib ps u result = Inr (u', result @ qs) \<and> wu_srtp u' = s' \<and> map body qs = List.map_filter (\<lambda>c. c) cs \<and>
    list_all (\<lambda>q. pk_ext q = wu_addr u) qs \<and> wu_addr u' = wu_addr u \<and> wu_sent u' = wu_sent u"
  using assms(1,3)
proof (induction ps arbitrary: u result cs)
  case Nil
  then show ?case by (simp add: map_filter_simps)
next
  case (Cons p ps)
  let ?u = "if IsAudio p then AddAudio p u else AddVideo p u"
  have k: "wu_srtp ?u = wu_srtp u" "wu_addr ?u = wu_addr u" "wu_sent ?u = wu_sent u" by (simp_all add: AddAudio_def AddVideo_def)
  obtain c s1 cs1 where c: "srtp_protect lib (body p) (wu_srtp u) = (c, s1)" "cs = c # cs1"
      "protect_run (srtp_protect lib) (map body ps) s1 = (cs1, s')"
    using Cons.prems(2) by (auto split: prod.splits)
  obtain np where np: "RtpProtect lib p (wu_srtp u) = Inr (np, s1)" "map_option body np = c"
    using RtpProtect_ok [OF _ assms(2) c(1)] Cons.prems(1) by auto
  define u1 where "u1 = (case np of None \<Rightarrow> ?u\<lparr>wu_srtp := s1\<rparr> | Some q \<Rightarrow>
      (if IsAudio p then ?u\<lparr>wu_srtp := s1, audio_out_bytes := audio_out_bytes ?u + pk_size q, audio_out_pkts_count := audio_out_pkts_count ?u + 1\<rparr>
       else ?u\<lparr>wu_srtp := s1, video_out_bytes := video_out_bytes ?u + pk_size q, video_out_pkts_count := video_out_pkts_count ?u + 1\<rparr>))"
  define qs1 where "qs1 = (case np of None \<Rightarrow> [] | Some q \<Rightarrow> [q\<lparr>pk_ext := wu_addr u\<rparr>])"
  have u1: "wu_srtp u1 = s1" "wu_addr u1 = wu_addr u" "wu_sent u1 = wu_sent u"
    by (auto simp: u1_def AddAudio_def AddVideo_def split: option.split)
  have step: "protect_all lib (p # ps) u result = protect_all lib ps u1 (result @ qs1)"
    using np(1) by (cases np) (simp_all add: u1_def qs1_def k AddAudio_def AddVideo_def Let_def del: bindE_eq_Inr)
  have qs1: "map body qs1 @ xs = List.map_filter (\<lambda>c. c) (c # cs1)" if "xs = List.map_filter (\<lambda>c. c) cs1" for xs
    using np(2) that by (cases np) (auto simp: qs1_def map_filter_simps body_def)
  have "list_all (\<lambda>q. pk_ext q = wu_addr u) qs1" by (simp add: qs1_def split: option.split)
  moreover obtain u' qs where 2: "protect_all lib ps u1 (result @ qs1) = Inr (u', (result @ qs1) @ qs)" "wu_srtp u' = s'"
      "map body qs = List.map_filter (\<lambda>c. c) cs1" "list_all (\<lambda>q. pk_ext q = wu_addr u) qs" "wu_addr u' = wu_addr u" "wu_sent u' = wu_sent u"
    using Cons.IH [of u1 cs1 "result @ qs1"] Cons.prems(1) c(3) unfolding u1 by auto
  ultimately show ?case unfolding step using qs1 [OF 2(3)] c(2) by (intro exI [of _ u'] exI [of _ "qs1 @ qs"]) simp
qed

text \<open>The same for packets that are sent again.\<close>

lemma protect_again_sends:
  assumes "list_all (small_for lib) ps" "srtp_bounded lib" "protect_run (srtp_protect lib) (map body ps) (wu_srtp u) = (cs, s')"
  shows "\<exists>qs. protect_again lib ps u result = Inr (u\<lparr>wu_srtp := s'\<rparr>, result @ qs) \<and> map body qs = List.map_filter (\<lambda>c. c) cs \<and>
    list_all (\<lambda>q. pk_ext q = wu_addr u) qs"
  using assms(1,3)
proof (induction ps arbitrary: u result cs)
  case Nil
  then show ?case by (simp add: map_filter_simps)
next
  case (Cons p ps)
  obtain c s1 cs1 where c: "srtp_protect lib (body p) (wu_srtp u) = (c, s1)" "cs = c # cs1"
      "protect_run (srtp_protect lib) (map body ps) s1 = (cs1, s')"
    using Cons.prems(2) by (auto split: prod.splits)
  obtain np where np: "RtpProtect lib p (wu_srtp u) = Inr (np, s1)" "map_option body np = c"
    using RtpProtect_ok [OF _ assms(2) c(1)] Cons.prems(1) by auto
  define qs1 where "qs1 = (case np of None \<Rightarrow> [] | Some q \<Rightarrow> [q\<lparr>pk_ext := wu_addr u\<rparr>])"
  have step: "protect_again lib (p # ps) u result = protect_again lib ps (u\<lparr>wu_srtp := s1\<rparr>) (result @ qs1)"
    using np(1) by (cases np) (simp_all add: qs1_def del: bindE_eq_Inr)
  have qs1: "map body qs1 @ xs = List.map_filter (\<lambda>c. c) (c # cs1)" "list_all (\<lambda>q. pk_ext q = wu_addr u) qs1"
    if "xs = List.map_filter (\<lambda>c. c) cs1" for xs
    using np(2) that by (cases np; auto simp: qs1_def map_filter_simps body_def)+
  obtain qs where "protect_again lib ps (u\<lparr>wu_srtp := s1\<rparr>) (result @ qs1) = Inr (u\<lparr>wu_srtp := s'\<rparr>, (result @ qs1) @ qs)"
      "map body qs = List.map_filter (\<lambda>c. c) cs1" "list_all (\<lambda>q. pk_ext q = wu_addr u) qs"
    using Cons.IH [of "u\<lparr>wu_srtp := s1\<rparr>" cs1 "result @ qs1"] Cons.prems(1) c(3) by auto
  then show ?case unfolding step using qs1 c(2) by (intro exI [of _ "qs1 @ qs"]) simp
qed

text \<open>The packets of a kind that can be had again, by their number.\<close>

definition recent :: "'e packet list \<Rightarrow> u16 \<Rightarrow> 'e packet option" where
  "recent ps i = (if 1 \<le> unat i \<and> unat i \<le> length ps \<and> length ps < unat i + 500 then Some (ps ! (unat i - 1)) else None)"

lemma recent_kept: "numbered_on ps \<Longrightarrow> ring_get i (kept ps) = recent ps i"
  using ring_get_kept [of ps i] by (simp add: recent_def queue_size_def)

lemma map_filter_recent: "numbered_on ps \<Longrightarrow> List.map_filter (\<lambda>l. ring_get l (kept ps)) ls = List.map_filter (recent ps) ls"
  by (induction ls) (simp_all add: map_filter_simps recent_kept)

lemma recent_small: "list_all P ps \<Longrightarrow> list_all P (List.map_filter (recent ps) ls)"
  by (auto simp: List.map_filter_def list_all_iff recent_def split: if_splits)

text \<open>In one half of the circle an ascending list is given by its elements.\<close>

lemma half_sorted_unique:
  assumes "list_all (in_half b) xs" "sorted_wrt SeqCmp xs" "sorted_wrt SeqCmp ys" "set xs = set ys"
  shows "ys = xs"
proof -
  let ?key = "\<lambda>x. unat (x - b)"
  have key: "sorted_wrt (<) (map ?key zs)" if "set zs = set xs" "sorted_wrt SeqCmp zs" for zs
    unfolding sorted_wrt_map using that(2)
    by (rule sorted_wrt_mono_rel [rotated]) (use assms(1) that(1) SeqCmp_half [of b] in \<open>auto simp: list_all_iff\<close>)
  have "map ?key ys = map ?key xs"
    by (rule strict_sorted_equal [OF key [OF refl assms(2)] key [OF assms(4) [symmetric] assms(3)]]) (simp add: assms(4))
  moreover have "inj ?key" by (rule injI) (simp add: word_unat_eq_iff [symmetric])
  ultimately show ?thesis by (simp add: inj_map_eq_map)
qed

text \<open>C6: A negative acknowledgement is answered. In every state a player over WebRTC can reach, when the
  viewer reports packets of the video as lost, and its message comes through SRTP, what is sent to it are the packets that it named and that
  are among the last 500, each once, as they were first made, from the oldest to the newest, each protected anew; the player
  is otherwise unchanged. (The numbers named lie in one half of the circle, the packets are below the size libsrtp
  is given, less than \<open>2 ^ 31\<close> of them have been made. \<open>recent\<close> compares the number that was named with the number of
  the packet in full: as the theorem \<open>ring_empty_after_wrap\<close> shows, nothing can be had again once 66035 packets have been made.)\<close>

theorem nack_answered:
  assumes "webrtc_run cd lib vs as u" "length vs < 2 ^ 31" "length as < 2 ^ 31" "list_all (small_for lib) vs" "srtp_bounded lib"
    and "rtp_ssrc (rm_audio (wu_muxer u)) \<noteq> rtp_ssrc (rm_video (wu_muxer u))" "list_all (in_half b) (concat (map nack_seqs es))"
    and "length es < 2 ^ 12" "length buf < 65535" "1 < length buf" "buf ! 1 = 205"
    and "srtp_unprotect_rtcp lib buf (wu_srtp u) = (Some (nack_message src (rtp_ssrc (rm_video (wu_muxer u))) es), s1)"
    and "set lost = set (concat (map nack_seqs es))" "sorted_wrt SeqCmp lost"
    and "protect_run (srtp_protect lib) (map body (List.map_filter (recent vs) lost)) s1 = (cs, s2)"
  shows "\<exists>qs. OnRtcp lib buf u = Inr (u\<lparr>wu_srtp := s2, wu_sent := wu_sent u @ qs\<rparr>) \<and> map body qs = List.map_filter (\<lambda>c. c) cs \<and>
    list_all (\<lambda>q. pk_ext q = wu_addr u) qs"
proof -
  let ?m = "nack_message src (rtp_ssrc (rm_video (wu_muxer u))) es" and ?u = "u\<lparr>wu_srtp := s1\<rparr>"
  have inv: "webrtc_inv vs as u" by (rule webrtc_runs [OF assms(1)])
  then have n: "numbered_on vs" and q: "video_queue u = kept vs" using assms(2) by (auto simp: webrtc_inv_def numbered_on_def)
  have len: "length ?m = 12 + 4 * length es" by (simp add: nack_message_def nack_bytes_def length_concat WriteUint16T_def comp_def sum_list_triv)
  have small: "\<not> kSrtpMaxBufferSize \<le> to_int (length buf)" "\<not> kSrtpMaxBufferSize < int (length buf)"
    using assms(9) by (simp_all add: kSrtpMaxBufferSize_def to_int_small)
  obtain p :: "'d packet" where p: "fresh_packet ?m = Inr p" "pk_data p = ?m" "pk_size p = of_nat (length ?m)"
    using fresh_packet_ok [of ?m] assms(8) len by auto
  have un: "SrtcpUnprotect lib buf (wu_srtp u) = Inr (Some p, s1)"
    using small assms(12) p(1) by (simp add: SrtcpUnprotect_def del: bindE_eq_Inr)
  have size: "unat (scast (pk_size p) :: u64) = length ?m"
    by (rule packet_size_small(2) [OF p(3)]) (use assms(8) len in simp)
  obtain f where f: "Rtpfb_Decode ?m (length ?m) Rtpfb_new = Inr f" "fb_media_ssrc f = rtp_ssrc (rm_video (wu_muxer u))"
      "set (fb_lost_seqs f) = set (concat (map nack_seqs es))" "sorted_wrt SeqCmp (fb_lost_seqs f)"
    using nack_decoded [OF assms(7)] by blast
  have "list_all (in_half b) lost" using assms(7,13) by (auto simp: list_all_iff)
  then have same: "fb_lost_seqs f = lost" using half_sorted_unique [OF _ assms(14) f(4)] f(3) assms(13) by simp
  have dec: "Rtpfb_Decode (pk_data p) (length ?m) Rtpfb_new = Inr f" using f(1) p(2) by simp
  have lost: "lost_packets f ?u = List.map_filter (recent vs) lost"
    using f(2) assms(6) by (simp add: lost_packets_def GetVideo_def q map_filter_recent [OF n] same)
  have run: "protect_run (srtp_protect lib) (map body (List.map_filter (recent vs) lost)) (wu_srtp ?u) = (cs, s2)"
    using assms(15) by simp
  obtain qs where qs: "protect_again lib (List.map_filter (recent vs) lost) ?u [] = Inr (?u\<lparr>wu_srtp := s2\<rparr>, [] @ qs)"
      "map body qs = List.map_filter (\<lambda>c. c) cs" "list_all (\<lambda>q. pk_ext q = wu_addr ?u) qs"
    using protect_again_sends [OF recent_small [OF assms(4)] assms(5) run, of "[]"] by auto
  have "ProcessRtpfb lib (pk_data p) (unat (scast (pk_size p) :: u64)) ?u = Inr (u\<lparr>wu_srtp := s2, wu_sent := wu_sent u @ qs\<rparr>)"
    using dec qs(1) by (cases "qs = []") (simp_all add: ProcessRtpfb_def size lost SendPackets_def del: bindE_eq_Inr)
  then have "OnRtcp lib buf u = Inr (u\<lparr>wu_srtp := s2, wu_sent := wu_sent u @ qs\<rparr>)"
    using un assms(10,11) by (simp add: OnRtcp_def element_def kRtcpPtRtpfb_def Let_def del: bindE_eq_Inr)
  then show ?thesis using qs(2,3) by auto
qed

section \<open>A frame for the viewer\<close>

text \<open>Reports never fail, and are sent when libsrtp takes them.\<close>

lemma SendSR_ok:
  assumes "srtp_bounded lib" "28 + srtp_trailer lib < 65535"
  shows "\<exists>u' rs. SendSR lib now usec b u = Inr u' \<and> wu_sent u' = wu_sent u @ rs \<and> length rs \<le> 1 \<and> wu_addr u' = wu_addr u \<and>
    list_all (\<lambda>q. pk_ext q = wu_addr u) rs"
proof (cases "now - (if b then video_sr_timestamp u else audio_sr_timestamp u) < 3000")
  case True
  then show ?thesis by (intro exI [of _ u] exI [of _ "[]"]) (auto simp: SendSR_def)
next
  case False
  let ?r = "if b then rm_video (wu_muxer u) else rm_audio (wu_muxer u)"
  let ?sr = "(SetNtpTimestamp usec SenderReport_new)\<lparr>sr_ssrc := rtp_ssrc ?r, sr_rtp_timestamp := rtp_timestamp ?r,
                 sr_sent_bytes := (if b then video_out_bytes u else audio_out_bytes u),
                 sr_sent_pkt_cnt := (if b then video_out_pkts_count u else audio_out_pkts_count u)\<rparr>"
  obtain p :: "'d packet" where p: "SenderReport_Encode ?sr = Inr p" "packet_ok p" "length (body p) = 28"
    using report_packet by blast
  have "small_for lib p" using p assms(2) by (simp add: small_for_def kSrtpMaxBufferSize_def)
  then obtain np :: "'d packet option" and s where np: "RtcpProtect lib p (wu_srtp u) = Inr (np, s)"
    using RtcpProtect_ok [OF _ assms(1)] by (metis prod.exhaust)
  let ?u = "case np of None \<Rightarrow> u\<lparr>wu_srtp := s\<rparr> | Some q \<Rightarrow> SendPackets [q\<lparr>pk_ext := wu_addr (u\<lparr>wu_srtp := s\<rparr>)\<rparr>] (u\<lparr>wu_srtp := s\<rparr>)"
  have "SendSR lib now usec b u = Inr (if b then ?u\<lparr>video_sr_timestamp := now\<rparr> else ?u\<lparr>audio_sr_timestamp := now\<rparr>)"
    using False p(1) np by (simp add: SendSR_def Let_def del: bindE_eq_Inr)
  then show ?thesis
    by (intro exI [of _ "if b then ?u\<lparr>video_sr_timestamp := now\<rparr> else ?u\<lparr>audio_sr_timestamp := now\<rparr>"]
        exI [of _ "case np of None \<Rightarrow> [] | Some q \<Rightarrow> [q\<lparr>pk_ext := wu_addr u\<rparr>]"])
      (auto simp: SendPackets_def split: option.split)
qed

lemma CheckSR_ok:
  assumes "srtp_bounded lib" "28 + srtp_trailer lib < 65535"
  shows "\<exists>u' rs. CheckSR lib now usec u = Inr u' \<and> wu_sent u' = wu_sent u @ rs \<and> length rs \<le> 2 \<and> list_all (\<lambda>q. pk_ext q = wu_addr u) rs"
proof -
  obtain u1 rs1 where 1: "SendSR lib now usec True u = Inr u1" "wu_sent u1 = wu_sent u @ rs1" "length rs1 \<le> 1" "wu_addr u1 = wu_addr u"
      "list_all (\<lambda>q. pk_ext q = wu_addr u) rs1"
    using SendSR_ok [OF assms] by blast
  obtain u2 rs2 where 2: "SendSR lib now usec False u1 = Inr u2" "wu_sent u2 = wu_sent u1 @ rs2" "length rs2 \<le> 1"
      "list_all (\<lambda>q. pk_ext q = wu_addr u1) rs2"
    using SendSR_ok [OF assms] by blast
  show ?thesis using 1 2 by (intro exI [of _ u2] exI [of _ "rs1 @ rs2"]) (simp add: CheckSR_def del: bindE_eq_Inr)
qed

text \<open>What is encoded is sent.\<close>

lemma PostFrames_sends:
  assumes "ready s" "HasMedia s" "dtls_done u" "encode_due cd info now s u = Inr (outs, u1)" "outs \<noteq> []" "list_all (small_for lib) outs"
    and "srtp_bounded lib" "28 + srtp_trailer lib < 65535" "protect_run (srtp_protect lib) (map body outs) (wu_srtp u1) = (cs, s1)"
  shows "\<exists>u' qs reports. WebrtcPlayerUser_PostFrames cd lib info now ms usec s u = Inr (True, u') \<and>
    wu_sent u' = wu_sent u1 @ qs @ reports \<and> length reports \<le> 2 \<and> map body qs = List.map_filter (\<lambda>c. c) cs \<and>
    list_all (\<lambda>q. pk_ext q = wu_addr u1) (qs @ reports)"
proof -
  obtain u2 qs where 2: "protect_all lib outs u1 [] = Inr (u2, [] @ qs)" "map body qs = List.map_filter (\<lambda>c. c) cs"
      "list_all (\<lambda>q. pk_ext q = wu_addr u1) qs" "wu_addr u2 = wu_addr u1" "wu_sent u2 = wu_sent u1"
    using protect_all_sends [OF assms(6,7,9)] by blast
  obtain u3 rs where 3: "CheckSR lib ms usec (SendPackets qs u2) = Inr u3" "wu_sent u3 = wu_sent (SendPackets qs u2) @ rs" "length rs \<le> 2"
      "list_all (\<lambda>q. pk_ext q = wu_addr (SendPackets qs u2)) rs"
    using CheckSR_ok [OF assms(7,8)] by blast
  show ?thesis using assms(1-5) 2 3
    by (intro exI [of _ u3] exI [of _ qs] exI [of _ rs]) (simp add: WebrtcPlayerUser_PostFrames_def SendPackets_def del: bindE_eq_Inr)
qed

text \<open>C5: A frame for a viewer over WebRTC, from the stream to the socket. When the player is handed a frame
  of H.264, the headers handed with it having gone to the demuxer, \<open>PostFrames\<close> gives to libsrtp, in order, RTP packets
  numbered on without a gap from which a receiver takes out exactly the units of
  the frame, and once the parameter sets in front of the first IDR frame; and it sends to the viewer's address what libsrtp makes
  of them, in that order, then at most two reports. (As for the muxer: no B slices, no Annex B, units of
  the types 1 to 23; nothing is sent before a first key frame.)\<close>

theorem webrtc_viewer_gets_frame:
  assumes "ready s" "HasMedia s" "dtls_done u" "GetFrames info now s (wu_user u) = Inr v"
    and "header_packets cd v (wu_muxer u) = Inr ([], x)" "out_frames v = [data :: 'e packet]" "IsVideo data" "IsKeyFrame data \<or> got_key_frame u"
    and "pk_data data = avc_tag h 1 cst (units @ rest)" "pk_size data = of_nat (5 + length units)" "5 + length units < 2 ^ 31"
    and "avc_frame h" "cst < 2 ^ 24" "payload_format (rm_vdemux x) \<noteq> kPayloadFormatAnnexB" "us \<noteq> []"
    and "list_all (\<lambda>u. nal_ok u \<and> rtp_unit u \<and> \<not> b_slice u \<and> unit_fits (nalu_unit_length (rm_vdemux x)) u) us"
    and "units = concat (map (avcc_unit (nalu_unit_length (rm_vdemux x))) us)"
    and "vd_sps (rm_vdemux x) = sps" "vd_pps (rm_vdemux x) = pps" "sps \<noteq> []" "length sps < 2 ^ 16" "length pps < 2 ^ 16"
    and "plain_rtp (rm_video x)" "ts = ucast (pk_timestamp data)" "unat ts * 90 < 2 ^ 32"
    and "own = list_ex (\<lambda>u. nal_type u = 7 \<or> nal_type u = 8) us"
    and "sets = (\<not> sent_sps_pps x \<and> list_ex (\<lambda>u. nal_type u = 5) us \<and> \<not> own)"
    and "srtp_bounded lib" "1400 + int (length sps + length pps) + srtp_trailer lib < 65535"
  shows "\<exists>u' (front :: 'e packet list) frame ms1 ms2 cs s1 qs reports. WebrtcPlayerUser_PostFrames cd lib info now ms usec s u = Inr (True, u') \<and>
    length front = (if sets then 1 else 0) \<and> rtp_sent (rm_video x) (rtp_timestamp (rm_video x)) front ms1 \<and>
    rtp_sent ((rm_video x)\<lparr>rtp_sequence := rtp_sequence (rm_video x) + (if sets then 1 else 0)\<rparr>) (ts * 90) frame ms2 \<and>
    depay None (map snd (ms1 @ ms2)) = Some ((if sets then [sps, pps] else []) @ us) \<and>
    protect_run (srtp_protect lib) (map body (front @ frame)) (wu_srtp u) = (cs, s1) \<and> map body qs = List.map_filter (\<lambda>c. c) cs \<and>
    wu_sent u' = wu_sent u @ qs @ reports \<and> length reports \<le> 2 \<and> list_all (\<lambda>q. pk_ext q = wu_addr u) (qs @ reports)"
proof -
  obtain x' and front frame :: "'e packet list" and ms1 ms2 where f:
      "RtpMuxer_EncodeVideo data [] ts x = Inr (0, [] @ front @ frame, x')" "rtp_packets (front @ frame) kPacketTypeVideo"
      "length front = (if sets then 1 else 0)" "rtp_sent (rm_video x) (rtp_timestamp (rm_video x)) front ms1"
      "rtp_sent ((rm_video x)\<lparr>rtp_sequence := rtp_sequence (rm_video x) + (if sets then 1 else 0)\<rparr>) (ts * 90) frame ms2"
      "depay None (map snd (ms1 @ ms2)) = Some ((if sets then [sps, pps] else []) @ us)"
      "list_all (\<lambda>p. length (body p) \<le> 1400 + length sps + length pps) (front @ frame)"
    using frame_goes_out [OF assms(9-23,25-27), of "[]"] by blast
  have "\<not> IsAudio data" using assms(7) types_apart [of data] by blast
  then have "encode_frames_of cd [data] (got_key_frame u) x [] = Inr (True, x', front @ frame)"
    using f(1) assms(7,8,24) by (auto simp: Let_def simp del: bindE_eq_Inr)
  then have e: "encode_due cd info now s u = Inr (front @ frame, u\<lparr>wu_user := v\<lparr>pu_meta := None, pu_audio_header := None,
      pu_video_header := None, out_frames := []\<rparr>, wu_muxer := x', got_key_frame := True\<rparr>)"
    using assms(4-6) by (simp add: encode_due_def del: bindE_eq_Inr)
  have "ms1 @ ms2 \<noteq> []" using f(6) assms(15) by auto
  then have ne: "front @ frame \<noteq> []" using f(4,5) by (auto simp: rtp_sent_def)
  have one: "small_for lib p" if "packet_ok p" "length (body p) \<le> 1400 + length sps + length pps" for p :: "'e packet"
    using assms(29) that by (simp add: small_for_def kSrtpMaxBufferSize_def)
  have small: "list_all (small_for lib) (front @ frame)"
    using f(2,7) one by (auto simp: rtp_packets_def list_all_iff)
  have t: "28 + srtp_trailer lib < 65535" using assms(29) by linarith
  obtain cs s1 where run: "protect_run (srtp_protect lib) (map body (front @ frame)) (wu_srtp u) = (cs, s1)" by fastforce
  from PostFrames_sends [OF assms(1-3) e ne small assms(28) t, of cs s1 ms usec] run obtain u' qs reports where
      "WebrtcPlayerUser_PostFrames cd lib info now ms usec s u = Inr (True, u')" "wu_sent u' = wu_sent u @ qs @ reports"
      "length reports \<le> 2" "map body qs = List.map_filter (\<lambda>c. c) cs" "list_all (\<lambda>q. pk_ext q = wu_addr u) (qs @ reports)"
    by auto
  then show ?thesis using f(3-6) run by blast
qed

section \<open>A call\<close>

text \<open>For the witnesses: a call that is sent a configuration and a picture, over a libsrtp that counts and leaves the bytes as
  they are.\<close>

definition plain_srtp :: "nat srtp_lib" where
  "plain_srtp = \<lparr>srtp_trailer = 144, srtp_protect = \<lambda>bs n. (Some bs, Suc n), srtp_protect_rtcp = \<lambda>bs n. (Some bs, Suc n),
     srtp_unprotect_rtcp = \<lambda>bs n. (Some bs, n)\<rparr>"

definition call_config :: "unit packet" where
  "call_config = \<lparr>pk_type = 17, pk_size = 19, pk_index = 0, pk_timestamp = 0, pk_capacity = 19,
     pk_data = avc_tag 0x17 0 0 (avc_record 1 0x64 0 0x1f 0xff [0x67, 0x64] [0x68] @ []), pk_ext = None\<rparr>"

definition call_picture :: "unit packet" where
  "call_picture = \<lparr>pk_type = 17, pk_size = of_nat (5 + length [0, 0, 0, 4, 0x65, 0x88, 0x84, 0xff :: byte]), pk_index = 0, pk_timestamp = 40,
     pk_capacity = 13, pk_data = avc_tag 0x17 1 80 ([0, 0, 0, 4, 0x65, 0x88, 0x84, 0xff] @ []), pk_ext = None\<rparr>"

definition call_stream :: "unit stream" where
  "call_stream = (Stream_new 0 [] 0 None)\<lparr>ready := True, has_video := True\<rparr>"

definition call_user :: "(unit, nat, nat, unit) webrtc_user" where
  "call_user = OnDtlsHandshakeDone 0 96 111 1 2 0 0
     (WebrtcPlayerUser_new ((PlayerUser_new 0)\<lparr>pu_video_header := Some call_config, out_frames := [call_picture]\<rparr>) None 0
       (RtpMuxer_Init 96 111 1 2 0 0))"

abbreviation "call_demux \<equiv> (VideoDemux_Reset (VideoDemux_new 0))\<lparr>vd_codec_id := kVideoCodecIDAVC, composition_time := 0, config_version := 1,
     vd_profile := 0x64, profile_com := 0, vd_level := 0x1f, nalu_unit_length := 0xff AND 0x03, vd_sps := [0x67, 0x64], vd_pps := [0x68]\<rparr>"

abbreviation call_muxer :: "(unit, nat) rtp_muxer" where
  "call_muxer \<equiv> (RtpMuxer_Init 96 111 1 2 0 0)\<lparr>rm_vdemux := call_demux\<rparr>"

lemma call_header: "header_packets sample_codecs (wu_user call_user) (wu_muxer call_user) = Inr ([], call_muxer)"
proof -
  have size: "unat (scast (19 :: u32) :: u64) = 16 + length [0x67, 0x64 :: byte] + length [0x68 :: byte]" by simp
  have d: "VideoDemux_OnDemux (pk_data call_config) (unat (scast (pk_size call_config) :: u64)) (VideoDemux_Reset (VideoDemux_new 0)) [] =
      Inr (0, call_demux, [])"
    unfolding call_config_def packet.simps size by (rule avc_header_roundtrip) (simp_all add: avc_frame_def)
  have "Ts_IsCodecHeader call_config = Inr True"
    by (simp add: Ts_IsCodecHeader_def call_config_def PacketSize_def avc_tag_def element_def)
  then have "RtpMuxer_EncodeVideo call_config [] 0 (RtpMuxer_Init 96 111 1 2 0 0 :: (unit, nat) rtp_muxer) = Inr (0, [], call_muxer)"
    using d by (simp add: RtpMuxer_EncodeVideo_def RtpMuxer_Init_def del: bindE_eq_Inr)
  then show ?thesis
    by (simp add: header_packets_def call_user_def OnDtlsHandshakeDone_def WebrtcPlayerUser_new_def PlayerUser_new_def RtpMuxer_Init_def
        del: bindE_eq_Inr)
qed

lemma call_ready:
  "ready call_stream" "HasMedia call_stream" "dtls_done call_user" "GetFrames AppInfo_new 0 call_stream (wu_user call_user) = Inr (wu_user call_user)"
  "out_frames (wu_user call_user) = [call_picture]" "IsVideo call_picture" "IsKeyFrame call_picture" "wu_srtp call_user = 0" "wu_sent call_user = []"
  "wu_addr call_user = None" "pk_timestamp call_picture = 40"
  by (simp_all add: call_stream_def HasMedia_def GetFrames_def call_user_def OnDtlsHandshakeDone_def WebrtcPlayerUser_new_def call_picture_def
      IsVideo_def IsKeyFrame_def)

lemma plain_srtp_bounded: "srtp_bounded plain_srtp" "srtp_trailer plain_srtp = 144"
  by (simp_all add: srtp_bounded_def plain_srtp_def)

lemma plain_srtp_run: "protect_run (srtp_protect plain_srtp) bs n = (map Some bs, n + length bs)"
  by (induction bs arbitrary: n) (simp_all add: plain_srtp_def)

lemma call_muxer_simps:
  "nalu_unit_length (rm_vdemux call_muxer) = 3" "payload_format (rm_vdemux call_muxer) \<noteq> kPayloadFormatAnnexB"
  "vd_sps (rm_vdemux call_muxer) = [0x67, 0x64]" "vd_pps (rm_vdemux call_muxer) = [0x68]" "plain_rtp (rm_video call_muxer)"
  "\<not> sent_sps_pps call_muxer" "rtp_sequence (rm_video call_muxer) = 0" "rtp_timestamp (rm_video call_muxer) = 0"
  by (simp_all add: VideoDemux_Reset_def VideoDemux_new_def RtpMuxer_Init_def RtpH264_new_def Rtp_new_def plain_rtp_def)

lemma call_units:
  "list_all (\<lambda>u. nal_ok u \<and> rtp_unit u \<and> \<not> b_slice u \<and> unit_fits (nalu_unit_length (rm_vdemux call_muxer)) u) [[0x65, 0x88, 0x84, 0xff]]"
  "[0, 0, 0, 4, 0x65, 0x88, 0x84, 0xff] = concat (map (avcc_unit (nalu_unit_length (rm_vdemux call_muxer))) [[0x65, 0x88, 0x84, 0xff]])"
  "list_ex (\<lambda>u. nal_type u = 5) [[0x65, 0x88, 0x84, 0xff]]" "\<not> list_ex (\<lambda>u. nal_type u = 7 \<or> nal_type u = 8) [[0x65, 0x88, 0x84, 0xff]]"
proof -
  have "closed_end 1 1 [0x88, 0x84, 0xff] \<and> slice_type [0x65, 0x88, 0x84, 0xff] = Some 7" by code_simp
  then show
    "list_all (\<lambda>u. nal_ok u \<and> rtp_unit u \<and> \<not> b_slice u \<and> unit_fits (nalu_unit_length (rm_vdemux call_muxer)) u) [[0x65, 0x88, 0x84, 0xff]]"
    "[0, 0, 0, 4, 0x65, 0x88, 0x84, 0xff] = concat (map (avcc_unit (nalu_unit_length (rm_vdemux call_muxer))) [[0x65, 0x88, 0x84, 0xff]])"
    "list_ex (\<lambda>u. nal_type u = 5) [[0x65, 0x88, 0x84, 0xff]]" "\<not> list_ex (\<lambda>u. nal_type u = 7 \<or> nal_type u = 8) [[0x65, 0x88, 0x84, 0xff]]"
    by (simp_all add: call_muxer_simps(1) nal_ok_def rtp_unit_def b_slice_def nal_type_def bit_simps unit_fits_def avcc_unit_def WriteUint32T_def
        del: rtp_muxer.simps)
qed

lemma webrtc_viewer_gets_frame_witness:
  "\<exists>u' (front :: unit packet list) frame ms1 ms2 qs reports.
    WebrtcPlayerUser_PostFrames sample_codecs plain_srtp AppInfo_new 0 0 0 call_stream call_user = Inr (True, u') \<and>
    depay None (map snd (ms1 @ ms2)) = Some [[0x67, 0x64], [0x68], [0x65, 0x88, 0x84, 0xff]] \<and>
    rtp_sent (rm_video call_muxer) 0 front ms1 \<and> map body qs = map body (front @ frame) \<and> wu_sent u' = qs @ reports"
proof -
  note t = webrtc_viewer_gets_frame [where s = call_stream and u = call_user and info = AppInfo_new and now = 0 and cd = sample_codecs
      and x = call_muxer and data = call_picture and h = "0x17" and cst = 80 and units = "[0, 0, 0, 4, 0x65, 0x88, 0x84, 0xff]" and rest = "[]"
      and us = "[[0x65, 0x88, 0x84, 0xff]]" and sps = "[0x67, 0x64]" and pps = "[0x68]" and ts = 40 and own = False and sets = True
      and lib = plain_srtp and ms = 0 and usec = 0]
  have p: "pk_data call_picture = avc_tag 0x17 1 80 ([0, 0, 0, 4, 0x65, 0x88, 0x84, 0xff] @ [])"
      "pk_size call_picture = of_nat (5 + length [0, 0, 0, 4, 0x65, 0x88, 0x84, 0xff :: byte])" by (simp_all add: call_picture_def)
  obtain u' and front frame :: "unit packet list" and ms1 ms2 cs s1 qs reports where
      1: "WebrtcPlayerUser_PostFrames sample_codecs plain_srtp AppInfo_new 0 0 0 call_stream call_user = Inr (True, u')"
      and 2: "rtp_sent (rm_video call_muxer) (rtp_timestamp (rm_video call_muxer)) front ms1"
      and 3: "depay None (map snd (ms1 @ ms2)) = Some ([[0x67, 0x64], [0x68]] @ [[0x65, 0x88, 0x84, 0xff]])"
      and 4: "protect_run (srtp_protect plain_srtp) (map body (front @ frame)) (wu_srtp call_user) = (cs, s1)"
      and 5: "map body qs = List.map_filter (\<lambda>c. c) cs" and 6: "wu_sent u' = wu_sent call_user @ qs @ reports"
    using t [OF call_ready(1-4) call_header call_ready(5,6) _ p _ _ _ call_muxer_simps(2) _ call_units(1,2) call_muxer_simps(3,4)]
      call_muxer_simps(5,6) call_ready(7,11) call_units(3,4) plain_srtp_bounded
    by (auto simp: avc_frame_def simp del: rtp_muxer.simps)
  have "List.map_filter (\<lambda>c. c) (map Some bs) = bs" for bs :: "byte list list"
    by (induction bs) (simp_all add: map_filter_simps)
  moreover have "cs = map Some (map body (front @ frame))" using 4 unfolding plain_srtp_run by blast
  ultimately have q: "map body qs = map body (front @ frame)" using 5 by (simp only:)
  have d: "depay None (map snd (ms1 @ ms2)) = Some [[0x67, 0x64], [0x68], [0x65, 0x88, 0x84, 0xff]]" using 3 by simp
  have w: "wu_sent u' = qs @ reports" using 6 unfolding call_ready(9) by simp
  show ?thesis using 1 d 2 [unfolded call_muxer_simps(8)] q w by blast
qed

lemma rtp_stream_length: "rtp_stream pt seq ts step ssrc bs = Some ms \<Longrightarrow> length ms = length bs"
  by (induction pt seq ts step ssrc bs arbitrary: ms rule: rtp_stream.induct) (auto split: option.splits if_splits)

text \<open>The call after this frame: two packets of video have been made.\<close>

lemma call_posted:
  "\<exists>p q u. webrtc_run sample_codecs plain_srtp [p, q] [] (u :: (unit, nat, nat, unit) webrtc_user) \<and> list_all (small_for plain_srtp) [p, q] \<and>
    rtp_ssrc (rm_video (wu_muxer u)) = 1 \<and> rtp_ssrc (rm_audio (wu_muxer u)) = 2"
proof -
  have p: "pk_data call_picture = avc_tag 0x17 1 80 ([0, 0, 0, 4, 0x65, 0x88, 0x84, 0xff] @ [])"
      "pk_size call_picture = of_nat (5 + length [0, 0, 0, 4, 0x65, 0x88, 0x84, 0xff :: byte])" by (simp_all add: call_picture_def)
  obtain x' and front frame :: "unit packet list" and ms1 where f:
      "RtpMuxer_EncodeVideo call_picture [] 40 call_muxer = Inr (0, [] @ front @ frame, x')" "rtp_packets (front @ frame) kPacketTypeVideo"
      "length front = 1" "rtp_sent ((rm_video call_muxer)\<lparr>rtp_sequence := rtp_sequence (rm_video call_muxer) + 1\<rparr>) (40 * 90) frame [(True, [0x65, 0x88, 0x84, 0xff])]"
      "list_all (\<lambda>p. length (body p) \<le> 1400 + length [0x67, 0x64 :: byte] + length [0x68 :: byte]) (front @ frame)"
    using frame_goes_out [OF p _ _ _ call_muxer_simps(2) _ call_units(1,2) call_muxer_simps(3,4), of 40 False True "[]"]
      call_muxer_simps(5,6) call_units(3,4)
    by (auto simp: avc_frame_def simp del: rtp_muxer.simps)
  have "length frame = 1" using f(4) rtp_stream_length by (fastforce simp: rtp_sent_def)
  then obtain p q where pq: "front @ frame = [p, q]" using f(3) by (auto simp: length_Suc_conv)
  let ?v = "(wu_user call_user)\<lparr>pu_meta := None, pu_audio_header := None, pu_video_header := None, out_frames := []\<rparr>"
  let ?u1 = "call_user\<lparr>wu_user := ?v, wu_muxer := x', got_key_frame := True\<rparr>"
  have "\<not> IsAudio call_picture" using call_ready(6) types_apart [of call_picture] by blast
  then have "encode_frames_of sample_codecs [call_picture] (got_key_frame call_user) call_muxer [] = Inr (True, x', front @ frame)"
    using f(1) call_ready(6,7,11) by (auto simp: Let_def simp del: bindE_eq_Inr rtp_muxer.simps)
  then have e: "encode_due sample_codecs AppInfo_new 0 call_stream call_user = Inr ([p, q], ?u1)"
    using call_ready(4,5) call_header unfolding pq [symmetric] by (simp add: encode_due_def del: bindE_eq_Inr rtp_muxer.simps)
  have small: "list_all (small_for plain_srtp) [p, q]"
    using f(2,5) unfolding pq by (simp add: rtp_packets_def small_for_def kSrtpMaxBufferSize_def plain_srtp_bounded(2))
  obtain u where u: "WebrtcPlayerUser_PostFrames sample_codecs plain_srtp AppInfo_new 0 0 0 call_stream call_user = Inr (True, u)"
    using PostFrames_sends [OF call_ready(1-3) e _ small plain_srtp_bounded(1)] plain_srtp_bounded(2) plain_srtp_run by fastforce
  have run: "webrtc_run sample_codecs plain_srtp [] [] call_user" unfolding call_user_def by (rule webrtc_run.connected)
  have kind: "\<not> IsAudio p" "\<not> IsAudio q" using f(2) unfolding pq by (auto simp: rtp_packets_def IsAudio_def)
  have "webrtc_run sample_codecs plain_srtp [p, q] [] u"
    using webrtc_run.posted [OF run call_ready(1,2) e u] kind by simp
  moreover obtain u2 result where 2: "protect_all plain_srtp [p, q] ?u1 [] = Inr (u2, result)" "CheckSR plain_srtp 0 0 (SendPackets result u2) = Inr u"
    using u e call_ready(1-3) by (auto simp: WebrtcPlayerUser_PostFrames_def simp del: protect_all.simps elim!: bindE_InrE)
  have mux: "wu_muxer u = x'"
    using protect_all_keeps [OF 2(1)] CheckSR_keeps [OF 2(2)] by (simp add: same_media_def SendPackets_def)
  obtain new :: "unit packet list" where "makes call_muxer new x'" using EncodeVideo_makes [OF f(1)] by blast
  then have "rtp_ssrc (rm_video x') = rtp_ssrc (rm_video call_muxer)" "rtp_ssrc (rm_audio x') = rtp_ssrc (rm_audio call_muxer)"
    by (simp_all add: makes_def emits_def)
  moreover have "rtp_ssrc (rm_video call_muxer) = 1" "rtp_ssrc (rm_audio call_muxer) = 2"
    by (simp_all add: RtpMuxer_Init_def RtpH264_new_def RtpOpus_new_def Rtp_new_def)
  ultimately show ?thesis using small mux by metis
qed

lemma nack_answered_witness:
  "\<exists>p q (u :: (unit, nat, nat, unit) webrtc_user) qs. webrtc_run sample_codecs plain_srtp [p, q] [] u \<and>
    OnRtcp plain_srtp (nack_message 7 1 [(1, 1)]) u = Inr (u\<lparr>wu_srtp := wu_srtp u + 2, wu_sent := wu_sent u @ qs\<rparr>) \<and>
    map body qs = [body p, body q]"
proof -
  obtain p q and u :: "(unit, nat, nat, unit) webrtc_user" where u: "webrtc_run sample_codecs plain_srtp [p, q] [] u"
      "list_all (small_for plain_srtp) [p, q]" "rtp_ssrc (rm_video (wu_muxer u)) = 1" "rtp_ssrc (rm_audio (wu_muxer u)) = 2"
    using call_posted by blast
  have m: "length (nack_message 7 1 [(1, 1)]) = 16" "nack_message 7 1 [(1, 1)] ! 1 = 205"
    by (simp_all add: nack_message_def nack_bytes_def WriteUint16T_def WriteUint32T_def)
  have seqs: "concat (map nack_seqs [(1, 1)]) = [1, 2]" by (simp add: nack_seqs_def upt_rec bit_1_iff)
  have half: "list_all (in_half 1) (concat (map nack_seqs [(1, 1)]))" "sorted_wrt SeqCmp [1, 2]"
    unfolding seqs by (simp_all add: in_half_def SeqCmp_def)
  have elems: "set [1, 2] = set (concat (map nack_seqs [(1, 1)]))" unfolding seqs ..
  have rec: "List.map_filter (recent [p, q]) [1, 2] = [p, q]" by (simp add: map_filter_simps recent_def)
  have un: "srtp_unprotect_rtcp plain_srtp (nack_message 7 1 [(1, 1)]) (wu_srtp u) =
      (Some (nack_message 7 (rtp_ssrc (rm_video (wu_muxer u))) [(1, 1)]), wu_srtp u)" by (simp add: plain_srtp_def u(3))
  have run: "protect_run (srtp_protect plain_srtp) (map body (List.map_filter (recent [p, q]) [1, 2])) (wu_srtp u) =
      ([Some (body p), Some (body q)], wu_srtp u + 2)" unfolding rec plain_srtp_run by simp
  have "\<exists>qs. OnRtcp plain_srtp (nack_message 7 1 [(1, 1)]) u = Inr (u\<lparr>wu_srtp := wu_srtp u + 2, wu_sent := wu_sent u @ qs\<rparr>) \<and>
      map body qs = List.map_filter (\<lambda>c. c) [Some (body p), Some (body q)] \<and> list_all (\<lambda>q. pk_ext q = wu_addr u) qs"
    by (rule nack_answered [OF u(1) _ _ u(2) plain_srtp_bounded(1) _ half(1) _ _ _ m(2) un elems half(2) run])
      (simp_all add: u(3,4) m(1))
  moreover have "List.map_filter (\<lambda>c. c) [Some (body p), Some (body q)] = [body p, body q]" by (simp add: map_filter_simps)
  ultimately show ?thesis using u(1) by metis
qed

end
