(* ===== verification/RtmpHandShake.thy ===== *)
theory RtmpHandShake
  imports RtmpContext
begin

text \<open>
  \<open>src/mmedia/rtmp/RtmpHandShake.cpp\<close>, and \<open>RtmpContext\<close> around it: \<open>Parse\<close> and \<open>OnWriteComplete\<close> over the states of a
  connection. HMAC-SHA256 (OpenSSL) is a parameter, and so is \<open>CheckC1S1\<close>, which the class declares and
  no file defines. Random bytes and the clock are arguments.
\<close>

section \<open>Digests\<close>

type_synonym hmac = "byte list \<Rightarrow> byte list \<Rightarrow> byte list"

definition rtmp_server_ver :: "byte list" where "rtmp_server_ver = [0x0D, 0x0E, 0x0A, 0x0D]"
definition rtmp_client_ver :: "byte list" where "rtmp_client_ver = [0x0C, 0x00, 0x0D, 0x0E]"

definition rtmp_key_tail :: "byte list" where
  "rtmp_key_tail =
     [0xF0, 0xEE, 0xC2, 0x4A, 0x80, 0x68, 0xBE, 0xE8, 0x2E, 0x00, 0xD0, 0xD1, 0x02,
      0x9E, 0x7E, 0x57, 0x6E, 0xEC, 0x5D, 0x2D, 0x29, 0x80, 0x6F, 0xAB, 0x93, 0xB8,
      0xE6, 0x36, 0xCF, 0xEB, 0x31, 0xAE]"

definition rtmp_player_key :: "byte list" where
  "rtmp_player_key = lit ''Genuine Adobe Flash Player 001'' @ rtmp_key_tail"

definition rtmp_server_key :: "byte list" where
  "rtmp_server_key = lit ''Genuine Adobe Flash Media Server 001'' @ rtmp_key_tail"

text \<open>The open parts of the keys: \<open>PLAYER_KEY_OPEN_PART_LEN\<close> and \<open>SERVER_KEY_OPEN_PART_LEN\<close>.\<close>

definition open_key :: "bool \<Rightarrow> byte list" where
  "open_key client = (if client then take 30 rtmp_player_key else take 36 rtmp_server_key)"

definition whole_key :: "bool \<Rightarrow> byte list" where
  "whole_key client = (if client then rtmp_player_key else rtmp_server_key)"

definition CalculateDigest :: "hmac \<Rightarrow> byte list \<Rightarrow> nat \<Rightarrow> nat \<Rightarrow> byte list \<Rightarrow> byte list res" where
  "CalculateDigest hmac src n gap key =
     (if gap = 0 then bindE (mem_read n src) (\<lambda>m. Inr (hmac key m))
      else bindE (mem_read gap src) (\<lambda>a. bindE (mem_read (n - gap - 32) (drop (gap + 32) src)) (\<lambda>b. Inr (hmac key (a @ b)))))"

definition VerifyDigest :: "hmac \<Rightarrow> byte list \<Rightarrow> nat \<Rightarrow> byte list \<Rightarrow> bool res" where
  "VerifyDigest hmac buf digest_pos key =
     bindE (CalculateDigest hmac buf 1536 digest_pos key) (\<lambda>d.
     bindE (mem_read 32 (drop digest_pos buf)) (\<lambda>e. Inr (e = take 32 d)))"

definition GetDigestOffset :: "byte list \<Rightarrow> nat \<Rightarrow> nat \<Rightarrow> nat res" where
  "GetDigestOffset buf off mod_val =
     bindE (mem_read 4 (drop off buf)) (\<lambda>p. Inr (sum_list (map unat p) mod mod_val + (off + 4)))"

section \<open>State\<close>

datatype hs_state =
    kHandShakeInit | kHandShakePostC0C1 | kHandShakeWaitS0S1 | kHandShakePostC2 | kHandShakeWaitS2 | kHandShakeDoning
  | kHandShakeWaitC0C1 | kHandShakePostS0S1 | kHandShakePostS2 | kHandShakeWaitC2 | kHandShakeDone

text \<open>\<open>hs_sends\<close> collects what is given to \<open>connection_->Send\<close>. The arrays start with any bytes \<open>g\<close>.\<close>

record handshake =
  hs_client :: bool
  hs_complex :: bool
  hs_digest :: "byte list"
  hs_C1S1 :: "byte list"
  hs_C2S2 :: "byte list"
  hs_state :: hs_state
  hs_sends :: "byte list list"

definition RtmpHandShake_new :: "byte \<Rightarrow> bool \<Rightarrow> handshake" where
  "RtmpHandShake_new g client = \<lparr>hs_client = client, hs_complex = True, hs_digest = replicate 32 g,
     hs_C1S1 = replicate 1537 g, hs_C2S2 = replicate 1536 g, hs_state = kHandShakeInit, hs_sends = []\<rparr>"

text \<open>The functions the code calls: HMAC-SHA256, and \<open>CheckC1S1\<close> with the side as first argument,
  which returns the position of the digest, negative for a bad packet, and leaves \<open>is_complex_handshake_\<close>.\<close>

record hs_env =
  he_hmac :: hmac
  he_check :: "bool \<Rightarrow> byte list \<Rightarrow> int \<times> bool"

section \<open>Packets\<close>

definition CreateC1S1 :: "hs_env \<Rightarrow> (nat \<Rightarrow> byte) \<Rightarrow> handshake \<Rightarrow> handshake res" where
  "CreateC1S1 env rnd h =
     (let p = overwrite 1 (replicate 4 0) (overwrite 0 [3] (map rnd [0..<1537]))
      in if \<not> hs_complex h then Inr (h\<lparr>hs_C1S1 := overwrite 5 (replicate 4 0) p\<rparr>)
         else bindE (GetDigestOffset (drop 1 p) 8 728) (\<lambda>offset.
              let p = overwrite 5 (if hs_client h then rtmp_client_ver else rtmp_server_ver) p
              in bindE (CalculateDigest (he_hmac env) (drop 1 p) 1536 offset (open_key (hs_client h))) (\<lambda>d.
                 let p = overwrite (1 + offset) d p
                 in Inr (h\<lparr>hs_C1S1 := p, hs_digest := take 32 (drop (1 + offset) p)\<rparr>))))"

definition hs_send :: "byte list \<Rightarrow> handshake \<Rightarrow> handshake" where
  "hs_send bs h = h\<lparr>hs_sends := hs_sends h @ [bs]\<rparr>"

definition SendC1S1 :: "handshake \<Rightarrow> handshake" where "SendC1S1 h = hs_send (hs_C1S1 h) h"
definition SendC2S2 :: "handshake \<Rightarrow> handshake" where "SendC2S2 h = hs_send (hs_C2S2 h) h"

text \<open>The low 32 bits of the clock, the high byte first, over the first four of the eight bytes copied.\<close>

definition CreateC2S2 :: "hs_env \<Rightarrow> (nat \<Rightarrow> byte) \<Rightarrow> u64 \<Rightarrow> byte list \<Rightarrow> nat \<Rightarrow> handshake \<Rightarrow> handshake res" where
  "CreateC2S2 env rnd now data offset h =
     bindE (mem_read 8 data) (\<lambda>eight.
       let p = overwrite 0 (WriteUint32T (ucast now)) (overwrite 0 eight (map rnd [0..<1536]))
       in if hs_complex h
          then bindE (CalculateDigest (he_hmac env) (drop offset data) 32 0 (whole_key (hs_client h))) (\<lambda>digest.
               bindE (CalculateDigest (he_hmac env) p (1536 - 32) 0 (take 32 digest)) (\<lambda>d.
                 Inr (h\<lparr>hs_C2S2 := overwrite (1536 - 32) d p\<rparr>)))
          else Inr (h\<lparr>hs_C2S2 := p\<rparr>))"

definition CheckC2S2 :: "byte list \<Rightarrow> bool" where "CheckC2S2 data = True"

section \<open>The state machine\<close>

definition Start :: "hs_env \<Rightarrow> (nat \<Rightarrow> byte) \<Rightarrow> handshake \<Rightarrow> handshake res" where
  "Start env rnd h =
     bindE (CreateC1S1 env rnd h) (\<lambda>h.
       Inr (if hs_client h then SendC1S1 (h\<lparr>hs_state := kHandShakePostC0C1\<rparr>) else h\<lparr>hs_state := kHandShakeWaitC0C1\<rparr>))"

definition HandShake ::
    "hs_env \<Rightarrow> (nat \<Rightarrow> byte) \<Rightarrow> u64 \<Rightarrow> byte list \<Rightarrow> handshake \<Rightarrow> (int \<times> byte list \<times> handshake) res" where
  "HandShake env rnd now buf h =
     (case hs_state h of
        kHandShakeWaitC0C1 \<Rightarrow>
          if length buf < 1537 then Inr (1, buf, h)
          else (case he_check env (hs_client h) (take 1537 buf) of (offset, cx) \<Rightarrow>
            let h = h\<lparr>hs_complex := cx\<rparr>
            in if 0 \<le> offset
               then bindE (CreateC2S2 env rnd now (drop 1 buf) (nat offset) h) (\<lambda>h.
                      Inr (1, drop 1537 buf, SendC1S1 (h\<lparr>hs_state := kHandShakePostS0S1\<rparr>)))
               else Inr (-1, buf, h))
      | kHandShakeWaitC2 \<Rightarrow>
          if length buf < 1536 then Inr (1, buf, h)
          else if CheckC2S2 (take 1536 buf) then Inr (0, drop 1536 buf, h\<lparr>hs_state := kHandShakeDone\<rparr>)
          else Inr (-1, buf, h)
      | _ \<Rightarrow> Inr (1, buf, h))"

definition HandShake_WriteComplete :: "handshake \<Rightarrow> handshake" where
  "HandShake_WriteComplete h =
     (case hs_state h of
        kHandShakePostS0S1 \<Rightarrow> SendC2S2 (h\<lparr>hs_state := kHandShakePostS2\<rparr>)
      | kHandShakePostS2 \<Rightarrow> h\<lparr>hs_state := kHandShakeWaitC2\<rparr>
      | kHandShakePostC0C1 \<Rightarrow> h\<lparr>hs_state := kHandShakeWaitS0S1\<rparr>
      | kHandShakePostC2 \<Rightarrow> h\<lparr>hs_state := kHandShakeWaitS2\<rparr>
      | kHandShakeDoning \<Rightarrow> h\<lparr>hs_state := kHandShakeDone\<rparr>
      | _ \<Rightarrow> h)"

section \<open>The context around it\<close>

datatype rtmp_state = kRtmpHandShake | kRtmpWatingDone | kRtmpMessage

record rtmp_conn =
  rc_hs :: handshake
  rc_state :: rtmp_state
  rc_ctx :: rtmp_ctx

definition Context_new :: "byte \<Rightarrow> bool \<Rightarrow> bool \<Rightarrow> rtmp_conn" where
  "Context_new g handler client =
     \<lparr>rc_hs = RtmpHandShake_new g client, rc_state = kRtmpHandShake, rc_ctx = RtmpContext_new handler client\<rparr>"

definition StartHandShake :: "hs_env \<Rightarrow> (nat \<Rightarrow> byte) \<Rightarrow> rtmp_conn \<Rightarrow> rtmp_conn res" where
  "StartHandShake env rnd c = bindE (Start env rnd (rc_hs c)) (\<lambda>h. Inr (c\<lparr>rc_hs := h\<rparr>))"

definition Context_Message :: "byte list \<Rightarrow> rtmp_conn \<Rightarrow> (int \<times> byte list \<times> rtmp_conn) res" where
  "Context_Message buf c = bindE (Parse buf (rc_ctx c)) (\<lambda>(left, x). Inr (1, left, c\<lparr>rc_ctx := x\<rparr>))"

definition Context_connect :: "rtmp_conn \<Rightarrow> rtmp_conn res" where
  "Context_connect c =
     (let c = c\<lparr>rc_state := kRtmpMessage\<rparr>
      in if is_client (rc_ctx c) then bindE (SendConnect (rc_ctx c)) (\<lambda>x. Inr (c\<lparr>rc_ctx := x\<rparr>)) else Inr c)"

definition Context_Parse ::
    "hs_env \<Rightarrow> (nat \<Rightarrow> byte) \<Rightarrow> u64 \<Rightarrow> byte list \<Rightarrow> rtmp_conn \<Rightarrow> (int \<times> byte list \<times> rtmp_conn) res" where
  "Context_Parse env rnd now buf c =
     (case rc_state c of
        kRtmpHandShake \<Rightarrow>
          bindE (HandShake env rnd now buf (rc_hs c)) (\<lambda>(ret, buf, h).
            let c = c\<lparr>rc_hs := h\<rparr>
            in if ret = 0 then bindE (Context_connect c) (\<lambda>c. if buf \<noteq> [] then Context_Message buf c else Inr (ret, buf, c))
               else Inr (ret, buf, if ret = 2 then c\<lparr>rc_state := kRtmpWatingDone\<rparr> else c))
      | kRtmpMessage \<Rightarrow> Context_Message buf c
      | kRtmpWatingDone \<Rightarrow> Inr (0, buf, c))"

definition Context_OnWriteComplete :: "rtmp_conn \<Rightarrow> rtmp_conn res" where
  "Context_OnWriteComplete c =
     (case rc_state c of
        kRtmpHandShake \<Rightarrow> Inr (c\<lparr>rc_hs := HandShake_WriteComplete (rc_hs c)\<rparr>)
      | kRtmpWatingDone \<Rightarrow> Context_connect c
      | kRtmpMessage \<Rightarrow> bindE (CheckAndSend (rc_ctx c)) (\<lambda>x. Inr (c\<lparr>rc_ctx := x\<rparr>)))"

section \<open>The digest of the first packet\<close>

definition sha256_length :: "hmac \<Rightarrow> bool" where
  "sha256_length hmac \<longleftrightarrow> (\<forall>k m. length (hmac k m) = 32)"

lemma drop_overwrite_later: "1 + off + length d \<le> length p \<Longrightarrow> drop 1 (overwrite (1 + off) d p) = overwrite off d (drop 1 p)"
  by (cases p) (simp_all add: overwrite_def)

lemma CalculateDigest_around:
  assumes "length x = 1536" "length d = 32" "off + 32 \<le> 1536" "0 < off"
  shows "CalculateDigest hmac (overwrite off d x) 1536 off key = CalculateDigest hmac x 1536 off key"
    "take 32 (drop off (overwrite off d x)) = d"
proof -
  have "take off (overwrite off d x) = take off x" "drop (off + 32) (overwrite off d x) = drop (off + 32) x"
    using assms drop_overwrite [of off d x] by simp_all
  then show "CalculateDigest hmac (overwrite off d x) 1536 off key = CalculateDigest hmac x 1536 off key"
    using assms by (simp add: CalculateDigest_def)
  show "take 32 (drop off (overwrite off d x)) = d" using assms by (simp add: overwrite_def)
qed

lemma GetDigestOffset_bound:
  assumes "off + 4 \<le> length buf" "0 < m"
  shows "\<exists>n. GetDigestOffset buf off m = Inr n \<and> off + 4 \<le> n \<and> n < off + 4 + m"
  using assms by (simp add: GetDigestOffset_def)

lemma CalculateDigest_ok:
  assumes "sha256_length hmac" "gap + 32 \<le> n" "n \<le> length src"
  shows "\<exists>d. CalculateDigest hmac src n gap key = Inr d \<and> length d = 32"
  using assms by (simp add: CalculateDigest_def sha256_length_def)

lemma first_packet:
  assumes "sha256_length (he_hmac env)"
  shows "\<exists>h packet off. Start env rnd (RtmpHandShake_new g client) = Inr h \<and> hs_C1S1 h = 3 # packet \<and> length packet = 1536 \<and>
    take 8 packet = [0, 0, 0, 0] @ (if client then rtmp_client_ver else rtmp_server_ver) \<and>
    GetDigestOffset packet 8 728 = Inr off \<and> off + 32 \<le> 1536 \<and>
    VerifyDigest (he_hmac env) packet off (open_key client) = Inr True \<and> hs_digest h = take 32 (drop off packet) \<and>
    hs_sends h = (if client then [hs_C1S1 h] else [])"
proof -
  define p where "p = overwrite 1 (replicate 4 0) (overwrite 0 [3] (map rnd [0..<1537]))"
  define ver where "ver = (if client then rtmp_client_ver else rtmp_server_ver)"
  define q where "q = drop 5 (map rnd [0..<1537])"
  have q: "length q = 1532" by (simp add: q_def)
  have z: "replicate 4 0 = [0, 0, 0, 0 :: byte]" by (simp add: numeral_eq_Suc)
  have "overwrite 1 (replicate 4 0) (overwrite 0 [3] xs) = [3, 0, 0, 0, 0] @ drop 5 xs" for xs :: "byte list"
    unfolding z by (simp add: overwrite_def eval_nat_numeral)
  then have pq: "p = [3, 0, 0, 0, 0] @ q" by (simp only: p_def q_def)
  then have lp: "length p = 1537" using q by simp
  have ver: "length ver = 4" by (simp add: ver_def rtmp_client_ver_def rtmp_server_ver_def)
  define p1 where "p1 = overwrite 5 ver p"
  have lp1: "length p1 = 1537" using lp ver by (simp add: p1_def)
  have p1: "p1 = [3, 0, 0, 0, 0] @ ver @ drop 4 q" by (simp add: p1_def pq overwrite_def ver)
  obtain off where off: "GetDigestOffset (drop 1 p) 8 728 = Inr off" "12 \<le> off" "off < 740"
    using GetDigestOffset_bound [of 8 "drop 1 p" 728] lp by auto
  have b: "off + 32 \<le> 1536" "0 < off" using off by simp_all
  obtain d where d: "CalculateDigest (he_hmac env) (drop 1 p1) 1536 off (open_key client) = Inr d" "length d = 32"
    using CalculateDigest_ok [OF assms b(1), of "drop 1 p1" "open_key client"] lp1 by auto
  define p2 where "p2 = overwrite (1 + off) d p1"
  define packet where "packet = overwrite off d (drop 1 p1)"
  have pk: "drop 1 p2 = packet" unfolding p2_def packet_def by (rule drop_overwrite_later) (use d(2) lp1 b in simp)
  have lpk: "length packet = 1536" using d(2) lp1 b by (simp add: packet_def)
  have first: "take 1 p2 = [3]"
    by (simp add: p2_def p1 overwrite_def)
  have p2: "p2 = 3 # packet" using first pk append_take_drop_id [of 1 p2] by (metis append_Cons append_Nil)
  have t12: "take 12 packet = take 12 (drop 1 p1)" using off(2) lp1 by (simp add: packet_def overwrite_def min_def)
  have t8: "take 8 packet = [0, 0, 0, 0] @ ver"
  proof -
    have "take 8 packet = take 8 (take 12 packet)" by simp
    also have "\<dots> = take 8 (drop 1 p1)" unfolding t12 by simp
    also have "\<dots> = [0, 0, 0, 0] @ ver" using ver by (simp add: p1)
    finally show ?thesis .
  qed
  have "take 4 (drop 8 packet) = drop 8 (take 12 packet)" by (simp add: drop_take)
  also have "\<dots> = take 4 (drop 8 (drop 1 p))" unfolding t12 using ver by (simp add: drop_take p1 pq)
  finally have "GetDigestOffset packet 8 728 = GetDigestOffset (drop 1 p) 8 728"
    using lp lpk by (simp add: GetDigestOffset_def)
  note offset = this [unfolded off(1)]
  have l1: "length (drop 1 p1) = 1536" using lp1 by simp
  have verify: "VerifyDigest (he_hmac env) packet off (open_key client) = Inr True" "take 32 (drop off packet) = d"
    using CalculateDigest_around [OF l1 d(2) b] d lpk b(1) by (simp_all add: VerifyDigest_def packet_def)
  have "Start env rnd (RtmpHandShake_new g client) = Inr (let h = (RtmpHandShake_new g client)\<lparr>hs_C1S1 := p2, hs_digest := take 32 (drop (1 + off) p2)\<rparr>
      in if client then SendC1S1 (h\<lparr>hs_state := kHandShakePostC0C1\<rparr>) else h\<lparr>hs_state := kHandShakeWaitC0C1\<rparr>)"
    unfolding Start_def CreateC1S1_def Let_def p_def [symmetric]
    using off(1) d(1) by (simp add: RtmpHandShake_new_def Let_def p1_def [symmetric] ver_def [symmetric] p2_def del: bindE_eq_Inr)
  then show ?thesis
    using p2 lpk t8 offset b(1) verify
    by (intro exI [of _ "let h = (RtmpHandShake_new g client)\<lparr>hs_C1S1 := p2, hs_digest := take 32 (drop (1 + off) p2)\<rparr>
      in if client then SendC1S1 (h\<lparr>hs_state := kHandShakePostC0C1\<rparr>) else h\<lparr>hs_state := kHandShakeWaitC0C1\<rparr>"]
        exI [of _ packet] exI [of _ off])
      (simp add: Let_def ver_def SendC1S1_def hs_send_def RtmpHandShake_new_def)
qed

text \<open>C22: The first packet of either side carries a digest that verifies: version 3 and 1536 bytes, whatever the random
  bytes; the position a receiver computes from them is the one that was used, lies inside the packet, and the
  32 bytes there are the HMAC of the rest of the packet under the side's open key.\<close>

theorem first_packet_verifies:
  assumes "sha256_length (he_hmac env)"
  shows "\<exists>h packet off. Start env rnd (RtmpHandShake_new g client) = Inr h \<and> hs_C1S1 h = 3 # packet \<and> length packet = 1536 \<and>
    take 8 packet = [0, 0, 0, 0] @ (if client then rtmp_client_ver else rtmp_server_ver) \<and>
    GetDigestOffset packet 8 728 = Inr off \<and> off + 32 \<le> 1536 \<and>
    VerifyDigest (he_hmac env) packet off (open_key client) = Inr True \<and> hs_digest h = take 32 (drop off packet) \<and>
    hs_sends h = (if client then [hs_C1S1 h] else [])"
  using assms by (rule first_packet)

text \<open>A digest for the witnesses; it depends on the key and on the length of the message.\<close>

definition sample_env :: hs_env where
  "sample_env = \<lparr>he_hmac = \<lambda>k m. replicate 31 (sum_list k) @ [of_nat (length m)], he_check = \<lambda>client p. (if take 1 p = [3] then 20 else -1, True)\<rparr>"

lemma first_packet_verifies_witness:
  "\<exists>h packet off. Start sample_env (\<lambda>i. of_nat i) (RtmpHandShake_new 0 False) = Inr h \<and> hs_C1S1 h = 3 # packet \<and> length packet = 1536 \<and>
    take 8 packet = [0, 0, 0, 0, 0x0D, 0x0E, 0x0A, 0x0D] \<and>
    GetDigestOffset packet 8 728 = Inr off \<and> off + 32 \<le> 1536 \<and>
    VerifyDigest (he_hmac sample_env) packet off (open_key False) = Inr True \<and> hs_digest h = take 32 (drop off packet) \<and>
    hs_sends h = []"
  using first_packet_verifies [of sample_env "\<lambda>i. of_nat i" 0 False]
  by (simp add: sha256_length_def sample_env_def rtmp_server_ver_def)

section \<open>The answer\<close>

lemma CreateC2S2_answer:
  assumes "sha256_length (he_hmac env)" "hs_complex h" "32 \<le> length (drop offset data)"
  shows "\<exists>p. CreateC2S2 env rnd now data offset h =
    Inr (h\<lparr>hs_C2S2 := p @ he_hmac env (he_hmac env (whole_key (hs_client h)) (take 32 (drop offset data))) p\<rparr>) \<and> length p = 1504"
proof -
  define p where "p = overwrite 0 (WriteUint32T (ucast now)) (overwrite 0 (take 8 data) (map rnd [0..<1536]))"
  have w: "length (WriteUint32T v) = 4" for v by (simp add: WriteUint32T_def)
  have lp: "length p = 1536" using assms(3) by (simp add: p_def w)
  let ?k = "he_hmac env (whole_key (hs_client h)) (take 32 (drop offset data))"
  have l: "length (he_hmac env k m) = 32" for k m using assms(1) by (simp add: sha256_length_def)
  have d: "CalculateDigest (he_hmac env) (drop offset data) 32 0 (whole_key (hs_client h)) = Inr ?k"
    "CalculateDigest (he_hmac env) p (1536 - 32) 0 (take 32 ?k) = Inr (he_hmac env ?k (take 1504 p))"
    using assms(3) lp l by (simp_all add: CalculateDigest_def)
  have "overwrite (1536 - 32) (he_hmac env ?k (take 1504 p)) p = take 1504 p @ he_hmac env ?k (take 1504 p)"
    using lp l by (simp add: overwrite_def)
  then have "CreateC2S2 env rnd now data offset h = Inr (h\<lparr>hs_C2S2 := take 1504 p @ he_hmac env ?k (take 1504 p)\<rparr>)"
    unfolding CreateC2S2_def using assms(2,3) d by (simp add: p_def [symmetric] Let_def del: bindE_eq_Inr)
  then show ?thesis using lp by (intro exI [of _ "take 1504 p"]) simp
qed

text \<open>A side that verifies the second packet of the other: the last 32 bytes are the digest of what is in front of them,
  under the digest of the digest that it has sent itself.\<close>

definition answer_verifies :: "hmac \<Rightarrow> bool \<Rightarrow> byte list \<Rightarrow> byte list \<Rightarrow> bool" where
  "answer_verifies hmac client digest p \<longleftrightarrow>
     length p = 1536 \<and> drop 1504 p = hmac (hmac (whole_key client) digest) (take 1504 p)"

section \<open>The life of a connection\<close>

text \<open>Bytes arrive, in any pieces, and are parsed behind what is left from before; writes complete, at any time. A run ends
  when the other side is refused. First the same for the context alone.\<close>

inductive ctx_run :: "rtmp_ctx \<Rightarrow> byte list \<Rightarrow> byte list \<Rightarrow> rtmp_ctx \<Rightarrow> bool" for x0 where
  ctx_start: "ctx_run x0 [] [] x0"
| ctx_recv: "ctx_run x0 got buf x \<Longrightarrow> Parse (buf @ new) x = Inr (left, x') \<Longrightarrow> ctx_run x0 (got @ new) left x'"
| ctx_wrote: "ctx_run x0 got buf x \<Longrightarrow> CheckAndSend x = Inr x' \<Longrightarrow> ctx_run x0 got buf x'"

inductive conn_run :: "hs_env \<Rightarrow> rtmp_conn \<Rightarrow> byte list \<Rightarrow> byte list \<Rightarrow> rtmp_conn \<Rightarrow> bool" for env c0 where
  run_start: "conn_run env c0 [] [] c0"
| run_recv: "conn_run env c0 got buf c \<Longrightarrow> Context_Parse env rnd now (buf @ new) c = Inr (ret, left, c') \<Longrightarrow> ret \<noteq> -1 \<Longrightarrow>
    conn_run env c0 (got @ new) left c'"
| run_wrote: "conn_run env c0 got buf c \<Longrightarrow> Context_OnWriteComplete c = Inr c' \<Longrightarrow> conn_run env c0 got buf c'"

text \<open>How much of the other side's packets a server has taken in each state, and how many packets it has sent.\<close>

definition hs_taken :: "hs_state \<Rightarrow> nat" where
  "hs_taken s = (if s = kHandShakeWaitC0C1 then 0 else if s = kHandShakeDone then 1537 + 1536 else 1537)"

definition hs_sent :: "hs_state \<Rightarrow> nat" where
  "hs_sent s = (if s = kHandShakeWaitC0C1 then 0 else if s = kHandShakePostS0S1 then 1 else 2)"

text \<open>The first packet was accepted, and the second one of the server verifies for the digest in it.\<close>

definition answered :: "hs_env \<Rightarrow> byte list \<Rightarrow> byte list \<Rightarrow> bool" where
  "answered env got answer \<longleftrightarrow> 1537 \<le> length got \<and>
     (case he_check env False (take 1537 got) of (offset, cx) \<Rightarrow> 0 \<le> offset \<and>
        (cx \<longrightarrow> nat offset + 33 \<le> length got \<and>
           answer_verifies (he_hmac env) False (take 32 (drop (1 + nat offset) got)) answer))"

lemma answered_append: "answered env got answer \<Longrightarrow> answered env (got @ new) answer"
  by (auto simp: answered_def split: prod.splits)

definition server_inv :: "hs_env \<Rightarrow> rtmp_conn \<Rightarrow> byte list \<Rightarrow> byte list \<Rightarrow> rtmp_conn \<Rightarrow> bool" where
  "server_inv env c0 got buf c \<longleftrightarrow>
     (let h = rc_hs c; s = hs_state h
      in \<not> hs_client h \<and> hs_C1S1 h = hs_C1S1 (rc_hs c0) \<and> hs_sends h = take (hs_sent s) [hs_C1S1 h, hs_C2S2 h] \<and>
         hs_taken s \<le> length got \<and> (s = kHandShakeWaitC0C1 \<or> answered env got (hs_C2S2 h)) \<and>
         (rc_state c = kRtmpHandShake \<and> s \<in> {kHandShakeWaitC0C1, kHandShakePostS0S1, kHandShakePostS2, kHandShakeWaitC2} \<and>
            rc_ctx c = rc_ctx c0 \<and> buf = drop (hs_taken s) got
          \<or> rc_state c = kRtmpMessage \<and> s = kHandShakeDone \<and> ctx_run (rc_ctx c0) (drop (hs_taken s) got) buf (rc_ctx c)))"

lemma CreateC2S2_Inr:
  assumes "CreateC2S2 env rnd now data offset h = Inr h'" "sha256_length (he_hmac env)"
  shows "h' = h\<lparr>hs_C2S2 := hs_C2S2 h'\<rparr>"
    "hs_complex h \<Longrightarrow> offset + 32 \<le> length data \<and>
       answer_verifies (he_hmac env) (hs_client h) (take 32 (drop offset data)) (hs_C2S2 h')"
proof -
  show "h' = h\<lparr>hs_C2S2 := hs_C2S2 h'\<rparr>"
    using assms(1) by (auto simp: CreateC2S2_def Let_def elim!: bindE_InrE split: if_splits)
  assume cx: "hs_complex h"
  have len: "offset + 32 \<le> length data"
    using assms(1) cx by (auto simp: CreateC2S2_def Let_def CalculateDigest_def mem_read_eq_Inr elim!: bindE_InrE split: if_splits)
  then have "32 \<le> length (drop offset data)" by simp
  from CreateC2S2_answer [OF assms(2) cx this, of rnd now] assms(1) obtain p where
    "hs_C2S2 h' = p @ he_hmac env (he_hmac env (whole_key (hs_client h)) (take 32 (drop offset data))) p" "length p = 1504" by auto
  then show "offset + 32 \<le> length data \<and>
      answer_verifies (he_hmac env) (hs_client h) (take 32 (drop offset data)) (hs_C2S2 h')"
    using len assms(2) by (simp add: answer_verifies_def sha256_length_def)
qed

lemma server_wrote:
  assumes "server_inv env c0 got buf c" "Context_OnWriteComplete c = Inr c'"
  shows "server_inv env c0 got buf c'"
proof (cases "rc_state c")
  case kRtmpHandShake
  then have c': "c' = c\<lparr>rc_hs := HandShake_WriteComplete (rc_hs c)\<rparr>" using assms(2) by (simp add: Context_OnWriteComplete_def)
  show ?thesis using assms(1) kRtmpHandShake unfolding c'
    by (auto simp: server_inv_def Let_def HandShake_WriteComplete_def hs_taken_def hs_sent_def SendC2S2_def hs_send_def)
next
  case kRtmpWatingDone
  then show ?thesis using assms(1) by (simp add: server_inv_def Let_def)
next
  case kRtmpMessage
  then obtain x where "CheckAndSend (rc_ctx c) = Inr x" "c' = c\<lparr>rc_ctx := x\<rparr>"
    using assms(2) by (auto simp: Context_OnWriteComplete_def elim!: bindE_InrE)
  then show ?thesis using assms(1) kRtmpMessage by (auto simp: server_inv_def Let_def intro: ctx_wrote)
qed

lemma answered_first:
  assumes "1537 \<le> length g" "he_check env False (take 1537 g) = (offset, cx)" "0 \<le> offset"
    and "CreateC2S2 env rnd now (drop 1 g) (nat offset) (h\<lparr>hs_complex := cx\<rparr>) = Inr h'"
    and "sha256_length (he_hmac env)" "\<not> hs_client h"
  shows "answered env g (hs_C2S2 h')"
  using CreateC2S2_Inr(2) [OF assms(4,5)] assms(1-3,6) by (auto simp: answered_def)

lemma server_first:
  assumes "server_inv env c0 got buf c" "sha256_length (he_hmac env)"
    and "rc_state c = kRtmpHandShake" "hs_state (rc_hs c) = kHandShakeWaitC0C1"
    and "HandShake env rnd now (buf @ new) (rc_hs c) = Inr (ret, left, h)" "ret \<noteq> -1"
  shows "server_inv env c0 (got @ new) left (c\<lparr>rc_hs := h\<rparr>) \<and> ret = 1"
proof (cases "length (buf @ new) < 1537")
  case True
  then show ?thesis using assms by (auto simp: server_inv_def Let_def HandShake_def hs_taken_def)
next
  case False
  let ?h = "rc_hs c"
  have inv: "\<not> hs_client ?h" "hs_C1S1 ?h = hs_C1S1 (rc_hs c0)" "hs_sends ?h = []" "rc_ctx c = rc_ctx c0" "buf = got"
    using assms(1,3,4) by (simp_all add: server_inv_def Let_def hs_taken_def hs_sent_def)
  obtain offset cx where chk: "he_check env False (take 1537 (got @ new)) = (offset, cx)" by fastforce
  have off: "0 \<le> offset" using assms(4-6) False inv(1,5) chk by (auto simp: HandShake_def Let_def split: if_splits)
  obtain h2 where h2: "CreateC2S2 env rnd now (drop 1 (got @ new)) (nat offset) (?h\<lparr>hs_complex := cx\<rparr>) = Inr h2"
      "ret = 1" "left = drop 1537 (got @ new)" "h = SendC1S1 (h2\<lparr>hs_state := kHandShakePostS0S1\<rparr>)"
    using assms(4,5) False inv(1,5) chk off by (auto simp: HandShake_def Let_def elim!: bindE_InrE)
  note made = CreateC2S2_Inr [OF h2(1) assms(2)]
  have "1537 \<le> length (got @ new)" using False inv(5) by simp
  then have "answered env (got @ new) (hs_C2S2 h2)" using answered_first [OF _ chk off h2(1) assms(2) inv(1)] by blast
  moreover have h2': "hs_client h2 = hs_client ?h" "hs_C1S1 h2 = hs_C1S1 ?h" "hs_sends h2 = hs_sends ?h"
    by (subst made(1), simp)+
  ultimately show ?thesis using inv assms(3) h2(2-4) False
    by (auto simp: server_inv_def Let_def hs_taken_def hs_sent_def SendC1S1_def hs_send_def)
qed

lemma server_message:
  assumes "server_inv env c0 got buf c" "rc_state c = kRtmpMessage" "Context_Message (buf @ new) c = Inr (ret, left, c')"
  shows "server_inv env c0 (got @ new) left c'"
proof -
  obtain x where x: "Parse (buf @ new) (rc_ctx c) = Inr (left, x)" "c' = c\<lparr>rc_ctx := x\<rparr>"
    using assms(3) by (auto simp: Context_Message_def elim!: bindE_InrE)
  have inv: "hs_state (rc_hs c) = kHandShakeDone" "ctx_run (rc_ctx c0) (drop 3073 got) buf (rc_ctx c)" "3073 \<le> length got"
    using assms(1,2) by (auto simp: server_inv_def Let_def hs_taken_def)
  have "ctx_run (rc_ctx c0) (drop 3073 got @ new) left x" by (rule ctx_recv [OF inv(2) x(1)])
  then show ?thesis using assms(1,2) inv x(2) answered_append
    by (auto simp: server_inv_def Let_def hs_taken_def)
qed

lemma server_last:
  assumes "server_inv env c0 got buf c" "rc_state c = kRtmpHandShake" "hs_state (rc_hs c) = kHandShakeWaitC2"
    and "\<not> is_client (rc_ctx c0)" "Context_Parse env rnd now (buf @ new) c = Inr (ret, left, c')" "ret \<noteq> -1"
  shows "server_inv env c0 (got @ new) left c'"
proof -
  let ?h = "rc_hs c" and ?b = "buf @ new"
  have inv: "\<not> hs_client ?h" "hs_C1S1 ?h = hs_C1S1 (rc_hs c0)" "hs_sends ?h = [hs_C1S1 ?h, hs_C2S2 ?h]" "rc_ctx c = rc_ctx c0"
      "buf = drop 1537 got" "1537 \<le> length got" "answered env got (hs_C2S2 ?h)"
    using assms(1-3) by (simp_all add: server_inv_def Let_def hs_taken_def hs_sent_def)
  have b: "?b = drop 1537 (got @ new)" using inv(5,6) by simp
  show ?thesis
  proof (cases "length ?b < 1536")
    case True
    then have "ret = 1 \<and> left = ?b \<and> c' = c" using assms(2,3,5) by (auto simp: Context_Parse_def HandShake_def)
    then show ?thesis using inv assms(2,3) answered_append b by (simp add: server_inv_def Let_def hs_taken_def hs_sent_def)
  next
    case False
    let ?c = "c\<lparr>rc_hs := ?h\<lparr>hs_state := kHandShakeDone\<rparr>, rc_state := kRtmpMessage\<rparr>"
    let ?rest = "drop 1536 ?b"
    have rest: "?rest = drop 3073 (got @ new)" unfolding b by (simp del: drop_append)
    have len: "3073 \<le> length (got @ new)" using False inv(6) unfolding b by simp
    have run: "(if ?rest \<noteq> [] then Context_Message ?rest ?c else Inr (0, ?rest, ?c)) = Inr (ret, left, c')"
      using assms(2-5) False inv(4) by (auto simp: Context_Parse_def HandShake_def CheckC2S2_def Context_connect_def Let_def simp del: bindE_eq_Inr split: if_splits)
    have "\<exists>x. ctx_run (rc_ctx c0) ?rest left x \<and> c' = ?c\<lparr>rc_ctx := x\<rparr>"
    proof (cases "?rest = []")
      case True
      then show ?thesis using run inv(4) by (intro exI [of _ "rc_ctx c0"], cases c) (auto simp: ctx_start)
    next
      case more: False
      then have "Context_Message ?rest ?c = Inr (ret, left, c')" using run by simp
      then obtain x where "Parse ([] @ ?rest) (rc_ctx c0) = Inr (left, x)" "c' = ?c\<lparr>rc_ctx := x\<rparr>"
        using inv(4) by (auto simp: Context_Message_def elim!: bindE_InrE)
      then show ?thesis using ctx_recv [OF ctx_start, of ?rest "rc_ctx c0" left x] by auto
    qed
    then show ?thesis using inv(1-3) answered_append [OF inv(7), of new] len unfolding rest
      by (auto simp: server_inv_def Let_def hs_taken_def hs_sent_def simp del: drop_append)
  qed
qed

lemma server_recv:
  assumes "server_inv env c0 got buf c" "\<not> is_client (rc_ctx c0)" "sha256_length (he_hmac env)"
    and "Context_Parse env rnd now (buf @ new) c = Inr (ret, left, c')" "ret \<noteq> -1"
  shows "server_inv env c0 (got @ new) left c'"
proof -
  consider (message) "rc_state c = kRtmpMessage"
    | (shake) "rc_state c = kRtmpHandShake" "hs_state (rc_hs c) \<in> {kHandShakeWaitC0C1, kHandShakePostS0S1, kHandShakePostS2, kHandShakeWaitC2}"
    using assms(1) by (auto simp: server_inv_def Let_def)
  then show ?thesis
  proof cases
    case message
    then show ?thesis using server_message [OF assms(1)] assms(4) by (simp add: Context_Parse_def)
  next
    case shake
    then consider (first) "hs_state (rc_hs c) = kHandShakeWaitC0C1" | (last) "hs_state (rc_hs c) = kHandShakeWaitC2"
      | (busy) "hs_state (rc_hs c) \<in> {kHandShakePostS0S1, kHandShakePostS2}" by auto
    then show ?thesis
    proof cases
      case first
      obtain r b h where h: "HandShake env rnd now (buf @ new) (rc_hs c) = Inr (r, b, h)"
        using assms(4) shake(1) by (auto simp: Context_Parse_def elim!: bindE_InrE)
      have r: "r \<noteq> -1" "r \<noteq> 0" "r \<noteq> 2"
        using h first assms(4,5) shake(1)
        by (auto simp: HandShake_def Context_Parse_def Let_def elim!: bindE_InrE split: if_splits prod.splits)
      have "ret = r \<and> left = b \<and> c' = c\<lparr>rc_hs := h\<rparr>" using assms(4) shake(1) h r by (simp add: Context_Parse_def Let_def)
      then show ?thesis using server_first [OF assms(1,3) shake(1) first h r(1)] by simp
    next
      case last
      show ?thesis by (rule server_last [OF assms(1) shake(1) last assms(2,4,5)])
    next
      case busy
      then have "left = buf @ new \<and> c' = c" using assms(4) shake(1) by (auto simp: Context_Parse_def HandShake_def)
      then show ?thesis using assms(1) busy shake(1) answered_append [of env got _ new]
        by (auto simp: server_inv_def Let_def hs_taken_def hs_sent_def)
    qed
  qed
qed

lemma server_runs:
  assumes "conn_run env c0 got buf c" "StartHandShake env rnd (Context_new g handler False) = Inr c0" "sha256_length (he_hmac env)"
  shows "server_inv env c0 got buf c"
  using assms(1)
proof induction
  case run_start
  obtain h where h: "CreateC1S1 env rnd (RtmpHandShake_new g False) = Inr h"
      "c0 = (Context_new g handler False)\<lparr>rc_hs := h\<lparr>hs_state := kHandShakeWaitC0C1\<rparr>\<rparr>"
    using assms(2) by (auto simp: StartHandShake_def Start_def Context_new_def CreateC1S1_def Let_def RtmpHandShake_new_def elim!: bindE_InrE)
  have "\<not> hs_client h \<and> hs_sends h = []"
    using h(1) by (auto simp: CreateC1S1_def Let_def RtmpHandShake_new_def elim!: bindE_InrE)
  then show ?case unfolding h(2) by (simp add: server_inv_def Let_def hs_taken_def hs_sent_def Context_new_def)
next
  case (run_recv got buf c rnd now new ret left c')
  have "\<not> is_client (rc_ctx c0)"
    using assms(2) by (auto simp: StartHandShake_def Context_new_def RtmpContext_new_def elim!: bindE_InrE)
  then show ?case using server_recv run_recv assms(3) by blast
next
  case (run_wrote got buf c c')
  then show ?case using server_wrote by blast
qed

section \<open>What the handshake does\<close>

text \<open>C12: A server opens a connection properly. Whatever arrives in whatever pieces and whenever writes complete:
  it has sent nothing, or its first packet, or that and its second one, which verifies for the digest
  found in the first 1537 bytes, and these have been accepted. Until it has taken both packets of the other
  side, 3073 bytes, the context is untouched; from then on the connection is exactly the context run on the
  bytes behind them.\<close>

theorem server_handshake:
  assumes "StartHandShake env rnd (Context_new g handler False) = Inr c0" "sha256_length (he_hmac env)"
    and "conn_run env c0 got buf c"
  shows "(\<exists>n. hs_sends (rc_hs c) = take n [hs_C1S1 (rc_hs c0), hs_C2S2 (rc_hs c)]) \<and>
    (hs_sends (rc_hs c) = [] \<or> answered env got (hs_C2S2 (rc_hs c))) \<and>
    (rc_state c = kRtmpHandShake \<and> rc_ctx c = RtmpContext_new handler False \<or>
     rc_state c = kRtmpMessage \<and> length (hs_sends (rc_hs c)) = 2 \<and> 3073 \<le> length got \<and>
       ctx_run (RtmpContext_new handler False) (drop 3073 got) buf (rc_ctx c))"
proof -
  have inv: "server_inv env c0 got buf c" by (rule server_runs [OF assms(3,1,2)])
  have "rc_ctx c0 = RtmpContext_new handler False"
    using assms(1) by (auto simp: StartHandShake_def Context_new_def elim!: bindE_InrE)
  note x = this
  have sent: "hs_sends (rc_hs c) = take (hs_sent (hs_state (rc_hs c))) [hs_C1S1 (rc_hs c0), hs_C2S2 (rc_hs c)]"
    using inv by (simp add: server_inv_def Let_def)
  have n: "\<exists>n. hs_sends (rc_hs c) = take n [hs_C1S1 (rc_hs c0), hs_C2S2 (rc_hs c)]" by (rule exI, rule sent)
  have a: "hs_sends (rc_hs c) = [] \<or> answered env got (hs_C2S2 (rc_hs c))"
  proof -
    have "hs_state (rc_hs c) = kHandShakeWaitC0C1 \<or> answered env got (hs_C2S2 (rc_hs c))"
      using inv by (simp add: server_inv_def Let_def)
    then show ?thesis unfolding sent by (auto simp: hs_sent_def)
  qed
  have m: "rc_state c = kRtmpHandShake \<and> rc_ctx c = RtmpContext_new handler False \<or>
     rc_state c = kRtmpMessage \<and> length (hs_sends (rc_hs c)) = 2 \<and> 3073 \<le> length got \<and>
       ctx_run (RtmpContext_new handler False) (drop 3073 got) buf (rc_ctx c)"
    using inv unfolding sent by (simp add: server_inv_def Let_def hs_sent_def hs_taken_def x) auto
  show ?thesis using n a m by (intro conjI)
qed

lemma server_steps:
  assumes "StartHandShake env rnd (Context_new g handler False) = Inr c0" "sha256_length (he_hmac env)"
    and "length c1 = 1537" "length c2 = 1536" "he_check env False c1 = (offset, cx)" "0 \<le> offset" "offset \<le> 1504"
  shows "\<exists>a b c d. Context_Parse env rnd1 now1 c1 c0 = Inr (1, [], a) \<and> Context_OnWriteComplete a = Inr b \<and>
    Context_OnWriteComplete b = Inr c \<and> rc_state d = kRtmpMessage \<and> rc_ctx d = RtmpContext_new handler False \<and>
    hs_sends (rc_hs d) = [hs_C1S1 (rc_hs c0), hs_C2S2 (rc_hs d)] \<and>
    Context_Parse env rnd2 now2 (c2 @ rest) c = (if rest = [] then Inr (0, [], d) else Context_Message rest d)"
proof -
  obtain h where c0: "CreateC1S1 env rnd (RtmpHandShake_new g False) = Inr h"
      "c0 = (Context_new g handler False)\<lparr>rc_hs := h\<lparr>hs_state := kHandShakeWaitC0C1\<rparr>\<rparr>"
    using assms(1) by (auto simp: StartHandShake_def Start_def Context_new_def CreateC1S1_def Let_def RtmpHandShake_new_def elim!: bindE_InrE)
  have h: "\<not> hs_client h" "hs_sends h = []"
    using c0(1) by (auto simp: CreateC1S1_def Let_def RtmpHandShake_new_def elim!: bindE_InrE)
  let ?h = "h\<lparr>hs_state := kHandShakeWaitC0C1, hs_complex := cx\<rparr>"
  have "nat offset + 32 \<le> length (drop 1 c1)" using assms(3,7) by simp
  then have long: "32 \<le> length (drop (nat offset) (drop 1 c1))" by simp
  obtain h2 where h2: "CreateC2S2 env rnd1 now1 (drop 1 c1) (nat offset) ?h = Inr h2"
  proof (cases cx)
    case True
    then show ?thesis using CreateC2S2_answer [OF assms(2) _ long, of ?h rnd1 now1] that by auto
  next
    case False
    then show ?thesis using that assms(3) by (simp add: CreateC2S2_def Let_def)
  qed
  have made: "h2 = ?h\<lparr>hs_C2S2 := hs_C2S2 h2\<rparr>" by (rule CreateC2S2_Inr(1) [OF h2 assms(2)])
  have f: "hs_client h2 = hs_client h" "hs_C1S1 h2 = hs_C1S1 h" "hs_sends h2 = hs_sends h" by (subst made, simp)+
  let ?a = "c0\<lparr>rc_hs := SendC1S1 (h2\<lparr>hs_state := kHandShakePostS0S1\<rparr>)\<rparr>"
  let ?b = "?a\<lparr>rc_hs := HandShake_WriteComplete (rc_hs ?a)\<rparr>"
  let ?c = "?b\<lparr>rc_hs := HandShake_WriteComplete (rc_hs ?b)\<rparr>"
  let ?d = "?c\<lparr>rc_hs := (rc_hs ?c)\<lparr>hs_state := kHandShakeDone\<rparr>, rc_state := kRtmpMessage\<rparr>"
  have st: "rc_state c0 = kRtmpHandShake" "rc_ctx c0 = RtmpContext_new handler False" "rc_hs c0 = h\<lparr>hs_state := kHandShakeWaitC0C1\<rparr>"
    unfolding c0(2) by (simp_all add: Context_new_def)
  have A: "Context_Parse env rnd1 now1 c1 c0 = Inr (1, [], ?a)"
    using assms(3,5,6) h(1) h2 st by (simp add: Context_Parse_def HandShake_def Let_def del: bindE_eq_Inr)
  have B: "Context_OnWriteComplete ?a = Inr ?b" "Context_OnWriteComplete ?b = Inr ?c"
    using st(1) by (simp_all add: Context_OnWriteComplete_def)
  have hc: "rc_hs ?c = h2\<lparr>hs_state := kHandShakeWaitC2, hs_sends := [hs_C1S1 h, hs_C2S2 h2]\<rparr>"
    using f h by (simp add: HandShake_WriteComplete_def SendC1S1_def SendC2S2_def hs_send_def)
  have "\<not> is_client (RtmpContext_new handler False)" by (simp add: RtmpContext_new_def)
  then have C: "Context_Parse env rnd2 now2 (c2 @ rest) ?c = (if rest = [] then Inr (0, [], ?d) else Context_Message rest ?d)"
    using st(1,2) assms(4) unfolding Context_Parse_def hc by (simp add: hc HandShake_def CheckC2S2_def Context_connect_def Let_def del: bindE_eq_Inr)
  have D: "rc_state ?d = kRtmpMessage" "rc_ctx ?d = RtmpContext_new handler False"
      "hs_sends (rc_hs ?d) = [hs_C1S1 (rc_hs c0), hs_C2S2 (rc_hs ?d)]"
    using st(2,3) hc by simp_all
  show ?thesis using A B C D by (intro exI [of _ ?a] exI [of _ ?b] exI [of _ ?c] exI [of _ ?d] conjI)
qed

lemma started:
  assumes "sha256_length (he_hmac env)"
  shows "\<exists>c0. StartHandShake env rnd (Context_new g handler client) = Inr c0"
  using first_packet [OF assms, of rnd g client] by (auto simp: StartHandShake_def Context_new_def)

lemma sample_hmac: "sha256_length (he_hmac sample_env)"
  by (simp add: sha256_length_def sample_env_def)

lemma server_handshake_witness:
  "\<exists>c0 c. StartHandShake sample_env (\<lambda>_. 1) (Context_new 0 True False) = Inr c0 \<and>
    conn_run sample_env c0 ([3] @ replicate 1536 1 @ replicate 1536 2) [] c \<and> rc_state c = kRtmpMessage \<and>
    length (hs_sends (rc_hs c)) = 2 \<and> answered sample_env ([3] @ replicate 1536 1 @ replicate 1536 2) (hs_C2S2 (rc_hs c))"
proof -
  let ?c1 = "[3] @ replicate 1536 1 :: byte list" and ?c2 = "replicate 1536 2 :: byte list"
  obtain c0 where c0: "StartHandShake sample_env (\<lambda>_. 1) (Context_new 0 True False) = Inr c0"
    using started [OF sample_hmac] by blast
  have chk: "he_check sample_env False ?c1 = (20, True)" by (simp add: sample_env_def)
  obtain a b c d where run: "Context_Parse sample_env (\<lambda>_. 1) 0 ?c1 c0 = Inr (1, [], a)" "Context_OnWriteComplete a = Inr b"
      "Context_OnWriteComplete b = Inr c" "rc_state d = kRtmpMessage" "hs_sends (rc_hs d) = [hs_C1S1 (rc_hs c0), hs_C2S2 (rc_hs d)]"
      "Context_Parse sample_env (\<lambda>_. 1) 0 (?c2 @ []) c = Inr (0, [], d)"
    using server_steps [OF c0 sample_hmac _ _ chk, of ?c2 "\<lambda>_. 1" 0 "\<lambda>_. 1" 0 "[]"] by auto
  have one: "(1 :: int) \<noteq> -1" and zero: "(0 :: int) \<noteq> -1" by simp_all
  have "conn_run sample_env c0 ([] @ ?c1) [] a" by (rule run_recv [OF run_start _ one]) (use run(1) in simp)
  then have "conn_run sample_env c0 ([] @ ?c1) [] c" by (rule run_wrote [OF run_wrote, OF _ run(2,3)])
  then have "conn_run sample_env c0 ?c1 [] c" by simp
  then have all: "conn_run sample_env c0 (?c1 @ ?c2) [] d" by (rule run_recv [OF _ _ zero]) (use run(6) in simp)
  have "hs_sends (rc_hs d) \<noteq> []" using run(5) by simp
  then have "answered sample_env (?c1 @ ?c2) (hs_C2S2 (rc_hs d))" using server_handshake [OF c0 sample_hmac all] by blast
  then show ?thesis using c0 all run(4,5) by (intro exI [of _ c0] exI [of _ d]) simp
qed

text \<open>C21: The handshake of a server comes to its end. When the first packet of the other side is
  accepted, with its digest inside the packet, and its second one arrives behind the server's
  two writes, the server has sent both of its packets, has taken exactly the two, and parses what came along
  behind them, with the context in its initial state.\<close>

theorem server_completes:
  assumes "StartHandShake env rnd (Context_new g handler False) = Inr c0" "sha256_length (he_hmac env)"
    and "length c1 = 1537" "length c2 = 1536" "he_check env False c1 = (offset, cx)" "0 \<le> offset" "offset \<le> 1504" "rest \<noteq> []"
  shows "\<exists>a b c d. Context_Parse env rnd1 now1 c1 c0 = Inr (1, [], a) \<and> Context_OnWriteComplete a = Inr b \<and>
    Context_OnWriteComplete b = Inr c \<and> Context_Parse env rnd2 now2 (c2 @ rest) c = Context_Message rest d \<and>
    rc_state d = kRtmpMessage \<and> rc_ctx d = RtmpContext_new handler False \<and>
    hs_sends (rc_hs d) = [hs_C1S1 (rc_hs c0), hs_C2S2 (rc_hs d)]"
  using server_steps [OF assms(1-7), of rnd1 now1 rnd2 now2 rest] unfolding if_not_P [OF assms(8)] by blast

lemma server_completes_witness:
  "\<exists>c0 a b c d. StartHandShake sample_env (\<lambda>_. 1) (Context_new 0 True False) = Inr c0 \<and>
    Context_Parse sample_env (\<lambda>_. 7) 5 ([3] @ replicate 1536 1) c0 = Inr (1, [], a) \<and> Context_OnWriteComplete a = Inr b \<and>
    Context_OnWriteComplete b = Inr c \<and>
    Context_Parse sample_env (\<lambda>_. 7) 6 (replicate 1536 2 @ [2, 0]) c = Context_Message [2, 0] d \<and>
    rc_state d = kRtmpMessage \<and> rc_ctx d = RtmpContext_new True False \<and> length (hs_sends (rc_hs d)) = 2"
proof -
  obtain c0 where c0: "StartHandShake sample_env (\<lambda>_. 1) (Context_new 0 True False) = Inr c0"
    using started [OF sample_hmac] by blast
  have chk: "he_check sample_env False ([3] @ replicate 1536 1) = (20, True)" by (simp add: sample_env_def)
  obtain a b c d where "Context_Parse sample_env (\<lambda>_. 7) 5 ([3] @ replicate 1536 1) c0 = Inr (1, [], a)" "Context_OnWriteComplete a = Inr b"
      "Context_OnWriteComplete b = Inr c" "Context_Parse sample_env (\<lambda>_. 7) 6 (replicate 1536 2 @ [2, 0]) c = Context_Message [2, 0] d"
      "rc_state d = kRtmpMessage" "rc_ctx d = RtmpContext_new True False" "hs_sends (rc_hs d) = [hs_C1S1 (rc_hs c0), hs_C2S2 (rc_hs d)]"
    using server_completes [OF c0 sample_hmac _ _ chk, of "replicate 1536 2" "[2, 0]" "\<lambda>_. 7" 5 "\<lambda>_. 7" 6] by auto
  then show ?thesis using c0 by (intro exI [of _ c0] exI [of _ a] exI [of _ b] exI [of _ c] exI [of _ d]) simp
qed

text \<open>The second packet of the other side, and whatever follows it, is not looked at when it arrives before the server's
  own writes have completed, and completing them does not look either: the connection rests until more arrives.\<close>

lemma early_packet_rests:
  assumes "rc_state c = kRtmpHandShake" "hs_state (rc_hs c) = kHandShakePostS0S1"
  shows "Context_Parse env rnd now bs c = Inr (1, bs, c) \<and>
    (\<exists>c'. bindE (Context_OnWriteComplete c) Context_OnWriteComplete = Inr c' \<and> hs_state (rc_hs c') = kHandShakeWaitC2 \<and>
      rc_state c' = kRtmpHandShake \<and> rc_ctx c' = rc_ctx c)"
  using assms
  by (simp add: Context_Parse_def HandShake_def Context_OnWriteComplete_def HandShake_WriteComplete_def SendC2S2_def hs_send_def)

text \<open>C34: A client never gets past the handshake. Whatever the server sends and whenever writes complete, it has sent
  its first packet and nothing else, takes no byte, and never sends \<open>connect\<close>: the states of the
  client are without code.\<close>

theorem client_never_connects:
  assumes "StartHandShake env rnd (Context_new g handler True) = Inr c0" "conn_run env c0 got buf c"
  shows "rc_state c = kRtmpHandShake \<and> hs_sends (rc_hs c) = [hs_C1S1 (rc_hs c0)] \<and> buf = got \<and>
    rc_ctx c = RtmpContext_new handler True \<and> hs_state (rc_hs c) \<in> {kHandShakePostC0C1, kHandShakeWaitS0S1}"
  using assms(2)
proof induction
  case run_start
  then show ?case using assms(1)
    by (auto simp: StartHandShake_def Start_def Context_new_def CreateC1S1_def Let_def RtmpHandShake_new_def SendC1S1_def hs_send_def
        elim!: bindE_InrE)
next
  case (run_recv got buf c rnd now new ret left c')
  then show ?case by (auto simp: Context_Parse_def HandShake_def)
next
  case (run_wrote got buf c c')
  then show ?case by (auto simp: Context_OnWriteComplete_def HandShake_WriteComplete_def)
qed

lemma client_never_connects_witness:
  "\<exists>c0 c. StartHandShake sample_env (\<lambda>_. 1) (Context_new 0 False True) = Inr c0 \<and>
    conn_run sample_env c0 ([] @ replicate 3073 3) (replicate 3073 3) c \<and> rc_state c = kRtmpHandShake \<and>
    hs_sends (rc_hs c) = [hs_C1S1 (rc_hs c0)]"
proof -
  obtain c0 where c0: "StartHandShake sample_env (\<lambda>_. 1) (Context_new 0 False True) = Inr c0"
    using started [OF sample_hmac] by blast
  have start: "rc_state c0 = kRtmpHandShake \<and> hs_state (rc_hs c0) \<in> {kHandShakePostC0C1, kHandShakeWaitS0S1}"
    using client_never_connects [OF c0 run_start] by blast
  have "Context_Parse sample_env (\<lambda>_. 1) 0 ([] @ replicate 3073 3) c0 = Inr (1, replicate 3073 3, c0)"
    using start by (auto simp: Context_Parse_def HandShake_def)
  then have run: "conn_run sample_env c0 ([] @ replicate 3073 3) (replicate 3073 3) c0" by (rule run_recv [OF run_start]) simp
  show ?thesis using c0 run client_never_connects [OF c0 run] by blast
qed

end
