(* ===== verification/TcpConn.thy ===== *)
theory TcpConn
  imports MsgBuffer
begin

text \<open>
  A TCP connection, \<open>src/network/net/TcpConnection.{h,cpp}\<close>: what is queued for \<open>writev\<close>, and the loops of
  \<open>OnWrite\<close> and \<open>OnRead\<close>. The answers of the kernel are an argument, in the order of the calls; a loop
  that has used them all up has not returned (\<open>None\<close>). The bytes the kernel has taken are kept in
  \<open>tc_wire\<close>. Callbacks at the end of an operation are events: what they call on the connection
  are the next operations. The callback of \<open>OnRead\<close>, in the middle of its loop, is a parameter.
\<close>

section \<open>The connection\<close>

text \<open>A piece of memory to be written: an object, and a pointer and a length that may not lie inside it.\<close>

record iovec =
  iov_mem :: "byte list"
  iov_base :: int
  iov_len :: nat

datatype tcp_event = TcExtendLife | TcWriteComplete | TcClose

record tcp_conn =
  tc_closed :: bool
  tc_fd_open :: bool
  tc_buffer :: msg_buffer
  io_vec_list :: "iovec list"
  tc_writing :: bool
  tc_wire :: "byte list"
  tc_events :: "tcp_event list"

text \<open>An answer of \<open>write\<close> or \<open>writev\<close>: the number of bytes taken, or an \<open>errno\<close>.\<close>

datatype io_result = Wrote nat | IoError int

definition retryable :: "int \<Rightarrow> bool" where
  "retryable e \<longleftrightarrow> e = 4 \<or> e = 11"   \<comment> \<open>\<open>EINTR\<close>, \<open>EAGAIN\<close> = \<open>EWOULDBLOCK\<close>\<close>

definition TcpConnection_new :: tcp_conn where
  "TcpConnection_new = \<lparr>tc_closed = False, tc_fd_open = True, tc_buffer = MsgBuffer_new kBufferDefaultLength,
     io_vec_list = [], tc_writing = False, tc_wire = [], tc_events = []\<rparr>"

definition tc_log :: "tcp_event \<Rightarrow> tcp_conn \<Rightarrow> tcp_conn" where
  "tc_log e c = c\<lparr>tc_events := tc_events c @ [e]\<rparr>"

definition Tcp_OnClose :: "tcp_conn \<Rightarrow> tcp_conn" where
  "Tcp_OnClose c = (if tc_closed c then c else (tc_log TcClose (c\<lparr>tc_closed := True\<rparr>))\<lparr>tc_fd_open := False\<rparr>)"

section \<open>Writing\<close>

text \<open>The first \<open>n\<close> bytes of the memory that is queued, as the kernel reads them.\<close>

definition iov_take :: "nat \<Rightarrow> iovec \<Rightarrow> byte list res" where
  "iov_take n v =
     (if 0 \<le> iov_base v then mem_read n (drop (nat (iov_base v)) (iov_mem v)) else Inl OutOfBounds)"

fun gather :: "nat \<Rightarrow> iovec list \<Rightarrow> byte list res" where
  "gather n [] = Inr []"
| "gather n (v # vs) =
     (if n = 0 then Inr []
      else bindE (iov_take (min n (iov_len v)) v) (\<lambda>b. bindE (gather (n - iov_len v) vs) (\<lambda>r. Inr (b @ r))))"

text \<open>The loop that takes \<open>ret\<close> written bytes off the queue.\<close>

fun consume :: "nat \<Rightarrow> iovec list \<Rightarrow> iovec list res" where
  "consume ret [] = (if ret = 0 then Inr [] else Inl OutOfBounds)"
| "consume ret (v # vs) =
     (if ret = 0 then Inr (v # vs)
      else if ret < iov_len v then Inr (v\<lparr>iov_base := iov_base v + int ret, iov_len := iov_len v - ret\<rparr> # vs)
      else consume (ret - iov_len v) vs)"

definition write_done :: "tcp_conn \<Rightarrow> tcp_conn" where
  "write_done c = tc_log TcWriteComplete (c\<lparr>tc_writing := False\<rparr>)"

definition written :: "nat \<Rightarrow> tcp_conn \<Rightarrow> tcp_conn res" where
  "written ret c =
     bindE (gather ret (io_vec_list c)) (\<lambda>bs. bindE (consume ret (io_vec_list c)) (\<lambda>vs.
       Inr (c\<lparr>tc_wire := tc_wire c @ bs, io_vec_list := vs\<rparr>)))"

fun write_loop :: "io_result list \<Rightarrow> tcp_conn \<Rightarrow> tcp_conn res option" where
  "write_loop [] c = None"
| "write_loop (Wrote ret # rs) c =
     (case written ret c of
        Inl e \<Rightarrow> Some (Inl e)
      | Inr c \<Rightarrow> if io_vec_list c = [] then Some (Inr (write_done c)) else write_loop rs c)"
| "write_loop (IoError e # rs) c = Some (Inr (if retryable e then c else Tcp_OnClose c))"

definition Tcp_OnWrite :: "io_result list \<Rightarrow> tcp_conn \<Rightarrow> tcp_conn res option" where
  "Tcp_OnWrite rs c =
     (if tc_closed c then Some (Inr c)
      else let c = tc_log TcExtendLife c
           in if io_vec_list c \<noteq> [] then write_loop rs c else Some (Inr (write_done c)))"

definition SendInLoop_list :: "byte list list \<Rightarrow> tcp_conn \<Rightarrow> tcp_conn" where
  "SendInLoop_list bufs c =
     (if tc_closed c then c
      else let c = c\<lparr>io_vec_list := io_vec_list c @ map (\<lambda>b. \<lparr>iov_mem = b, iov_base = 0, iov_len = length b\<rparr>) bufs\<rparr>
           in if io_vec_list c \<noteq> [] then c\<lparr>tc_writing := True\<rparr> else c)"

text \<open>Sending one buffer tries to write it at once. The result of \<open>write\<close> goes into a \<open>size_t\<close>, which is
  never negative: a failure is the length \<open>2 ^ 64 - 1\<close>.\<close>

definition SendInLoop_buf :: "io_result \<Rightarrow> byte list \<Rightarrow> tcp_conn \<Rightarrow> tcp_conn" where
  "SendInLoop_buf r buf c =
     (if tc_closed c then c
      else let size = of_nat (length buf) :: u64;
               send_len = (if io_vec_list c \<noteq> [] then 0 else case r of Wrote n \<Rightarrow> of_nat n | IoError e \<Rightarrow> -1);
               c' = (case r of Wrote n \<Rightarrow> if io_vec_list c = [] then c\<lparr>tc_wire := tc_wire c @ take n buf\<rparr> else c | IoError e \<Rightarrow> c)
           in if io_vec_list c = [] \<and> size - send_len = 0 then tc_log TcWriteComplete c'
              else if 0 < size - send_len
              then c'\<lparr>io_vec_list := io_vec_list c @ [\<lparr>iov_mem = buf, iov_base = sint send_len, iov_len = unat (size - send_len)\<rparr>],
                      tc_writing := True\<rparr>
              else c')"

section \<open>Reading\<close>

text \<open>\<open>message_cb_\<close> takes the connection, with its buffer, and leaves it changed.\<close>

fun read_loop :: "(tcp_conn \<Rightarrow> tcp_conn res) \<Rightarrow> (int + byte list) list \<Rightarrow> tcp_conn \<Rightarrow> tcp_conn res option" where
  "read_loop message_cb [] c = None"
| "read_loop message_cb (r # rs) c =
     (case ReadFd r (tc_buffer c) of
        Inl e \<Rightarrow> Some (Inl e)
      | Inr (b, ret, err) \<Rightarrow>
          let c = c\<lparr>tc_buffer := b\<rparr>
          in if 0 < ret
             then (case message_cb c of Inl e \<Rightarrow> Some (Inl e) | Inr c \<Rightarrow> read_loop message_cb rs c)
             else if ret = 0 then Some (Inr (Tcp_OnClose c))
             else Some (Inr (case err of None \<Rightarrow> Tcp_OnClose c | Some e \<Rightarrow> if retryable e then c else Tcp_OnClose c)))"

definition Tcp_OnRead :: "(tcp_conn \<Rightarrow> tcp_conn res) \<Rightarrow> (int + byte list) list \<Rightarrow> tcp_conn \<Rightarrow> tcp_conn res option" where
  "Tcp_OnRead message_cb rs c =
     (if tc_closed c then Some (Inr c) else read_loop message_cb rs (tc_log TcExtendLife c))"

section \<open>The queue\<close>

definition iov_ok :: "iovec \<Rightarrow> bool" where
  "iov_ok v \<longleftrightarrow> 0 \<le> iov_base v \<and> nat (iov_base v) + iov_len v \<le> length (iov_mem v)"

definition iov_bytes :: "iovec \<Rightarrow> byte list" where
  "iov_bytes v = take (iov_len v) (drop (nat (iov_base v)) (iov_mem v))"

definition pend :: "iovec list \<Rightarrow> byte list" where
  "pend vs = concat (map iov_bytes vs)"

lemma iov_bytes_length [simp]: "iov_ok v \<Longrightarrow> length (iov_bytes v) = iov_len v"
  by (auto simp: iov_ok_def iov_bytes_def min_def)

lemma iov_take_ok: "iov_ok v \<Longrightarrow> n \<le> iov_len v \<Longrightarrow> iov_take n v = Inr (take n (iov_bytes v))"
  by (auto simp: iov_ok_def iov_take_def iov_bytes_def min_def)

lemma pend_Cons: "pend (v # vs) = iov_bytes v @ pend vs"
  by (simp add: pend_def)

lemma gather_ok: "list_all iov_ok vs \<Longrightarrow> gather n vs = Inr (take n (pend vs))"
proof (induction vs arbitrary: n)
  case (Cons v vs)
  then show ?case by (cases "n \<le> iov_len v") (simp_all add: iov_take_ok pend_Cons min_def)
qed (simp add: pend_def)

lemma consume_ok:
  "list_all iov_ok vs \<Longrightarrow> n \<le> length (pend vs) \<Longrightarrow>
   \<exists>vs'. consume n vs = Inr vs' \<and> list_all iov_ok vs' \<and> pend vs' = drop n (pend vs)"
proof (induction vs arbitrary: n)
  case (Cons v vs)
  have v: "iov_ok v" using Cons.prems by simp
  consider "n = 0" | "0 < n" "n < iov_len v" | "0 < n" "iov_len v \<le> n" by linarith
  then show ?case
  proof cases
    case 2
    let ?v = "v\<lparr>iov_base := iov_base v + int n, iov_len := iov_len v - n\<rparr>"
    have "iov_ok ?v" "iov_bytes ?v = drop n (iov_bytes v)"
      using v 2 by (auto simp: iov_ok_def iov_bytes_def nat_add_distrib drop_take add.commute)
    then show ?thesis using 2 v Cons.prems(1) by (simp add: pend_Cons)
  next
    case 3
    have "n - iov_len v \<le> length (pend vs)" using Cons.prems(2) v by (simp add: pend_Cons)
    from Cons.IH [OF _ this] Cons.prems(1) 3 v show ?thesis by (simp add: pend_Cons)
  qed (use Cons.prems in simp)
qed (simp add: pend_def)

lemma consume_within: "consume n vs = Inr vs' \<Longrightarrow> list_all iov_ok vs \<Longrightarrow> n \<le> length (pend vs)"
  by (induction n vs rule: consume.induct) (auto simp: pend_Cons pend_def split: if_splits)

lemma written_ok:
  assumes "written n c = Inr c'" "list_all iov_ok (io_vec_list c)"
  shows "list_all iov_ok (io_vec_list c') \<and> tc_wire c' @ pend (io_vec_list c') = tc_wire c @ pend (io_vec_list c) \<and>
    length (pend (io_vec_list c')) + n = length (pend (io_vec_list c)) \<and>
    tc_events c' = tc_events c \<and> tc_closed c' = tc_closed c \<and> tc_writing c' = tc_writing c"
proof -
  obtain vs where vs: "consume n (io_vec_list c) = Inr vs"
      "c' = c\<lparr>tc_wire := tc_wire c @ take n (pend (io_vec_list c)), io_vec_list := vs\<rparr>"
    using assms(1) by (auto simp: written_def gather_ok [OF assms(2)])
  have n: "n \<le> length (pend (io_vec_list c))" by (rule consume_within [OF vs(1) assms(2)])
  show ?thesis using consume_ok [OF assms(2) n] vs n by auto
qed

lemma written_total:
  assumes "list_all iov_ok (io_vec_list c)" "n \<le> length (pend (io_vec_list c))"
  shows "\<exists>c'. written n c = Inr c'"
  using consume_ok [OF assms] by (auto simp: written_def gather_ok [OF assms(1)])

text \<open>How a call can end: finished, closed by an error, or waiting for room.\<close>

lemma write_loop_result:
  assumes "write_loop rs c = Some (Inr c')" "list_all iov_ok (io_vec_list c)" "\<not> tc_closed c"
  shows "list_all iov_ok (io_vec_list c') \<and> tc_wire c' @ pend (io_vec_list c') = tc_wire c @ pend (io_vec_list c) \<and>
    (tc_events c' = tc_events c @ [TcWriteComplete] \<and> io_vec_list c' = [] \<and> \<not> tc_closed c' \<or>
     tc_events c' = tc_events c @ [TcClose] \<and> tc_closed c' \<or>
     tc_events c' = tc_events c \<and> \<not> tc_closed c' \<and> tc_writing c' = tc_writing c)"
  using assms
proof (induction rs c rule: write_loop.induct)
  case (2 ret rs c)
  then obtain c1 where c1: "written ret c = Inr c1" by (cases "written ret c") simp_all
  note w = written_ok [OF c1 2(3)]
  show ?case
  proof (cases "io_vec_list c1 = []")
    case True
    then have "c' = write_done c1" using 2(2) c1 by simp
    then show ?thesis using True w 2(4) by (simp add: write_done_def tc_log_def)
  next
    case False
    then have "write_loop rs c1 = Some (Inr c')" using 2(2) c1 by simp
    from 2(1) [OF c1 False this] w 2(4) show ?thesis by auto
  qed
next
  case (3 e rs c)
  then show ?case by (auto simp: Tcp_OnClose_def tc_log_def split: if_splits)
qed simp

text \<open>Everything that can happen to a connection, and all that has been handed to it.\<close>

inductive tcp_run :: "byte list \<Rightarrow> tcp_conn \<Rightarrow> bool" where
  new: "tcp_run [] TcpConnection_new"
| send_list: "tcp_run sent c \<Longrightarrow>
    tcp_run (if tc_closed c then sent else sent @ concat bufs) (SendInLoop_list bufs c)"
| send_buf: "tcp_run sent c \<Longrightarrow> n \<le> length buf \<Longrightarrow> length buf < 2 ^ 63 \<Longrightarrow>
    tcp_run (if tc_closed c then sent else sent @ buf) (SendInLoop_buf (Wrote n) buf c)"
| on_write: "tcp_run sent c \<Longrightarrow> Tcp_OnWrite rs c = Some (Inr c') \<Longrightarrow> tcp_run sent c'"
| on_close: "tcp_run sent c \<Longrightarrow> tcp_run sent (Tcp_OnClose c)"

text \<open>What has been handed over is on the wire or queued, and what is queued is waited for.\<close>

definition tcp_inv :: "byte list \<Rightarrow> tcp_conn \<Rightarrow> bool" where
  "tcp_inv sent c \<longleftrightarrow> list_all iov_ok (io_vec_list c) \<and> tc_wire c @ pend (io_vec_list c) = sent \<and>
     (io_vec_list c = [] \<or> tc_writing c \<or> tc_closed c)"

lemma SendInLoop_list_inv:
  assumes "tcp_inv sent c" "\<not> tc_closed c"
  shows "tcp_inv (sent @ concat bufs) (SendInLoop_list bufs c)"
proof -
  have "pend (map (\<lambda>b. \<lparr>iov_mem = b, iov_base = 0, iov_len = length b\<rparr>) bufs) = concat bufs"
    by (simp add: pend_def iov_bytes_def comp_def)
  moreover have "list_all iov_ok (map (\<lambda>b. \<lparr>iov_mem = b, iov_base = 0, iov_len = length b\<rparr>) bufs)"
    by (simp add: iov_ok_def list_all_iff)
  ultimately show ?thesis using assms by (auto simp: tcp_inv_def SendInLoop_list_def Let_def pend_def)
qed

lemma SendInLoop_buf_inv:
  assumes "tcp_inv sent c" "\<not> tc_closed c" "n \<le> length buf" "length buf < 2 ^ 63"
  shows "tcp_inv (sent @ buf) (SendInLoop_buf (Wrote n) buf c)"
proof -
  let ?size = "of_nat (length buf) :: u64"
  have size: "unat ?size = length buf" using assms(4) by (simp add: unat_of_nat)
  show ?thesis
  proof (cases "io_vec_list c = []")
    case True
    have n: "unat (of_nat n :: u64) = n" using assms(3,4) by (simp add: unat_of_nat)
    then have left: "unat (?size - of_nat n) = length buf - n"
      using size assms(3) by (subst unat_sub) (simp_all add: word_le_nat_alt)
    have zero: "?size - of_nat n = 0 \<longleftrightarrow> n = length buf"
      using left assms(3) by (metis diff_is_0_eq le_antisym unat_eq_zero diff_self_eq_0)
    have base: "sint (of_nat n :: u64) = int n" using assms(3,4) by (simp add: signed_of_nat signed_take_bit_int_eq_self)
    show ?thesis
    proof (cases "n = length buf")
      case True
      then show ?thesis using assms(1,2) \<open>io_vec_list c = []\<close> zero
        by (simp add: tcp_inv_def SendInLoop_buf_def tc_log_def pend_def)
    next
      case False
      then have pos: "0 < ?size - of_nat n" using zero by (simp add: word_gt_0)
      have "pend [\<lparr>iov_mem = buf, iov_base = int n, iov_len = length buf - n\<rparr>] = drop n buf"
        by (simp add: pend_def iov_bytes_def)
      moreover have "iov_ok \<lparr>iov_mem = buf, iov_base = int n, iov_len = length buf - n\<rparr>"
        using assms(3) by (simp add: iov_ok_def)
      ultimately show ?thesis using assms(1,2) \<open>io_vec_list c = []\<close> False zero pos left base
        by (simp add: tcp_inv_def SendInLoop_buf_def) (auto simp: pend_def)
    qed
  next
    case False
    have b: "pend [\<lparr>iov_mem = buf, iov_base = 0, iov_len = length buf\<rparr>] = buf"
        "iov_ok \<lparr>iov_mem = buf, iov_base = 0, iov_len = length buf\<rparr>"
      by (simp_all add: pend_def iov_bytes_def iov_ok_def)
    have "0 < ?size \<longleftrightarrow> buf \<noteq> []" using size by (metis length_0_conv unat_0 word_gt_0 unat_eq_zero)
    then show ?thesis using assms(1,2) False size b
      by (auto simp: tcp_inv_def SendInLoop_buf_def pend_def)
  qed
qed

lemma OnWrite_result:
  assumes "Tcp_OnWrite rs c = Some (Inr c')" "list_all iov_ok (io_vec_list c)" "\<not> tc_closed c"
  shows "list_all iov_ok (io_vec_list c') \<and> tc_wire c' @ pend (io_vec_list c') = tc_wire c @ pend (io_vec_list c) \<and>
    (tc_events c' = tc_events c @ [TcExtendLife, TcWriteComplete] \<and> io_vec_list c' = [] \<and> \<not> tc_closed c' \<or>
     tc_events c' = tc_events c @ [TcExtendLife, TcClose] \<and> tc_closed c' \<or>
     tc_events c' = tc_events c @ [TcExtendLife] \<and> \<not> tc_closed c' \<and> tc_writing c' = tc_writing c \<and> io_vec_list c \<noteq> [])"
proof (cases "io_vec_list c = []")
  case True
  then show ?thesis using assms by (auto simp: Tcp_OnWrite_def write_done_def tc_log_def Let_def)
next
  case False
  then have "write_loop rs (tc_log TcExtendLife c) = Some (Inr c')"
    using assms(1,3) by (simp add: Tcp_OnWrite_def tc_log_def Let_def)
  from write_loop_result [OF this] assms(2,3) False show ?thesis by (simp add: tc_log_def)
qed

lemma tcp_run_inv: "tcp_run sent c \<Longrightarrow> tcp_inv sent c"
proof (induction rule: tcp_run.induct)
  case new
  then show ?case by (simp add: tcp_inv_def TcpConnection_new_def pend_def)
next
  case (send_list sent c bufs)
  then show ?case using SendInLoop_list_inv [of sent c bufs] by (auto simp: SendInLoop_list_def)
next
  case (send_buf sent c n buf)
  then show ?case using SendInLoop_buf_inv [of sent c n buf] by (auto simp: SendInLoop_buf_def)
next
  case (on_write sent c rs c')
  show ?case
  proof (cases "tc_closed c")
    case True
    then show ?thesis using on_write by (simp add: Tcp_OnWrite_def)
  next
    case False
    then show ?thesis using OnWrite_result [OF on_write.hyps(2) _ False] on_write.IH by (auto simp: tcp_inv_def)
  qed
next
  case (on_close sent c)
  then show ?case by (simp add: tcp_inv_def Tcp_OnClose_def tc_log_def)
qed

text \<open>A kernel that takes no more than it is offered.\<close>

fun honest :: "io_result list \<Rightarrow> nat \<Rightarrow> bool" where
  "honest [] n = True"
| "honest (Wrote k # rs) n = (k \<le> n \<and> honest rs (n - k))"
| "honest (IoError e # rs) n = honest rs n"

lemma write_loop_drains:
  assumes "list_all (\<lambda>v. iov_ok v \<and> 0 < iov_len v) (io_vec_list c)" "io_vec_list c \<noteq> []"
    and "list_all (\<lambda>k. 0 < k) ks" "sum_list ks = length (pend (io_vec_list c))"
  shows "\<exists>c'. write_loop (map Wrote ks) c = Some (Inr c') \<and> io_vec_list c' = [] \<and> \<not> tc_writing c' \<and>
    tc_wire c' = tc_wire c @ pend (io_vec_list c) \<and> tc_events c' = tc_events c @ [TcWriteComplete]"
  using assms
proof (induction ks arbitrary: c)
  case Nil
  then obtain v vs where "io_vec_list c = v # vs" "iov_ok v" "0 < iov_len v" by (cases "io_vec_list c") auto
  then have "0 < length (pend (io_vec_list c))" by (simp add: pend_Cons)
  then show ?case using Nil by simp
next
  case (Cons k ks)
  have ok: "list_all iov_ok (io_vec_list c)" using Cons.prems(1) by (simp add: list_all_iff)
  obtain c1 where c1: "written k c = Inr c1" using written_total [OF ok, of k] Cons.prems(4) by auto
  note w = written_ok [OF c1 ok]
  have pos: "list_all (\<lambda>v. iov_ok v \<and> 0 < iov_len v) (io_vec_list c1)"
  proof -
    have "list_all (\<lambda>v. 0 < iov_len v) vs'" if "consume n vs = Inr vs'" "list_all (\<lambda>v. 0 < iov_len v) vs" for n vs vs'
      using that by (induction n vs rule: consume.induct) (auto split: if_splits)
    moreover have "consume k (io_vec_list c) = Inr (io_vec_list c1)"
      using c1 by (auto simp: written_def)
    moreover have "list_all (\<lambda>v. 0 < iov_len v) (io_vec_list c)" using Cons.prems(1) by (simp add: list_all_iff)
    ultimately show ?thesis using w by (simp add: list_all_iff)
  qed
  show ?case
  proof (cases "io_vec_list c1 = []")
    case True
    then have "write_loop (map Wrote (k # ks)) c = Some (Inr (write_done c1))" using c1 by simp
    then show ?thesis using True w by (auto simp: write_done_def tc_log_def pend_def)
  next
    case False
    have "sum_list ks = length (pend (io_vec_list c1))" using w Cons.prems(4) by simp
    from Cons.IH [OF pos False _ this] Cons.prems(3) obtain c' where
      "write_loop (map Wrote ks) c1 = Some (Inr c')" "io_vec_list c' = []" "\<not> tc_writing c'"
      "tc_wire c' = tc_wire c1 @ pend (io_vec_list c1)" "tc_events c' = tc_events c1 @ [TcWriteComplete]" by auto
    then show ?thesis using c1 False w by simp
  qed
qed

text \<open>A queue that ends with an empty buffer never gets empty.\<close>

lemma consume_keeps_empty:
  assumes "iov_len e = 0" "consume n (vs @ [e]) = Inr vs'" "list_all iov_ok (vs @ [e])"
  shows "\<exists>ws. vs' = ws @ [e] \<and> list_all iov_ok (ws @ [e])"
  using assms(2,3)
proof (induction vs arbitrary: n)
  case Nil
  then show ?case using assms(1) by (auto split: if_splits)
next
  case (Cons v vs)
  have "n \<le> length (pend ((v # vs) @ [e]))" using consume_within [OF Cons.prems] .
  then obtain ws where w: "consume n ((v # vs) @ [e]) = Inr ws" "list_all iov_ok ws"
    using consume_ok [OF Cons.prems(2)] by blast
  then have ok: "list_all iov_ok vs'" using Cons.prems(1) by simp
  consider "n = 0" | "0 < n" "n < iov_len v" | "0 < n" "iov_len v \<le> n" by linarith
  then show ?case
  proof cases
    case 3
    then show ?thesis using Cons.IH [of "n - iov_len v"] Cons.prems by simp
  next
    case 2
    then have "vs' = (v\<lparr>iov_base := iov_base v + int n, iov_len := iov_len v - n\<rparr> # vs) @ [e]" using Cons.prems(1) by simp
    then show ?thesis using ok by blast
  next
    case 1
    then have "vs' = (v # vs) @ [e]" using Cons.prems(1) by simp
    then show ?thesis using ok by blast
  qed
qed

lemma write_loop_spins:
  assumes "list_all iov_ok (vs @ [e])" "iov_len e = 0" "io_vec_list c = vs @ [e]" "honest (map Wrote ks) (length (pend (vs @ [e])))"
  shows "write_loop (map Wrote ks) c = None"
  using assms(1,3,4)
proof (induction ks arbitrary: c vs)
  case (Cons k ks)
  have ok: "list_all iov_ok (io_vec_list c)" using Cons.prems by simp
  obtain c1 where c1: "written k c = Inr c1" using written_total [OF ok, of k] Cons.prems by auto
  note w = written_ok [OF c1 ok]
  have "consume k (vs @ [e]) = Inr (io_vec_list c1)" using c1 Cons.prems(2) by (auto simp: written_def)
  from consume_keeps_empty [OF assms(2) this Cons.prems(1)] obtain ws where
    ws: "io_vec_list c1 = ws @ [e]" "list_all iov_ok (ws @ [e])" by blast
  have "length (pend (ws @ [e])) + k = length (pend (vs @ [e]))" using w Cons.prems(2) ws(1) by simp
  then have "length (pend (ws @ [e])) = length (pend (vs @ [e])) - k" by linarith
  then have "write_loop (map Wrote ks) c1 = None" using Cons.IH [OF ws(2,1)] Cons.prems(3) by simp
  then show ?case using c1 ws(1) by simp
qed simp

section \<open>Properties\<close>

text \<open>C13: TCP sends what it is given. However buffers are handed over, one at a time or in lists, and however
  the kernel splits the writes: as long as the connection is open, what has been handed over is what
  the kernel has taken followed by what is queued, in order, nothing lost or doubled; after it has been
  closed the kernel has taken a prefix. What is queued lies inside its buffers, and is waited for.
  (Buffers sent one at a time must not fail on their first write.)\<close>

theorem tcp_sends_in_order:
  assumes "tcp_run sent c"
  shows "tc_wire c @ pend (io_vec_list c) = sent \<and> list_all iov_ok (io_vec_list c) \<and>
    (io_vec_list c = [] \<or> tc_writing c \<or> tc_closed c)"
  using tcp_run_inv [OF assms] by (simp add: tcp_inv_def)

text \<open>A call of \<open>OnWrite\<close> that returns has moved bytes from the queue to the wire and nothing else, and it
  reports completion just when it has emptied the queue, closes on an error, and otherwise keeps waiting.\<close>

theorem on_write_outcome:
  assumes "Tcp_OnWrite rs c = Some (Inr c')" "tcp_run sent c" "\<not> tc_closed c"
  shows "tc_wire c' @ pend (io_vec_list c') = sent \<and>
    (tc_events c' = tc_events c @ [TcExtendLife, TcWriteComplete] \<and> io_vec_list c' = [] \<and> \<not> tc_closed c' \<or>
     tc_events c' = tc_events c @ [TcExtendLife, TcClose] \<and> tc_closed c' \<or>
     tc_events c' = tc_events c @ [TcExtendLife] \<and> \<not> tc_closed c' \<and> tc_writing c' = tc_writing c)"
  using OnWrite_result [OF assms(1) _ assms(3)] tcp_run_inv [OF assms(2)] by (auto simp: tcp_inv_def)

text \<open>C35: The loop of \<open>OnWrite\<close> ends. When no buffer in the queue is empty and the kernel takes at least one
  byte each time, it returns as soon as the kernel has taken everything, with the queue empty,
  the interest in writing dropped and completion reported.\<close>

theorem on_write_drains:
  assumes "\<not> tc_closed c" "list_all (\<lambda>v. iov_ok v \<and> 0 < iov_len v) (io_vec_list c)" "io_vec_list c \<noteq> []"
    and "list_all (\<lambda>k. 0 < k) ks" "sum_list ks = length (pend (io_vec_list c))"
  shows "\<exists>c'. Tcp_OnWrite (map Wrote ks) c = Some (Inr c') \<and> io_vec_list c' = [] \<and> \<not> tc_writing c' \<and>
    tc_wire c' = tc_wire c @ pend (io_vec_list c) \<and> tc_events c' = tc_events c @ [TcExtendLife, TcWriteComplete]"
  using write_loop_drains [of "tc_log TcExtendLife c" ks] assms by (auto simp: Tcp_OnWrite_def tc_log_def Let_def)

text \<open>C36: An empty buffer at the end of the queue makes \<open>OnWrite\<close> spin: whatever the kernel takes, as long as it
  reports no error the loop never returns, since nothing is written any more that would take the
  empty buffer off the queue. The event loop of the connection and all its other connections stop.\<close>

theorem empty_buffer_spins:
  assumes "\<not> tc_closed c" "list_all iov_ok (io_vec_list c)" "io_vec_list c = vs @ [e]" "iov_len e = 0"
    and "honest (map Wrote ks) (length (pend (io_vec_list c)))"
  shows "Tcp_OnWrite (map Wrote ks) c = None"
  using write_loop_spins [of vs e "tc_log TcExtendLife c" ks] assms by (simp add: Tcp_OnWrite_def tc_log_def Let_def)

text \<open>C37: When the first write of a single buffer fails, even for lack of room, the failure is taken for a length: the
  queue gets one byte more than the buffer has, from one byte before it, and the next \<open>writev\<close> that the
  kernel accepts reads outside the buffer.\<close>

theorem failed_write_leaks:
  assumes "\<not> tc_closed c" "io_vec_list c = []" "length buf < 2 ^ 63" "0 < n"
  shows "io_vec_list (SendInLoop_buf (IoError e) buf c) = [\<lparr>iov_mem = buf, iov_base = -1, iov_len = length buf + 1\<rparr>] \<and>
    Tcp_OnWrite (Wrote n # rs) (SendInLoop_buf (IoError e) buf c) = Some (Inl OutOfBounds)"
proof -
  let ?size = "of_nat (length buf) :: u64"
  define w where "w = (of_nat (length buf + 1) :: u64)"
  have s: "?size + 1 = w" by (simp add: w_def)
  have u: "unat w = length buf + 1" using assms(3) by (simp add: w_def unat_of_nat del: of_nat_Suc of_nat_add)
  then have "w \<noteq> 0" by auto
  then have c': "SendInLoop_buf (IoError e) buf c =
      c\<lparr>io_vec_list := [\<lparr>iov_mem = buf, iov_base = -1, iov_len = length buf + 1\<rparr>], tc_writing := True\<rparr>"
    using assms(1,2) u unfolding SendInLoop_buf_def Let_def by (simp add: word_gt_0 s)
  have "min n (length buf + 1) \<noteq> 0" using assms(4) by simp
  then show ?thesis using assms(1,4) unfolding c'
    by (simp add: Tcp_OnWrite_def written_def iov_take_def tc_log_def Let_def)
qed

text \<open>A connection that is handed a list, writes half of it, and then the rest.\<close>

definition demo_conn :: tcp_conn where
  "demo_conn = SendInLoop_list [[1, 2, 3], [4, 5]] TcpConnection_new"

lemma demo_conn_run: "tcp_run [1, 2, 3, 4, 5] demo_conn"
proof -
  have "\<not> tc_closed TcpConnection_new" by (simp add: TcpConnection_new_def)
  then show ?thesis using tcp_run.send_list [OF tcp_run.new, of "[[1, 2, 3], [4, 5]]"] by (simp add: demo_conn_def)
qed

lemma demo_conn_simps:
  "\<not> tc_closed demo_conn" "tc_wire demo_conn = []" "io_vec_list demo_conn =
     [\<lparr>iov_mem = [1, 2, 3], iov_base = 0, iov_len = 3\<rparr>, \<lparr>iov_mem = [4, 5], iov_base = 0, iov_len = 2\<rparr>]"
  by (simp_all add: demo_conn_def SendInLoop_list_def TcpConnection_new_def Let_def)

lemma tcp_sends_in_order_witness:
  "tc_wire demo_conn @ pend (io_vec_list demo_conn) = [1, 2, 3, 4, 5]"
  using tcp_sends_in_order [OF demo_conn_run] by simp

lemma demo_conn_half: "\<exists>c. Tcp_OnWrite [Wrote 4, IoError 11] demo_conn = Some (Inr c) \<and> io_vec_list c \<noteq> []"
  using demo_conn_simps by (simp add: Tcp_OnWrite_def written_def iov_take_def tc_log_def Let_def retryable_def)

lemma on_write_outcome_witness:
  "\<exists>c. Tcp_OnWrite [Wrote 4, IoError 11] demo_conn = Some (Inr c) \<and> tc_wire c @ pend (io_vec_list c) = [1, 2, 3, 4, 5] \<and>
     io_vec_list c \<noteq> []"
proof -
  obtain c where c: "Tcp_OnWrite [Wrote 4, IoError 11] demo_conn = Some (Inr c)" "io_vec_list c \<noteq> []"
    using demo_conn_half by blast
  from on_write_outcome [OF c(1) demo_conn_run demo_conn_simps(1)] c show ?thesis by blast
qed

lemma on_write_drains_witness:
  "\<exists>c. Tcp_OnWrite (map Wrote [1, 3, 1]) demo_conn = Some (Inr c) \<and> tc_wire c = [1, 2, 3, 4, 5]"
  using on_write_drains [of demo_conn "[1, 3, 1]", OF demo_conn_simps(1)] unfolding demo_conn_simps
  by (auto simp: iov_ok_def pend_def iov_bytes_def)

lemma empty_buffer_spins_witness:
  "Tcp_OnWrite (map Wrote [2, 0, 0]) (SendInLoop_list [[7, 8], []] TcpConnection_new) = None"
proof -
  let ?c = "SendInLoop_list [[7, 8], []] TcpConnection_new"
  have c: "\<not> tc_closed ?c" "io_vec_list ?c =
      [\<lparr>iov_mem = [7, 8], iov_base = 0, iov_len = 2\<rparr>] @ [\<lparr>iov_mem = [], iov_base = 0, iov_len = 0\<rparr>]"
    by (simp_all add: SendInLoop_list_def TcpConnection_new_def Let_def)
  have "list_all iov_ok (io_vec_list ?c)" "honest (map Wrote [2, 0, 0]) (length (pend (io_vec_list ?c)))"
    unfolding c by (simp_all add: iov_ok_def pend_def iov_bytes_def)
  from empty_buffer_spins [OF c(1) this(1) c(2) _ this(2)] show ?thesis by simp
qed

lemma failed_write_leaks_witness:
  "Tcp_OnWrite [Wrote 1] (SendInLoop_buf (IoError 11) [65, 66] TcpConnection_new) = Some (Inl OutOfBounds)"
  using failed_write_leaks [of TcpConnection_new "[65, 66]" 1 11 "[]"] by (simp add: TcpConnection_new_def)

end
