(* ===== verification/Runs.thy ===== *)
theory Runs
  imports Prelude
begin

text \<open>
  Runs of a step function that may fault and reports an output per step, and what a client that
  counts steps may rely on: a step function that never faults on an invariant (\<open>total_steps\<close>), one
  on which something is due after a number of steps and happens once (\<open>countdown\<close>), and one on which
  it happens again and again (\<open>periodic\<close>).
\<close>

fun run_steps :: "('s \<Rightarrow> ('o \<times> 's) res) \<Rightarrow> nat \<Rightarrow> 's \<Rightarrow> ('o list \<times> 's) res" where
  "run_steps step 0 s = Inr ([], s)"
| "run_steps step (Suc n) s =
     bindE (step s) (\<lambda>(out, s). bindE (run_steps step n s) (\<lambda>(outs, s). Inr (out # outs, s)))"

lemma run_steps_length: "run_steps step n s = Inr (outs, s') \<Longrightarrow> length outs = n"
  by (induction n arbitrary: s outs) auto

lemma run_steps_SucE:
  assumes "run_steps step (Suc n) s = Inr (outs, s')"
  obtains out t rest where "step s = Inr (out, t)" "run_steps step n t = Inr (rest, s')" "outs = out # rest"
  using assms by auto

lemma run_steps_add:
  "run_steps step (m + n) s =
     bindE (run_steps step m s) (\<lambda>(outs, s). bindE (run_steps step n s) (\<lambda>(outs', s). Inr (outs @ outs', s)))"
proof (induction m arbitrary: s)
  case 0
  show ?case by (cases "run_steps step n s") auto
next
  case (Suc m)
  show ?case
  proof (cases "step s")
    case (Inr r)
    then show ?thesis
      by (cases r; cases "run_steps step m (snd r)"; cases "run_steps step n (snd (projr (run_steps step m (snd r))))")
         (auto simp: Suc)
  qed simp
qed

locale total_steps =
  fixes step :: "'s \<Rightarrow> ('o \<times> 's) res" and inv :: "'s \<Rightarrow> bool"
  assumes step_ok: "inv s \<Longrightarrow> \<exists>out s'. step s = Inr (out, s') \<and> inv s'"
begin

lemma run_ok: "inv s \<Longrightarrow> \<exists>outs s'. run_steps step n s = Inr (outs, s') \<and> inv s'"
proof (induction n arbitrary: s)
  case (Suc n)
  obtain out t where t: "step s = Inr (out, t)" "inv t" using step_ok [OF Suc.prems] by blast
  from Suc.IH [OF t(2)] t(1) show ?case by auto
qed simp

lemma step_inv: "inv s \<Longrightarrow> step s = Inr (out, s') \<Longrightarrow> inv s'"
  using step_ok [of s] by auto

end

locale countdown = total_steps step inv
  for step :: "'s \<Rightarrow> ('o \<times> 's) res" and inv :: "'s \<Rightarrow> bool" +
  fixes due :: "nat \<Rightarrow> 's \<Rightarrow> bool" and over :: "'s \<Rightarrow> bool" and hits :: "'o \<Rightarrow> nat"
  assumes due_step: "inv s \<Longrightarrow> due (Suc (Suc d)) s \<Longrightarrow> step s = Inr (out, s') \<Longrightarrow> hits out = 0 \<and> due (Suc d) s'"
    and hit_step: "inv s \<Longrightarrow> due (Suc 0) s \<Longrightarrow> step s = Inr (out, s') \<Longrightarrow> hits out = 1 \<and> over s'"
    and over_step: "inv s \<Longrightarrow> over s \<Longrightarrow> step s = Inr (out, s') \<Longrightarrow> hits out = 0 \<and> over s'"
begin

lemma over_run:
  "inv s \<Longrightarrow> over s \<Longrightarrow> run_steps step n s = Inr (outs, s') \<Longrightarrow> i < n \<Longrightarrow> hits (outs ! i) = 0"
proof (induction n arbitrary: s outs i)
  case (Suc n)
  from Suc.prems(3) obtain out t rest where t: "step s = Inr (out, t)" "run_steps step n t = Inr (rest, s')"
    "outs = out # rest" by (rule run_steps_SucE)
  show ?case
    using Suc.IH [OF step_inv [OF Suc.prems(1) t(1)] _ t(2)] over_step [OF Suc.prems(1,2) t(1)] Suc.prems(4) t(3)
    by (cases i) auto
qed simp

lemma due_run:
  "inv s \<Longrightarrow> due d s \<Longrightarrow> 0 < d \<Longrightarrow> run_steps step n s = Inr (outs, s') \<Longrightarrow> i < n \<Longrightarrow>
   hits (outs ! i) = (if i + 1 = d then 1 else 0)"
proof (induction n arbitrary: s d outs i)
  case (Suc n)
  from Suc.prems(4) obtain out t rest where t: "step s = Inr (out, t)" "run_steps step n t = Inr (rest, s')"
    "outs = out # rest" by (rule run_steps_SucE)
  note inv_t = step_inv [OF Suc.prems(1) t(1)]
  show ?case
  proof (cases "d = 1")
    case True
    then show ?thesis
      using hit_step [OF Suc.prems(1) _ t(1)] over_run [OF inv_t _ t(2)] Suc.prems(2,5) t(3)
      by (cases i) auto
  next
    case False
    then obtain e where e: "d = Suc (Suc e)" using Suc.prems(3) by (metis One_nat_def Suc_pred not0_implies_Suc)
    then show ?thesis
      using due_step [OF Suc.prems(1) _ t(1)] Suc.IH [OF inv_t _ _ t(2), of "Suc e"] Suc.prems(2,5) t(3)
      by (cases i) auto
  qed
qed simp

lemma due_later:
  "inv s \<Longrightarrow> due d s \<Longrightarrow> n < d \<Longrightarrow> run_steps step n s = Inr (outs, s') \<Longrightarrow>
   due (d - n) s' \<and> (\<forall>out \<in> set outs. hits out = 0)"
proof (induction n arbitrary: s d outs)
  case (Suc n)
  from Suc.prems(4) obtain out t rest where t: "step s = Inr (out, t)" "run_steps step n t = Inr (rest, s')"
    "outs = out # rest" by (rule run_steps_SucE)
  obtain e where e: "d = Suc (Suc e)" using Suc.prems(3) by (auto simp: less_iff_Suc_add intro: that)
  have h: "hits out = 0" "due (Suc e) t"
    using due_step [OF Suc.prems(1) _ t(1), of e] Suc.prems(2) by (simp_all add: e)
  have "due (Suc e - n) s' \<and> (\<forall>out \<in> set rest. hits out = 0)"
    by (rule Suc.IH [OF step_inv [OF Suc.prems(1) t(1)] h(2) _ t(2)]) (use Suc.prems(3) e in simp)
  with h(1) show ?case by (simp add: t(3) e)
qed simp

end

locale periodic = total_steps step inv
  for step :: "'s \<Rightarrow> ('o \<times> 's) res" and inv :: "'s \<Rightarrow> bool" +
  fixes due :: "nat \<Rightarrow> 's \<Rightarrow> bool" and period :: nat and hits :: "'o \<Rightarrow> nat"
  assumes period_pos: "0 < period"
    and due_step: "inv s \<Longrightarrow> due (Suc (Suc d)) s \<Longrightarrow> step s = Inr (out, s') \<Longrightarrow> hits out = 0 \<and> due (Suc d) s'"
    and again_step: "inv s \<Longrightarrow> due (Suc 0) s \<Longrightarrow> step s = Inr (out, s') \<Longrightarrow> hits out = 1 \<and> due period s'"
begin

lemma periodic_run:
  "inv s \<Longrightarrow> due d s \<Longrightarrow> 0 < d \<Longrightarrow> run_steps step n s = Inr (outs, s') \<Longrightarrow> i < n \<Longrightarrow>
   hits (outs ! i) = (if d \<le> i + 1 \<and> (i + 1 - d) mod period = 0 then 1 else 0)"
proof (induction n arbitrary: s d outs i)
  case (Suc n)
  from Suc.prems(4) obtain out t rest where t: "step s = Inr (out, t)" "run_steps step n t = Inr (rest, s')"
    "outs = out # rest" by (rule run_steps_SucE)
  note inv_t = step_inv [OF Suc.prems(1) t(1)]
  show ?case
  proof (cases "d = 1")
    case True
    have "i mod period = 0 \<longleftrightarrow> period \<le> i \<and> (i - period) mod period = 0" if "0 < i"
      using that period_pos by (metis le_mod_geq mod_if not_gr_zero not_le_imp_less)
    then show ?thesis
      using True again_step [OF Suc.prems(1) _ t(1)] Suc.IH [OF inv_t _ period_pos t(2)] Suc.prems(2,5) t(3)
      by (cases i) auto
  next
    case False
    then obtain e where e: "d = Suc (Suc e)" using Suc.prems(3) by (metis One_nat_def Suc_pred not0_implies_Suc)
    then show ?thesis
      using due_step [OF Suc.prems(1) _ t(1)] Suc.IH [OF inv_t _ _ t(2), of "Suc e"] Suc.prems(2,5) t(3)
      by (cases i) auto
  qed
qed simp

end

end
