(* ===== verification/TimingWheel.thy ===== *)
theory TimingWheel
  imports Runs
begin

text \<open>
  The timing wheel of the event loop, \<open>src/network/net/TimingWheel\<close>, and the idle timer of a
  connection that rests on it (\<open>TcpConnection::EnableCheckIdleTimeout\<close>, \<open>ExtendLife\<close>).

  A wheel is a list of slots; a slot (an \<open>unordered_set\<close> of shared pointers) is the list of what was
  put in it. The code runs a task in the destructor of the entry, when the last pointer to it goes,
  so entries have an identity here, a number, and a task runs when no slot refers to it any more.
  \<open>Later\<close> is the entry a coarser wheel holds: its destructor puts the task in a finer one. The order in
  which the pointers of one slot are destroyed is that of their insertion; the code leaves it open
  and the properties do not depend on it.

  Callbacks are numbers and running one adds it to the log of the tick. A delay is a \<open>double\<close> in the
  interface and converted to \<open>uint32_t\<close> at once; it is that number here.
\<close>

section \<open>State\<close>

datatype timing_type = Second | Minute | Hour | Day

datatype func =
    Call nat          \<comment> \<open>\<open>RunAfter\<close>, or the destructor of a \<open>TimeoutEntry\<close>\<close>
  | Repeat u32 nat    \<comment> \<open>\<open>RunEvery\<close>: the callback, then the same again\<close>

datatype item =
    Entry (ptr: nat) (task: func)
  | Later u32 (ptr: nat) (task: func)

record timing_wheel =
  wheels :: "timing_type \<Rightarrow> item list list"
  last_ts :: int
  tick :: nat
  next_ptr :: nat

definition wheel_size :: "timing_type \<Rightarrow> nat" where
  "wheel_size k = (case k of Second \<Rightarrow> 60 | Minute \<Rightarrow> 60 | Hour \<Rightarrow> 24 | Day \<Rightarrow> 30)"

definition TimingWheel_new :: timing_wheel where
  "TimingWheel_new = \<lparr>wheels = (\<lambda>k. replicate (wheel_size k) []), last_ts = 0, tick = 0, next_ptr = 0\<rparr>"

section \<open>Operations\<close>

text \<open>\<open>wheels_[k][i].emplace (x)\<close>.\<close>

definition emplace :: "item \<Rightarrow> item list \<Rightarrow> item list" where
  "emplace x s = (case x of Entry p f \<Rightarrow> if x \<in> set s then s else s @ [x] | Later r p f \<Rightarrow> s @ [x])"

definition put :: "timing_type \<Rightarrow> nat \<Rightarrow> item \<Rightarrow> timing_wheel \<Rightarrow> timing_wheel res" where
  "put k i x w =
     (if i < length (wheels w k)
      then Inr (w\<lparr>wheels := (wheels w)(k := (wheels w k)[i := emplace x (wheels w k ! i)])\<rparr>)
      else Inl OutOfBounds)"

definition InsertSecondEntry :: "u32 \<Rightarrow> nat \<Rightarrow> func \<Rightarrow> timing_wheel \<Rightarrow> timing_wheel res" where
  "InsertSecondEntry delay p f w = put Second (unat (delay - 1)) (Entry p f) w"

definition InsertMinuteEntry :: "u32 \<Rightarrow> nat \<Rightarrow> func \<Rightarrow> timing_wheel \<Rightarrow> timing_wheel res" where
  "InsertMinuteEntry delay p f w = put Minute (unat (delay div 60 - 1)) (Later (delay mod 60) p f) w"

definition InsertHourEntry :: "u32 \<Rightarrow> nat \<Rightarrow> func \<Rightarrow> timing_wheel \<Rightarrow> timing_wheel res" where
  "InsertHourEntry delay p f w = put Hour (unat (delay div 3600 - 1)) (Later (delay mod 3600) p f) w"

definition InsertDayEntry :: "u32 \<Rightarrow> nat \<Rightarrow> func \<Rightarrow> timing_wheel \<Rightarrow> timing_wheel res" where
  "InsertDayEntry delay p f w = put Day (unat (delay div 86400 - 1)) (Later (delay mod 86400) p f) w"

text \<open>For a delay of zero the code resets its copy of the pointer and goes on.\<close>

definition InsertEntry :: "u32 \<Rightarrow> nat \<Rightarrow> func \<Rightarrow> timing_wheel \<Rightarrow> timing_wheel res" where
  "InsertEntry delay p f w =
     (if delay < 60 then InsertSecondEntry delay p f w
      else if delay < 3600 then InsertMinuteEntry delay p f w
      else if delay < 86400 then InsertHourEntry delay p f w
      else if 30 < delay div 86400 then Inr w
      else InsertDayEntry delay p f w)"

definition items :: "timing_wheel \<Rightarrow> item list" where
  "items w = concat (wheels w Second) @ concat (wheels w Minute) @ concat (wheels w Hour) @ concat (wheels w Day)"

definition held :: "nat \<Rightarrow> item list \<Rightarrow> bool" where
  "held p xs = (p \<in> ptr ` set xs)"

text \<open>
  \<open>RunEvery\<close> makes a new entry; its own pointer goes at the end of the call. An entry that no slot
  took would then be destroyed, and its destructor calls \<open>RunEvery\<close> again, without end.
\<close>

definition RunEvery :: "u32 \<Rightarrow> nat \<Rightarrow> timing_wheel \<Rightarrow> timing_wheel res" where
  "RunEvery interval cb w =
     (let p = next_ptr w
      in bindE (InsertEntry interval p (Repeat interval cb) (w\<lparr>next_ptr := p + 1\<rparr>)) (\<lambda>w.
           if held p (items w) then Inr w else Inl StackOverflow))"

text \<open>The destructor of an entry.\<close>

definition run_task :: "func \<Rightarrow> timing_wheel \<Rightarrow> (nat list \<times> timing_wheel) res" where
  "run_task f w = (case f of Call cb \<Rightarrow> Inr ([cb], w)
     | Repeat interval cb \<Rightarrow> bindE (RunEvery interval cb w) (\<lambda>w. Inr ([cb], w)))"

text \<open>A pointer goes; \<open>others\<close> are the pointers still on the stack.\<close>

definition release :: "nat \<Rightarrow> func \<Rightarrow> item list \<Rightarrow> timing_wheel \<Rightarrow> (nat list \<times> timing_wheel) res" where
  "release p f others w = (if held p (others @ items w) then Inr ([], w) else run_task f w)"

definition RunAfter :: "u32 \<Rightarrow> nat \<Rightarrow> timing_wheel \<Rightarrow> (nat list \<times> timing_wheel) res" where
  "RunAfter delay cb w =
     (let p = next_ptr w
      in bindE (InsertEntry delay p (Call cb) (w\<lparr>next_ptr := p + 1\<rparr>)) (\<lambda>w. release p (Call cb) [] w))"

text \<open>The slot taken out is destroyed, one pointer after the other.\<close>

fun destroy :: "item list \<Rightarrow> timing_wheel \<Rightarrow> (nat list \<times> timing_wheel) res" where
  "destroy [] w = Inr ([], w)"
| "destroy (Entry p f # xs) w =
     bindE (release p f xs w) (\<lambda>(fired, w). bindE (destroy xs w) (\<lambda>(fired', w). Inr (fired @ fired', w)))"
| "destroy (Later second p f # xs) w =
     bindE (InsertEntry second p f w) (\<lambda>w. bindE (release p f xs w) (\<lambda>(fired, w).
       bindE (destroy xs w) (\<lambda>(fired', w). Inr (fired @ fired', w))))"

definition pop_slot :: "timing_type \<Rightarrow> timing_wheel \<Rightarrow> timing_wheel" where
  "pop_slot k w = w\<lparr>wheels := (wheels w)(k := tl (wheels w k) @ [[]])\<rparr>"

definition PopUp :: "timing_type \<Rightarrow> timing_wheel \<Rightarrow> (nat list \<times> timing_wheel) res" where
  "PopUp k w = destroy (hd (wheels w k)) (pop_slot k w)"

definition on_tick :: "timing_wheel \<Rightarrow> (nat list \<times> timing_wheel) res" where
  "on_tick w =
     (let w = w\<lparr>tick := tick w + 1\<rparr>
      in bindE (PopUp Second w) (\<lambda>(fired, w).
           if tick w mod 60 = 0 then bindE (PopUp Minute w) (\<lambda>(fired', w). Inr (fired @ fired', w))
           else if tick w mod 3600 = 0 then bindE (PopUp Hour w) (\<lambda>(fired', w). Inr (fired @ fired', w))
           else if tick w mod 86400 = 0 then bindE (PopUp Day w) (\<lambda>(fired', w). Inr (fired @ fired', w))
           else Inr (fired, w)))"

definition OnTimer :: "int \<Rightarrow> timing_wheel \<Rightarrow> (nat list \<times> timing_wheel) res" where
  "OnTimer now w =
     (let w = (if last_ts w = 0 then w\<lparr>last_ts := now\<rparr> else w)
      in if now - last_ts w < 1000 then Inr ([], w) else on_tick (w\<lparr>last_ts := now\<rparr>))"

text \<open>
  The idle timer of a connection: an entry whose destructor closes the connection (callback \<open>cb\<close>). The
  connection keeps a weak pointer, so extending its life puts the entry in another slot as long as
  the entry lives.
\<close>

definition EnableCheckIdleTimeout :: "u32 \<Rightarrow> nat \<Rightarrow> timing_wheel \<Rightarrow> (nat list \<times> nat \<times> timing_wheel) res" where
  "EnableCheckIdleTimeout max_time cb w =
     (let p = next_ptr w
      in bindE (RunAfter max_time cb w) (\<lambda>(fired, w). Inr (fired, p, w)))"

definition ExtendLife :: "u32 \<Rightarrow> nat \<Rightarrow> nat \<Rightarrow> timing_wheel \<Rightarrow> (nat list \<times> timing_wheel) res" where
  "ExtendLife max_idle_time p cb w =
     (if held p (items w)
      then bindE (InsertEntry max_idle_time p (Call cb) w) (\<lambda>w. release p (Call cb) [] w)
      else Inr ([], w))"

section \<open>The invariant\<close>

definition cb_of :: "func \<Rightarrow> nat" where
  "cb_of f = (case f of Call cb \<Rightarrow> cb | Repeat interval cb \<Rightarrow> cb)"

definition is_Entry :: "item \<Rightarrow> bool" where
  "is_Entry x = (case x of Entry p f \<Rightarrow> True | Later r p f \<Rightarrow> False)"

text \<open>The delays that no insertion fails for: no whole number of minutes below an hour, at most 30 days.\<close>

definition delay_ok :: "u32 \<Rightarrow> bool" where
  "delay_ok d = (if d < 3600 then d mod 60 \<noteq> 0 else d div 86400 \<le> 30)"

definition func_ok :: "func \<Rightarrow> bool" where
  "func_ok f = (case f of Call cb \<Rightarrow> True | Repeat interval cb \<Rightarrow> delay_ok interval)"

definition rest_ok :: "item \<Rightarrow> bool" where
  "rest_ok x = (case x of Entry p f \<Rightarrow> True | Later r p f \<Rightarrow> 0 < r \<and> r < 60)"

definition fits :: "timing_type \<Rightarrow> item \<Rightarrow> bool" where
  "fits k x = (case k of Second \<Rightarrow> is_Entry x | Minute \<Rightarrow> \<not> is_Entry x \<and> rest_ok x | _ \<Rightarrow> True)"

text \<open>\<open>xs\<close> are the pointers on the stack.\<close>

definition known :: "item list \<Rightarrow> timing_wheel \<Rightarrow> item \<Rightarrow> bool" where
  "known xs w x = (ptr x < next_ptr w \<and> func_ok (task x) \<and>
     (\<forall>y \<in> set (xs @ items w). ptr y = ptr x \<longrightarrow> task y = task x))"

definition wheel_ok :: "item list \<Rightarrow> timing_wheel \<Rightarrow> bool" where
  "wheel_ok xs w = ((\<forall>k. length (wheels w k) = wheel_size k \<and> (\<forall>x \<in> set (concat (wheels w k)). fits k x)) \<and>
     (\<forall>x \<in> set (xs @ items w). known xs w x))"

lemma wheel_ok_new: "wheel_ok [] TimingWheel_new"
  by (simp add: wheel_ok_def TimingWheel_new_def items_def)

lemma set_concat_emplace:
  assumes "i < length ss"
  shows "set (concat (ss[i := emplace x (ss ! i)])) = insert x (set (concat ss))"
proof -
  have e: "set (emplace x s) = insert x (set s)" for s
    by (auto simp: emplace_def split: item.splits)
  have "set (concat ss) = set (concat (take i ss @ ss ! i # drop (Suc i) ss))"
    using id_take_nth_drop [OF assms] by simp
  then show ?thesis by (simp add: upd_conv_take_nth_drop [OF assms] e)
qed

lemma set_items: "set (items w) = (\<Union>k. set (concat (wheels w k)))"
proof -
  have "(\<Union>k. A k) = A Second \<union> A Minute \<union> A Hour \<union> A Day" for A :: "timing_type \<Rightarrow> item set"
    by (auto, metis timing_type.exhaust)
  then show ?thesis by (simp add: items_def Un_assoc)
qed

lemma insert_one: "(\<Union>k'. if k' = k then insert x (A k) else A k') = insert x (\<Union>k'. A k')"
  by (auto split: if_splits)

lemma put_ok:
  assumes "wheel_ok xs w" "i < wheel_size k" "fits k x" "known xs w x"
  obtains w' where "put k i x w = Inr w'" "wheel_ok xs w'" "set (items w') = insert x (set (items w))"
    "wheels w' = (wheels w)(k := (wheels w k)[i := emplace x (wheels w k ! i)])"
    "next_ptr w' = next_ptr w" "tick w' = tick w" "last_ts w' = last_ts w"
proof -
  let ?w = "w\<lparr>wheels := (wheels w)(k := (wheels w k)[i := emplace x (wheels w k ! i)])\<rparr>"
  have i: "i < length (wheels w k)" using assms(1,2) by (simp add: wheel_ok_def)
  have c: "set (concat (wheels ?w k')) = (if k' = k then insert x (set (concat (wheels w k))) else set (concat (wheels w k')))" for k'
    using set_concat_emplace [OF i, of x] by simp
  have s: "set (items ?w) = insert x (set (items w))"
    unfolding set_items c by (rule insert_one)
  have "known xs ?w y" if "y \<in> set (xs @ items ?w)" for y
  proof (cases "y = x")
    case True
    then show ?thesis using assms(4) s by (simp add: known_def)
  next
    case False
    then have y: "y \<in> set (xs @ items w)" using that s by simp
    then have "known xs w y" using assms(1) unfolding wheel_ok_def by blast
    moreover have "ptr x = ptr y \<Longrightarrow> task x = task y" using assms(4) y unfolding known_def by metis
    ultimately show ?thesis using s by (simp add: known_def)
  qed
  moreover have "\<forall>y \<in> set (concat (wheels ?w k')). fits k' y" for k'
    using assms(1,3) unfolding c by (auto simp: wheel_ok_def)
  moreover have "length (wheels ?w k') = wheel_size k'" for k'
    using assms(1) by (simp add: wheel_ok_def)
  ultimately have "wheel_ok xs ?w" unfolding wheel_ok_def by blast
  with i s show ?thesis by (intro that [of ?w]) (simp_all add: put_def)
qed

text \<open>Where a delay goes.\<close>

definition spot :: "u32 \<Rightarrow> nat \<Rightarrow> func \<Rightarrow> timing_type \<times> nat \<times> item" where
  "spot d p f = (if d < 60 then (Second, unat d - 1, Entry p f)
     else if d < 3600 then (Minute, unat d div 60 - 1, Later (d mod 60) p f)
     else if d < 86400 then (Hour, unat d div 3600 - 1, Later (d mod 3600) p f)
     else (Day, unat d div 86400 - 1, Later (d mod 86400) p f))"

lemma unat_div_minus: "n \<le> d \<Longrightarrow> 0 < n \<Longrightarrow> unat (d div n - 1) = unat d div unat n - 1" for d n :: u32
proof -
  assume "n \<le> d" "0 < n"
  then have "0 < unat d div unat n" by (simp add: word_le_nat_alt word_less_nat_alt div_greater_zero_iff)
  then have "d div n \<noteq> 0" by (metis unat_div unsigned_0 less_irrefl)
  then show ?thesis by (simp add: unat_minus_one unat_div)
qed

lemma InsertEntry_spot:
  assumes "delay_ok d" "spot d p f = (k, i, x)"
  shows "InsertEntry d p f w = put k i x w" "i < wheel_size k" "fits k x" "ptr x = p" "task x = f"
proof -
  have lt: "d < n \<longleftrightarrow> unat d < unat n" for n by (simp add: word_less_nat_alt)
  have pos: "d \<noteq> 0" if "d < 3600" using assms(1) that by (auto simp: delay_ok_def)
  have rest: "0 < d mod 60" "d mod 60 < 60" if "d < 3600"
    using assms(1) that by (auto simp: delay_ok_def word_gt_0 word_mod_less_divisor)
  have days: "unat d div 86400 \<le> 30" if "\<not> d < 3600"
    using assms(1) that by (simp add: delay_ok_def word_le_nat_alt unat_div)
  show "InsertEntry d p f w = put k i x w"
  proof -
    have "unat (d - 1) = unat d - 1" if "d < 60"
      using pos that by (intro unat_minus_one) (auto simp: lt)
    moreover have "\<not> 30 < d div 86400" if "\<not> d < 86400"
      using days that by (simp add: word_less_nat_alt unat_div)
    ultimately show ?thesis using assms(2)
      by (auto simp: InsertEntry_def spot_def InsertSecondEntry_def InsertMinuteEntry_def InsertHourEntry_def
          InsertDayEntry_def unat_div_minus not_less split: if_splits)
  qed
  show "i < wheel_size k"
    using assms(2) days by (auto simp: spot_def wheel_size_def lt split: if_splits)
  show "fits k x"
    using assms(2) rest by (auto simp: spot_def fits_def is_Entry_def rest_ok_def split: if_splits)
  show "ptr x = p" "task x = f"
    using assms(2) by (auto simp: spot_def split: if_splits)
qed

lemma wheel_ok_mono: "wheel_ok xs w \<Longrightarrow> set ys \<subseteq> set xs \<Longrightarrow> wheel_ok ys w"
  unfolding wheel_ok_def known_def by (simp add: subset_iff) blast

text \<open>The entries of one callback.\<close>

definition mine :: "nat \<Rightarrow> item \<Rightarrow> bool" where
  "mine c x = (cb_of (task x) = c)"

definition view :: "nat \<Rightarrow> timing_wheel \<Rightarrow> timing_type \<Rightarrow> item list list" where
  "view c w = (\<lambda>k. map (filter (mine c)) (wheels w k))"

lemma filter_emplace:
  "filter (mine c) (emplace x s) = (if mine c x then emplace x (filter (mine c) s) else filter (mine c) s)"
  by (auto simp: emplace_def split: item.splits)

lemma view_update:
  assumes "wheels w' = (wheels w)(k := (wheels w k)[i := emplace x (wheels w k ! i)])" "i < length (wheels w k)"
  shows "view c w' = (if mine c x then (view c w)(k := (view c w k)[i := emplace x (view c w k ! i)]) else view c w)"
  using assms(2) by (auto simp: view_def assms(1) map_update filter_emplace fun_eq_iff list_update_same_conv)

lemma insert_ok:
  assumes "wheel_ok xs w" "delay_ok d" "p < next_ptr w" "func_ok f"
    "\<And>y. y \<in> set (xs @ items w) \<Longrightarrow> ptr y = p \<Longrightarrow> task y = f" "spot d p f = (k, i, x)"
  obtains w' where "InsertEntry d p f w = Inr w'" "wheel_ok xs w'" "held p (items w')"
    "view c w' = (if cb_of f = c then (view c w)(k := (view c w k)[i := emplace x (view c w k ! i)]) else view c w)"
    "next_ptr w' = next_ptr w" "tick w' = tick w" "last_ts w' = last_ts w"
proof -
  note sp = InsertEntry_spot [OF assms(2,6)]
  have kn: "known xs w x" using assms(3,4,5) sp(4,5) by (simp add: known_def)
  obtain w' where w': "put k i x w = Inr w'" "wheel_ok xs w'" "set (items w') = insert x (set (items w))"
    "wheels w' = (wheels w)(k := (wheels w k)[i := emplace x (wheels w k ! i)])"
    "next_ptr w' = next_ptr w" "tick w' = tick w" "last_ts w' = last_ts w"
    by (rule put_ok [OF assms(1) sp(2,3) kn])
  have "i < length (wheels w k)" using assms(1) sp(2) by (simp add: wheel_ok_def)
  note v = view_update [OF w'(4) this, of c]
  show ?thesis
    by (rule that [of w']) (use sp w' v in \<open>auto simp: mine_def held_def image_iff\<close>)
qed

lemma items_next [simp]: "items (w\<lparr>next_ptr := n\<rparr>) = items w" "items (w\<lparr>tick := t\<rparr>) = items w"
  "items (w\<lparr>last_ts := l\<rparr>) = items w"
  by (simp_all add: items_def)

text \<open>What an operation leaves alone.\<close>

definition same_clock :: "timing_wheel \<Rightarrow> timing_wheel \<Rightarrow> bool" where
  "same_clock w w' = (tick w' = tick w \<and> last_ts w' = last_ts w)"

lemma insert_fresh:
  assumes "wheel_ok xs w" "delay_ok d" "func_ok f" "spot d (next_ptr w) f = (k, i, x)"
  obtains w' where "InsertEntry d (next_ptr w) f (w\<lparr>next_ptr := next_ptr w + 1\<rparr>) = Inr w'" "wheel_ok xs w'"
    "held (next_ptr w) (items w')" "same_clock w w'"
    "view c w' = (if cb_of f = c then (view c w)(k := (view c w k)[i := emplace x (view c w k ! i)]) else view c w)"
proof -
  let ?v = "w\<lparr>next_ptr := next_ptr w + 1\<rparr>"
  have old: "ptr y < next_ptr w" if "y \<in> set (xs @ items w)" for y
    using assms(1) that unfolding wheel_ok_def known_def by blast
  have "known xs w y \<Longrightarrow> known xs ?v y" for y by (simp add: known_def)
  moreover have "wheels ?v = wheels w" by simp
  ultimately have v: "wheel_ok xs ?v"
    using assms(1) unfolding wheel_ok_def items_next by (metis (no_types, lifting))
  have fresh: "task y = f" if "y \<in> set (xs @ items ?v)" "ptr y = next_ptr w" for y
    using old [of y] that by simp
  obtain w' where w': "InsertEntry d (next_ptr w) f ?v = Inr w'" "wheel_ok xs w'" "held (next_ptr w) (items w')"
    "view c w' = (if cb_of f = c then (view c ?v)(k := (view c ?v k)[i := emplace x (view c ?v k ! i)]) else view c ?v)"
    "next_ptr w' = next_ptr ?v" "tick w' = tick ?v" "last_ts w' = last_ts ?v"
    by (rule insert_ok [OF v assms(2) _ assms(3) fresh assms(4), where c = c]) auto
  moreover have "view c ?v = view c w" by (simp add: view_def)
  ultimately show ?thesis by (intro that [of w']) (simp_all add: same_clock_def)
qed

lemma RunEvery_ok:
  assumes "wheel_ok xs w" "delay_ok d" "spot d (next_ptr w) (Repeat d cb) = (k, i, x)"
  obtains w' where "RunEvery d cb w = Inr w'" "wheel_ok xs w'" "same_clock w w'"
    "view c w' = (if cb = c then (view c w)(k := (view c w k)[i := emplace x (view c w k ! i)]) else view c w)"
proof -
  have fn: "func_ok (Repeat d cb)" using assms(2) by (simp add: func_ok_def)
  obtain w' where "InsertEntry d (next_ptr w) (Repeat d cb) (w\<lparr>next_ptr := next_ptr w + 1\<rparr>) = Inr w'" "wheel_ok xs w'"
    "held (next_ptr w) (items w')" "same_clock w w'"
    "view c w' = (if cb_of (Repeat d cb) = c then (view c w)(k := (view c w k)[i := emplace x (view c w k ! i)]) else view c w)"
    by (rule insert_fresh [OF assms(1,2) fn assms(3), where c = c])
  then show ?thesis by (intro that [of w']) (simp_all add: RunEvery_def cb_of_def)
qed

lemma RunAfter_ok:
  assumes "wheel_ok [] w" "delay_ok d" "spot d (next_ptr w) (Call cb) = (k, i, x)"
  obtains w' where "RunAfter d cb w = Inr ([], w')" "wheel_ok [] w'" "same_clock w w'"
    "view c w' = (if cb = c then (view c w)(k := (view c w k)[i := emplace x (view c w k ! i)]) else view c w)"
proof -
  obtain w' where "InsertEntry d (next_ptr w) (Call cb) (w\<lparr>next_ptr := next_ptr w + 1\<rparr>) = Inr w'" "wheel_ok [] w'"
    "held (next_ptr w) (items w')" "same_clock w w'"
    "view c w' = (if cb_of (Call cb) = c then (view c w)(k := (view c w k)[i := emplace x (view c w k ! i)]) else view c w)"
    by (rule insert_fresh [OF assms(1,2) _ assms(3), where c = c]) (simp add: func_ok_def)
  then show ?thesis by (intro that [of w']) (simp_all add: RunAfter_def release_def cb_of_def)
qed

text \<open>The effect of a destroyed pointer on the entries of another callback: none.\<close>

definition harmless :: "nat \<Rightarrow> item list \<Rightarrow> timing_wheel \<Rightarrow> nat list \<Rightarrow> timing_wheel \<Rightarrow> bool" where
  "harmless c xs w fired w' =
     (wheel_ok xs w' \<and> same_clock w w' \<and> view c w' = view c w \<and> c \<notin> set fired)"

lemma run_task_other:
  assumes "wheel_ok xs w" "func_ok f" "cb_of f \<noteq> c"
  shows "\<exists>fired w'. run_task f w = Inr (fired, w') \<and> harmless c xs w fired w'"
proof (cases f)
  case (Call cb)
  with assms show ?thesis by (simp add: run_task_def harmless_def same_clock_def cb_of_def)
next
  case (Repeat d cb)
  obtain k i x where sp: "spot d (next_ptr w) (Repeat d cb) = (k, i, x)" by (cases "spot d (next_ptr w) (Repeat d cb)")
  have d: "delay_ok d" using assms(2) Repeat by (simp add: func_ok_def)
  obtain w' where "RunEvery d cb w = Inr w'" "wheel_ok xs w'" "same_clock w w'"
    "view c w' = (if cb = c then (view c w)(k := (view c w k)[i := emplace x (view c w k ! i)]) else view c w)"
    by (rule RunEvery_ok [OF assms(1) d sp, where c = c])
  then show ?thesis using assms(3) Repeat by (simp add: run_task_def harmless_def cb_of_def)
qed

lemma release_other:
  assumes "wheel_ok (x # xs) w" "\<not> mine c x"
  shows "\<exists>fired w'. release (ptr x) (task x) xs w = Inr (fired, w') \<and> harmless c xs w fired w'"
proof -
  have ok: "wheel_ok xs w" by (rule wheel_ok_mono [OF assms(1)]) auto
  moreover have "func_ok (task x)" using assms(1) unfolding wheel_ok_def known_def by auto
  ultimately show ?thesis
    using run_task_other [of xs w "task x" c] assms(2) by (auto simp: release_def mine_def harmless_def same_clock_def)
qed

lemma rest_delay: "0 < r \<Longrightarrow> r < 60 \<Longrightarrow> delay_ok r"
proof -
  assume "0 < r" "r < 60"
  then have "unat r < 60" "0 < unat r" by (simp_all add: word_less_nat_alt)
  then have "unat (r mod 60) \<noteq> 0" "r < 3600" by (simp_all add: unat_mod word_less_nat_alt)
  then have "r mod 60 \<noteq> 0" "r < 3600" by (metis unsigned_0)+
  then show ?thesis unfolding delay_ok_def by (simp only: if_True simp_thms)
qed

lemma spot_rest: "0 < r \<Longrightarrow> r < 60 \<Longrightarrow> spot r p f = (Second, unat r - 1, Entry p f)"
  by (simp add: spot_def)

lemma insert_rest:
  assumes "wheel_ok (Later r p f # xs) w" "0 < r" "r < 60"
  obtains w' where "InsertEntry r p f w = Inr w'" "wheel_ok (Later r p f # xs) w'" "held p (items w')" "same_clock w w'"
    "view c w' = (if cb_of f = c then (view c w)(Second := (view c w Second)[unat r - 1 := emplace (Entry p f) (view c w Second ! (unat r - 1))]) else view c w)"
proof -
  have kn: "known (Later r p f # xs) w (Later r p f)" using assms(1) unfolding wheel_ok_def by simp
  then have "p < next_ptr w" "func_ok f" "\<And>y. y \<in> set ((Later r p f # xs) @ items w) \<Longrightarrow> ptr y = p \<Longrightarrow> task y = f"
    unfolding known_def item.sel by blast+
  then show ?thesis
    by (rule insert_ok [OF assms(1) rest_delay [OF assms(2,3)] _ _ _ spot_rest [OF assms(2,3)], where c = c])
      (auto intro: that simp: same_clock_def)
qed

lemma harmless_trans:
  "harmless c xs w fired v \<Longrightarrow> harmless c ys v fired' u \<Longrightarrow> harmless c ys w (fired @ fired') u"
  by (simp add: harmless_def same_clock_def)

lemma destroy_other:
  assumes "wheel_ok (xs @ ys) w" "\<forall>x \<in> set xs. \<not> mine c x \<and> rest_ok x"
  shows "\<exists>fired w'. harmless c ys w fired w' \<and>
     destroy (xs @ ys) w = bindE (destroy ys w') (\<lambda>(r, v). Inr (fired @ r, v))"
  using assms
proof (induction xs arbitrary: w)
  case Nil
  then show ?case by (intro exI [of _ "[]"] exI [of _ w]) (cases "destroy ys w"; auto simp: harmless_def same_clock_def)
next
  case (Cons x xs)
  have m: "\<not> mine c x" using Cons.prems(2) by simp
  obtain w0 where w0: "harmless c (x # xs @ ys) w [] w0"
    "destroy (x # xs @ ys) w = bindE (release (ptr x) (task x) (xs @ ys) w0) (\<lambda>(fired, v).
       bindE (destroy (xs @ ys) v) (\<lambda>(fired', v). Inr (fired @ fired', v)))"
  proof (cases x)
    case (Entry p f)
    then show ?thesis using Cons.prems by (intro that [of w]) (auto simp: harmless_def same_clock_def)
  next
    case (Later r p f)
    then have "0 < r" "r < 60" using Cons.prems(2) by (simp_all add: rest_ok_def)
    then obtain v where "InsertEntry r p f w = Inr v" "wheel_ok (Later r p f # xs @ ys) v" "held p (items v)" "same_clock w v"
      "view c v = (if cb_of f = c then (view c w)(Second := (view c w Second)[unat r - 1 := emplace (Entry p f) (view c w Second ! (unat r - 1))]) else view c w)"
      using Cons.prems(1) Later by (elim insert_rest [of r p f "xs @ ys" w c, rotated 1]) auto
    then show ?thesis using m Later by (intro that [of v]) (auto simp: harmless_def mine_def)
  qed
  obtain fired1 v where v: "release (ptr x) (task x) (xs @ ys) w0 = Inr (fired1, v)" "harmless c (xs @ ys) w0 fired1 v"
    using release_other [of x "xs @ ys" w0 c] w0(1) m by (auto simp: harmless_def)
  obtain fired2 w' where w': "harmless c ys v fired2 w'"
    "destroy (xs @ ys) v = bindE (destroy ys w') (\<lambda>(r, u). Inr (fired2 @ r, u))"
    using Cons.IH [of v] v(2) Cons.prems(2) by (auto simp: harmless_def)
  have "harmless c ys w ([] @ fired1 @ fired2) w'"
    by (rule harmless_trans [OF w0(1) harmless_trans [OF v(2) w'(1)]])
  moreover have "destroy ((x # xs) @ ys) w = bindE (destroy ys w') (\<lambda>(r, u). Inr ((fired1 @ fired2) @ r, u))"
    by (simp add: w0(2) v(1) w'(2)) (cases "destroy ys w'"; auto)
  ultimately show ?case by (metis append_Nil)
qed

section \<open>One tick, for one callback\<close>

definition silent :: "nat \<Rightarrow> timing_wheel \<Rightarrow> bool" where
  "silent c w = (\<forall>k. view c w k = replicate (wheel_size k) [])"

lemma silent_items: "silent c w \<Longrightarrow> x \<in> set (items w) \<Longrightarrow> \<not> mine c x"
proof
  assume s: "silent c w" and "x \<in> set (items w)" "mine c x"
  then obtain k ys where "ys \<in> set (wheels w k)" "x \<in> set ys" by (auto simp: set_items)
  then have "filter (mine c) ys \<in> set (view c w k)" "filter (mine c) ys \<noteq> []"
    using \<open>mine c x\<close> by (auto simp: view_def filter_empty_conv)
  then show False using s by (auto simp: silent_def)
qed

lemma pop_ok:
  assumes "wheel_ok [] w"
  shows "wheel_ok (hd (wheels w k)) (pop_slot k w)" "\<forall>x \<in> set (hd (wheels w k)). fits k x"
    "same_clock w (pop_slot k w)"
proof -
  let ?v = "pop_slot k w"
  have len: "length (wheels w k) = wheel_size k" using assms(1) by (simp add: wheel_ok_def)
  then have "wheels w k \<noteq> []" by (cases k) (auto simp: wheel_size_def)
  then obtain s ss where e: "wheels w k = s # ss" by (meson neq_Nil_conv)
  have wv: "wheels ?v = (wheels w)(k := ss @ [[]])" by (simp add: pop_slot_def e)
  have next_v: "next_ptr ?v = next_ptr w" by (simp add: pop_slot_def)
  have sub: "set (concat (wheels ?v k')) \<subseteq> set (concat (wheels w k'))" for k'
    unfolding wv by (cases "k' = k") (auto simp: e)
  have s: "set s \<subseteq> set (concat (wheels w k))" by (simp add: e)
  have subs: "set (s @ items ?v) \<subseteq> set (items w)"
    using sub s unfolding set_append set_items by blast
  have kn: "known [] w x" if "x \<in> set (items w)" for x using assms(1) that by (simp add: wheel_ok_def)
  have "known s ?v x" if "x \<in> set (s @ items ?v)" for x
    using kn [of x] subs that unfolding known_def next_v by auto
  moreover have "length (wheels ?v k') = wheel_size k'" for k'
    using assms(1) len unfolding wv wheel_ok_def by (simp add: e)
  moreover have "\<forall>x \<in> set (concat (wheels ?v k')). fits k' x" for k'
    using assms(1) sub [of k'] unfolding wheel_ok_def by blast
  ultimately show "wheel_ok (hd (wheels w k)) ?v" unfolding wheel_ok_def by (simp add: e)
  show "\<forall>x \<in> set (hd (wheels w k)). fits k x"
  proof -
    have "\<forall>x \<in> set (concat (wheels w k)). fits k x" using assms(1) unfolding wheel_ok_def by blast
    then show ?thesis by (simp add: e)
  qed
  show "same_clock w ?v" by (simp add: same_clock_def pop_slot_def)
qed

lemma pop_view:
  assumes "wheel_ok [] w"
  shows "view c (pop_slot k w) = (view c w)(k := tl (view c w k) @ [[]])"
    "filter (mine c) (hd (wheels w k)) = hd (view c w k)"
proof -
  have "length (wheels w k) = wheel_size k" using assms by (simp add: wheel_ok_def)
  then have "wheels w k \<noteq> []" by (cases k) (auto simp: wheel_size_def)
  then show "view c (pop_slot k w) = (view c w)(k := tl (view c w k) @ [[]])"
    "filter (mine c) (hd (wheels w k)) = hd (view c w k)"
    by (auto simp: view_def pop_slot_def map_tl hd_map)
qed

lemma fits_rest: "fits k x \<Longrightarrow> k = Second \<or> k = Minute \<Longrightarrow> rest_ok x"
  by (auto simp: fits_def is_Entry_def rest_ok_def split: item.splits)

text \<open>A slot without entries of the callback.\<close>

lemma PopUp_other:
  assumes "wheel_ok [] w" "k = Second \<or> k = Minute" "hd (view c w k) = []"
  obtains fired w' where "PopUp k w = Inr (fired, w')" "wheel_ok [] w'" "same_clock w w'" "c \<notin> set fired"
    "view c w' = (view c w)(k := tl (view c w k) @ [[]])"
proof -
  note pop = pop_ok [OF assms(1), of k] and pv = pop_view [OF assms(1), of c k]
  have "\<forall>x \<in> set (hd (wheels w k)). \<not> mine c x \<and> rest_ok x"
    using pop(2) pv(2) assms(2,3) fits_rest by (metis filter_empty_conv)
  from destroy_other [of _ "[]", OF _ this] pop(1)
  obtain fired w' where "harmless c [] (pop_slot k w) fired w'"
    "destroy (hd (wheels w k)) (pop_slot k w) = Inr (fired, w')"
    by (metis (no_types, lifting) append_Nil2 bindE.simps(2) case_prod_conv destroy.simps(1))
  then show ?thesis
    using pop(3) pv(1) by (intro that [of fired w']) (auto simp: PopUp_def harmless_def same_clock_def)
qed

text \<open>A slot with one: what comes before it is destroyed first and leaves it alone.\<close>

lemma destroy_up_to:
  assumes "wheel_ok xs w" "filter (mine c) xs = [x]" "\<forall>y \<in> set xs. rest_ok y"
  obtains fired v post where "harmless c (x # post) w fired v" "\<forall>y \<in> set post. \<not> mine c y \<and> rest_ok y"
    "destroy xs w = bindE (destroy (x # post) v) (\<lambda>(r, u). Inr (fired @ r, u))"
proof -
  obtain pre post where xs: "xs = pre @ x # post" "\<forall>y \<in> set pre. \<not> mine c y" "\<forall>y \<in> set post. \<not> mine c y"
    using assms(2) by (auto simp: filter_eq_Cons_iff) (metis filter_empty_conv)
  show ?thesis
    using destroy_other [of pre "x # post" w c] assms(1,3) xs by (auto intro: that)
qed

lemma destroy_rest:
  assumes "wheel_ok post v" "\<forall>y \<in> set post. \<not> mine c y \<and> rest_ok y"
  obtains fired w' where "destroy post v = Inr (fired, w')" "harmless c [] v fired w'"
  using destroy_other [of post "[]" v c] assms by auto

text \<open>Where the entries of a callback can be: in slots of the second wheel, the last of them after \<open>us\<close>; in
  slot \<open>j\<close> of the minute wheel; in neither.\<close>

definition sec_at :: "nat \<Rightarrow> nat \<Rightarrow> func \<Rightarrow> item list list \<Rightarrow> timing_wheel \<Rightarrow> bool" where
  "sec_at c p f us w = (cb_of f = c \<and> length us < 60 \<and> set us \<subseteq> {[], [Entry p f]} \<and>
     view c w = (\<lambda>k. if k = Second then us @ [Entry p f] # replicate (59 - length us) []
                     else replicate (wheel_size k) []))"

definition min_at :: "nat \<Rightarrow> nat \<Rightarrow> func \<Rightarrow> nat \<Rightarrow> u32 \<Rightarrow> timing_wheel \<Rightarrow> bool" where
  "min_at c p f j r w = (cb_of f = c \<and> j < 60 \<and> 0 < r \<and> r < 60 \<and>
     view c w = (\<lambda>k. if k = Minute then replicate j [] @ [Later r p f] # replicate (59 - j) []
                     else replicate (wheel_size k) []))"

definition parked :: "nat \<Rightarrow> timing_wheel \<Rightarrow> bool" where
  "parked c w = (view c w Second = replicate 60 [] \<and> view c w Minute = replicate 60 [])"

text \<open>The task \<open>f\<close> of entry \<open>p\<close> will run in \<open>d\<close> ticks.\<close>

definition waits :: "nat \<Rightarrow> nat \<Rightarrow> func \<Rightarrow> nat \<Rightarrow> timing_wheel \<Rightarrow> bool" where
  "waits c p f d w = ((\<exists>us. sec_at c p f us w \<and> d = length us + 1) \<or>
     (\<exists>j r. min_at c p f j r w \<and> d = 60 - tick w mod 60 + 60 * j + unat r))"

text \<open>The number of ticks until a task runs that is put in with delay \<open>d\<close> below an hour.\<close>

definition wait :: "u32 \<Rightarrow> nat \<Rightarrow> nat" where
  "wait d now = (if d < 60 then unat d else unat d - now mod 60)"

lemma wait_minutes: "60 \<le> d \<Longrightarrow> d - now mod 60 = 60 - now mod 60 + 60 * (d div 60 - 1) + d mod 60" for d now :: nat
proof -
  assume "60 \<le> d"
  then have "0 < d div 60" by (simp add: div_greater_zero_iff)
  then have "d = 60 + 60 * (d div 60 - 1) + d mod 60" by (simp add: algebra_simps)
  moreover have "now mod 60 < 60" by simp
  ultimately show ?thesis by linarith
qed

lemma silent_parked: "silent c w \<Longrightarrow> parked c w"
  by (simp add: silent_def parked_def wheel_size_def)

lemma replicate_update:
  "i < n \<Longrightarrow> (replicate n a)[i := b] = replicate i a @ b # replicate (n - 1 - i) a"
  by (simp add: upd_conv_take_nth_drop take_replicate drop_replicate)

lemma rotate_replicate: "0 < n \<Longrightarrow> tl (replicate n a) @ [a] = replicate n a"
  by (cases n) (simp_all add: replicate_append_same)

lemma view_put:
  assumes "silent c w" "i < wheel_size k" "view c w' = (view c w)(k := (view c w k)[i := emplace x (view c w k ! i)])"
  shows "view c w' = (\<lambda>k'. if k' = k then replicate i [] @ [x] # replicate (wheel_size k - 1 - i) []
           else replicate (wheel_size k') [])"
proof -
  have "emplace x [] = [x]" by (simp add: emplace_def split: item.splits)
  then show ?thesis using assms by (auto simp: silent_def replicate_update)
qed

lemma delay_pos: "delay_ok d \<Longrightarrow> d < 3600 \<Longrightarrow> 0 < unat d"
proof -
  assume "delay_ok d" "d < 3600"
  then have "d \<noteq> 0" by (auto simp: delay_ok_def)
  then show ?thesis by (metis unat_gt_0)
qed

lemma spot_sec:
  assumes "silent c w" "cb_of f = c" "delay_ok d" "d < 60" "spot d p f = (k, i, x)"
    "view c w' = (view c w)(k := (view c w k)[i := emplace x (view c w k ! i)])"
  shows "sec_at c p f (replicate (unat d - 1) []) w'"
proof -
  note v = view_put [OF assms(1) InsertEntry_spot(2) [OF assms(3,5)] assms(6)]
  have lt: "d < 3600" "unat d < 60" using assms(4) by (simp_all add: word_less_nat_alt)
  then show ?thesis
    using assms(2,4,5) v delay_pos [OF assms(3) lt(1)] by (auto simp: sec_at_def spot_def wheel_size_def fun_eq_iff)
qed

lemma spot_waits:
  assumes "silent c w" "cb_of f = c" "delay_ok d" "d < 3600" "spot d p f = (k, i, x)"
    "view c w' = (view c w)(k := (view c w k)[i := emplace x (view c w k ! i)])" "tick w' = tick w"
  shows "waits c p f (wait d (tick w)) w'"
proof (cases "d < 60")
  case True
  then show ?thesis
    using spot_sec [OF assms(1-3) _ assms(5,6)] delay_pos [OF assms(3,4)] unfolding waits_def wait_def
    by (intro disjI1 exI [of _ "replicate (unat d - 1) []"]) simp
next
  case False
  note v = view_put [OF assms(1) InsertEntry_spot(2) [OF assms(3,5)] assms(6)]
  have m: "0 < d mod 60" "d mod 60 < 60"
    using assms(3,4) by (auto simp: delay_ok_def word_gt_0 word_mod_less_divisor)
  have "unat d < 3600" "60 \<le> unat d" using False assms(4) by (auto simp: word_less_nat_alt)
  then have "min_at c p f (unat d div 60 - 1) (d mod 60) w'"
    using False m assms(2,4,5) v by (auto simp: min_at_def spot_def wheel_size_def fun_eq_iff)
  moreover have "unat (d mod 60) = unat d mod 60" by (simp add: unat_mod)
  ultimately show ?thesis using False assms(7) wait_minutes [OF \<open>60 \<le> unat d\<close>] unfolding waits_def wait_def
    by (intro disjI2 exI [of _ "unat d div 60 - 1"] exI [of _ "d mod 60"]) simp
qed

lemma spot_parked:
  assumes "silent c w" "delay_ok d" "\<not> d < 3600" "spot d p f = (k, i, x)"
    "view c w' = (view c w)(k := (view c w k)[i := emplace x (view c w k ! i)])"
  shows "parked c w'"
proof -
  have "k = Hour \<or> k = Day" using assms(3,4) by (auto simp: spot_def word_less_nat_alt split: if_splits)
  with assms(1,5) show ?thesis by (auto simp: parked_def silent_def wheel_size_def)
qed

text \<open>An entry that is held elsewhere is not run when a slot with it goes.\<close>

lemma mine_items: "mine c x \<Longrightarrow> x \<in> set (items w) \<longleftrightarrow> (\<exists>k. x \<in> set (concat (view c w k)))"
  by (auto simp: set_items view_def)

lemma destroy_held:
  assumes "wheel_ok xs w" "\<forall>y \<in> set xs. rest_ok y" "filter (mine c) xs \<in> {[], [Entry p f]}"
    "Entry p f \<in> set (items w)" "cb_of f = c"
  obtains fired w' where "destroy xs w = Inr (fired, w')" "harmless c [] w fired w'"
proof (cases "filter (mine c) xs = []")
  case True
  then have "\<forall>y \<in> set xs. \<not> mine c y \<and> rest_ok y" using assms(2) by (auto simp: filter_empty_conv)
  then show ?thesis using destroy_rest [OF assms(1)] that by blast
next
  case False
  then have one: "filter (mine c) xs = [Entry p f]" using assms(3) by simp
  obtain fired v post where v: "harmless c (Entry p f # post) w fired v" "\<forall>y \<in> set post. \<not> mine c y \<and> rest_ok y"
    "destroy xs w = bindE (destroy (Entry p f # post) v) (\<lambda>(r, u). Inr (fired @ r, u))"
    by (rule destroy_up_to [OF assms(1) one assms(2)])
  have "Entry p f \<in> set (items v)"
    using v(1) assms(4,5) mine_items [of c "Entry p f"] by (simp add: harmless_def mine_def)
  then have "held p (post @ items v)" by (force simp: held_def)
  then have rel: "release p f post v = Inr ([], v)" by (simp add: release_def)
  have "wheel_ok post v" using v(1) by (auto simp: harmless_def intro: wheel_ok_mono)
  then obtain fired' w' where w': "destroy post v = Inr (fired', w')" "harmless c [] v fired' w'"
    using destroy_rest v(2) by blast
  show ?thesis
    by (rule that [of "fired @ fired'" w', OF _ harmless_trans [OF v(1) w'(2)]]) (simp add: v(3) rel w'(1))
qed

text \<open>The last pointer to an entry goes: it is run, and a periodic task of less than a minute waits again.\<close>

definition run_again :: "nat \<Rightarrow> func \<Rightarrow> timing_wheel \<Rightarrow> bool" where
  "run_again c f w = (case f of Call cb \<Rightarrow> silent c w
     | Repeat d cb \<Rightarrow> if d < 60 then \<exists>p. sec_at c p f (replicate (unat d - 1) []) w else True)"

lemma destroy_fires:
  assumes "wheel_ok xs w" "\<forall>y \<in> set xs. rest_ok y" "filter (mine c) xs = [Entry p f]" "silent c w"
  obtains fired w' where "destroy xs w = Inr (fired, w')" "wheel_ok [] w'" "same_clock w w'"
    "count_list fired c = 1" "run_again c f w'"
proof -
  obtain fired v post where v: "harmless c (Entry p f # post) w fired v" "\<forall>y \<in> set post. \<not> mine c y \<and> rest_ok y"
    "destroy xs w = bindE (destroy (Entry p f # post) v) (\<lambda>(r, u). Inr (fired @ r, u))"
    by (rule destroy_up_to [OF assms(1,3,2)])
  have c: "cb_of f = c" using assms(3) by (auto simp: filter_eq_Cons_iff mine_def)
  have sil: "silent c v" using v(1) assms(4) by (simp add: harmless_def silent_def)
  have okv: "wheel_ok (Entry p f # post) v" using v(1) by (simp add: harmless_def)
  then have ok: "wheel_ok post v" by (rule wheel_ok_mono) auto
  have kn: "known (Entry p f # post) v (Entry p f)" using okv unfolding wheel_ok_def by simp
  have "\<not> held p (post @ items v)"
  proof
    assume "held p (post @ items v)"
    then obtain y where y: "y \<in> set (post @ items v)" "ptr y = p" by (auto simp: held_def)
    then have "task y = f" using kn unfolding known_def by auto
    then have "mine c y" using c by (simp add: mine_def)
    with y v(2) silent_items [OF sil] show False by auto
  qed
  then have rel: "release p f post v = run_task f v" by (simp add: release_def)
  have "\<exists>u. run_task f v = Inr ([c], u) \<and> wheel_ok post u \<and> same_clock v u \<and>
      (\<forall>u'. view c u' = view c u \<longrightarrow> same_clock u u' \<longrightarrow> run_again c f u')"
  proof (cases f)
    case (Call cb)
    then show ?thesis using ok c sil
      by (auto simp: run_task_def cb_of_def same_clock_def run_again_def silent_def)
  next
    case (Repeat d cb)
    have d: "delay_ok d" using kn Repeat by (simp add: known_def func_ok_def)
    obtain k i x where sp: "spot d (next_ptr v) (Repeat d cb) = (k, i, x)" by (cases "spot d (next_ptr v) (Repeat d cb)")
    obtain u where u: "RunEvery d cb v = Inr u" "wheel_ok post u" "same_clock v u"
      "view c u = (if cb = c then (view c v)(k := (view c v k)[i := emplace x (view c v k ! i)]) else view c v)"
      by (rule RunEvery_ok [OF ok d sp, where c = c])
    have cb: "cb = c" using c Repeat by (simp add: cb_of_def)
    have "run_again c f u'" if "view c u' = view c u" "same_clock u u'" for u'
      using that u(4) spot_sec [OF sil _ d _ sp, of u'] cb c Repeat
      by (auto simp: run_again_def)
    with u(1,2,3) cb Repeat show ?thesis by (auto simp: run_task_def)
  qed
  then obtain u where u: "run_task f v = Inr ([c], u)" "wheel_ok post u" "same_clock v u"
    "\<And>u'. view c u' = view c u \<Longrightarrow> same_clock u u' \<Longrightarrow> run_again c f u'" by blast
  obtain fired' w' where w': "destroy post u = Inr (fired', w')" "harmless c [] u fired' w'"
    by (rule destroy_rest [OF u(2) v(2)])
  have "count_list (fired @ [c] @ fired') c = 1"
    using v(1) w'(2) by (simp add: harmless_def count_list_0_iff)
  moreover have "run_again c f w'" using u(4) w'(2) by (simp add: harmless_def)
  moreover have "same_clock w w'" using v(1) u(3) w'(2) by (simp add: harmless_def same_clock_def)
  ultimately show ?thesis
    using w' by (intro that [of "fired @ [c] @ fired'" w']) (simp_all add: v(3) rel u(1) harmless_def)
qed

text \<open>A minute is over: the rest of the delay goes to the second wheel.\<close>

lemma destroy_moves:
  assumes "wheel_ok xs w" "\<forall>y \<in> set xs. rest_ok y" "filter (mine c) xs = [Later r p f]" "silent c w"
  obtains fired w' where "destroy xs w = Inr (fired, w')" "wheel_ok [] w'" "same_clock w w'"
    "c \<notin> set fired" "sec_at c p f (replicate (unat r - 1) []) w'"
proof -
  obtain fired v post where v: "harmless c (Later r p f # post) w fired v" "\<forall>y \<in> set post. \<not> mine c y \<and> rest_ok y"
    "destroy xs w = bindE (destroy (Later r p f # post) v) (\<lambda>(r, u). Inr (fired @ r, u))"
    by (rule destroy_up_to [OF assms(1,3,2)])
  have c: "cb_of f = c" and "rest_ok (Later r p f)" using assms(2,3) by (auto simp: filter_eq_Cons_iff mine_def)
  then have r: "0 < r" "r < 60" by (simp_all add: rest_ok_def)
  have sil: "silent c v" using v(1) assms(4) by (simp add: harmless_def silent_def)
  have okv: "wheel_ok (Later r p f # post) v" using v(1) by (simp add: harmless_def)
  obtain u where u: "InsertEntry r p f v = Inr u" "wheel_ok (Later r p f # post) u" "held p (items u)" "same_clock v u"
    "view c u = (if cb_of f = c then (view c v)(Second := (view c v Second)[unat r - 1 := emplace (Entry p f) (view c v Second ! (unat r - 1))]) else view c v)"
    by (rule insert_rest [OF okv r, where c = c])
  have rel: "release p f post u = Inr ([], u)" using u(3) by (auto simp: release_def held_def)
  obtain fired' w' where w': "destroy post u = Inr (fired', w')" "harmless c [] u fired' w'"
    using destroy_rest [OF wheel_ok_mono [OF u(2)] v(2)] by auto
  have lt: "unat r - 1 < wheel_size Second" using r(2) by (simp add: wheel_size_def word_less_nat_alt)
  have "view c u = (\<lambda>k'. if k' = Second then replicate (unat r - 1) [] @ [Entry p f] # replicate (wheel_size Second - 1 - (unat r - 1)) []
           else replicate (wheel_size k') [])"
    by (rule view_put [OF sil lt]) (use u(5) c in simp)
  then have "sec_at c p f (replicate (unat r - 1) []) w'"
    using w'(2) c lt by (auto simp: harmless_def sec_at_def wheel_size_def fun_eq_iff)
  moreover have "same_clock w w'" using v(1) u(4) w'(2) by (simp add: harmless_def same_clock_def)
  ultimately show ?thesis
    using w' v(1) by (intro that [of "fired @ fired'" w']) (simp_all add: v(3) u(1) rel harmless_def)
qed

section \<open>The whole tick\<close>

lemma ticked:
  "view c (w\<lparr>tick := t\<rparr>) = view c w" "wheel_ok [] (w\<lparr>tick := t\<rparr>) = wheel_ok [] w"
  "wheels (w\<lparr>tick := t\<rparr>) = wheels w"
  by (simp_all add: view_def wheel_ok_def known_def)

text \<open>Popping the minute wheel, or not.\<close>

definition minute_part :: "timing_wheel \<Rightarrow> (nat list \<times> timing_wheel) res" where
  "minute_part w = (if tick w mod 60 = 0 then PopUp Minute w else Inr ([], w))"

text \<open>The branches for the hour and the day wheel are never taken: the minute wheel's condition holds
  whenever one of theirs does.\<close>

lemma on_tick_parts:
  "on_tick w = bindE (PopUp Second (w\<lparr>tick := tick w + 1\<rparr>)) (\<lambda>(fired, w).
     bindE (minute_part w) (\<lambda>(fired', w). Inr (fired @ fired', w)))"
proof -
  have "t mod 60 = 0" if "t mod 3600 = 0 \<or> t mod 86400 = 0" for t :: nat
    using that by (auto simp: mod_eq_0_iff_dvd intro: dvd_trans [of 60 3600] dvd_trans [of 60 86400])
  then show ?thesis
    unfolding on_tick_def Let_def minute_part_def
    by (intro arg_cong2 [where f = bindE] refl ext) (auto split: prod.splits)
qed

lemma minute_part_other:
  assumes "wheel_ok [] w" "view c w Minute = replicate 60 []"
  obtains fired w' where "minute_part w = Inr (fired, w')" "wheel_ok [] w'" "same_clock w w'" "c \<notin> set fired"
    "view c w' = view c w"
proof (cases "tick w mod 60 = 0")
  case True
  have "tl (view c w Minute) @ [[]] = view c w Minute" 
    by (simp only: assms(2) rotate_replicate zero_less_numeral)
  then have "(view c w)(Minute := tl (view c w Minute) @ [[]]) = view c w" by (simp add: fun_eq_iff)
  moreover obtain fired w' where "PopUp Minute w = Inr (fired, w')" "wheel_ok [] w'" "same_clock w w'" "c \<notin> set fired"
    "view c w' = (view c w)(Minute := tl (view c w Minute) @ [[]])"
    by (rule PopUp_other [OF assms(1), of Minute c]) (simp_all add: assms(2))
  ultimately show ?thesis using True by (intro that [of fired w']) (simp_all add: minute_part_def)
qed (use assms in \<open>auto intro: that simp: minute_part_def same_clock_def\<close>)

definition ticks_to :: "nat \<Rightarrow> timing_wheel \<Rightarrow> nat list \<Rightarrow> timing_wheel \<Rightarrow> bool" where
  "ticks_to c w fired w' = (on_tick w = Inr (fired, w') \<and> wheel_ok [] w' \<and> tick w' = tick w + 1)"

lemma tick_two:
  assumes "PopUp Second (w\<lparr>tick := tick w + 1\<rparr>) = Inr (fired, v)" "same_clock (w\<lparr>tick := tick w + 1\<rparr>) v"
    "minute_part v = Inr (fired', w')" "same_clock v w'" "wheel_ok [] w'"
  shows "ticks_to c w (fired @ fired') w'"
  using assms by (simp add: ticks_to_def on_tick_parts same_clock_def)

text \<open>A tick without the callback.\<close>

lemma tick_parked:
  assumes "wheel_ok [] w" "parked c w"
  obtains fired w' where "ticks_to c w fired w'" "c \<notin> set fired" "view c w' = view c w"
proof -
  let ?w = "w\<lparr>tick := tick w + 1\<rparr>"
  have sec: "view c w Second = replicate 60 []" using assms(2) by (simp add: parked_def)
  obtain fired v where v: "PopUp Second ?w = Inr (fired, v)" "wheel_ok [] v" "same_clock ?w v" "c \<notin> set fired"
    "view c v = (view c ?w)(Second := tl (view c ?w Second) @ [[]])"
    by (rule PopUp_other [of ?w Second c]) (simp_all add: assms sec ticked)
  have vv: "view c v = view c w"
    unfolding v(5) ticked sec by (simp only: rotate_replicate zero_less_numeral) (simp add: fun_eq_iff sec)
  obtain fired' w' where w': "minute_part v = Inr (fired', w')" "wheel_ok [] w'" "same_clock v w'" "c \<notin> set fired'"
    "view c w' = view c v"
    by (rule minute_part_other [OF v(2), of c]) (use assms(2) vv in \<open>auto simp: parked_def\<close>)
  show ?thesis
    by (rule that [OF tick_two [OF v(1,3) w'(1,3,2)]]) (use v(4) w'(4,5) vv in simp_all)
qed

text \<open>A tick of a task in the second wheel: it moves up, or it runs.\<close>

lemma tick_second:
  assumes "wheel_ok [] w" "sec_at c p f (u # us) w"
  obtains fired w' where "ticks_to c w fired w'" "c \<notin> set fired" "sec_at c p f us w'"
proof -
  let ?w = "w\<lparr>tick := tick w + 1\<rparr>"
  have vw: "view c w = (\<lambda>k. if k = Second then (u # us) @ [Entry p f] # replicate (59 - length (u # us)) []
      else replicate (wheel_size k) [])" and c: "cb_of f = c" and len: "length (u # us) < 60"
    and us: "set (u # us) \<subseteq> {[], [Entry p f]}"
    using assms(2) by (simp_all add: sec_at_def)
  have ok: "wheel_ok [] ?w" using assms(1) by (simp add: ticked)
  note pop = pop_ok [OF ok, of Second] and pv = pop_view [OF ok, of c Second]
  have vv: "view c (pop_slot Second ?w) = (\<lambda>k. if k = Second then us @ [Entry p f] # replicate (59 - length us) []
      else replicate (wheel_size k) [])"
  proof -
    have "replicate (59 - length (u # us)) [] @ [[]] = (replicate (59 - length us) [] :: item list list)"
      using len by (simp add: replicate_append_same Suc_diff_Suc flip: replicate_Suc)
    then show ?thesis unfolding pv(1) ticked vw by (auto simp: fun_eq_iff)
  qed
  have "Entry p f \<in> set (concat (view c (pop_slot Second ?w) Second))" by (simp only: vv) simp
  then have mem: "Entry p f \<in> set (items (pop_slot Second ?w))"
    using c mine_items [of c "Entry p f"] by (metis item.sel(3) mine_def)
  have hd: "filter (mine c) (hd (wheels ?w Second)) \<in> {[], [Entry p f]}"
    unfolding ticked pv(2) [unfolded ticked] vw using us by simp
  obtain fired v where v: "destroy (hd (wheels ?w Second)) (pop_slot Second ?w) = Inr (fired, v)"
    "harmless c [] (pop_slot Second ?w) fired v"
    by (rule destroy_held [OF pop(1) _ hd mem c]) (use pop(2) fits_rest in blast)
  have pop_v: "PopUp Second ?w = Inr (fired, v)" by (simp only: PopUp_def v(1))
  have sc: "same_clock ?w v" using v(2) pop(3) by (simp add: harmless_def same_clock_def)
  have okv: "wheel_ok [] v" and viewv: "view c v = view c (pop_slot Second ?w)" using v(2) by (simp_all add: harmless_def)
  obtain fired' w' where w': "minute_part v = Inr (fired', w')" "wheel_ok [] w'" "same_clock v w'" "c \<notin> set fired'"
    "view c w' = view c v"
    by (rule minute_part_other [OF okv, of c]) (simp only: viewv vv wheel_size_def timing_type.case timing_type.distinct if_False)
  show ?thesis
    by (rule that [OF tick_two [OF pop_v sc w'(1,3,2)]])
      (use v(2) w'(4,5) viewv vv c len us in \<open>simp_all add: harmless_def sec_at_def\<close>)
qed

lemma tick_fires:
  assumes "wheel_ok [] w" "sec_at c p f [] w" "case f of Call cb \<Rightarrow> True | Repeat d cb \<Rightarrow> d < 60"
  obtains fired w' where "ticks_to c w fired w'" "count_list fired c = 1" "run_again c f w'"
proof -
  let ?w = "w\<lparr>tick := tick w + 1\<rparr>"
  have vw: "view c w = (\<lambda>k. if k = Second then [Entry p f] # replicate 59 [] else replicate (wheel_size k) [])"
    and c: "cb_of f = c"
    using assms(2) by (auto simp: sec_at_def fun_eq_iff)
  have ok: "wheel_ok [] ?w" using assms(1) by (simp add: ticked)
  note pop = pop_ok [OF ok, of Second] and pv = pop_view [OF ok, of c Second]
  have sil: "silent c (pop_slot Second ?w)"
    unfolding silent_def pv(1) ticked vw by (auto simp: wheel_size_def replicate_append_same simp flip: replicate_Suc)
  have hd: "filter (mine c) (hd (wheels ?w Second)) = [Entry p f]"
    unfolding ticked pv(2) [unfolded ticked] vw by simp
  have rest: "\<forall>y \<in> set (hd (wheels ?w Second)). rest_ok y" using pop(2) fits_rest by blast
  obtain fired v where v: "destroy (hd (wheels ?w Second)) (pop_slot Second ?w) = Inr (fired, v)"
    "wheel_ok [] v" "same_clock (pop_slot Second ?w) v" "count_list fired c = 1" "run_again c f v"
    by (rule destroy_fires [OF pop(1) rest hd sil])
  have pop_v: "PopUp Second ?w = Inr (fired, v)" by (simp only: PopUp_def v(1))
  have sc: "same_clock ?w v" using v(3) pop(3) by (simp add: same_clock_def)
  obtain fired' w' where w': "minute_part v = Inr (fired', w')" "wheel_ok [] w'" "same_clock v w'"
    "c \<notin> set fired'" "view c w' = view c v"
    by (rule minute_part_other [OF v(2), of c])
      (use v(5) assms(3) in \<open>auto simp: run_again_def silent_def sec_at_def wheel_size_def split: func.splits\<close>)
  have "run_again c f w'"
    using v(5) assms(3) w'(5) by (auto simp: run_again_def silent_def sec_at_def split: func.splits)
  show ?thesis
    by (rule that [OF tick_two [OF pop_v sc w'(1,3,2)]]) (use v(4) w'(4) \<open>run_again c f w'\<close> in \<open>simp_all add: count_list_0_iff\<close>)
qed

text \<open>A tick of a task in the minute wheel.\<close>

lemma tick_minute:
  assumes "wheel_ok [] w" "min_at c p f j r w"
  obtains fired w' where "ticks_to c w fired w'" "c \<notin> set fired"
    "if (tick w + 1) mod 60 \<noteq> 0 then min_at c p f j r w'
     else if j = 0 then sec_at c p f (replicate (unat r - 1) []) w' else min_at c p f (j - 1) r w'"
proof -
  let ?w = "w\<lparr>tick := tick w + 1\<rparr>"
  have vw: "view c w = (\<lambda>k. if k = Minute then replicate j [] @ [Later r p f] # replicate (59 - j) []
      else replicate (wheel_size k) [])" and c: "cb_of f = c" and j: "j < 60" and r: "0 < r" "r < 60"
    using assms(2) by (simp_all add: min_at_def)
  have ok: "wheel_ok [] ?w" using assms(1) by (simp add: ticked)
  obtain fired v where v: "PopUp Second ?w = Inr (fired, v)" "wheel_ok [] v" "same_clock ?w v" "c \<notin> set fired"
    "view c v = (view c ?w)(Second := tl (view c ?w Second) @ [[]])"
    by (rule PopUp_other [OF ok, of Second c]) (simp_all add: ticked vw wheel_size_def)
  have vv: "view c v = view c w"
    unfolding v(5) ticked vw by (auto simp: fun_eq_iff wheel_size_def replicate_append_same simp flip: replicate_Suc)
  have tv: "tick v = tick w + 1" using v(3) by (simp add: same_clock_def)
  show ?thesis
  proof (cases "(tick w + 1) mod 60 = 0")
    case False
    then have "minute_part v = Inr ([], v)" by (simp add: minute_part_def tv)
    from tick_two [OF v(1,3) this _ v(2)] False show ?thesis
      using v(4) vv assms(2) by (intro that [of fired v]) (simp_all add: same_clock_def min_at_def)
  next
    case True
    note pop = pop_ok [OF v(2), of Minute] and pv = pop_view [OF v(2), of c Minute]
    have mp: "minute_part v = PopUp Minute v" using True by (simp add: minute_part_def tv)
    show ?thesis
    proof (cases j)
      case 0
      have sil: "silent c (pop_slot Minute v)"
        unfolding silent_def pv(1) vv vw 0 by (auto simp: wheel_size_def replicate_append_same simp flip: replicate_Suc)
      have hd: "filter (mine c) (hd (wheels v Minute)) = [Later r p f]" unfolding pv(2) vv vw 0 by simp
      have rest: "\<forall>y \<in> set (hd (wheels v Minute)). rest_ok y" using pop(2) fits_rest by blast
      obtain fired' w' where w': "destroy (hd (wheels v Minute)) (pop_slot Minute v) = Inr (fired', w')"
        "wheel_ok [] w'" "same_clock (pop_slot Minute v) w'" "c \<notin> set fired'" "sec_at c p f (replicate (unat r - 1) []) w'"
        by (rule destroy_moves [OF pop(1) rest hd sil])
      have "minute_part v = Inr (fired', w')" by (simp only: mp PopUp_def w'(1))
      moreover have "same_clock v w'" using pop(3) w'(3) by (simp add: same_clock_def)
      ultimately show ?thesis
        using tick_two [OF v(1,3) _ _ w'(2)] v(4) w'(4,5) 0 True by (intro that [of "fired @ fired'" w']) simp_all
    next
      case (Suc i)
      obtain fired' w' where w': "PopUp Minute v = Inr (fired', w')" "wheel_ok [] w'" "same_clock v w'" "c \<notin> set fired'"
        "view c w' = (view c v)(Minute := tl (view c v Minute) @ [[]])"
        by (rule PopUp_other [OF v(2), of Minute c]) (simp_all add: vv vw Suc)
      have "min_at c p f i r w'"
        using c r j Suc unfolding min_at_def w'(5) vv vw
        by (auto simp: fun_eq_iff replicate_append_same Suc_diff_Suc simp flip: replicate_Suc)
      then show ?thesis
        using tick_two [OF v(1,3) _ w'(3,2)] w'(1,4) v(4) Suc True mp by (intro that [of "fired @ fired'" w']) simp_all
    qed
  qed
qed

section \<open>The wheel as a step machine\<close>

text \<open>No tick fails: there is always a callback that no entry has.\<close>

lemma unused_callback:
  assumes "wheel_ok [] w"
  shows "\<exists>c. silent c w"
proof -
  have "finite ((cb_of \<circ> task) ` set (items w))" by simp
  from ex_new_if_finite [OF infinite_UNIV_nat this]
  obtain c where c: "c \<notin> (cb_of \<circ> task) ` set (items w)" by blast
  have "filter (mine c) ys = []" if ys: "ys \<in> set (wheels w k)" for ys k
  proof -
    have "x \<in> set (items w)" if "x \<in> set ys" for x using that ys by (auto simp: set_items)
    then show ?thesis using c by (auto simp: filter_empty_conv mine_def)
  qed
  then have "map (filter (mine c)) (wheels w k) = map (\<lambda>_. []) (wheels w k)" for k by (intro map_cong) auto
  then have "view c w k = replicate (length (wheels w k)) []" for k
    by (simp add: view_def map_replicate_const)
  then show ?thesis using assms by (auto simp: silent_def wheel_ok_def)
qed

interpretation wheel: total_steps on_tick "wheel_ok []"
proof unfold_locales
  fix w assume ok: "wheel_ok [] w"
  then obtain c where "silent c w" using unused_callback by blast
  from tick_parked [OF ok silent_parked [OF this]] obtain out w' where "ticks_to c w out w'" by blast
  then show "\<exists>out w'. on_tick w = Inr (out, w') \<and> wheel_ok [] w'" by (auto simp: ticks_to_def)
qed

lemma waits_step:
  assumes "wheel_ok [] w" "waits c p f (Suc (Suc d)) w" "on_tick w = Inr (fired, w')"
  shows "count_list fired c = 0 \<and> waits c p f (Suc d) w'"
proof -
  consider u us where "sec_at c p f (u # us) w" "d = length us"
    | j r where "min_at c p f j r w" "Suc (Suc d) = 60 - tick w mod 60 + 60 * j + unat r"
    using assms(2) unfolding waits_def by (metis Suc_eq_plus1 Suc_inject length_Suc_conv)
  then show ?thesis
  proof cases
    case 1
    obtain out v where "ticks_to c w out v" "c \<notin> set out" "sec_at c p f us v"
      by (rule tick_second [OF assms(1) 1(1)])
    then show ?thesis using assms(3) 1(2) unfolding waits_def by (simp add: ticks_to_def count_list_0_iff) blast
  next
    case 2
    obtain out v where v: "ticks_to c w out v" "c \<notin> set out"
      "if (tick w + 1) mod 60 \<noteq> 0 then min_at c p f j r v
       else if j = 0 then sec_at c p f (replicate (unat r - 1) []) v else min_at c p f (j - 1) r v"
      by (rule tick_minute [OF assms(1) 2(1)])
    then have eq: "out = fired" "v = w'" and t: "tick w' = tick w + 1" using assms(3) by (simp_all add: ticks_to_def)
    have r: "0 < unat r" using 2(1) by (simp add: min_at_def unat_gt_0 word_gt_0)
    have "waits c p f (Suc d) w'"
    proof (cases "(tick w + 1) mod 60 = 0")
      case True
      then have m: "tick w mod 60 = 59" by (simp add: mod_Suc split: if_splits)
      show ?thesis
      proof (cases "j = 0")
        case True
        then show ?thesis using v(3) 2(2) m r \<open>(tick w + 1) mod 60 = 0\<close> eq unfolding waits_def
          by (intro disjI1 exI [of _ "replicate (unat r - 1) []"]) simp
      next
        case False
        then show ?thesis using v(3) 2(2) m \<open>(tick w + 1) mod 60 = 0\<close> eq t unfolding waits_def
          by (intro disjI2 exI [of _ "j - 1"] exI [of _ r]) simp
      qed
    next
      case False
      then have "(tick w + 1) mod 60 = tick w mod 60 + 1" by (simp add: mod_Suc split: if_splits)
      then show ?thesis using v(3) 2(2) False eq t unfolding waits_def
        by (intro disjI2 exI [of _ j] exI [of _ r]) simp
    qed
    then show ?thesis using v(2) eq by (simp add: count_list_0_iff)
  qed
qed

lemma waits_fires:
  assumes "wheel_ok [] w" "waits c p f (Suc 0) w" "on_tick w = Inr (fired, w')"
    "case f of Call cb \<Rightarrow> True | Repeat d cb \<Rightarrow> d < 60"
  shows "count_list fired c = 1 \<and> run_again c f w'"
proof -
  have "sec_at c p f [] w"
  proof -
    have "\<not> (min_at c p f j r w \<and> Suc 0 = 60 - tick w mod 60 + 60 * j + unat r)" for j r
    proof
      assume m: "min_at c p f j r w \<and> Suc 0 = 60 - tick w mod 60 + 60 * j + unat r"
      then have "0 < unat r" by (simp add: min_at_def unat_gt_0 word_gt_0)
      moreover have "tick w mod 60 < 60" by simp
      ultimately show False using m by linarith
    qed
    then show ?thesis using assms(2) unfolding waits_def by auto
  qed
  from tick_fires [OF assms(1) this assms(4)] assms(3) show ?thesis by (auto simp: ticks_to_def)
qed

interpretation once: countdown on_tick "wheel_ok []" "waits c p (Call c)" "parked c" "\<lambda>out. count_list out c"
  for c p
proof unfold_locales
  fix w w' :: timing_wheel and out d
  assume ok: "wheel_ok [] w"
  show "count_list out c = 0 \<and> waits c p (Call c) (Suc d) w'"
    if "waits c p (Call c) (Suc (Suc d)) w" "on_tick w = Inr (out, w')"
    using waits_step [OF ok] that by blast
  show "count_list out c = 1 \<and> parked c w'"
    if "waits c p (Call c) (Suc 0) w" "on_tick w = Inr (out, w')"
    using waits_fires [OF ok] that silent_parked by (fastforce simp: run_again_def)
  show "count_list out c = 0 \<and> parked c w'" if p: "parked c w" and t: "on_tick w = Inr (out, w')"
  proof -
    obtain out' v where "ticks_to c w out' v" "c \<notin> set out'" "view c v = view c w"
      by (rule tick_parked [OF ok p])
    then show ?thesis using p t by (simp add: ticks_to_def parked_def count_list_0_iff)
  qed
qed

text \<open>A periodic task of less than a minute.\<close>

interpretation every: periodic on_tick "wheel_ok []"
  "\<lambda>d w. 0 < i \<and> i < 60 \<and> (\<exists>p. waits c p (Repeat i c) d w)" "max 1 (unat i)" "\<lambda>out. count_list out c"
  for c i
proof unfold_locales
  fix w w' :: timing_wheel and out d
  assume ok: "wheel_ok [] w"
  show "count_list out c = 0 \<and> 0 < i \<and> i < 60 \<and> (\<exists>p. waits c p (Repeat i c) (Suc d) w')"
    if "0 < i \<and> i < 60 \<and> (\<exists>p. waits c p (Repeat i c) (Suc (Suc d)) w)" "on_tick w = Inr (out, w')"
    using waits_step [OF ok] that by blast
  assume due: "0 < i \<and> i < 60 \<and> (\<exists>p. waits c p (Repeat i c) (Suc 0) w)" and t: "on_tick w = Inr (out, w')"
  then have "0 < unat i" by (simp add: unat_gt_0 word_gt_0)
  moreover have "count_list out c = 1 \<and> run_again c (Repeat i c) w'"
    using waits_fires [OF ok _ t] due by fastforce
  ultimately show "count_list out c = 1 \<and> 0 < i \<and> i < 60 \<and> (\<exists>p. waits c p (Repeat i c) (max 1 (unat i)) w')"
    using due unfolding waits_def run_again_def
    by (auto intro!: exI [of _ "replicate (unat i - 1) []"])
qed simp

text \<open>The entry of an idle connection stays in the second wheel.\<close>

interpretation idle: countdown on_tick "wheel_ok []" "\<lambda>d w. \<exists>us. sec_at c p (Call c) us w \<and> d = length us + 1"
  "parked c" "\<lambda>out. count_list out c"
  for c p
proof unfold_locales
  fix w w' :: timing_wheel and out d
  assume ok: "wheel_ok [] w" and t: "on_tick w = Inr (out, w')"
  show "count_list out c = 0 \<and> (\<exists>us. sec_at c p (Call c) us w' \<and> Suc d = length us + 1)"
    if due: "\<exists>us. sec_at c p (Call c) us w \<and> Suc (Suc d) = length us + 1"
  proof -
    obtain u us where us: "sec_at c p (Call c) (u # us) w" "length us = d"
      using due by (metis Suc_eq_plus1 Suc_inject length_Suc_conv)
    obtain out' v where "ticks_to c w out' v" "c \<notin> set out'" "sec_at c p (Call c) us v"
      by (rule tick_second [OF ok us(1)])
    then show ?thesis using t us(2) by (auto simp: ticks_to_def count_list_0_iff)
  qed
  show "count_list out c = 1 \<and> parked c w'"
    if "\<exists>us. sec_at c p (Call c) us w \<and> Suc 0 = length us + 1"
    using once.hit_step [OF ok _ t] that unfolding waits_def by auto
  show "count_list out c = 0 \<and> parked c w'" if "parked c w"
    by (rule once.over_step [OF ok that t])
qed

section \<open>Reachable wheels\<close>

text \<open>What the event loop and its clients do to a wheel, with delays that no insertion fails for.\<close>

inductive reach :: "timing_wheel \<Rightarrow> bool" where
  new: "reach TimingWheel_new"
| after: "reach w \<Longrightarrow> delay_ok d \<Longrightarrow> RunAfter d c w = Inr (fired, w') \<Longrightarrow> reach w'"
| every: "reach w \<Longrightarrow> delay_ok d \<Longrightarrow> RunEvery d c w = Inr w' \<Longrightarrow> reach w'"
| extend: "reach w \<Longrightarrow> delay_ok d \<Longrightarrow> \<forall>x \<in> set (items w). ptr x = p \<longrightarrow> task x = Call c \<Longrightarrow>
    ExtendLife d p c w = Inr (fired, w') \<Longrightarrow> reach w'"
| timer: "reach w \<Longrightarrow> OnTimer now w = Inr (fired, w') \<Longrightarrow> reach w'"

lemma clocked: "wheel_ok xs (w\<lparr>last_ts := t\<rparr>) = wheel_ok xs w" "view c (w\<lparr>last_ts := t\<rparr>) = view c w"
  by (simp_all add: wheel_ok_def known_def view_def)

lemma OnTimer_ok:
  assumes "wheel_ok [] w"
  shows "\<exists>fired w'. OnTimer now w = Inr (fired, w') \<and> wheel_ok [] w'"
proof -
  let ?w = "if last_ts w = 0 then w\<lparr>last_ts := now\<rparr> else w"
  have "wheel_ok [] ?w" "wheel_ok [] (?w\<lparr>last_ts := now\<rparr>)" using assms by (simp_all add: clocked)
  with wheel.step_ok [OF this(2)] show ?thesis by (simp add: OnTimer_def Let_def del: fun_upd_apply)
qed

lemma ExtendLife_ok:
  assumes "wheel_ok [] w" "delay_ok d" "\<forall>x \<in> set (items w). ptr x = p \<longrightarrow> task x = Call cb" "held p (items w)"
    "spot d p (Call cb) = (k, i, x)"
  obtains w' where "ExtendLife d p cb w = Inr ([], w')" "wheel_ok [] w'" "same_clock w w'"
    "view c w' = (if cb = c then (view c w)(k := (view c w k)[i := emplace x (view c w k ! i)]) else view c w)"
proof -
  have "p < next_ptr w"
    using assms(1,4) unfolding wheel_ok_def known_def held_def by (metis append_Nil image_iff)
  then obtain w' where "InsertEntry d p (Call cb) w = Inr w'" "wheel_ok [] w'" "held p (items w')"
    "view c w' = (if cb_of (Call cb) = c then (view c w)(k := (view c w k)[i := emplace x (view c w k ! i)]) else view c w)"
    "next_ptr w' = next_ptr w" "tick w' = tick w" "last_ts w' = last_ts w"
    using assms(3) by (elim insert_ok [OF assms(1,2) _ _ _ assms(5), where c = c, rotated -1]) (simp_all add: func_ok_def)
  then show ?thesis
    using assms(4) by (intro that [of w']) (simp_all add: ExtendLife_def release_def cb_of_def same_clock_def)
qed

lemma reach_ok: "reach w \<Longrightarrow> wheel_ok [] w"
proof (induction rule: reach.induct)
  case new
  show ?case by (rule wheel_ok_new)
next
  case (after w d c fired w')
  obtain k i x where "spot d (next_ptr w) (Call c) = (k, i, x)" by (cases "spot d (next_ptr w) (Call c)")
  from RunAfter_ok [OF after(4,2) this] after(3) show ?case by (metis Inr_inject prod.inject)
next
  case (every w d c w')
  obtain k i x where "spot d (next_ptr w) (Repeat d c) = (k, i, x)" by (cases "spot d (next_ptr w) (Repeat d c)")
  from RunEvery_ok [OF every(4,2) this] every(3) show ?case by (metis Inr_inject)
next
  case (extend w d p c fired w')
  obtain k i x where sp: "spot d p (Call c) = (k, i, x)" by (cases "spot d p (Call c)")
  show ?case
  proof (cases "held p (items w)")
    case True
    from ExtendLife_ok [OF extend(5,2,3) True sp] extend(4) show ?thesis by (metis Inr_inject prod.inject)
  next
    case False
    then show ?thesis using extend(4,5) by (simp add: ExtendLife_def)
  qed
next
  case (timer w now fired w')
  with OnTimer_ok [OF timer(3), of now] show ?case by auto
qed

text \<open>Extending the life of a connection moves the last of its slots to the full idle time.\<close>

lemma ExtendLife_resets:
  assumes "wheel_ok [] w" "sec_at c p (Call c) us w" "length us < unat m" "m < 60"
  obtains w' us' where "ExtendLife m p c w = Inr ([], w')" "wheel_ok [] w'" "sec_at c p (Call c) us' w'"
    "length us' + 1 = unat m"
proof -
  let ?e = "Entry p (Call c)" and ?n = "unat m - 1"
  have m: "unat m < 60" using assms(4) by (simp add: word_less_nat_alt)
  have v: "view c w = (\<lambda>k. if k = Second then us @ [?e] # replicate (59 - length us) [] else replicate (wheel_size k) [])"
    and us: "set us \<subseteq> {[], [?e]}"
    using assms(2) by (simp_all add: sec_at_def)
  have "?e \<in> set (concat (view c w Second))" by (simp only: v) simp
  then have mem: "?e \<in> set (items w)" using mine_items [of c ?e w] by (auto simp: mine_def cb_of_def)
  then have "known [] w ?e" using assms(1) by (simp add: wheel_ok_def)
  then have task: "\<forall>x \<in> set (items w). ptr x = p \<longrightarrow> task x = Call c" by (simp add: known_def)
  have sp: "spot m p (Call c) = (Second, ?n, ?e)" using assms(4) by (simp add: spot_def)
  have "m \<noteq> 0" using assms(3) by auto
  then have d: "delay_ok m" using assms(4) by (intro rest_delay) (simp_all add: word_gt_0)
  have "held p (items w)" using mem by (force simp: held_def)
  then obtain w' where w': "ExtendLife m p c w = Inr ([], w')" "wheel_ok [] w'"
    "view c w' = (view c w)(Second := (view c w Second)[?n := emplace ?e (view c w Second ! ?n)])"
    using ExtendLife_ok [OF assms(1) d task _ sp, where c = c] by auto
  define r where "r = ?n - length us"
  have n: "?n = length us + r" "r \<le> 59 - length us" using assms(3) m by (auto simp: r_def)
  define us' where "us' = (if r = 0 then us else us @ [?e] # replicate (r - 1) [])"
  have "(us @ [?e] # replicate (59 - length us) [])[?n := emplace ?e ((us @ [?e] # replicate (59 - length us) []) ! ?n)]
      = us' @ [?e] # replicate (59 - length us') []"
  proof (cases r)
    case 0
    then show ?thesis unfolding n(1) us'_def by (simp add: emplace_def)
  next
    case (Suc q)
    then have q: "q < 59 - length us" using n(2) by simp
    then have "(us @ [?e] # replicate (59 - length us) []) ! ?n = []" unfolding n(1) Suc by (simp add: nth_append)
    then show ?thesis using q unfolding n(1) us'_def
      by (simp add: Suc emplace_def list_update_append replicate_update)
  qed
  then have "view c w' = (\<lambda>k. if k = Second then us' @ [?e] # replicate (59 - length us') [] else replicate (wheel_size k) [])"
    unfolding w'(3) v by (auto simp: fun_eq_iff)
  moreover have "length us' + 1 = unat m" "set us' \<subseteq> {[], [?e]}"
    using assms(3) us by (auto simp: us'_def r_def)
  ultimately show ?thesis
    using w'(1,2) m by (intro that [of w' us']) (auto simp: sec_at_def cb_of_def)
qed

text \<open>A connection that extends its life after each number of ticks in a list; the log of all callbacks.\<close>

fun keep_alive :: "u32 \<Rightarrow> nat \<Rightarrow> nat \<Rightarrow> nat list \<Rightarrow> timing_wheel \<Rightarrow> (nat list \<times> timing_wheel) res" where
  "keep_alive m p c [] w = Inr ([], w)"
| "keep_alive m p c (g # gs) w =
     bindE (run_steps on_tick g w) (\<lambda>(logs, w). bindE (ExtendLife m p c w) (\<lambda>(fired, w).
       bindE (keep_alive m p c gs w) (\<lambda>(fired', w). Inr (concat logs @ fired @ fired', w))))"

lemma keep_alive_ok:
  assumes "wheel_ok [] w" "sec_at c p (Call c) us w" "length us + 1 = unat m" "m < 60" "\<forall>g \<in> set gaps. g < unat m"
  shows "\<exists>fired w' us'. keep_alive m p c gaps w = Inr (fired, w') \<and> c \<notin> set fired \<and> wheel_ok [] w' \<and>
     sec_at c p (Call c) us' w' \<and> length us' + 1 = unat m"
  using assms
proof (induction gaps arbitrary: w us)
  case (Cons g gs)
  obtain logs v where v: "run_steps on_tick g w = Inr (logs, v)" "wheel_ok [] v"
    using wheel.run_ok [OF Cons.prems(1)] by blast
  have g: "g < unat m" using Cons.prems(5) by simp
  have "(\<exists>us. sec_at c p (Call c) us v \<and> unat m - g = length us + 1) \<and> (\<forall>out \<in> set logs. count_list out c = 0)"
    by (rule idle.due_later [OF Cons.prems(1) _ g v(1)]) (use Cons.prems(2,3) in auto)
  then obtain vs where vs: "sec_at c p (Call c) vs v" "unat m - g = length vs + 1" "c \<notin> set (concat logs)"
    by (auto simp: count_list_0_iff)
  obtain u us' where u: "ExtendLife m p c v = Inr ([], u)" "wheel_ok [] u" "sec_at c p (Call c) us' u" "length us' + 1 = unat m"
    by (rule ExtendLife_resets [OF v(2) vs(1) _ Cons.prems(4)]) (use vs(2) g in simp_all)
  from Cons.IH [OF u(2,3,4) Cons.prems(4)] Cons.prems(5) v(1) u(1) vs(3) show ?case by auto
qed auto

section \<open>Properties\<close>

lemma RunAfter_starts:
  assumes "reach w" "delay_ok d" "silent c w"
  obtains w' where "RunAfter d c w = Inr ([], w')" "wheel_ok [] w'"
    "d < 60 \<Longrightarrow> sec_at c (next_ptr w) (Call c) (replicate (unat d - 1) []) w'"
    "d < 3600 \<Longrightarrow> waits c (next_ptr w) (Call c) (wait d (tick w)) w'" "\<not> d < 3600 \<Longrightarrow> parked c w'"
proof -
  obtain k i x where sp: "spot d (next_ptr w) (Call c) = (k, i, x)" by (cases "spot d (next_ptr w) (Call c)")
  obtain w' where w': "RunAfter d c w = Inr ([], w')" "wheel_ok [] w'" "same_clock w w'"
    "view c w' = (if c = c then (view c w)(k := (view c w k)[i := emplace x (view c w k ! i)]) else view c w)"
    by (rule RunAfter_ok [OF reach_ok [OF assms(1)] assms(2) sp])
  have cb: "cb_of (Call c) = c" by (simp add: cb_of_def)
  show ?thesis
    by (rule that [OF w'(1,2)])
      (use w'(3,4) spot_sec [OF assms(3) cb assms(2) _ sp] spot_waits [OF assms(3) cb assms(2) _ sp]
        spot_parked [OF assms(3,2) _ sp] in \<open>simp_all add: same_clock_def\<close>)
qed

text \<open>a task that is put in with a delay below an hour (and not of whole minutes) runs exactly once.
  Below a minute it runs at the tick of its delay; from a minute on it runs too early, by the
  seconds that have gone by since the last full minute.\<close>

theorem RunAfter_runs_once:
  assumes "reach w" "delay_ok d" "d < 3600" "silent c w"
  shows "\<exists>w' logs w''. RunAfter d c w = Inr ([], w') \<and> run_steps on_tick n w' = Inr (logs, w'') \<and>
    (\<forall>i < n. count_list (logs ! i) c =
      (if i + 1 = (if d < 60 then unat d else unat d - tick w mod 60) then 1 else 0))"
proof -
  obtain w' where w': "RunAfter d c w = Inr ([], w')" "wheel_ok [] w'"
    "waits c (next_ptr w) (Call c) (wait d (tick w)) w'"
    using RunAfter_starts [OF assms(1,2,4)] assms(3) by metis
  obtain logs w'' where r: "run_steps on_tick n w' = Inr (logs, w'')" using wheel.run_ok [OF w'(2)] by blast
  have "60 \<le> unat d" if "\<not> d < 60" using that by (simp add: word_less_nat_alt)
  moreover have "tick w mod 60 < 60" by simp
  ultimately have "0 < wait d (tick w)" using delay_pos [OF assms(2,3)] by (auto simp: wait_def simp del: mod_less_divisor)
  from once.due_run [OF w'(2,3) this r] w'(1) r show ?thesis unfolding wait_def by blast
qed

lemma RunAfter_runs_once_witness:
  "\<exists>w' logs w''. RunAfter 90 7 TimingWheel_new = Inr ([], w') \<and>
    run_steps on_tick 100 w' = Inr (logs, w'') \<and> count_list (logs ! 89) 7 = 1 \<and> count_list (logs ! 30) 7 = 0"
proof -
  have "silent 7 TimingWheel_new" by (simp add: silent_def view_def TimingWheel_new_def)
  then show ?thesis
    using RunAfter_runs_once [OF reach.new, of 90 7 100]
    by (auto simp: delay_ok_def TimingWheel_new_def dest: spec [of _ 89] spec [of _ 30])
qed

text \<open>C32: a periodic task of less than a minute runs at every multiple of its interval and at no other
  tick, for ever.\<close>

theorem RunEvery_periodic:
  assumes "reach w" "0 < d" "d < 60" "silent c w"
  shows "\<exists>w' logs w''. RunEvery d c w = Inr w' \<and> run_steps on_tick n w' = Inr (logs, w'') \<and>
    (\<forall>i < n. count_list (logs ! i) c = (if (i + 1) mod unat d = 0 then 1 else 0))"
proof -
  have ok: "delay_ok d" using assms(2,3) by (rule rest_delay)
  obtain k i x where sp: "spot d (next_ptr w) (Repeat d c) = (k, i, x)" by (cases "spot d (next_ptr w) (Repeat d c)")
  obtain w' where w': "RunEvery d c w = Inr w'" "wheel_ok [] w'" "same_clock w w'"
    "view c w' = (if c = c then (view c w)(k := (view c w k)[i := emplace x (view c w k ! i)]) else view c w)"
    by (rule RunEvery_ok [OF reach_ok [OF assms(1)] ok sp])
  have pos: "0 < unat d" using assms(2) by (simp add: unat_gt_0 word_gt_0)
  have "sec_at c (next_ptr w) (Repeat d c) (replicate (unat d - 1) []) w'"
    by (rule spot_sec [OF assms(4) _ ok assms(3) sp]) (use w'(4) in \<open>simp_all add: cb_of_def\<close>)
  then have "waits c (next_ptr w) (Repeat d c) (unat d) w'" using pos unfolding waits_def by force
  then have due: "0 < d \<and> d < 60 \<and> (\<exists>p. waits c p (Repeat d c) (unat d) w')" using assms(2,3) by blast
  obtain logs w'' where r: "run_steps on_tick n w' = Inr (logs, w'')" using wheel.run_ok [OF w'(2)] by blast
  have mod: "unat d \<le> i + 1 \<and> (i + 1 - unat d) mod unat d = 0 \<longleftrightarrow> (i + 1) mod unat d = 0" for i
    using pos by (metis Suc_eq_plus1 le_mod_geq mod_if nat.simps(3) not_le_imp_less)
  have "max 1 (unat d) = unat d" using pos by simp
  with every.periodic_run [OF w'(2) due pos r]
  have "count_list (logs ! i) c = (if (i + 1) mod unat d = 0 then 1 else 0)" if "i < n" for i
    using that by (simp only: mod)
  with w'(1) r show ?thesis by blast
qed

lemma RunEvery_periodic_witness:
  "\<exists>w' logs w''. RunEvery 5 7 TimingWheel_new = Inr w' \<and> run_steps on_tick 100 w' = Inr (logs, w'') \<and>
    count_list (logs ! 94) 7 = 1 \<and> count_list (logs ! 95) 7 = 0"
proof -
  have "silent 7 TimingWheel_new" by (simp add: silent_def view_def TimingWheel_new_def)
  then show ?thesis
    using RunEvery_periodic [OF reach.new, of 5 7 100] by (auto dest: spec [of _ 94] spec [of _ 95])
qed

text \<open>a task that is put in with a delay of an hour or more (up to 30 days) never runs, however long the
  wheel turns: the condition for the minute wheel hides those for the hour and the day wheel.\<close>

theorem hours_never_run:
  assumes "reach w" "3600 \<le> d" "d div 86400 \<le> 30" "silent c w"
  shows "\<exists>w' logs w''. RunAfter d c w = Inr ([], w') \<and> run_steps on_tick n w' = Inr (logs, w'') \<and>
    (\<forall>i < n. c \<notin> set (logs ! i))"
proof -
  have lt: "\<not> d < 3600" using assms(2) by (simp add: not_less)
  then have d: "delay_ok d" "\<not> d < 3600" using assms(3) unfolding delay_ok_def by (simp_all only: if_False simp_thms)
  obtain w' where w': "RunAfter d c w = Inr ([], w')" "wheel_ok [] w'" "parked c w'"
    using RunAfter_starts [OF assms(1) d(1) assms(4)] d(2) by metis
  obtain logs w'' where r: "run_steps on_tick n w' = Inr (logs, w'')" using wheel.run_ok [OF w'(2)] by blast
  from once.over_run [OF w'(2,3) r] w'(1) r show ?thesis by (metis count_list_0_iff)
qed

lemma hours_never_run_witness:
  "\<exists>w' logs w''. RunAfter 3601 7 TimingWheel_new = Inr ([], w') \<and> run_steps on_tick 5000 w' = Inr (logs, w'') \<and>
    7 \<notin> set (logs ! 3600)"
proof -
  have "silent 7 TimingWheel_new" by (simp add: silent_def view_def TimingWheel_new_def)
  then show ?thesis
    using hours_never_run [OF reach.new, of 3601 7 5000] by (auto dest: spec [of _ 3600])
qed

text \<open>C31: a connection with an idle time below a minute that shows signs of life before each of its idle
  times is over is never closed; when it falls silent, it is closed exactly its idle time later.\<close>

theorem idle_connection_closed_in_time:
  assumes "reach w" "0 < m" "m < 60" "silent c w" "\<forall>g \<in> set gaps. g < unat m"
  shows "\<exists>p w1 fired w2 logs w3. EnableCheckIdleTimeout m c w = Inr ([], p, w1) \<and>
    keep_alive m p c gaps w1 = Inr (fired, w2) \<and> c \<notin> set fired \<and> run_steps on_tick n w2 = Inr (logs, w3) \<and>
    (\<forall>i < n. count_list (logs ! i) c = (if i + 1 = unat m then 1 else 0))"
proof -
  have d: "delay_ok m" using assms(2,3) by (rule rest_delay)
  have pos: "0 < unat m" using assms(2) by (simp add: unat_gt_0 word_gt_0)
  obtain w1 where w1: "RunAfter m c w = Inr ([], w1)" "wheel_ok [] w1"
    "sec_at c (next_ptr w) (Call c) (replicate (unat m - 1) []) w1"
    using RunAfter_starts [OF assms(1) d assms(4)] assms(3) by metis
  obtain fired w2 us where w2: "keep_alive m (next_ptr w) c gaps w1 = Inr (fired, w2)" "c \<notin> set fired"
    "wheel_ok [] w2" "sec_at c (next_ptr w) (Call c) us w2" "length us + 1 = unat m"
    using keep_alive_ok [OF w1(2,3) _ assms(3,5)] pos by auto
  obtain logs w3 where r: "run_steps on_tick n w2 = Inr (logs, w3)" using wheel.run_ok [OF w2(3)] by blast
  have due: "\<exists>us. sec_at c (next_ptr w) (Call c) us w2 \<and> unat m = length us + 1" using w2(4,5) by metis
  have "EnableCheckIdleTimeout m c w = Inr ([], next_ptr w, w1)" by (simp add: EnableCheckIdleTimeout_def w1(1))
  with idle.due_run [OF w2(3) due pos r] w2(1,2) r show ?thesis by blast
qed

lemma idle_connection_closed_in_time_witness:
  "\<exists>p w1 fired w2 logs w3. EnableCheckIdleTimeout 30 7 TimingWheel_new = Inr ([], p, w1) \<and>
    keep_alive 30 p 7 [29, 10, 29] w1 = Inr (fired, w2) \<and> 7 \<notin> set fired \<and>
    run_steps on_tick 40 w2 = Inr (logs, w3) \<and> count_list (logs ! 29) 7 = 1"
proof -
  have "silent 7 TimingWheel_new" by (simp add: silent_def view_def TimingWheel_new_def)
  then show ?thesis
    using idle_connection_closed_in_time [OF reach.new, of 30 7 "[29, 10, 29]" 40]
    by (auto dest: spec [of _ 29])
qed

text \<open>C38: no timer call on a reachable wheel fails: as long as no delay is zero, a whole number of minutes
  below an hour, or more than 30 days, \<open>OnTimer\<close> returns and the wheel stays reachable.\<close>

theorem OnTimer_never_fails:
  assumes "reach w"
  shows "\<exists>fired w'. OnTimer now w = Inr (fired, w') \<and> reach w'"
  using OnTimer_ok [OF reach_ok [OF assms], of now] reach.timer [OF assms] by blast

lemma OnTimer_never_fails_witness:
  "\<exists>fired w'. OnTimer 5000 TimingWheel_new = Inr (fired, w') \<and> reach w'"
  by (rule OnTimer_never_fails [OF reach.new])

text \<open>A tick of a wheel whose seconds are all empty, inside a minute.\<close>

lemma idle_tick:
  assumes "wheels w Second = replicate 60 []" "(tick w + 1) mod 60 \<noteq> 0"
  shows "on_tick w = Inr ([], w\<lparr>tick := tick w + 1\<rparr>)"
proof -
  let ?w = "w\<lparr>tick := tick w + 1\<rparr>"
  have "tl (wheels ?w Second) @ [[]] = wheels ?w Second"
    by (simp only: timing_wheel.select_convs timing_wheel.update_convs ticked assms(1) rotate_replicate zero_less_numeral)
  then have "pop_slot Second ?w = ?w" by (simp add: pop_slot_def)
  moreover have "hd (wheels ?w Second) = []" using assms(1) by simp
  ultimately have "PopUp Second ?w = Inr ([], ?w)" by (simp only: PopUp_def destroy.simps)
  then show ?thesis using assms(2) by (simp add: on_tick_parts minute_part_def)
qed

lemma idle_ticks:
  assumes "wheels w Second = replicate 60 []" "tick w mod 60 + n < 60"
  shows "run_steps on_tick n w = Inr (replicate n [], w\<lparr>tick := tick w + n\<rparr>)"
  using assms
proof (induction n arbitrary: w)
  case (Suc n)
  have t: "(tick w + 1) mod 60 = tick w mod 60 + 1" using Suc.prems(2) by (simp add: mod_Suc)
  then have "on_tick w = Inr ([], w\<lparr>tick := tick w + 1\<rparr>)" using Suc.prems by (intro idle_tick) simp_all
  moreover have "run_steps on_tick n (w\<lparr>tick := tick w + 1\<rparr>) = Inr (replicate n [], w\<lparr>tick := tick w + Suc n\<rparr>)"
    using Suc.IH [of "w\<lparr>tick := tick w + 1\<rparr>"] Suc.prems t by simp
  ultimately show ?case by simp
qed simp

text \<open>a task that is put in for exactly one minute is accepted and faults when the minute is over: its
  rest of zero seconds goes to slot -1 of the second wheel.\<close>

theorem one_minute_faults:
  "\<exists>w logs w'. RunAfter 60 c TimingWheel_new = Inr ([], w) \<and>
    run_steps on_tick 59 w = Inr (logs, w') \<and> on_tick w' = Inl OutOfBounds"
proof -
  let ?x = "Later 0 0 (Call c)"
  define w where "w = \<lparr>wheels = (\<lambda>k. replicate (wheel_size k) [])(Minute := [?x] # replicate 59 []),
    last_ts = 0, tick = 0, next_ptr = 1\<rparr>"
  have "(replicate 60 [])[0 := emplace ?x []] = [?x] # replicate 59 []"
    by (simp add: emplace_def replicate_update)
  then have "RunAfter 60 c TimingWheel_new = Inr ([], w)"
    by (simp add: RunAfter_def InsertEntry_def InsertMinuteEntry_def put_def TimingWheel_new_def wheel_size_def
        release_def items_def held_def w_def)
  moreover have "run_steps on_tick 59 w = Inr (replicate 59 [], w\<lparr>tick := tick w + 59\<rparr>)"
    by (rule idle_ticks) (simp_all add: w_def wheel_size_def)
  moreover have "on_tick (w\<lparr>tick := tick w + 59\<rparr>) = Inl OutOfBounds"
  proof -
    let ?v = "w\<lparr>tick := 60\<rparr>"
    have "tl (wheels ?v Second) @ [[]] = wheels ?v Second"
      by (simp only: ticked w_def timing_wheel.select_convs fun_upd_apply timing_type.distinct if_False wheel_size_def
          timing_type.case rotate_replicate zero_less_numeral)
    then have "pop_slot Second ?v = ?v" by (simp add: pop_slot_def)
    moreover have "hd (wheels ?v Second) = []" by (simp add: w_def wheel_size_def)
    ultimately have "PopUp Second ?v = Inr ([], ?v)" by (simp only: PopUp_def destroy.simps)
    moreover have "PopUp Minute ?v = Inl OutOfBounds"
      by (simp add: PopUp_def w_def InsertEntry_def InsertSecondEntry_def put_def pop_slot_def wheel_size_def
          unsigned_minus_1_eq_mask mask_numeral)
    ultimately show ?thesis by (simp add: on_tick_parts minute_part_def w_def)
  qed
  ultimately show ?thesis by blast
qed

end
