(* ===== verification/HttpUtils.thy ===== *)
theory HttpUtils
  imports CStr
begin

text \<open>
  \<open>src/mmedia/http/HttpTypes.h\<close> and \<open>HttpUtils.{h,cpp}\<close>: methods, versions, status codes and content
  types with their names, trimming, and the percent encoding of URLs. An unscoped enumeration of
  status codes is the number itself.
\<close>

datatype HttpMethod = kGet | kPost | kHead | kPut | kDelete | kOptions | kPatch | kInvalid

datatype Version = kVersionUnknown | kHttp10 | kHttp11

datatype ContentType = kContentTypeNONE | kContentTypeAppJson | kContentTypeTextPlain
  | kContentTypeTextHTML | kContentTypeAppXForm | kContentTypeAppMpegUrl | kContentTypeVideoMP2T
  | kContentTypeVideoXFlv | kContentTypeTextXML | kContentTypeAppXML

abbreviation CRLF :: str where "CRLF \<equiv> [13, 10]"

section \<open>Names\<close>

definition ParseMethod :: "str \<Rightarrow> HttpMethod" where
  "ParseMethod m =
     (if m = lit ''GET'' then kGet
      else if m = lit ''PUT'' then kPut
      else if m = lit ''POST'' then kPost
      else if m = lit ''HEAD'' then kHead
      else if m = lit ''DELETE'' then kDelete
      else if m = lit ''OPTIONS'' then kOptions
      else kInvalid)"

definition status_codes :: "int list" where
  "status_codes = [
    0, 100, 101, 200, 201, 202, 203, 204, 205, 206, 300, 301, 302, 303, 304, 305, 307, 308, 400,
    401, 402, 403, 404, 405, 406, 407, 408, 409, 410, 411, 412, 413, 414, 415, 416, 417, 418, 421,
    425, 426, 428, 429, 431, 451, 500, 501, 502, 503, 504, 505, 510]"

definition ParseStatusCode :: "int \<Rightarrow> int" where
  "ParseStatusCode code = (if code \<in> set status_codes then code else 0)"

definition status_messages :: "(int \<times> string) list" where
  "status_messages = [
    (0, ''unknown''), (100, ''Continue''), (101, ''Switching Protocols''), (200, ''OK''),
    (201, ''Created''), (202, ''Accepted''), (203, ''Non Authoritative Information''),
    (204, ''No Content''), (205, ''Reset Content''), (206, ''Partial Content''),
    (300, ''Multiple Choices''), (301, ''Moved Permanently''), (302, ''Found''),
    (303, ''See Other''), (304, ''Not Modified''), (305, ''Use Proxy''),
    (307, ''Temporary Redirect''), (308, ''Permanent Redirect''), (400, ''Bad Request''),
    (401, ''Unauthorized''), (402, ''Payment Required''), (403, ''Forbidden''),
    (404, ''Not Found''), (405, ''Method Not Allowed''), (406, ''Not Acceptable''),
    (407, ''Proxy Authentication Required''), (408, ''Request Timeout''), (409, ''Conflict''),
    (410, ''Gone''), (411, ''Length Required''), (412, ''Precondition Failed''),
    (413, ''Request Entity Too Large''), (414, ''Request URI Too Large''),
    (415, ''Unsupported Media Type''), (416, ''Requested Range Not Satisfiable''),
    (417, ''Expectation Failed''), (418, ''Im A Teapot''), (421, ''Misdirected Request''),
    (425, ''Too Early''), (426, ''Upgrade Required''), (428, ''Precondition Required''),
    (429, ''Too Many Requests''), (431, ''Request Header Fields Too Large''),
    (451, ''Unavailable For Legal Reasons''), (500, ''Internal Server Error''),
    (501, ''Not Implemented''), (502, ''Bad Gateway''), (503, ''Service Unavailable''),
    (504, ''Gateway Timeout''), (505, ''HTTP Version Not Supported''), (510, ''Not Extended'')]"

definition ParseStatusMessage :: "int \<Rightarrow> str" where
  "ParseStatusMessage code =
     (case map_of status_messages code of Some m \<Rightarrow> lit m | None \<Rightarrow> lit ''unknown'')"

definition status_strings :: "(int \<times> string) list" where
  "status_strings = [
    (100, ''Continue''), (101, ''Switching Protocols''), (200, ''OK''), (201, ''Created''),
    (202, ''Accepted''), (203, ''Non-Authoritative Information''), (204, ''No Content''),
    (205, ''Reset Content''), (206, ''Partial Content''), (300, ''Multiple Choices''),
    (301, ''Moved Permanently''), (302, ''Found''), (303, ''See Other''), (304, ''Not Modified''),
    (305, ''Use Proxy''), (307, ''Temporary Redirect''), (308, ''Permanent Redirect''),
    (400, ''Bad Request''), (401, ''Unauthorized''), (402, ''Payment Required''),
    (403, ''Forbidden''), (404, ''Not Found''), (405, ''Method Not Allowed''),
    (406, ''Not Acceptable''), (407, ''Proxy Authentication Required''),
    (408, ''Request Time-out''), (409, ''Conflict''), (410, ''Gone''), (411, ''Length Required''),
    (412, ''Precondition Failed''), (413, ''Request Entity Too Large''),
    (414, ''Request-URI Too Large''), (415, ''Unsupported Media Type''),
    (416, ''Requested Range Not Satisfiable''), (417, ''Expectation Failed''),
    (418, ''I'm a Teapot''), (421, ''Misdirected Request''), (425, ''Too Early''),
    (426, ''Upgrade Required''), (428, ''Precondition Required''), (429, ''Too Many Requests''),
    (431, ''Request Header Fields Too Large''), (451, ''Unavailable For Legal Reasons''),
    (500, ''Internal Server Error''), (501, ''Not Implemented''), (502, ''Bad Gateway''),
    (503, ''Service Unavailable''), (504, ''Gateway Time-out''),
    (505, ''HTTP Version Not Supported''), (510, ''Not Extended'')]"

definition StatusCodeToString :: "int \<Rightarrow> str" where
  "StatusCodeToString code =
     (case map_of status_strings code of
        Some m \<Rightarrow> lit m
      | None \<Rightarrow>
          (if 100 \<le> code \<and> code < 200 then lit ''Informational''
           else if 200 \<le> code \<and> code < 300 then lit ''Successful''
           else if 300 \<le> code \<and> code < 400 then lit ''Redirection''
           else if 400 \<le> code \<and> code < 500 then lit ''Bad Request''
           else if 500 \<le> code \<and> code < 600 then lit ''Server Error''
           else lit ''Undefined Error''))"

section \<open>Content types\<close>

fun ContentTypeToString :: "ContentType \<Rightarrow> str" where
  "ContentTypeToString kContentTypeTextHTML = lit ''Content-Type: text/html; charset=utf-8'' @ CRLF"
| "ContentTypeToString kContentTypeAppXForm = lit ''Content-Type: application/x-www-form-urlencoded'' @ CRLF"
| "ContentTypeToString kContentTypeTextXML = lit ''Content-Type: text/xml; charset=utf-8'' @ CRLF"
| "ContentTypeToString kContentTypeAppXML = lit ''Content-Type: application/xml; charset=utf-8'' @ CRLF"
| "ContentTypeToString kContentTypeAppJson = lit ''Content-Type: application/json; charset=utf-8'' @ CRLF"
| "ContentTypeToString kContentTypeAppMpegUrl = lit ''Content-Type: application/vnd.apple.mpegurl'' @ CRLF"
| "ContentTypeToString kContentTypeVideoMP2T = lit ''Content-Type: video/MP2T'' @ CRLF"
| "ContentTypeToString kContentTypeVideoXFlv = lit ''Content-Type: video/x-flv'' @ CRLF"
| "ContentTypeToString kContentTypeNONE = []"
| "ContentTypeToString kContentTypeTextPlain = lit ''Content-Type: text/plain; charset=utf-8'' @ CRLF"

text \<open>The cases of the \<open>switch\<close> on the length of the extension fall through.\<close>

definition GetContentType :: "str \<Rightarrow> ContentType" where
  "GetContentType file_name =
     (let ext_name = (case find_last is_dot file_name of
                        Some pos \<Rightarrow> map tolower (drop (pos + 1) file_name) | None \<Rightarrow> [])
      in if ext_name = [] then kContentTypeNONE
         else if ext_name = lit ''ts'' then kContentTypeVideoMP2T
         else if ext_name = lit ''flv'' then kContentTypeVideoXFlv
         else if ext_name = lit ''html'' then kContentTypeTextHTML
         else kContentTypeTextPlain)"

definition ParseContentType :: "str \<Rightarrow> ContentType" where
  "ParseContentType s =
     (if s = lit ''text/html'' then kContentTypeTextHTML
      else if s = lit ''application/x-www-form-urlencoded'' then kContentTypeAppXForm
      else if s = lit ''application/xml'' then kContentTypeAppXML
      else if s = lit ''application/json'' then kContentTypeAppJson
      else if s = lit ''text/plain'' then kContentTypeTextPlain
      else kContentTypeNONE)"

section \<open>Trimming\<close>

definition ltrim :: "str \<Rightarrow> str" where
  "ltrim s = dropWhile isspace s"

definition rtrim :: "str \<Rightarrow> str" where
  "rtrim s = rev (dropWhile isspace (rev s))"

definition Trim :: "str \<Rightarrow> str" where
  "Trim s = ltrim (rtrim s)"

section \<open>URLs\<close>

definition CharToHex :: "byte \<Rightarrow> str" where
  "CharToHex c =
     (let first = drop_bit 4 (c AND 0xF0);
          second = c AND 0x0F
      in [first + (if 9 < first then 55 else 48), second + (if 9 < second then 55 else 48)])"

text \<open>The characters \<open>UrlEncode\<close> leaves alone: letters, digits and marks.\<close>

definition is_mark :: "byte \<Rightarrow> bool" where
  "is_mark c \<longleftrightarrow> c \<in> set [45, 95, 46, 33, 126, 42, 39, 40, 41, 38, 61, 47, 92, 63]"

definition url_plain :: "byte \<Rightarrow> bool" where
  "url_plain c \<longleftrightarrow> 65 \<le> c \<and> c \<le> 90 \<or> 97 \<le> c \<and> c \<le> 122 \<or> isdigit c \<or> is_mark c"

fun UrlEncode :: "str \<Rightarrow> str" where
  "UrlEncode [] = []"
| "UrlEncode (c # s) =
     (if c = 32 then [43] else if url_plain c then [c] else 37 # CharToHex c) @ UrlEncode s"

definition NeedUrlDecoding :: "str \<Rightarrow> bool" where
  "NeedUrlDecoding url \<longleftrightarrow> list_ex (\<lambda>c. c = 43 \<or> c = 37) url"

fun UrlDecode :: "str \<Rightarrow> str" where
  "UrlDecode [] = []"
| "UrlDecode (c # s) =
     (if c = 43 then 32 # UrlDecode s
      else if c = 37 then
        (case s of
           x1 # x2 # s' \<Rightarrow>
             if isxdigit x1 \<and> isxdigit x2
             then of_nat (the (digit_val x1) * 16 + the (digit_val x2)) # UrlDecode s'
             else 37 # UrlDecode s
         | _ \<Rightarrow> 37 # UrlDecode s)
      else c # UrlDecode s)"

section \<open>Lemmas\<close>

lemma unat_byte: "unat (c :: byte) < 256"
proof -
  have "unat c < 2 ^ 8" using unsigned_less [of c] by simp
  then show ?thesis by simp
qed

lemma unat_byte_div: "unat (c :: byte) div 16 < 16"
  using unat_byte [of c] by simp

lemma unat_low: "unat ((c :: byte) AND 0x0F) = unat c mod 16"
proof -
  have "c AND 0x0F = take_bit 4 c" by (simp add: take_bit_eq_mask mask_numeral)
  then have "unat (c AND 0x0F) = take_bit 4 (unat c)" by (simp only: unsigned_take_bit_eq)
  then show ?thesis by (simp add: take_bit_eq_mod)
qed

lemma unat_high: "unat (drop_bit 4 ((c :: byte) AND 0xF0)) = unat c div 16"
proof -
  have "drop_bit 4 (c AND 0xF0) = drop_bit 4 c AND 0x0F" by (simp add: drop_bit_and)
  moreover have "unat (drop_bit 4 c) = unat c div 16" by (simp add: drop_bit_eq_div unat_div)
  moreover have "unat c div 16 < 16" by (rule unat_byte_div)
  ultimately show ?thesis using unat_low [of "drop_bit 4 c"] by simp
qed

lemma hex_char:
  assumes "unat (x :: byte) < 16"
  shows "x + (if 9 < x then 55 else 48) = digit_char (unat x)"
proof -
  have x: "x = of_nat (unat x)" by simp
  show ?thesis using less16_cases [OF assms]
    by (elim disjE) (subst (1 2) x; simp add: digit_char_def)+
qed

lemma CharToHex_digits: "CharToHex c = [digit_char (unat c div 16), digit_char (unat c mod 16)]"
proof -
  show ?thesis using hex_char [of "drop_bit 4 (c AND 0xF0)"] hex_char [of "c AND 0x0F"] unat_byte_div [of c]
    unfolding CharToHex_def Let_def unat_low unat_high by simp
qed

lemma CharToHex_decodes:
  "isxdigit (CharToHex c ! 0) \<and> isxdigit (CharToHex c ! 1) \<and>
   of_nat (the (digit_val (CharToHex c ! 0)) * 16 + the (digit_val (CharToHex c ! 1))) = c"
proof -
  have "unat c div 16 < 16" by (rule unat_byte_div)
  moreover have n: "unat c div 16 * 16 + unat c mod 16 = unat c" by simp
  have "of_nat (unat c div 16 * 16 + unat c mod 16) = c" unfolding n by simp
  ultimately show ?thesis by (simp add: CharToHex_digits isxdigit_def is_digit_def)
qed

lemma CharToHex_two: "\<exists>a b. CharToHex c = [a, b]"
  by (simp add: CharToHex_def Let_def)

lemma UrlDecode_hex: "UrlDecode (37 # CharToHex c @ s) = c # UrlDecode s"
proof -
  obtain a b where ab: "CharToHex c = [a, b]" using CharToHex_two by blast
  show ?thesis using CharToHex_decodes [of c] by (simp add: ab)
qed

lemma url_plain_not: "url_plain c \<Longrightarrow> c \<noteq> 43 \<and> c \<noteq> 37 \<and> c \<noteq> 32 \<and> c \<noteq> 58 \<and> c \<noteq> 13 \<and> c \<noteq> 10"
  by (auto simp: url_plain_def is_mark_def isdigit_def)

lemma UrlDecode_cons: "c \<noteq> 43 \<Longrightarrow> c \<noteq> 37 \<Longrightarrow> UrlDecode (c # s) = c # UrlDecode s"
  by simp

lemma NeedUrlDecoding_not: "\<not> NeedUrlDecoding s \<Longrightarrow> UrlDecode s = s"
  by (induction s rule: UrlDecode.induct) (auto simp: NeedUrlDecoding_def)

lemma url_decode_encode: "UrlDecode (UrlEncode s) = s"
proof (induction s)
  case (Cons c s)
  consider "c = 32" | "c \<noteq> 32" "url_plain c" | "c \<noteq> 32" "\<not> url_plain c" by blast
  then show ?case
  proof cases
    case 2
    then show ?thesis using Cons url_plain_not [of c] by (simp add: UrlDecode_cons del: UrlDecode.simps)
  next
    case 3
    then show ?thesis using Cons UrlDecode_hex [of c "UrlEncode s"] by (simp del: UrlDecode.simps)
  qed (simp add: Cons)
qed simp

section \<open>Properties\<close>

text \<open>decoding undoes encoding, whatever the bytes of the URL.\<close>

theorem url_roundtrip: "UrlDecode (UrlEncode s) = s"
  by (rule url_decode_encode)

end
