(* ===== verification/HttpRequest.thy ===== *)
theory HttpRequest
  imports HttpUtils
begin

text \<open>
  \<open>src/mmedia/http/HttpRequest.{h,cpp}\<close>: one HTTP message, request or response, with its headers and
  its query parameters, and the text it is sent as. Both tables are unordered maps, so the printing
  operations take the order in which the library runs through them as an argument: a list of the
  entries (\<open>enumerates\<close>).
\<close>

section \<open>The message\<close>

record http_request =
  rq_method :: HttpMethod
  rq_version :: Version
  rq_path :: str
  rq_query :: str
  rq_headers :: "str \<rightharpoonup> str"
  rq_parameters :: "str \<rightharpoonup> str"
  rq_body :: str
  rq_code :: u32
  rq_is_request :: bool
  rq_is_stream :: bool
  rq_is_chunked :: bool

definition HttpRequest_new :: "bool \<Rightarrow> http_request" where
  "HttpRequest_new request = \<lparr>rq_method = kInvalid, rq_version = kVersionUnknown, rq_path = [],
     rq_query = [], rq_headers = Map.empty, rq_parameters = Map.empty, rq_body = [], rq_code = 0,
     rq_is_request = request, rq_is_stream = False, rq_is_chunked = False\<rparr>"

definition AddHeader :: "str \<Rightarrow> str \<Rightarrow> http_request \<Rightarrow> http_request" where
  "AddHeader field v r = r\<lparr>rq_headers := (rq_headers r)(map tolower field \<mapsto> v)\<rparr>"

definition RemoveHeader :: "str \<Rightarrow> http_request \<Rightarrow> http_request" where
  "RemoveHeader field r = r\<lparr>rq_headers := (rq_headers r)(map tolower field := None)\<rparr>"

definition GetHeader :: "str \<Rightarrow> http_request \<Rightarrow> str" where
  "GetHeader field r = (case rq_headers r (map tolower field) of Some v \<Rightarrow> v | None \<Rightarrow> [])"

definition SetParameter :: "str \<Rightarrow> str \<Rightarrow> http_request \<Rightarrow> http_request" where
  "SetParameter k v r = r\<lparr>rq_parameters := (rq_parameters r)(k \<mapsto> v)\<rparr>"

definition GetParameter :: "str \<Rightarrow> http_request \<Rightarrow> str" where
  "GetParameter k r = (case rq_parameters r k of Some v \<Rightarrow> v | None \<Rightarrow> [])"

text \<open>One line of a header or one parameter: the part before the separator and the part behind it.\<close>

definition key_value :: "byte \<Rightarrow> str \<Rightarrow> (str \<times> str) option" where
  "key_value sep l =
     (case find_first (\<lambda>c. c = sep) l of
        Some pos \<Rightarrow> Some (Trim (take pos l), Trim (drop (pos + 1) l))
      | None \<Rightarrow> None)"

definition ParseParameters :: "http_request \<Rightarrow> http_request" where
  "ParseParameters r =
     foldl (\<lambda>r l. case key_value 61 l of Some (k, v) \<Rightarrow> SetParameter k v r | None \<Rightarrow> r) r
       (SplitString (rq_query r) (lit ''&''))"

definition SetQuery :: "str \<Rightarrow> http_request \<Rightarrow> http_request" where
  "SetQuery q r = ParseParameters (r\<lparr>rq_query := q\<rparr>)"

definition SetMethod :: "str \<Rightarrow> http_request \<Rightarrow> http_request" where
  "SetMethod m r = r\<lparr>rq_method := ParseMethod m\<rparr>"

text \<open>
  \<open>v.compare (0, 6, "HTTP/1.")\<close> is zero when the first six characters of \<open>v\<close> are those seven: the
  condition holds for every string.
\<close>

definition SetHttpVersion :: "str \<Rightarrow> http_request \<Rightarrow> http_request" where
  "SetHttpVersion v r =
     r\<lparr>rq_version :=
       (if length v = 8 \<and> take 6 v \<noteq> lit ''HTTP/1.''
        then if v ! 7 = 49 then kHttp11 else if v ! 7 = 48 then kHttp10 else kVersionUnknown
        else kVersionUnknown)\<rparr>"

definition SetPath :: "str \<Rightarrow> http_request \<Rightarrow> http_request" where
  "SetPath p r = r\<lparr>rq_path := (if NeedUrlDecoding p then UrlDecode p else p)\<rparr>"

definition SetStatusCode :: "u32 \<Rightarrow> http_request \<Rightarrow> http_request" where
  "SetStatusCode c r = r\<lparr>rq_code := c\<rparr>"

definition NewHttp400Response :: http_request where
  "NewHttp400Response = AddHeader (lit ''User-Agent'') (lit ''tmms'') (SetStatusCode 400 (HttpRequest_new False))"

definition NewHttp404Response :: http_request where
  "NewHttp404Response = AddHeader (lit ''User-Agent'') (lit ''tmms'') (SetStatusCode 404 (HttpRequest_new False))"

definition NewHttpOptionsResponse :: http_request where
  "NewHttpOptionsResponse =
     AddHeader (lit ''Access-Control-Allow-Headers'') (lit ''content-type'')
       (AddHeader (lit ''Allow'') (lit ''POST, GET, OPTIONS'')
         (AddHeader (lit ''Access-Control-Allow-Methods'') (lit ''POST, GET, OPTIONS'')
           (AddHeader (lit ''Access-Control-Allow-Origin'') (lit ''*'')
             (AddHeader (lit ''content-type'') (lit ''text/plain'')
               (AddHeader (lit ''content-length'') (lit ''0'')
                 (AddHeader (lit ''server'') (lit ''tmms'') (SetStatusCode 200 (HttpRequest_new False))))))))"

section \<open>Printing\<close>

fun method_name :: "HttpMethod \<Rightarrow> str" where
  "method_name kGet = lit ''GET''"
| "method_name kPost = lit ''POST''"
| "method_name kHead = lit ''HEAD''"
| "method_name kPut = lit ''PUT''"
| "method_name kDelete = lit ''DELETE''"
| "method_name kOptions = lit ''OPTIONS''"
| "method_name kPatch = lit ''PATCH''"
| "method_name kInvalid = lit ''UNKNOW''"

definition version_name :: "Version \<Rightarrow> str" where
  "version_name v = (if v = kHttp10 then lit ''HTTP/1.0'' else lit ''HTTP/1.1'')"

fun join_parameters :: "(str \<times> str) list \<Rightarrow> str" where
  "join_parameters [] = []"
| "join_parameters [(k, v)] = k @ [61] @ v"
| "join_parameters ((k, v) # ps) = k @ [61] @ v @ [38] @ join_parameters ps"

definition request_url :: "(str \<times> str) list \<Rightarrow> http_request \<Rightarrow> str" where
  "request_url ps r =
     (if rq_path r \<noteq> [] then rq_path r else [47]) @ (if ps \<noteq> [] then [63] @ join_parameters ps else [])"

definition AppendRequestFirstLine :: "(str \<times> str) list \<Rightarrow> http_request \<Rightarrow> str" where
  "AppendRequestFirstLine ps r =
     method_name (rq_method r) @ [32] @ UrlEncode (request_url ps r) @ [32] @ version_name (rq_version r) @ [32] @ CRLF"

definition AppendResponseFirstLine :: "http_request \<Rightarrow> str" where
  "AppendResponseFirstLine r =
     version_name (rq_version r) @ [32] @ digits 10 (unat (rq_code r)) @ [32] @
     ParseStatusMessage (sint (rq_code r)) @ CRLF"

definition header_line :: "str \<times> str \<Rightarrow> str" where
  "header_line h = fst h @ [58, 32] @ snd h"

definition MakeHeaders :: "(str \<times> str) list \<Rightarrow> (str \<times> str) list \<Rightarrow> http_request \<Rightarrow> str" where
  "MakeHeaders hs ps r =
     (if rq_is_request r then AppendRequestFirstLine ps r else AppendResponseFirstLine r) @
     concat (map (\<lambda>h. header_line h @ CRLF) hs) @ CRLF"

definition AppendToBuffer :: "(str \<times> str) list \<Rightarrow> (str \<times> str) list \<Rightarrow> http_request \<Rightarrow> str" where
  "AppendToBuffer hs ps r = MakeHeaders hs ps r @ rq_body r"

definition enumerates :: "('k \<times> 'v) list \<Rightarrow> ('k \<rightharpoonup> 'v) \<Rightarrow> bool" where
  "enumerates xs m \<longleftrightarrow> distinct (map fst xs) \<and> map_of xs = m"

section \<open>Lemmas\<close>

lemma SetPath_decodes: "SetPath p r = r\<lparr>rq_path := UrlDecode p\<rparr>"
  using NeedUrlDecoding_not [of p] by (simp add: SetPath_def)

text \<open>Entries stored one after the other.\<close>

lemma foldl_map_upd:
  assumes "distinct (map fst xs)"
  shows "foldl (\<lambda>m (k, v). m(k \<mapsto> v)) m0 xs = m0 ++ map_of xs"
  using assms
proof (induction xs arbitrary: m0)
  case (Cons x xs)
  have "map_of xs (fst x) = None" using Cons.prems by (simp add: map_of_eq_None_iff)
  then have "m0(fst x \<mapsto> snd x) ++ map_of xs = m0 ++ map_of (x # xs)"
    by (intro ext) (auto simp: map_add_def split: option.splits)
  with Cons show ?case by (cases x) (simp del: fun_upd_apply map_add_upd)
qed simp

lemma Trim_noop:
  assumes "s \<noteq> [] \<Longrightarrow> \<not> isspace (hd s) \<and> \<not> isspace (last s)"
  shows "Trim s = s"
proof (cases "s = []")
  case False
  with assms have l: "\<not> isspace (last s)" "\<not> isspace (hd s)" by auto
  have "rev s = last s # rev (butlast s)" using False by (metis append_butlast_last_id rev.simps(2) rev_rev_ident)
  then have "rtrim s = s" using l by (metis rtrim_def dropWhile.simps(2) rev_rev_ident)
  with l False show ?thesis by (cases s) (simp_all add: Trim_def ltrim_def)
qed (simp add: Trim_def ltrim_def rtrim_def)

lemma key_value_split:
  assumes "sep \<notin> set k"
  shows "key_value sep (k @ [sep] @ v) = Some (Trim k, Trim v)"
proof -
  have "find_first (\<lambda>c. c = sep) (k @ [sep] @ v) = Some (length k)" using find_first_at [OF assms] by simp
  then show ?thesis by (simp add: key_value_def)
qed

lemma key_value_none: "sep \<notin> set l \<Longrightarrow> key_value sep l = None"
  by (simp add: key_value_def find_first_none)

text \<open>Text without line ends.\<close>

definition one_line :: "str \<Rightarrow> bool" where
  "one_line s \<longleftrightarrow> 13 \<notin> set s \<and> 10 \<notin> set s"

lemma one_line_simps [simp]:
  "one_line []" "one_line (c # s) \<longleftrightarrow> c \<noteq> 13 \<and> c \<noteq> 10 \<and> one_line s"
  "one_line (s @ t) \<longleftrightarrow> one_line s \<and> one_line t"
  by (auto simp: one_line_def)

lemma find_sub_line:
  assumes "one_line l"
  shows "find_sub (13 # d) (l @ s) = map_option (\<lambda>n. length l + n) (find_sub (13 # d) s)"
  using assms by (induction l) (cases "find_sub (13 # d) s"; simp)+

text \<open>Lines with a line end between each two; they come out of the split again.\<close>

fun lines_text :: "str list \<Rightarrow> str" where
  "lines_text [] = []"
| "lines_text [l] = l"
| "lines_text (l # ls) = l @ CRLF @ lines_text ls"

lemma lines_text_ends: "ls \<noteq> [] \<Longrightarrow> concat (map (\<lambda>l. l @ CRLF) ls) @ CRLF = lines_text ls @ CRLF @ CRLF"
  by (induction ls rule: lines_text.induct) auto

lemma find_CRLF: "one_line l \<Longrightarrow> find_sub CRLF (l @ CRLF @ s) = Some (length l)"
  by (subst find_sub_line) auto

lemma split_lines:
  assumes "list_all (\<lambda>l. one_line l \<and> l \<noteq> []) ls"
  shows "SplitString (lines_text ls) CRLF = ls"
proof -
  have "split_loop CRLF (lines_text ls) = ls"
    using assms
  proof (induction ls rule: lines_text.induct)
    case (2 l)
    then have "find_sub CRLF (l @ []) = None" by (subst find_sub_line) auto
    with 2 show ?case by (simp add: split_loop.simps [of _ l])
  next
    case (3 l m ls)
    have f: "find_sub CRLF (l @ CRLF @ lines_text (m # ls)) = Some (length l)" using 3 by (intro find_CRLF) simp
    have "split_loop CRLF (l @ CRLF @ lines_text (m # ls)) = l # split_loop CRLF (lines_text (m # ls))"
      by (subst split_loop.simps) (use f in simp)
    with 3 show ?case by simp
  qed (simp add: split_loop.simps)
  then show ?thesis by (simp add: SplitString_def)
qed

lemma find_headers_end:
  assumes "list_all (\<lambda>l. one_line l \<and> l \<noteq> []) ls" "ls \<noteq> []"
  shows "find_sub [13, 10, 13, 10] (lines_text ls @ CRLF @ CRLF @ rest) = Some (length (lines_text ls))"
  using assms
proof (induction ls rule: lines_text.induct)
  case (2 l)
  then show ?case by (simp, subst find_sub_line) auto
next
  case (3 l m ls)
  obtain c s where c: "lines_text (m # ls) = c # s" "c \<noteq> 13" using 3(2) by (cases m; cases ls) auto
  have "find_sub [13, 10, 13, 10] (CRLF @ lines_text (m # ls) @ CRLF @ CRLF @ rest) = Some (2 + length (lines_text (m # ls)))"
    using 3 c by simp
  moreover have "find_sub [13, 10, 13, 10] (l @ CRLF @ lines_text (m # ls) @ CRLF @ CRLF @ rest) =
      map_option (\<lambda>n. length l + n) (find_sub [13, 10, 13, 10] (CRLF @ lines_text (m # ls) @ CRLF @ CRLF @ rest))"
    using 3(2) by (intro find_sub_line) simp
  ultimately show ?case by simp
qed simp

text \<open>White space in front of a value.\<close>

lemma Trim_space: "Trim (32 # s) = Trim s"
proof -
  have sp: "isspace 32" by (simp add: isspace_def)
  show ?thesis
  proof (cases "dropWhile isspace (rev s) = []")
    case True
    then have "dropWhile isspace (rev s @ [32]) = []" using sp by (simp add: dropWhile_append)
    with True show ?thesis by (simp only: Trim_def ltrim_def rtrim_def rev.simps dropWhile.simps)
  next
    case False
    then have "dropWhile isspace (rev s @ [32]) = dropWhile isspace (rev s) @ [32]"
      by (auto simp: dropWhile_append)
    with sp show ?thesis by (simp add: Trim_def ltrim_def rtrim_def)
  qed
qed

text \<open>What the encoding of a URL consists of.\<close>

lemma UrlEncode_append: "UrlEncode (s @ t) = UrlEncode s @ UrlEncode t"
  by (induction s) simp_all

lemma digit_char_url: "d < 16 \<Longrightarrow> url_plain (digit_char d) \<and> digit_char d \<noteq> 63"
  by (drule less16_cases) (elim disjE; simp add: digit_char_def url_plain_def isdigit_def)

lemma CharToHex_url:
  assumes "x \<in> set (CharToHex c)"
  shows "url_plain x \<and> x \<noteq> 63"
proof -
  have "unat c mod 16 < 16" by simp
  then show ?thesis using assms digit_char_url unat_byte_div [of c] by (auto simp: CharToHex_digits)
qed

lemma set_UrlEncode:
  assumes "c \<in> set (UrlEncode s)"
  shows "c \<noteq> 32 \<and> c \<noteq> 58 \<and> c \<noteq> 13 \<and> c \<noteq> 10 \<and> (c = 63 \<longrightarrow> 63 \<in> set s)"
proof -
  have "url_plain c \<and> (c = 63 \<longrightarrow> 63 \<in> set s) \<or> c = 43 \<or> c = 37"
    using assms by (induction s) (auto dest: CharToHex_url split: if_splits)
  then show ?thesis using url_plain_not by auto
qed

lemma UrlEncode_plain: "list_all url_plain s \<Longrightarrow> UrlEncode s = s"
  by (induction s) (auto simp: url_plain_not)

text \<open>Parameters in characters that need no encoding come back from the query.\<close>

definition plain_parameter :: "str \<times> str \<Rightarrow> bool" where
  "plain_parameter kv \<longleftrightarrow> list_all (\<lambda>c. url_plain c \<and> c \<noteq> 38 \<and> c \<noteq> 61) (fst kv @ snd kv)"

lemma plain_not_space: "url_plain c \<Longrightarrow> \<not> isspace c"
proof -
  assume p: "url_plain c"
  have "33 \<le> unat c" using p by (auto simp: url_plain_def is_mark_def isdigit_def word_le_nat_alt)
  then show ?thesis by (auto simp: isspace_def word_le_nat_alt)
qed

lemma Trim_plain: "list_all url_plain s \<Longrightarrow> Trim s = s"
  by (rule Trim_noop) (auto simp: list_all_iff plain_not_space)

lemma plain_parameter_piece:
  assumes "plain_parameter (k, v)"
  shows "key_value 61 (k @ [61] @ v) = Some (k, v)" "38 \<notin> set (k @ [61] @ v)"
proof -
  have "list_all url_plain k" "list_all url_plain v" "61 \<notin> set k"
    using assms by (auto simp: plain_parameter_def list_all_iff)
  then show "key_value 61 (k @ [61] @ v) = Some (k, v)"
    using key_value_split [of 61 k v] by (simp add: Trim_plain)
  show "38 \<notin> set (k @ [61] @ v)" using assms by (auto simp: plain_parameter_def list_all_iff)
qed

lemma split_parameters:
  assumes "list_all plain_parameter ps"
  shows "SplitString (join_parameters ps) [38] = map (\<lambda>(k, v). k @ [61] @ v) ps"
  using assms
proof (induction ps rule: join_parameters.induct)
  case (2 k v)
  then show ?case using plain_parameter_piece(2) [of k v] by (simp add: split_last)
next
  case (3 k v p ps)
  then show ?case using plain_parameter_piece(2) [of k v] split_piece [of 38 "k @ [61] @ v"] by simp
qed (simp add: SplitString_def split_loop.simps)

lemma plain_parameter_parts:
  "plain_parameter (k, v) \<Longrightarrow> list_all url_plain k \<and> list_all url_plain v"
  by (simp add: plain_parameter_def list_all_iff)

lemma url_plain_join: "list_all plain_parameter ps \<Longrightarrow> list_all url_plain (join_parameters ps)"
proof (induction ps rule: join_parameters.induct)
  have sep: "url_plain 61" "url_plain 38" by (simp_all add: url_plain_def is_mark_def)
  show "list_all url_plain (join_parameters [(k, v)])" if "list_all plain_parameter [(k, v)]" for k v
    using that plain_parameter_parts [of k v] sep by simp
  show "list_all url_plain (join_parameters ((k, v) # p # ps))"
    if "list_all plain_parameter (p # ps) \<Longrightarrow> list_all url_plain (join_parameters (p # ps))"
      "list_all plain_parameter ((k, v) # p # ps)" for k v p ps
    using that plain_parameter_parts [of k v] sep by simp
qed simp

lemma SetQuery_join:
  assumes "list_all plain_parameter ps" "distinct (map fst ps)" "rq_parameters r = Map.empty"
  shows "\<exists>q. SetQuery (join_parameters ps) r = r\<lparr>rq_query := q, rq_parameters := map_of ps\<rparr>"
proof -
  let ?f = "\<lambda>r l. case key_value 61 l of Some (k, v) \<Rightarrow> SetParameter k v r | None \<Rightarrow> r"
  have "foldl ?f r' (map (\<lambda>(k, v). k @ [61] @ v) xs) =
      r'\<lparr>rq_parameters := foldl (\<lambda>m (k, v). m(k \<mapsto> v)) (rq_parameters r') xs\<rparr>"
    if "list_all plain_parameter xs" for r' xs
    using that
  proof (induction xs arbitrary: r')
    case (Cons x xs)
    obtain k v where x: "x = (k, v)" by (cases x)
    show ?case using Cons plain_parameter_piece(1) [of k v]
      by (simp add: x SetParameter_def del: fun_upd_apply)
  qed simp
  from this [OF assms(1)] show ?thesis
    using foldl_map_upd [OF assms(2), of Map.empty] assms(3)
    by (simp add: SetQuery_def ParseParameters_def lit_def split_parameters [OF assms(1)]) blast
qed

end
