(* ===== verification/HttpParser.thy ===== *)
theory HttpParser
  imports HttpRequest MsgBuffer Packet
begin

text \<open>
  \<open>src/mmedia/http/HttpParser.{h,cpp}\<close>: the state machine that takes HTTP messages out of a connection's
  input. The buffer is the list of its readable bytes (\<open>MsgBuffer.contents\<close>).
\<close>

section \<open>State\<close>

datatype HttpParserState = kExpectHeaders | kExpectNormalBody | kExpectStreamBody | kExpectHttpComplete
  | kExpectChunkLen | kExpectChunkBody | kExpectChunkComplete | kExpectLastEmptyChunk
  | kExpectContinue | kExpectError

abbreviation CRLFCRLF :: str where "CRLFCRLF \<equiv> [13, 10, 13, 10]"
abbreviation kHttpMaxBodySize :: nat where "kHttpMaxBodySize \<equiv> 65536"

record http_parser =
  hp_state :: HttpParserState
  hp_chunk_length :: u32
  hp_content_length :: u32
  hp_is_stream :: bool
  hp_is_chunked :: bool
  hp_is_request :: bool
  hp_reason :: int
  hp_header :: str
  hp_chunk :: "unit packet option"
  hp_req :: "http_request option"

definition HttpParser_new :: http_parser where
  "HttpParser_new = \<lparr>hp_state = kExpectHeaders, hp_chunk_length = 0, hp_content_length = 0,
     hp_is_stream = False, hp_is_chunked = False, hp_is_request = True, hp_reason = 0, hp_header = [],
     hp_chunk = None, hp_req = None\<rparr>"

definition ClearForNextHttp :: "http_parser \<Rightarrow> http_parser" where
  "ClearForNextHttp p = p\<lparr>hp_state := kExpectHeaders, hp_header := [], hp_req := None,
     hp_content_length := -1, hp_chunk := None\<rparr>"

definition ClearForNextChunk :: "http_parser \<Rightarrow> http_parser" where
  "ClearForNextChunk p =
     (if hp_is_chunked p then p\<lparr>hp_state := kExpectChunkLen, hp_chunk_length := -1\<rparr>
      else if hp_is_stream p then p\<lparr>hp_state := kExpectStreamBody\<rparr>
      else p\<lparr>hp_state := kExpectHeaders, hp_chunk_length := -1\<rparr>)\<lparr>hp_chunk := None\<rparr>"

definition bad_request :: "http_parser \<Rightarrow> http_parser" where
  "bad_request p = p\<lparr>hp_reason := 400, hp_state := kExpectError\<rparr>"

section \<open>Bodies\<close>

text \<open>
  The lines the three kinds of body share: as many of the bytes there as the packet has room for go
  to its end. The number of bytes taken, the bytes left, and the packet.
\<close>

definition fill :: "int \<Rightarrow> byte list \<Rightarrow> unit packet option \<Rightarrow> (nat \<times> byte list \<times> unit packet) res" where
  "fill capacity buf chunk =
     bindE (case chunk of Some c \<Rightarrow> Inr c | None \<Rightarrow> NewPacket capacity) (\<lambda>c.
     let n = min (sint (of_nat (length buf) :: u32)) (Space c)
     in if n < 0 then Inl OutOfBounds
        else bindE (mem_read (nat n) buf) (\<lambda>d.
             bindE (write_data (unat (pk_size c)) d c) (\<lambda>c.
               Inr (nat n, drop (nat n) buf, UpdatePacketSize (nat n) c))))"

definition ParseStream :: "byte list \<Rightarrow> http_parser \<Rightarrow> (byte list \<times> http_parser) res" where
  "ParseStream buf p =
     bindE (fill (int kHttpMaxBodySize) buf (hp_chunk p)) (\<lambda>(n, buf, c).
       Inr (buf, p\<lparr>hp_chunk := Some c,
                   hp_state := (if Space c = 0 then kExpectChunkComplete else hp_state p)\<rparr>))"

definition ParseNormalBody :: "byte list \<Rightarrow> http_parser \<Rightarrow> (byte list \<times> http_parser) res" where
  "ParseNormalBody buf p =
     bindE (fill (sint (hp_content_length p)) buf (hp_chunk p)) (\<lambda>(n, buf, c).
       let rest = hp_content_length p - of_nat n
       in Inr (buf, p\<lparr>hp_chunk := Some c, hp_content_length := rest,
                      hp_state := (if rest = 0 then kExpectHttpComplete else hp_state p)\<rparr>))"

definition ParseChunk :: "byte list \<Rightarrow> http_parser \<Rightarrow> (byte list \<times> http_parser) res" where
  "ParseChunk buf p =
     bindE (fill (sint (hp_chunk_length p)) buf (hp_chunk p)) (\<lambda>(n, buf, c).
       let rest = hp_chunk_length p - of_nat n
       in Inr (buf,
            (if rest = 0 \<or> Space c = 0
             then p\<lparr>hp_chunk := Some (c\<lparr>pk_size := pk_size c - 2\<rparr>), hp_chunk_length := rest,
                    hp_state := kExpectChunkComplete\<rparr>
             else p\<lparr>hp_chunk := Some c, hp_chunk_length := rest\<rparr>)))"

section \<open>Headers\<close>

definition ProcessMethodLine :: "str \<Rightarrow> http_request res" where
  "ProcessMethodLine line =
     (let pieces = SplitString line [32]
      in bindE (element 0 pieces) (\<lambda>s.
         if take 4 (map tolower s) = lit ''http''
         then bindE (element 1 pieces) (\<lambda>c.
              Inr (SetStatusCode (atoi c) (SetHttpVersion s (HttpRequest_new False))))
         else bindE (element 1 pieces) (\<lambda>url.
              let r = SetMethod s (HttpRequest_new True);
                  r = (case find_first (\<lambda>c. c = 63) url of
                         Some pos \<Rightarrow> SetQuery (drop (pos + 1) url) (SetPath (take pos url) r)
                       | None \<Rightarrow> SetPath url r)
              in bindE (element 2 pieces) (\<lambda>v. Inr (SetHttpVersion v r)))))"

definition add_line :: "http_request \<Rightarrow> str \<Rightarrow> http_request" where
  "add_line r l = (case key_value 58 l of Some (k, v) \<Rightarrow> AddHeader k v r | None \<Rightarrow> r)"

text \<open>What kind of body follows the headers.\<close>

definition body_kind :: "http_request \<Rightarrow> http_parser \<Rightarrow> http_parser" where
  "body_kind r p =
     (let len = GetHeader (lit ''content-length'') r
      in if len \<noteq> [] then
           (case stoull len of
              None \<Rightarrow> bad_request (p\<lparr>hp_req := Some r\<rparr>)
            | Some n \<Rightarrow> p\<lparr>hp_req := Some r, hp_content_length := ucast n,
                hp_state := (if (ucast n :: u32) = 0 then kExpectHttpComplete else kExpectNormalBody)\<rparr>)
         else if GetHeader (lit ''transfer-encoding'') r = lit ''chunked''
         then p\<lparr>hp_req := Some (r\<lparr>rq_is_chunked := True\<rparr>), hp_is_chunked := True, hp_state := kExpectChunkLen\<rparr>
         else if \<not> hp_is_request p \<and> rq_code r \<noteq> 200 \<or>
           hp_is_request p \<and> (rq_method r = kGet \<or> rq_method r = kHead \<or> rq_method r = kOptions)
         then p\<lparr>hp_req := Some r, hp_chunk_length := 0, hp_state := kExpectHttpComplete\<rparr>
         else p\<lparr>hp_req := Some (r\<lparr>rq_is_stream := True\<rparr>), hp_content_length := -1, hp_is_stream := True,
                hp_state := kExpectStreamBody\<rparr>)"

text \<open>The loop runs over all lines, the first one included.\<close>

definition ParseHeaders :: "http_parser \<Rightarrow> http_parser res" where
  "ParseHeaders p =
     (let pieces = SplitString (hp_header p) CRLF
      in if length pieces < 1 then Inr (bad_request p)
         else bindE (ProcessMethodLine (pieces ! 0)) (\<lambda>r.
           Inr (body_kind (foldl add_line r pieces) (p\<lparr>hp_is_request := rq_is_request r\<rparr>))))"

section \<open>The state machine\<close>

definition clear_done :: "http_parser \<Rightarrow> http_parser" where
  "clear_done p =
     (if hp_state p = kExpectHttpComplete then ClearForNextHttp p
      else if hp_state p = kExpectChunkComplete then ClearForNextChunk p
      else p)"

definition parse_headers_state :: "byte list \<Rightarrow> http_parser \<Rightarrow> (HttpParserState \<times> byte list \<times> http_parser) res" where
  "parse_headers_state buf p =
     (if 4 < length buf then
        (case find_sub CRLFCRLF buf of
           Some n \<Rightarrow> bindE (ParseHeaders (p\<lparr>hp_header := take n buf\<rparr>)) (\<lambda>p.
             Inr (hp_state p, drop (n + 4) buf, p))
         | None \<Rightarrow>
             if kHttpMaxBodySize < length buf then Inr (kExpectError, buf, bad_request p)
             else Inr (kExpectContinue, buf, p))
      else Inr (kExpectContinue, buf, p))"

text \<open>A length above the limit sets the error state, which the lines below it overwrite.\<close>

definition parse_chunk_len :: "byte list \<Rightarrow> http_parser \<Rightarrow> byte list \<times> http_parser" where
  "parse_chunk_len buf p =
     (case crlf_at buf of
        Some n \<Rightarrow>
          (let len = word_of_int (strtol 16 (take n buf));
               p = p\<lparr>hp_chunk_length := len\<rparr>;
               p = (if 1024 * 1024 < sint len then bad_request p else p)
           in (drop (n + 2) buf,
               if len = 0 then p\<lparr>hp_state := kExpectLastEmptyChunk\<rparr>
               else p\<lparr>hp_chunk_length := len + 2, hp_state := kExpectChunkBody\<rparr>))
      | None \<Rightarrow> if 32 < length buf then ([], bad_request p) else (buf, p))"

definition parse_last_chunk :: "byte list \<Rightarrow> http_parser \<Rightarrow> byte list \<times> http_parser" where
  "parse_last_chunk buf p =
     (case crlf_at buf of
        Some n \<Rightarrow> (drop (n + 2) buf, p\<lparr>hp_chunk := None, hp_state := kExpectChunkComplete\<rparr>)
      | None \<Rightarrow> (buf, p))"

definition with_state :: "byte list \<times> http_parser \<Rightarrow> HttpParserState \<times> byte list \<times> http_parser" where
  "with_state bp = (case bp of (buf, p) \<Rightarrow> (hp_state p, buf, p))"

definition HttpParser_Parse :: "byte list \<Rightarrow> http_parser \<Rightarrow> (HttpParserState \<times> byte list \<times> http_parser) res" where
  "HttpParser_Parse buf p =
     (if buf = [] then Inr (hp_state p, buf, p)
      else let p = clear_done p
        in case hp_state p of
             kExpectHeaders \<Rightarrow> parse_headers_state buf p
           | kExpectNormalBody \<Rightarrow> bindE (ParseNormalBody buf p) (\<lambda>bp. Inr (with_state bp))
           | kExpectStreamBody \<Rightarrow> bindE (ParseStream buf p) (\<lambda>bp. Inr (with_state bp))
           | kExpectChunkLen \<Rightarrow> Inr (with_state (parse_chunk_len buf p))
           | kExpectChunkBody \<Rightarrow> bindE (ParseChunk buf p) (\<lambda>bp. Inr (with_state bp))
           | kExpectLastEmptyChunk \<Rightarrow> Inr (with_state (parse_last_chunk buf p))
           | _ \<Rightarrow> Inr (hp_state p, buf, p))"

section \<open>Lemmas\<close>

text \<open>Filling a packet: the bytes go to its end.\<close>

definition room :: "'e packet \<Rightarrow> nat" where
  "room c = length (pk_data c) - unat (pk_size c)"

lemma fill_ok:
  assumes "case chunk of Some c \<Rightarrow> packet_ok c \<and> room c = m \<and> body c = sofar | None \<Rightarrow> int m = cap \<and> m < 2 ^ 31 \<and> sofar = []"
    and "length buf < 2 ^ 31"
  shows "\<exists>c. fill cap buf chunk = Inr (min (length buf) m, drop (min (length buf) m) buf, c) \<and> packet_ok c \<and>
    body c = sofar @ take m buf \<and> room c = m - length buf"
proof -
  obtain c where c: "(case chunk of Some c \<Rightarrow> Inr c | None \<Rightarrow> NewPacket cap) = Inr c" "packet_ok c"
      "room c = m" "body c = sofar"
  proof (cases chunk)
    case None
    then obtain c :: "unit packet" where n: "NewPacket cap = Inr c" "packet_ok c" "body c = []" "pk_size c = 0" "unat (pk_capacity c) = nat cap"
      using NewPacket_ok [of cap] assms(1) by auto
    then have "room c = m" using assms(1) None by (auto simp: room_def packet_ok_def)
    with n None assms(1) show ?thesis by (intro that [of c]) auto
  qed (use assms(1) that in simp)
  define k where "k = min (length buf) m"
  have sp: "Space c = int m" using Space_ok [OF c(2)] c(3) by (simp add: room_def)
  have "unat (of_nat (length buf) :: u32) = length buf" using assms(2) by (simp add: unat_of_nat)
  then have "sint (of_nat (length buf) :: u32) = int (length buf)" using assms(2) by (simp add: sint_unat_small)
  then have n: "min (sint (of_nat (length buf) :: u32)) (Space c) = int k" using sp by (simp add: k_def)
  have le: "unat (pk_size c) \<le> length (pk_data c)" using c(2) by (simp add: packet_ok_def word_le_nat_alt)
  define d where "d = take k buf"
  have d: "length d = k" "d = take m buf" by (simp_all add: d_def k_def min_def)
  have fits: "unat (pk_size c) + length d \<le> length (pk_data c)"
    unfolding d(1) using c(3) le by (simp add: room_def k_def)
  obtain c' where w: "write_data (unat (pk_size c)) d c = Inr c'" "packet_ok (UpdatePacketSize k c')"
      "body (UpdatePacketSize k c') = body c @ d" "length (pk_data c') = length (pk_data c)"
      "unat (pk_size (UpdatePacketSize k c')) = unat (pk_size c) + k"
    using write_body [OF c(2) fits] unfolding d(1) by blast
  have "length (pk_data (UpdatePacketSize k c')) = length (pk_data c)" using w(4) by (simp add: UpdatePacketSize_def)
  then have "room (UpdatePacketSize k c') = m - length buf"
    unfolding room_def w(5) using c(3) by (simp add: room_def k_def)
  moreover have "mem_read k buf = Inr d" by (simp add: d_def k_def)
  ultimately show ?thesis using w c n d(2)
    by (simp add: fill_def Let_def k_def [symmetric] del: bindE_eq_Inr)
qed

text \<open>Messages whose parts fit into their lines, as the printing operations write them.\<close>

definition header_ok :: "str \<times> str \<Rightarrow> bool" where
  "header_ok h \<longleftrightarrow> fst h \<noteq> [] \<and> one_line (fst h) \<and> one_line (snd h) \<and> 58 \<notin> set (fst h) \<and>
     map tolower (fst h) = fst h \<and> Trim (fst h) = fst h \<and> Trim (snd h) = snd h"

definition message_ok :: "(str \<times> str) list \<Rightarrow> (str \<times> str) list \<Rightarrow> http_request \<Rightarrow> bool" where
  "message_ok hs ps r \<longleftrightarrow>
     enumerates hs (rq_headers r) \<and> enumerates ps (rq_parameters r) \<and> list_all header_ok hs \<and>
     (rq_is_request r \<longrightarrow> rq_method r \<notin> {kPatch, kInvalid} \<and> rq_path r \<noteq> [] \<and> 63 \<notin> set (rq_path r) \<and>
        list_all plain_parameter ps)"

text \<open>The message the other side sees: the same, but for what no line carries.\<close>

definition same_http :: "http_request \<Rightarrow> http_request \<Rightarrow> bool" where
  "same_http r r' \<longleftrightarrow> rq_is_request r' = rq_is_request r \<and> rq_headers r' = rq_headers r \<and>
     (rq_version r \<noteq> kVersionUnknown \<longrightarrow> rq_version r' = rq_version r) \<and>
     (if rq_is_request r then rq_method r' = rq_method r \<and> rq_path r' = rq_path r \<and> rq_parameters r' = rq_parameters r
      else rq_code r' = rq_code r)"

lemma header_line_ok:
  assumes "header_ok h"
  shows "one_line (header_line h)" "header_line h \<noteq> []"
    "add_line r (header_line h) = r\<lparr>rq_headers := (rq_headers r)(fst h \<mapsto> snd h)\<rparr>"
proof -
  have "key_value 58 (header_line h) = Some (fst h, snd h)"
    using key_value_split [of 58 "fst h" "32 # snd h"] assms
    by (simp add: header_line_def header_ok_def Trim_space)
  then show "add_line r (header_line h) = r\<lparr>rq_headers := (rq_headers r)(fst h \<mapsto> snd h)\<rparr>"
    using assms by (simp add: add_line_def AddHeader_def header_ok_def case_prod_beta)
qed (use assms in \<open>simp_all add: header_line_def header_ok_def\<close>)

lemma add_lines:
  assumes "list_all header_ok hs" "distinct (map fst hs)" "rq_headers r = Map.empty" "58 \<notin> set first"
  shows "foldl add_line r (first # map header_line hs) = r\<lparr>rq_headers := map_of hs\<rparr>"
proof -
  have "foldl add_line r (map header_line hs) =
      r\<lparr>rq_headers := foldl (\<lambda>m (k, v). m(k \<mapsto> v)) (rq_headers r) hs\<rparr>" for r
    using assms(1)
  proof (induction hs arbitrary: r)
    case (Cons h hs)
    then show ?case by (cases h) (simp add: header_line_ok(3) del: fun_upd_apply)
  qed simp
  moreover have "add_line r first = r" using key_value_none [OF assms(4)] by (simp add: add_line_def)
  ultimately show ?thesis using foldl_map_upd [OF assms(2), of Map.empty] assms(3) by simp
qed

text \<open>The first line of a request, without its line end, is read as it was meant.\<close>

lemma method_name_ok:
  assumes "m \<notin> {kPatch, kInvalid}"
  shows "ParseMethod (method_name m) = m" "take 4 (map tolower (method_name m)) \<noteq> lit ''http''"
    "32 \<notin> set (method_name m)" "58 \<notin> set (method_name m)" "one_line (method_name m)" "method_name m \<noteq> []"
  using assms by (cases m; simp add: ParseMethod_def lit_def tolower_def)+

lemma version_name_ok:
  "32 \<notin> set (version_name v)" "58 \<notin> set (version_name v)" "one_line (version_name v)" "version_name v \<noteq> []"
  "SetHttpVersion (version_name v) r = r\<lparr>rq_version := (if v = kHttp10 then kHttp10 else kHttp11)\<rparr>"
  "take 4 (map tolower (version_name v)) = lit ''http''"
  by (simp_all add: version_name_def lit_def SetHttpVersion_def tolower_def)

definition request_line :: "(str \<times> str) list \<Rightarrow> http_request \<Rightarrow> str" where
  "request_line ps r = method_name (rq_method r) @ 32 # UrlEncode (request_url ps r) @ 32 # version_name (rq_version r) @ [32]"

lemma request_line_read:
  assumes "rq_method r \<notin> {kPatch, kInvalid}" "rq_path r \<noteq> []" "63 \<notin> set (rq_path r)" "list_all plain_parameter ps"
    and "enumerates ps (rq_parameters r)"
  shows "\<exists>r'. ProcessMethodLine (request_line ps r) = Inr r' \<and> rq_is_request r' \<and> rq_headers r' = Map.empty \<and>
    rq_method r' = rq_method r \<and> rq_path r' = rq_path r \<and> rq_parameters r' = rq_parameters r \<and>
    rq_version r' = (if rq_version r = kHttp10 then kHttp10 else kHttp11)"
proof -
  let ?url = "UrlEncode (request_url ps r)"
  have "32 \<notin> set ?url" using set_UrlEncode by blast
  then have pieces: "SplitString (request_line ps r) [32] = [method_name (rq_method r), ?url, version_name (rq_version r)]"
    unfolding request_line_def using method_name_ok(3) [OF assms(1)] version_name_ok(1) split_piece [of 32 _ "[]"]
    by (simp add: split_piece) (simp add: SplitString_def split_loop.simps)
  let ?r = "SetMethod (method_name (rq_method r)) (HttpRequest_new True)"
  have path: "SetPath (UrlEncode (rq_path r)) r' = r'\<lparr>rq_path := rq_path r\<rparr>" for r'
    by (simp add: SetPath_decodes url_decode_encode)
  have nq: "63 \<notin> set (UrlEncode (rq_path r))" using assms(3) set_UrlEncode by blast
  have "\<exists>q. (case find_first (\<lambda>c. c = 63) ?url of
        Some pos \<Rightarrow> SetQuery (drop (pos + 1) ?url) (SetPath (take pos ?url) ?r)
      | None \<Rightarrow> SetPath ?url ?r) = ?r\<lparr>rq_path := rq_path r, rq_query := q, rq_parameters := rq_parameters r\<rparr>"
  proof (cases "ps = []")
    case True
    then have "find_first (\<lambda>c. c = 63) ?url = None" using nq assms(2) find_first_none by (simp add: request_url_def)
    with True assms(2,5) show ?thesis
      by (intro exI [of _ "[]"]) (simp add: request_url_def path enumerates_def SetMethod_def HttpRequest_new_def)
  next
    case False
    have q: "url_plain 63" by (simp add: url_plain_def is_mark_def)
    have url: "?url = UrlEncode (rq_path r) @ 63 # join_parameters ps"
      using False assms(2) UrlEncode_plain [OF url_plain_join [OF assms(4)]] q by (simp add: request_url_def UrlEncode_append)
    have "find_first (\<lambda>c. c = 63) ?url = Some (length (UrlEncode (rq_path r)))"
      unfolding url using nq by (rule find_first_at)
    then show ?thesis
      using SetQuery_join [OF assms(4), of "?r\<lparr>rq_path := rq_path r\<rparr>"] assms(5)
      by (simp add: url path enumerates_def SetMethod_def HttpRequest_new_def)
  qed
  then obtain q where q: "(case find_first (\<lambda>c. c = 63) ?url of
        Some pos \<Rightarrow> SetQuery (drop (pos + 1) ?url) (SetPath (take pos ?url) ?r)
      | None \<Rightarrow> SetPath ?url ?r) = ?r\<lparr>rq_path := rq_path r, rq_query := q, rq_parameters := rq_parameters r\<rparr>" by blast
  have "ProcessMethodLine (request_line ps r) = Inr (SetHttpVersion (version_name (rq_version r))
      (?r\<lparr>rq_path := rq_path r, rq_query := q, rq_parameters := rq_parameters r\<rparr>))"
    using method_name_ok(2) [OF assms(1)]
    unfolding ProcessMethodLine_def pieces Let_def element_def by (simp del: bindE_eq_Inr) (simp only: q)
  then show ?thesis using method_name_ok(1) [OF assms(1)]
    by (simp add: version_name_ok(5) SetMethod_def HttpRequest_new_def)
qed

text \<open>The first line of a response.\<close>

definition response_line :: "http_request \<Rightarrow> str" where
  "response_line r = version_name (rq_version r) @ 32 # digits 10 (unat (rq_code r)) @ 32 # ParseStatusMessage (sint (rq_code r))"

lemma status_message_ok: "one_line (ParseStatusMessage c) \<and> 58 \<notin> set (ParseStatusMessage c)"
proof -
  have all: "list_all (\<lambda>m. one_line (lit m) \<and> 58 \<notin> set (lit m)) (map snd status_messages)"
    by (simp add: status_messages_def lit_def)
  show ?thesis
  proof (cases "map_of status_messages c")
    case None
    then show ?thesis by (simp add: ParseStatusMessage_def lit_def)
  next
    case (Some m)
    then have "(c, m) \<in> set status_messages" by (rule map_of_SomeD)
    then have "m \<in> set (map snd status_messages)" by force
    with all have "one_line (lit m) \<and> 58 \<notin> set (lit m)" unfolding list_all_iff by blast
    with Some show ?thesis by (simp add: ParseStatusMessage_def)
  qed
qed

lemma decimal_ok: "32 \<notin> set (digits 10 n) \<and> 58 \<notin> set (digits 10 n) \<and> one_line (digits 10 n)"
proof -
  have "c \<noteq> 32 \<and> c \<noteq> 58 \<and> c \<noteq> 13 \<and> c \<noteq> 10" if c: "c \<in> set (digits 10 n)" for c
  proof -
    obtain d where d: "d < 10" "c = digit_char d" using digits_set [OF _ _ c] by auto
    then have "d < 16" by simp
    then show ?thesis unfolding d(2)
      by (rule less16_cases [THEN disjE]) (auto simp: digit_char_def)
  qed
  then show ?thesis unfolding one_line_def by blast
qed

lemma response_line_read:
  "ProcessMethodLine (response_line r) =
     Inr ((HttpRequest_new False)\<lparr>rq_version := (if rq_version r = kHttp10 then kHttp10 else kHttp11), rq_code := rq_code r\<rparr>)"
proof -
  have pieces: "SplitString (response_line r) [32] =
      version_name (rq_version r) # digits 10 (unat (rq_code r)) # SplitString (ParseStatusMessage (sint (rq_code r))) [32]"
    using version_name_ok(1) [of "rq_version r"] decimal_ok by (simp add: response_line_def split_piece)
  have "unat (rq_code r) < 2 ^ 63" using unat_u32_less [of "rq_code r"] by simp
  then have "atoi (digits 10 (unat (rq_code r))) = rq_code r" by (simp add: atoi_digits)
  then show ?thesis using version_name_ok
    by (simp add: ProcessMethodLine_def Let_def pieces element_def SetStatusCode_def HttpRequest_new_def del: bindE_eq_Inr)
qed

text \<open>A whole header block.\<close>

definition first_line :: "(str \<times> str) list \<Rightarrow> http_request \<Rightarrow> str" where
  "first_line ps r = (if rq_is_request r then request_line ps r else response_line r)"

lemma first_line_ok:
  assumes "message_ok hs ps r"
  shows "one_line (first_line ps r)" "first_line ps r \<noteq> []" "58 \<notin> set (first_line ps r)"
proof -
  have u: "58 \<notin> set (UrlEncode s) \<and> one_line (UrlEncode s)" for s using set_UrlEncode unfolding one_line_def by blast
  show "one_line (first_line ps r)" "58 \<notin> set (first_line ps r)"
    using assms u status_message_ok decimal_ok version_name_ok method_name_ok
    by (auto simp: first_line_def request_line_def response_line_def message_ok_def)
  show "first_line ps r \<noteq> []" using version_name_ok(4) by (auto simp: first_line_def request_line_def response_line_def)
qed

lemma MakeHeaders_lines:
  "MakeHeaders hs ps r = lines_text (first_line ps r # map header_line hs) @ CRLF @ CRLF"
proof -
  have "MakeHeaders hs ps r = concat (map (\<lambda>l. l @ CRLF) (first_line ps r # map header_line hs)) @ CRLF"
    by (simp add: MakeHeaders_def AppendRequestFirstLine_def AppendResponseFirstLine_def first_line_def
        request_line_def response_line_def comp_def)
  then show ?thesis using lines_text_ends [of "first_line ps r # map header_line hs"] by simp
qed

lemma first_line_read:
  assumes "message_ok hs ps r"
  shows "\<exists>r'. ProcessMethodLine (first_line ps r) = Inr r' \<and> rq_headers r' = Map.empty \<and> same_http r (r'\<lparr>rq_headers := rq_headers r\<rparr>)"
proof (cases "rq_is_request r")
  case True
  then show ?thesis using assms request_line_read [of r ps]
    by (cases "rq_version r") (auto simp: first_line_def message_ok_def same_http_def)
next
  case False
  then have "ProcessMethodLine (first_line ps r) = Inr ((HttpRequest_new False)\<lparr>
      rq_version := (if rq_version r = kHttp10 then kHttp10 else kHttp11), rq_code := rq_code r\<rparr>)"
    using response_line_read by (simp add: first_line_def)
  with False show ?thesis by (cases "rq_version r") (auto simp: same_http_def HttpRequest_new_def)
qed

lemma parse_header_block:
  assumes "message_ok hs ps r" "hp_state p = kExpectHeaders"
  shows "\<exists>r' h. same_http r r' \<and> (\<forall>rest. HttpParser_Parse (MakeHeaders hs ps r @ rest) p =
    Inr (with_state (rest, body_kind r' (p\<lparr>hp_header := h, hp_is_request := rq_is_request r\<rparr>))))"
proof -
  let ?ls = "first_line ps r # map header_line hs"
  have hs: "list_all header_ok hs" "distinct (map fst hs)" "map_of hs = rq_headers r"
    using assms(1) by (auto simp: message_ok_def enumerates_def)
  have ls: "list_all (\<lambda>l. one_line l \<and> l \<noteq> []) ?ls"
    using first_line_ok [OF assms(1)] hs(1) header_line_ok by (auto simp: list_all_iff)
  obtain r' where r': "ProcessMethodLine (first_line ps r) = Inr r'" "rq_headers r' = Map.empty"
    "same_http r (r'\<lparr>rq_headers := rq_headers r\<rparr>)" using first_line_read [OF assms(1)] by blast
  have fold: "foldl add_line r' ?ls = r'\<lparr>rq_headers := rq_headers r\<rparr>"
    using add_lines [OF hs(1,2) r'(2) first_line_ok(3) [OF assms(1)]] hs(3) by simp
  have req: "rq_is_request r' = rq_is_request r" using r'(3) by (simp add: same_http_def)
  have headers: "ParseHeaders (p\<lparr>hp_header := lines_text ?ls\<rparr>) =
      Inr (body_kind (r'\<lparr>rq_headers := rq_headers r\<rparr>) (p\<lparr>hp_header := lines_text ?ls, hp_is_request := rq_is_request r\<rparr>))"
    by (simp add: ParseHeaders_def split_lines [OF ls] r'(1) fold req del: bindE_eq_Inr foldl_Cons lines_text.simps)
  have "HttpParser_Parse (MakeHeaders hs ps r @ rest) p = Inr (with_state (rest,
      body_kind (r'\<lparr>rq_headers := rq_headers r\<rparr>) (p\<lparr>hp_header := lines_text ?ls, hp_is_request := rq_is_request r\<rparr>)))" for rest
  proof -
    have whole: "MakeHeaders hs ps r @ rest = lines_text ?ls @ CRLF @ CRLF @ rest" by (simp add: MakeHeaders_lines)
    have ne: "MakeHeaders hs ps r @ rest \<noteq> []" "4 < length (MakeHeaders hs ps r @ rest)"
      unfolding whole using first_line_ok(2) [OF assms(1)] by (cases hs; simp)+
    have "find_sub CRLFCRLF (MakeHeaders hs ps r @ rest) = Some (length (lines_text ?ls))"
      unfolding whole using find_headers_end [OF ls] by simp
    moreover have "take (length (lines_text ?ls)) (MakeHeaders hs ps r @ rest) = lines_text ?ls"
      "drop (length (lines_text ?ls) + 4) (MakeHeaders hs ps r @ rest) = rest" unfolding whole by simp_all
    ultimately show ?thesis using assms(2) ne headers
      by (auto simp: HttpParser_Parse_def clear_done_def parse_headers_state_def with_state_def simp del: bindE_eq_Inr)
  qed
  with r'(3) show ?thesis by blast
qed

end
