(* ===== verification/HttpContext.thy ===== *)
theory HttpContext
  imports HttpParser
begin

text \<open>
  \<open>src/mmedia/http/HttpContext.{h,cpp}\<close>: the HTTP side of one connection. What arrives is taken apart
  by the parser in a loop, and every complete message or chunk goes to the handler; what is posted
  is sent piece by piece, one piece for each \<open>WriteComplete\<close>. The calls on the connection and on the
  handler are recorded in order.
\<close>

section \<open>State\<close>

datatype HttpContextPostState = kHttpContextPostInit | kHttpContextPostHttp | kHttpContextPostHttpHeader
  | kHttpContextPostHttpBody | kHttpContextPostHttpStreamHeader | kHttpContextPostHttpStreamChunk
  | kHttpContextPostChunkHeader | kHttpContextPostChunkLen | kHttpContextPostChunkBody | kHttpContextPostChunkEOF

datatype http_event =
    OnRequest "http_request option" "unit packet option"   \<comment> \<open>\<open>handler_->OnRequest\<close>\<close>
  | OnSent                                                  \<comment> \<open>\<open>handler_->OnSent\<close>\<close>
  | OnSentNextChunk                                         \<comment> \<open>\<open>handler_->OnSentNextChunk\<close>\<close>
  | HttpSend str                                            \<comment> \<open>\<open>connection_->Send\<close>\<close>
  | HttpForceClose                                          \<comment> \<open>\<open>connection_->ForceClose\<close>\<close>

record http_ctx =
  hc_parser :: http_parser
  hc_header :: str
  hc_out_packet :: "unit packet option"
  hc_post_state :: HttpContextPostState
  hc_header_sent :: bool
  hc_has_handler :: bool
  hc_events :: "http_event list"

text \<open>The constructor does not set \<open>header_sent_\<close>: it is what the memory holds.\<close>

definition HttpContext_new :: "bool \<Rightarrow> bool \<Rightarrow> http_ctx" where
  "HttpContext_new garbage handler = \<lparr>hc_parser = HttpParser_new, hc_header = [], hc_out_packet = None,
     hc_post_state = kHttpContextPostInit, hc_header_sent = garbage, hc_has_handler = handler, hc_events = []\<rparr>"

definition record_event :: "http_event \<Rightarrow> http_ctx \<Rightarrow> http_ctx" where
  "record_event e c = c\<lparr>hc_events := hc_events c @ [e]\<rparr>"

section \<open>Receiving\<close>

definition after_parse :: "HttpParserState \<Rightarrow> http_ctx \<Rightarrow> http_ctx" where
  "after_parse state c =
     (if state = kExpectHttpComplete \<or> state = kExpectChunkComplete then
        (if hc_has_handler c
         then record_event (OnRequest (hp_req (hc_parser c)) (hp_chunk (hc_parser c))) c else c)
      else if state = kExpectError then record_event HttpForceClose c
      else c)"

text \<open>\<open>HttpContext::Parse\<close>: the value \<open>None\<close> is a loop that never ends.\<close>

partial_function (option) HttpContext_Parse :: "byte list \<Rightarrow> http_ctx \<Rightarrow> (byte list \<times> http_ctx) res option" where
  "HttpContext_Parse buf c =
     (if 1 < length buf then
        (case HttpParser_Parse buf (hc_parser c) of
           Inl e \<Rightarrow> Some (Inl e)
         | Inr r \<Rightarrow> HttpContext_Parse (fst (snd r)) (after_parse (fst r) (c\<lparr>hc_parser := snd (snd r)\<rparr>)))
      else Some (Inr (buf, c)))"

section \<open>Posting\<close>

definition PostText :: "str \<Rightarrow> http_ctx \<Rightarrow> bool \<times> http_ctx" where
  "PostText header_and_body c =
     (if hc_post_state c \<noteq> kHttpContextPostInit then (False, c)
      else (True, record_event (HttpSend header_and_body)
              (c\<lparr>hc_header := header_and_body, hc_post_state := kHttpContextPostHttp\<rparr>)))"

definition PostHeaderAndPacket :: "str \<Rightarrow> unit packet option \<Rightarrow> http_ctx \<Rightarrow> bool \<times> http_ctx" where
  "PostHeaderAndPacket header packet c =
     (if hc_post_state c \<noteq> kHttpContextPostInit then (False, c)
      else (True, record_event (HttpSend header)
              (c\<lparr>hc_header := header, hc_out_packet := packet, hc_post_state := kHttpContextPostHttpHeader\<rparr>)))"

text \<open>\<open>PostChunkHeader\<close> and \<open>PostStreamHeader\<close> have the same body.\<close>

definition PostChunkHeader :: "str \<Rightarrow> http_ctx \<Rightarrow> bool \<times> http_ctx" where
  "PostChunkHeader header c =
     (if hc_post_state c \<noteq> kHttpContextPostInit then (False, c)
      else (True, (record_event (HttpSend header)
              (c\<lparr>hc_header := header, hc_post_state := kHttpContextPostInit\<rparr>))\<lparr>hc_header_sent := True\<rparr>))"

definition PostStreamHeader :: "str \<Rightarrow> http_ctx \<Rightarrow> bool \<times> http_ctx" where
  "PostStreamHeader header c =
     (if hc_post_state c \<noteq> kHttpContextPostInit then (False, c)
      else (True, (record_event (HttpSend header)
              (c\<lparr>hc_header := header, hc_post_state := kHttpContextPostInit\<rparr>))\<lparr>hc_header_sent := True\<rparr>))"

text \<open>The result of the inner call is thrown away.\<close>

definition PostRequest :: "(str \<times> str) list \<Rightarrow> (str \<times> str) list \<Rightarrow> http_request \<Rightarrow> http_ctx \<Rightarrow> bool \<times> http_ctx" where
  "PostRequest hs ps r c =
     (if rq_is_chunked r then (True, snd (PostChunkHeader (MakeHeaders hs ps r) c))
      else if rq_is_stream r then (True, snd (PostStreamHeader (MakeHeaders hs ps r) c))
      else (True, snd (PostText (AppendToBuffer hs ps r) c)))"

text \<open>\<open>Data ()\<close> and \<open>PacketSize ()\<close> of a packet pointer, as they are given to \<open>Send\<close>.\<close>

definition packet_bytes :: "unit packet option \<Rightarrow> str res" where
  "packet_bytes p = (case p of None \<Rightarrow> Inl NullDeref | Some c \<Rightarrow> mem_read (unat (pk_size c)) (pk_data c))"

definition PostChunk :: "unit packet option \<Rightarrow> http_ctx \<Rightarrow> http_ctx res" where
  "PostChunk packet c =
     (let c = c\<lparr>hc_out_packet := packet\<rparr>
      in if \<not> hc_header_sent c then
           Inr ((record_event (HttpSend (hc_header c)) (c\<lparr>hc_post_state := kHttpContextPostChunkHeader\<rparr>))
                  \<lparr>hc_header_sent := True\<rparr>)
         else (case packet of
             None \<Rightarrow> Inl NullDeref
           | Some k \<Rightarrow>
               let header = digits 16 (unat (pk_size k)) @ CRLF
               in Inr (record_event (HttpSend header)
                         (c\<lparr>hc_post_state := kHttpContextPostChunkLen, hc_header := header\<rparr>))))"

definition PostEofChunk :: "http_ctx \<Rightarrow> http_ctx" where
  "PostEofChunk c = record_event (HttpSend (lit ''0'' @ CRLF @ CRLF)) (c\<lparr>hc_post_state := kHttpContextPostChunkEOF\<rparr>)"

definition PostStreamChunk :: "unit packet option \<Rightarrow> http_ctx \<Rightarrow> (bool \<times> http_ctx) res" where
  "PostStreamChunk packet c =
     (if hc_post_state c = kHttpContextPostInit then
        (let c = c\<lparr>hc_out_packet := packet\<rparr>
         in if \<not> hc_header_sent c then
              Inr (True, (record_event (HttpSend (hc_header c)) (c\<lparr>hc_post_state := kHttpContextPostHttpStreamHeader\<rparr>))
                           \<lparr>hc_header_sent := True\<rparr>)
            else bindE (packet_bytes packet) (\<lambda>d.
                   Inr (True, record_event (HttpSend d) (c\<lparr>hc_post_state := kHttpContextPostHttpStreamChunk\<rparr>))))
      else Inr (False, c))"

text \<open>A call on the handler: \<open>handler_\<close> is not tested here.\<close>

definition handler_call :: "http_event \<Rightarrow> http_ctx \<Rightarrow> http_ctx res" where
  "handler_call e c = (if hc_has_handler c then Inr (record_event e c) else Inl NullDeref)"

definition send_packet :: "HttpContextPostState \<Rightarrow> http_ctx \<Rightarrow> http_ctx res" where
  "send_packet state c =
     bindE (packet_bytes (hc_out_packet c)) (\<lambda>d. Inr (record_event (HttpSend d) (c\<lparr>hc_post_state := state\<rparr>)))"

definition WriteComplete :: "http_ctx \<Rightarrow> http_ctx res" where
  "WriteComplete c =
     (case hc_post_state c of
        kHttpContextPostInit \<Rightarrow> Inr c
      | kHttpContextPostHttp \<Rightarrow> handler_call OnSent (c\<lparr>hc_post_state := kHttpContextPostInit\<rparr>)
      | kHttpContextPostHttpHeader \<Rightarrow> send_packet kHttpContextPostHttpBody c
      | kHttpContextPostHttpBody \<Rightarrow> handler_call OnSent (c\<lparr>hc_post_state := kHttpContextPostInit\<rparr>)
      | kHttpContextPostChunkHeader \<Rightarrow> handler_call OnSentNextChunk (c\<lparr>hc_post_state := kHttpContextPostChunkLen\<rparr>)
      | kHttpContextPostChunkLen \<Rightarrow> send_packet kHttpContextPostChunkBody c
      | kHttpContextPostChunkBody \<Rightarrow> handler_call OnSentNextChunk (c\<lparr>hc_post_state := kHttpContextPostInit\<rparr>)
      | kHttpContextPostChunkEOF \<Rightarrow> handler_call OnSent (c\<lparr>hc_post_state := kHttpContextPostInit\<rparr>)
      | kHttpContextPostHttpStreamHeader \<Rightarrow> handler_call OnSentNextChunk (c\<lparr>hc_post_state := kHttpContextPostInit\<rparr>)
      | kHttpContextPostHttpStreamChunk \<Rightarrow> handler_call OnSentNextChunk (c\<lparr>hc_post_state := kHttpContextPostInit\<rparr>))"

section \<open>The loop\<close>

lemma loop_step:
  assumes "HttpParser_Parse buf (hc_parser c) = Inr (state, buf', p)" "1 < length buf"
  shows "HttpContext_Parse buf c = HttpContext_Parse buf' (after_parse state (c\<lparr>hc_parser := p\<rparr>))"
  using assms by (subst HttpContext_Parse.simps) simp

lemma loop_done [simp]: "length buf \<le> 1 \<Longrightarrow> HttpContext_Parse buf c = Some (Inr (buf, c))"
  by (subst HttpContext_Parse.simps) simp

text \<open>A call of the parser that changes nothing is repeated for ever.\<close>

lemma loop_stuck:
  assumes "HttpParser_Parse buf p = Inr (state, buf, p)" "1 < length buf" "hc_parser c = p"
  shows "HttpContext_Parse buf c = None"
proof -
  have "\<not> (buf' = buf \<and> hc_parser c' = p)" if run: "HttpContext_Parse buf' c' = Some y" for buf' c' y
  proof (rule HttpContext_Parse.raw_induct [where P = "\<lambda>b d y. \<not> (b = buf \<and> hc_parser d = p)", OF _ run])
    fix F b d y
    assume IH: "\<And>b d y. F b d = Some y \<Longrightarrow> \<not> (b = buf \<and> hc_parser d = p)"
      and body: "(if 1 < length b then (case HttpParser_Parse b (hc_parser d) of
           Inl e \<Rightarrow> Some (Inl e)
         | Inr r \<Rightarrow> F (fst (snd r)) (after_parse (fst r) (d\<lparr>hc_parser := snd (snd r)\<rparr>)))
      else Some (Inr (b, d))) = Some y"
    show "\<not> (b = buf \<and> hc_parser d = p)"
    proof
      assume "b = buf \<and> hc_parser d = p"
      moreover have "hc_parser (after_parse state (d\<lparr>hc_parser := p\<rparr>)) = p" by (simp add: after_parse_def record_event_def)
      ultimately show False using IH body assms(1,2) by auto
    qed
  qed
  with assms(3) show ?thesis by (cases "HttpContext_Parse buf c") auto
qed

section \<open>Whole messages\<close>

lemma parse_clear: "buf \<noteq> [] \<Longrightarrow> HttpParser_Parse buf p = HttpParser_Parse buf (clear_done p)"
proof -
  have "clear_done (clear_done p) = clear_done p"
    by (simp add: clear_done_def ClearForNextHttp_def ClearForNextChunk_def)
  then show "buf \<noteq> [] \<Longrightarrow> ?thesis" by (simp add: HttpParser_Parse_def)
qed

text \<open>A message that says where it ends.\<close>

definition delimited :: "http_request \<Rightarrow> bool" where
  "delimited r \<longleftrightarrow>
     (case rq_headers r (lit ''content-length'') of
        Some n \<Rightarrow> n = digits 10 (length (rq_body r))
      | None \<Rightarrow> rq_body r = [] \<and> rq_headers r (lit ''transfer-encoding'') = None \<and>
          (if rq_is_request r then rq_method r \<in> {kGet, kHead, kOptions} else rq_code r \<noteq> 200))"

lemma body_kind_delimited:
  assumes "same_http r r'" "delimited r" "length (rq_body r) < 2 ^ 31" "hp_is_request p = rq_is_request r"
  shows "\<exists>p'. body_kind r' p = p' \<and> hp_req p' = Some r' \<and> hp_chunk p' = hp_chunk p \<and>
    (if rq_body r = [] then hp_state p' = kExpectHttpComplete
     else hp_state p' = kExpectNormalBody \<and> hp_content_length p' = of_nat (length (rq_body r)))"
proof (cases "rq_headers r (lit ''content-length'')")
  case None
  have lower: "map tolower (lit ''content-length'') = lit ''content-length''"
    "map tolower (lit ''transfer-encoding'') = lit ''transfer-encoding''" by (simp_all add: lit_def tolower_def)
  from None assms have "GetHeader (lit ''content-length'') r' = []" "GetHeader (lit ''transfer-encoding'') r' = []"
    by (simp_all add: delimited_def same_http_def GetHeader_def lower)
  moreover have "[] \<noteq> lit ''chunked''" by (simp add: lit_def)
  moreover have "if hp_is_request p then rq_method r' \<in> {kGet, kHead, kOptions} else rq_code r' \<noteq> 200" "rq_body r = []"
    using None assms by (auto simp: delimited_def same_http_def split: if_splits)
  ultimately show ?thesis by (auto simp: body_kind_def split: if_splits)
next
  case (Some n)
  have lower: "map tolower (lit ''content-length'') = lit ''content-length''" by (simp add: lit_def tolower_def)
  let ?k = "length (rq_body r)"
  have "GetHeader (lit ''content-length'') r' = digits 10 ?k"
    using Some assms by (simp add: delimited_def same_http_def GetHeader_def lower)
  moreover have "stoull (digits 10 ?k) = Some (of_nat ?k)" using assms(3) by (intro stoull_digits) simp
  moreover have "ucast (of_nat ?k :: u64) = (of_nat ?k :: u32)"
    using assms(3) by (simp add: unsigned_of_nat take_bit_nat_eq_self)
  moreover have "unat (of_nat ?k :: u32) = ?k" using assms(3) by (simp add: unat_of_nat)
  then have "(of_nat ?k :: u32) = 0 \<longleftrightarrow> rq_body r = []"
    unfolding word_unat_eq_iff by (simp only: unat_0 length_0_conv)
  ultimately show ?thesis by (simp add: body_kind_def)
qed

text \<open>The parser between two messages.\<close>

definition fresh :: "http_parser \<Rightarrow> bool" where
  "fresh p \<longleftrightarrow> hp_state p = kExpectHttpComplete \<or> hp_state p = kExpectHeaders \<and> hp_chunk p = None"

definition chunk_data :: "unit packet option \<Rightarrow> str" where
  "chunk_data k = (case k of None \<Rightarrow> [] | Some c \<Rightarrow> body c)"

definition delivered :: "http_request \<Rightarrow> http_event \<Rightarrow> bool" where
  "delivered r e \<longleftrightarrow> (\<exists>r' k. e = OnRequest (Some r') k \<and> same_http r r' \<and> chunk_data k = rq_body r)"

lemma parse_whole_body:
  assumes "hp_state p = kExpectNormalBody" "hp_content_length p = of_nat (length d)" "hp_chunk p = None"
    and "d \<noteq> []" "length (d @ rest) < 2 ^ 31"
  shows "\<exists>c. HttpParser_Parse (d @ rest) p = Inr (kExpectHttpComplete, rest,
    p\<lparr>hp_chunk := Some c, hp_content_length := 0, hp_state := kExpectHttpComplete\<rparr>) \<and> body c = d"
proof -
  have "unat (of_nat (length d) :: u32) = length d" using assms(5) by (simp add: unat_of_nat)
  then have n: "sint (of_nat (length d) :: u32) = int (length d)" using assms(5) by (simp add: sint_unat_small)
  obtain c where c: "fill (int (length d)) (d @ rest) None = Inr (length d, rest, c)" "body c = d"
    using fill_ok [where chunk = None and m = "length d" and sofar = "[]" and cap = "int (length d)" and buf = "d @ rest"] assms(5) by (auto simp: min_def)
  have "ParseNormalBody (d @ rest) p = Inr (rest, p\<lparr>hp_chunk := Some c, hp_content_length := 0, hp_state := kExpectHttpComplete\<rparr>)"
    using assms(2,3) c(1) n by (simp add: ParseNormalBody_def Let_def del: bindE_eq_Inr)
  with assms(1,4) c(2) show ?thesis
    by (auto simp: HttpParser_Parse_def clear_done_def with_state_def simp del: bindE_eq_Inr)
qed

text \<open>The headers alone: the loop goes on behind them.\<close>

lemma receive_headers:
  assumes "message_ok hs ps r" "fresh (hc_parser c)"
  shows "\<exists>r' h. same_http r r' \<and> (\<forall>rest. HttpContext_Parse (MakeHeaders hs ps r @ rest) c =
    (let p = body_kind r' ((clear_done (hc_parser c))\<lparr>hp_header := h, hp_is_request := rq_is_request r\<rparr>)
     in HttpContext_Parse rest (after_parse (hp_state p) (c\<lparr>hc_parser := p\<rparr>))))"
proof -
  have "hp_state (clear_done (hc_parser c)) = kExpectHeaders"
    using assms(2) by (auto simp: fresh_def clear_done_def ClearForNextHttp_def)
  from parse_header_block [OF assms(1) this]
  obtain r' h where r': "same_http r r'" "\<And>rest. HttpParser_Parse (MakeHeaders hs ps r @ rest) (clear_done (hc_parser c)) =
      Inr (with_state (rest, body_kind r' ((clear_done (hc_parser c))\<lparr>hp_header := h, hp_is_request := rq_is_request r\<rparr>)))"
    by blast
  have h2: "1 < length (MakeHeaders hs ps r @ rest)" for rest by (simp add: MakeHeaders_def)
  then have ne: "MakeHeaders hs ps r @ rest \<noteq> []" for rest by (metis list.size(3) not_less_zero)
  have "HttpContext_Parse (MakeHeaders hs ps r @ rest) c =
    (let p = body_kind r' ((clear_done (hc_parser c))\<lparr>hp_header := h, hp_is_request := rq_is_request r\<rparr>)
     in HttpContext_Parse rest (after_parse (hp_state p) (c\<lparr>hc_parser := p\<rparr>)))" for rest
    using loop_step [OF _ h2] r'(2) [of rest] parse_clear [OF ne [of rest], of "hc_parser c"]
    by (simp add: with_state_def Let_def)
  with r'(1) show ?thesis by blast
qed

lemma fresh_chunk: "fresh p \<Longrightarrow> hp_chunk (clear_done p) = None"
  by (auto simp: fresh_def clear_done_def ClearForNextHttp_def)

lemma receive_delimited:
  assumes "message_ok hs ps r" "delimited r" "fresh (hc_parser c)" "hc_has_handler c" "length (rq_body r) < 2 ^ 31"
  shows "\<exists>r' c'. same_http r r' \<and> hp_req (hc_parser c') = Some r' \<and> hp_chunk (hc_parser c') = None \<and> hc_has_handler c' \<and>
    (\<forall>rest. HttpContext_Parse (MakeHeaders hs ps r @ rest) c = HttpContext_Parse rest c') \<and>
    (if rq_body r = [] then hc_events c' = hc_events c @ [OnRequest (Some r') None] \<and> fresh (hc_parser c')
     else hc_events c' = hc_events c \<and> hp_state (hc_parser c') = kExpectNormalBody \<and>
       hp_content_length (hc_parser c') = of_nat (length (rq_body r)))"
proof -
  from receive_headers [OF assms(1,3)] obtain r' h where r': "same_http r r'"
    "\<And>rest. HttpContext_Parse (MakeHeaders hs ps r @ rest) c =
      (let p = body_kind r' ((clear_done (hc_parser c))\<lparr>hp_header := h, hp_is_request := rq_is_request r\<rparr>)
       in HttpContext_Parse rest (after_parse (hp_state p) (c\<lparr>hc_parser := p\<rparr>)))" by blast
  let ?p = "(clear_done (hc_parser c))\<lparr>hp_header := h, hp_is_request := rq_is_request r\<rparr>"
  obtain p' where p': "body_kind r' ?p = p'" "hp_req p' = Some r'" "hp_chunk p' = None"
    "if rq_body r = [] then hp_state p' = kExpectHttpComplete
     else hp_state p' = kExpectNormalBody \<and> hp_content_length p' = of_nat (length (rq_body r))"
    using body_kind_delimited [OF r'(1) assms(2,5), of ?p] fresh_chunk [OF assms(3)] by auto
  show ?thesis using r' p' assms(4)
    by (intro exI [of _ r'] exI [of _ "after_parse (hp_state p') (c\<lparr>hc_parser := p'\<rparr>)"])
      (simp add: after_parse_def record_event_def fresh_def Let_def)
qed

lemma receive_message:
  assumes "message_ok hs ps r" "delimited r" "length (rq_body r) \<noteq> 1" "fresh (hc_parser c)" "hc_has_handler c"
    and "length (AppendToBuffer hs ps r @ rest) < 2 ^ 31"
  shows "\<exists>c' e. HttpContext_Parse (AppendToBuffer hs ps r @ rest) c = HttpContext_Parse rest c' \<and>
    hc_events c' = hc_events c @ [e] \<and> delivered r e \<and> fresh (hc_parser c') \<and> hc_has_handler c'"
proof -
  let ?d = "rq_body r"
  have d: "length ?d < 2 ^ 31" "length (?d @ rest) < 2 ^ 31" using assms(6) by (auto simp: AppendToBuffer_def)
  obtain r' c1 where c1: "same_http r r'" "hp_req (hc_parser c1) = Some r'" "hp_chunk (hc_parser c1) = None" "hc_has_handler c1"
    "HttpContext_Parse (AppendToBuffer hs ps r @ rest) c = HttpContext_Parse (?d @ rest) c1"
    "if ?d = [] then hc_events c1 = hc_events c @ [OnRequest (Some r') None] \<and> fresh (hc_parser c1)
     else hc_events c1 = hc_events c \<and> hp_state (hc_parser c1) = kExpectNormalBody \<and>
       hp_content_length (hc_parser c1) = of_nat (length ?d)"
    using receive_delimited [OF assms(1,2,4,5) d(1)] by (auto simp: AppendToBuffer_def)
  show ?thesis
  proof (cases "?d = []")
    case True
    with c1 show ?thesis
      by (intro exI [of _ c1] exI [of _ "OnRequest (Some r') None"]) (simp add: delivered_def chunk_data_def)
  next
    case False
    with c1(6) have b: "hp_state (hc_parser c1) = kExpectNormalBody" "hp_content_length (hc_parser c1) = of_nat (length ?d)"
      "hc_events c1 = hc_events c" by auto
    obtain k where k: "HttpParser_Parse (?d @ rest) (hc_parser c1) = Inr (kExpectHttpComplete, rest,
        (hc_parser c1)\<lparr>hp_chunk := Some k, hp_content_length := 0, hp_state := kExpectHttpComplete\<rparr>)" "body k = ?d"
      using parse_whole_body [OF b(1,2) c1(3) False d(2)] by blast
    have "1 < length (?d @ rest)" using False assms(3) by (cases ?d) auto
    from loop_step [OF k(1) this] c1 b(3) k(2) show ?thesis
      by (intro exI [of _ "after_parse kExpectHttpComplete (c1\<lparr>hc_parser :=
            (hc_parser c1)\<lparr>hp_chunk := Some k, hp_content_length := 0, hp_state := kExpectHttpComplete\<rparr>\<rparr>)"]
            exI [of _ "OnRequest (Some r') (Some k)"])
        (simp add: after_parse_def record_event_def fresh_def delivered_def chunk_data_def)
  qed
qed

section \<open>A body in pieces\<close>

text \<open>What TCP delivers, piece by piece, each put behind what the last call left in the buffer.\<close>

fun feed :: "str list \<Rightarrow> byte list \<Rightarrow> http_ctx \<Rightarrow> (byte list \<times> http_ctx) res option" where
  "feed [] left c = Some (Inr (left, c))"
| "feed (d # ds) left c =
     (case HttpContext_Parse (left @ d) c of
        Some (Inr (left, c)) \<Rightarrow> feed ds left c
      | other \<Rightarrow> other)"

definition awaits_body :: "nat \<Rightarrow> str \<Rightarrow> http_parser \<Rightarrow> bool" where
  "awaits_body m got p \<longleftrightarrow> hp_state p = kExpectNormalBody \<and> hp_content_length p = of_nat m \<and> 0 < m \<and> m < 2 ^ 31 \<and>
     (case hp_chunk p of Some k \<Rightarrow> packet_ok k \<and> room k = m \<and> body k = got | None \<Rightarrow> got = [])"

lemma sint_of_nat_u32: "m < 2 ^ 31 \<Longrightarrow> sint (of_nat m :: u32) = int m"
  by (subst sint_unat_small) (simp_all add: unat_of_nat)

lemma of_nat_sub_u32: "n \<le> m \<Longrightarrow> (of_nat m :: u32) - of_nat n = of_nat (m - n)"
  by (simp add: of_nat_diff)

lemma of_nat_u32_eq_0: "m < 2 ^ 31 \<Longrightarrow> (of_nat m :: u32) = 0 \<longleftrightarrow> m = 0"
  unfolding word_unat_eq_iff by (simp add: unat_of_nat)

lemma receive_piece:
  assumes "awaits_body m got (hc_parser c)" "2 \<le> length d" "length d \<le> m" "hc_has_handler c"
  shows "\<exists>c' k. HttpContext_Parse d c = Some (Inr ([], c')) \<and> hc_has_handler c' \<and> hp_req (hc_parser c') = hp_req (hc_parser c) \<and>
    (if length d = m then hc_events c' = hc_events c @ [OnRequest (hp_req (hc_parser c)) (Some k)] \<and> body k = got @ d
     else hc_events c' = hc_events c \<and> awaits_body (m - length d) (got @ d) (hc_parser c'))"
proof -
  let ?p = "hc_parser c"
  have w: "hp_state ?p = kExpectNormalBody" "hp_content_length ?p = of_nat m" "m < 2 ^ 31"
    using assms(1) by (simp_all add: awaits_body_def)
  have fits: "length d < 2 ^ 31" using assms(3) w(3) by simp
  obtain k where k: "fill (sint (hp_content_length ?p)) d (hp_chunk ?p) = Inr (length d, [], k)" "packet_ok k"
      "body k = got @ d" "room k = m - length d"
    using fill_ok [where chunk = "hp_chunk ?p" and m = m and sofar = got and cap = "int m" and buf = d] assms(1,3) fits
    by (auto simp: awaits_body_def w(2) sint_of_nat_u32 split: option.splits)
  have rest: "hp_content_length ?p - of_nat (length d) = of_nat (m - length d)"
    unfolding w(2) by (rule of_nat_sub_u32 [OF assms(3)])
  have zero: "(of_nat (m - length d) :: u32) = 0 \<longleftrightarrow> length d = m"
  proof -
    have "m - length d < 2 ^ 31" using w(3) by (rule le_less_trans [OF diff_le_self])
    from of_nat_u32_eq_0 [OF this] show ?thesis using assms(3) by linarith
  qed
  define p' where "p' = ?p\<lparr>hp_chunk := Some k, hp_content_length := of_nat (m - length d),
      hp_state := (if length d = m then kExpectHttpComplete else kExpectNormalBody)\<rparr>"
  have "ParseNormalBody d ?p = Inr ([], p')"
    unfolding ParseNormalBody_def k(1) bindE.simps prod.case Let_def rest zero p'_def w(1) ..
  then have "HttpParser_Parse d ?p = Inr (hp_state p', [], p')"
    using w(1) assms(2) by (auto simp: HttpParser_Parse_def clear_done_def with_state_def simp del: bindE_eq_Inr)
  from loop_step [OF this] assms(2)
  have run: "HttpContext_Parse d c = Some (Inr ([], after_parse (hp_state p') (c\<lparr>hc_parser := p'\<rparr>)))" by simp
  show ?thesis unfolding run using k assms(3,4) w(3)
    by (intro exI [of _ "after_parse (hp_state p') (c\<lparr>hc_parser := p'\<rparr>)"] exI [of _ k])
      (auto simp: p'_def after_parse_def record_event_def awaits_body_def)
qed

lemma receive_pieces:
  assumes "awaits_body m got (hc_parser c)" "\<forall>d \<in> set ds. 2 \<le> length d" "length (concat ds) = m" "hc_has_handler c"
  shows "\<exists>c' k. feed ds [] c = Some (Inr ([], c')) \<and>
    hc_events c' = hc_events c @ [OnRequest (hp_req (hc_parser c)) (Some k)] \<and> body k = got @ concat ds"
  using assms
proof (induction ds arbitrary: m got c)
  case Nil
  then show ?case by (simp add: awaits_body_def)
next
  case (Cons d ds)
  have le: "length d \<le> m" "2 \<le> length d" using Cons.prems(2,3) by auto
  obtain c' k where c': "HttpContext_Parse d c = Some (Inr ([], c'))" "hc_has_handler c'"
      "hp_req (hc_parser c') = hp_req (hc_parser c)"
      "if length d = m then hc_events c' = hc_events c @ [OnRequest (hp_req (hc_parser c)) (Some k)] \<and> body k = got @ d
     else hc_events c' = hc_events c \<and> awaits_body (m - length d) (got @ d) (hc_parser c')"
    using receive_piece [OF Cons.prems(1) le(2,1) Cons.prems(4)] by blast
  show ?case
  proof (cases "length d = m")
    case True
    have "ds = []"
    proof (cases ds)
      case more: (Cons x xs)
      have "2 \<le> length x" "length (concat ds) = 0" using Cons.prems(2,3) True more by simp_all
      with more show ?thesis by simp
    qed
    with True c' show ?thesis by auto
  next
    case False
    have "length (concat ds) = m - length d" using Cons.prems(3) by simp
    moreover have "awaits_body (m - length d) (got @ d) (hc_parser c')" using c'(4) False by simp
    ultimately
    obtain c'' k' where "feed ds [] c' = Some (Inr ([], c''))" "hc_events c'' = hc_events c' @ [OnRequest (hp_req (hc_parser c')) (Some k')]"
      "body k' = (got @ d) @ concat ds" using Cons.IH [of "m - length d" "got @ d" c'] c'(2) Cons.prems(2) by auto
    with c' False show ?thesis by auto
  qed
qed

section \<open>Chunked bodies\<close>

text \<open>One chunk as the protocol writes it, and the end of the body.\<close>

definition chunk_text :: "str \<Rightarrow> str" where
  "chunk_text d = digits 16 (length d) @ CRLF @ d @ CRLF"

definition last_chunk_text :: str where
  "last_chunk_text = lit ''0'' @ CRLF @ CRLF"

definition expects_chunk :: "http_parser \<Rightarrow> bool" where
  "expects_chunk p \<longleftrightarrow> hp_is_chunked p \<and>
     (hp_state p = kExpectChunkLen \<and> hp_chunk p = None \<or> hp_state p = kExpectChunkComplete)"

lemma expects_chunk_clear:
  "expects_chunk p \<Longrightarrow> hp_state (clear_done p) = kExpectChunkLen \<and> hp_chunk (clear_done p) = None \<and>
     hp_is_chunked (clear_done p) \<and> hp_req (clear_done p) = hp_req p"
  by (auto simp: expects_chunk_def clear_done_def ClearForNextChunk_def)

lemma crlf_at_line: "one_line l \<Longrightarrow> crlf_at (l @ CRLF @ s) = Some (length l)"
proof (induction l)
  case (Cons a l)
  obtain b r where "l @ CRLF @ s = b # r" by (cases l) auto
  with Cons show ?case by simp
qed simp

text \<open>The line with the length.\<close>

lemma receive_chunk_len:
  assumes "expects_chunk (hc_parser c)" "one_line l" "word_of_int (strtol 16 l) = len"
  shows "\<exists>c'. HttpContext_Parse (l @ CRLF @ rest) c = HttpContext_Parse rest c' \<and> hc_events c' = hc_events c \<and>
    hc_has_handler c' = hc_has_handler c \<and> hp_is_chunked (hc_parser c') \<and> hp_req (hc_parser c') = hp_req (hc_parser c) \<and>
    hp_chunk (hc_parser c') = None \<and>
    (if len = 0 then hp_state (hc_parser c') = kExpectLastEmptyChunk
     else hp_state (hc_parser c') = kExpectChunkBody \<and> hp_chunk_length (hc_parser c') = len + 2)"
proof -
  note p = expects_chunk_clear [OF assms(1)]
  obtain p' where p': "parse_chunk_len (l @ CRLF @ rest) (clear_done (hc_parser c)) = (rest, p')" "hp_is_chunked p'"
    "hp_req p' = hp_req (hc_parser c)" "hp_chunk p' = None"
    "if len = 0 then hp_state p' = kExpectLastEmptyChunk else hp_state p' = kExpectChunkBody \<and> hp_chunk_length p' = len + 2"
    using p assms(3) crlf_at_line [OF assms(2), of rest]
    by (simp add: parse_chunk_len_def Let_def bad_request_def)
  have "HttpParser_Parse (l @ CRLF @ rest) (hc_parser c) = Inr (hp_state p', rest, p')"
    using p p'(1) by (simp add: HttpParser_Parse_def with_state_def)
  from loop_step [OF this] have "HttpContext_Parse (l @ CRLF @ rest) c =
      HttpContext_Parse rest (after_parse (hp_state p') (c\<lparr>hc_parser := p'\<rparr>))" by simp
  with p' show ?thesis
    by (intro exI [of _ "after_parse (hp_state p') (c\<lparr>hc_parser := p'\<rparr>)"]) (auto simp: after_parse_def split: if_splits)
qed

text \<open>The line behind the last chunk.\<close>

lemma receive_last_line:
  assumes "hp_state (hc_parser c) = kExpectLastEmptyChunk" "hp_is_chunked (hc_parser c)" "hc_has_handler c" "one_line l"
  shows "\<exists>c'. HttpContext_Parse (l @ CRLF @ rest) c = HttpContext_Parse rest c' \<and>
    hc_events c' = hc_events c @ [OnRequest (hp_req (hc_parser c)) None] \<and> hc_has_handler c' \<and>
    expects_chunk (hc_parser c') \<and> hp_req (hc_parser c') = hp_req (hc_parser c)"
proof -
  have "HttpParser_Parse (l @ CRLF @ rest) (hc_parser c) =
      Inr (kExpectChunkComplete, rest, (hc_parser c)\<lparr>hp_chunk := None, hp_state := kExpectChunkComplete\<rparr>)"
    using assms(1) crlf_at_line [OF assms(4), of rest]
    by (simp add: HttpParser_Parse_def with_state_def clear_done_def parse_last_chunk_def)
  from loop_step [OF this] assms(2,3) show ?thesis
    by (intro exI [of _ "after_parse kExpectChunkComplete
          (c\<lparr>hc_parser := (hc_parser c)\<lparr>hp_chunk := None, hp_state := kExpectChunkComplete\<rparr>\<rparr>)"])
      (simp add: after_parse_def record_event_def expects_chunk_def)
qed

lemma shorten_body:
  assumes "packet_ok k" "body k = d @ [a, b]"
  shows "body (k\<lparr>pk_size := pk_size k - 2\<rparr>) = d"
proof -
  have "unat (pk_size k) \<le> length (pk_data k)" using assms(1) by (simp add: packet_ok_def word_le_nat_alt)
  then have len: "unat (pk_size k) = length d + 2" using arg_cong [OF assms(2), of length] by (simp add: body_def)
  then have "unat (pk_size k - 2) = length d" by (subst unat_sub) (simp_all add: word_le_nat_alt)
  then have "body (k\<lparr>pk_size := pk_size k - 2\<rparr>) = take (length d) (pk_data k)" by (simp add: body_def)
  also have "\<dots> = take (length d) (body k)" using len by (simp add: body_def min_def)
  also have "\<dots> = d" by (simp add: assms(2))
  finally show ?thesis .
qed

lemma receive_chunk_body:
  assumes "hp_state (hc_parser c) = kExpectChunkBody" "hp_chunk_length (hc_parser c) = of_nat (length d) + 2"
    and "hp_chunk (hc_parser c) = None" "hp_is_chunked (hc_parser c)" "hc_has_handler c" "length (d @ CRLF @ rest) < 2 ^ 31"
  shows "\<exists>c' k. HttpContext_Parse (d @ CRLF @ rest) c = HttpContext_Parse rest c' \<and>
    hc_events c' = hc_events c @ [OnRequest (hp_req (hc_parser c)) (Some k)] \<and> body k = d \<and> hc_has_handler c' \<and>
    expects_chunk (hc_parser c') \<and> hp_req (hc_parser c') = hp_req (hc_parser c)"
proof -
  let ?p = "hc_parser c"
  have n: "hp_chunk_length ?p = of_nat (length d + 2)" using assms(2) by simp
  have l: "length d + 2 < 2 ^ 31" using assms(6) by simp
  obtain k where k: "fill (sint (hp_chunk_length ?p)) (d @ CRLF @ rest) (hp_chunk ?p) = Inr (length d + 2, rest, k)"
      "packet_ok k" "body k = d @ CRLF"
    using fill_ok [where chunk = "hp_chunk ?p" and m = "length d + 2" and sofar = "[]" and cap = "int (length d + 2)"
        and buf = "d @ CRLF @ rest"] assms(3,6) l unfolding n sint_of_nat_u32 [OF l] by (auto simp: min_def)
  define p' where "p' = ?p\<lparr>hp_chunk := Some (k\<lparr>pk_size := pk_size k - 2\<rparr>), hp_chunk_length := 0, hp_state := kExpectChunkComplete\<rparr>"
  have "ParseChunk (d @ CRLF @ rest) ?p = Inr (rest, p')"
    unfolding ParseChunk_def k(1) bindE.simps prod.case Let_def unfolding n p'_def by simp
  then have "HttpParser_Parse (d @ CRLF @ rest) ?p = Inr (kExpectChunkComplete, rest, p')"
    using assms(1) by (simp add: HttpParser_Parse_def clear_done_def with_state_def p'_def del: bindE_eq_Inr)
  from loop_step [OF this] assms(4,5) shorten_body [OF k(2,3)] show ?thesis
    by (intro exI [of _ "after_parse kExpectChunkComplete (c\<lparr>hc_parser := p'\<rparr>)"] exI [of _ "k\<lparr>pk_size := pk_size k - 2\<rparr>"])
      (simp add: after_parse_def record_event_def expects_chunk_def p'_def)
qed

definition chunk_event :: "http_request option \<Rightarrow> str \<Rightarrow> http_event \<Rightarrow> bool" where
  "chunk_event r d e \<longleftrightarrow> (\<exists>k. e = OnRequest r (Some k) \<and> body k = d)"

lemma receive_chunk:
  assumes "expects_chunk (hc_parser c)" "hc_has_handler c" "d \<noteq> []" "length (chunk_text d @ rest) < 2 ^ 31"
  shows "\<exists>c' e. HttpContext_Parse (chunk_text d @ rest) c = HttpContext_Parse rest c' \<and> hc_events c' = hc_events c @ [e] \<and>
    chunk_event (hp_req (hc_parser c)) d e \<and> hc_has_handler c' \<and> expects_chunk (hc_parser c') \<and>
    hp_req (hc_parser c') = hp_req (hc_parser c)"
proof -
  have len: "length d < 2 ^ 31" "length (d @ CRLF @ rest) < 2 ^ 31" using assms(4) by (auto simp: chunk_text_def)
  have "one_line (digits 16 (length d))"
    using digits_set [of 16 _ "length d"] digit_char_plain by (fastforce simp: one_line_def)
  moreover have "word_of_int (strtol 16 (digits 16 (length d))) = (of_nat (length d) :: u32)"
    using len(1) by (simp add: strtol_digits)
  moreover have "(of_nat (length d) :: u32) \<noteq> 0" using of_nat_u32_eq_0 [OF len(1)] assms(3) by simp
  ultimately obtain c1 where c1: "HttpContext_Parse (chunk_text d @ rest) c = HttpContext_Parse (d @ CRLF @ rest) c1"
    "hc_events c1 = hc_events c" "hc_has_handler c1" "hp_is_chunked (hc_parser c1)" "hp_req (hc_parser c1) = hp_req (hc_parser c)"
    "hp_chunk (hc_parser c1) = None" "hp_state (hc_parser c1) = kExpectChunkBody"
    "hp_chunk_length (hc_parser c1) = of_nat (length d) + 2"
    using receive_chunk_len [OF assms(1), of "digits 16 (length d)" _ "d @ CRLF @ rest"] assms(2)
    by (auto simp: chunk_text_def)
  from receive_chunk_body [OF c1(7,8,6,4,3) len(2)] c1 show ?thesis unfolding chunk_event_def by auto
qed

lemma receive_chunks:
  assumes "expects_chunk (hc_parser c)" "hc_has_handler c" "[] \<notin> set ds"
    and "length (concat (map chunk_text ds) @ rest) < 2 ^ 31"
  shows "\<exists>c' evs. HttpContext_Parse (concat (map chunk_text ds) @ rest) c = HttpContext_Parse rest c' \<and>
      hc_events c' = hc_events c @ evs \<and> list_all2 (chunk_event (hp_req (hc_parser c))) ds evs \<and> hc_has_handler c' \<and>
      expects_chunk (hc_parser c') \<and> hp_req (hc_parser c') = hp_req (hc_parser c)"
  using assms
proof (induction ds arbitrary: c)
  case (Cons d ds)
  let ?rest = "concat (map chunk_text ds) @ rest"
  obtain c2 e where c2: "HttpContext_Parse (chunk_text d @ ?rest) c = HttpContext_Parse ?rest c2"
    "hc_events c2 = hc_events c @ [e]" "chunk_event (hp_req (hc_parser c)) d e" "hc_has_handler c2" "expects_chunk (hc_parser c2)"
    "hp_req (hc_parser c2) = hp_req (hc_parser c)"
    using receive_chunk [OF Cons.prems(1,2), of d ?rest] Cons.prems(3,4) by auto
  obtain c' evs where "HttpContext_Parse ?rest c2 = HttpContext_Parse rest c'" "hc_events c' = hc_events c2 @ evs"
    "list_all2 (chunk_event (hp_req (hc_parser c))) ds evs" "hc_has_handler c'" "expects_chunk (hc_parser c')"
    "hp_req (hc_parser c') = hp_req (hc_parser c)"
    using Cons.IH [OF c2(5,4)] Cons.prems(3,4) c2(6) by auto
  with c2 show ?case by (intro exI [of _ c'] exI [of _ "e # evs"]) simp
qed auto

lemma receive_last_chunk:
  assumes "expects_chunk (hc_parser c)" "hc_has_handler c"
  shows "\<exists>c'. HttpContext_Parse last_chunk_text c = Some (Inr ([], c')) \<and>
    hc_events c' = hc_events c @ [OnRequest (hp_req (hc_parser c)) None]"
proof -
  have zero: "word_of_int (strtol 16 (lit ''0'')) = (0 :: u32)"
    by (simp add: strtol_def scan_number_def lit_def isspace_def digits_value_def is_digit_def digit_val_def isdigit_def)
  have line: "one_line (lit ''0'')" "one_line []" by (simp_all add: lit_def)
  obtain d where d: "HttpContext_Parse last_chunk_text c = HttpContext_Parse ([] @ CRLF @ []) d" "hc_events d = hc_events c"
    "hc_has_handler d" "hp_is_chunked (hc_parser d)" "hp_req (hc_parser d) = hp_req (hc_parser c)"
    "hp_state (hc_parser d) = kExpectLastEmptyChunk"
    using receive_chunk_len [OF assms(1) line(1) zero, of CRLF] assms(2) by (auto simp: last_chunk_text_def)
  then show ?thesis using receive_last_line [OF d(6,4,3) line(2), of "[]"] by auto
qed

text \<open>Headers that are not all there, and a length that is negative once it is narrowed.\<close>

lemma headers_cut:
  assumes "message_ok hs ps r" "n < length (MakeHeaders hs ps r)"
  shows "find_sub CRLFCRLF (take n (MakeHeaders hs ps r)) = None"
proof (rule ccontr)
  let ?ls = "first_line ps r # map header_line hs"
  assume "find_sub CRLFCRLF (take n (MakeHeaders hs ps r)) \<noteq> None"
  then obtain i where i: "find_sub CRLFCRLF (take n (MakeHeaders hs ps r)) = Some i" by blast
  have ls: "list_all (\<lambda>l. one_line l \<and> l \<noteq> []) ?ls"
    using first_line_ok [OF assms(1)] header_line_ok assms(1) by (auto simp: list_all_iff message_ok_def)
  have "find_sub CRLFCRLF (MakeHeaders hs ps r) = Some i"
    using find_sub_extend [OF i, of "drop n (MakeHeaders hs ps r)"] by simp
  moreover have "find_sub CRLFCRLF (MakeHeaders hs ps r) = Some (length (lines_text ?ls))"
    using find_headers_end [OF ls, of "[]"] by (simp add: MakeHeaders_lines)
  moreover have "i + 4 \<le> n" using find_sub_less [OF i] assms(2) by simp
  ultimately show False using assms(2) by (simp add: MakeHeaders_lines)
qed

lemma narrowed_negative:
  assumes "n < 2 ^ 64" "2 ^ 31 \<le> n mod 2 ^ 32"
  shows "sint (ucast (of_nat n :: u64) :: u32) < 0"
proof -
  have "unat (ucast (of_nat n :: u64) :: u32) = n mod 2 ^ 32"
    using assms(1) by (simp add: unsigned_ucast_eq unat_of_nat take_bit_eq_mod)
  then show ?thesis using assms(2) sint_neg_u32 [of "ucast (of_nat n :: u64)"] by simp
qed

section \<open>Properties\<close>

text \<open>A sender posts its messages one after the other, each once the one before has been written.\<close>

fun post_all :: "((str \<times> str) list \<times> (str \<times> str) list \<times> http_request) list \<Rightarrow> http_ctx \<Rightarrow> http_ctx res" where
  "post_all [] c = Inr c"
| "post_all ((hs, ps, r) # ms) c = bindE (WriteComplete (snd (PostRequest hs ps r c))) (post_all ms)"

definition sent_text :: "http_event list \<Rightarrow> str" where
  "sent_text evs = concat (map (\<lambda>e. case e of HttpSend s \<Rightarrow> s | _ \<Rightarrow> []) evs)"

definition messages_text :: "((str \<times> str) list \<times> (str \<times> str) list \<times> http_request) list \<Rightarrow> str" where
  "messages_text ms = concat (map (\<lambda>(hs, ps, r). AppendToBuffer hs ps r) ms)"

definition plain_message :: "(str \<times> str) list \<times> (str \<times> str) list \<times> http_request \<Rightarrow> bool" where
  "plain_message m = (case m of (hs, ps, r) \<Rightarrow> message_ok hs ps r \<and> delimited r \<and> length (rq_body r) \<noteq> 1 \<and>
     \<not> rq_is_chunked r \<and> \<not> rq_is_stream r)"

lemma post_all_sends:
  assumes "list_all plain_message ms" "hc_post_state s = kHttpContextPostInit" "hc_has_handler s"
  shows "\<exists>s'. post_all ms s = Inr s' \<and> sent_text (hc_events s') = sent_text (hc_events s) @ messages_text ms"
  using assms
proof (induction ms arbitrary: s)
  case (Cons m ms)
  obtain hs ps r where m: "m = (hs, ps, r)" by (cases m)
  let ?s = "record_event OnSent (record_event (HttpSend (AppendToBuffer hs ps r)) (s\<lparr>hc_header := AppendToBuffer hs ps r\<rparr>))"
  have "WriteComplete (snd (PostRequest hs ps r s)) = Inr ?s"
    using Cons.prems by (simp add: m plain_message_def PostRequest_def PostText_def WriteComplete_def handler_call_def record_event_def)
  moreover have "\<exists>s'. post_all ms ?s = Inr s' \<and> sent_text (hc_events s') = sent_text (hc_events ?s) @ messages_text ms"
    using Cons.prems by (intro Cons.IH) (simp_all add: record_event_def)
  ultimately show ?case by (auto simp: m record_event_def sent_text_def messages_text_def simp del: bindE_eq_Inr)
qed (simp add: messages_text_def)

lemma receive_messages:
  assumes "list_all plain_message ms" "fresh (hc_parser c)" "hc_has_handler c" "length (messages_text ms) < 2 ^ 31"
  shows "\<exists>c' evs. HttpContext_Parse (messages_text ms) c = Some (Inr ([], c')) \<and> hc_events c' = hc_events c @ evs \<and>
    list_all2 (\<lambda>(hs, ps, r) e. delivered r e) ms evs"
  using assms
proof (induction ms arbitrary: c)
  case Nil
  then show ?case by (simp add: messages_text_def)
next
  case (Cons m ms)
  obtain hs ps r where m: "m = (hs, ps, r)" by (cases m)
  have whole: "messages_text (m # ms) = AppendToBuffer hs ps r @ messages_text ms" by (simp add: messages_text_def m)
  obtain c' e where c': "HttpContext_Parse (messages_text (m # ms)) c = HttpContext_Parse (messages_text ms) c'"
    "hc_events c' = hc_events c @ [e]" "delivered r e" "fresh (hc_parser c')" "hc_has_handler c'"
    using receive_message [of hs ps r c "messages_text ms"] Cons.prems unfolding whole by (auto simp: m plain_message_def)
  obtain c'' evs where "HttpContext_Parse (messages_text ms) c' = Some (Inr ([], c''))" "hc_events c'' = hc_events c' @ evs"
    "list_all2 (\<lambda>(hs, ps, r) e. delivered r e) ms evs"
    using Cons.IH [OF _ c'(4,5)] Cons.prems(1,4) by (auto simp: whole)
  with c' show ?case by (intro exI [of _ c''] exI [of _ "e # evs"]) (simp add: m)
qed

text \<open>C20: what one side posts is what the other side's handler gets: requests and responses, sent one after the
  other and arriving together, are delivered each once, in order, with the same method or status code, path,
  parameters, headers and body, in whatever order the library runs through the header tables. The
  messages are those a reader can take apart: any method but PATCH, a path without a question mark, header lines
  of one line with lower-case names, parameters that need no escaping, a right content-length (or no body where the reader expects
  none), no body of a single byte, nothing chunked or streamed; and both sides stand between messages.\<close>

theorem http_session:
  assumes "list_all plain_message ms" "hc_post_state s = kHttpContextPostInit" "hc_has_handler s"
    and "fresh (hc_parser c)" "hc_has_handler c" "length (messages_text ms) < 2 ^ 31"
  shows "\<exists>s' W c' evs. post_all ms s = Inr s' \<and> sent_text (hc_events s') = sent_text (hc_events s) @ W \<and>
    HttpContext_Parse W c = Some (Inr ([], c')) \<and> hc_events c' = hc_events c @ evs \<and>
    list_all2 (\<lambda>(hs, ps, r) e. delivered r e) ms evs"
  using post_all_sends [OF assms(1-3)] receive_messages [OF assms(1,4-6)] by blast

definition demo_get :: http_request where
  "demo_get = (HttpRequest_new True)\<lparr>rq_method := kGet, rq_path := lit ''/a b'', rq_parameters := [lit ''k'' \<mapsto> lit ''v''],
     rq_headers := [lit ''host'' \<mapsto> lit ''h'']\<rparr>"

definition demo_post :: http_request where
  "demo_post = (HttpRequest_new True)\<lparr>rq_method := kPost, rq_path := lit ''/live'',
     rq_headers := [lit ''content-length'' \<mapsto> lit ''3''], rq_body := [1, 2, 3]\<rparr>"

lemma demo_ok:
  "message_ok [(lit ''host'', lit ''h'')] [(lit ''k'', lit ''v'')] demo_get" "delimited demo_get"
  "message_ok [(lit ''content-length'', lit ''3'')] [] demo_post" "delimited demo_post"
proof -
  show "message_ok [(lit ''host'', lit ''h'')] [(lit ''k'', lit ''v'')] demo_get"
    by (simp add: message_ok_def demo_get_def HttpRequest_new_def enumerates_def header_ok_def lit_def tolower_def
        Trim_def ltrim_def rtrim_def isspace_def plain_parameter_def url_plain_def)
  show "delimited demo_get" by (simp add: delimited_def demo_get_def HttpRequest_new_def lit_def)
  show "message_ok [(lit ''content-length'', lit ''3'')] [] demo_post"
    by (simp add: message_ok_def demo_post_def HttpRequest_new_def enumerates_def header_ok_def lit_def tolower_def
        Trim_def ltrim_def rtrim_def isspace_def)
  show "delimited demo_post"
    by (simp add: delimited_def demo_post_def HttpRequest_new_def lit_def digits.simps digit_char_def)
qed

lemma http_session_witness:
  "\<exists>s' W c' evs. post_all [([(lit ''host'', lit ''h'')], [(lit ''k'', lit ''v'')], demo_get),
       ([(lit ''content-length'', lit ''3'')], [], demo_post)] (HttpContext_new False True) = Inr s' \<and>
    sent_text (hc_events s') = sent_text (hc_events (HttpContext_new False True)) @ W \<and>
    HttpContext_Parse W (HttpContext_new True True) = Some (Inr ([], c')) \<and>
    hc_events c' = hc_events (HttpContext_new True True) @ evs \<and>
    list_all2 (\<lambda>(hs, ps, r) e. delivered r e) [([(lit ''host'', lit ''h'')], [(lit ''k'', lit ''v'')], demo_get),
       ([(lit ''content-length'', lit ''3'')], [], demo_post)] evs"
proof (rule http_session)
  show "list_all plain_message [([(lit ''host'', lit ''h'')], [(lit ''k'', lit ''v'')], demo_get),
      ([(lit ''content-length'', lit ''3'')], [], demo_post)]"
    using demo_ok by (simp add: plain_message_def) (simp add: demo_get_def demo_post_def HttpRequest_new_def)
  have "length (AppendToBuffer [(lit ''host'', lit ''h'')] [(lit ''k'', lit ''v'')] demo_get) < 2 ^ 30"
    by (simp add: AppendToBuffer_def MakeHeaders_def demo_get_def HttpRequest_new_def AppendRequestFirstLine_def
        request_url_def version_name_def header_line_def lit_def url_plain_def is_mark_def isdigit_def CharToHex_def)
  moreover have "length (AppendToBuffer [(lit ''content-length'', lit ''3'')] [] demo_post) < 2 ^ 30"
    by (simp add: AppendToBuffer_def MakeHeaders_def demo_post_def HttpRequest_new_def AppendRequestFirstLine_def
        request_url_def version_name_def header_line_def lit_def url_plain_def is_mark_def isdigit_def CharToHex_def)
  ultimately show "length (messages_text [([(lit ''host'', lit ''h'')], [(lit ''k'', lit ''v'')], demo_get),
      ([(lit ''content-length'', lit ''3'')], [], demo_post)]) < 2 ^ 31" by (simp add: messages_text_def)
qed (simp_all add: HttpContext_new_def fresh_def HttpParser_new_def)

text \<open>a body may arrive in any pieces of at least two bytes, the first of them together with the
  headers: the pieces are put together and the request is delivered once, with the whole body, when
  the last of them is there.\<close>

theorem body_in_pieces:
  assumes "message_ok hs ps r" "delimited r" "fresh (hc_parser c)" "hc_has_handler c"
    and "rq_body r = d @ concat ds" "length d \<noteq> 1" "\<forall>x \<in> set ds. 2 \<le> length x" "0 < length (rq_body r)"
    and "length (rq_body r) < 2 ^ 31"
  shows "\<exists>c' e. feed ((MakeHeaders hs ps r @ d) # ds) [] c = Some (Inr ([], c')) \<and> hc_events c' = hc_events c @ [e] \<and>
    delivered r e"
proof -
  let ?m = "length (rq_body r)"
  obtain r' c1 where c1: "same_http r r'" "hp_req (hc_parser c1) = Some r'" "hp_chunk (hc_parser c1) = None" "hc_has_handler c1"
    "HttpContext_Parse (MakeHeaders hs ps r @ d) c = HttpContext_Parse d c1" "hc_events c1 = hc_events c"
    "hp_state (hc_parser c1) = kExpectNormalBody" "hp_content_length (hc_parser c1) = of_nat ?m"
    using receive_delimited [OF assms(1-4,9)] assms(8) by fastforce
  have w: "awaits_body ?m [] (hc_parser c1)" using c1 assms(8,9) by (simp add: awaits_body_def)
  define xs where "xs = (if d = [] then ds else d # ds)"
  have "feed ((MakeHeaders hs ps r @ d) # ds) [] c = feed xs [] c1" using c1(5) by (simp add: xs_def)
  moreover have "\<forall>x \<in> set xs. 2 \<le> length x" using assms(6,7) by (cases d) (auto simp: xs_def Suc_le_eq)
  moreover have "concat xs = rq_body r" by (simp add: xs_def assms(5))
  ultimately show ?thesis using receive_pieces [OF w, of xs] c1
    by (fastforce simp: delivered_def chunk_data_def)
qed

lemma body_in_pieces_witness:
  "\<exists>c' e. feed ((MakeHeaders [(lit ''content-length'', lit ''5'')] []
       (demo_post\<lparr>rq_headers := [lit ''content-length'' \<mapsto> lit ''5''], rq_body := [1, 2, 3, 4, 5]\<rparr>) @ []) # [[1, 2], [3, 4, 5]])
     [] (HttpContext_new False True) = Some (Inr ([], c')) \<and>
     hc_events c' = hc_events (HttpContext_new False True) @ [e] \<and>
     delivered (demo_post\<lparr>rq_headers := [lit ''content-length'' \<mapsto> lit ''5''], rq_body := [1, 2, 3, 4, 5]\<rparr>) e"
  by (rule body_in_pieces)
    (simp_all add: message_ok_def demo_post_def HttpRequest_new_def enumerates_def header_ok_def lit_def tolower_def
      Trim_def ltrim_def rtrim_def isspace_def delimited_def digits.simps digit_char_def HttpContext_new_def fresh_def
      HttpParser_new_def)

text \<open>A body of one byte stays in the buffer, and its request is not delivered.\<close>

lemma one_byte_body_waits:
  assumes "message_ok hs ps r" "delimited r" "fresh (hc_parser c)" "hc_has_handler c" "rq_body r = [b]"
  shows "\<exists>c'. HttpContext_Parse (AppendToBuffer hs ps r) c = Some (Inr ([b], c')) \<and> hc_events c' = hc_events c"
  using receive_delimited [OF assms(1-4)] assms(5) by (fastforce simp: AppendToBuffer_def)

text \<open>C29: a message in chunks is delivered chunk by chunk, in order, each with its data and the request,
  and at the end once more without data.\<close>

theorem chunked_message_received:
  assumes "message_ok hs ps r" "fresh (hc_parser c)" "hc_has_handler c"
    and "rq_headers r (lit ''content-length'') = None" "rq_headers r (lit ''transfer-encoding'') = Some (lit ''chunked'')"
    and "[] \<notin> set ds" "length (concat (map chunk_text ds)) < 2 ^ 30"
  shows "\<exists>c' r' evs. HttpContext_Parse (MakeHeaders hs ps r @ concat (map chunk_text ds) @ last_chunk_text) c =
      Some (Inr ([], c')) \<and> hc_events c' = hc_events c @ evs @ [OnRequest (Some r') None] \<and> same_http r r' \<and>
    list_all2 (chunk_event (Some r')) ds evs"
proof -
  have names: "map tolower (lit ''content-length'') = lit ''content-length''"
    "map tolower (lit ''transfer-encoding'') = lit ''transfer-encoding''" by (simp_all add: lit_def tolower_def)
  obtain r' h where r': "same_http r r'" "\<And>rest. HttpContext_Parse (MakeHeaders hs ps r @ rest) c =
      (let p = body_kind r' ((clear_done (hc_parser c))\<lparr>hp_header := h, hp_is_request := rq_is_request r\<rparr>)
       in HttpContext_Parse rest (after_parse (hp_state p) (c\<lparr>hc_parser := p\<rparr>)))"
    using receive_headers [OF assms(1,2)] by blast
  define q where "q = r'\<lparr>rq_is_chunked := True\<rparr>"
  have q: "same_http r q" using r'(1) by (simp add: q_def same_http_def)
  define p where "p = body_kind r' ((clear_done (hc_parser c))\<lparr>hp_header := h, hp_is_request := rq_is_request r\<rparr>)"
  have "GetHeader (lit ''content-length'') r' = []" "GetHeader (lit ''transfer-encoding'') r' = lit ''chunked''"
    using r'(1) assms(4,5) by (simp_all add: same_http_def GetHeader_def names)
  then have p: "expects_chunk p" "hp_req p = Some q" "hp_state p = kExpectChunkLen"
    using fresh_chunk [OF assms(2)] by (simp_all add: p_def body_kind_def expects_chunk_def q_def)
  let ?c1 = "c\<lparr>hc_parser := p\<rparr>"
  from receive_chunks [of ?c1 ds last_chunk_text] p assms(3,6,7) obtain c2 evs where c2:
    "HttpContext_Parse (concat (map chunk_text ds) @ last_chunk_text) ?c1 = HttpContext_Parse last_chunk_text c2"
    "hc_events c2 = hc_events c @ evs" "list_all2 (chunk_event (Some q)) ds evs" "hc_has_handler c2"
    "expects_chunk (hc_parser c2)" "hp_req (hc_parser c2) = Some q" by (auto simp: last_chunk_text_def lit_def)
  obtain c4 where c4: "HttpContext_Parse last_chunk_text c2 = Some (Inr ([], c4))"
    "hc_events c4 = hc_events c2 @ [OnRequest (Some q) None]"
    using receive_last_chunk [OF c2(5,4)] c2(6) by auto
  have "HttpContext_Parse (MakeHeaders hs ps r @ concat (map chunk_text ds) @ last_chunk_text) c = Some (Inr ([], c4))"
    using r'(2) p(3) c2(1) c4(1) by (simp add: p_def [symmetric] after_parse_def)
  with c2 c4 q show ?thesis by auto
qed

lemma chunked_message_received_witness:
  "\<exists>c' r' evs. HttpContext_Parse (MakeHeaders [(lit ''transfer-encoding'', lit ''chunked'')] []
      ((HttpRequest_new False)\<lparr>rq_code := 200, rq_headers := [lit ''transfer-encoding'' \<mapsto> lit ''chunked'']\<rparr>) @
      concat (map chunk_text [[1, 2, 3], [4]]) @ last_chunk_text) (HttpContext_new False True) = Some (Inr ([], c')) \<and>
    hc_events c' = hc_events (HttpContext_new False True) @ evs @ [OnRequest (Some r') None] \<and>
    same_http ((HttpRequest_new False)\<lparr>rq_code := 200, rq_headers := [lit ''transfer-encoding'' \<mapsto> lit ''chunked'']\<rparr>) r' \<and>
    list_all2 (chunk_event (Some r')) [[1, 2, 3], [4]] evs"
  by (rule chunked_message_received)
    (simp_all add: message_ok_def HttpRequest_new_def enumerates_def header_ok_def lit_def tolower_def
      Trim_def ltrim_def rtrim_def isspace_def HttpContext_new_def fresh_def HttpParser_new_def chunk_text_def digits.simps)

text \<open>nothing takes the parser out of its chunked mode. When a chunked message has ended and the next
  request follows on the connection, its first line is read as the length of a chunk; for a line
  that does not begin with a hexadecimal digit that is zero, the next line counts as the end of the
  body, and the handler gets the finished request again instead of the new one.\<close>

theorem request_after_chunked_lost:
  assumes "expects_chunk (hc_parser c)" "hc_has_handler c" "one_line l" "strtol 16 l = 0" "one_line header"
  shows "\<exists>c'. HttpContext_Parse (l @ CRLF @ header @ CRLF @ CRLF) c = Some (Inr ([], c')) \<and>
    hc_events c' = hc_events c @ [OnRequest (hp_req (hc_parser c)) None]"
proof -
  have zero: "word_of_int (strtol 16 l) = (0 :: u32)" "word_of_int (strtol 16 []) = (0 :: u32)"
    using assms(4) by (simp_all add: strtol_def scan_number_def digits_value_def)
  have nil: "one_line []" by simp
  obtain c1 where c1: "HttpContext_Parse (l @ CRLF @ header @ CRLF @ CRLF) c = HttpContext_Parse (header @ CRLF @ CRLF) c1"
    "hc_events c1 = hc_events c" "hc_has_handler c1" "hp_is_chunked (hc_parser c1)" "hp_req (hc_parser c1) = hp_req (hc_parser c)"
    "hp_state (hc_parser c1) = kExpectLastEmptyChunk"
    using receive_chunk_len [OF assms(1,3) zero(1), of "header @ CRLF @ CRLF"] assms(2) by auto
  obtain c2 where c2: "HttpContext_Parse (header @ CRLF @ CRLF) c1 = HttpContext_Parse ([] @ CRLF @ []) c2"
    "hc_events c2 = hc_events c1 @ [OnRequest (hp_req (hc_parser c)) None]" "hc_has_handler c2" "expects_chunk (hc_parser c2)"
    using receive_last_line [OF c1(6,4,3) assms(5), of CRLF] c1(5) by auto
  from receive_chunk_len [OF c2(4) nil zero(2), of "[]"] c1 c2 show ?thesis by auto
qed

lemma request_after_chunked_lost_witness:
  "\<exists>c'. HttpContext_Parse (lit ''GET /live HTTP/1.1'' @ CRLF @ lit ''host: a'' @ CRLF @ CRLF)
      (HttpContext_new False True\<lparr>hc_parser := HttpParser_new\<lparr>hp_state := kExpectChunkComplete, hp_is_chunked := True\<rparr>\<rparr>) =
      Some (Inr ([], c')) \<and>
    hc_events c' = hc_events (HttpContext_new False True\<lparr>hc_parser := HttpParser_new
        \<lparr>hp_state := kExpectChunkComplete, hp_is_chunked := True\<rparr>\<rparr>) @
      [OnRequest (hp_req (hc_parser (HttpContext_new False True\<lparr>hc_parser := HttpParser_new
        \<lparr>hp_state := kExpectChunkComplete, hp_is_chunked := True\<rparr>\<rparr>))) None]"
  by (rule request_after_chunked_lost)
    (simp_all add: expects_chunk_def HttpContext_new_def HttpParser_new_def lit_def strtol_def scan_number_def isspace_def
      digits_value_def is_digit_def digit_val_def isdigit_def)

text \<open>C30: a request that arrives cut anywhere inside its headers is never waited for: the loop repeats
  the same call of the parser for ever, and the thread of the connection is lost.\<close>

theorem cut_headers_hang:
  assumes "message_ok hs ps r" "fresh (hc_parser c)" "2 \<le> n" "n < length (MakeHeaders hs ps r)" "n \<le> 65536"
  shows "HttpContext_Parse (take n (MakeHeaders hs ps r)) c = None"
proof -
  let ?buf = "take n (MakeHeaders hs ps r)" and ?p = "clear_done (hc_parser c)"
  have len: "length ?buf = n" "1 < length ?buf" "?buf \<noteq> []" using assms(3,4) by auto
  have none: "find_sub CRLFCRLF ?buf = None" by (rule headers_cut [OF assms(1,4)])
  have p: "hp_state ?p = kExpectHeaders" using assms(2) by (auto simp: fresh_def clear_done_def ClearForNextHttp_def)
  then have clear: "clear_done ?p = ?p" by (simp add: clear_done_def)
  have stuck: "HttpParser_Parse ?buf ?p = Inr (kExpectContinue, ?buf, ?p)"
    using len none p assms(5) by (simp add: HttpParser_Parse_def clear parse_headers_state_def Let_def)
  have "HttpParser_Parse ?buf (hc_parser c) = Inr (kExpectContinue, ?buf, ?p)"
    using parse_clear [OF len(3)] stuck by (rule trans)
  from loop_step [OF this len(2)] loop_stuck [OF stuck len(2)] show ?thesis by (simp add: after_parse_def)
qed

lemma cut_headers_hang_witness:
  "HttpContext_Parse (take 9 (MakeHeaders [(lit ''host'', lit ''h'')] [(lit ''k'', lit ''v'')] demo_get)) (HttpContext_new False True) = None"
  by (rule cut_headers_hang [OF demo_ok(1)])
    (simp_all add: HttpContext_new_def fresh_def HttpParser_new_def MakeHeaders_def demo_get_def HttpRequest_new_def
      AppendRequestFirstLine_def request_url_def version_name_def header_line_def lit_def)

text \<open>a content length whose low 32 bits are negative as a signed number crashes the server as soon as
  a byte of the body is there: the packet for the body is allocated with that size. From -40 on \<open>new\<close> does not even
  throw, and the header of the packet is written past the block.\<close>

theorem huge_content_length_crashes:
  assumes "message_ok hs ps r" "fresh (hc_parser c)" "rq_headers r (lit ''content-length'') = Some (digits 10 n)"
    and "n < 2 ^ 64" "2 ^ 31 \<le> n mod 2 ^ 32" "2 \<le> length d"
  shows "HttpContext_Parse (MakeHeaders hs ps r @ d) c = Some (Inl (negative_alloc (sint (of_nat n :: u32))))"
proof -
  have name: "map tolower (lit ''content-length'') = lit ''content-length''" by (simp add: lit_def tolower_def)
  obtain r' h where r': "same_http r r'" "HttpContext_Parse (MakeHeaders hs ps r @ d) c =
      (let p = body_kind r' ((clear_done (hc_parser c))\<lparr>hp_header := h, hp_is_request := rq_is_request r\<rparr>)
       in HttpContext_Parse d (after_parse (hp_state p) (c\<lparr>hc_parser := p\<rparr>)))"
    using receive_headers [OF assms(1,2)] by blast
  define p where "p = body_kind r' ((clear_done (hc_parser c))\<lparr>hp_header := h, hp_is_request := rq_is_request r\<rparr>)"
  let ?n = "ucast (of_nat n :: u64) :: u32"
  have "GetHeader (lit ''content-length'') r' = digits 10 n" using r'(1) assms(3) by (simp add: same_http_def GetHeader_def name)
  moreover have neg: "sint ?n < 0" by (rule narrowed_negative [OF assms(4,5)])
  moreover have "?n \<noteq> 0" using neg by auto
  moreover have cut: "?n = of_nat n" by (rule bit_word_eqI) (simp add: bit_simps)
  ultimately have p: "hp_state p = kExpectNormalBody" "sint (hp_content_length p) < 0" "hp_chunk p = None" "hp_content_length p = of_nat n"
    using cut fresh_chunk [OF assms(2)] stoull_digits [OF assms(4)] by (simp_all add: p_def body_kind_def)
  have "HttpParser_Parse d p = Inl (negative_alloc (sint (of_nat n :: u32)))"
    using p assms(6) by (auto simp: HttpParser_Parse_def clear_done_def ParseNormalBody_def fill_def NewPacket_def)
  then show ?thesis unfolding r'(2) p_def [symmetric] Let_def using p(1) assms(6)
    by (subst HttpContext_Parse.simps) (simp add: after_parse_def)
qed

lemma huge_content_length_crashes_witness:
  "HttpContext_Parse (MakeHeaders [(lit ''content-length'', digits 10 4294967295)] []
     (demo_post\<lparr>rq_headers := [lit ''content-length'' \<mapsto> digits 10 4294967295]\<rparr>) @ [1, 2]) (HttpContext_new False True) =
     Some (Inl BufferOverflow)"
proof -
  have "negative_alloc (sint (of_nat 4294967295 :: u32)) = BufferOverflow" by (simp add: negative_alloc_def sizeof_Packet_def)
  then show ?thesis
    by (subst huge_content_length_crashes [where n = 4294967295])
    (simp_all add: message_ok_def demo_post_def HttpRequest_new_def enumerates_def header_ok_def lit_def tolower_def
      Trim_def ltrim_def rtrim_def isspace_def digits.simps digit_char_def HttpContext_new_def fresh_def HttpParser_new_def)
qed

end
