(* ===== verification/Spec2Isabelle.thy ===== *)
theory Spec2Isabelle
  imports Players WebrtcPlayer RtmpHandShake TcpConn TimingWheel HttpContext
begin

text \<open>
  \<^bold>\<open>A live streaming server: the library of its verification\<close>

  The program (\<open>src/src\<close>) is a live streaming server. A publisher sends audio and video over RTMP;
  the server corrects the timestamps, keeps the last groups of pictures and hands the packets to
  players over RTMP, HTTP-FLV, HLS or WebRTC. All input and output runs through one network library
  (\<open>network\<close>): event loops, sockets, a growing buffer and a wheel of timers. The media library
  (\<open>mmedia\<close>) holds the protocols, \<open>live\<close> the streams and sessions on top of both.

  \<^bold>\<open>Conventions.\<close> Machine integers are words of the code's width. A pointer into a buffer is the list of
  the bytes from there to the end of the object, so that reading on is \<open>drop\<close> and reading too far is
  a fault. What C++ leaves undefined (and a failing \<open>assert\<close>) is a value of type \<open>fault\<close> in the left
  part of a sum; so is the packet of a negative size, which \<open>NewPacket\<close> allocates too short (\<open>negative_alloc\<close>); an error the code reports itself is part of the result. A class is a record, an
  operation a function from the state to the new state; calls that leave the component (on the
  connection, on the handler) are recorded as events, in order. An \<open>unordered_map\<close> is a partial map,
  and where the code runs through one, the order is an argument.

  \<^bold>\<open>Theories, from the bottom.\<close>

  \<^item> \<open>Prelude\<close>: words, faults, sequencing (\<open>bindE\<close>), overwriting a part of a list.
  \<^item> \<open>Bytes\<close>: \<open>mmedia/base/BytesReader\<close> and \<open>BytesWriter\<close>, the big-endian fields. \<open>MsgBuffer\<close>:
    \<open>network/base/MsgBuffer\<close>, its invariant, and that it implements a plain list of bytes
    (\<open>MsgBuffer_refines_list\<close>); the protocol theories therefore take their input as a list. \<open>Packet\<close>:
    \<open>mmedia/base/Packet\<close>.
  \<^item> \<open>Amf\<close>: \<open>mmedia/rtmp/amf\<close>. The decoder is one mutual recursion over the bytes; it inverts the
    encoders, never takes more than there is, and the ways it can read too far are shown.
  \<^item> \<open>RtmpState\<close> (state and sending half), \<open>RtmpChunk\<close> (the receiving half for one chunk: safe, and
    blind to how the bytes arrive), \<open>RtmpWire\<close> (what one side sends the other side receives),
    \<open>RtmpContext\<close> (control messages, commands, the loop of \<open>ParseMessage\<close>, and the dialogues of two
    contexts): \<open>mmedia/rtmp/RtmpContext\<close>. The relation \<open>in_sync\<close> between a sender and a receiver is the
    invariant of the connection; \<open>delivers\<close> says that the receiver takes one message off the front.
    \<open>RtmpHandShake\<close>: \<open>mmedia/rtmp/RtmpHandShake\<close> and the states of \<open>RtmpContext\<close> around it, with HMAC-SHA256 and the
    undefined \<open>CheckC1S1\<close> as parameters: \<open>conn_run\<close> is every interleaving of arriving bytes and completed writes, and
    a server behind its handshake is a run of the context (\<open>ctx_run\<close>).
  \<^item> \<open>StrUtils\<close>: \<open>base/StringUtils\<close>. \<open>CStr\<close>: the character classes and number conversions of the C
    library. \<open>HttpUtils\<close>, \<open>HttpRequest\<close>, \<open>HttpParser\<close>, \<open>HttpContext\<close>: \<open>mmedia/http\<close>, from percent
    encoding to the loop that delivers requests and the state machine that posts them.
  \<^item> \<open>LiveBase\<close>: \<open>live/base\<close>: codec headers, the timestamp corrector, the index of groups of pictures.
  \<^item> \<open>Psi\<close>: the checksums of \<open>mmedia/mpegts/TsTool\<close> (equal to the bitwise reference) and the program
    tables \<open>PSIWriter\<close>, \<open>PatWriter\<close>, \<open>PmtWriter\<close>, read back by a receiver written from the standard.
  \<^item> \<open>NalBits\<close>: \<open>mmedia/base/NalBitStream\<close>, the bits of a slice header against the escaping and the
    Exp-Golomb codes of the standard. \<open>AvDemux\<close>: \<open>mmedia/demux\<close>, tags of FLV into access units. \<open>TsPes\<close>
    and \<open>TsEncoder\<close>: \<open>AudioEncoder\<close>, \<open>VideoEncoder\<close>, \<open>TsEncoder\<close> and \<open>StreamWriter\<close> of \<open>mmedia/mpegts\<close>; what
    is written is read back by a receiver of PES packets written from the standard (\<open>pes_received\<close>),
    and the locale \<open>ts_writer\<close> proves once, for any writer, that every call appends whole packets.
    \<open>Fragment\<close> (which interprets it, \<open>segment\<close>) and \<open>Hls\<close>: \<open>mmedia/hls\<close>, the segments, the window and the
    muxer as a transition system on a heap of segments, with its invariant \<open>hls_inv\<close>.
  \<^item> \<open>Stream\<close>: \<open>live/Stream\<close> and the fields of \<open>live/user/PlayerUser\<close>: the ring of packets, the index and
    the headers beside it, and the place of a player. \<open>session_run\<close> is every interleaving of publishing,
    fetching and sending; its invariants are \<open>stream_inv\<close> (the ring holds the newest packets) and
    \<open>player_inv\<close> (a player has been handed packets in order). \<open>Flv\<close>: \<open>mmedia/flv/FlvContext\<close> and a reader of
    FLV written from the format. \<open>Players\<close>: \<open>FlvPlayerUser\<close> and \<open>RtmpPlayerUser\<close> of \<open>live/user\<close> over the
    locale \<open>frame_sink\<close> of a context that takes frames, interpreted by FLV (\<open>flv\<close>: the viewer reads a file)
    and by RTMP (\<open>rtmp\<close>: the receiver of \<open>RtmpContext\<close> is the viewer); \<open>flv_run\<close> is the whole way from a
    publisher to a viewer.
  \<^item> \<open>Rtp\<close>: \<open>mmedia/rtp/Rtp\<close>, \<open>RtpH264\<close> and \<open>RtpOpus\<close>, and a receiver written from RFC 3550 and RFC 6184
    (\<open>rtp_stream\<close>, \<open>depay\<close>). \<open>RtpMux\<close>: \<open>RtpMuxer\<close>, \<open>TOpusEncoder\<close> and \<open>AACDecoder\<close> of \<open>mmedia/rtp\<close> over FAAD2 and
    libopus as parameters: from a tag to what a WebRTC viewer gets out of the packets.
  \<^item> \<open>Rtcp\<close>: \<open>Rtcp\<close>, \<open>SenderReport\<close> and \<open>Rtpfb\<close> of \<open>mmedia/rtp\<close>: reports read back, acknowledgements understood.
    \<open>WebrtcPlayer\<close>: \<open>mmedia/webrtc/Srtp\<close> and \<open>live/user/WebrtcPlayerUser\<close> over libsrtp as a parameter: frames from the
    stream to the socket, and packets sent again from the ring; \<open>webrtc_run\<close> is every interleaving of posting and
    arriving control packets behind the DTLS handshake, and \<open>webrtc_inv\<close> its invariant (what the rings hold).
  \<^item> \<open>Runs\<close>: runs of a deterministic step that logs, with the locales \<open>total_steps\<close> (an invariant under
    which no step fails), \<open>countdown\<close> (something due after a number of steps) and \<open>periodic\<close>.
    \<open>TimingWheel\<close>: \<open>network/net/TimingWheel\<close> and the idle timer of \<open>TcpConnection\<close>; the reference counts
    of the entries are modelled, since a task runs when the last pointer to its entry goes. It
    interprets the three locales (\<open>wheel\<close>, \<open>once\<close>, \<open>every\<close>, \<open>idle\<close>).
  \<^item> \<open>TcpConn\<close>: \<open>network/net/TcpConnection\<close>: the queue of buffers, sending, the loop that writes what the
    kernel takes, reading and closing. The answers of the kernel are an argument; the invariant
    (\<open>tcp_sends_in_order\<close>) says that nothing handed over is lost, doubled or reordered,
    but for the failed first write that \<open>failed_write_leaks\<close> is about.

  \<^bold>\<open>Where the guarantees end.\<close> The code has faults that the theorems go around, each shown by a theorem of its own: RTMP
  times from \<open>0xFFFFFF\<close> on (\<open>extended_timestamp_lost\<close>), chunk sizes of \<open>2 ^ 31\<close> and more
  (\<open>negative_chunk_size_overflows\<close>), a stream of 1001 packets (\<open>player_misses_key_frame\<close>), the shared table of the checksums
  (\<open>ieee_first_breaks_pat\<close>), empty buffers in the queue of a connection (\<open>empty_buffer_spins\<close>), retransmission after the
  sequence numbers have wrapped around (\<open>ring_empty_after_wrap\<close>).

  \<^bold>\<open>Bounds.\<close> No fuel is used. Loops are structural or terminate by a measure; the receiving loop of
  HTTP is a partial function whose value \<open>None\<close> is a loop that never ends. A message body is cut at
  \<open>out_chunk_size\<close>; its length is assumed to be below \<open>2 ^ 31\<close> where the code stores it in an \<open>int\<close>.
  Timestamps of the corrector are integers of the code's ranges. The writer of transport packets is
  the list of the packets. Callbacks of the wheel do not touch the wheel, and the pointers of a slot
  are destroyed from the front.

  \<^bold>\<open>Not modelled.\<close> SDP, STUN and DTLS of WebRTC, the
  sessions and services of \<open>live\<close>, the event loop and the calls of the system (their answers are arguments), configuration, logging, tasks and the main
  program. Concurrency between event loops is not modelled either: each component is the sequence of
  its own operations.
\<close>

end
